(* ===== verification/Prelude.thy ===== *)
theory Prelude
  imports Main "HOL-Library.Word" "HOL-Library.Multiset"
begin

text \<open>
  What the component theories share: the machine integer types of the C sources, the
  helpers the sources repeat (first free slot of a fixed table, a loop over a fixed
  table), facts about them, and the locales that lift a one-step invariant to runs.

  C integers of a fixed width are words.  \<open>char\<close> data is a list of 8-bit words without
  its terminating NUL; a C pointer that may be \<open>NULL\<close> is an option.
\<close>

unbundle bit_operations_syntax

type_synonym u8 = "8 word"
type_synonym u16 = "16 word"
type_synonym u32 = "32 word"
type_synonym u64 = "64 word"
type_synonym i64 = "64 word"  \<comment> \<open>read with \<open>sint\<close>\<close>
type_synonym bytes = "8 word list"

abbreviation U32_MAX :: u32 where "U32_MAX \<equiv> - 1"
abbreviation U64_MAX :: u64 where "U64_MAX \<equiv> - 1"

named_theorems inv_intros \<open>preservation facts of component invariants\<close>
named_theorems frame_simps \<open>fields an operation leaves alone\<close>

definition ascii :: "string \<Rightarrow> bytes" where
  "ascii s = map of_char s"

section \<open>Words\<close>

lemma word_less_max_iff: "(x :: 'a::len word) < - 1 \<longleftrightarrow> x \<noteq> - 1"
  by (metis word_n1_ge order_le_neq_trans order_less_le)

lemma unat_inc: "(x :: 'a::len word) \<noteq> - 1 \<Longrightarrow> unat (x + 1) = Suc (unat x)"
  by (simp add: add.commute[of x] unatSuc add_eq_0_iff)

lemma word_inc_greater: "(x :: 'a::len word) \<noteq> - 1 \<Longrightarrow> x < x + 1"
  by (simp add: word_less_nat_alt unat_inc)

lemma word_inc_nonzero: "(x :: 'a::len word) \<noteq> - 1 \<Longrightarrow> x + 1 \<noteq> 0"
  by (metis unat_inc nat.distinct(1) unat_0)

lemma word_le_inc: "(x :: 'a::len word) \<noteq> - 1 \<Longrightarrow> y \<le> x \<Longrightarrow> y \<le> x + 1"
  by (meson order_less_imp_le order_trans word_inc_greater)

lemma i64_sint_uint: "uint (w :: i64) < 2 ^ 63 \<Longrightarrow> sint w = uint w"
proof -
  assume w: "uint w < 2 ^ 63"
  have "- (2 ^ 63) \<le> (0 :: int)" by simp
  also have "0 \<le> uint w" by simp
  finally have "signed_take_bit 63 (uint w) = uint w" using w by (rule signed_take_bit_int_eq_self)
  then show ?thesis by (simp add: sint_uint)
qed

lemma i64_nonneg: "0 \<le> sint (w :: i64) \<Longrightarrow> uint w = sint w \<and> uint w < 2 ^ 63"
proof -
  assume "0 \<le> sint w"
  moreover have "sint w < 2 ^ 63" using sint_lt[of w] by simp
  moreover have "uint w = sint w mod 2 ^ 64" using uint_sint[of w] by (simp add: take_bit_eq_mod)
  ultimately show ?thesis by simp
qed

lemma of_nat_not_max: "n < 2 ^ 64 - 1 \<Longrightarrow> (of_nat n :: u64) \<noteq> - 1"
proof
  assume n: "n < 2 ^ 64 - 1" and "(of_nat n :: u64) = - 1"
  then have "(of_nat (Suc n) :: u64) = 0" by simp
  then have "2 ^ 64 dvd Suc n" by (simp only: word_of_nat_eq_0_iff) simp
  then have "2 ^ 64 \<le> Suc n" by (rule dvd_imp_le) simp
  with n show False by simp
qed

section \<open>The first slot of a table\<close>

text \<open>
  The sources look for a record by walking a fixed array from index 0 and stopping at the
  first hit; \<open>first_slot\<close> is that walk.
\<close>

fun first_slot :: "('a \<Rightarrow> bool) \<Rightarrow> 'a list \<Rightarrow> nat option" where
  "first_slot P [] = None"
| "first_slot P (x # xs) = (if P x then Some 0 else map_option Suc (first_slot P xs))"

lemma first_slot_SomeD:
  "first_slot P xs = Some i \<Longrightarrow> i < length xs \<and> P (xs ! i) \<and> (\<forall>j < i. \<not> P (xs ! j))"
proof (induction xs arbitrary: i)
  case Nil
  then show ?case by simp
next
  case (Cons x xs)
  show ?case
  proof (cases "P x")
    case True
    with Cons.prems show ?thesis by simp
  next
    case False
    with Cons.prems obtain k where k: "first_slot P xs = Some k" and i: "i = Suc k"
      by auto
    from Cons.IH[OF k] False i show ?thesis
      by (auto simp: less_Suc_eq_0_disj)
  qed
qed

lemma first_slot_None_iff: "first_slot P xs = None \<longleftrightarrow> (\<forall>x \<in> set xs. \<not> P x)"
  by (induction xs) auto

lemma first_slot_Some_ex: "x \<in> set xs \<Longrightarrow> P x \<Longrightarrow> \<exists>i. first_slot P xs = Some i"
  by (metis first_slot_None_iff not_None_eq)

lemma first_slotI:
  "i < length xs \<Longrightarrow> P (xs ! i) \<Longrightarrow> (\<And>j. j < i \<Longrightarrow> \<not> P (xs ! j)) \<Longrightarrow> first_slot P xs = Some i"
proof (induction xs arbitrary: i)
  case Nil
  then show ?case by simp
next
  case (Cons x xs)
  show ?case
  proof (cases i)
    case 0
    with Cons.prems show ?thesis by simp
  next
    case (Suc k)
    have "\<not> P x" using Cons.prems(3)[of 0] Suc by simp
    moreover have "first_slot P xs = Some k"
      by (rule Cons.IH) (use Cons.prems Suc in force)+
    ultimately show ?thesis using Suc by simp
  qed
qed

section \<open>Tables with at most one live record per identity\<close>

definition unique_by :: "('a \<Rightarrow> bool) \<Rightarrow> ('a \<Rightarrow> 'k) \<Rightarrow> 'a list \<Rightarrow> bool" where
  "unique_by live key xs \<longleftrightarrow>
     (\<forall>i < length xs. \<forall>j < length xs.
        live (xs ! i) \<longrightarrow> live (xs ! j) \<longrightarrow> key (xs ! i) = key (xs ! j) \<longrightarrow> i = j)"

lemma unique_byD:
  "unique_by live key xs \<Longrightarrow> i < length xs \<Longrightarrow> j < length xs \<Longrightarrow> live (xs ! i) \<Longrightarrow> live (xs ! j)
   \<Longrightarrow> key (xs ! i) = key (xs ! j) \<Longrightarrow> i = j"
  by (simp add: unique_by_def)

lemma unique_by_kill:
  assumes "unique_by live key xs" "\<not> live y"
  shows "unique_by live key (xs[i := y])"
proof (cases "i < length xs")
  case True
  with assms show ?thesis by (auto simp: unique_by_def nth_list_update split: if_splits)
next
  case False
  with assms show ?thesis by (simp add: list_update_beyond)
qed

lemma unique_by_same_key:
  "unique_by live key xs \<Longrightarrow> i < length xs \<Longrightarrow> live (xs ! i) \<Longrightarrow> key y = key (xs ! i)
   \<Longrightarrow> unique_by live key (xs[i := y])"
  unfolding unique_by_def by (simp add: nth_list_update) metis

lemma unique_by_fresh:
  assumes "unique_by live key xs" "\<And>x. x \<in> set xs \<Longrightarrow> live x \<Longrightarrow> key x \<noteq> key y"
  shows "unique_by live key (xs[i := y])"
proof (cases "i < length xs")
  case True
  have "key (xs ! j) \<noteq> key y" if "j < length xs" "live (xs ! j)" for j
    using assms(2) that by simp
  with assms(1) True show ?thesis
    unfolding unique_by_def by (simp add: nth_list_update) metis
next
  case False
  with assms show ?thesis by (simp add: list_update_beyond)
qed

section \<open>Counting live records\<close>

lemma count_update:
  "i < length xs \<Longrightarrow>
   length (filter P (xs[i := y])) + (if P (xs ! i) then 1 else 0) =
   length (filter P xs) + (if P y then 1 else 0)"
proof (induction xs arbitrary: i)
  case Nil
  then show ?case by simp
next
  case (Cons x xs)
  then show ?case by (cases i) auto
qed

lemma filter_all_length: "(\<And>x. x \<in> set xs \<Longrightarrow> P x) \<Longrightarrow> length (filter P xs) = length xs"
  by simp

lemma filter_length_bound: "length xs \<le> n \<Longrightarrow> length (filter P xs) \<le> n"
  by (rule order_trans[OF length_filter_le])

lemma filter_update_le:
  "i < length xs \<Longrightarrow> (P y \<Longrightarrow> P (xs ! i)) \<Longrightarrow> length (filter P (xs[i := y])) \<le> length (filter P xs)"
  using count_update[of i xs P y] by (auto split: if_splits)

text \<open>One update changes the bag of what the live records carry by the old and the new record only.\<close>

lemma live_bag_update:
  "i < length xs \<Longrightarrow>
   image_mset f (filter_mset P (mset (xs[i := y]))) + (if P (xs ! i) then {#f (xs ! i)#} else {#}) =
   image_mset f (filter_mset P (mset xs)) + (if P y then {#f y#} else {#})"
proof (induction xs arbitrary: i)
  case Nil
  then show ?case by simp
next
  case (Cons x xs)
  then show ?case using Cons.IH[of "i - 1"] by (cases i) (auto split: if_splits)
qed

lemma set_update_in: "x \<in> set (xs[i := y]) \<Longrightarrow> x = y \<or> x \<in> set xs"
  using set_update_subset_insert by fastforce

lemma bex_set_conv_nth: "(\<exists>x \<in> set xs. P x) \<longleftrightarrow> (\<exists>i < length xs. P (xs ! i))"
  by (metis in_set_conv_nth)

section \<open>Machines\<close>

text \<open>
  A component whose operations are collected in an event datatype is a step function; an
  invariant of one step holds along any list of events.
\<close>

locale event_machine =
  fixes step :: "'s \<Rightarrow> 'e \<Rightarrow> 's"
    and inv :: "'s \<Rightarrow> bool"
  assumes step_inv: "inv s \<Longrightarrow> inv (step s e)"
begin

lemma run_inv: "inv s \<Longrightarrow> inv (foldl step s es)"
  by (induction es arbitrary: s) (auto intro: step_inv)

end

text \<open>The same with a start state: every reachable state satisfies the invariant.\<close>

locale started_machine = event_machine +
  fixes init :: 's
  assumes init_inv: "inv init"
begin

lemma reachable_inv: "inv (foldl step init es)"
  by (rule run_inv) (rule init_inv)

end

text \<open>A component with interleaved steps of several tasks is a relation.\<close>

locale step_system =
  fixes stp :: "'s \<Rightarrow> 's \<Rightarrow> bool"
    and inv :: "'s \<Rightarrow> bool"
  assumes stp_inv: "stp s t \<Longrightarrow> inv s \<Longrightarrow> inv t"
begin

lemma rtrancl_inv: "stp\<^sup>*\<^sup>* s t \<Longrightarrow> inv s \<Longrightarrow> inv t"
  by (induction rule: rtranclp_induct) (auto intro: stp_inv)

end

section \<open>Heaps\<close>

text \<open>
  What a client of a heap relies on: a block handed out is not one that is live already, freeing a
  live block makes exactly that block dead, and neither changes the length of another live block.
\<close>

locale allocator =
  fixes alloc :: "'s \<Rightarrow> u32 \<Rightarrow> nat option \<times> 's"
    and dealloc :: "'s \<Rightarrow> nat \<Rightarrow> 's"
    and len :: "'s \<Rightarrow> nat \<Rightarrow> nat"
    and live :: "'s \<Rightarrow> nat set"
    and heap_ok :: "'s \<Rightarrow> bool"
  assumes alloc_ok: "heap_ok s \<Longrightarrow> alloc s n = (Some p, t) \<Longrightarrow>
      heap_ok t \<and> p \<notin> live s \<and> live t = insert p (live s) \<and> (\<forall>q \<in> live s. len t q = len s q)"
    and alloc_refused: "heap_ok s \<Longrightarrow> alloc s n = (None, t) \<Longrightarrow> t = s"
    and dealloc_ok: "heap_ok s \<Longrightarrow> p \<in> live s \<Longrightarrow>
      heap_ok (dealloc s p) \<and> live (dealloc s p) = live s - {p} \<and>
      (\<forall>q \<in> live s - {p}. len (dealloc s p) q = len s q)"

end
