(* ===== verification/SysState.thy ===== *)
theory SysState
  imports Prelude
begin

text \<open>
  The cached system state (main/system/sys_state.c and .h): eight subscriptions with interest
  and pending bits, the wall-clock anchor that is advanced on read, and the battery cache that
  announces changes to the subscribers.

  \<open>st_last\<close> is the file-scope counter \<open>last_subscription\<close>: the firmware has one state.  Signed
  64-bit seconds are words read with \<open>sint\<close>; the other signed fields (microseconds, millivolts,
  offsets) are integers; state and output pointers are never NULL.  The battery port is an argument.
\<close>

section \<open>Data\<close>

definition SYS_SUBSCRIPTIONS :: nat where "SYS_SUBSCRIPTIONS = 8"
definition SYS_POWER :: u32 where "SYS_POWER = 1"
definition SYS_CLOCK_CONFIG :: u32 where "SYS_CLOCK_CONFIG = 2"
definition SYS_NOTIFY :: u32 where "SYS_NOTIFY = 4"
definition SYS_TIMER :: u32 where "SYS_TIMER = 8"
definition SYS_TOPICS :: u32 where "SYS_TOPICS = SYS_POWER OR SYS_CLOCK_CONFIG OR SYS_NOTIFY OR SYS_TIMER"
definition SYS_NEVER :: u64 where "SYS_NEVER = - 1"
definition SYS_POWER_PERIOD_US :: u64 where "SYS_POWER_PERIOD_US = 1000000"
definition INT64_MAX :: i64 where "INT64_MAX = 0x7FFFFFFFFFFFFFFF"

datatype sys_result = SYS_OK | SYS_INVALID | SYS_FULL | SYS_STALE

record sys_subscription =
  sub_id :: u32
  sub_interest :: u32
  sub_pending :: u32

record sys_power_state =
  pw_sampled_at :: u64
  pw_millivolts :: int
  pw_error :: int
  pw_sampled :: bool
  pw_valid :: bool

datatype sys_clock_source = SYS_CLOCK_NONE | SYS_CLOCK_RTC | SYS_CLOCK_SNTP | SYS_CLOCK_PC
datatype sys_clock_health = SYS_CLOCK_UNSET | SYS_CLOCK_OK | SYS_CLOCK_UNAVAILABLE | SYS_CLOCK_OUT_OF_RANGE

record sys_clock_anchor =
  an_seconds :: i64
  an_mono_us :: u64
  an_microseconds :: int
  an_source :: sys_clock_source

record sys_clock_state =
  cl_seconds :: i64
  cl_microseconds :: int
  cl_utc_offset :: int
  cl_revision :: u32
  cl_source :: sys_clock_source
  cl_valid :: bool
  cl_trusted :: bool
  cl_health :: sys_clock_health

record sys_state =
  st_subscriptions :: "sys_subscription list"
  st_power :: sys_power_state
  st_clock :: sys_clock_anchor
  st_pc_clock :: sys_clock_anchor
  st_utc_offset :: int
  st_clock_revision :: u32
  st_clock_health :: sys_clock_health
  st_power_next :: u64
  st_announced_mv :: int
  st_announced_error :: int
  st_power_users :: u8
  st_announced :: bool
  st_announced_valid :: bool
  st_refresh :: bool
  st_last :: u32

definition sub_zero :: sys_subscription where
  "sub_zero = \<lparr>sub_id = 0, sub_interest = 0, sub_pending = 0\<rparr>"

definition anchor_zero :: sys_clock_anchor where
  "anchor_zero = \<lparr>an_seconds = 0, an_mono_us = 0, an_microseconds = 0, an_source = SYS_CLOCK_NONE\<rparr>"

definition state_zero :: sys_state where
  "state_zero = \<lparr>st_subscriptions = replicate SYS_SUBSCRIPTIONS sub_zero,
     st_power = \<lparr>pw_sampled_at = 0, pw_millivolts = 0, pw_error = 0, pw_sampled = False, pw_valid = False\<rparr>,
     st_clock = anchor_zero, st_pc_clock = anchor_zero, st_utc_offset = 0, st_clock_revision = 0,
     st_clock_health = SYS_CLOCK_UNSET, st_power_next = 0, st_announced_mv = 0, st_announced_error = 0,
     st_power_users = 0, st_announced = False, st_announced_valid = False, st_refresh = False, st_last = 0\<rparr>"

section \<open>Subscriptions\<close>

definition sub_find :: "sys_state \<Rightarrow> u32 \<Rightarrow> nat option" where
  "sub_find s sid = (if sid \<noteq> 0 then first_slot (\<lambda>x. sub_id x = sid) (st_subscriptions s) else None)"

definition wants_power :: "u32 \<Rightarrow> u8" where
  "wants_power interest = (if interest AND SYS_POWER \<noteq> 0 then 1 else 0)"

definition sub_put :: "nat \<Rightarrow> sys_subscription \<Rightarrow> sys_state \<Rightarrow> sys_state" where
  "sub_put i x s = s\<lparr>st_subscriptions := (st_subscriptions s)[i := x]\<rparr>"

definition sys_subscribe :: "sys_state \<Rightarrow> u32 \<Rightarrow> sys_result \<times> u32 option \<times> sys_state" where
  "sys_subscribe s interest =
     (if interest AND NOT SYS_TOPICS \<noteq> 0 then (SYS_INVALID, None, s)
      else if st_last s = U32_MAX then (SYS_FULL, None, s)
      else case first_slot (\<lambda>x. sub_id x = 0) (st_subscriptions s) of
        None \<Rightarrow> (SYS_FULL, None, s)
      | Some i \<Rightarrow>
        let sid = st_last s + 1;
            s1 = (sub_put i \<lparr>sub_id = sid, sub_interest = interest, sub_pending = interest\<rparr> s)\<lparr>st_last := sid\<rparr>
        in (SYS_OK, Some sid, s1\<lparr>st_power_users := st_power_users s1 + wants_power interest\<rparr>))"

definition sys_set_interest :: "sys_state \<Rightarrow> u32 \<Rightarrow> u32 \<Rightarrow> sys_result \<times> sys_state" where
  "sys_set_interest s sid interest =
     (if interest AND NOT SYS_TOPICS \<noteq> 0 then (SYS_INVALID, s)
      else case sub_find s sid of
        None \<Rightarrow> (SYS_STALE, s)
      | Some i \<Rightarrow>
        let x = st_subscriptions s ! i in
        (SYS_OK, (sub_put i (x\<lparr>sub_pending := (sub_pending x OR (interest AND NOT (sub_interest x))) AND interest,
                              sub_interest := interest\<rparr>) s)
           \<lparr>st_power_users := st_power_users s - wants_power (sub_interest x) + wants_power interest\<rparr>))"

definition sys_unsubscribe :: "sys_state \<Rightarrow> u32 \<Rightarrow> sys_result \<times> sys_state" where
  "sys_unsubscribe s sid =
     (case sub_find s sid of
        None \<Rightarrow> (SYS_STALE, s)
      | Some i \<Rightarrow> (SYS_OK, (sub_put i sub_zero s)
           \<lparr>st_power_users := st_power_users s - wants_power (sub_interest (st_subscriptions s ! i))\<rparr>))"

definition sys_poll :: "sys_state \<Rightarrow> u32 \<Rightarrow> sys_result \<times> u32 option \<times> sys_state" where
  "sys_poll s sid =
     (case sub_find s sid of
        None \<Rightarrow> (SYS_STALE, None, s)
      | Some i \<Rightarrow> (SYS_OK, Some (sub_pending (st_subscriptions s ! i)),
           sub_put i ((st_subscriptions s ! i)\<lparr>sub_pending := 0\<rparr>) s))"

definition publish_topic :: "u32 \<Rightarrow> sys_subscription list \<Rightarrow> sys_subscription list" where
  "publish_topic topic = map (\<lambda>x. x\<lparr>sub_pending := sub_pending x OR (sub_interest x AND topic)\<rparr>)"

definition sys_notify_publish :: "sys_state \<Rightarrow> sys_state" where
  "sys_notify_publish s = s\<lparr>st_subscriptions := publish_topic SYS_NOTIFY (st_subscriptions s)\<rparr>"

definition sys_timer_publish :: "sys_state \<Rightarrow> sys_state" where
  "sys_timer_publish s = s\<lparr>st_subscriptions := publish_topic SYS_TIMER (st_subscriptions s)\<rparr>"

definition publish_clock :: "sys_state \<Rightarrow> sys_state" where
  "publish_clock s = s\<lparr>st_clock_revision := (if st_clock_revision s \<noteq> U32_MAX then st_clock_revision s + 1
                                               else st_clock_revision s),
     st_subscriptions := publish_topic SYS_CLOCK_CONFIG (st_subscriptions s)\<rparr>"

section \<open>The clock\<close>

text \<open>The result is the return value and what \<open>*out\<close> holds afterwards.\<close>

definition sys_clock_snapshot :: "sys_state \<Rightarrow> u64 \<Rightarrow> bool \<times> sys_clock_state" where
  "sys_clock_snapshot s now =
     (let out = \<lparr>cl_seconds = 0, cl_microseconds = 0, cl_utc_offset = st_utc_offset s,
                 cl_revision = st_clock_revision s, cl_source = SYS_CLOCK_NONE, cl_valid = False,
                 cl_trusted = False, cl_health = st_clock_health s\<rparr>;
          a = (if an_source (st_clock s) \<noteq> SYS_CLOCK_NONE then st_clock s else st_pc_clock s) in
      if an_source a = SYS_CLOCK_NONE \<or> now < an_mono_us a then (False, out)
      else
        let delta = now - an_mono_us a;
            seconds0 = delta div 1000000;
            micros0 = an_microseconds a + uint (delta mod 1000000);
            micros = (if micros0 \<ge> 1000000 then micros0 - 1000000 else micros0);
            seconds = (if micros0 \<ge> 1000000 then seconds0 + 1 else seconds0) in
        if seconds > INT64_MAX - an_seconds a
        then (False, out\<lparr>cl_health := SYS_CLOCK_OUT_OF_RANGE\<rparr>)
        else (True, out\<lparr>cl_seconds := an_seconds a + seconds, cl_microseconds := micros,
                cl_source := an_source a, cl_trusted := (an_source a \<noteq> SYS_CLOCK_PC),
                cl_valid := True, cl_health := SYS_CLOCK_OK\<rparr>))"

definition same_clock :: "sys_clock_state \<Rightarrow> sys_clock_state \<Rightarrow> bool" where
  "same_clock a b \<longleftrightarrow> cl_health a = cl_health b \<and> cl_valid a = cl_valid b \<and> cl_source a = cl_source b \<and>
     cl_seconds a = cl_seconds b \<and> cl_microseconds a = cl_microseconds b"

text \<open>The three updates share this frame: compare the readings before and after the change.\<close>

definition clock_change :: "u64 \<Rightarrow> (sys_state \<Rightarrow> sys_state) \<Rightarrow> sys_state \<Rightarrow> sys_state" where
  "clock_change now f s =
     (if same_clock (snd (sys_clock_snapshot s now)) (snd (sys_clock_snapshot (f s) now)) then f s
      else publish_clock (f s))"

definition sys_clock_update :: "sys_state \<Rightarrow> sys_clock_anchor \<Rightarrow> sys_result \<times> sys_state" where
  "sys_clock_update s a =
     (if an_source a \<noteq> SYS_CLOCK_NONE \<and> an_source a \<noteq> SYS_CLOCK_RTC \<and> an_source a \<noteq> SYS_CLOCK_SNTP
         \<or> an_source a \<noteq> SYS_CLOCK_NONE \<and>
           (sint (an_seconds a) < 946684800 \<or> an_microseconds a < 0 \<or> an_microseconds a \<ge> 1000000)
      then (SYS_INVALID, s)
      else (SYS_OK, clock_change (an_mono_us a) (\<lambda>s. s\<lparr>st_clock := a,
              st_clock_health := (if an_source a \<noteq> SYS_CLOCK_NONE then SYS_CLOCK_OK else SYS_CLOCK_UNSET)\<rparr>) s))"

definition sys_clock_fail :: "sys_state \<Rightarrow> u64 \<Rightarrow> sys_clock_health \<Rightarrow> sys_result \<times> sys_state" where
  "sys_clock_fail s now health =
     (if health \<noteq> SYS_CLOCK_UNAVAILABLE \<and> health \<noteq> SYS_CLOCK_OUT_OF_RANGE then (SYS_INVALID, s)
      else (SYS_OK, clock_change now (\<lambda>s. s\<lparr>st_clock := anchor_zero, st_clock_health := health\<rparr>) s))"

definition sys_clock_offer_pc :: "sys_state \<Rightarrow> u32 \<Rightarrow> u64 \<Rightarrow> sys_result \<times> sys_state" where
  "sys_clock_offer_pc s seconds now =
     (if seconds < 1577836800 then (SYS_INVALID, s)
      else (SYS_OK, clock_change now (\<lambda>s. s\<lparr>st_pc_clock := anchor_zero\<lparr>an_seconds := ucast seconds,
              an_mono_us := now, an_source := SYS_CLOCK_PC\<rparr>\<rparr>) s))"

definition sys_clock_timezone :: "sys_state \<Rightarrow> int \<Rightarrow> sys_result \<times> sys_state" where
  "sys_clock_timezone s offset =
     (if offset < -50400 \<or> offset > 50400 then (SYS_INVALID, s)
      else if st_utc_offset s \<noteq> offset then (SYS_OK, publish_clock (s\<lparr>st_utc_offset := offset\<rparr>))
      else (SYS_OK, s))"

section \<open>The battery\<close>

definition sys_power_read :: "sys_state \<Rightarrow> bool \<times> sys_power_state" where
  "sys_power_read s = (pw_sampled (st_power s), st_power s)"

definition sys_power_refresh :: "sys_state \<Rightarrow> sys_state" where
  "sys_power_refresh s = s\<lparr>st_refresh := True\<rparr>"

definition sys_power_deadline :: "sys_state \<Rightarrow> u64" where
  "sys_power_deadline s = (if st_power_users s \<noteq> 0 \<or> st_refresh s then st_power_next s else SYS_NEVER)"

definition sys_power_step :: "sys_state \<Rightarrow> u64 \<Rightarrow> (u64 \<Rightarrow> sys_power_state) \<Rightarrow> sys_state" where
  "sys_power_step s now port =
     (if sys_power_deadline s = SYS_NEVER \<or> now < st_power_next s then s
      else
        let p = (port now)\<lparr>pw_sampled := True\<rparr>;
            s1 = s\<lparr>st_power := p, st_refresh := False,
                   st_power_next := (if now > U64_MAX - SYS_POWER_PERIOD_US then SYS_NEVER
                                     else now + SYS_POWER_PERIOD_US)\<rparr>;
            difference = pw_millivolts p - st_announced_mv s1;
            changed = (\<not> st_announced s1 \<or> pw_valid p \<noteq> st_announced_valid s1 \<or>
                       pw_error p \<noteq> st_announced_error s1 \<or>
                       (pw_valid p \<and> (difference \<ge> 20 \<or> difference \<le> -20))) in
        if \<not> changed then s1
        else s1\<lparr>st_announced := True, st_announced_valid := pw_valid p,
                st_announced_mv := pw_millivolts p, st_announced_error := pw_error p,
                st_subscriptions := publish_topic SYS_POWER (st_subscriptions s1)\<rparr>)"

section \<open>The operations as events\<close>

datatype state_event =
    SSubscribe u32
  | SSetInterest u32 u32
  | SUnsubscribe u32
  | SPoll u32
  | SNotifyPublish
  | STimerPublish
  | SClockUpdate sys_clock_anchor
  | SClockFail u64 sys_clock_health
  | SClockPc u32 u64
  | STimezone int
  | SRefresh
  | SPowerStep u64 sys_power_state

fun state_apply :: "sys_state \<Rightarrow> state_event \<Rightarrow> sys_state" where
  "state_apply s (SSubscribe i) = snd (snd (sys_subscribe s i))"
| "state_apply s (SSetInterest d i) = snd (sys_set_interest s d i)"
| "state_apply s (SUnsubscribe d) = snd (sys_unsubscribe s d)"
| "state_apply s (SPoll d) = snd (snd (sys_poll s d))"
| "state_apply s SNotifyPublish = sys_notify_publish s"
| "state_apply s STimerPublish = sys_timer_publish s"
| "state_apply s (SClockUpdate a) = snd (sys_clock_update s a)"
| "state_apply s (SClockFail now h) = snd (sys_clock_fail s now h)"
| "state_apply s (SClockPc sec now) = snd (sys_clock_offer_pc s sec now)"
| "state_apply s (STimezone off) = snd (sys_clock_timezone s off)"
| "state_apply s SRefresh = sys_power_refresh s"
| "state_apply s (SPowerStep now p) = sys_power_step s now (\<lambda>_. p)"

section \<open>The subscription invariant\<close>

definition sub_ok :: "u32 \<Rightarrow> sys_subscription \<Rightarrow> bool" where
  "sub_ok bound x \<longleftrightarrow>
     (if sub_id x = 0 then x = sub_zero
      else sub_id x \<le> bound \<and> sub_interest x AND NOT SYS_TOPICS = 0 \<and>
           sub_pending x AND NOT (sub_interest x) = 0)"

definition power_count :: "sys_subscription list \<Rightarrow> nat" where
  "power_count xs = length (filter (\<lambda>x. sub_interest x AND SYS_POWER \<noteq> 0) xs)"

definition sub_table_inv :: "u32 \<Rightarrow> u8 \<Rightarrow> sys_subscription list \<Rightarrow> bool" where
  "sub_table_inv bound users xs \<longleftrightarrow>
     length xs = SYS_SUBSCRIPTIONS \<and>
     unique_by (\<lambda>x. sub_id x \<noteq> 0) sub_id xs \<and>
     (\<forall>x \<in> set xs. sub_ok bound x) \<and>
     users = of_nat (power_count xs)"

definition anchor_ok :: "sys_clock_anchor \<Rightarrow> bool" where
  "anchor_ok a \<longleftrightarrow> an_source a = SYS_CLOCK_NONE \<or>
     0 \<le> sint (an_seconds a) \<and> 0 \<le> an_microseconds a \<and> an_microseconds a < 1000000"

definition state_inv :: "sys_state \<Rightarrow> bool" where
  "state_inv s \<longleftrightarrow> sub_table_inv (st_last s) (st_power_users s) (st_subscriptions s) \<and>
     anchor_ok (st_clock s) \<and> anchor_ok (st_pc_clock s) \<and> - 50400 \<le> st_utc_offset s \<and> st_utc_offset s \<le> 50400"

lemma sub_zero_simps [simp]: "sub_id sub_zero = 0" "sub_interest sub_zero = 0" "sub_pending sub_zero = 0" "sub_ok bound sub_zero"
  by (simp_all add: sub_zero_def sub_ok_def)

lemma sub_find_SomeD:
  "sub_find s sid = Some i \<Longrightarrow> i < length (st_subscriptions s) \<and> sub_id (st_subscriptions s ! i) = sid \<and> sid \<noteq> 0"
  by (auto simp: sub_find_def dest: first_slot_SomeD split: if_splits)

lemma power_count_update:
  assumes "i < length xs"
  shows "(of_nat (power_count (xs[i := x])) :: u8) =
    of_nat (power_count xs) - wants_power (sub_interest (xs ! i)) + wants_power (sub_interest x)"
proof -
  have "power_count (xs[i := x]) + (if sub_interest (xs ! i) AND SYS_POWER \<noteq> 0 then 1 else 0) =
      power_count xs + (if sub_interest x AND SYS_POWER \<noteq> 0 then 1 else 0)"
    unfolding power_count_def by (rule count_update[OF assms])
  then have "(of_nat (power_count (xs[i := x])) :: u8) + wants_power (sub_interest (xs ! i)) =
      of_nat (power_count xs) + wants_power (sub_interest x)"
    by (simp add: wants_power_def split: if_splits) (metis of_nat_Suc add.commute)+
  then show ?thesis by (simp add: algebra_simps)
qed

lemma sub_table_invD:
  assumes "sub_table_inv bound users xs"
  shows "length xs = SYS_SUBSCRIPTIONS" "unique_by (\<lambda>x. sub_id x \<noteq> 0) sub_id xs"
    "x \<in> set xs \<Longrightarrow> sub_ok bound x" "users = of_nat (power_count xs)"
  using assms by (auto simp: sub_table_inv_def)

lemma sub_ok_mono: "sub_ok bound x \<Longrightarrow> bound \<le> bound' \<Longrightarrow> sub_ok bound' x"
  by (auto simp: sub_ok_def)

lemma sub_table_put:
  assumes inv: "sub_table_inv bound users xs" and i: "i < length xs" and grow: "bound \<le> bound'"
    and u: "unique_by (\<lambda>x. sub_id x \<noteq> 0) sub_id (xs[i := x])" and x: "sub_ok bound' x"
  shows "sub_table_inv bound' (users - wants_power (sub_interest (xs ! i)) + wants_power (sub_interest x)) (xs[i := x])"
  unfolding sub_table_inv_def
proof (intro conjI ballI)
  fix y assume "y \<in> set (xs[i := x])"
  then have "y = x \<or> y \<in> set xs" by (rule set_update_in)
  then show "sub_ok bound' y" using x sub_ok_mono[OF sub_table_invD(3)[OF inv] grow] by auto
qed (use u i sub_table_invD(1,4)[OF inv] in \<open>simp_all add: power_count_update[symmetric]\<close>)

lemma bits_or_and:
  fixes p i t :: "'a::len word"
  shows "p AND NOT i = 0 \<Longrightarrow> (p OR (i AND t)) AND NOT i = 0"
  by (auto simp: bit_eq_iff bit_simps)

lemma bits_and_self:
  fixes p i :: "'a::len word"
  shows "(p AND i) AND NOT i = 0"
  by (auto simp: bit_eq_iff bit_simps)

lemma sub_ok_publish:
  "sub_ok bound x \<Longrightarrow> sub_ok bound (x\<lparr>sub_pending := sub_pending x OR (sub_interest x AND topic)\<rparr>)"
  using bits_or_and[of "sub_pending x" "sub_interest x" topic] by (auto simp: sub_ok_def)

lemma sub_table_publish: "sub_table_inv bound users xs \<Longrightarrow> sub_table_inv bound users (publish_topic topic xs)"
  by (auto simp: sub_table_inv_def publish_topic_def unique_by_def power_count_def filter_map comp_def
      intro: sub_ok_publish)


lemma sys_subscribe_table:
  assumes inv: "sub_table_inv (st_last s) (st_power_users s) (st_subscriptions s)"
    and r: "sys_subscribe s interest = (res, out, t)"
  shows "sub_table_inv (st_last t) (st_power_users t) (st_subscriptions t)"
proof (cases "interest AND NOT SYS_TOPICS \<noteq> 0 \<or> st_last s = U32_MAX \<or>
    first_slot (\<lambda>x. sub_id x = 0) (st_subscriptions s) = None")
  case True
  then show ?thesis using inv r by (auto simp: sys_subscribe_def split: if_splits)
next
  case False
  then obtain i where i: "first_slot (\<lambda>x. sub_id x = 0) (st_subscriptions s) = Some i" by auto
  let ?x = "\<lparr>sub_id = st_last s + 1, sub_interest = interest, sub_pending = interest\<rparr>"
  note I = first_slot_SomeD[OF i]
  have "sub_ok (st_last s) (st_subscriptions s ! i)" using I sub_table_invD(3)[OF inv] by simp
  then have zero: "st_subscriptions s ! i = sub_zero" using I by (simp add: sub_ok_def)
  have "unique_by (\<lambda>x. sub_id x \<noteq> 0) sub_id ((st_subscriptions s)[i := ?x])"
  proof (rule unique_by_fresh[OF sub_table_invD(2)[OF inv]])
    fix x assume "x \<in> set (st_subscriptions s)" "sub_id x \<noteq> 0"
    then have "sub_id x \<le> st_last s" using sub_table_invD(3)[OF inv] by (auto simp: sub_ok_def)
    then show "sub_id x \<noteq> sub_id ?x" using False word_inc_greater[of "st_last s"] by auto
  qed
  moreover have "sub_ok (st_last s + 1) ?x" using False word_inc_nonzero[of "st_last s"] by (auto simp: sub_ok_def)
  moreover have "st_last s \<le> st_last s + 1" using False by (simp add: word_le_inc)
  ultimately have "sub_table_inv (st_last s + 1) (st_power_users s - wants_power 0 + wants_power interest)
      ((st_subscriptions s)[i := ?x])"
    using sub_table_put[OF inv, of i "st_last s + 1" ?x] I zero by simp
  then show ?thesis
    using False i r by (auto simp: sys_subscribe_def sub_put_def wants_power_def Let_def)
qed

lemma sub_table_same_id:
  assumes inv: "sub_table_inv bound users xs" and i: "i < length xs" "sub_id (xs ! i) \<noteq> 0"
    and x: "sub_id x = sub_id (xs ! i)" "sub_interest x AND NOT SYS_TOPICS = 0"
      "sub_pending x AND NOT (sub_interest x) = 0"
  shows "sub_table_inv bound (users - wants_power (sub_interest (xs ! i)) + wants_power (sub_interest x)) (xs[i := x])"
proof (rule sub_table_put[OF inv i(1) order_refl])
  show "unique_by (\<lambda>x. sub_id x \<noteq> 0) sub_id (xs[i := x])"
    using i x(1) by (intro unique_by_same_key[OF sub_table_invD(2)[OF inv]]) simp_all
  have "sub_ok bound (xs ! i)" using i sub_table_invD(3)[OF inv] by simp
  then show "sub_ok bound x" using i x by (simp add: sub_ok_def)
qed

lemma sys_set_interest_table:
  assumes inv: "sub_table_inv (st_last s) (st_power_users s) (st_subscriptions s)"
  shows "let t = snd (sys_set_interest s sid interest) in
    sub_table_inv (st_last t) (st_power_users t) (st_subscriptions t)"
proof (cases "interest AND NOT SYS_TOPICS \<noteq> 0 \<or> sub_find s sid = None")
  case True
  then show ?thesis using inv by (auto simp: sys_set_interest_def)
next
  case False
  then obtain i where i: "sub_find s sid = Some i" by auto
  note I = sub_find_SomeD[OF i]
  show ?thesis
    using sub_table_same_id[OF inv, of i "(st_subscriptions s ! i)\<lparr>sub_pending := (sub_pending (st_subscriptions s ! i) OR
        (interest AND NOT (sub_interest (st_subscriptions s ! i)))) AND interest, sub_interest := interest\<rparr>"]
      False i I by (simp add: sys_set_interest_def sub_put_def Let_def bits_and_self)
qed

lemma sys_unsubscribe_table:
  assumes inv: "sub_table_inv (st_last s) (st_power_users s) (st_subscriptions s)"
  shows "let t = snd (sys_unsubscribe s sid) in
    sub_table_inv (st_last t) (st_power_users t) (st_subscriptions t)"
proof (cases "sub_find s sid")
  case None
  then show ?thesis using inv by (simp add: sys_unsubscribe_def)
next
  case (Some i)
  note I = sub_find_SomeD[OF Some]
  have "unique_by (\<lambda>x. sub_id x \<noteq> 0) sub_id ((st_subscriptions s)[i := sub_zero])"
    by (rule unique_by_kill[OF sub_table_invD(2)[OF inv]]) simp
  from sub_table_put[OF inv _ order_refl this] I Some show ?thesis
    by (simp add: sys_unsubscribe_def sub_put_def Let_def wants_power_def)
qed

lemma sys_poll_table:
  assumes inv: "sub_table_inv (st_last s) (st_power_users s) (st_subscriptions s)"
  shows "let t = snd (snd (sys_poll s sid)) in
    sub_table_inv (st_last t) (st_power_users t) (st_subscriptions t)"
proof (cases "sub_find s sid")
  case None
  then show ?thesis using inv by (simp add: sys_poll_def)
next
  case (Some i)
  note I = sub_find_SomeD[OF Some]
  have "sub_ok (st_last s) (st_subscriptions s ! i)" using I sub_table_invD(3)[OF inv] by simp
  with sub_table_same_id[OF inv, of i "(st_subscriptions s ! i)\<lparr>sub_pending := 0\<rparr>"] I Some show ?thesis
    by (simp add: sys_poll_def sub_put_def Let_def sub_ok_def)
qed

lemma publish_clock_frame [frame_simps]:
  "st_last (publish_clock s) = st_last s" "st_power_users (publish_clock s) = st_power_users s"
  "st_clock (publish_clock s) = st_clock s" "st_pc_clock (publish_clock s) = st_pc_clock s"
  "st_utc_offset (publish_clock s) = st_utc_offset s"
  "st_subscriptions (publish_clock s) = publish_topic SYS_CLOCK_CONFIG (st_subscriptions s)"
  by (simp_all add: publish_clock_def)

lemma state_inv_publish_clock: "state_inv s \<Longrightarrow> state_inv (publish_clock s)"
  by (simp add: state_inv_def frame_simps sub_table_publish)

lemma clock_change_inv: "state_inv (f s) \<Longrightarrow> state_inv (clock_change now f s)"
  by (simp add: clock_change_def state_inv_publish_clock)

lemma state_inv_clock:
  "state_inv s \<Longrightarrow> anchor_ok a \<Longrightarrow> state_inv (s\<lparr>st_clock := a, st_clock_health := h\<rparr>)"
  by (simp add: state_inv_def)

lemma sys_clock_update_inv: "state_inv s \<Longrightarrow> state_inv (snd (sys_clock_update s a))"
proof -
  assume inv: "state_inv s"
  show ?thesis
  proof (cases "fst (sys_clock_update s a) = SYS_INVALID")
    case True
    with inv show ?thesis by (auto simp: sys_clock_update_def split: if_splits)
  next
    case False
    then have "anchor_ok a" by (auto simp: sys_clock_update_def anchor_ok_def split: if_splits)
    with False inv show ?thesis by (simp add: sys_clock_update_def clock_change_inv state_inv_clock)
  qed
qed

lemma sys_clock_fail_inv: "state_inv s \<Longrightarrow> state_inv (snd (sys_clock_fail s now h))"
proof -
  assume inv: "state_inv s"
  have "anchor_ok anchor_zero" by (simp add: anchor_ok_def anchor_zero_def)
  with inv show ?thesis by (simp add: sys_clock_fail_def clock_change_inv state_inv_clock)
qed

lemma u32_seconds_nonneg: "sint (ucast (x :: u32) :: i64) = uint x"
proof -
  have "uint x < 2 ^ 32" using uint_lt2p[of x] by simp
  then show ?thesis by (subst i64_sint_uint) (simp_all add: uint_up_ucast is_up)
qed

lemma sys_clock_offer_pc_inv: "state_inv s \<Longrightarrow> state_inv (snd (sys_clock_offer_pc s sec now))"
proof -
  assume "state_inv s"
  then have "state_inv (s\<lparr>st_pc_clock := anchor_zero\<lparr>an_seconds := ucast sec, an_mono_us := now,
      an_source := SYS_CLOCK_PC\<rparr>\<rparr>)"
    using u32_seconds_nonneg[of sec] by (simp add: state_inv_def anchor_ok_def anchor_zero_def)
  with \<open>state_inv s\<close> show ?thesis by (simp add: sys_clock_offer_pc_def clock_change_inv)
qed

lemma sys_clock_timezone_inv: "state_inv s \<Longrightarrow> state_inv (snd (sys_clock_timezone s off))"
  by (auto simp: sys_clock_timezone_def state_inv_def frame_simps sub_table_publish)

lemma sys_power_step_inv: "state_inv s \<Longrightarrow> state_inv (sys_power_step s now port)"
  by (simp add: sys_power_step_def state_inv_def sub_table_publish Let_def)

lemma state_zero_inv: "state_inv state_zero"
  unfolding state_inv_def sub_table_inv_def unique_by_def
  by (simp add: state_zero_def power_count_def anchor_ok_def anchor_zero_def)

lemma sub_op_inv:
  assumes "state_inv s" "sub_table_inv (st_last t) (st_power_users t) (st_subscriptions t)"
    "st_clock t = st_clock s" "st_pc_clock t = st_pc_clock s" "st_utc_offset t = st_utc_offset s"
  shows "state_inv t"
  using assms by (simp add: state_inv_def)

lemma sub_op_frame [frame_simps]:
  "st_clock (snd (snd (sys_subscribe s i))) = st_clock s"
  "st_pc_clock (snd (snd (sys_subscribe s i))) = st_pc_clock s"
  "st_utc_offset (snd (snd (sys_subscribe s i))) = st_utc_offset s"
  "st_clock (snd (sys_set_interest s d i)) = st_clock s"
  "st_pc_clock (snd (sys_set_interest s d i)) = st_pc_clock s"
  "st_utc_offset (snd (sys_set_interest s d i)) = st_utc_offset s"
  "st_clock (snd (sys_unsubscribe s d)) = st_clock s"
  "st_pc_clock (snd (sys_unsubscribe s d)) = st_pc_clock s"
  "st_utc_offset (snd (sys_unsubscribe s d)) = st_utc_offset s"
  "st_clock (snd (snd (sys_poll s d))) = st_clock s"
  "st_pc_clock (snd (snd (sys_poll s d))) = st_pc_clock s"
  "st_utc_offset (snd (snd (sys_poll s d))) = st_utc_offset s"
  by (simp_all add: sys_subscribe_def sys_set_interest_def sys_unsubscribe_def sys_poll_def sub_put_def
      Let_def split: option.split)

interpretation state_run: started_machine state_apply state_inv state_zero
proof unfold_locales
  fix s e assume inv: "state_inv s"
  then have tab: "sub_table_inv (st_last s) (st_power_users s) (st_subscriptions s)" by (simp add: state_inv_def)
  show "state_inv (state_apply s e)"
  proof (cases e)
    case (SSubscribe i)
    then show ?thesis
      using sys_subscribe_table[OF tab, of i] sub_op_frame(1-3)[of s i]
      by (cases "sys_subscribe s i") (auto intro: sub_op_inv[OF inv])
  next
    case (SSetInterest d i)
    then show ?thesis using sys_set_interest_table[OF tab, of d i] by (auto intro: sub_op_inv[OF inv] simp: frame_simps Let_def)
  next
    case (SUnsubscribe d)
    then show ?thesis using sys_unsubscribe_table[OF tab, of d] by (auto intro: sub_op_inv[OF inv] simp: frame_simps Let_def)
  next
    case (SPoll d)
    then show ?thesis using sys_poll_table[OF tab, of d] by (auto intro: sub_op_inv[OF inv] simp: frame_simps Let_def)
  qed (use inv in \<open>simp_all add: sys_clock_update_inv sys_clock_fail_inv sys_clock_offer_pc_inv sys_clock_timezone_inv
      sys_power_step_inv\<close>, simp_all add: state_inv_def sys_notify_publish_def sys_timer_publish_def
      sys_power_refresh_def sub_table_publish)
qed (rule state_zero_inv)

section \<open>Handles and pending bits along a run\<close>

definition sub_gone :: "u32 \<Rightarrow> sys_state \<Rightarrow> bool" where
  "sub_gone sid s \<longleftrightarrow> sid \<le> st_last s \<and> (\<forall>x \<in> set (st_subscriptions s). sub_id x \<noteq> sid)"

definition sub_names :: "u32 \<Rightarrow> state_event \<Rightarrow> bool" where
  "sub_names sid e \<longleftrightarrow> (case e of SSetInterest d _ \<Rightarrow> d = sid | SUnsubscribe d \<Rightarrow> d = sid | SPoll d \<Rightarrow> d = sid | _ \<Rightarrow> False)"

definition sub_due :: "u32 \<Rightarrow> u32 \<Rightarrow> sys_state \<Rightarrow> bool" where
  "sub_due sid bits s \<longleftrightarrow>
     (\<exists>x \<in> set (st_subscriptions s). sub_id x = sid \<and> sub_pending x AND bits = bits)"

lemma publish_topic_ids: "sub_id ` set (publish_topic topic xs) = sub_id ` set xs"
  by (auto simp: publish_topic_def image_image)

lemma word_or_keeps: "(p :: 'a::len word) AND b = b \<Longrightarrow> (p OR q) AND b = b"
  by (auto simp: bit_eq_iff bit_simps)

lemma publish_topic_due:
  "\<exists>x \<in> set xs. sub_id x = sid \<and> sub_pending x AND bits = bits \<Longrightarrow>
   \<exists>x \<in> set (publish_topic topic xs). sub_id x = sid \<and> sub_pending x AND bits = bits"
  by (force simp: publish_topic_def word_or_keeps)

text \<open>What an event that does not name a handle does to the table and the counter.\<close>

lemma clock_change_subs:
  assumes "st_subscriptions (f s) = st_subscriptions s" "st_last (f s) = st_last s"
  shows "(\<exists>topic. st_subscriptions (clock_change now f s) = publish_topic topic (st_subscriptions s)) \<and>
    st_last (clock_change now f s) = st_last s"
proof -
  have "publish_topic 0 xs = xs" for xs by (simp add: publish_topic_def)
  with assms show ?thesis unfolding clock_change_def by (auto simp: frame_simps) metis+
qed

lemma publish_topic_none: "\<exists>topic. xs = publish_topic topic xs"
  by (rule exI[of _ 0]) (simp add: publish_topic_def)

lemma clock_update_subs:
  "\<exists>topic. st_subscriptions (snd (sys_clock_update s a)) = publish_topic topic (st_subscriptions s) \<and>
     st_last (snd (sys_clock_update s a)) = st_last s"
  by (simp add: sys_clock_update_def publish_topic_none clock_change_subs)

lemma clock_fail_subs:
  "\<exists>topic. st_subscriptions (snd (sys_clock_fail s now h)) = publish_topic topic (st_subscriptions s) \<and>
     st_last (snd (sys_clock_fail s now h)) = st_last s"
  by (simp add: sys_clock_fail_def publish_topic_none clock_change_subs)

lemma clock_pc_subs:
  "\<exists>topic. st_subscriptions (snd (sys_clock_offer_pc s sec now)) = publish_topic topic (st_subscriptions s) \<and>
     st_last (snd (sys_clock_offer_pc s sec now)) = st_last s"
  by (simp add: sys_clock_offer_pc_def publish_topic_none clock_change_subs)

lemma state_apply_subs:
  "(\<exists>topic. st_subscriptions (state_apply s e) = publish_topic topic (st_subscriptions s) \<and>
      st_last (state_apply s e) = st_last s) \<or>
   (\<exists>i x. i < length (st_subscriptions s) \<and> sub_id (st_subscriptions s ! i) = 0 \<and> st_last s \<noteq> U32_MAX \<and>
      sub_id x = st_last s + 1 \<and>
      st_subscriptions (state_apply s e) = (st_subscriptions s)[i := x] \<and> st_last (state_apply s e) = st_last s + 1) \<or>
   (\<exists>i x d. i < length (st_subscriptions s) \<and> sub_id (st_subscriptions s ! i) = d \<and> d \<noteq> 0 \<and> sub_names d e \<and>
      (sub_id x = 0 \<or> sub_id x = d) \<and>
      st_subscriptions (state_apply s e) = (st_subscriptions s)[i := x] \<and> st_last (state_apply s e) = st_last s)"
  (is "?pub \<or> ?new \<or> ?own")
proof -
  have zero: "publish_topic 0 xs = xs" for xs by (simp add: publish_topic_def)
  have same: ?pub if "st_subscriptions (state_apply s e) = st_subscriptions s" "st_last (state_apply s e) = st_last s"
    using that zero by metis
  show ?thesis
  proof (cases e)
    case (SSubscribe i)
    show ?thesis
    proof (cases "fst (sys_subscribe s i) = SYS_OK")
      case True
      then obtain k where k: "first_slot (\<lambda>x. sub_id x = 0) (st_subscriptions s) = Some k" "st_last s \<noteq> U32_MAX"
        by (auto simp: sys_subscribe_def split: if_splits option.splits)
      let ?x = "\<lparr>sub_id = st_last s + 1, sub_interest = i, sub_pending = i\<rparr>"
      have "st_subscriptions (state_apply s e) = (st_subscriptions s)[k := ?x]" "st_last (state_apply s e) = st_last s + 1"
        using True k SSubscribe by (auto simp: sys_subscribe_def sub_put_def Let_def split: if_splits)
      then have ?new using first_slot_SomeD[OF k(1)] k(2) by (intro exI[of _ k] exI[of _ ?x]) simp
      then show ?thesis by blast
    next
      case False
      then show ?thesis
        using SSubscribe by (intro disjI1 same) (auto simp: sys_subscribe_def Let_def split: if_splits option.splits)
    qed
  next
    case (SSetInterest d i)
    show ?thesis
    proof (cases "fst (sys_set_interest s d i) = SYS_OK")
      case True
      then obtain k where k: "sub_find s d = Some k" "i AND NOT SYS_TOPICS = 0"
        by (auto simp: sys_set_interest_def split: if_splits option.splits)
      let ?x = "(st_subscriptions s ! k)\<lparr>sub_pending := (sub_pending (st_subscriptions s ! k) OR
        (i AND NOT (sub_interest (st_subscriptions s ! k)))) AND i, sub_interest := i\<rparr>"
      have "st_subscriptions (state_apply s e) = (st_subscriptions s)[k := ?x]" "st_last (state_apply s e) = st_last s"
        using k SSetInterest by (simp_all add: sys_set_interest_def sub_put_def Let_def)
      then have ?own using SSetInterest sub_find_SomeD[OF k(1)]
        by (intro exI[of _ k] exI[of _ ?x]) (simp add: sub_names_def)
      then show ?thesis by blast
    next
      case False
      then show ?thesis
        using SSetInterest by (intro disjI1 same) (auto simp: sys_set_interest_def Let_def split: if_splits option.splits)
    qed
  next
    case (SUnsubscribe d)
    show ?thesis
    proof (cases "sub_find s d")
      case None
      then show ?thesis using SUnsubscribe by (intro disjI1 same) (simp_all add: sys_unsubscribe_def)
    next
      case (Some k)
      then have ?own using SUnsubscribe sub_find_SomeD[OF Some]
        by (auto simp: sys_unsubscribe_def sub_put_def sub_names_def intro!: exI[of _ k] exI[of _ sub_zero])
      then show ?thesis by blast
    qed
  next
    case (SPoll d)
    show ?thesis
    proof (cases "sub_find s d")
      case None
      then show ?thesis using SPoll by (intro disjI1 same) (simp_all add: sys_poll_def)
    next
      case (Some k)
      let ?x = "(st_subscriptions s ! k)\<lparr>sub_pending := 0\<rparr>"
      have ?own using Some SPoll sub_find_SomeD[OF Some]
        by (intro exI[of _ k], intro exI[of _ ?x], intro exI[of _ d]) (simp add: sys_poll_def sub_put_def sub_names_def)
      then show ?thesis by blast
    qed
  next
    case (SClockUpdate a)
    then show ?thesis using clock_update_subs[of s a] by simp
  next
    case (SClockFail now h)
    then show ?thesis using clock_fail_subs[of s now h] by simp
  next
    case (SClockPc sec now)
    then show ?thesis using clock_pc_subs[of s sec now] by simp
  next
    case (STimezone off)
    then show ?thesis
      using same by (auto simp: sys_clock_timezone_def frame_simps)
  next
    case (SPowerStep now p)
    then show ?thesis
      using same by (auto simp: sys_power_step_def Let_def)
  qed (auto simp: sys_notify_publish_def sys_timer_publish_def sys_power_refresh_def publish_topic_none)
qed

lemma state_apply_subs_cases:
  obtains
    (pub) topic where "st_subscriptions (state_apply s e) = publish_topic topic (st_subscriptions s)"
      "st_last (state_apply s e) = st_last s"
  | (new) i x where "sub_id (st_subscriptions s ! i) = 0" "st_last s \<noteq> U32_MAX" "sub_id x = st_last s + 1"
      "st_subscriptions (state_apply s e) = (st_subscriptions s)[i := x]" "st_last (state_apply s e) = st_last s + 1"
  | (own) i x where "i < length (st_subscriptions s)" "sub_names (sub_id (st_subscriptions s ! i)) e"
      "sub_id x = 0 \<or> sub_id x = sub_id (st_subscriptions s ! i)"
      "st_subscriptions (state_apply s e) = (st_subscriptions s)[i := x]" "st_last (state_apply s e) = st_last s"
  using state_apply_subs[of s e] by blast

lemma sub_gone_step: "sub_gone sid s \<Longrightarrow> sid \<noteq> 0 \<Longrightarrow> sub_gone sid (state_apply s e)"
proof -
  assume gone: "sub_gone sid s" and nz: "sid \<noteq> 0"
  have fresh: "sid \<noteq> st_last s + 1" if "st_last s \<noteq> U32_MAX"
    using gone word_inc_greater[OF that] by (auto simp: sub_gone_def)
  have le: "sid \<le> st_last s + 1" if "st_last s \<noteq> U32_MAX"
    using gone that by (simp add: sub_gone_def word_le_inc)
  show ?thesis
  proof (cases rule: state_apply_subs_cases[of s e])
    case (pub topic)
    then show ?thesis using gone by (auto simp: sub_gone_def publish_topic_def)
  next
    case (new i x)
    then show ?thesis using gone fresh le by (auto simp: sub_gone_def dest!: set_update_in)
  next
    case (own i x)
    then have "sub_id (st_subscriptions s ! i) \<noteq> sid" using gone by (auto simp: sub_gone_def)
    with own show ?thesis using gone nz by (auto simp: sub_gone_def dest!: set_update_in)
  qed
qed

lemma sub_gone_run: "sub_gone sid s \<Longrightarrow> sid \<noteq> 0 \<Longrightarrow> sub_gone sid (foldl state_apply s es)"
  by (induction es arbitrary: s) (auto intro: sub_gone_step)

lemma sub_gone_find: "sub_gone sid s \<Longrightarrow> sub_find s sid = None"
  by (simp add: sub_find_def sub_gone_def first_slot_None_iff)

lemma sys_unsubscribe_gone:
  assumes inv: "state_inv s" and ok: "sys_unsubscribe s sid = (SYS_OK, t)"
  shows "sub_gone sid t \<and> sid \<noteq> 0"
proof -
  have tab: "sub_table_inv (st_last s) (st_power_users s) (st_subscriptions s)" using inv by (simp add: state_inv_def)
  obtain i where i: "sub_find s sid = Some i" using ok by (auto simp: sys_unsubscribe_def split: option.splits)
  note I = sub_find_SomeD[OF i]
  have t: "st_subscriptions t = (st_subscriptions s)[i := sub_zero]" "st_last t = st_last s"
    using ok i by (auto simp: sys_unsubscribe_def sub_put_def)
  have "sub_ok (st_last s) (st_subscriptions s ! i)" using I sub_table_invD(3)[OF tab] by simp
  then have le: "sid \<le> st_last s" using I by (auto simp: sub_ok_def)
  have "sub_id ((st_subscriptions s)[i := sub_zero] ! j) \<noteq> sid" if "j < length (st_subscriptions s)" for j
    using unique_byD[OF sub_table_invD(2)[OF tab] that, of i] I that by (cases "j = i") auto
  then have "\<forall>x \<in> set (st_subscriptions t). sub_id x \<noteq> sid"
    unfolding t by (metis in_set_conv_nth length_list_update)
  with le t I show ?thesis by (simp add: sub_gone_def)
qed

lemma sub_due_step:
  assumes due: "sub_due sid bits s" and nz: "sid \<noteq> 0" and other: "\<not> sub_names sid e"
  shows "sub_due sid bits (state_apply s e)"
proof -
  obtain k where k: "k < length (st_subscriptions s)" "sub_id (st_subscriptions s ! k) = sid"
      "sub_pending (st_subscriptions s ! k) AND bits = bits"
    using due by (auto simp: sub_due_def in_set_conv_nth)
  have keep: "sub_due sid bits t" if "st_subscriptions t = (st_subscriptions s)[i := x]" "i \<noteq> k" for t i x
  proof -
    have "(st_subscriptions s)[i := x] ! k = st_subscriptions s ! k" using that(2) by simp
    then have "st_subscriptions s ! k \<in> set ((st_subscriptions s)[i := x])"
      using k(1) by (metis length_list_update nth_mem)
    then show ?thesis using k(2,3) that(1) by (auto simp: sub_due_def)
  qed
  show ?thesis
  proof (cases rule: state_apply_subs_cases[of s e])
    case (pub topic)
    then show ?thesis using due publish_topic_due by (simp add: sub_due_def)
  next
    case (new i x)
    then show ?thesis using keep k nz by metis
  next
    case (own i x)
    then show ?thesis using keep k other by metis
  qed
qed

lemma sub_due_run:
  "sub_due sid bits s \<Longrightarrow> sid \<noteq> 0 \<Longrightarrow> \<forall>e \<in> set es. \<not> sub_names sid e \<Longrightarrow> sub_due sid bits (foldl state_apply s es)"
  by (induction es arbitrary: s) (auto intro: sub_due_step)

lemma sub_due_poll:
  assumes inv: "state_inv s" and due: "sub_due sid bits s" and nz: "sid \<noteq> 0"
  shows "\<exists>changed t. sys_poll s sid = (SYS_OK, Some changed, t) \<and> changed AND bits = bits"
proof -
  have tab: "sub_table_inv (st_last s) (st_power_users s) (st_subscriptions s)" using inv by (simp add: state_inv_def)
  obtain k where k: "k < length (st_subscriptions s)" "sub_id (st_subscriptions s ! k) = sid"
      "sub_pending (st_subscriptions s ! k) AND bits = bits"
    using due by (auto simp: sub_due_def in_set_conv_nth)
  then obtain i where i: "sub_find s sid = Some i"
    using nz first_slot_Some_ex[of "st_subscriptions s ! k" "st_subscriptions s" "\<lambda>x. sub_id x = sid"]
    by (auto simp: sub_find_def)
  have "i = k" using unique_byD[OF sub_table_invD(2)[OF tab], of i k] sub_find_SomeD[OF i] k nz by auto
  with i k show ?thesis by (simp add: sys_poll_def)
qed

section \<open>The advanced clock\<close>

text \<open>The instant the reading should show, in microseconds since the epoch.\<close>

definition clock_anchor_us :: "sys_state \<Rightarrow> u64 \<Rightarrow> int" where
  "clock_anchor_us s now =
     (let a = (if an_source (st_clock s) \<noteq> SYS_CLOCK_NONE then st_clock s else st_pc_clock s)
      in sint (an_seconds a) * 1000000 + an_microseconds a + (uint now - uint (an_mono_us a)))"

lemma u64_split_micros:
  fixes d :: u64
  shows "uint (d div 1000000) = uint d div 1000000" "uint (d mod 1000000) = uint d mod 1000000"
    "uint (d div 1000000 + 1) = uint d div 1000000 + 1"
proof -
  show q: "uint (d div 1000000) = uint d div 1000000" and "uint (d mod 1000000) = uint d mod 1000000"
    by (simp_all add: uint_div uint_mod)
  have "uint d < 2 ^ 64" using uint_lt2p[of d] by simp
  then have "uint (d div 1000000) + uint (1 :: u64) < 2 ^ LENGTH(64)" unfolding q by simp
  then show "uint (d div 1000000 + 1) = uint d div 1000000 + 1"
    using uint_add_lem[THEN iffD1, of "d div 1000000" 1] by (simp add: q)
qed

lemma sys_clock_snapshot_exact:
  assumes inv: "state_inv s" and snap: "sys_clock_snapshot s now = (True, out)"
  shows "sint (cl_seconds out) * 1000000 + cl_microseconds out = clock_anchor_us s now \<and>
    0 \<le> cl_microseconds out \<and> cl_microseconds out < 1000000 \<and> 0 \<le> sint (cl_seconds out)"
proof -
  obtain a where a: "a = (if an_source (st_clock s) \<noteq> SYS_CLOCK_NONE then st_clock s else st_pc_clock s)" by blast
  obtain d where d: "d = now - an_mono_us a" by blast
  obtain c where c: "c = (if an_microseconds a + uint (d mod 1000000) \<ge> 1000000 then 1 else (0 :: int))" by blast
  obtain sec where sec: "sec = (if an_microseconds a + uint (d mod 1000000) \<ge> 1000000
      then d div 1000000 + 1 else d div 1000000)" by blast
  have src: "an_source a \<noteq> SYS_CLOCK_NONE" and le: "an_mono_us a \<le> now"
    and fit: "sec \<le> INT64_MAX - an_seconds a"
    and out: "cl_seconds out = an_seconds a + sec"
      "cl_microseconds out = an_microseconds a + uint (d mod 1000000) - 1000000 * c"
    using snap unfolding sys_clock_snapshot_def Let_def a[symmetric] d[symmetric] sec[symmetric]
    by (auto simp: c split: if_splits)
  have "anchor_ok a" using inv by (simp add: state_inv_def a)
  then have rng: "0 \<le> sint (an_seconds a)" "0 \<le> an_microseconds a" "an_microseconds a < 1000000"
    using src by (auto simp: anchor_ok_def)
  have us: "uint sec = uint d div 1000000 + c" by (simp add: sec c u64_split_micros)
  have ud: "uint d = uint now - uint (an_mono_us a)" using le d by (simp add: uint_minus_simple_alt word_le_def)
  have A: "uint (an_seconds a) = sint (an_seconds a)" "uint (an_seconds a) < 2 ^ 63"
    using i64_nonneg[OF rng(1)] by simp_all
  have "uint (INT64_MAX - an_seconds a) = 2 ^ 63 - 1 - uint (an_seconds a)"
    using A(2) uint_sub_lem[THEN iffD1, of "an_seconds a" INT64_MAX] by (simp add: INT64_MAX_def)
  then have sum: "uint (an_seconds a) + uint sec \<le> 2 ^ 63 - 1" using fit by (simp add: word_le_def)
  then have "uint (an_seconds a + sec) = uint (an_seconds a) + uint sec"
    using uint_add_lem[THEN iffD1, of "an_seconds a" sec] by simp
  then have secs: "sint (cl_seconds out) = sint (an_seconds a) + uint sec"
    unfolding out using sum A(1) i64_sint_uint[of "an_seconds a + sec"] by linarith
  have "uint d = 1000000 * (uint d div 1000000) + uint d mod 1000000" by simp
  then have "clock_anchor_us s now = sint (cl_seconds out) * 1000000 + cl_microseconds out"
    unfolding clock_anchor_us_def Let_def a[symmetric] ud[symmetric] secs
    unfolding out(2) us u64_split_micros by (simp add: algebra_simps)
  moreover have "0 \<le> cl_microseconds out \<and> cl_microseconds out < 1000000"
    unfolding out c u64_split_micros using rng pos_mod_bound[of 1000000 "uint d"] pos_mod_sign[of 1000000 "uint d"]
    by auto
  ultimately show ?thesis using secs rng(1) by simp
qed

section \<open>Properties\<close>

text \<open>Property C19: along every run of subscriptions, polls, publications, clock updates and battery
  steps, live handles are distinct, pending bits stay within the interest and the known topics, and
  the 8-bit user count of the battery is exactly the number of subscriptions interested in it.\<close>

theorem state_reachable_inv: "state_inv (foldl state_apply state_zero es)"
  by (rule state_run.reachable_inv)

text \<open>A valid reading of the clock is the anchor advanced by exactly the elapsed
  monotonic microseconds: no carry is lost, the microsecond field stays below a second and the
  64-bit seconds do not wrap.\<close>

theorem sys_clock_snapshot_advances:
  assumes "sys_clock_snapshot (foldl state_apply state_zero es) now = (True, out)"
  shows "sint (cl_seconds out) * 1000000 + cl_microseconds out = clock_anchor_us (foldl state_apply state_zero es) now \<and>
    0 \<le> cl_microseconds out \<and> cl_microseconds out < 1000000 \<and> 0 \<le> sint (cl_seconds out)"
  using sys_clock_snapshot_exact[OF state_run.reachable_inv assms] .

definition clock_sample_run :: "state_event list" where
  "clock_sample_run = [SClockUpdate \<lparr>an_seconds = 1700000000, an_mono_us = 5, an_microseconds = 999999, an_source = SYS_CLOCK_RTC\<rparr>]"

theorem sys_clock_snapshot_advances_witness:
  "\<exists>out. sys_clock_snapshot (foldl state_apply state_zero clock_sample_run) 7 = (True, out) \<and>
     sint (cl_seconds out) * 1000000 + cl_microseconds out = clock_anchor_us (foldl state_apply state_zero clock_sample_run) 7"
proof -
  let ?r = "sys_clock_snapshot (foldl state_apply state_zero clock_sample_run) 7"
  have "?r = (True, snd ?r)" by code_simp
  then show ?thesis using sys_clock_snapshot_advances by blast
qed

text \<open>A published change is not lost: once a subscription with interest in
  notifications exists, a publication stays visible to it through any events that are not its own,
  until its own poll returns it.\<close>

theorem sys_publish_reaches_subscriber:
  assumes "s = foldl state_apply state_zero es" "sid \<noteq> 0"
    and "\<exists>x \<in> set (st_subscriptions s). sub_id x = sid \<and> sub_interest x AND SYS_NOTIFY = SYS_NOTIFY"
    and "\<forall>e \<in> set later. \<not> sub_names sid e"
  shows "\<exists>changed t. sys_poll (foldl state_apply (sys_notify_publish s) later) sid = (SYS_OK, Some changed, t) \<and>
    changed AND SYS_NOTIFY = SYS_NOTIFY"
proof -
  have "\<exists>x \<in> set (st_subscriptions (sys_notify_publish s)). sub_id x = sid \<and> sub_pending x AND SYS_NOTIFY = SYS_NOTIFY"
    using assms(3) by (force simp: sys_notify_publish_def publish_topic_def word_ao_dist)
  then have "sub_due sid SYS_NOTIFY (sys_notify_publish s)" by (simp add: sub_due_def)
  from sub_due_run[OF this assms(2,4)] have due: "sub_due sid SYS_NOTIFY (foldl state_apply (sys_notify_publish s) later)" .
  have "state_inv (sys_notify_publish s)"
    using state_run.step_inv[OF state_run.reachable_inv, of es SNotifyPublish] assms(1) by simp
  from sub_due_poll[OF state_run.run_inv[OF this] due assms(2)] show ?thesis .
qed

theorem sys_publish_reaches_subscriber_witness:
  "\<exists>changed t. sys_poll (foldl state_apply (sys_notify_publish (foldl state_apply state_zero [SSubscribe 4]))
     [SSubscribe 1, SPoll 2]) 1 = (SYS_OK, Some changed, t) \<and> changed AND SYS_NOTIFY = SYS_NOTIFY"
  by (rule sys_publish_reaches_subscriber[OF refl]) (simp, code_simp, simp add: sub_names_def)

text \<open>A released handle is stale for ever: after an accepted unsubscribe no later
  run of the service, however long, makes a poll, a change of interest or a second unsubscribe with
  it succeed.\<close>

theorem sys_unsubscribed_stays_stale:
  assumes "sys_unsubscribe (foldl state_apply state_zero es) sid = (SYS_OK, t)"
  shows "let u = foldl state_apply t later in
    sys_poll u sid = (SYS_STALE, None, u) \<and> sys_unsubscribe u sid = (SYS_STALE, u) \<and>
    fst (sys_set_interest u sid interest) \<noteq> SYS_OK"
proof -
  have "sub_gone sid t \<and> sid \<noteq> 0" by (rule sys_unsubscribe_gone[OF state_run.reachable_inv assms])
  then have "sub_find (foldl state_apply t later) sid = None" by (simp add: sub_gone_find sub_gone_run)
  then show ?thesis by (simp add: Let_def sys_poll_def sys_unsubscribe_def sys_set_interest_def)
qed

theorem sys_unsubscribed_stays_stale_witness:
  "let u = foldl state_apply (snd (sys_unsubscribe (foldl state_apply state_zero [SSubscribe 1]) 1)) [SSubscribe 2] in
     sys_poll u 1 = (SYS_STALE, None, u) \<and> sys_unsubscribe u 1 = (SYS_STALE, u) \<and>
     fst (sys_set_interest u 1 2) \<noteq> SYS_OK"
proof -
  let ?r = "sys_unsubscribe (foldl state_apply state_zero [SSubscribe 1]) 1"
  have "?r = (SYS_OK, snd ?r)" by code_simp
  from sys_unsubscribed_stays_stale[OF this] show ?thesis .
qed

end
