(* ===== verification/Notify.thy ===== *)
theory Notify
  imports Prelude "HOL-Library.Multiset"
begin

text \<open>
  The notification store of the system services (main/system/sys_notify.c and .h): nine
  fixed records, of which at most one is active and at most eight wait, plus the earliest
  instant the store has anything to do (\<open>deadline\<close>).

  \<open>ns_last\<close> is the file-scope counter \<open>last_notice\<close> of the source, kept in the store
  because the firmware has exactly one store (sys_device.c).  A label is the byte list up
  to the NUL; \<open>None\<close> is the NULL pointer.  Store and output pointers are never NULL here:
  a function of the store cannot be called without one.
\<close>

section \<open>Data\<close>

definition SYS_NOTICE_SLOTS :: nat where "SYS_NOTICE_SLOTS = 9"
definition SYS_NOTICE_WAITING :: nat where "SYS_NOTICE_WAITING = 8"
definition SYS_NOTICE_LABEL :: nat where "SYS_NOTICE_LABEL = 24"

lemmas notify_bounds = SYS_NOTICE_SLOTS_def SYS_NOTICE_WAITING_def SYS_NOTICE_LABEL_def

datatype notice_phase = NOTICE_FREE | NOTICE_QUEUED | NOTICE_ACTIVE | NOTICE_SNOOZED
datatype notice_result = NOTICE_OK | NOTICE_INVALID | NOTICE_FULL | NOTICE_GONE

record sys_notice =
  n_wake_us :: u64
  n_expires_us :: u64
  n_order :: u64
  n_id :: u32
  n_owner :: u32
  n_key :: u32
  n_label :: bytes
  n_phase :: notice_phase

record sys_notify =
  ns_records :: "sys_notice list"
  ns_next_order :: u64
  ns_deadline :: u64
  ns_revision :: u32
  ns_changed :: bool
  ns_active_slot :: nat
  ns_last :: u32

definition notice_zero :: sys_notice where
  "notice_zero = \<lparr>n_wake_us = 0, n_expires_us = 0, n_order = 0, n_id = 0, n_owner = 0,
     n_key = 0, n_label = [], n_phase = NOTICE_FREE\<rparr>"

definition notify_zero :: sys_notify where
  "notify_zero = \<lparr>ns_records = replicate SYS_NOTICE_SLOTS notice_zero, ns_next_order = 0,
     ns_deadline = 0, ns_revision = 0, ns_changed = False, ns_active_slot = 0, ns_last = 0\<rparr>"

definition notice_live :: "sys_notice \<Rightarrow> bool" where
  "notice_live r \<longleftrightarrow> n_phase r \<noteq> NOTICE_FREE"

section \<open>Helpers of the source\<close>

definition notice_changed :: "sys_notify \<Rightarrow> sys_notify" where
  "notice_changed s = s\<lparr>ns_changed := True,
     ns_revision := (if ns_revision s \<noteq> U32_MAX then ns_revision s + 1 else ns_revision s)\<rparr>"

definition notice_put :: "nat \<Rightarrow> sys_notice \<Rightarrow> sys_notify \<Rightarrow> sys_notify" where
  "notice_put i r s = s\<lparr>ns_records := (ns_records s)[i := r]\<rparr>"

definition notice_rank :: "sys_notice list \<Rightarrow> sys_notice \<Rightarrow> u64" where
  "notice_rank rs r =
     (if notice_live r
      then of_nat (Suc (length (filter (\<lambda>x. notice_live x \<and> n_order x < n_order r) rs)))
      else 0)"

definition notice_next_order :: "sys_notify \<Rightarrow> u64 \<times> sys_notify" where
  "notice_next_order s =
     (let s1 = (if ns_next_order s = U64_MAX
                then s\<lparr>ns_records := map (\<lambda>r. r\<lparr>n_order := notice_rank (ns_records s) r\<rparr>) (ns_records s),
                       ns_next_order := of_nat (length (filter notice_live (ns_records s)))\<rparr>
                else s)
      in (ns_next_order s1 + 1, s1\<lparr>ns_next_order := ns_next_order s1 + 1\<rparr>))"

definition notice_waits :: "sys_notice \<Rightarrow> bool" where
  "notice_waits r \<longleftrightarrow> n_phase r = NOTICE_QUEUED \<or> n_phase r = NOTICE_SNOOZED"

definition notice_waiting :: "sys_notify \<Rightarrow> nat" where
  "notice_waiting s = length (filter notice_waits (ns_records s))"

definition notice_find :: "sys_notify \<Rightarrow> u32 \<Rightarrow> u32 \<Rightarrow> nat option" where
  "notice_find s owner nid =
     (if nid = 0 then None
      else first_slot (\<lambda>r. n_id r = nid \<and> n_owner r = owner) (ns_records s))"

text \<open>\<open>schedule\<close>: one pass over the table for the deadline and the active slot.\<close>

fun schedule_scan :: "nat \<Rightarrow> sys_notice list \<Rightarrow> u64 \<times> bool \<times> bool \<times> nat \<Rightarrow> u64 \<times> bool \<times> bool \<times> nat" where
  "schedule_scan i [] acc = acc"
| "schedule_scan i (r # rs) (due, active, queued, slot) =
     (let active' = (active \<or> n_phase r = NOTICE_ACTIVE);
          queued' = (queued \<or> n_phase r = NOTICE_QUEUED);
          slot' = (if n_phase r = NOTICE_ACTIVE then i + 1 else slot);
          due1 = (if n_phase r = NOTICE_SNOOZED \<and> n_wake_us r < due then n_wake_us r else due);
          due2 = (if (n_phase r = NOTICE_ACTIVE \<or> n_phase r = NOTICE_QUEUED) \<and>
                     n_expires_us r \<noteq> 0 \<and> n_expires_us r < due1 then n_expires_us r else due1)
      in schedule_scan (i + 1) rs (due2, active', queued', slot'))"

definition notice_schedule :: "sys_notify \<Rightarrow> sys_notify" where
  "notice_schedule s =
     (case schedule_scan 0 (ns_records s) (U64_MAX, False, False, 0) of
        (due, active, queued, slot) \<Rightarrow>
          s\<lparr>ns_active_slot := slot, ns_deadline := (if \<not> active \<and> queued then 0 else due)\<rparr>)"

section \<open>Operations\<close>

text \<open>The label check of \<open>sys_notify_post\<close>: the length when every byte is printable ASCII.\<close>

fun notice_label_len :: "nat \<Rightarrow> bytes \<Rightarrow> nat option" where
  "notice_label_len n [] = Some n"
| "notice_label_len n (c # cs) =
     (if n \<le> SYS_NOTICE_LABEL then
        if c < 32 \<or> c > 126 then None else notice_label_len (n + 1) cs
      else Some n)"

definition notice_label_ok :: "bytes \<Rightarrow> bool" where
  "notice_label_ok l =
     (case notice_label_len 0 l of None \<Rightarrow> False
      | Some n \<Rightarrow> \<not> (n = 0 \<or> n > SYS_NOTICE_LABEL))"

definition sys_notify_post ::
  "sys_notify \<Rightarrow> u32 \<Rightarrow> u32 \<Rightarrow> bytes option \<Rightarrow> u64 \<Rightarrow> notice_result \<times> u32 option \<times> sys_notify" where
  "sys_notify_post s owner key label expiry =
     (case label of
        None \<Rightarrow> (NOTICE_INVALID, None, s)
      | Some l \<Rightarrow>
        if owner = 0 then (NOTICE_INVALID, None, s)
        else if \<not> notice_label_ok l then (NOTICE_INVALID, None, s)
        else case (if key \<noteq> 0
                   then first_slot (\<lambda>r. notice_live r \<and> n_owner r = owner \<and> n_key r = key) (ns_records s)
                   else None) of
          Some i \<Rightarrow> (NOTICE_OK, Some (n_id (ns_records s ! i)), s)
        | None \<Rightarrow>
          if notice_waiting s \<ge> SYS_NOTICE_WAITING \<or> ns_last s = U32_MAX then (NOTICE_FULL, None, s)
          else case first_slot (\<lambda>r. \<not> notice_live r) (ns_records s) of
            None \<Rightarrow> (NOTICE_FULL, None, s)
          | Some i \<Rightarrow>
            (case notice_next_order s of (ord, s1) \<Rightarrow>
               let nid = ns_last s1 + 1;
                   r = \<lparr>n_wake_us = 0, n_expires_us = expiry, n_order = ord, n_id = nid,
                        n_owner = owner, n_key = key, n_label = l, n_phase = NOTICE_QUEUED\<rparr>;
                   s2 = (notice_put i r s1)\<lparr>ns_last := nid\<rparr>
               in (NOTICE_OK, Some nid, notice_schedule (notice_changed s2))))"

definition sys_notify_active :: "sys_notify \<Rightarrow> sys_notice option" where
  "sys_notify_active s =
     (if ns_active_slot s = 0 then None else Some (ns_records s ! (ns_active_slot s - 1)))"

definition sys_notify_cancel :: "sys_notify \<Rightarrow> u32 \<Rightarrow> u32 \<Rightarrow> notice_result \<times> sys_notify" where
  "sys_notify_cancel s owner nid =
     (case notice_find s owner nid of
        None \<Rightarrow> (NOTICE_GONE, s)
      | Some i \<Rightarrow> (NOTICE_OK, notice_schedule (notice_changed (notice_put i notice_zero s))))"

definition sys_notify_ack :: "sys_notify \<Rightarrow> u32 \<Rightarrow> u32 \<Rightarrow> notice_result \<times> sys_notify" where
  "sys_notify_ack s owner nid =
     (case notice_find s owner nid of
        None \<Rightarrow> (NOTICE_GONE, s)
      | Some i \<Rightarrow>
        if n_phase (ns_records s ! i) \<noteq> NOTICE_ACTIVE then (NOTICE_INVALID, s)
        else sys_notify_cancel s owner nid)"

definition sys_notify_snooze :: "sys_notify \<Rightarrow> u32 \<Rightarrow> u32 \<Rightarrow> u64 \<Rightarrow> notice_result \<times> sys_notify" where
  "sys_notify_snooze s owner nid wake =
     (case notice_find s owner nid of
        None \<Rightarrow> (NOTICE_GONE, s)
      | Some i \<Rightarrow>
        if n_phase (ns_records s ! i) \<noteq> NOTICE_ACTIVE \<or> wake = 0 \<or> wake = U64_MAX
        then (NOTICE_INVALID, s)
        else if notice_waiting s \<ge> SYS_NOTICE_WAITING then (NOTICE_FULL, s)
        else (NOTICE_OK, notice_schedule (notice_changed (notice_put i
                ((ns_records s ! i)\<lparr>n_phase := NOTICE_SNOOZED, n_wake_us := wake\<rparr>) s))))"

definition release_slot :: "u32 \<Rightarrow> nat \<Rightarrow> sys_notify \<Rightarrow> sys_notify" where
  "release_slot owner i s =
     (if n_owner (ns_records s ! i) = owner then notice_changed (notice_put i notice_zero s) else s)"

definition sys_notify_release_owner :: "sys_notify \<Rightarrow> u32 \<Rightarrow> sys_notify" where
  "sys_notify_release_owner s owner =
     (if owner = 0 then s else notice_schedule (fold (release_slot owner) [0..<SYS_NOTICE_SLOTS] s))"

text \<open>
  \<open>sys_notify_step\<close>, one turn of its loop: a due snooze queues again with a fresh order, an
  expired record is dropped, and the loop remembers whether something is active and the
  queued record with the smallest order.
\<close>

definition step_wake :: "u64 \<Rightarrow> nat \<Rightarrow> sys_notify \<Rightarrow> sys_notify" where
  "step_wake now i s =
     (if n_phase (ns_records s ! i) = NOTICE_SNOOZED \<and> now \<ge> n_wake_us (ns_records s ! i)
      then case notice_next_order s of (ord, s1) \<Rightarrow>
             notice_changed (notice_put i ((ns_records s1 ! i)\<lparr>n_order := ord, n_phase := NOTICE_QUEUED\<rparr>) s1)
      else s)"

definition step_expire :: "u64 \<Rightarrow> nat \<Rightarrow> sys_notify \<Rightarrow> sys_notify" where
  "step_expire now i s =
     (let r = ns_records s ! i in
      if (n_phase r = NOTICE_QUEUED \<or> n_phase r = NOTICE_ACTIVE) \<and> n_expires_us r \<noteq> 0 \<and> now \<ge> n_expires_us r
      then notice_changed (notice_put i notice_zero s) else s)"

definition step_slot ::
  "u64 \<Rightarrow> nat \<Rightarrow> sys_notify \<times> nat option \<times> bool \<Rightarrow> sys_notify \<times> nat option \<times> bool" where
  "step_slot now i acc =
     (case acc of (s, first, active) \<Rightarrow>
        let s2 = step_expire now i (step_wake now i s);
            r = ns_records s2 ! i;
            active' = (active \<or> n_phase r = NOTICE_ACTIVE);
            first' = (if n_phase r = NOTICE_QUEUED \<and>
                         (case first of None \<Rightarrow> True
                          | Some f \<Rightarrow> n_order r < n_order (ns_records s2 ! f))
                      then Some i else first)
        in (s2, first', active'))"

definition step_activate :: "sys_notify \<times> nat option \<times> bool \<Rightarrow> sys_notify" where
  "step_activate acc =
     (case acc of (s, first, active) \<Rightarrow>
        (case first of
           Some f \<Rightarrow> if \<not> active
             then notice_changed (notice_put f ((ns_records s ! f)\<lparr>n_phase := NOTICE_ACTIVE\<rparr>) s) else s
         | None \<Rightarrow> s))"

definition step_loop :: "u64 \<Rightarrow> sys_notify \<Rightarrow> nat \<Rightarrow> sys_notify \<times> nat option \<times> bool" where
  "step_loop now s n = fold (step_slot now) [0..<n] (s, None, False)"

definition sys_notify_step :: "sys_notify \<Rightarrow> u64 \<Rightarrow> sys_notify" where
  "sys_notify_step s now =
     (if now < ns_deadline s then s
      else notice_schedule (step_activate (step_loop now s SYS_NOTICE_SLOTS)))"

definition sys_notify_deadline :: "sys_notify \<Rightarrow> u64" where
  "sys_notify_deadline s = ns_deadline s"

definition sys_notify_take_changed :: "sys_notify \<Rightarrow> bool \<times> sys_notify" where
  "sys_notify_take_changed s = (ns_changed s, s\<lparr>ns_changed := False\<rparr>)"

text \<open>The operations as events of one machine.\<close>

datatype notify_event =
    NPost u32 u32 "bytes option" u64
  | NCancel u32 u32
  | NAck u32 u32
  | NSnooze u32 u32 u64
  | NRelease u32
  | NStep u64
  | NTake

fun notify_apply :: "sys_notify \<Rightarrow> notify_event \<Rightarrow> sys_notify" where
  "notify_apply s (NPost ow k l e) = snd (snd (sys_notify_post s ow k l e))"
| "notify_apply s (NCancel ow i) = snd (sys_notify_cancel s ow i)"
| "notify_apply s (NAck ow i) = snd (sys_notify_ack s ow i)"
| "notify_apply s (NSnooze ow i w) = snd (sys_notify_snooze s ow i w)"
| "notify_apply s (NRelease ow) = sys_notify_release_owner s ow"
| "notify_apply s (NStep now) = sys_notify_step s now"
| "notify_apply s NTake = snd (sys_notify_take_changed s)"

section \<open>The scheduling pass\<close>

text \<open>What each result of the pass says about the table.\<close>

definition notice_active :: "sys_notice \<Rightarrow> bool" where
  "notice_active r \<longleftrightarrow> n_phase r = NOTICE_ACTIVE"

definition notice_queued :: "sys_notice \<Rightarrow> bool" where
  "notice_queued r \<longleftrightarrow> n_phase r = NOTICE_QUEUED"

text \<open>A record has nothing to do at \<open>now\<close>: it is not a due snooze and not expired.\<close>

definition notice_quiet :: "u64 \<Rightarrow> sys_notice \<Rightarrow> bool" where
  "notice_quiet now r \<longleftrightarrow>
     (n_phase r = NOTICE_SNOOZED \<longrightarrow> now < n_wake_us r) \<and>
     (n_phase r = NOTICE_ACTIVE \<or> n_phase r = NOTICE_QUEUED \<longrightarrow>
        n_expires_us r \<noteq> 0 \<longrightarrow> now < n_expires_us r)"

lemmas notice_phase_defs = notice_live_def notice_active_def notice_queued_def notice_waits_def



fun active_scan :: "nat \<Rightarrow> sys_notice list \<Rightarrow> nat \<Rightarrow> nat" where
  "active_scan i [] slot = slot"
| "active_scan i (r # rs) slot = active_scan (i + 1) rs (if notice_active r then i + 1 else slot)"

lemma schedule_scan_slot:
  "snd (snd (snd (schedule_scan i rs (due, a, q, slot)))) = active_scan i rs slot"
  by (induction rs arbitrary: i due a q slot) (auto simp: Let_def notice_active_def)

lemma active_scan_cases:
  "(active_scan i rs slot = slot \<and> (\<forall>r \<in> set rs. \<not> notice_active r)) \<or>
   (\<exists>j < length rs. active_scan i rs slot = i + j + 1 \<and> notice_active (rs ! j))"
proof (induction rs arbitrary: i slot)
  case Nil
  show ?case by simp
next
  case (Cons r rs)
  let ?slot = "if notice_active r then i + 1 else slot"
  show ?case
  proof (cases "\<exists>j < length rs. active_scan (i + 1) rs ?slot = (i + 1) + j + 1 \<and> notice_active (rs ! j)")
    case True
    then obtain j where "j < length rs" "active_scan (i + 1) rs ?slot = (i + 1) + j + 1" "notice_active (rs ! j)"
      by blast
    then show ?thesis by (intro disjI2 exI[of _ "Suc j"]) simp
  next
    case False
    with Cons.IH[of "i + 1" ?slot] show ?thesis by auto
  qed
qed

lemma notice_schedule_frame [simp, frame_simps]:
  "ns_records (notice_schedule s) = ns_records s"
  "ns_next_order (notice_schedule s) = ns_next_order s"
  "ns_last (notice_schedule s) = ns_last s"
  "ns_revision (notice_schedule s) = ns_revision s"
  "ns_changed (notice_schedule s) = ns_changed s"
  by (simp_all add: notice_schedule_def split: prod.split)


lemma notice_schedule_active_slot:
  "(ns_active_slot (notice_schedule s) = 0 \<and> (\<forall>r \<in> set (ns_records s). \<not> notice_active r)) \<or>
   (\<exists>j < length (ns_records s). ns_active_slot (notice_schedule s) = Suc j \<and> notice_active (ns_records s ! j))"
  using active_scan_cases[of 0 "ns_records s" 0]
    schedule_scan_slot[of 0 "ns_records s" U64_MAX False False 0]
  by (auto simp: notice_schedule_def split: prod.split)

lemma notice_schedule_again:
  "ns_records s = ns_records t \<Longrightarrow>
   ns_active_slot (notice_schedule s) = ns_active_slot (notice_schedule t) \<and>
   ns_deadline (notice_schedule s) = ns_deadline (notice_schedule t)"
  by (simp add: notice_schedule_def split: prod.split)


lemma notice_changed_frame [simp, frame_simps]:
  "ns_records (notice_changed s) = ns_records s"
  "ns_next_order (notice_changed s) = ns_next_order s"
  "ns_last (notice_changed s) = ns_last s"
  "ns_deadline (notice_changed s) = ns_deadline s"
  "ns_active_slot (notice_changed s) = ns_active_slot s"
  by (simp_all add: notice_changed_def)

lemma notice_put_frame [simp, frame_simps]:
  "ns_records (notice_put i r s) = (ns_records s)[i := r]"
  "ns_next_order (notice_put i r s) = ns_next_order s"
  "ns_last (notice_put i r s) = ns_last s"
  "ns_deadline (notice_put i r s) = ns_deadline s"
  "ns_active_slot (notice_put i r s) = ns_active_slot s"
  by (simp_all add: notice_put_def)

section \<open>Fresh order numbers\<close>

text \<open>
  \<open>next_order\<close> may renumber the whole table, but it changes order numbers only.
\<close>

definition reorder :: "(sys_notice \<Rightarrow> u64) \<Rightarrow> sys_notice list \<Rightarrow> sys_notice list" where
  "reorder g rs = map (\<lambda>r. r\<lparr>n_order := g r\<rparr>) rs"

lemma reorder_nth [simp]: "i < length rs \<Longrightarrow> reorder g rs ! i = (rs ! i)\<lparr>n_order := g (rs ! i)\<rparr>"
  by (simp add: reorder_def)

lemma length_reorder [simp]: "length (reorder g rs) = length rs"
  by (simp add: reorder_def)

lemma notice_phase_reorder [simp]:
  "notice_live (r\<lparr>n_order := x\<rparr>) = notice_live r"
  "notice_active (r\<lparr>n_order := x\<rparr>) = notice_active r"
  "notice_queued (r\<lparr>n_order := x\<rparr>) = notice_queued r"
  "notice_waits (r\<lparr>n_order := x\<rparr>) = notice_waits r"
  "notice_quiet now (r\<lparr>n_order := x\<rparr>) = notice_quiet now r"
  by (simp_all add: notice_phase_defs notice_quiet_def)

lemma filter_reorder:
  "(\<And>r x. P (r\<lparr>n_order := x\<rparr>) = P r) \<Longrightarrow> length (filter P (reorder g rs)) = length (filter P rs)"
  by (induction rs) (simp_all add: reorder_def)

lemma notice_next_order_eq:
  "notice_next_order s = (ord, s1) \<Longrightarrow>
     (\<exists>g. ns_records s1 = reorder g (ns_records s)) \<and> ns_last s1 = ns_last s \<and>
     ns_next_order s1 = ord"
proof -
  assume a: "notice_next_order s = (ord, s1)"
  have same: "ns_records s = reorder n_order (ns_records s)"
    by (simp add: reorder_def)
  show ?thesis
  proof (cases "ns_next_order s = U64_MAX")
    case True
    with a show ?thesis by (auto simp: notice_next_order_def Let_def reorder_def)
  next
    case False
    with a have "ns_records s1 = ns_records s" "ns_last s1 = ns_last s" "ns_next_order s1 = ord"
      by (auto simp: notice_next_order_def)
    with same show ?thesis by metis
  qed
qed

section \<open>A step leaves nothing to do\<close>

text \<open>What the loop has established after its first \<open>n\<close> turns.\<close>

definition loop_seen :: "u64 \<Rightarrow> nat \<Rightarrow> sys_notify \<times> nat option \<times> bool \<Rightarrow> bool" where
  "loop_seen now n acc \<longleftrightarrow>
     (case acc of (s, first, active) \<Rightarrow>
        (\<forall>j < n. notice_quiet now (ns_records s ! j)) \<and>
        (active \<longleftrightarrow> (\<exists>j < n. notice_active (ns_records s ! j))) \<and>
        (case first of None \<Rightarrow> \<forall>j < n. \<not> notice_queued (ns_records s ! j)
         | Some k \<Rightarrow> k < n \<and> notice_queued (ns_records s ! k)))"

lemma step_wake_records:
  "i < length (ns_records s) \<Longrightarrow> \<exists>g r.
     ns_records (step_wake now i s) = (reorder g (ns_records s))[i := r] \<and>
     \<not> (n_phase r = NOTICE_SNOOZED \<and> now \<ge> n_wake_us r)"
proof -
  assume i: "i < length (ns_records s)"
  show ?thesis
  proof (cases "n_phase (ns_records s ! i) = NOTICE_SNOOZED \<and> now \<ge> n_wake_us (ns_records s ! i)")
    case True
    obtain ord s1 where n: "notice_next_order s = (ord, s1)" by fastforce
    then obtain g where g: "ns_records s1 = reorder g (ns_records s)"
      using notice_next_order_eq by blast
    show ?thesis
      using True n g by (intro exI[of _ g] exI) (auto simp: step_wake_def)
  next
    case False
    have "reorder n_order (ns_records s) = ns_records s"
      by (simp add: reorder_def)
    with False show ?thesis
      by (intro exI[of _ n_order] exI[of _ "ns_records s ! i"]) (auto simp: step_wake_def)
  qed
qed

lemma step_expire_records:
  assumes i: "i < length (ns_records s)"
    and w: "\<not> (n_phase (ns_records s ! i) = NOTICE_SNOOZED \<and> now \<ge> n_wake_us (ns_records s ! i))"
  shows "\<exists>r. ns_records (step_expire now i s) = (ns_records s)[i := r] \<and> notice_quiet now r"
proof (cases "(n_phase (ns_records s ! i) = NOTICE_QUEUED \<or> n_phase (ns_records s ! i) = NOTICE_ACTIVE)
    \<and> n_expires_us (ns_records s ! i) \<noteq> 0 \<and> now \<ge> n_expires_us (ns_records s ! i)")
  case True
  then show ?thesis
    by (intro exI[of _ notice_zero])
      (auto simp: step_expire_def Let_def notice_quiet_def notice_zero_def)
next
  case False
  with w have "notice_quiet now (ns_records s ! i)"
    by (auto simp: notice_quiet_def not_le)
  with False show ?thesis
    by (intro exI[of _ "ns_records s ! i"]) (auto simp: step_expire_def Let_def)
qed

lemma step_slot_records:
  assumes "i < length (ns_records s)" "step_slot now i (s, first, active) = (s', first', active')"
  shows "\<exists>g r. ns_records s' = (reorder g (ns_records s))[i := r] \<and> notice_quiet now r"
proof -
  obtain g r where 1: "ns_records (step_wake now i s) = (reorder g (ns_records s))[i := r]"
      "\<not> (n_phase r = NOTICE_SNOOZED \<and> now \<ge> n_wake_us r)"
    using step_wake_records[OF assms(1)] by blast
  then obtain r' where 2: "ns_records (step_expire now i (step_wake now i s)) =
      (ns_records (step_wake now i s))[i := r']" "notice_quiet now r'"
    using step_expire_records[of i "step_wake now i s" now] assms(1) by auto
  have "s' = step_expire now i (step_wake now i s)"
    using assms(2) by (auto simp: step_slot_def Let_def)
  with 1 2 show ?thesis by auto
qed

lemma step_slot_seen:
  assumes "i < length (ns_records (fst acc))" "loop_seen now i acc"
  shows "loop_seen now (Suc i) (step_slot now i acc)"
proof -
  obtain s first active where acc: "acc = (s, first, active)" by (cases acc)
  obtain s' first' active' where step: "step_slot now i acc = (s', first', active')"
    by (cases "step_slot now i acc")
  from assms(1) acc have i: "i < length (ns_records s)" by simp
  obtain g r where rec: "ns_records s' = (reorder g (ns_records s))[i := r]" and q: "notice_quiet now r"
    using step_slot_records[OF i step[unfolded acc]] by blast
  have at: "ns_records s' ! i = r" using rec i by simp
  have other: "ns_records s' ! j = (ns_records s ! j)\<lparr>n_order := g (ns_records s ! j)\<rparr>" if "j < i" for j
    using rec i that by simp
  have flags: "active' = (active \<or> notice_active r)"
    "first' = (if notice_queued r \<and> (case first of None \<Rightarrow> True
        | Some f \<Rightarrow> n_order r < n_order (ns_records s' ! f)) then Some i else first)"
    using step at unfolding acc by (auto simp: step_slot_def Let_def notice_phase_defs)
  have seen: "\<forall>j < i. notice_quiet now (ns_records s ! j)"
    "active \<longleftrightarrow> (\<exists>j < i. notice_active (ns_records s ! j))"
    "case first of None \<Rightarrow> \<forall>j < i. \<not> notice_queued (ns_records s ! j)
       | Some k \<Rightarrow> k < i \<and> notice_queued (ns_records s ! k)"
    using assms(2) unfolding acc loop_seen_def by auto
  have "\<forall>j < Suc i. notice_quiet now (ns_records s' ! j)"
    using seen(1) q by (auto simp: less_Suc_eq at other)
  moreover have "active' \<longleftrightarrow> (\<exists>j < Suc i. notice_active (ns_records s' ! j))"
    using seen(2) by (auto simp: less_Suc_eq at other flags)
  moreover have "case first' of None \<Rightarrow> \<forall>j < Suc i. \<not> notice_queued (ns_records s' ! j)
       | Some k \<Rightarrow> k < Suc i \<and> notice_queued (ns_records s' ! k)"
    using seen(3) by (auto simp: less_Suc_eq at other flags split: option.splits)
  ultimately show ?thesis unfolding step loop_seen_def by simp
qed

lemma step_loop_Suc: "step_loop now s (Suc n) = step_slot now n (step_loop now s n)"
  by (simp add: step_loop_def)

lemma step_loop_length: "n \<le> length (ns_records s) \<Longrightarrow>
   length (ns_records (fst (step_loop now s n))) = length (ns_records s)"
proof (induction n)
  case 0
  show ?case by (simp add: step_loop_def)
next
  case (Suc n)
  obtain s1 f1 a1 where l: "step_loop now s n = (s1, f1, a1)" by (cases "step_loop now s n")
  obtain s2 f2 a2 where m: "step_slot now n (s1, f1, a1) = (s2, f2, a2)"
    by (cases "step_slot now n (s1, f1, a1)")
  show ?case
    using Suc l m step_slot_records[OF _ m] by (auto simp: step_loop_Suc)
qed

lemma step_loop_seen: "n \<le> length (ns_records s) \<Longrightarrow> loop_seen now n (step_loop now s n)"
proof (induction n)
  case 0
  show ?case by (simp add: step_loop_def loop_seen_def)
next
  case (Suc n)
  then show ?case
    unfolding step_loop_Suc by (intro step_slot_seen) (auto simp: step_loop_length)
qed



section \<open>The store invariant\<close>

text \<open>
  What every operation keeps: free records are all zero, live ones carry distinct
  identities handed out earlier and distinct order numbers, at most one record is active
  and at most eight wait; the cached active slot is the one the table shows and the cached
  deadline is never later than the true one.
\<close>

definition notice_wf :: "sys_notify \<Rightarrow> sys_notice \<Rightarrow> bool" where
  "notice_wf s r \<longleftrightarrow>
     (if notice_live r
      then n_id r \<noteq> 0 \<and> n_id r \<le> ns_last s \<and> n_order r \<le> ns_next_order s \<and> n_owner r \<noteq> 0 \<and>
           notice_label_ok (n_label r)
      else r = notice_zero)"

definition notify_core :: "sys_notify \<Rightarrow> bool" where
  "notify_core s \<longleftrightarrow>
     length (ns_records s) = SYS_NOTICE_SLOTS \<and>
     (\<forall>r \<in> set (ns_records s). notice_wf s r) \<and>
     unique_by notice_live n_id (ns_records s) \<and>
     unique_by notice_live n_order (ns_records s) \<and>
     length (filter notice_active (ns_records s)) \<le> 1 \<and>
     length (filter notice_waits (ns_records s)) \<le> SYS_NOTICE_WAITING"

definition notify_inv :: "sys_notify \<Rightarrow> bool" where
  "notify_inv s \<longleftrightarrow> notify_core s \<and>
     ns_active_slot s = ns_active_slot (notice_schedule s) \<and>
     ns_deadline s \<le> ns_deadline (notice_schedule s)"

lemma notify_coreD:
  assumes "notify_core s"
  shows "length (ns_records s) = SYS_NOTICE_SLOTS"
    and "r \<in> set (ns_records s) \<Longrightarrow> notice_wf s r"
    and "unique_by notice_live n_id (ns_records s)"
    and "unique_by notice_live n_order (ns_records s)"
    and "length (filter notice_active (ns_records s)) \<le> 1"
    and "length (filter notice_waits (ns_records s)) \<le> SYS_NOTICE_WAITING"
  using assms by (auto simp: notify_core_def)

lemma notify_core_same:
  "ns_records t = ns_records s \<Longrightarrow> ns_last t = ns_last s \<Longrightarrow> ns_next_order t = ns_next_order s \<Longrightarrow>
   notify_core t = notify_core s"
  by (simp add: notify_core_def notice_wf_def)

lemma notify_core_schedule [simp]: "notify_core (notice_schedule s) = notify_core s"
  by (rule notify_core_same) simp_all

lemma notify_core_changed [simp]: "notify_core (notice_changed s) = notify_core s"
  by (rule notify_core_same) simp_all

lemma notify_inv_schedule: "notify_core s \<Longrightarrow> notify_inv (notice_schedule s)"
  using notice_schedule_again[of "notice_schedule s" s] by (simp add: notify_inv_def)

lemma notice_zero_phases [simp]:
  "\<not> notice_live notice_zero" "\<not> notice_active notice_zero" "\<not> notice_waits notice_zero"
  by (simp_all add: notice_zero_def notice_phase_defs)

lemma notify_core_zero: "notify_core notify_zero"
  by (auto simp: notify_core_def notify_zero_def notify_bounds notice_wf_def unique_by_def)

lemma notify_inv_zero: "notify_inv notify_zero"
proof -
  have "ns_active_slot (notice_schedule notify_zero) = 0"
    using notice_schedule_active_slot[of notify_zero] notice_zero_phases(2)
    by (auto simp: notify_zero_def)
  then show ?thesis
    using notify_core_zero by (simp add: notify_inv_def) (simp add: notify_zero_def)
qed

lemma notify_core_put_zero:
  assumes "notify_core s"
  shows "notify_core (notice_put i notice_zero s)"
proof (cases "i < length (ns_records s)")
  case False
  with assms show ?thesis by (simp add: notice_put_def list_update_beyond)
next
  case True
  note D = notify_coreD[OF assms]
  have le: "length (filter P ((ns_records s)[i := notice_zero])) \<le> length (filter P (ns_records s))"
    if "\<not> P notice_zero" for P
    using filter_update_le[OF True, of P notice_zero] that by blast
  show ?thesis
    unfolding notify_core_def
    using D(1,3,4) order_trans[OF le D(5)] order_trans[OF le D(6)]
    by (auto simp: unique_by_kill notice_wf_def dest!: set_update_in D(2))
qed

text \<open>Renumbering keeps the core and makes the new number larger than every live one.\<close>

lemma notice_rank_mono:
  assumes "x \<in> set rs" "notice_live x" "notice_live y" "n_order x < n_order y"
  shows "length (filter (\<lambda>z. notice_live z \<and> n_order z < n_order x) rs)
       < length (filter (\<lambda>z. notice_live z \<and> n_order z < n_order y) rs)"
proof -
  let ?F = "\<lambda>b. filter (\<lambda>z. notice_live z \<and> n_order z < n_order b) rs"
  have sub: "?F x = filter (\<lambda>z. notice_live z \<and> n_order z < n_order x) (?F y)"
    using assms(4) by (auto simp: filter_filter intro!: filter_cong)
  have "x \<in> set (?F y)" using assms by simp
  moreover have "\<not> (notice_live x \<and> n_order x < n_order x)" by simp
  ultimately have "length (filter (\<lambda>z. notice_live z \<and> n_order z < n_order x) (?F y)) < length (?F y)"
    by (rule length_filter_less)
  with sub show ?thesis by simp
qed

lemma notice_rank_less_iff:
  assumes "length rs \<le> SYS_NOTICE_SLOTS" "x \<in> set rs" "y \<in> set rs" "notice_live x" "notice_live y"
  shows "notice_rank rs x < notice_rank rs y \<longleftrightarrow> n_order x < n_order y"
proof -
  let ?n = "\<lambda>b. length (filter (\<lambda>z. notice_live z \<and> n_order z < n_order b) rs)"
  have small: "?n b \<le> 9" for b
    using assms(1) by (simp add: notify_bounds filter_length_bound)
  have of_nat_iff: "(of_nat (Suc a) :: u64) < of_nat (Suc b) \<longleftrightarrow> a < b" if "a \<le> 9" "b \<le> 9" for a b
    using that by (simp add: word_less_nat_alt unat_of_nat del: of_nat_Suc)
  have "notice_rank rs x < notice_rank rs y \<longleftrightarrow> ?n x < ?n y"
    unfolding notice_rank_def using assms(4,5) of_nat_iff[OF small small] by simp
  moreover have "?n x < ?n y \<longleftrightarrow> n_order x < n_order y"
    using notice_rank_mono[of x rs y] notice_rank_mono[of y rs x] assms
    by (cases "n_order x" "n_order y" rule: linorder_cases) auto
  ultimately show ?thesis by simp
qed

lemma notice_rank_bound:
  assumes "length rs \<le> SYS_NOTICE_SLOTS" "r \<in> set rs"
  shows "notice_rank rs r \<le> of_nat (length (filter notice_live rs))"
proof (cases "notice_live r")
  case True
  let ?m = "length (filter (\<lambda>z. notice_live z \<and> n_order z < n_order r) rs)"
  have "length (filter (\<lambda>z. n_order z < n_order r) (filter notice_live rs)) < length (filter notice_live rs)"
    by (rule length_filter_less[of r]) (use assms True in simp_all)
  then have "Suc ?m \<le> length (filter notice_live rs)"
    by (simp add: filter_filter conj_commute)
  moreover have "length (filter notice_live rs) \<le> 9"
    using assms(1) by (simp add: notify_bounds filter_length_bound)
  ultimately show ?thesis
    using True by (simp add: notice_rank_def word_le_nat_alt unat_of_nat del: of_nat_Suc)
qed (simp add: notice_rank_def)


text \<open>After \<open>next_order\<close>: the core holds, and the number handed out is above every live one.\<close>

lemma notice_wf_next:
  "notice_wf s r \<Longrightarrow> ns_last t = ns_last s \<Longrightarrow> (notice_live r \<Longrightarrow> o' \<le> ns_next_order t) \<Longrightarrow>
   (\<not> notice_live r \<Longrightarrow> o' = 0) \<Longrightarrow> notice_wf t (r\<lparr>n_order := o'\<rparr>)"
  by (auto simp: notice_wf_def notice_zero_def split: if_splits)

lemma notify_core_reorder:
  assumes c: "notify_core s" and rs: "ns_records t = reorder g (ns_records s)"
    and last: "ns_last t = ns_last s"
    and bound: "\<And>r. r \<in> set (ns_records s) \<Longrightarrow> notice_live r \<Longrightarrow> g r \<le> ns_next_order t"
    and zero: "\<And>r. r \<in> set (ns_records s) \<Longrightarrow> \<not> notice_live r \<Longrightarrow> g r = 0"
    and inj: "\<And>x y. x \<in> set (ns_records s) \<Longrightarrow> y \<in> set (ns_records s) \<Longrightarrow> notice_live x \<Longrightarrow>
       notice_live y \<Longrightarrow> g x = g y \<Longrightarrow> n_order x = n_order y"
  shows "notify_core t"
proof -
  note D = notify_coreD[OF c]
  have "unique_by notice_live n_id (reorder g (ns_records s))"
    using D(3) by (simp add: unique_by_def)
  moreover have "unique_by notice_live n_order (reorder g (ns_records s))"
    using unique_byD[OF D(4)] inj unfolding unique_by_def by (simp add: Ball_def)
  moreover have "\<forall>r \<in> set (reorder g (ns_records s)). notice_wf t r"
    using D(2) last bound zero by (auto simp: reorder_def intro!: notice_wf_next)
  ultimately show ?thesis
    using D(1,5,6) by (simp add: notify_core_def rs filter_reorder)
qed

lemma notice_next_order_core:
  assumes c: "notify_core s" and n: "notice_next_order s = (ord, s1)"
  shows "notify_core s1 \<and> ns_next_order s1 = ord \<and>
    (\<forall>r \<in> set (ns_records s1). notice_live r \<longrightarrow> n_order r < ord)"
proof (cases "ns_next_order s = U64_MAX")
  case False
  have rs: "ns_records s1 = ns_records s" "ns_last s1 = ns_last s" "ord = ns_next_order s + 1"
    "ns_next_order s1 = ord"
    using n False by (auto simp: notice_next_order_def)
  have less: "n_order r < ord" if "r \<in> set (ns_records s)" "notice_live r" for r
    using notify_coreD(2)[OF c that(1)] that(2) le_less_trans[OF _ word_inc_greater[OF False]]
    by (simp add: notice_wf_def rs(3))
  have "notify_core s1"
  proof (rule notify_core_reorder[OF c _ rs(2), of n_order])
    show "ns_records s1 = reorder n_order (ns_records s)" by (simp add: reorder_def rs(1))
    show "n_order r \<le> ns_next_order s1" if "r \<in> set (ns_records s)" "notice_live r" for r
      using less[OF that] by (simp add: rs(4))
    show "n_order r = 0" if "r \<in> set (ns_records s)" "\<not> notice_live r" for r
      using notify_coreD(2)[OF c that(1)] that(2) by (simp add: notice_wf_def notice_zero_def)
  qed
  then show ?thesis using rs less by simp
next
  case True
  let ?rs = "ns_records s" and ?g = "notice_rank (ns_records s)"
  let ?m = "of_nat (length (filter notice_live ?rs)) :: u64"
  have len: "length ?rs \<le> SYS_NOTICE_SLOTS" using notify_coreD(1)[OF c] by simp
  have rs: "ns_records s1 = reorder ?g ?rs" "ns_last s1 = ns_last s" "ord = ?m + 1"
    "ns_next_order s1 = ord"
    using n True by (auto simp: notice_next_order_def Let_def reorder_def)
  have "length (filter notice_live ?rs) \<le> 9" using len by (simp add: notify_bounds filter_length_bound)
  then have m: "?m < ?m + 1"
    by (intro word_inc_greater of_nat_not_max) simp
  have less: "?g r < ord" if "r \<in> set ?rs" for r
    using notice_rank_bound[OF len that] m by (simp add: rs(3))
  have "notify_core s1"
  proof (rule notify_core_reorder[OF c rs(1,2)])
    show "?g r \<le> ns_next_order s1" if "r \<in> set ?rs" for r
      using less[OF that] by (simp add: rs(4))
    show "?g r = 0" if "\<not> notice_live r" for r
      using that by (simp add: notice_rank_def)
    show "n_order x = n_order y"
      if "x \<in> set ?rs" "y \<in> set ?rs" "notice_live x" "notice_live y" "?g x = ?g y" for x y
      using notice_rank_less_iff[OF len that(1,2,3,4)] notice_rank_less_iff[OF len that(2,1,4,3)] that(5)
      by (cases "n_order x" "n_order y" rule: linorder_cases) auto
  qed
  then show ?thesis using rs less by (auto simp: reorder_def)
qed


section \<open>Every operation keeps the invariant\<close>

text \<open>Replacing a live record, with an order number not used by another one.\<close>

lemma notify_core_put:
  assumes c: "notify_core s" and i: "i < length (ns_records s)"
    and wf: "notice_wf s r" "notice_live r"
    and ident: "unique_by notice_live n_id ((ns_records s)[i := r])"
    and order: "unique_by notice_live n_order ((ns_records s)[i := r])"
    and act: "length (filter notice_active ((ns_records s)[i := r])) \<le> 1"
    and wait: "length (filter notice_waits ((ns_records s)[i := r])) \<le> SYS_NOTICE_WAITING"
  shows "notify_core (notice_put i r s)"
proof -
  have "notice_wf (notice_put i r s) x" if "x \<in> set ((ns_records s)[i := r])" for x
    using set_update_in[OF that] wf(1) notify_coreD(2)[OF c]
    by (auto simp: notice_wf_def)
  then show ?thesis
    using assms notify_coreD(1)[OF c] by (simp add: notify_core_def)
qed

lemma notice_find_SomeD:
  assumes "notice_find s owner nid = Some i" "notify_core s"
  shows "i < length (ns_records s)" "n_id (ns_records s ! i) = nid" "n_owner (ns_records s ! i) = owner"
    "notice_live (ns_records s ! i)"
proof -
  have f: "nid \<noteq> 0" "first_slot (\<lambda>r. n_id r = nid \<and> n_owner r = owner) (ns_records s) = Some i"
    using assms(1) by (auto simp: notice_find_def split: if_splits)
  show i: "i < length (ns_records s)" and "n_id (ns_records s ! i) = nid"
    "n_owner (ns_records s ! i) = owner"
    using first_slot_SomeD[OF f(2)] by simp_all
  then show "notice_live (ns_records s ! i)"
    using notify_coreD(2)[OF assms(2) nth_mem[OF i]] f(1)
    by (auto simp: notice_wf_def notice_zero_def split: if_splits)
qed

lemma sys_notify_cancel_inv: "notify_inv s \<Longrightarrow> notify_inv (snd (sys_notify_cancel s owner nid))"
  by (auto simp: sys_notify_cancel_def notify_inv_def[of s] notify_core_put_zero
      intro!: notify_inv_schedule split: option.split)

lemma sys_notify_ack_inv: "notify_inv s \<Longrightarrow> notify_inv (snd (sys_notify_ack s owner nid))"
  using sys_notify_cancel_inv by (auto simp: sys_notify_ack_def split: option.split)

lemma sys_notify_snooze_core:
  assumes c: "notify_core s" and f: "notice_find s owner nid = Some i"
    and a: "n_phase (ns_records s ! i) = NOTICE_ACTIVE"
    and w: "notice_waiting s < SYS_NOTICE_WAITING"
  shows "notify_core (notice_put i ((ns_records s ! i)\<lparr>n_phase := NOTICE_SNOOZED, n_wake_us := wake\<rparr>) s)"
proof -
  let ?r = "ns_records s ! i" and ?r' = "(ns_records s ! i)\<lparr>n_phase := NOTICE_SNOOZED, n_wake_us := wake\<rparr>"
  note F = notice_find_SomeD[OF f c] and D = notify_coreD[OF c]
  have "notice_wf s ?r'" "notice_live ?r'"
    using D(2)[OF nth_mem[OF F(1)]] F(4) by (auto simp: notice_wf_def notice_phase_defs)
  moreover have "unique_by notice_live n_id ((ns_records s)[i := ?r'])"
    "unique_by notice_live n_order ((ns_records s)[i := ?r'])"
    by (rule unique_by_same_key; use D F in simp)+
  moreover have "length (filter notice_active ((ns_records s)[i := ?r'])) \<le> 1"
    by (rule order_trans[OF filter_update_le D(5)]) (use F a in \<open>simp_all add: notice_active_def\<close>)
  moreover have "length (filter notice_waits ((ns_records s)[i := ?r'])) \<le> SYS_NOTICE_WAITING"
    using count_update[OF F(1), of notice_waits ?r'] w a by (simp add: notice_waiting_def notice_waits_def)
  ultimately show ?thesis by (intro notify_core_put[OF c F(1)])
qed

lemma sys_notify_snooze_inv: "notify_inv s \<Longrightarrow> notify_inv (snd (sys_notify_snooze s owner nid wake))"
  by (auto simp: sys_notify_snooze_def notify_inv_def[of s] not_le
      intro!: notify_inv_schedule sys_notify_snooze_core split: option.split)

lemma release_slot_core: "notify_core s \<Longrightarrow> notify_core (release_slot owner i s)"
  by (simp add: release_slot_def notify_core_put_zero)

lemma release_fold_core: "notify_core s \<Longrightarrow> notify_core (fold (release_slot owner) is s)"
  by (induction "is" arbitrary: s) (simp_all add: release_slot_core)

lemma sys_notify_release_inv: "notify_inv s \<Longrightarrow> notify_inv (sys_notify_release_owner s owner)"
  by (simp add: sys_notify_release_owner_def notify_inv_schedule release_fold_core notify_inv_def[of s])

lemma notify_take_inv: "notify_inv s \<Longrightarrow> notify_inv (snd (sys_notify_take_changed s))"
  using notice_schedule_again[of "s\<lparr>ns_changed := False\<rparr>" s]
  by (auto simp: notify_inv_def notify_core_def notice_wf_def sys_notify_take_changed_def)


lemma step_wake_core: "notify_core s \<Longrightarrow> i < length (ns_records s) \<Longrightarrow> notify_core (step_wake now i s)"
proof -
  assume c: "notify_core s" and i: "i < length (ns_records s)"
  show ?thesis
  proof (cases "n_phase (ns_records s ! i) = NOTICE_SNOOZED \<and> now \<ge> n_wake_us (ns_records s ! i)")
    case False
    then have "step_wake now i s = s" by (auto simp: step_wake_def)
    then show ?thesis using c by simp
  next
    case True
    obtain ord s1 where n: "notice_next_order s = (ord, s1)" by fastforce
    note N = notice_next_order_core[OF c n]
    obtain g where rs: "ns_records s1 = reorder g (ns_records s)"
      using notice_next_order_eq[OF n] by blast
    have c1: "notify_core s1" and i1: "i < length (ns_records s1)" using N i rs by simp_all
    note D = notify_coreD[OF c1]
    let ?r = "ns_records s1 ! i"
    let ?r' = "?r\<lparr>n_order := ord, n_phase := NOTICE_QUEUED\<rparr>"
    have sn: "n_phase ?r = NOTICE_SNOOZED" using True i by (simp add: rs)
    have live: "notice_live ?r" using sn by (simp add: notice_phase_defs)
    have "notify_core (notice_put i ?r' s1)"
    proof (rule notify_core_put[OF c1 i1])
      show "notice_wf s1 ?r'" "notice_live ?r'"
        using D(2)[OF nth_mem[OF i1]] live N by (auto simp: notice_wf_def notice_phase_defs)
      show "unique_by notice_live n_id ((ns_records s1)[i := ?r'])"
        by (rule unique_by_same_key[OF D(3) i1 live]) simp
      show "unique_by notice_live n_order ((ns_records s1)[i := ?r'])"
        by (rule unique_by_fresh[OF D(4)]) (use N in auto)
      show "length (filter notice_active ((ns_records s1)[i := ?r'])) \<le> 1"
        by (rule order_trans[OF filter_update_le[OF i1] D(5)]) (simp add: notice_active_def)
      show "length (filter notice_waits ((ns_records s1)[i := ?r'])) \<le> SYS_NOTICE_WAITING"
        by (rule order_trans[OF filter_update_le[OF i1] D(6)]) (simp add: notice_waits_def sn)
    qed
    with True n show ?thesis by (simp add: step_wake_def)
  qed
qed

lemma step_expire_core: "notify_core s \<Longrightarrow> notify_core (step_expire now i s)"
  by (simp add: step_expire_def Let_def notify_core_put_zero)

lemma step_loop_core: "notify_core s \<Longrightarrow> n \<le> length (ns_records s) \<Longrightarrow> notify_core (fst (step_loop now s n))"
proof (induction n)
  case 0
  then show ?case by (simp add: step_loop_def)
next
  case (Suc n)
  obtain t f a where l: "step_loop now s n = (t, f, a)" by (cases "step_loop now s n")
  have "notify_core t" "n < length (ns_records t)"
    using Suc l step_loop_length[of n s now] by auto
  then show ?case
    by (simp add: step_loop_Suc l step_slot_def Let_def step_expire_core step_wake_core)
qed

lemma filter_activate:
  assumes "i < length rs" "\<forall>r \<in> set rs. \<not> notice_active r"
  shows "length (filter notice_active (rs[i := r])) \<le> 1"
proof -
  have "length (filter notice_active rs) = 0"
    using assms(2) by (auto simp: filter_empty_conv)
  then show ?thesis using count_update[OF assms(1), of notice_active r] by (auto split: if_splits)
qed

lemma step_activate_core:
  assumes c: "notify_core (fst acc)" and seen: "loop_seen now (length (ns_records (fst acc))) acc"
  shows "notify_core (step_activate acc)"
proof -
  obtain s first active where acc: "acc = (s, first, active)" by (cases acc)
  show ?thesis
  proof (cases "first = None \<or> active")
    case True
    then show ?thesis using c by (auto simp: acc step_activate_def split: option.split)
  next
    case False
    then obtain k where k: "first = Some k" "\<not> active" by auto
    from c acc have cs: "notify_core s" by simp
    note D = notify_coreD[OF cs]
    from seen k have K: "k < length (ns_records s)" "notice_queued (ns_records s ! k)"
      and none: "\<forall>r \<in> set (ns_records s). \<not> notice_active r"
      by (auto simp: acc loop_seen_def all_set_conv_all_nth)
    let ?r = "(ns_records s ! k)\<lparr>n_phase := NOTICE_ACTIVE\<rparr>"
    have live: "notice_live (ns_records s ! k)" using K(2) by (simp add: notice_phase_defs)
    have "notify_core (notice_put k ?r s)"
    proof (rule notify_core_put[OF cs K(1)])
      show "notice_wf s ?r" "notice_live ?r"
        using D(2)[OF nth_mem[OF K(1)]] live by (auto simp: notice_wf_def notice_phase_defs)
      show "unique_by notice_live n_id ((ns_records s)[k := ?r])"
        "unique_by notice_live n_order ((ns_records s)[k := ?r])"
        by (rule unique_by_same_key; use D K live in simp)+
      show "length (filter notice_active ((ns_records s)[k := ?r])) \<le> 1"
        by (rule filter_activate[OF K(1) none])
      show "length (filter notice_waits ((ns_records s)[k := ?r])) \<le> SYS_NOTICE_WAITING"
        by (rule order_trans[OF filter_update_le[OF K(1)] D(6)]) (simp add: notice_waits_def)
    qed
    then show ?thesis by (simp add: acc k step_activate_def)
  qed
qed

lemma sys_notify_step_inv: "notify_inv s \<Longrightarrow> notify_inv (sys_notify_step s now)"
proof -
  assume inv: "notify_inv s"
  then have c: "notify_core s" by (simp add: notify_inv_def)
  have len: "SYS_NOTICE_SLOTS \<le> length (ns_records s)" using notify_coreD(1)[OF c] by simp
  have "notify_core (step_activate (step_loop now s SYS_NOTICE_SLOTS))"
  proof (rule step_activate_core)
    show "notify_core (fst (step_loop now s SYS_NOTICE_SLOTS))"
      by (rule step_loop_core[OF c len])
    show "loop_seen now (length (ns_records (fst (step_loop now s SYS_NOTICE_SLOTS))))
        (step_loop now s SYS_NOTICE_SLOTS)"
      using step_loop_seen[OF len] step_loop_length[OF len] notify_coreD(1)[OF c] by simp
  qed
  with inv show ?thesis by (simp add: sys_notify_step_def notify_inv_schedule)
qed


section \<open>Posting\<close>

text \<open>With at most one active and at most seven waiting records, a record is free.\<close>

lemma notice_live_split: "notice_live r \<longleftrightarrow> notice_active r \<or> notice_waits r"
  by (cases "n_phase r") (simp_all add: notice_phase_defs)

lemma live_count: "length (filter notice_live rs) = length (filter notice_active rs) + length (filter notice_waits rs)"
proof (induction rs)
  case (Cons r rs)
  have "\<not> (notice_active r \<and> notice_waits r)" by (simp add: notice_phase_defs)
  with Cons show ?case by (auto simp: notice_live_split)
qed simp

lemma notice_free_slot:
  assumes "notify_core s" "notice_waiting s < SYS_NOTICE_WAITING"
  shows "\<exists>i. first_slot (\<lambda>r. \<not> notice_live r) (ns_records s) = Some i"
proof -
  note D = notify_coreD[OF assms(1)]
  have "length (filter notice_live (ns_records s)) < length (ns_records s)"
    using D(1,5) assms(2) by (simp add: live_count notice_waiting_def notify_bounds)
  then have "\<exists>x \<in> set (ns_records s). \<not> notice_live x"
    by (metis filter_all_length less_irrefl)
  then show ?thesis by (auto intro: first_slot_Some_ex)
qed

text \<open>The duplicate the source looks for when the key is not zero.\<close>

definition notice_duplicate :: "sys_notify \<Rightarrow> u32 \<Rightarrow> u32 \<Rightarrow> nat option" where
  "notice_duplicate s owner key =
     (if key \<noteq> 0
      then first_slot (\<lambda>r. notice_live r \<and> n_owner r = owner \<and> n_key r = key) (ns_records s)
      else None)"

lemma sys_notify_post_cases:
  assumes "sys_notify_post s owner key label expiry = (res, out, t)"
  obtains (refused) "res \<noteq> NOTICE_OK" "out = None" "t = s"
  | (dup) i where "notice_duplicate s owner key = Some i" "res = NOTICE_OK"
      "out = Some (n_id (ns_records s ! i))" "t = s"
  | (new) i l ord s1 r where "label = Some l" "owner \<noteq> 0" "notice_label_ok l"
      "notice_waiting s < SYS_NOTICE_WAITING" "ns_last s \<noteq> U32_MAX"
      "first_slot (\<lambda>r. \<not> notice_live r) (ns_records s) = Some i"
      "notice_next_order s = (ord, s1)" "res = NOTICE_OK" "out = Some (ns_last s + 1)"
      "r = \<lparr>n_wake_us = 0, n_expires_us = expiry, n_order = ord, n_id = ns_last s + 1,
            n_owner = owner, n_key = key, n_label = l, n_phase = NOTICE_QUEUED\<rparr>"
      "t = notice_schedule (notice_changed ((notice_put i r s1)\<lparr>ns_last := ns_last s + 1\<rparr>))"
proof -
  have last: "ns_last (snd (notice_next_order s)) = ns_last s"
    using notice_next_order_eq[of s "fst (notice_next_order s)" "snd (notice_next_order s)"] by simp
  show thesis
    using assms last unfolding sys_notify_post_def Let_def notice_duplicate_def[symmetric]
    by (auto split: option.splits if_splits prod.splits simp: not_le intro: refused dup new)
qed

lemma notice_next_last: "notice_next_order s = (ord, s1) \<Longrightarrow> ns_last s1 = ns_last s"
  using notice_next_order_eq by blast

lemma post_new_core:
  assumes c: "notify_core s" and w: "notice_waiting s < SYS_NOTICE_WAITING" and l: "ns_last s \<noteq> U32_MAX"
    and f: "first_slot (\<lambda>r. \<not> notice_live r) (ns_records s) = Some i"
    and n: "notice_next_order s = (ord, s1)" and ow: "owner \<noteq> 0" and lab: "notice_label_ok lab"
    and r: "r = \<lparr>n_wake_us = 0, n_expires_us = expiry, n_order = ord, n_id = ns_last s + 1,
       n_owner = owner, n_key = key, n_label = lab, n_phase = NOTICE_QUEUED\<rparr>"
  shows "notify_core ((notice_put i r s1)\<lparr>ns_last := ns_last s + 1\<rparr>)"
proof -
  note N = notice_next_order_core[OF c n] and L = notice_next_last[OF n]
  obtain g where rs: "ns_records s1 = reorder g (ns_records s)" using notice_next_order_eq[OF n] by blast
  let ?t = "s1\<lparr>ns_last := ns_last s + 1\<rparr>"
  have c1: "notify_core s1" using N by simp
  have wf1: "notice_wf ?t x" if "x \<in> set (ns_records s1)" for x
    using notify_coreD(2)[OF c1 that] word_le_inc[OF l] L by (auto simp: notice_wf_def)
  have ct: "notify_core ?t"
    using c1 wf1 by (simp add: notify_core_def)
  note D = notify_coreD[OF ct]
  have i: "i < length (ns_records ?t)" "\<not> notice_live (ns_records ?t ! i)"
    using first_slot_SomeD[OF f] by (simp_all add: rs)
  have ne: "n_id x \<noteq> ns_last s + 1" if "x \<in> set (ns_records s1)" "notice_live x" for x
    using notify_coreD(2)[OF c1 that(1)] that(2) word_inc_greater[OF l] L
    by (auto simp: notice_wf_def)
  have "notify_core (notice_put i r ?t)"
  proof (rule notify_core_put[OF ct i(1)])
    show "notice_wf ?t r" "notice_live r"
      using ow lab N word_inc_nonzero[OF l] by (simp_all add: r notice_wf_def notice_phase_defs)
    show "unique_by notice_live n_id ((ns_records ?t)[i := r])"
      by (rule unique_by_fresh[OF D(3)]) (use ne in \<open>auto simp: r\<close>)
    show "unique_by notice_live n_order ((ns_records ?t)[i := r])"
      by (rule unique_by_fresh[OF D(4)]) (use N in \<open>auto simp: r\<close>)
    show "length (filter notice_active ((ns_records ?t)[i := r])) \<le> 1"
      by (rule order_trans[OF filter_update_le[OF i(1)] D(5)]) (simp add: r notice_active_def)
    have "notice_waiting s1 = notice_waiting s"
      by (simp add: notice_waiting_def rs filter_reorder)
    then show "length (filter notice_waits ((ns_records ?t)[i := r])) \<le> SYS_NOTICE_WAITING"
      using count_update[OF i(1), of notice_waits r] w i(2)
      by (simp add: notice_waiting_def notice_live_split split: if_splits)
  qed
  then show ?thesis by (cases s1) (simp add: notice_put_def)
qed

lemma sys_notify_post_inv: "notify_inv s \<Longrightarrow> notify_inv (snd (snd (sys_notify_post s owner key label expiry)))"
proof -
  assume inv: "notify_inv s"
  obtain res out t where p: "sys_notify_post s owner key label expiry = (res, out, t)"
    by (cases "sys_notify_post s owner key label expiry")
  from p have "notify_inv t"
    by (cases rule: sys_notify_post_cases)
      (use inv in \<open>auto simp: notify_inv_def[of s] intro!: notify_inv_schedule post_new_core\<close>)
  with p show ?thesis by simp
qed

lemma notify_apply_inv: "notify_inv s \<Longrightarrow> notify_inv (notify_apply s e)"
  by (cases e) (simp_all add: sys_notify_post_inv sys_notify_cancel_inv sys_notify_ack_inv
      sys_notify_snooze_inv sys_notify_release_inv sys_notify_step_inv notify_take_inv)

interpretation notify_run: started_machine notify_apply notify_inv notify_zero
  by unfold_locales (simp_all add: notify_apply_inv notify_inv_zero)


section \<open>What a post means to its callers\<close>

text \<open>The pending notifications, as the multiset of (owner, label) of the live records.\<close>

definition notice_pending :: "sys_notify \<Rightarrow> (u32 \<times> bytes) multiset" where
  "notice_pending s = image_mset (\<lambda>r. (n_owner r, n_label r)) (filter_mset notice_live (mset (ns_records s)))"

lemma pending_update:
  "i < length rs \<Longrightarrow> \<not> notice_live (rs ! i) \<Longrightarrow> notice_live r \<Longrightarrow>
   image_mset f (filter_mset notice_live (mset (rs[i := r]))) =
   add_mset (f r) (image_mset f (filter_mset notice_live (mset rs)))"
proof (induction rs arbitrary: i)
  case (Cons x rs)
  then show ?case by (cases i) auto
qed simp

lemma pending_reorder:
  "(\<And>r x. f (r\<lparr>n_order := x\<rparr>) = f r) \<Longrightarrow>
   image_mset f (filter_mset notice_live (mset (reorder g rs))) =
   image_mset f (filter_mset notice_live (mset rs))"
  by (induction rs) (simp_all add: reorder_def)

lemma notice_pending_same: "ns_records t = ns_records s \<Longrightarrow> notice_pending t = notice_pending s"
  by (simp add: notice_pending_def)

lemma post_fresh_pending:
  assumes "sys_notify_post s owner 0 (Some l) expiry = (NOTICE_OK, out, t)"
  shows "notice_pending t = add_mset (owner, l) (notice_pending s)"
  using assms
proof (cases rule: sys_notify_post_cases)
  case (new i l' ord s1 r)
  obtain g where rs: "ns_records s1 = reorder g (ns_records s)" using notice_next_order_eq[OF new(7)] by blast
  have "i < length (ns_records s1)" "\<not> notice_live (ns_records s1 ! i)"
    using first_slot_SomeD[OF new(6)] by (simp_all add: rs)
  moreover have "notice_live r" "n_owner r = owner" "n_label r = l"
    using new(1,10) by (simp_all add: notice_phase_defs)
  ultimately show ?thesis
    using new(11) by (simp add: notice_pending_def pending_update rs pending_reorder)
qed (auto simp: notice_duplicate_def)

lemma post_refused_same:
  "sys_notify_post s owner key label expiry = (res, out, t) \<Longrightarrow> res \<noteq> NOTICE_OK \<Longrightarrow> t = s \<and> out = None"
  by (cases rule: sys_notify_post_cases[of s owner key label expiry res out t]) auto

text \<open>
  The contract the timers, the wall-clock rules and the pet hub rely on: a post with key 0
  either adds exactly one pending notification of that owner and label, or changes nothing.
\<close>

locale notice_sink =
  fixes post :: "'s \<Rightarrow> u32 \<Rightarrow> u32 \<Rightarrow> bytes option \<Rightarrow> u64 \<Rightarrow> notice_result \<times> u32 option \<times> 's"
    and sink_inv :: "'s \<Rightarrow> bool"
    and pending :: "'s \<Rightarrow> (u32 \<times> bytes) multiset"
  assumes post_inv: "sink_inv s \<Longrightarrow> sink_inv (snd (snd (post s owner key label expiry)))"
    and post_ok: "post s owner 0 (Some l) expiry = (NOTICE_OK, out, t) \<Longrightarrow>
      pending t = add_mset (owner, l) (pending s)"
    and post_refused: "post s owner key label expiry = (res, out, t) \<Longrightarrow> res \<noteq> NOTICE_OK \<Longrightarrow> t = s"

interpretation store: notice_sink sys_notify_post notify_inv notice_pending
  by unfold_locales (auto intro: sys_notify_post_inv post_fresh_pending dest: post_refused_same)

section \<open>First in, first out\<close>

text \<open>The queued record the loop remembers has the smallest order number seen so far.\<close>

definition loop_oldest :: "nat \<Rightarrow> sys_notify \<times> nat option \<times> bool \<Rightarrow> bool" where
  "loop_oldest n acc \<longleftrightarrow>
     (case acc of (s, first, active) \<Rightarrow>
        \<forall>k. first = Some k \<longrightarrow>
          (\<forall>j < n. notice_queued (ns_records s ! j) \<longrightarrow> n_order (ns_records s ! k) \<le> n_order (ns_records s ! j)))"

lemma notice_next_order_mono:
  assumes c: "notify_core s" and n: "notice_next_order s = (ord, s1)"
    and k: "k < length (ns_records s)" "notice_live (ns_records s ! k)"
    and j: "j < length (ns_records s)" "notice_live (ns_records s ! j)"
  shows "n_order (ns_records s1 ! k) \<le> n_order (ns_records s1 ! j) \<longleftrightarrow>
         n_order (ns_records s ! k) \<le> n_order (ns_records s ! j)"
proof (cases "ns_next_order s = U64_MAX")
  case False
  with n have "ns_records s1 = ns_records s" by (auto simp: notice_next_order_def)
  then show ?thesis by simp
next
  case True
  have "ns_records s1 = map (\<lambda>r. r\<lparr>n_order := notice_rank (ns_records s) r\<rparr>) (ns_records s)"
    using n True by (auto simp: notice_next_order_def Let_def)
  then show ?thesis
    using notice_rank_less_iff[of "ns_records s" "ns_records s ! j" "ns_records s ! k"] notify_coreD(1)[OF c] k j
    by (simp add: not_less[symmetric])
qed


lemma step_wake_orders:
  assumes c: "notify_core s" and i: "i < length (ns_records s)"
    and k: "k < i" "notice_live (ns_records s ! k)" and j: "j < i" "notice_live (ns_records s ! j)"
    and le: "n_order (ns_records s ! k) \<le> n_order (ns_records s ! j)"
  shows "n_order (ns_records (step_wake now i s) ! k) \<le> n_order (ns_records (step_wake now i s) ! j)"
proof (cases "n_phase (ns_records s ! i) = NOTICE_SNOOZED \<and> now \<ge> n_wake_us (ns_records s ! i)")
  case False
  then have "step_wake now i s = s" by (auto simp: step_wake_def)
  with le show ?thesis by simp
next
  case True
  obtain ord s1 where n: "notice_next_order s = (ord, s1)" by fastforce
  have "n_order (ns_records s1 ! k) \<le> n_order (ns_records s1 ! j)"
    using notice_next_order_mono[OF c n _ k(2) _ j(2)] k j i le by simp
  with True n i k j show ?thesis by (simp add: step_wake_def)
qed

lemma step_expire_nth: "j \<noteq> i \<Longrightarrow> ns_records (step_expire now i s) ! j = ns_records s ! j"
  by (simp add: step_expire_def Let_def)

lemma step_slot_oldest:
  assumes c: "notify_core (fst acc)" and i: "i < length (ns_records (fst acc))"
    and seen: "loop_seen now i acc" and old: "loop_oldest i acc"
  shows "loop_oldest (Suc i) (step_slot now i acc)"
proof -
  obtain s first active where acc: "acc = (s, first, active)" by (cases acc)
  obtain t first' active' where step: "step_slot now i (s, first, active) = (t, first', active')"
    by (cases "step_slot now i (s, first, active)")
  have i': "i < length (ns_records s)" using i acc by simp
  obtain g r where rec: "ns_records t = (reorder g (ns_records s))[i := r]"
    using step_slot_records[OF i' step] by blast
  have other: "ns_records t ! j = (ns_records s ! j)\<lparr>n_order := g (ns_records s ! j)\<rparr>" if "j < i" for j
    using rec i' that by simp
  have t: "t = step_expire now i (step_wake now i s)" and at: "ns_records t ! i = r"
    using step rec i' by (auto simp: step_slot_def Let_def)
  have first: "first' = (if notice_queued r \<and> (case first of None \<Rightarrow> True
        | Some f \<Rightarrow> n_order r < n_order (ns_records t ! f)) then Some i else first)"
    using step at by (auto simp: step_slot_def Let_def notice_phase_defs)
  have keep: "n_order (ns_records t ! k) \<le> n_order (ns_records t ! j)"
    if "first = Some k" "j < i" "notice_queued (ns_records s ! j)" for k j
  proof -
    have k: "k < i" "notice_queued (ns_records s ! k)"
      using seen that(1) by (simp_all add: acc loop_seen_def)
    have "n_order (ns_records s ! k) \<le> n_order (ns_records s ! j)"
      using old that by (simp add: acc loop_oldest_def)
    then show ?thesis
      using step_wake_orders[of s i k j now] c i' k that k
      by (simp add: acc t step_expire_nth notice_phase_defs)
  qed
  have none: "\<not> notice_queued (ns_records s ! j)" if "first = None" "j < i" for j
    using seen that by (simp add: acc loop_seen_def)
  have "n_order (ns_records t ! k) \<le> n_order (ns_records t ! j)"
    if "first' = Some k" "j < Suc i" "notice_queued (ns_records t ! j)" for k j
  proof (cases "j = i")
    case True
    with that first at show ?thesis
      by (cases first) (auto split: if_splits)
  next
    case False
    then have ji: "j < i" "notice_queued (ns_records s ! j)" using that other by auto
    then obtain f where f: "first = Some f" using none by (cases first) auto
    from keep[OF f ji] that(1) first f at show ?thesis by (auto split: if_splits)
  qed
  then show ?thesis by (simp add: acc step loop_oldest_def)
qed

lemma step_loop_oldest: "notify_core s \<Longrightarrow> n \<le> length (ns_records s) \<Longrightarrow> loop_oldest n (step_loop now s n)"
proof (induction n)
  case 0
  show ?case by (simp add: step_loop_def loop_oldest_def)
next
  case (Suc n)
  then show ?case
    unfolding step_loop_Suc
    by (intro step_slot_oldest) (simp_all add: step_loop_core step_loop_length step_loop_seen)
qed

lemma step_slot_inactive:
  assumes "\<forall>r \<in> set (ns_records (fst acc)). \<not> notice_active r" "i < length (ns_records (fst acc))"
  shows "\<forall>r \<in> set (ns_records (fst (step_slot now i acc))). \<not> notice_active r"
proof -
  obtain s first active where acc: "acc = (s, first, active)" by (cases acc)
  have wake: "\<forall>r \<in> set (ns_records (step_wake now i s)). \<not> notice_active r"
  proof (cases "n_phase (ns_records s ! i) = NOTICE_SNOOZED \<and> now \<ge> n_wake_us (ns_records s ! i)")
    case True
    obtain ord s1 where n: "notice_next_order s = (ord, s1)" by fastforce
    then obtain g where "ns_records s1 = reorder g (ns_records s)" using notice_next_order_eq by blast
    with True n assms show ?thesis
      by (auto simp: acc step_wake_def reorder_def notice_active_def dest!: set_update_in)
  next
    case False
    then have "step_wake now i s = s" by (auto simp: step_wake_def)
    with assms show ?thesis by (simp add: acc)
  qed
  then show ?thesis
    by (auto simp: acc step_slot_def Let_def step_expire_def dest!: set_update_in)
qed

lemma step_loop_inactive:
  "\<forall>r \<in> set (ns_records s). \<not> notice_active r \<Longrightarrow> n \<le> length (ns_records s) \<Longrightarrow>
   \<forall>r \<in> set (ns_records (fst (step_loop now s n))). \<not> notice_active r"
proof (induction n)
  case 0
  then show ?case by (simp add: step_loop_def)
next
  case (Suc n)
  then show ?case
    unfolding step_loop_Suc by (intro step_slot_inactive) (simp_all add: step_loop_length)
qed

text \<open>When nothing was active, the record a step activates is the oldest of the queue.\<close>

lemma step_activates_oldest:
  assumes inv: "notify_inv s" and due: "ns_deadline s \<le> now"
    and none: "\<forall>r \<in> set (ns_records s). \<not> notice_active r"
    and a: "a \<in> set (ns_records (sys_notify_step s now))" "notice_active a"
    and q: "q \<in> set (ns_records (sys_notify_step s now))" "notice_queued q"
  shows "n_order a < n_order q"
proof -
  have c: "notify_core s" using inv by (simp add: notify_inv_def)
  have len: "SYS_NOTICE_SLOTS \<le> length (ns_records s)" using notify_coreD(1)[OF c] by simp
  obtain t first active where l: "step_loop now s SYS_NOTICE_SLOTS = (t, first, active)"
    by (cases "step_loop now s SYS_NOTICE_SLOTS")
  have ct: "notify_core t" using step_loop_core[OF c len, of now] l by simp
  have seen: "loop_seen now SYS_NOTICE_SLOTS (t, first, active)" using step_loop_seen[OF len, of now] l by simp
  have old: "loop_oldest SYS_NOTICE_SLOTS (t, first, active)" using step_loop_oldest[OF c len, of now] l by simp
  have step: "ns_records (sys_notify_step s now) = ns_records (step_activate (t, first, active))"
    using l by (simp add: sys_notify_step_def leD[OF due])
  have na: "\<forall>r \<in> set (ns_records t). \<not> notice_active r"
    using step_loop_inactive[OF none, of SYS_NOTICE_SLOTS now] len l by simp
  have idle: "\<not> active" and lt: "length (ns_records t) = SYS_NOTICE_SLOTS"
    using seen na notify_coreD(1)[OF ct] by (auto simp: loop_seen_def)
  obtain k where k: "first = Some k"
    using a na step idle by (cases first) (auto simp: step_activate_def)
  let ?r = "(ns_records t ! k)\<lparr>n_phase := NOTICE_ACTIVE\<rparr>"
  have recs: "ns_records (sys_notify_step s now) = (ns_records t)[k := ?r]"
    using step k idle by (simp add: step_activate_def)
  have K: "k < length (ns_records t)" "notice_queued (ns_records t ! k)"
    using seen k lt by (simp_all add: loop_seen_def)
  have a_eq: "a = ?r" using a recs na set_update_in[of a "ns_records t" k ?r] by auto
  obtain j where j: "j < length (ns_records t)" "q = (ns_records t)[k := ?r] ! j"
    using q(1) recs by (metis in_set_conv_nth length_list_update)
  have jk: "j \<noteq> k" using j q(2) K by (auto simp: notice_queued_def)
  then have qt: "q = ns_records t ! j" using j by simp
  have "n_order (ns_records t ! k) \<le> n_order q"
    using old k j(1) qt q(2) lt by (simp add: loop_oldest_def)
  moreover have "n_order (ns_records t ! k) \<noteq> n_order q"
    using unique_byD[OF notify_coreD(4)[OF ct] K(1) j(1)] jk K(2) q(2) qt
    by (auto simp: notice_phase_defs)
  ultimately show ?thesis using a_eq by simp
qed


section \<open>Properties\<close>

text \<open>A store with two queued notifications, for the witnesses.\<close>

definition notify_sample :: sys_notify where
  "notify_sample = foldl notify_apply notify_zero
     [NPost 1 0 (Some (ascii ''A'')) 0, NPost 2 0 (Some (ascii ''B'')) 0]"

lemma notify_sample_inv: "notify_inv notify_sample"
  unfolding notify_sample_def by (rule notify_run.reachable_inv)




text \<open>Property C18: when no notification is active, the one a step shows is older than every one
  it leaves queued; renumbering the orders at their 64-bit limit does not change that.\<close>

theorem notify_step_is_fifo:
  assumes "notify_inv s" "sys_notify_deadline s \<le> now"
    and "\<forall>r \<in> set (ns_records s). \<not> notice_active r"
    and "a \<in> set (ns_records (sys_notify_step s now))" "notice_active a"
    and "q \<in> set (ns_records (sys_notify_step s now))" "notice_queued q"
  shows "n_order a < n_order q"
  using step_activates_oldest assms by (simp add: sys_notify_deadline_def)

theorem notify_step_is_fifo_witness:
  "n_order (ns_records (sys_notify_step notify_sample 0) ! 0)
     < n_order (ns_records (sys_notify_step notify_sample 0) ! 1)"
proof (rule notify_step_is_fifo[OF notify_sample_inv])
  have len: "length (ns_records (sys_notify_step notify_sample 0)) = 9" by code_simp
  show "sys_notify_deadline notify_sample \<le> 0" by code_simp
  show "\<forall>r \<in> set (ns_records notify_sample). \<not> notice_active r" by code_simp
  show "ns_records (sys_notify_step notify_sample 0) ! 0 \<in> set (ns_records (sys_notify_step notify_sample 0))"
    "ns_records (sys_notify_step notify_sample 0) ! 1 \<in> set (ns_records (sys_notify_step notify_sample 0))"
    by (simp_all add: len)
  show "notice_active (ns_records (sys_notify_step notify_sample 0) ! 0)" by code_simp
  show "notice_queued (ns_records (sys_notify_step notify_sample 0) ! 1)" by code_simp
qed

text \<open>A post with key 0 from a valid owner and label is refused only when eight
  notifications wait or the identities ran out (a free record is then never missing), and
  otherwise hands out the next identity and adds exactly that one pending notification.\<close>

theorem sys_notify_post_total:
  assumes inv: "notify_inv s" and args: "owner \<noteq> 0" "notice_label_ok l"
  shows "if notice_waiting s = SYS_NOTICE_WAITING \<or> ns_last s = U32_MAX
     then sys_notify_post s owner 0 (Some l) expiry = (NOTICE_FULL, None, s)
     else \<exists>t. sys_notify_post s owner 0 (Some l) expiry = (NOTICE_OK, Some (ns_last s + 1), t) \<and>
            notice_pending t = add_mset (owner, l) (notice_pending s)"
proof (cases "notice_waiting s = SYS_NOTICE_WAITING \<or> ns_last s = U32_MAX")
  case True
  then show ?thesis using args by (auto simp: sys_notify_post_def)
next
  case False
  have c: "notify_core s" using inv by (simp add: notify_inv_def)
  have w: "notice_waiting s < SYS_NOTICE_WAITING"
    using notify_coreD(6)[OF c] False by (simp add: notice_waiting_def)
  obtain i where "first_slot (\<lambda>r. \<not> notice_live r) (ns_records s) = Some i"
    using notice_free_slot[OF c w] by blast
  moreover obtain ord s1 where n: "notice_next_order s = (ord, s1)" by fastforce
  moreover have "ns_last s1 = ns_last s" by (rule notice_next_last[OF n])
  ultimately obtain t where t: "sys_notify_post s owner 0 (Some l) expiry = (NOTICE_OK, Some (ns_last s + 1), t)"
    using w False args by (simp add: sys_notify_post_def Let_def)
  with store.post_ok[OF t] False show ?thesis by auto
qed

theorem sys_notify_post_total_witness:
  "\<exists>t. sys_notify_post notify_sample 3 0 (Some (ascii ''C'')) 0 = (NOTICE_OK, Some (ns_last notify_sample + 1), t)
     \<and> notice_pending t = add_mset (3, ascii ''C'') (notice_pending notify_sample)"
proof -
  have "(3 :: u32) \<noteq> 0" "notice_label_ok (ascii ''C'')" by code_simp+
  moreover have "\<not> (notice_waiting notify_sample = SYS_NOTICE_WAITING \<or> ns_last notify_sample = U32_MAX)"
    by code_simp
  ultimately show ?thesis
    using sys_notify_post_total[OF notify_sample_inv, of 3 "ascii ''C''" 0] by simp
qed

end
