(* ===== verification/Timer.thy ===== *)
theory Timer
  imports Notify
begin

text \<open>
  The one-shot timers of the system services (main/system/sys_timer.c and .h): four records
  keyed by owner and key text, which post a notification when they are due.  A timer the full
  notification store refuses is kept and marked blocked; only a change of the store retries it.

  The step takes the posting operation as an argument, because all it knows of the store is the
  contract \<open>notice_sink\<close>; \<open>sys_timer_step\<close> is the step on the firmware's store.
\<close>

section \<open>Data\<close>

definition SYS_TIMER_SLOTS :: nat where "SYS_TIMER_SLOTS = 4"
definition SYS_TIMER_KEY :: nat where "SYS_TIMER_KEY = 16"

record sys_timer_record =
  t_due_us :: u64
  t_owner :: u32
  t_key :: bytes
  t_label :: bytes
  t_blocked :: bool

record sys_timer =
  ts_records :: "sys_timer_record list"
  ts_deadline :: u64
  ts_changed :: bool

definition timer_zero_record :: sys_timer_record where
  "timer_zero_record = \<lparr>t_due_us = 0, t_owner = 0, t_key = [], t_label = [], t_blocked = False\<rparr>"

definition timer_zero :: sys_timer where
  "timer_zero = \<lparr>ts_records = replicate SYS_TIMER_SLOTS timer_zero_record, ts_deadline = 0, ts_changed = False\<rparr>"

definition timer_armed :: "sys_timer_record \<Rightarrow> bool" where
  "timer_armed r \<longleftrightarrow> t_due_us r \<noteq> 0"

section \<open>Operations\<close>

fun timer_text_from :: "nat \<Rightarrow> nat \<Rightarrow> bytes \<Rightarrow> bool" where
  "timer_text_from i cap [] = (i \<le> cap)"
| "timer_text_from i cap (c # cs) =
     (if i \<le> cap then (if c < 32 \<or> c > 126 then False else timer_text_from (i + 1) cap cs) else False)"

definition timer_text :: "bytes option \<Rightarrow> nat \<Rightarrow> bool" where
  "timer_text p cap = (case p of None \<Rightarrow> False | Some [] \<Rightarrow> False | Some cs \<Rightarrow> timer_text_from 0 cap cs)"

definition timer_schedule :: "sys_timer \<Rightarrow> sys_timer" where
  "timer_schedule s = s\<lparr>ts_deadline :=
     fold (\<lambda>r d. if t_due_us r \<noteq> 0 \<and> \<not> t_blocked r \<and> t_due_us r < d then t_due_us r else d)
       (ts_records s) U64_MAX\<rparr>"

definition timer_match :: "u32 \<Rightarrow> bytes \<Rightarrow> sys_timer_record \<Rightarrow> bool" where
  "timer_match owner key r \<longleftrightarrow> t_due_us r \<noteq> 0 \<and> t_owner r = owner \<and> t_key r = key"

definition sys_timer_read :: "sys_timer \<Rightarrow> u32 \<Rightarrow> bytes option \<Rightarrow> sys_timer_record option" where
  "sys_timer_read s owner key =
     (case key of None \<Rightarrow> None
      | Some k \<Rightarrow>
        if owner = 0 then None
        else map_option (\<lambda>i. ts_records s ! i) (first_slot (timer_match owner k) (ts_records s)))"

text \<open>The search loop of \<open>sys_timer_set\<close>: a matching timer ends it, else the first free slot.\<close>

fun timer_pick :: "u32 \<Rightarrow> bytes \<Rightarrow> nat \<Rightarrow> sys_timer_record list \<Rightarrow> nat option \<Rightarrow> nat option" where
  "timer_pick owner key i [] slot = slot"
| "timer_pick owner key i (r # rs) slot =
     (if timer_match owner key r then Some i
      else timer_pick owner key (i + 1) rs (if t_due_us r = 0 \<and> slot = None then Some i else slot))"

definition timer_put :: "nat \<Rightarrow> sys_timer_record \<Rightarrow> sys_timer \<Rightarrow> sys_timer" where
  "timer_put i r s = s\<lparr>ts_records := (ts_records s)[i := r], ts_changed := True\<rparr>"

definition sys_timer_set ::
  "sys_timer \<Rightarrow> u32 \<Rightarrow> bytes option \<Rightarrow> bytes option \<Rightarrow> u64 \<Rightarrow> notice_result \<times> sys_timer" where
  "sys_timer_set s owner key label due =
     (if owner = 0 \<or> \<not> timer_text key SYS_TIMER_KEY \<or> \<not> timer_text label SYS_NOTICE_LABEL \<or> due = U64_MAX
      then (NOTICE_INVALID, s)
      else let k = the key; l = the label; slot = timer_pick owner k 0 (ts_records s) None in
        if due = 0 then
          (case slot of
             Some i \<Rightarrow> if t_due_us (ts_records s ! i) \<noteq> 0
               then (NOTICE_OK, timer_schedule (timer_put i timer_zero_record s)) else (NOTICE_OK, s)
           | None \<Rightarrow> (NOTICE_OK, s))
        else case slot of
          None \<Rightarrow> (NOTICE_FULL, s)
        | Some i \<Rightarrow>
          let r = ts_records s ! i in
          if t_due_us r = due \<and> t_owner r = owner \<and> t_key r = k \<and> t_label r = l then (NOTICE_OK, s)
          else (NOTICE_OK, timer_schedule (timer_put i
                  \<lparr>t_due_us = due, t_owner = owner, t_key = k, t_label = l, t_blocked = False\<rparr> s)))"

type_synonym 'n poster = "'n \<Rightarrow> u32 \<Rightarrow> u32 \<Rightarrow> bytes option \<Rightarrow> u64 \<Rightarrow> notice_result \<times> u32 option \<times> 'n"

definition timer_fire_slot :: "'n poster \<Rightarrow> u64 \<Rightarrow> bool \<Rightarrow> nat \<Rightarrow> sys_timer \<times> 'n \<Rightarrow> sys_timer \<times> 'n" where
  "timer_fire_slot post now notice_chg i acc =
     (case acc of (s, n) \<Rightarrow>
        let r = ts_records s ! i in
        if t_due_us r = 0 \<or> now < t_due_us r \<or> (t_blocked r \<and> \<not> notice_chg) then (s, n)
        else case post n (t_owner r) 0 (Some (t_label r)) 0 of (res, _, n') \<Rightarrow>
          if res = NOTICE_OK then (timer_put i timer_zero_record s, n')
          else if \<not> t_blocked r then (timer_put i (r\<lparr>t_blocked := True\<rparr>) s, n')
          else (s, n'))"

definition timer_step_with :: "'n poster \<Rightarrow> sys_timer \<Rightarrow> 'n \<Rightarrow> u64 \<Rightarrow> bool \<Rightarrow> sys_timer \<times> 'n" where
  "timer_step_with post s n now notice_chg =
     (if \<not> notice_chg \<and> now < ts_deadline s then (s, n)
      else case fold (timer_fire_slot post now notice_chg) [0..<SYS_TIMER_SLOTS] (s, n) of
        (s', n') \<Rightarrow> (timer_schedule s', n'))"

definition sys_timer_step :: "sys_timer \<Rightarrow> sys_notify \<Rightarrow> u64 \<Rightarrow> bool \<Rightarrow> sys_timer \<times> sys_notify" where
  "sys_timer_step = timer_step_with sys_notify_post"

definition timer_release_slot :: "u32 \<Rightarrow> nat \<Rightarrow> sys_timer \<Rightarrow> sys_timer" where
  "timer_release_slot owner i s =
     (if t_owner (ts_records s ! i) = owner then timer_put i timer_zero_record s else s)"

definition sys_timer_release_owner :: "sys_timer \<Rightarrow> u32 \<Rightarrow> sys_timer" where
  "sys_timer_release_owner s owner =
     (if owner = 0 then s else timer_schedule (fold (timer_release_slot owner) [0..<SYS_TIMER_SLOTS] s))"

definition sys_timer_deadline :: "sys_timer \<Rightarrow> u64" where
  "sys_timer_deadline s = ts_deadline s"

definition sys_timer_take_changed :: "sys_timer \<Rightarrow> bool \<times> sys_timer" where
  "sys_timer_take_changed s = (ts_changed s, s\<lparr>ts_changed := False\<rparr>)"

section \<open>Lookup after set\<close>

lemma timer_pick_eq:
  "timer_pick owner key i rs slot =
     (case first_slot (timer_match owner key) rs of
        Some j \<Rightarrow> Some (i + j)
      | None \<Rightarrow> (case slot of Some x \<Rightarrow> Some x
                | None \<Rightarrow> map_option (\<lambda>j. i + j) (first_slot (\<lambda>r. \<not> timer_armed r) rs)))"
proof (induction rs arbitrary: i slot)
  case Nil
  show ?case by (simp split: option.split)
next
  case (Cons r rs)
  have shift: "map_option ((+) (Suc i)) x = map_option ((+) i) (map_option Suc x)" for x
    by (cases x) simp_all
  show ?case
    by (cases "first_slot (timer_match owner key) rs"; cases slot)
      (auto simp: Cons.IH timer_armed_def shift)
qed

definition timer_record_ok :: "sys_timer_record \<Rightarrow> bool" where
  "timer_record_ok r \<longleftrightarrow>
     (if timer_armed r
      then t_owner r \<noteq> 0 \<and> timer_text (Some (t_key r)) SYS_TIMER_KEY \<and>
           timer_text (Some (t_label r)) SYS_NOTICE_LABEL \<and> t_due_us r \<noteq> U64_MAX
      else r = timer_zero_record)"

definition timer_core :: "sys_timer_record list \<Rightarrow> bool" where
  "timer_core rs \<longleftrightarrow>
     length rs = SYS_TIMER_SLOTS \<and>
     unique_by timer_armed (\<lambda>r. (t_owner r, t_key r)) rs \<and>
     (\<forall>r \<in> set rs. timer_record_ok r)"

definition timer_inv :: "sys_timer \<Rightarrow> bool" where
  "timer_inv s \<longleftrightarrow> timer_core (ts_records s) \<and> ts_deadline s \<le> ts_deadline (timer_schedule s)"

lemma timer_schedule_frame [simp]:
  "ts_records (timer_schedule s) = ts_records s" "ts_changed (timer_schedule s) = ts_changed s"
  by (simp_all add: timer_schedule_def)

lemma timer_schedule_idem [simp]: "ts_deadline (timer_schedule (timer_schedule s)) = ts_deadline (timer_schedule s)"
  by (simp add: timer_schedule_def)

lemma timer_put_frame [simp]:
  "ts_records (timer_put i r s) = (ts_records s)[i := r]" "ts_deadline (timer_put i r s) = ts_deadline s"
  by (simp_all add: timer_put_def)

lemma timer_zero_record_simps [simp]:
  "\<not> timer_armed timer_zero_record" "t_due_us timer_zero_record = 0"
  by (simp_all add: timer_zero_record_def timer_armed_def)

lemma timer_match_armed: "timer_match owner key r \<Longrightarrow> timer_armed r"
  by (simp add: timer_match_def timer_armed_def)

text \<open>With distinct keys, the first match is the only one: a lookup reads the record stored for it.\<close>

lemma timer_lookup_iff:
  assumes u: "unique_by timer_armed (\<lambda>r. (t_owner r, t_key r)) rs" and i: "i < length rs" "timer_match owner key (rs ! i)"
  shows "first_slot (timer_match owner key) rs = Some i"
proof (rule first_slotI[of i rs "timer_match owner key", OF i])
  fix j assume "j < i"
  then show "\<not> timer_match owner key (rs ! j)"
    using unique_byD[OF u i(1), of j] i by (auto simp: timer_match_def timer_armed_def)
qed

definition timer_lookup :: "sys_timer_record list \<Rightarrow> u32 \<Rightarrow> bytes \<Rightarrow> sys_timer_record option" where
  "timer_lookup rs owner key = map_option (\<lambda>i. rs ! i) (first_slot (timer_match owner key) rs)"

abbreviation timer_unique :: "sys_timer_record list \<Rightarrow> bool" where
  "timer_unique rs \<equiv> unique_by timer_armed (\<lambda>r. (t_owner r, t_key r)) rs"

lemma sys_timer_read_eq:
  "owner \<noteq> 0 \<Longrightarrow> sys_timer_read s owner (Some key) = timer_lookup (ts_records s) owner key"
  by (simp add: sys_timer_read_def timer_lookup_def)

lemma timer_lookup_hit:
  "timer_unique rs \<Longrightarrow> r \<in> set rs \<Longrightarrow> timer_match owner key r \<Longrightarrow> timer_lookup rs owner key = Some r"
  by (auto simp: in_set_conv_nth timer_lookup_def timer_lookup_iff)

lemma timer_lookup_SomeD:
  "timer_lookup rs owner key = Some r \<Longrightarrow> r \<in> set rs \<and> timer_match owner key r"
  using first_slot_SomeD[of "timer_match owner key" rs] by (auto simp: timer_lookup_def)

lemma timer_lookup_miss: "(\<And>r. r \<in> set rs \<Longrightarrow> \<not> timer_match owner key r) \<Longrightarrow> timer_lookup rs owner key = None"
  using timer_lookup_SomeD by (metis not_None_eq)

text \<open>Replacing one record changes the lookup of the keys of the old and the new record only.\<close>

lemma timer_lookup_update_other:
  assumes u: "timer_unique rs" "timer_unique (rs[i := r])" and i: "i < length rs"
    and old: "\<not> timer_match owner key (rs ! i)" and new: "\<not> timer_match owner key r"
  shows "timer_lookup (rs[i := r]) owner key = timer_lookup rs owner key"
proof (cases "timer_lookup rs owner key")
  case None
  then have "\<not> timer_match owner key x" if "x \<in> set rs" for x
    using timer_lookup_hit[OF u(1) that] by force
  with None new show ?thesis by (auto intro!: timer_lookup_miss dest: set_update_in)
next
  case (Some x)
  then obtain j where j: "j < length rs" "rs ! j = x" "timer_match owner key x"
    using timer_lookup_SomeD by (metis in_set_conv_nth)
  with old have "j \<noteq> i" by auto
  then have "x \<in> set (rs[i := r])"
    using j by (metis length_list_update nth_list_update_neq nth_mem)
  with Some j(3) show ?thesis by (simp add: timer_lookup_hit[OF u(2)])
qed

lemma timer_pick_SomeD:
  assumes "timer_pick owner key 0 rs None = Some i"
  shows "i < length rs" "timer_match owner key (rs ! i) \<or>
    (\<not> timer_armed (rs ! i) \<and> (\<forall>r \<in> set rs. \<not> timer_match owner key r))"
  using assms first_slot_SomeD[of "timer_match owner key" rs] first_slot_SomeD[of "\<lambda>r. \<not> timer_armed r" rs]
  by (auto simp: timer_pick_eq first_slot_None_iff split: option.splits)

lemma timer_pick_unique:
  assumes u: "timer_unique rs" and p: "timer_pick owner key 0 rs None = Some i"
    and r: "t_owner r = owner" "t_key r = key"
  shows "timer_unique (rs[i := r])"
proof (cases "timer_match owner key (rs ! i)")
  case True
  then show ?thesis
    using u timer_pick_SomeD(1)[OF p] r
    by (intro unique_by_same_key) (auto simp: timer_match_def timer_armed_def)
next
  case False
  then show ?thesis
    using u timer_pick_SomeD(2)[OF p] r
    by (intro unique_by_fresh) (auto simp: timer_match_def timer_armed_def)
qed

lemma timer_invD:
  assumes "timer_inv s"
  shows "length (ts_records s) = SYS_TIMER_SLOTS" "timer_unique (ts_records s)"
    "r \<in> set (ts_records s) \<Longrightarrow> \<not> timer_armed r \<Longrightarrow> r = timer_zero_record"
  using assms by (auto simp: timer_inv_def timer_core_def timer_record_ok_def)

lemma timer_core_put:
  assumes "timer_core rs" "timer_unique (rs[i := r])" "timer_record_ok r"
  shows "timer_core (rs[i := r])"
  using assms by (auto simp: timer_core_def dest!: set_update_in)

lemma timer_record_ok_zero [simp]: "timer_record_ok timer_zero_record"
  by (simp add: timer_record_ok_def)

lemma timer_inv_schedule [simp]: "timer_inv (timer_schedule s) = timer_core (ts_records s)"
  by (simp add: timer_inv_def)

lemma timer_inv_schedule_put:
  assumes "timer_inv s" "timer_unique ((ts_records s)[i := r])" "timer_record_ok r"
  shows "timer_inv (timer_schedule (timer_put i r s))"
  using assms timer_core_put by (simp add: timer_inv_def)

lemma timer_text_SomeD: "timer_text p n \<Longrightarrow> \<exists>cs. p = Some cs"
  by (auto simp: timer_text_def split: option.splits)

lemma timer_inv_arm:
  assumes inv: "timer_inv s" and pick: "timer_pick owner key 0 (ts_records s) None = Some i"
    and args: "owner \<noteq> 0" "timer_text (Some key) SYS_TIMER_KEY" "timer_text (Some label) SYS_NOTICE_LABEL"
      "due \<noteq> U64_MAX" "due \<noteq> 0"
  shows "timer_inv (timer_schedule (timer_put i
     \<lparr>t_due_us = due, t_owner = owner, t_key = key, t_label = label, t_blocked = False\<rparr> s))"
  by (rule timer_inv_schedule_put[OF inv timer_pick_unique[OF timer_invD(2)[OF inv] pick]])
    (use args in \<open>simp_all add: timer_armed_def timer_record_ok_def\<close>)

lemma timer_inv_clear:
  assumes "timer_inv s"
  shows "timer_inv (timer_schedule (timer_put i timer_zero_record s))"
  using assms by (intro timer_inv_schedule_put unique_by_kill timer_invD) auto

lemma sys_timer_set_inv: "timer_inv s \<Longrightarrow> timer_inv (snd (sys_timer_set s owner key label due))"
proof -
  assume inv: "timer_inv s"
  show ?thesis
  proof (cases "owner = 0 \<or> \<not> timer_text key SYS_TIMER_KEY \<or> \<not> timer_text label SYS_NOTICE_LABEL \<or> due = U64_MAX")
    case True
    with inv show ?thesis by (simp add: sys_timer_set_def)
  next
    case False
    then obtain k l where kl: "key = Some k" "label = Some l" using timer_text_SomeD by blast
    note ok = False[unfolded kl]
    show ?thesis
    proof (cases "due = 0")
      case True
      with ok inv show ?thesis
        by (auto simp: kl sys_timer_set_def Let_def intro!: timer_inv_clear simp del: timer_inv_schedule split: option.split)
    next
      case armed: False
      with ok inv show ?thesis
        by (cases "timer_pick owner k 0 (ts_records s) None")
          (auto simp: kl sys_timer_set_def Let_def intro!: timer_inv_arm simp del: timer_inv_schedule)
    qed
  qed
qed

lemma sys_timer_read_set_other:
  assumes inv: "timer_inv s" and i: "i < length (ts_records s)"
    and u: "timer_unique ((ts_records s)[i := r])"
    and old: "timer_armed (ts_records s ! i) \<Longrightarrow> t_owner (ts_records s ! i) = owner \<and> t_key (ts_records s ! i) = key"
    and new: "timer_armed r \<Longrightarrow> t_owner r = owner \<and> t_key r = key"
    and other: "owner' \<noteq> 0" "owner' \<noteq> owner \<or> key' \<noteq> key"
  shows "sys_timer_read (timer_schedule (timer_put i r s)) owner' (Some key') = sys_timer_read s owner' (Some key')"
proof -
  have "\<not> timer_match owner' key' (ts_records s ! i)" "\<not> timer_match owner' key' r"
    using old new other by (auto simp: timer_match_def timer_armed_def)
  then show ?thesis
    using other by (simp add: sys_timer_read_eq timer_lookup_update_other[OF timer_invD(2)[OF inv] u i])
qed

lemma timer_cleared_lookup:
  assumes inv: "timer_inv s" and i: "i < length (ts_records s)" "timer_match owner key (ts_records s ! i)"
  shows "timer_lookup ((ts_records s)[i := timer_zero_record]) owner key = None"
proof (rule timer_lookup_miss, rule notI)
  fix x assume x: "x \<in> set ((ts_records s)[i := timer_zero_record])" "timer_match owner key x"
  obtain j where j: "j < length (ts_records s)" "x = (ts_records s)[i := timer_zero_record] ! j"
    using x(1) by (metis in_set_conv_nth length_list_update)
  with x(2) have ji: "j \<noteq> i" by (auto simp: timer_match_def)
  with j x(2) have "timer_match owner key (ts_records s ! j)" by simp
  with i ji j show False
    using unique_byD[OF timer_invD(2)[OF inv] j(1) i(1)] by (auto simp: timer_match_def timer_armed_def)
qed

text \<open>What a read answers after an accepted set, for the key that was set and for every other.\<close>

lemma sys_timer_read_same:
  assumes inv: "timer_inv s" and set: "sys_timer_set s owner (Some key) (Some label) due = (NOTICE_OK, t)"
  shows "map_option (\<lambda>r. (t_due_us r, t_label r)) (sys_timer_read t owner (Some key)) =
    (if due = 0 then None else Some (due, label))"
proof -
  let ?p = "timer_pick owner key 0 (ts_records s) None"
  have own: "owner \<noteq> 0" using set by (auto simp: sys_timer_set_def split: if_splits)
  consider (none) "?p = None"
    | (hit) i where "?p = Some i" "i < length (ts_records s)" "timer_match owner key (ts_records s ! i)"
    | (free) i where "?p = Some i" "i < length (ts_records s)" "\<not> timer_armed (ts_records s ! i)"
        "\<forall>r \<in> set (ts_records s). \<not> timer_match owner key r"
    using timer_pick_SomeD[of owner key "ts_records s"] by (cases ?p) auto
  then show ?thesis
  proof cases
    case none
    then have miss: "timer_lookup (ts_records s) owner key = None"
      by (simp add: timer_pick_eq timer_lookup_def split: option.splits)
    from none set have "t = s" "due = 0" by (auto simp: sys_timer_set_def Let_def split: if_splits)
    with own miss show ?thesis by (simp add: sys_timer_read_eq)
  next
    case hit
    show ?thesis
    proof (cases "due = 0")
      case True
      with hit set have "t = timer_schedule (timer_put i timer_zero_record s)"
        by (auto simp: sys_timer_set_def Let_def timer_match_def split: if_splits)
      then show ?thesis
        using True own timer_cleared_lookup[OF inv hit(2,3)] by (simp add: sys_timer_read_eq)
    next
      case False
      let ?r = "\<lparr>t_due_us = due, t_owner = owner, t_key = key, t_label = label, t_blocked = False\<rparr>"
      have u: "timer_unique ((ts_records s)[i := ?r])"
        by (rule timer_pick_unique[OF timer_invD(2)[OF inv] hit(1)]) simp_all
      have "timer_lookup ((ts_records s)[i := ?r]) owner key = Some ?r"
        using hit(2) False by (intro timer_lookup_hit[OF u]) (simp_all add: set_update_memI timer_match_def)
      moreover have "timer_lookup (ts_records s) owner key = Some (ts_records s ! i)"
        using hit(2,3) by (intro timer_lookup_hit[OF timer_invD(2)[OF inv]]) simp_all
      ultimately show ?thesis
        using hit set False own
        by (auto simp: sys_timer_set_def Let_def sys_timer_read_eq split: if_splits)
    qed
  next
    case free
    have zero: "t_due_us (ts_records s ! i) = 0" using free(3) by (simp add: timer_armed_def)
    show ?thesis
    proof (cases "due = 0")
      case True
      with free(1) zero set have "t = s" by (auto simp: sys_timer_set_def Let_def split: if_splits)
      with True own free(4) show ?thesis by (simp add: sys_timer_read_eq timer_lookup_miss)
    next
      case False
      let ?r = "\<lparr>t_due_us = due, t_owner = owner, t_key = key, t_label = label, t_blocked = False\<rparr>"
      have u: "timer_unique ((ts_records s)[i := ?r])"
        by (rule timer_pick_unique[OF timer_invD(2)[OF inv] free(1)]) simp_all
      have "timer_lookup ((ts_records s)[i := ?r]) owner key = Some ?r"
        using free(2) False by (intro timer_lookup_hit[OF u]) (simp_all add: set_update_memI timer_match_def)
      then show ?thesis
        using free(1) zero set False own
        by (auto simp: sys_timer_set_def Let_def sys_timer_read_eq split: if_splits)
    qed
  qed
qed

lemma sys_timer_read_other:
  assumes inv: "timer_inv s" and set: "sys_timer_set s owner (Some key) (Some label) due = (NOTICE_OK, t)"
    and other: "owner' \<noteq> 0" "owner' \<noteq> owner \<or> key' \<noteq> key"
  shows "sys_timer_read t owner' (Some key') = sys_timer_read s owner' (Some key')"
proof (cases "timer_pick owner key 0 (ts_records s) None")
  case None
  with set have "t = s" by (auto simp: sys_timer_set_def Let_def split: if_splits)
  then show ?thesis by simp
next
  case (Some i)
  note P = timer_pick_SomeD[OF Some]
  have old: "timer_armed (ts_records s ! i) \<Longrightarrow> t_owner (ts_records s ! i) = owner \<and> t_key (ts_records s ! i) = key"
    using P(2) by (auto simp: timer_match_def)
  let ?r = "\<lparr>t_due_us = due, t_owner = owner, t_key = key, t_label = label, t_blocked = False\<rparr>"
  have zero: "sys_timer_read (timer_schedule (timer_put i timer_zero_record s)) owner' (Some key')
      = sys_timer_read s owner' (Some key')"
    using other by (intro sys_timer_read_set_other[OF inv P(1) unique_by_kill[OF timer_invD(2)[OF inv]] old]) auto
  have arm: "sys_timer_read (timer_schedule (timer_put i ?r s)) owner' (Some key')
      = sys_timer_read s owner' (Some key')"
    using other
    by (intro sys_timer_read_set_other[OF inv P(1) timer_pick_unique[OF timer_invD(2)[OF inv] Some] old]) auto
  show ?thesis
    using set Some zero arm by (auto simp: sys_timer_set_def Let_def split: if_splits)
qed

section \<open>Firing, against any store that keeps the contract\<close>

lemma timer_fire_slot_cases:
  assumes "timer_fire_slot post now chg i (s, n) = (s', n')"
  shows "(s' = s \<and> n' = n \<and>
           (timer_armed (ts_records s ! i) \<longrightarrow> now < t_due_us (ts_records s ! i) \<or>
              t_blocked (ts_records s ! i) \<and> \<not> chg)) \<or>
     (timer_armed (ts_records s ! i) \<and>
      (\<exists>res out. post n (t_owner (ts_records s ! i)) 0 (Some (t_label (ts_records s ! i))) 0 = (res, out, n') \<and>
        (if res = NOTICE_OK then ts_records s' = (ts_records s)[i := timer_zero_record]
         else ts_records s' = (ts_records s)[i := (ts_records s ! i)\<lparr>t_blocked := True\<rparr>])))"
proof -
  let ?r = "ts_records s ! i"
  obtain res out n2 where p: "post n (t_owner ?r) 0 (Some (t_label ?r)) 0 = (res, out, n2)"
    by (cases "post n (t_owner ?r) 0 (Some (t_label ?r)) 0")
  have "?r\<lparr>t_blocked := True\<rparr> = ?r" if "t_blocked ?r" using that by simp
  then have upd: "ts_records s = (ts_records s)[i := ?r\<lparr>t_blocked := True\<rparr>]" if "t_blocked ?r"
    using that by (metis list_update_id)
  show ?thesis
  proof (cases "t_due_us ?r = 0 \<or> now < t_due_us ?r \<or> (t_blocked ?r \<and> \<not> chg)")
    case True
    with assms show ?thesis by (auto simp: timer_fire_slot_def Let_def timer_armed_def)
  next
    case False
    with assms p have n: "n2 = n'" and
      s: "s' = (if res = NOTICE_OK then timer_put i timer_zero_record s
                else if \<not> t_blocked ?r then timer_put i (?r\<lparr>t_blocked := True\<rparr>) s else s)"
      by (simp_all add: timer_fire_slot_def Let_def split: if_splits)
    have "timer_armed ?r" using False by (simp add: timer_armed_def)
    moreover have "if res = NOTICE_OK then ts_records s' = (ts_records s)[i := timer_zero_record]
         else ts_records s' = (ts_records s)[i := ?r\<lparr>t_blocked := True\<rparr>]"
      using upd by (auto simp: s)
    ultimately show ?thesis using p n by blast
  qed
qed

definition timer_loop :: "'n poster \<Rightarrow> u64 \<Rightarrow> bool \<Rightarrow> sys_timer \<Rightarrow> 'n \<Rightarrow> nat \<Rightarrow> sys_timer \<times> 'n" where
  "timer_loop post now chg s n k = fold (timer_fire_slot post now chg) [0..<k] (s, n)"

lemma timer_loop_Suc:
  "timer_loop post now chg s n (Suc k) = timer_fire_slot post now chg k (timer_loop post now chg s n k)"
  by (simp add: timer_loop_def)

lemma timer_fire_core:
  assumes core: "timer_core (ts_records (fst acc))"
  shows "timer_core (ts_records (fst (timer_fire_slot post now chg i acc)))"
proof -
  obtain s n where acc: "acc = (s, n)" by (cases acc)
  obtain s' n' where f: "timer_fire_slot post now chg i (s, n) = (s', n')"
    by (cases "timer_fire_slot post now chg i (s, n)")
  have c: "timer_core (ts_records s)" using core acc by simp
  note u = c[unfolded timer_core_def, THEN conjunct2, THEN conjunct1]
  let ?b = "(ts_records s ! i)\<lparr>t_blocked := True\<rparr>"
  have zero: "timer_core ((ts_records s)[i := timer_zero_record])"
    by (intro timer_core_put c unique_by_kill u) simp_all
  have block: "timer_core ((ts_records s)[i := ?b])" if "timer_armed (ts_records s ! i)"
  proof (cases "i < length (ts_records s)")
    case True
    then have "timer_record_ok (ts_records s ! i)" using c by (simp add: timer_core_def)
    then show ?thesis
      using True that
      by (intro timer_core_put c unique_by_same_key u) (auto simp: timer_record_ok_def timer_armed_def)
  next
    case False
    with c show ?thesis by (simp add: list_update_beyond)
  qed
  show ?thesis
    using timer_fire_slot_cases[OF f] c zero block unfolding acc f by (auto split: if_splits)
qed

lemma timer_loop_core: "timer_core (ts_records s) \<Longrightarrow> timer_core (ts_records (fst (timer_loop post now chg s n k)))"
proof (induction k)
  case 0
  then show ?case by (simp add: timer_loop_def)
next
  case (Suc k)
  then show ?case unfolding timer_loop_Suc by (intro timer_fire_core)
qed

lemma timer_step_inv: "timer_inv s \<Longrightarrow> timer_inv (fst (timer_step_with post s n now chg))"
  using timer_loop_core[of s post now chg n SYS_TIMER_SLOTS]
  by (auto simp: timer_step_with_def timer_inv_def timer_loop_def split: prod.split)

text \<open>A timer is settled at \<open>now\<close> when it lies in the future or waits for room in the store.\<close>

definition timer_settled :: "u64 \<Rightarrow> sys_timer_record \<Rightarrow> bool" where
  "timer_settled now r \<longleftrightarrow> (timer_armed r \<longrightarrow> now < t_due_us r \<or> t_blocked r)"

lemma timer_fire_settles:
  assumes "timer_fire_slot post now chg i acc = (s', n')" "i < length (ts_records (fst acc))"
    "\<forall>j < i. timer_settled now (ts_records (fst acc) ! j)"
  shows "\<forall>j < Suc i. timer_settled now (ts_records s' ! j)"
proof -
  obtain s n where acc: "acc = (s, n)" by (cases acc)
  from timer_fire_slot_cases[OF assms(1)[unfolded acc]] assms(2,3) show ?thesis
    by (auto simp: acc less_Suc_eq timer_settled_def split: if_splits)
qed

lemma timer_loop_settled:
  "timer_core (ts_records s) \<Longrightarrow> k \<le> SYS_TIMER_SLOTS \<Longrightarrow>
   \<forall>j < k. timer_settled now (ts_records (fst (timer_loop post now chg s n k)) ! j)"
proof (induction k)
  case 0
  show ?case by simp
next
  case (Suc k)
  obtain s' n' where f: "timer_fire_slot post now chg k (timer_loop post now chg s n k) = (s', n')"
    by (cases "timer_fire_slot post now chg k (timer_loop post now chg s n k)")
  have "k < length (ts_records (fst (timer_loop post now chg s n k)))"
    using timer_loop_core[OF Suc.prems(1), of post now chg n k] Suc.prems(2) by (simp add: timer_core_def)
  from timer_fire_settles[OF f this] Suc show ?case unfolding timer_loop_Suc f by simp
qed

lemma timer_schedule_gt:
  "now < ts_deadline (timer_schedule s) \<longleftrightarrow>
     now \<noteq> U64_MAX \<and> (\<forall>r \<in> set (ts_records s). timer_settled now r)"
proof -
  have "now < fold (\<lambda>r d. if t_due_us r \<noteq> 0 \<and> \<not> t_blocked r \<and> t_due_us r < d then t_due_us r else d) rs d
      \<longleftrightarrow> now < d \<and> (\<forall>r \<in> set rs. timer_settled now r)" for rs d
    by (induction rs arbitrary: d) (auto simp: timer_settled_def timer_armed_def)
  then show ?thesis by (simp add: timer_schedule_def word_less_max_iff)
qed

lemma timer_step_quiesces:
  assumes inv: "timer_inv s" and now: "now \<noteq> U64_MAX"
  shows "now < ts_deadline (fst (timer_step_with post s n now chg))"
proof (cases "\<not> chg \<and> now < ts_deadline s")
  case True
  then show ?thesis by (simp add: timer_step_with_def)
next
  case False
  let ?t = "fst (timer_loop post now chg s n SYS_TIMER_SLOTS)"
  have c: "timer_core (ts_records s)" using inv by (simp add: timer_inv_def)
  have "length (ts_records ?t) = SYS_TIMER_SLOTS"
    using timer_loop_core[OF c, of post now chg n SYS_TIMER_SLOTS] by (simp add: timer_core_def)
  then have "\<forall>r \<in> set (ts_records ?t). timer_settled now r"
    using timer_loop_settled[OF c order_refl] by (metis in_set_conv_nth)
  moreover have "fst (timer_step_with post s n now chg) = timer_schedule ?t"
    using False by (auto simp: timer_step_with_def timer_loop_def split: prod.split)
  ultimately show ?thesis using now by (simp add: timer_schedule_gt)
qed

text \<open>The labels the timers still owe to the store.\<close>

definition timer_owed :: "sys_timer \<Rightarrow> (u32 \<times> bytes) multiset" where
  "timer_owed s = image_mset (\<lambda>r. (t_owner r, t_label r)) (filter_mset timer_armed (mset (ts_records s)))"

lemma timer_owed_schedule [simp]: "timer_owed (timer_schedule s) = timer_owed s"
  by (simp add: timer_owed_def)

lemma timer_owed_drop:
  assumes "i < length (ts_records s)" "timer_armed (ts_records s ! i)"
    "ts_records t = (ts_records s)[i := timer_zero_record]"
  shows "add_mset (t_owner (ts_records s ! i), t_label (ts_records s ! i)) (timer_owed t) = timer_owed s"
  using live_bag_update[OF assms(1), of "\<lambda>r. (t_owner r, t_label r)" timer_armed timer_zero_record] assms
  by (simp add: timer_owed_def)

lemma timer_owed_block:
  assumes "i < length (ts_records s)" "ts_records t = (ts_records s)[i := (ts_records s ! i)\<lparr>t_blocked := True\<rparr>]"
  shows "timer_owed t = timer_owed s"
  using live_bag_update[OF assms(1), of "\<lambda>r. (t_owner r, t_label r)" timer_armed
      "(ts_records s ! i)\<lparr>t_blocked := True\<rparr>"] assms
  by (simp add: timer_owed_def timer_armed_def split: if_splits)

context notice_sink begin

lemma fire_conserves:
  assumes f: "timer_fire_slot post now chg i acc = acc'" and i: "i < length (ts_records (fst acc))"
  shows "timer_owed (fst acc') + pending (snd acc') = timer_owed (fst acc) + pending (snd acc)"
proof -
  obtain s n s' n' where acc: "acc = (s, n)" "acc' = (s', n')" by (cases acc, cases acc')
  let ?r = "ts_records s ! i"
  have i: "i < length (ts_records s)" using i acc by simp
  consider (idle) "s' = s" "n' = n"
    | (post) out where "timer_armed ?r" "post n (t_owner ?r) 0 (Some (t_label ?r)) 0 = (NOTICE_OK, out, n')"
        "ts_records s' = (ts_records s)[i := timer_zero_record]"
    | (block) res out where "res \<noteq> NOTICE_OK" "post n (t_owner ?r) 0 (Some (t_label ?r)) 0 = (res, out, n')"
        "ts_records s' = (ts_records s)[i := ?r\<lparr>t_blocked := True\<rparr>]"
    using timer_fire_slot_cases[OF f[unfolded acc]] by (auto split: if_splits)
  then show ?thesis
  proof cases
    case idle
    then show ?thesis by (simp add: acc)
  next
    case post
    have "add_mset (t_owner ?r, t_label ?r) (timer_owed s') = timer_owed s"
      by (rule timer_owed_drop[OF i post(1,3)])
    then show ?thesis
      unfolding acc fst_conv snd_conv post_ok[OF post(2)]
      by (metis union_mset_add_mset_left union_mset_add_mset_right)
  next
    case block
    then show ?thesis using post_refused[OF block(2,1)] timer_owed_block[OF i block(3)] by (simp add: acc)
  qed
qed

lemma loop_conserves:
  "timer_core (ts_records s) \<Longrightarrow> k \<le> SYS_TIMER_SLOTS \<Longrightarrow>
   timer_owed (fst (timer_loop post now chg s n k)) + pending (snd (timer_loop post now chg s n k)) =
   timer_owed s + pending n"
proof (induction k)
  case 0
  show ?case by (simp add: timer_loop_def)
next
  case (Suc k)
  have "k < length (ts_records (fst (timer_loop post now chg s n k)))"
    using timer_loop_core[OF Suc.prems(1), of post now chg n k] Suc.prems(2) by (simp add: timer_core_def)
  from fire_conserves[OF refl this] Suc show ?case by (simp add: timer_loop_Suc)
qed

lemma step_conserves:
  assumes "timer_inv s" "timer_step_with post s n now chg = (s', n')"
  shows "timer_owed s' + pending n' = timer_owed s + pending n"
  using assms loop_conserves[of s SYS_TIMER_SLOTS now chg n]
  by (auto simp: timer_step_with_def timer_inv_def timer_loop_def split: if_splits prod.splits)

lemma fire_sink_inv:
  "sink_inv (snd acc) \<Longrightarrow> sink_inv (snd (timer_fire_slot post now chg i acc))"
proof -
  assume inv: "sink_inv (snd acc)"
  obtain s n s' n' where acc: "acc = (s, n)" "timer_fire_slot post now chg i (s, n) = (s', n')"
    by (cases acc, cases "timer_fire_slot post now chg i acc") auto
  show ?thesis
    using timer_fire_slot_cases[OF acc(2)] inv post_inv[of n "t_owner (ts_records s ! i)" 0
      "Some (t_label (ts_records s ! i))" 0] by (auto simp: acc)
qed

lemma step_sink_inv: "sink_inv n \<Longrightarrow> sink_inv (snd (timer_step_with post s n now chg))"
proof -
  assume inv: "sink_inv n"
  have "sink_inv (snd (timer_loop post now chg s n k))" for k
    by (induction k) (use inv in \<open>simp_all add: timer_loop_def fire_sink_inv\<close>)
  from this[of SYS_TIMER_SLOTS] inv show ?thesis
    by (auto simp: timer_step_with_def timer_loop_def split: prod.split)
qed

end

section \<open>Runs of the timers and the store together\<close>

datatype timer_event =
    TSet u32 "bytes option" "bytes option" u64
  | TStep u64 bool
  | TRelease u32
  | TTake
  | TNotify notify_event

fun timer_apply :: "sys_timer \<times> sys_notify \<Rightarrow> timer_event \<Rightarrow> sys_timer \<times> sys_notify" where
  "timer_apply (s, n) (TSet ow k l d) = (snd (sys_timer_set s ow k l d), n)"
| "timer_apply (s, n) (TStep now chg) = sys_timer_step s n now chg"
| "timer_apply (s, n) (TRelease ow) = (sys_timer_release_owner s ow, n)"
| "timer_apply (s, n) TTake = (snd (sys_timer_take_changed s), n)"
| "timer_apply (s, n) (TNotify e) = (s, notify_apply n e)"

definition timer_pair_inv :: "sys_timer \<times> sys_notify \<Rightarrow> bool" where
  "timer_pair_inv p \<longleftrightarrow> timer_inv (fst p) \<and> notify_inv (snd p)"

lemma timer_release_core:
  "timer_core (ts_records s) \<Longrightarrow> timer_core (ts_records (fold (timer_release_slot owner) is s))"
proof (induction "is" arbitrary: s)
  case Nil
  then show ?case by simp
next
  case (Cons i "is")
  have "timer_core ((ts_records s)[i := timer_zero_record])"
    using Cons.prems by (intro timer_core_put unique_by_kill) (auto simp: timer_core_def)
  with Cons show ?case by (simp add: timer_release_slot_def)
qed

lemma sys_timer_release_inv: "timer_inv s \<Longrightarrow> timer_inv (sys_timer_release_owner s owner)"
  by (simp add: sys_timer_release_owner_def timer_release_core) (simp add: timer_inv_def timer_release_core)

lemma sys_timer_take_inv: "timer_inv s \<Longrightarrow> timer_inv (snd (sys_timer_take_changed s))"
  by (simp add: sys_timer_take_changed_def timer_inv_def timer_schedule_def)

lemma timer_zero_inv: "timer_inv timer_zero"
  unfolding timer_inv_def timer_core_def unique_by_def
  by (simp add: timer_zero_def timer_armed_def timer_zero_record_def timer_record_ok_def)

interpretation timer_run: started_machine timer_apply timer_pair_inv "(timer_zero, notify_zero)"
proof unfold_locales
  fix p e assume inv: "timer_pair_inv p"
  obtain s n where p: "p = (s, n)" by (cases p)
  show "timer_pair_inv (timer_apply p e)"
    using inv unfolding timer_pair_inv_def p
    by (cases e) (auto simp: sys_timer_set_inv sys_timer_release_inv sys_timer_take_inv
        sys_timer_step_def timer_step_inv store.step_sink_inv notify_run.step_inv)
qed (simp add: timer_pair_inv_def timer_zero_inv notify_run.init_inv)

section \<open>Properties\<close>

text \<open>An accepted set (or cancel) is what a read of the same owner and key answers next,
  and no other timer's reading changes, in every state the services can reach.\<close>

theorem sys_timer_read_after_set:
  assumes "foldl timer_apply (timer_zero, notify_zero) es = (s, n)"
    and "sys_timer_set s owner (Some key) (Some label) due = (NOTICE_OK, t)" "owner' \<noteq> 0"
  shows "map_option (\<lambda>r. (t_due_us r, t_label r)) (sys_timer_read t owner' (Some key')) =
    (if owner' = owner \<and> key' = key then (if due = 0 then None else Some (due, label))
     else map_option (\<lambda>r. (t_due_us r, t_label r)) (sys_timer_read s owner' (Some key')))"
proof -
  have "timer_inv s" using timer_run.reachable_inv[of es] assms(1) by (simp add: timer_pair_inv_def)
  with assms show ?thesis by (auto simp: sys_timer_read_same sys_timer_read_other)
qed

theorem sys_timer_read_after_set_witness:
  "\<exists>t. sys_timer_set timer_zero 1 (Some (ascii ''k'')) (Some (ascii ''tea'')) 70 = (NOTICE_OK, t) \<and>
       map_option (\<lambda>r. (t_due_us r, t_label r)) (sys_timer_read t 1 (Some (ascii ''k''))) = Some (70, ascii ''tea'')"
proof -
  let ?r = "sys_timer_set timer_zero 1 (Some (ascii ''k'')) (Some (ascii ''tea'')) 70"
  have ok: "?r = (NOTICE_OK, snd ?r)" by code_simp
  show ?thesis
    using ok sys_timer_read_after_set[of "[]", OF _ ok, of notify_zero 1 "ascii ''k''"] by auto
qed

text \<open>Property C10: a timer step never loses or duplicates a reminder: the timers still owed together
  with the pending notifications are the same before and after it, whether the store has room or
  not; and afterwards the timers' deadline lies in the future, so a full store is not polled.\<close>

theorem sys_timer_step_conserves:
  assumes "foldl timer_apply (timer_zero, notify_zero) es = (s, n)"
    and "sys_timer_step s n now notice_chg = (s', n')" "now \<noteq> U64_MAX"
  shows "timer_owed s' + notice_pending n' = timer_owed s + notice_pending n \<and> now < sys_timer_deadline s'"
proof -
  have inv: "timer_inv s" using timer_run.reachable_inv[of es] assms(1) by (simp add: timer_pair_inv_def)
  have "timer_owed s' + notice_pending n' = timer_owed s + notice_pending n"
    using store.step_conserves[OF inv] assms(2) by (simp add: sys_timer_step_def)
  moreover have "now < ts_deadline s'"
    using timer_step_quiesces[OF inv assms(3), of sys_notify_post n notice_chg] assms(2)
    by (simp add: sys_timer_step_def)
  ultimately show ?thesis by (simp add: sys_timer_deadline_def)
qed

definition timer_sample :: "sys_timer \<times> sys_notify" where
  "timer_sample = foldl timer_apply (timer_zero, notify_zero)
     [TSet 1 (Some (ascii ''k'')) (Some (ascii ''tea'')) 70]"

theorem sys_timer_step_conserves_witness:
  "\<exists>s' n'. sys_timer_step (fst timer_sample) (snd timer_sample) 80 False = (s', n') \<and>
     timer_owed s' + notice_pending n' = timer_owed (fst timer_sample) + notice_pending (snd timer_sample) \<and>
     80 < sys_timer_deadline s'"
proof -
  obtain s' n' where st: "sys_timer_step (fst timer_sample) (snd timer_sample) 80 False = (s', n')"
    by (cases "sys_timer_step (fst timer_sample) (snd timer_sample) 80 False")
  have "foldl timer_apply (timer_zero, notify_zero) [TSet 1 (Some (ascii ''k'')) (Some (ascii ''tea'')) 70]
      = (fst timer_sample, snd timer_sample)" by (simp add: timer_sample_def)
  from sys_timer_step_conserves[OF this st] st show ?thesis by simp
qed

end
