(* ===== verification/Wall.thy ===== *)
theory Wall
  imports SysState Timer
begin

text \<open>
  The wall-clock reminders (main/system/sys_wall.c and .h): five rules, each a one-shot epoch
  or a daily minute, that post a notification once per epoch or local day and tell the owner loop
  when to look again.

  A rule holds what its pointers point to: \<open>None\<close> is the NULL pointer.  The watermark \<open>last\<close> is the
  only one written, and two rules do not share it.  As in the timers the posting operation is an
  argument; \<open>sys_wall_evaluate\<close> and \<open>sys_wall_step\<close> are the instances on the firmware's store.
\<close>

section \<open>Data and operations\<close>

definition SYS_WALL_RULES :: nat where "SYS_WALL_RULES = 5"

record sys_wall_rule =
  wr_due :: "u32 option"
  wr_last :: "u32 option"
  wr_minute :: "int option"
  wr_offset :: "int option"
  wr_label :: "bytes option"

record sys_wall =
  wl_rules :: "sys_wall_rule list"
  wl_next :: u64
  wl_owner :: u32
  wl_clock_revision :: u32
  wl_notice_revision :: u32
  wl_invalid :: bool
  wl_blocked :: bool
  wl_changed :: bool

definition sys_wall_invalidate :: "sys_wall \<Rightarrow> sys_wall" where
  "sys_wall_invalidate s = s\<lparr>wl_invalid := True\<rparr>"

text \<open>The common tail: post, and move the watermark when the store took it.\<close>

definition wall_post :: "'n poster \<Rightarrow> sys_wall_rule \<Rightarrow> 'n \<Rightarrow> u32 \<Rightarrow> bool \<Rightarrow> u32 \<Rightarrow> u64 \<Rightarrow> u64
    \<Rightarrow> u64 \<times> sys_wall_rule \<times> 'n \<times> bool" where
  "wall_post post r n owner blocked mark posted_next kept_next =
     (case post n owner 0 (wr_label r) 0 of (res, _, n') \<Rightarrow>
        if res = NOTICE_OK then (posted_next, r\<lparr>wr_last := Some mark\<rparr>, n', blocked)
        else (kept_next, r, n', True))"

definition wall_evaluate_with :: "'n poster \<Rightarrow> sys_wall_rule \<Rightarrow> 'n \<Rightarrow> u32 \<Rightarrow> u32 \<Rightarrow> bool
    \<Rightarrow> u64 \<times> sys_wall_rule \<times> 'n \<times> bool" where
  "wall_evaluate_with post r n owner utc blocked =
     (case wr_last r of None \<Rightarrow> (SYS_NEVER, r, n, blocked)
      | Some wm \<Rightarrow>
        if wr_label r = None \<or> utc = 0 then (SYS_NEVER, r, n, blocked)
        else case wr_due r of
          Some mark \<Rightarrow>
            if mark = 0 \<or> wm = mark then (SYS_NEVER, r, n, blocked)
            else if utc < mark then (ucast mark, r, n, blocked)
            else wall_post post r n owner blocked mark SYS_NEVER SYS_NEVER
        | None \<Rightarrow>
          (case (wr_minute r, wr_offset r) of
             (Some minute, Some offset) \<Rightarrow>
               if minute < 0 \<or> minute \<ge> 1440 \<or> offset < -50400 \<or> offset > 50400
               then (SYS_NEVER, r, n, blocked)
               else let local = uint utc + offset in
                 if local < 0 then (SYS_NEVER, r, n, blocked)
                 else let mark = word_of_int (local div 86400) :: u32;
                          target = uint mark * 86400 + minute * 60 - offset in
                   if wm \<ge> mark
                   then ((ucast wm + 1) * 86400 + word_of_int (minute * 60) - word_of_int offset, r, n, blocked)
                   else if uint utc < target then (word_of_int target, r, n, blocked)
                   else if uint utc \<ge> target + 60 then (word_of_int (target + 86400), r, n, blocked)
                   else wall_post post r n owner blocked mark
                          (word_of_int ((uint mark + 1) * 86400 + minute * 60 - offset)) (word_of_int (target + 60))
           | _ \<Rightarrow> (SYS_NEVER, r, n, blocked)))"

definition sys_wall_evaluate :: "sys_wall_rule \<Rightarrow> sys_notify \<Rightarrow> u32 \<Rightarrow> u32 \<Rightarrow> bool
    \<Rightarrow> u64 \<times> sys_wall_rule \<times> sys_notify \<times> bool" where
  "sys_wall_evaluate = wall_evaluate_with sys_notify_post"

definition sys_wall_deadline :: "sys_wall \<Rightarrow> sys_state \<Rightarrow> u32 \<Rightarrow> u64" where
  "sys_wall_deadline s clk revision =
     (if wl_owner s = 0 then SYS_NEVER
      else if wl_invalid s \<or> wl_clock_revision s \<noteq> st_clock_revision clk \<or>
              (wl_blocked s \<and> wl_notice_revision s \<noteq> revision) then 0
      else wl_next s)"

text \<open>The loop over the rules of \<open>sys_wall_step\<close>.\<close>

fun wall_scan :: "'n poster \<Rightarrow> u32 \<Rightarrow> u32 \<Rightarrow> sys_wall_rule list \<Rightarrow> 'n \<times> bool \<times> bool \<times> u64
    \<Rightarrow> sys_wall_rule list \<times> 'n \<times> bool \<times> bool \<times> u64" where
  "wall_scan post owner utc [] acc = ([], acc)"
| "wall_scan post owner utc (r # rs) (n, blocked, changed, next) =
     (case wall_evaluate_with post r n owner utc blocked of (due, r', n', blocked') \<Rightarrow>
        case wall_scan post owner utc rs
               (n', blocked', changed \<or> (wr_last r \<noteq> None \<and> wr_last r' \<noteq> wr_last r),
                if due < next then due else next) of
          (rs', acc) \<Rightarrow> (r' # rs', acc))"

text \<open>\<open>revision\<close> reads the store's revision counter.\<close>

definition wall_step_with :: "'n poster \<Rightarrow> ('n \<Rightarrow> u32) \<Rightarrow> sys_wall \<Rightarrow> sys_state \<Rightarrow> 'n \<Rightarrow> u64 \<Rightarrow> sys_wall \<times> 'n" where
  "wall_step_with post revision s clk n now =
     (if sys_wall_deadline s clk (revision n) = SYS_NEVER \<or> now < sys_wall_deadline s clk (revision n) then (s, n)
      else
        let s1 = s\<lparr>wl_invalid := False, wl_blocked := False, wl_next := SYS_NEVER,
                   wl_clock_revision := st_clock_revision clk\<rparr>;
            (valid, wall) = sys_clock_snapshot clk now in
        if valid \<and> sint (cl_seconds wall) > 0 \<and> sint (cl_seconds wall) \<le> 2 ^ 32 - 1 then
          case wall_scan post (wl_owner s1) (ucast (cl_seconds wall)) (wl_rules s1)
                 (n, wl_blocked s1, wl_changed s1, SYS_NEVER) of
            (rules, n', blocked, changed, next) \<Rightarrow>
              let s2 = s1\<lparr>wl_rules := rules, wl_blocked := blocked, wl_changed := changed\<rparr>;
                  s3 = (if next \<le> 0xFFFFFFFF then
                          let delta = (if next > cl_seconds wall
                                       then (next - cl_seconds wall) * 1000000 - word_of_int (cl_microseconds wall) else 0)
                          in s2\<lparr>wl_next := (if delta > SYS_NEVER - now then SYS_NEVER else now + delta)\<rparr>
                        else s2)
              in (s3\<lparr>wl_notice_revision := revision n'\<rparr>, n')
        else (s1\<lparr>wl_notice_revision := revision n\<rparr>, n))"

definition sys_wall_step :: "sys_wall \<Rightarrow> sys_state \<Rightarrow> sys_notify \<Rightarrow> u64 \<Rightarrow> sys_wall \<times> sys_notify" where
  "sys_wall_step = wall_step_with sys_notify_post ns_revision"

definition sys_wall_take_changed :: "sys_wall \<Rightarrow> bool \<times> sys_wall" where
  "sys_wall_take_changed s = (wl_changed s, s\<lparr>wl_changed := False\<rparr>)"

section \<open>The next instant lies in the future\<close>

lemma u64_of_int: "0 \<le> x \<Longrightarrow> x < 2 ^ 64 \<Longrightarrow> uint (word_of_int x :: u64) = x"
  by (simp add: uint_word_of_int)

lemma uint_u32_bound: "0 \<le> uint (x :: u32) \<and> uint x < 2 ^ 32"
  using uint_lt2p[of x] by simp

lemma wall_mark:
  assumes "0 \<le> uint utc + offset" "offset \<le> 50400"
  shows "uint (word_of_int ((uint (utc :: u32) + offset) div 86400) :: u32) = (uint utc + offset) div 86400"
    "(uint utc + offset) div 86400 < 50000" "0 \<le> (uint utc + offset) div 86400"
    "(uint utc + offset) div 86400 * 86400 \<le> uint utc + offset"
    "uint utc + offset < ((uint utc + offset) div 86400 + 1) * 86400"
proof -
  let ?l = "uint utc + offset"
  have l: "0 \<le> ?l" "?l < 2 ^ 32 + 50401" using assms uint_u32_bound[of utc] by simp_all
  then show d: "?l div 86400 < 50000" "0 \<le> ?l div 86400" by (simp_all add: pos_imp_zdiv_nonneg_iff div_less_iff_less_mult)
  then show "uint (word_of_int (?l div 86400) :: u32) = ?l div 86400" by (simp add: uint_word_of_int)
  show "?l div 86400 * 86400 \<le> ?l" "?l < (?l div 86400 + 1) * 86400" by simp_all
qed

lemma wall_next_day:
  fixes wm :: u32
  assumes "- 50400 \<le> offset" "offset \<le> 50400" "0 \<le> minute" "minute < 1440"
  shows "uint ((ucast wm + 1) * 86400 + word_of_int (minute * 60) - word_of_int offset :: u64) =
    (uint wm + 1) * 86400 + minute * 60 - offset"
proof -
  have w: "0 \<le> uint wm" "uint wm < 2 ^ 32" using uint_u32_bound[of wm] by simp_all
  have "((ucast wm + 1) * 86400 + word_of_int (minute * 60) - word_of_int offset :: u64) =
      word_of_int ((uint wm + 1) * 86400 + minute * 60 - offset)"
    by (simp only: ucast_eq of_int_add of_int_mult of_int_diff of_int_1 of_int_numeral)
  moreover have "0 \<le> (u + 1) * 86400 + minute * 60 - offset \<and> (u + 1) * 86400 + minute * 60 - offset < 2 ^ 64"
    if "0 \<le> u" "u < 2 ^ 32" for u :: int
    using assms that by simp
  note this[OF w]
  ultimately show ?thesis by (simp only: u64_of_int)
qed

lemma u64_future: "uint (utc :: u32) < x \<Longrightarrow> x < 2 ^ 64 \<Longrightarrow> uint utc < uint (word_of_int x :: u64)"
proof -
  assume x: "uint utc < x" "x < 2 ^ 64"
  then have "0 \<le> x" using uint_ge_0[of utc] by linarith
  from u64_of_int[OF this x(2)] x(1) show ?thesis by simp
qed

lemma wall_post_next: "fst (wall_post post r n owner blocked mark a b) \<in> {a, b}"
  by (simp add: wall_post_def split: prod.split)

lemma wall_daily_future:
  assumes "- 50400 \<le> offset" "offset \<le> 50400" "0 \<le> minute" "minute < 1440"
    and nonneg: "0 \<le> uint utc + offset" and m: "mark = word_of_int ((uint (utc :: u32) + offset) div 86400)"
  shows "mark \<le> wm \<Longrightarrow> uint utc <
      uint ((ucast wm + 1) * 86400 + word_of_int (minute * 60) - word_of_int offset :: u64)"
    "uint utc < uint mark * 86400 + minute * 60 - offset \<Longrightarrow>
       uint utc < uint (word_of_int (uint (mark :: u32) * 86400 + minute * 60 - offset) :: u64)"
    "uint utc < uint (word_of_int (uint mark * 86400 + minute * 60 - offset + 86400) :: u64)"
    "uint utc < uint (word_of_int ((uint mark + 1) * 86400 + minute * 60 - offset) :: u64)"
    "uint utc < uint mark * 86400 + minute * 60 - offset + 60 \<Longrightarrow>
       uint utc < uint (word_of_int (uint mark * 86400 + minute * 60 - offset + 60) :: u64)"
proof -
  note W = wall_mark[OF nonneg assms(2)]
  define k where "k = (uint utc + offset) div 86400"
  have mk: "uint mark = k" and k: "0 \<le> k" "k < 50000" "k * 86400 \<le> uint utc + offset" "uint utc + offset < (k + 1) * 86400"
    using W by (simp_all add: m k_def)
  have u: "0 \<le> uint utc" "uint utc < 2 ^ 32" using uint_u32_bound[of utc] by simp_all
  show "uint utc < uint ((ucast wm + 1) * 86400 + word_of_int (minute * 60) - word_of_int offset :: u64)" if "mark \<le> wm"
  proof -
    have "k \<le> uint wm" using that mk by (simp add: word_le_def)
    then have "(k + 1) * 86400 \<le> (uint wm + 1) * 86400" by simp
    with k assms show ?thesis unfolding wall_next_day[OF assms(1-4)] by linarith
  qed
  show "uint utc < uint (word_of_int (uint mark * 86400 + minute * 60 - offset) :: u64)"
    if "uint utc < uint mark * 86400 + minute * 60 - offset"
    using that u k assms(1-4) unfolding mk by (intro u64_future) simp_all
  show "uint utc < uint (word_of_int (uint mark * 86400 + minute * 60 - offset + 86400) :: u64)"
    using u k assms(1-4) unfolding mk by (intro u64_future) simp_all
  show "uint utc < uint (word_of_int ((uint mark + 1) * 86400 + minute * 60 - offset) :: u64)"
    using u k assms(1-4) unfolding mk by (intro u64_future) simp_all
  show "uint utc < uint (word_of_int (uint mark * 86400 + minute * 60 - offset + 60) :: u64)"
    if "uint utc < uint mark * 86400 + minute * 60 - offset + 60"
    using that u k assms(1-4) unfolding mk by (intro u64_future) simp_all
qed

lemma wall_post_future:
  "uint utc < uint a \<Longrightarrow> uint utc < uint b \<Longrightarrow> uint utc < uint (fst (wall_post post r n owner blocked mark a b))"
  using wall_post_next[of post r n owner blocked mark a b] by auto

lemma uint_never: "uint SYS_NEVER = 2 ^ 64 - 1"
  by (simp add: SYS_NEVER_def unsigned_minus_1_eq_mask mask_eq_exp_minus_1)

lemma wall_never_future: "uint (utc :: u32) < uint SYS_NEVER"
  using uint_u32_bound[of utc] by (simp add: uint_never)

lemma wall_evaluate_daily:
  assumes "wr_last r = Some wm" "wr_label r = Some lb" "utc \<noteq> 0" "wr_due r = None"
    and "wr_minute r = Some minute" "wr_offset r = Some offset"
    and "- 50400 \<le> offset" "offset \<le> 50400" "0 \<le> minute" "minute < 1440" "0 \<le> uint utc + offset"
    and "mark = (word_of_int ((uint utc + offset) div 86400) :: u32)"
  shows "wall_evaluate_with post r n owner utc blocked =
    (if mark \<le> wm then ((ucast wm + 1) * 86400 + word_of_int (minute * 60) - word_of_int offset, r, n, blocked)
     else if uint utc < uint mark * 86400 + minute * 60 - offset
       then (word_of_int (uint mark * 86400 + minute * 60 - offset), r, n, blocked)
     else if uint mark * 86400 + minute * 60 - offset + 60 \<le> uint utc
       then (word_of_int (uint mark * 86400 + minute * 60 - offset + 86400), r, n, blocked)
     else wall_post post r n owner blocked mark
       (word_of_int ((uint mark + 1) * 86400 + minute * 60 - offset))
       (word_of_int (uint mark * 86400 + minute * 60 - offset + 60)))"
  using assms(1-11) unfolding wall_evaluate_with_def assms(12) by (simp add: Let_def algebra_simps)

lemma wall_evaluate_future: "uint utc < uint (fst (wall_evaluate_with post r n owner utc blocked))"
proof (cases "wr_last r = None \<or> wr_label r = None \<or> utc = 0")
  case True
  then show ?thesis using wall_never_future by (auto simp: wall_evaluate_with_def split: option.split)
next
  case False
  then obtain wm where wm: "wr_last r = Some wm" by auto
  show ?thesis
  proof (cases "wr_due r")
    case (Some mark)
    have "uint utc < uint (ucast mark :: u64)" if "utc < mark"
      using that by (simp add: word_less_def uint_up_ucast is_up)
    then show ?thesis
      using wall_never_future wall_post_future[OF wall_never_future wall_never_future] False Some wm
      by (auto simp: wall_evaluate_with_def)
  next
    case None
    show ?thesis
    proof (cases "wr_minute r = None \<or> wr_offset r = None")
      case True
      then show ?thesis
        using wall_never_future False None wm
        by (cases "wr_minute r"; cases "wr_offset r") (auto simp: wall_evaluate_with_def)
    next
      case set: False
      then obtain minute offset where mo: "wr_minute r = Some minute" "wr_offset r = Some offset" by auto
      show ?thesis
      proof (cases "minute < 0 \<or> minute \<ge> 1440 \<or> offset < -50400 \<or> offset > 50400 \<or> uint utc + offset < 0")
        case True
        then show ?thesis
          using wall_never_future False None wm mo
          by (cases "uint utc + offset < 0") (auto simp: wall_evaluate_with_def Let_def)
      next
        case ok: False
        obtain mark where mark: "mark = (word_of_int ((uint utc + offset) div 86400) :: u32)" by blast
        have rng: "- 50400 \<le> offset" "offset \<le> 50400" "0 \<le> minute" "minute < 1440" "0 \<le> uint utc + offset"
          using ok by simp_all
        note F = wall_daily_future[OF rng mark]
        obtain lb where lb: "wr_label r = Some lb" using False by auto
        have "utc \<noteq> 0" using False by simp
        note E = wall_evaluate_daily[OF wm lb this None mo rng mark, of post n owner blocked]
        show ?thesis
        proof (cases "mark \<le> wm \<or> uint utc < uint mark * 86400 + minute * 60 - offset \<or>
            uint mark * 86400 + minute * 60 - offset + 60 \<le> uint utc")
          case True
          then show ?thesis unfolding E using F(1-3) by (auto simp del: of_int_add of_int_diff of_int_mult)
        next
          case False
          then have "uint utc < uint mark * 86400 + minute * 60 - offset + 60" by linarith
          from wall_post_future[OF F(4) F(5)[OF this]] False show ?thesis
            unfolding E by (simp only: if_False de_Morgan_disj simp_thms)
        qed
      qed
    qed
  qed
qed

lemma wall_scan_future:
  "uint utc < uint next \<Longrightarrow> wall_scan post owner utc rs (n, blocked, changed, next) = (rs', n', blocked', changed', next')
   \<Longrightarrow> uint utc < uint next'"
proof (induction rs arbitrary: n blocked changed "next" rs')
  case Nil
  then show ?case by simp
next
  case (Cons r rs)
  obtain due r' n1 b1 where e: "wall_evaluate_with post r n owner utc blocked = (due, r', n1, b1)"
    by (cases "wall_evaluate_with post r n owner utc blocked") auto
  have "uint utc < uint (if due < next then due else next)"
    using wall_evaluate_future[of utc post r n owner blocked] e Cons.prems(1) by simp
  from Cons.IH[OF this] Cons.prems(2) e show ?case
    by (auto split: prod.splits)
qed

lemma wall_delta:
  fixes sec "next" :: u64 and us :: int
  assumes "uint sec < uint next" "uint next < 2 ^ 32" "0 \<le> us" "us < 1000000"
  shows "0 < (next - sec) * 1000000 - word_of_int us"
proof -
  have d: "uint (next - sec) = uint next - uint sec" using assms(1) by (subst uint_sub_lem[THEN iffD1]) simp_all
  have d0: "0 < uint (next - sec)" "uint (next - sec) < 2 ^ 32"
    using assms(1,2) uint_ge_0[of sec] unfolding d by linarith+
  have k: "uint (1000000 :: u64) = 1000000" by simp
  have "uint (next - sec) * uint (1000000 :: u64) < 2 ^ LENGTH(64)" using d0 unfolding k by simp
  then have m: "uint ((next - sec) * 1000000) = uint (next - sec) * 1000000"
    using uint_mult_lem[THEN iffD1, of "next - sec" 1000000] k by simp
  have w: "uint (word_of_int us :: u64) = us" using assms(3,4) by (intro u64_of_int) simp_all
  have gt: "us < uint (next - sec) * 1000000" using d0 assms(4) by linarith
  then have "uint ((next - sec) * 1000000 - word_of_int us) = uint (next - sec) * 1000000 - us"
    using uint_sub_lem[THEN iffD1, of "word_of_int us" "(next - sec) * 1000000"] m w by simp
  then have "0 < uint ((next - sec) * 1000000 - word_of_int us)" using gt by linarith
  then show ?thesis by (simp add: word_less_def)
qed

lemma u64_add_future: "now \<noteq> SYS_NEVER \<Longrightarrow> 0 < delta \<Longrightarrow> delta \<le> SYS_NEVER - now \<Longrightarrow> now < now + delta"
proof -
  assume "0 < delta" "delta \<le> SYS_NEVER - now"
  moreover have "uint (SYS_NEVER - now) = uint SYS_NEVER - uint now"
    by (rule uint_sub_lem[THEN iffD1]) (simp add: uint_never, use uint_lt2p[of now] in simp)
  ultimately have d: "0 < uint delta" "uint now + uint delta < 2 ^ LENGTH(64)"
    by (simp_all add: word_less_def word_le_def uint_never)
  then have "uint (now + delta) = uint now + uint delta" by (intro uint_add_lem[THEN iffD1])
  with d(1) show ?thesis by (simp add: word_less_def)
qed

lemma wall_step_future:
  assumes clk: "state_inv clk" and now: "now \<noteq> SYS_NEVER"
    and st: "wall_step_with post revision s clk n now = (t, n')"
  shows "now < sys_wall_deadline t clk (revision n')"
proof (cases "sys_wall_deadline s clk (revision n) = SYS_NEVER \<or> now < sys_wall_deadline s clk (revision n)")
  case True
  then show ?thesis using st now by (auto simp: wall_step_with_def SYS_NEVER_def word_less_max_iff)
next
  case run: False
  have never: "now < SYS_NEVER" using now by (simp add: SYS_NEVER_def word_less_max_iff)
  obtain valid wall where snap: "sys_clock_snapshot clk now = (valid, wall)" by (cases "sys_clock_snapshot clk now")
  have frame: "now < sys_wall_deadline t clk (revision n')"
    if "\<not> wl_invalid t" "wl_clock_revision t = st_clock_revision clk" "wl_notice_revision t = revision n'" "now < wl_next t"
    using that never by (simp add: sys_wall_deadline_def)
  show ?thesis
  proof (cases "valid \<and> sint (cl_seconds wall) > 0 \<and> sint (cl_seconds wall) \<le> 2 ^ 32 - 1")
    case False
    then show ?thesis
      using run st snap never by (intro frame) (auto simp: wall_step_with_def Let_def)
  next
    case True
    obtain rules n1 blocked changed "next" where scan: "wall_scan post (wl_owner s) (ucast (cl_seconds wall)) (wl_rules s)
        (n, False, wl_changed s, SYS_NEVER) = (rules, n1, blocked, changed, next)"
      by (cases "wall_scan post (wl_owner s) (ucast (cl_seconds wall)) (wl_rules s) (n, False, wl_changed s, SYS_NEVER)") auto
    have us: "0 \<le> cl_microseconds wall" "cl_microseconds wall < 1000000"
      using sys_clock_snapshot_exact[OF clk, of now wall] snap True by auto
    have sec: "uint (cl_seconds wall) = sint (cl_seconds wall)" using True by (intro i64_nonneg[THEN conjunct1]) simp
    have u32: "uint (ucast (cl_seconds wall) :: u32) = uint (cl_seconds wall)"
      using True sec by (simp add: unsigned_ucast_eq take_bit_int_eq_self)
    have fut: "uint (cl_seconds wall) < uint next"
      using wall_scan_future[OF wall_never_future scan] u32 by simp
    have "now < wl_next t"
    proof (cases "next \<le> 0xFFFFFFFF")
      case small: True
      let ?delta = "(next - cl_seconds wall) * 1000000 - word_of_int (cl_microseconds wall)"
      have "uint next < 2 ^ 32" using small by (simp add: word_le_def)
      from wall_delta[OF fut this us] have delta: "0 < ?delta" .
      have gt: "next > cl_seconds wall" using fut by (simp add: word_less_def)
      have "wl_next t = (if ?delta > SYS_NEVER - now then SYS_NEVER else now + ?delta)"
        using run st snap True scan small gt by (auto simp: wall_step_with_def Let_def)
      then show ?thesis using never u64_add_future[OF now delta] by auto
    next
      case False
      then have "wl_next t = SYS_NEVER" using run st snap True scan by (auto simp: wall_step_with_def Let_def)
      then show ?thesis using never by simp
    qed
    then show ?thesis
      using run st snap True scan by (intro frame) (auto simp: wall_step_with_def Let_def split: if_splits)
  qed
qed

section \<open>Each mark is posted once\<close>

definition wall_same_mark :: "sys_wall_rule \<Rightarrow> u32 \<Rightarrow> u32 \<Rightarrow> bool" where
  "wall_same_mark r utc utc' \<longleftrightarrow> wr_due r \<noteq> None \<or>
     (uint utc + the (wr_offset r)) div 86400 = (uint utc' + the (wr_offset r)) div 86400"

lemma wall_evaluate_cases:
  assumes "wall_evaluate_with post r n owner utc blocked = (next, r', n', b')"
  obtains (quiet) "r' = r" "n' = n" "b' = blocked"
  | (post) mark lb x y where "wr_label r = Some lb" "wr_last r \<noteq> Some mark"
      "wall_post post r n owner blocked mark x y = (next, r', n', b')"
      "wr_due r = Some mark \<or> wr_due r = None \<and> wr_minute r \<noteq> None \<and> (\<exists>off. wr_offset r = Some off \<and>
        0 \<le> uint utc + off \<and> mark = word_of_int ((uint utc + off) div 86400))"
  using assms unfolding wall_evaluate_with_def
  by (auto simp: Let_def split: option.splits if_splits)

lemma wall_evaluate_settled:
  assumes "wr_last r = Some mark" "wall_same_mark r utc utc'"
    "wr_due r = Some mark \<or> wr_due r = None \<and> wr_minute r \<noteq> None \<and> (\<exists>off. wr_offset r = Some off \<and>
        0 \<le> uint utc + off \<and> mark = word_of_int ((uint utc + off) div 86400))"
  shows "snd (wall_evaluate_with post r n owner utc' blocked) = (r, n, blocked)"
  using assms unfolding wall_evaluate_with_def wall_same_mark_def
  by (auto simp: Let_def split: option.splits if_splits)

context notice_sink begin

lemma evaluate_once:
  assumes ev: "wall_evaluate_with post r n owner utc blocked = (next, r', n', b')"
  shows "(r' = r \<and> pending n' = pending n) \<or>
    (wr_last r' \<noteq> wr_last r \<and> pending n' = add_mset (owner, the (wr_label r)) (pending n) \<and>
     (\<forall>utc' m owner' b. wall_same_mark r utc utc' \<longrightarrow>
        snd (wall_evaluate_with post r' m owner' utc' b) = (r', m, b)))"
proof (cases rule: wall_evaluate_cases[OF ev])
  case 1
  then show ?thesis by simp
next
  case (2 mark lb x y)
  obtain res out n1 where p: "post n owner 0 (wr_label r) 0 = (res, out, n1)"
    by (cases "post n owner 0 (wr_label r) 0")
  show ?thesis
  proof (cases "res = NOTICE_OK")
    case True
    with p 2 have r': "r' = r\<lparr>wr_last := Some mark\<rparr>" and n': "n' = n1" by (auto simp: wall_post_def)
    have "pending n' = add_mset (owner, lb) (pending n)"
      using post_ok[of n owner lb 0 out n1] p True 2(1) n' by simp
    moreover have "wall_same_mark r' utc utc'" if "wall_same_mark r utc utc'" for utc'
      using that by (simp add: wall_same_mark_def r')
    ultimately have "snd (wall_evaluate_with post r' m owner' utc' b) = (r', m, b)"
      if "wall_same_mark r utc utc'" for utc' m owner' b
      using that 2(4) by (intro wall_evaluate_settled[of r' mark utc]) (simp_all add: r')
    then show ?thesis using 2(1,2) \<open>pending n' = _\<close> by (simp add: r')
  next
    case False
    with p 2 post_refused[of n owner 0 "wr_label r" 0 res out n1] show ?thesis by (auto simp: wall_post_def)
  qed
qed

end

section \<open>Properties\<close>

text \<open>The watermark of a rule moves exactly when one notification with the rule's label
  is posted, and after that no evaluation at any instant of the same mark (the same epoch, the same
  local day) posts again or changes anything.\<close>

theorem sys_wall_evaluate_once:
  assumes "sys_wall_evaluate r n owner utc blocked = (next, r', n', b')"
  shows "(r' = r \<and> notice_pending n' = notice_pending n) \<or>
    (wr_last r' \<noteq> wr_last r \<and> notice_pending n' = add_mset (owner, the (wr_label r)) (notice_pending n) \<and>
     (\<forall>utc' m owner' b. wall_same_mark r utc utc' \<longrightarrow> snd (sys_wall_evaluate r' m owner' utc' b) = (r', m, b)))"
  using store.evaluate_once assms unfolding sys_wall_evaluate_def .

definition wall_daily_sample :: sys_wall_rule where
  "wall_daily_sample = \<lparr>wr_due = None, wr_last = Some 0, wr_minute = Some 420, wr_offset = Some 32400,
     wr_label = Some (ascii ''Wake'')\<rparr>"

theorem sys_wall_evaluate_once_witness:
  "\<exists>next r' n' b'. sys_wall_evaluate wall_daily_sample notify_zero 1 1699999230 False = (next, r', n', b') \<and>
     notice_pending n' = add_mset (1, ascii ''Wake'') (notice_pending notify_zero)"
proof -
  let ?e = "sys_wall_evaluate wall_daily_sample notify_zero 1 1699999230 False"
  obtain due r' n' b' where ev: "?e = (due, r', n', b')" by (cases ?e) auto
  have "wr_last (fst (snd ?e)) \<noteq> wr_last wall_daily_sample" by code_simp
  then have "wr_last r' \<noteq> wr_last wall_daily_sample" by (simp add: ev)
  moreover have "the (wr_label wall_daily_sample) = ascii ''Wake''" by (simp add: wall_daily_sample_def)
  ultimately have "notice_pending n' = add_mset (1, ascii ''Wake'') (notice_pending notify_zero)"
    using sys_wall_evaluate_once[OF ev] by auto
  with ev show ?thesis by blast
qed

text \<open>After a step of the reminders their deadline lies strictly in the future, for any
  rules (daily rules in any time zone, watermarks ahead of the clock, a full store) and any reading
  of the clock: the owner loop never spins on them.\<close>

theorem sys_wall_step_never_spins:
  assumes "sys_wall_step s (foldl state_apply state_zero es) n now = (t, n')" "now \<noteq> SYS_NEVER"
  shows "now < sys_wall_deadline t (foldl state_apply state_zero es) (ns_revision n')"
  using assms unfolding sys_wall_step_def by (intro wall_step_future[OF state_run.reachable_inv])

definition wall_sample :: sys_wall where
  "wall_sample = \<lparr>wl_rules = [wall_daily_sample], wl_next = 0, wl_owner = 1, wl_clock_revision = 0,
     wl_notice_revision = 0, wl_invalid = True, wl_blocked = False, wl_changed = False\<rparr>"

theorem sys_wall_step_never_spins_witness:
  "let clk = foldl state_apply state_zero clock_sample_run; r = sys_wall_step wall_sample clk notify_zero 9 in
     9 < sys_wall_deadline (fst r) clk (ns_revision (snd r))"
proof -
  let ?clk = "foldl state_apply state_zero clock_sample_run"
  have "sys_wall_step wall_sample ?clk notify_zero 9 =
      (fst (sys_wall_step wall_sample ?clk notify_zero 9), snd (sys_wall_step wall_sample ?clk notify_zero 9))" by simp
  then show ?thesis unfolding Let_def by (rule sys_wall_step_never_spins) (simp add: SYS_NEVER_def)
qed

end
