(* ===== verification/SysDevice.thy ===== *)
theory SysDevice
  imports Wall
begin

text \<open>
  The owner loop's side of the system services (main/system/sys_ringer.c, sys_clock.c and
  sys_device.c): the alarm tone of the active notification, the trust state of the platform clock,
  one step of the owner over all services, the next deadline and the bounded wait.

  Hardware answers are arguments: the monotonic clock of each of the reads of one step, the
  platform's wall clock (\<open>None\<close> when \<open>gettimeofday\<close> fails) and the battery gauge.
\<close>

section \<open>The ringer\<close>

record sys_ringer =
  rg_until :: u64
  rg_next :: u64
  rg_order :: u64
  rg_id :: u32

definition ringer_zero :: sys_ringer where
  "ringer_zero = \<lparr>rg_until = 0, rg_next = 0, rg_order = 0, rg_id = 0\<rparr>"

definition sys_ringer_deadline :: "sys_ringer \<Rightarrow> sys_notify \<Rightarrow> u64" where
  "sys_ringer_deadline s notices =
     (case sys_notify_active notices of None \<Rightarrow> U64_MAX
      | Some active \<Rightarrow> if rg_id s = n_id active \<and> rg_order s = n_order active then rg_next s else 0)"

definition sys_ringer_poll :: "sys_ringer \<Rightarrow> sys_notify \<Rightarrow> u64 \<Rightarrow> bool \<times> sys_ringer" where
  "sys_ringer_poll s notices now =
     (case sys_notify_active notices of None \<Rightarrow> (False, ringer_zero)
      | Some active \<Rightarrow>
        let s1 = (if rg_id s \<noteq> n_id active \<or> rg_order s \<noteq> n_order active
                  then \<lparr>rg_until = (if now > U64_MAX - 30000000 then U64_MAX else now + 30000000),
                        rg_next = now, rg_order = n_order active, rg_id = n_id active\<rparr>
                  else s) in
        if now \<ge> rg_until s1 then (False, s1\<lparr>rg_next := U64_MAX\<rparr>)
        else if now < rg_next s1 then (False, s1)
        else (True, s1\<lparr>rg_next := (if rg_until s1 - now \<le> 2000000 then U64_MAX else now + 2000000)\<rparr>))"

section \<open>The platform clock\<close>

datatype clock_trust = TRUST_UNKNOWN | TRUST_YES | TRUST_RTC | TRUST_NO

record sys_clock_cell =
  ck_trust :: clock_trust
  ck_requested :: bool

record sys_clock_sample =
  cs_seconds :: i64
  cs_microseconds :: int
  cs_available :: bool
  cs_trusted :: bool
  cs_synchronized :: bool

definition sys_clock_set_synchronized :: "sys_clock_cell \<Rightarrow> bool \<Rightarrow> sys_clock_cell" where
  "sys_clock_set_synchronized c value =
     c\<lparr>ck_trust := (if value then TRUST_YES else TRUST_NO), ck_requested := True\<rparr>"

definition sys_clock_update_pending :: "sys_clock_cell \<Rightarrow> bool" where
  "sys_clock_update_pending c = ck_requested c"

definition sys_clock_take_update :: "sys_clock_cell \<Rightarrow> bool \<times> sys_clock_cell" where
  "sys_clock_take_update c = (ck_requested c, c\<lparr>ck_requested := False\<rparr>)"

text \<open>
  \<open>state\<close> is the trust value of the first load and \<open>seen\<close> the value at the compare-and-swap: another
  task may have stored in between.  The result is the sample and the trust the swap leaves.
\<close>

definition sys_clock_read ::
  "clock_trust \<Rightarrow> (i64 \<times> int) option \<Rightarrow> clock_trust \<Rightarrow> sys_clock_sample \<times> clock_trust" where
  "sys_clock_read state timeofday seen =
     (let sample = \<lparr>cs_seconds = 0, cs_microseconds = 0, cs_available = False,
                    cs_trusted = (state = TRUST_YES \<or> state = TRUST_RTC),
                    cs_synchronized = (state = TRUST_YES)\<rparr> in
      if state = TRUST_NO then (sample, seen)
      else case timeofday of None \<Rightarrow> (sample, seen)
      | Some (sec, usec) \<Rightarrow>
        if usec < 0 \<or> usec \<ge> 1000000 then (sample, seen)
        else let s1 = sample\<lparr>cs_seconds := sec, cs_microseconds := usec, cs_available := True\<rparr> in
          if state = TRUST_UNKNOWN \<and> sint sec \<ge> 946684800 then
            let s2 = s1\<lparr>cs_trusted := (seen \<noteq> TRUST_NO), cs_synchronized := (seen = TRUST_YES)\<rparr>
            in (if seen = TRUST_NO then s2\<lparr>cs_available := False\<rparr> else s2,
                if seen = TRUST_UNKNOWN then TRUST_RTC else seen)
          else (s1, seen))"

section \<open>The owner's state and step\<close>

record sys_device =
  dv_state :: sys_state
  dv_notifications :: sys_notify
  dv_timers :: sys_timer
  dv_ringer :: sys_ringer
  dv_wall :: sys_wall
  dv_clock :: sys_clock_cell

text \<open>What the hardware answers during one step: the four reads of the monotonic clock, the wall
  clock, the trust at the compare-and-swap, and the battery as (time, millivolts).\<close>

record device_input =
  di_notify_us :: u64
  di_clock_us :: u64
  di_power_us :: u64
  di_wall_us :: u64
  di_timeofday :: "(i64 \<times> int) option"
  di_trust_seen :: clock_trust
  di_battery :: "(u64 \<times> int) option"

definition wall_zero :: sys_wall where
  "wall_zero = \<lparr>wl_rules = replicate SYS_WALL_RULES \<lparr>wr_due = None, wr_last = None, wr_minute = None,
       wr_offset = None, wr_label = None\<rparr>, wl_next = 0, wl_owner = 0, wl_clock_revision = 0,
     wl_notice_revision = 0, wl_invalid = False, wl_blocked = False, wl_changed = False\<rparr>"

definition device_zero :: sys_device where
  "device_zero = \<lparr>dv_state = state_zero, dv_notifications = notify_zero, dv_timers = timer_zero,
     dv_ringer = ringer_zero, dv_wall = wall_zero, dv_clock = \<lparr>ck_trust = TRUST_UNKNOWN, ck_requested = True\<rparr>\<rparr>"

definition sys_device_take_tone :: "sys_device \<Rightarrow> u64 \<Rightarrow> bool \<times> sys_device" where
  "sys_device_take_tone d now =
     (case sys_ringer_poll (dv_ringer d) (dv_notifications d) now of (tone, r) \<Rightarrow> (tone, d\<lparr>dv_ringer := r\<rparr>))"

definition sys_device_next_deadline :: "sys_device \<Rightarrow> u64" where
  "sys_device_next_deadline d =
     (if sys_clock_update_pending (dv_clock d) \<or> ns_changed (dv_notifications d) \<or> ts_changed (dv_timers d) then 0
      else
        let n0 = sys_notify_deadline (dv_notifications d);
            timer = sys_timer_deadline (dv_timers d);
            power = sys_power_deadline (dv_state d);
            tone = sys_ringer_deadline (dv_ringer d) (dv_notifications d);
            n1 = (if tone < n0 then tone else n0);
            wall = sys_wall_deadline (dv_wall d) (dv_state d) (ns_revision (dv_notifications d));
            n2 = (if wall < n1 then wall else n1);
            n3 = (if timer < n2 then timer else n2)
        in if power < n3 then power else n3)"

definition sys_device_wait_ticks :: "sys_device \<Rightarrow> u64 \<Rightarrow> u32 \<Rightarrow> u32 \<Rightarrow> u32" where
  "sys_device_wait_ticks d now cap hz =
     (let next = sys_device_next_deadline d in
      if next = SYS_NEVER then cap
      else if next \<le> now \<or> hz = 0 then 0
      else let delta = next - now; seconds = delta div 1000000 in
        if seconds > ucast (cap div hz) then cap
        else let ticks = seconds * ucast hz + ((delta mod 1000000) * ucast hz + 999999) div 1000000
          in if ticks < ucast cap then ucast ticks else cap)"

definition sys_device_clock_read :: "sys_device \<Rightarrow> u64 \<Rightarrow> bool \<times> sys_clock_state" where
  "sys_device_clock_read d now = sys_clock_snapshot (dv_state d) now"

definition device_read_power :: "(u64 \<times> int) option \<Rightarrow> u64 \<Rightarrow> sys_power_state" where
  "device_read_power battery now =
     (case battery of
        Some (at, mv) \<Rightarrow> \<lparr>pw_sampled_at = at, pw_millivolts = mv, pw_error = 0, pw_sampled = True, pw_valid = True\<rparr>
      | None \<Rightarrow> \<lparr>pw_sampled_at = now, pw_millivolts = 0, pw_error = 1, pw_sampled = True, pw_valid = False\<rparr>)"

definition device_step_notices :: "u64 \<Rightarrow> sys_device \<Rightarrow> sys_device" where
  "device_step_notices now d =
     (if sys_notify_deadline (dv_notifications d) \<noteq> U64_MAX \<or> sys_timer_deadline (dv_timers d) \<noteq> U64_MAX
         \<or> ns_changed (dv_notifications d)
      then
        (case sys_notify_take_changed (sys_notify_step (dv_notifications d) now) of (chg, n1) \<Rightarrow>
         case sys_timer_step (dv_timers d) n1 now chg of (t, n2) \<Rightarrow>
         case sys_notify_take_changed (sys_notify_step n2 now) of (chg2, n3) \<Rightarrow>
           d\<lparr>dv_notifications := n3, dv_timers := t,
             dv_state := (if chg \<or> chg2 then sys_notify_publish (dv_state d) else dv_state d)\<rparr>)
      else d)"

definition device_step_timers :: "sys_device \<Rightarrow> sys_device" where
  "device_step_timers d =
     (case sys_timer_take_changed (dv_timers d) of (chg, t) \<Rightarrow>
        d\<lparr>dv_timers := t, dv_state := (if chg then sys_timer_publish (dv_state d) else dv_state d)\<rparr>)"

definition device_step_clock :: "device_input \<Rightarrow> sys_device \<Rightarrow> sys_device" where
  "device_step_clock inp d =
     (case sys_clock_take_update (dv_clock d) of (requested, c1) \<Rightarrow>
        if \<not> requested then d\<lparr>dv_clock := c1\<rparr>
        else case sys_clock_read (ck_trust c1) (di_timeofday inp) (di_trust_seen inp) of (wall, trust) \<Rightarrow>
          let s = dv_state d; now = di_clock_us inp;
              s' = (if cs_available wall \<and> cs_trusted wall \<and> sint (cs_seconds wall) \<ge> 946684800 then
                      snd (sys_clock_update s \<lparr>an_seconds = cs_seconds wall, an_mono_us = now,
                        an_microseconds = cs_microseconds wall,
                        an_source = (if cs_synchronized wall then SYS_CLOCK_SNTP else SYS_CLOCK_RTC)\<rparr>)
                    else if \<not> cs_trusted wall then snd (sys_clock_update s (anchor_zero\<lparr>an_mono_us := now\<rparr>))
                    else if cs_available wall then snd (sys_clock_fail s now SYS_CLOCK_OUT_OF_RANGE)
                    else if an_source (st_clock s) = SYS_CLOCK_NONE
                      then snd (sys_clock_fail s now SYS_CLOCK_UNAVAILABLE)
                    else s)
          in d\<lparr>dv_wall := sys_wall_invalidate (dv_wall d), dv_state := s', dv_clock := c1\<lparr>ck_trust := trust\<rparr>\<rparr>)"

definition device_step_power :: "device_input \<Rightarrow> sys_device \<Rightarrow> sys_device" where
  "device_step_power inp d =
     (if sys_power_deadline (dv_state d) \<noteq> SYS_NEVER
      then d\<lparr>dv_state := sys_power_step (dv_state d) (di_power_us inp) (device_read_power (di_battery inp))\<rparr>
      else d)"

definition device_step_wall :: "u64 \<Rightarrow> sys_device \<Rightarrow> sys_device" where
  "device_step_wall now d =
     (case sys_wall_step (dv_wall d) (dv_state d) (dv_notifications d) now of (w, n) \<Rightarrow>
        d\<lparr>dv_wall := w, dv_notifications := n\<rparr>)"

definition sys_device_step :: "sys_device \<Rightarrow> device_input \<Rightarrow> sys_device" where
  "sys_device_step d inp =
     device_step_wall (di_wall_us inp) (device_step_power inp (device_step_clock inp
       (device_step_timers (device_step_notices (di_notify_us inp) d))))"

section \<open>The bounded wait\<close>

lemma ceil_split:
  fixes u h :: int
  shows "u div 1000000 * h + ((u mod 1000000) * h + 999999) div 1000000 = (u * h + 999999) div 1000000"
proof -
  obtain q r where qr: "q = u div 1000000" "r = u mod 1000000" by blast
  then have u: "u = 1000000 * q + r" by simp
  have "u * h + 999999 = (r * h + 999999) + (q * h) * 1000000" unfolding u by (simp add: algebra_simps)
  then have "(u * h + 999999) div 1000000 = q * h + (r * h + 999999) div 1000000"
    by simp
  then show ?thesis by (simp add: qr)
qed

lemma wait_ticks_fit:
  fixes u c h :: int
  assumes "0 < h" "0 \<le> u" "u div 1000000 \<le> c div h"
  shows "u div 1000000 * h \<le> c" "(u mod 1000000) * h \<le> 1000000 * h" "0 \<le> (u mod 1000000) * h" "0 \<le> u div 1000000 * h"
proof -
  have "u div 1000000 * h \<le> c div h * h" using assms by simp
  also have "\<dots> = c - c mod h" by (simp add: minus_mod_eq_div_mult)
  also have "\<dots> \<le> c" using assms(1) by simp
  finally show "u div 1000000 * h \<le> c" .
  show "(u mod 1000000) * h \<le> 1000000 * h" "0 \<le> (u mod 1000000) * h"
    using assms(1) by (intro mult_right_mono mult_nonneg_nonneg; simp add: less_imp_le)+
  show "0 \<le> u div 1000000 * h" using assms by (intro mult_nonneg_nonneg) (simp_all add: pos_imp_zdiv_nonneg_iff)
qed

lemma wait_ticks_word:
  fixes delta :: u64 and cap hz :: u32
  assumes hz: "hz \<noteq> 0" and fit: "uint delta div 1000000 \<le> uint cap div uint hz"
  shows "uint (delta div 1000000 * ucast hz + ((delta mod 1000000) * ucast hz + 999999) div 1000000) =
    (uint delta * uint hz + 999999) div 1000000"
proof -
  have h: "0 < uint hz" "uint hz < 2 ^ 32" using hz uint_u32_bound[of hz] by (simp_all add: word_neq_0_conv word_less_def)
  note F = wait_ticks_fit[OF h(1) uint_ge_0[of delta] fit]
  have uh: "uint (ucast hz :: u64) = uint hz" by (simp add: uint_up_ucast is_up)
  have cap: "uint cap < 2 ^ 32" using uint_u32_bound by blast
  have rh: "(uint delta mod 1000000) * uint hz < 2 ^ 62" using F(2) h(2) by simp
  have m1: "uint (delta div 1000000 * ucast hz) = uint delta div 1000000 * uint hz"
    by (subst uint_mult_lem[THEN iffD1]) (use F(1) cap in \<open>simp_all only: uh u64_split_micros\<close>, use F(1) cap in simp)
  have m2: "uint ((delta mod 1000000) * ucast hz) = (uint delta mod 1000000) * uint hz"
    by (subst uint_mult_lem[THEN iffD1]) (use rh in \<open>simp_all only: uh u64_split_micros\<close>, use rh in simp)
  have m3: "uint ((delta mod 1000000) * ucast hz + 999999) = (uint delta mod 1000000) * uint hz + 999999"
    using uint_add_lem[THEN iffD1, of "(delta mod 1000000) * ucast hz" 999999] rh by (simp add: m2)
  have m4: "uint (((delta mod 1000000) * ucast hz + 999999) div 1000000) =
      ((uint delta mod 1000000) * uint hz + 999999) div 1000000"
    by (simp add: u64_split_micros m3)
  have "((uint delta mod 1000000) * uint hz + 999999) div 1000000 < 2 ^ 62"
    using rh F(3) by simp
  then have "uint (delta div 1000000 * ucast hz) + uint (((delta mod 1000000) * ucast hz + 999999) div 1000000) < 2 ^ LENGTH(64)"
    unfolding m1 m4 using F(1) cap by simp
  from uint_add_lem[THEN iffD1, OF this] show ?thesis unfolding m1 m4 ceil_split .
qed

lemma wait_ticks_far:
  fixes u c h :: int
  assumes "0 < h" "0 \<le> c" "c div h < u div 1000000"
  shows "c < (u * h + 999999) div 1000000"
proof -
  have "c = c div h * h + c mod h" by simp
  moreover have "c mod h < h" using assms(1) by simp
  ultimately have "c < (c div h + 1) * h" by (simp only: distrib_right mult_1_left)
  also have "\<dots> \<le> u div 1000000 * h" using assms by simp
  also have "\<dots> \<le> u div 1000000 * h + ((u mod 1000000) * h + 999999) div 1000000"
  proof -
    have "0 \<le> (u mod 1000000) * h" using assms(1) by simp
    then have "0 \<le> ((u mod 1000000) * h + 999999) div 1000000" by (simp add: pos_imp_zdiv_nonneg_iff)
    then show ?thesis by linarith
  qed
  finally show ?thesis by (simp only: ceil_split)
qed

lemma wait_ticks_exact:
  assumes "next = sys_device_next_deadline d" "next \<noteq> SYS_NEVER" "now < next" "hz \<noteq> 0"
  shows "uint (sys_device_wait_ticks d now cap hz) =
    min (uint cap) (((uint next - uint now) * uint hz + 999999) div 1000000)"
proof -
  obtain delta where delta: "delta = next - now" by blast
  have ud: "uint delta = uint next - uint now"
    unfolding delta using assms(3) by (intro uint_sub_lem[THEN iffD1]) (simp add: word_less_def)
  have h: "0 < uint hz" using assms(4) by (simp add: word_neq_0_conv word_less_def)
  have c: "0 \<le> uint cap" "uint cap < 2 ^ 32" using uint_u32_bound[of cap] by simp_all
  have cd: "uint (ucast (cap div hz) :: u64) = uint cap div uint hz"
    by (simp add: uint_up_ucast is_up uint_div)
  have cw: "uint (ucast cap :: u64) = uint cap" by (simp add: uint_up_ucast is_up)
  have eq: "sys_device_wait_ticks d now cap hz =
    (if delta div 1000000 > ucast (cap div hz) then cap
     else let ticks = delta div 1000000 * ucast hz + ((delta mod 1000000) * ucast hz + 999999) div 1000000
       in if ticks < ucast cap then ucast ticks else cap)"
    using assms(2,4) assms(3)[folded not_le] unfolding sys_device_wait_ticks_def assms(1)[symmetric] delta
    by (simp only: Let_def if_False disj_not1 simp_thms)
  show ?thesis
  proof (cases "delta div 1000000 > ucast (cap div hz)")
    case True
    then have "uint cap div uint hz < uint delta div 1000000"
      by (simp only: word_less_def cd u64_split_micros)
    from wait_ticks_far[OF h c(1) this] True show ?thesis unfolding eq by (simp add: ud)
  next
    case False
    then have "uint delta div 1000000 \<le> uint cap div uint hz"
      by (simp only: word_less_def cd u64_split_micros not_less)
    note T = wait_ticks_word[OF assms(4) this]
    define ticks where "ticks = delta div 1000000 * ucast hz + ((delta mod 1000000) * ucast hz + 999999) div 1000000"
    have ut: "uint ticks = (uint delta * uint hz + 999999) div 1000000" unfolding ticks_def by (rule T)
    have "uint (ucast ticks :: u32) = uint ticks" if "uint ticks < uint cap"
      using that c by (simp add: unsigned_ucast_eq take_bit_int_eq_self)
    then show ?thesis
      using False unfolding eq Let_def ticks_def[symmetric] by (auto simp: word_less_def cw ut ud)
  qed
qed

section \<open>The invariant of the whole owner state\<close>







context notice_sink begin

lemma wall_evaluate_sink_inv:
  assumes "wall_evaluate_with post r n owner utc blocked = (next, r', n', b')" "sink_inv n"
  shows "sink_inv n'"
proof (cases rule: wall_evaluate_cases[OF assms(1)])
  case 1
  with assms(2) show ?thesis by simp
next
  case (2 mark lb x y)
  then show ?thesis
    using post_inv[OF assms(2), of owner 0 "wr_label r" 0] by (auto simp: wall_post_def split: prod.splits if_splits)
qed

lemma wall_scan_sink_inv:
  "wall_scan post owner utc rs (n, blocked, changed, next) = (rs', n', blocked', changed', next') \<Longrightarrow> sink_inv n \<Longrightarrow> sink_inv n'"
proof (induction rs arbitrary: n blocked changed "next" rs')
  case Nil
  then show ?case by simp
next
  case (Cons r rs)
  obtain due r' n1 b1 where e: "wall_evaluate_with post r n owner utc blocked = (due, r', n1, b1)"
    by (cases "wall_evaluate_with post r n owner utc blocked") auto
  have "sink_inv n1" by (rule wall_evaluate_sink_inv[OF e Cons.prems(2)])
  with Cons.IH Cons.prems(1) e show ?case by (auto split: prod.splits)
qed

lemma wall_step_sink_inv: "sink_inv n \<Longrightarrow> sink_inv (snd (wall_step_with post revision s clk n now))"
  by (auto simp: wall_step_with_def Let_def split: prod.split dest: wall_scan_sink_inv)

end



text \<open>Between the owner's steps the callers of the services act on the parts.\<close>

datatype device_event =
    DStep device_input
  | DTone u64
  | DState state_event
  | DNotify notify_event
  | DTimer timer_event
  | DSync bool

fun device_apply :: "sys_device \<Rightarrow> device_event \<Rightarrow> sys_device" where
  "device_apply d (DStep inp) = sys_device_step d inp"
| "device_apply d (DTone now) = snd (sys_device_take_tone d now)"
| "device_apply d (DState e) = d\<lparr>dv_state := state_apply (dv_state d) e\<rparr>"
| "device_apply d (DNotify e) = d\<lparr>dv_notifications := notify_apply (dv_notifications d) e\<rparr>"
| "device_apply d (DTimer e) =
     (case timer_apply (dv_timers d, dv_notifications d) e of (t, n) \<Rightarrow> d\<lparr>dv_timers := t, dv_notifications := n\<rparr>)"
| "device_apply d (DSync v) = d\<lparr>dv_clock := sys_clock_set_synchronized (dv_clock d) v\<rparr>"


section \<open>Properties\<close>

text \<open>The bounded wait is exactly the time to the next deadline rounded up to whole
  ticks, capped: no intermediate 64-bit product wraps for any deadline, tick rate and cap, so the
  owner never wakes before the deadline by a rounding error and never sleeps past it by more than a tick.\<close>

theorem sys_device_wait_ticks_exact:
  assumes "sys_device_next_deadline d \<noteq> SYS_NEVER" "now < sys_device_next_deadline d" "hz \<noteq> 0"
  shows "uint (sys_device_wait_ticks d now cap hz) =
    min (uint cap) (((uint (sys_device_next_deadline d) - uint now) * uint hz + 999999) div 1000000)"
  by (rule wait_ticks_exact[OF refl assms])

definition device_sample :: sys_device where
  "device_sample = foldl device_apply device_zero
     [DTimer (TSet 1 (Some (ascii ''k'')) (Some (ascii ''tea'')) 2500001), DTone 0,
      DStep \<lparr>di_notify_us = 1, di_clock_us = 1, di_power_us = 1, di_wall_us = 1, di_timeofday = None,
             di_trust_seen = TRUST_UNKNOWN, di_battery = None\<rparr>]"

theorem sys_device_wait_ticks_exact_witness:
  "uint (sys_device_wait_ticks device_sample 1 5000 100) =
     min 5000 (((uint (sys_device_next_deadline device_sample) - 1) * 100 + 999999) div 1000000)"
proof -
  have "sys_device_next_deadline device_sample \<noteq> SYS_NEVER" "1 < sys_device_next_deadline device_sample" by code_simp+
  from sys_device_wait_ticks_exact[OF this, of 100 5000] show ?thesis by simp
qed


end
