(* ===== verification/ShikiHeap.thy ===== *)
theory ShikiHeap
  imports Prelude "HOL-Library.Code_Target_Nat"
begin

text \<open>
  The Shiki heap (main/pocket/shiki_heap.c and .h): one region carved by a table of at most 128
  blocks sorted by address, whose free memory is always zero.

  The region is an address (the answer of \<open>sys_region\<close>) and its contents a map from word offsets to
  32-bit words; pointers are addresses, \<open>None\<close> is NULL.  \<open>size_t\<close> is 32 bits wide as on the device,
  so the rounding of \<open>words_of\<close> may wrap.  Offsets and lengths in words are naturals, with the casts
  to 16 bits of the table written as \<open>mod\<close>.  An alignment is a power of two, for which the source's
  masking is rounding to a multiple (\<open>align_mask\<close>).  The check that an allocation is still
  zero, a host-only diagnostic, is what \<open>heap_inv\<close> proves.
\<close>

section \<open>Data\<close>

definition SHIKI_HEAP_DEFAULT_BYTES :: u32 where "SHIKI_HEAP_DEFAULT_BYTES = 48 * 1024"
definition SLOTS :: nat where "SLOTS = 128"

record blk =
  b_at :: nat
  b_words :: nat

record shiki_heap =
  hp_blocks :: "blk list"
  hp_region :: "nat option"
  hp_words :: nat
  hp_closing :: bool
  hp_mem :: "nat \<Rightarrow> u32"

definition heap_zero :: shiki_heap where
  "heap_zero = \<lparr>hp_blocks = [], hp_region = None, hp_words = 0, hp_closing = False, hp_mem = (\<lambda>_. 0)\<rparr>"

section \<open>Helpers of the source\<close>

definition words_of :: "u32 \<Rightarrow> nat" where
  "words_of n = unat ((n + 3) div 4)"

definition heap_addr :: "nat \<Rightarrow> nat \<Rightarrow> nat" where
  "heap_addr base w = base + 4 * w"

definition align_up :: "nat \<Rightarrow> nat \<Rightarrow> nat \<Rightarrow> nat" where
  "align_up base w align =
     (let a = heap_addr base w; r = (a + align - 1) div align * align in w + (r - a) div 4)"

definition align_down :: "nat \<Rightarrow> nat \<Rightarrow> nat \<Rightarrow> nat option" where
  "align_down base w align =
     (let a = heap_addr base w; r = a div align * align; back = (a - r) div 4
      in if back > w then None else Some (w - back))"

definition blk_end :: "blk \<Rightarrow> nat" where
  "blk_end b = b_at b + b_words b"

definition gap_start :: "blk list \<Rightarrow> nat \<Rightarrow> nat" where
  "gap_start bs i = (if i \<noteq> 0 then blk_end (bs ! (i - 1)) else 0)"

definition gap_end :: "blk list \<Rightarrow> nat \<Rightarrow> nat \<Rightarrow> nat" where
  "gap_end bs hi i = (if i < length bs then b_at (bs ! i) else hi)"

definition blk_insert :: "nat \<Rightarrow> nat \<Rightarrow> nat \<Rightarrow> blk list \<Rightarrow> blk list" where
  "blk_insert i at words bs =
     take i bs @ \<lparr>b_at = at mod 65536, b_words = words mod 65536\<rparr> # drop i bs"

function heap_search :: "blk list \<Rightarrow> nat \<Rightarrow> nat \<Rightarrow> nat \<Rightarrow> nat" where
  "heap_search bs w lo hi =
     (if lo < hi then
        let mid = (lo + hi) div 2
        in if b_at (bs ! mid) < w then heap_search bs w (mid + 1) hi else heap_search bs w lo mid
      else lo)"
  by pat_completeness auto
termination by (relation "measure (\<lambda>(bs, w, lo, hi). hi - lo)") auto

declare heap_search.simps [simp del]

definition shiki_heap_owns :: "shiki_heap \<Rightarrow> nat \<Rightarrow> bool" where
  "shiki_heap_owns h p =
     (case hp_region h of None \<Rightarrow> False | Some base \<Rightarrow> p \<ge> base \<and> p < base + 4 * hp_words h)"

definition heap_find :: "shiki_heap \<Rightarrow> nat \<Rightarrow> nat option" where
  "heap_find h p =
     (case hp_region h of None \<Rightarrow> None
      | Some base \<Rightarrow>
        if p < base \<or> p \<ge> base + 4 * hp_words h then None
        else if (p - base) mod 4 \<noteq> 0 then None
        else let lo = heap_search (hp_blocks h) ((p - base) div 4) 0 (length (hp_blocks h))
          in if lo < length (hp_blocks h) \<and> b_at (hp_blocks h ! lo) = (p - base) div 4 then Some lo else None)"

definition mem_zero :: "nat \<Rightarrow> nat \<Rightarrow> (nat \<Rightarrow> u32) \<Rightarrow> nat \<Rightarrow> u32" where
  "mem_zero at n mem w = (if at \<le> w \<and> w < at + n then 0 else mem w)"

definition mem_move :: "nat \<Rightarrow> nat \<Rightarrow> nat \<Rightarrow> (nat \<Rightarrow> u32) \<Rightarrow> nat \<Rightarrow> u32" where
  "mem_move dst src n mem w = (if dst \<le> w \<and> w < dst + n then mem (src + (w - dst)) else mem w)"

definition heap_place :: "nat \<Rightarrow> nat \<Rightarrow> nat \<Rightarrow> shiki_heap \<Rightarrow> nat option \<times> shiki_heap" where
  "heap_place i at words h =
     (map_option (\<lambda>base. heap_addr base at) (hp_region h), h\<lparr>hp_blocks := blk_insert i at words (hp_blocks h)\<rparr>)"

text \<open>The lowest gap that fits, and the highest: the index and the place in it.\<close>

definition low_fit :: "shiki_heap \<Rightarrow> nat \<Rightarrow> nat \<Rightarrow> nat \<Rightarrow> bool" where
  "low_fit h words align i \<longleftrightarrow>
     align_up (the (hp_region h)) (gap_start (hp_blocks h) i) align + words \<le> gap_end (hp_blocks h) (hp_words h) i"

definition high_fit :: "shiki_heap \<Rightarrow> nat \<Rightarrow> nat \<Rightarrow> nat \<Rightarrow> bool" where
  "high_fit h words align i \<longleftrightarrow>
     (let s = gap_start (hp_blocks h) i; e = gap_end (hp_blocks h) (hp_words h) i in
      if e - s < words then False
      else case align_down (the (hp_region h)) (e - words) align of None \<Rightarrow> False | Some at \<Rightarrow> at \<ge> s)"

definition alloc_low :: "shiki_heap \<Rightarrow> u32 \<Rightarrow> nat \<Rightarrow> nat option \<times> shiki_heap" where
  "alloc_low h n align =
     (let words = words_of (if n = 0 then 1 else n) in
      if length (hp_blocks h) \<ge> SLOTS \<or> words = 0 \<or> words > hp_words h then (None, h)
      else case find (low_fit h words align) [0..<length (hp_blocks h) + 1] of
        None \<Rightarrow> (None, h)
      | Some i \<Rightarrow> heap_place i (align_up (the (hp_region h)) (gap_start (hp_blocks h) i) align) words h)"

definition alloc_high :: "shiki_heap \<Rightarrow> u32 \<Rightarrow> nat \<Rightarrow> nat option \<times> shiki_heap" where
  "alloc_high h n align =
     (let words = words_of (if n = 0 then 1 else n) in
      if length (hp_blocks h) \<ge> SLOTS \<or> words = 0 \<or> words > hp_words h then (None, h)
      else case find (high_fit h words align) (rev [0..<length (hp_blocks h) + 1]) of
        None \<Rightarrow> (None, h)
      | Some i \<Rightarrow> heap_place i (the (align_down (the (hp_region h))
                     (gap_end (hp_blocks h) (hp_words h) i - words) align)) words h)"

definition heap_release :: "nat \<Rightarrow> shiki_heap \<Rightarrow> shiki_heap" where
  "heap_release i h =
     h\<lparr>hp_mem := mem_zero (b_at (hp_blocks h ! i)) (b_words (hp_blocks h ! i)) (hp_mem h),
       hp_blocks := take i (hp_blocks h) @ drop (i + 1) (hp_blocks h)\<rparr>"

definition heap_gap :: "shiki_heap \<Rightarrow> nat \<Rightarrow> nat" where
  "heap_gap h i = gap_end (hp_blocks h) (hp_words h) i - gap_start (hp_blocks h) i"

definition heap_stats :: "shiki_heap \<Rightarrow> nat \<times> nat" where
  "heap_stats h =
     (4 * sum_list (map b_words (hp_blocks h)),
      4 * fold (\<lambda>i best. if heap_gap h i > best then heap_gap h i else best) [0..<length (hp_blocks h) + 1] 0)"

definition close_region :: "shiki_heap \<Rightarrow> shiki_heap" where
  "close_region h = h\<lparr>hp_region := None, hp_words := 0, hp_blocks := [], hp_closing := False\<rparr>"

section \<open>Operations\<close>

text \<open>\<open>sys\<close> is what the system heap answers for the region.\<close>

definition shiki_heap_begin :: "shiki_heap \<Rightarrow> u32 \<Rightarrow> nat option \<Rightarrow> bool \<times> shiki_heap" where
  "shiki_heap_begin h bytes sys =
     (if hp_region h \<noteq> None then (False, h)
      else let n = (if bytes = 0 then SHIKI_HEAP_DEFAULT_BYTES else bytes) AND NOT 3 in
        if n div 4 > 0xFFFF then (False, h)
        else case sys of None \<Rightarrow> (False, h)
        | Some base \<Rightarrow> (True, h\<lparr>hp_region := Some base, hp_mem := (\<lambda>_. 0), hp_words := unat (n div 4),
                               hp_blocks := [], hp_closing := False\<rparr>))"

definition shiki_heap_end :: "shiki_heap \<Rightarrow> shiki_heap" where
  "shiki_heap_end h =
     (if hp_region h = None then h
      else if hp_blocks h = [] then close_region h else h\<lparr>hp_closing := True\<rparr>)"

definition shiki_heap_active :: "shiki_heap \<Rightarrow> bool" where
  "shiki_heap_active h \<longleftrightarrow> hp_region h \<noteq> None \<and> \<not> hp_closing h"

definition shiki_heap_free :: "shiki_heap \<Rightarrow> nat option \<Rightarrow> shiki_heap" where
  "shiki_heap_free h p =
     (case p of None \<Rightarrow> h
      | Some a \<Rightarrow>
        if \<not> shiki_heap_owns h a then h
        else case heap_find h a of None \<Rightarrow> h
          | Some i \<Rightarrow> let h1 = heap_release i h
             in if hp_closing h1 \<and> hp_blocks h1 = [] then close_region h1 else h1)"

text \<open>
  The reclaim loop of the region's own allocations.  The hook is a function of the heap (it calls
  \<open>shiki_heap_free\<close>); the fuel bounds the turns, and running out of it is \<open>None\<close>.
\<close>

fun owned_loop :: "nat \<Rightarrow> (shiki_heap \<Rightarrow> bool \<times> shiki_heap) option \<Rightarrow> shiki_heap \<Rightarrow> u32 \<Rightarrow> nat
    \<Rightarrow> (nat option \<times> shiki_heap) option" where
  "owned_loop fuel hook h n align =
     (case alloc_low h n align of
        (Some p, h1) \<Rightarrow> Some (Some p, h1)
      | (None, h1) \<Rightarrow>
        (case hook of None \<Rightarrow> Some (None, h1)
         | Some reclaim \<Rightarrow>
           (case reclaim h1 of
              (False, h2) \<Rightarrow> Some (None, h2)
            | (True, h2) \<Rightarrow> (case fuel of 0 \<Rightarrow> None | Suc k \<Rightarrow> owned_loop k hook h2 n align))))"

declare owned_loop.simps [simp del]

definition owned_alloc :: "nat \<Rightarrow> (shiki_heap \<Rightarrow> bool \<times> shiki_heap) option \<Rightarrow> shiki_heap \<Rightarrow> u32 \<Rightarrow> nat
    \<Rightarrow> (nat option \<times> shiki_heap) option" where
  "owned_alloc fuel hook h n align =
     (if \<not> shiki_heap_active h then Some (None, h) else owned_loop fuel hook h n align)"

text \<open>\<open>malign\<close> is the C compiler's \<open>_Alignof(max_align_t)\<close>.\<close>

definition shiki_heap_malloc :: "nat \<Rightarrow> nat \<Rightarrow> (shiki_heap \<Rightarrow> bool \<times> shiki_heap) option \<Rightarrow> shiki_heap \<Rightarrow> u32
    \<Rightarrow> (nat option \<times> shiki_heap) option" where
  "shiki_heap_malloc malign fuel hook h n = owned_alloc fuel hook h n malign"

definition shiki_heap_calloc :: "nat \<Rightarrow> nat \<Rightarrow> (shiki_heap \<Rightarrow> bool \<times> shiki_heap) option \<Rightarrow> shiki_heap \<Rightarrow> u32 \<Rightarrow> u32
    \<Rightarrow> (nat option \<times> shiki_heap) option" where
  "shiki_heap_calloc malign fuel hook h cnt n =
     (if n \<noteq> 0 \<and> cnt > U32_MAX div n then Some (None, h) else shiki_heap_malloc malign fuel hook h (cnt * n))"

definition shiki_heap_aligned :: "nat \<Rightarrow> (shiki_heap \<Rightarrow> bool \<times> shiki_heap) option \<Rightarrow> shiki_heap \<Rightarrow> u32
    \<Rightarrow> (nat option \<times> shiki_heap) option" where
  "shiki_heap_aligned fuel hook h n = owned_alloc fuel hook h n 16"

definition heap_set_block :: "nat \<Rightarrow> blk \<Rightarrow> shiki_heap \<Rightarrow> shiki_heap" where
  "heap_set_block i b h = h\<lparr>hp_blocks := (hp_blocks h)[i := b]\<rparr>"

definition shiki_heap_shrink :: "shiki_heap \<Rightarrow> nat \<Rightarrow> u32 \<Rightarrow> nat option \<times> shiki_heap" where
  "shiki_heap_shrink h p n =
     (if \<not> shiki_heap_owns h p \<or> n = 0 then (Some p, h)
      else case heap_find h p of None \<Rightarrow> (None, h)
      | Some i \<Rightarrow>
        let b = hp_blocks h ! i; words = words_of n in
        if words < b_words b
        then (Some p, heap_set_block i (b\<lparr>b_words := words mod 65536\<rparr>)
               (h\<lparr>hp_mem := mem_zero (b_at b + words) (b_words b - words) (hp_mem h)\<rparr>))
        else (Some p, h))"

definition shiki_heap_shrink_up :: "shiki_heap \<Rightarrow> nat \<Rightarrow> u32 \<Rightarrow> nat \<Rightarrow> nat option \<times> shiki_heap" where
  "shiki_heap_shrink_up h p n align =
     (if \<not> shiki_heap_owns h p \<or> n = 0 then (Some p, h)
      else case heap_find h p of None \<Rightarrow> (None, h)
      | Some i \<Rightarrow>
        let b = hp_blocks h ! i; words = words_of n; e = b_at b + b_words b in
        if words \<ge> b_words b then (Some p, h)
        else case align_down (the (hp_region h)) (e - words) align of
          None \<Rightarrow> shiki_heap_shrink h p n
        | Some at \<Rightarrow>
          if at \<le> b_at b then shiki_heap_shrink h p n
          else let m1 = mem_move at (b_at b) words (hp_mem h);
                   m2 = mem_zero (b_at b) (at - b_at b) m1;
                   m3 = mem_zero (at + words) (e - at - words) m2
            in (Some (heap_addr (the (hp_region h)) at),
                heap_set_block i \<lparr>b_at = at mod 65536, b_words = words mod 65536\<rparr> (h\<lparr>hp_mem := m3\<rparr>)))"

definition shiki_heap_spare :: "shiki_heap \<Rightarrow> u32 \<Rightarrow> nat \<Rightarrow> nat option \<times> shiki_heap" where
  "shiki_heap_spare h n keep =
     (if \<not> shiki_heap_active h then (None, h)
      else case alloc_high h n 16 of
        (None, h1) \<Rightarrow> (None, h1)
      | (Some p, h1) \<Rightarrow>
        if snd (heap_stats h1) < keep then (None, heap_release (the (heap_find h1 p)) h1)
        else (Some p, h1))"

definition shiki_heap_info :: "shiki_heap \<Rightarrow> nat \<times> nat \<times> nat" where
  "shiki_heap_info h = (if hp_region h = None then (0, 0, 0) else (4 * hp_words h, heap_stats h))"

section \<open>The table is sorted, disjoint and inside the region\<close>

fun fits :: "nat \<Rightarrow> blk list \<Rightarrow> nat \<Rightarrow> bool" where
  "fits lo [] hi \<longleftrightarrow> lo \<le> hi"
| "fits lo (b # bs) hi \<longleftrightarrow> lo \<le> b_at b \<and> 0 < b_words b \<and> fits (blk_end b) bs hi"

definition gap_from :: "nat \<Rightarrow> blk list \<Rightarrow> nat \<Rightarrow> nat" where
  "gap_from lo bs i = (if i \<noteq> 0 then blk_end (bs ! (i - 1)) else lo)"

lemma gap_start_from: "gap_start bs i = gap_from 0 bs i"
  by (simp add: gap_start_def gap_from_def)

lemma gap_from_Suc: "gap_from lo (b # bs) (Suc i) = gap_from (blk_end b) bs i"
  by (simp add: gap_from_def nth_Cons')

lemma gap_end_Suc: "gap_end (b # bs) hi (Suc i) = gap_end bs hi i"
  by (simp add: gap_end_def)

lemma fits_bounds: "fits lo bs hi \<Longrightarrow> lo \<le> hi"
  by (induction lo bs hi rule: fits.induct) (auto simp: blk_end_def)

lemma fits_mem: "fits lo bs hi \<Longrightarrow> b \<in> set bs \<Longrightarrow> lo \<le> b_at b \<and> 0 < b_words b \<and> blk_end b \<le> hi"
  by (induction lo bs hi rule: fits.induct) (auto simp: blk_end_def dest: fits_bounds)

lemma fits_insert:
  assumes "fits lo bs hi" "i \<le> length bs" "gap_from lo bs i \<le> b_at b" "0 < b_words b" "blk_end b \<le> gap_end bs hi i"
  shows "fits lo (take i bs @ b # drop i bs) hi"
  using assms
proof (induction bs arbitrary: lo i)
  case Nil
  then show ?case by (simp add: gap_from_def gap_end_def)
next
  case (Cons c cs)
  show ?case
  proof (cases i)
    case 0
    with Cons.prems show ?thesis by (simp add: gap_from_def gap_end_def)
  next
    case (Suc k)
    with Cons show ?thesis by (simp add: gap_from_Suc gap_end_Suc)
  qed
qed

lemma fits_lower: "fits lo bs hi \<Longrightarrow> lo' \<le> lo \<Longrightarrow> fits lo' bs hi"
  by (cases bs) auto

lemma fits_remove: "fits lo bs hi \<Longrightarrow> i < length bs \<Longrightarrow> fits lo (take i bs @ drop (i + 1) bs) hi"
proof (induction bs arbitrary: lo i)
  case Nil
  then show ?case by simp
next
  case (Cons c cs)
  then show ?case
    by (cases i) (auto simp: blk_end_def intro: fits_lower)
qed

lemma fits_inside:
  "fits lo bs hi \<Longrightarrow> i < length bs \<Longrightarrow> b_at (bs ! i) \<le> b_at b \<Longrightarrow> 0 < b_words b \<Longrightarrow> blk_end b \<le> blk_end (bs ! i)
   \<Longrightarrow> fits lo (bs[i := b]) hi"
proof (induction bs arbitrary: lo i)
  case Nil
  then show ?case by simp
next
  case (Cons c cs)
  then show ?case by (cases i) (auto intro: fits_lower)
qed

lemma fits_sorted:
  "fits lo bs hi \<Longrightarrow> i < j \<Longrightarrow> j < length bs \<Longrightarrow> blk_end (bs ! i) \<le> b_at (bs ! j)"
proof (induction bs arbitrary: lo i j)
  case Nil
  then show ?case by simp
next
  case (Cons c cs)
  then obtain k where k: "j = Suc k" by (cases j) auto
  show ?case
  proof (cases i)
    case 0
    then show ?thesis using Cons.prems k fits_mem[of "blk_end c" cs hi "cs ! k"] by simp
  next
    case (Suc m)
    then show ?thesis using Cons.IH[of "blk_end c" m k] Cons.prems k by simp
  qed
qed

lemma fits_nth: "fits lo bs hi \<Longrightarrow> i < length bs \<Longrightarrow> lo \<le> b_at (bs ! i) \<and> 0 < b_words (bs ! i) \<and> blk_end (bs ! i) \<le> hi"
  using fits_mem nth_mem by metis

lemma fits_less: "fits lo bs hi \<Longrightarrow> i < j \<Longrightarrow> j < length bs \<Longrightarrow> b_at (bs ! i) < b_at (bs ! j)"
  using fits_sorted[of lo bs hi i j] fits_nth[of lo bs hi i] by (simp add: blk_end_def)

text \<open>The words a table covers.\<close>

definition covers :: "blk \<Rightarrow> nat \<Rightarrow> bool" where
  "covers b w \<longleftrightarrow> b_at b \<le> w \<and> w < blk_end b"

definition covered :: "blk list \<Rightarrow> nat \<Rightarrow> bool" where
  "covered bs w \<longleftrightarrow> (\<exists>b \<in> set bs. covers b w)"

lemma fits_disjoint:
  assumes f: "fits lo bs hi" and i: "i < length bs" "j < length bs" and w: "covers (bs ! i) w" "covers (bs ! j) w"
  shows "i = j"
proof (rule ccontr)
  assume "i \<noteq> j"
  then consider "i < j" | "j < i" by linarith
  then show False
  proof cases
    case 1
    from fits_sorted[OF f this i(2)] w show False by (simp add: covers_def)
  next
    case 2
    from fits_sorted[OF f this i(1)] w show False by (simp add: covers_def)
  qed
qed

lemma fits_gap_free:
  assumes f: "fits lo bs hi" and i: "i \<le> length bs" and w: "gap_from lo bs i \<le> w" "w < gap_end bs hi i"
  shows "\<not> covered bs w"
proof
  assume "covered bs w"
  then obtain j where j: "j < length bs" "covers (bs ! j) w" by (auto simp: covered_def in_set_conv_nth)
  show False
  proof (cases "j < i")
    case True
    then have "j = i - 1 \<or> j < i - 1" "i - 1 < length bs" "i \<noteq> 0" using i by linarith+
    then have "blk_end (bs ! j) \<le> gap_from lo bs i"
      using fits_sorted[OF f, of j "i - 1"] fits_nth[OF f, of "i - 1"] by (auto simp: gap_from_def blk_end_def)
    with j w show False by (simp add: covers_def)
  next
    case False
    then have "gap_end bs hi i \<le> b_at (bs ! j)"
      using fits_less[OF f, of i j] j by (cases "i = j") (auto simp: gap_end_def)
    with j w show False by (simp add: covers_def)
  qed
qed

section \<open>The binary search\<close>

lemma heap_search_spec:
  assumes "\<forall>i j. i < j \<longrightarrow> j < n \<longrightarrow> b_at (bs ! i) < b_at (bs ! j)" "hi \<le> n" "lo \<le> hi"
  shows "(\<forall>i. lo \<le> i \<longrightarrow> i < heap_search bs w lo hi \<longrightarrow> b_at (bs ! i) < w) \<and>
    (\<forall>i. heap_search bs w lo hi \<le> i \<longrightarrow> i < hi \<longrightarrow> w \<le> b_at (bs ! i)) \<and>
    lo \<le> heap_search bs w lo hi \<and> heap_search bs w lo hi \<le> hi"
  using assms
proof (induction bs w lo hi rule: heap_search.induct)
  case (1 bs w lo hi)
  show ?case
  proof (cases "lo < hi")
    case False
    then show ?thesis using 1(5) by (subst (1 2 3 4) heap_search.simps) auto
  next
    case True
    let ?m = "(lo + hi) div 2"
    have m: "lo \<le> ?m" "?m < hi" using True by auto
    show ?thesis
    proof (cases "b_at (bs ! ?m) < w")
      case less: True
      have eq: "heap_search bs w lo hi = heap_search bs w (?m + 1) hi"
        using True less by (subst heap_search.simps) (simp add: Let_def)
      have IH: "(\<forall>i. ?m + 1 \<le> i \<longrightarrow> i < heap_search bs w (?m + 1) hi \<longrightarrow> b_at (bs ! i) < w) \<and>
          (\<forall>i. heap_search bs w (?m + 1) hi \<le> i \<longrightarrow> i < hi \<longrightarrow> w \<le> b_at (bs ! i)) \<and>
          ?m + 1 \<le> heap_search bs w (?m + 1) hi \<and> heap_search bs w (?m + 1) hi \<le> hi"
        using 1(1)[OF True refl less 1(3,4)] m by simp
      have "b_at (bs ! i) < w" if "i \<le> ?m" for i
      proof (cases "i = ?m")
        case True
        with less show ?thesis by simp
      next
        case False
        with that have "b_at (bs ! i) < b_at (bs ! ?m)" using 1(3,4) m by simp
        with less show ?thesis by simp
      qed
      then have "b_at (bs ! i) < w" if "lo \<le> i" "i < heap_search bs w (?m + 1) hi" for i
        using that IH by (cases "i \<le> ?m") auto
      then show ?thesis unfolding eq using IH m by simp
    next
      case ge: False
      have eq: "heap_search bs w lo hi = heap_search bs w lo ?m"
        using True ge by (subst heap_search.simps) (simp add: Let_def)
      have IH: "(\<forall>i. lo \<le> i \<longrightarrow> i < heap_search bs w lo ?m \<longrightarrow> b_at (bs ! i) < w) \<and>
          (\<forall>i. heap_search bs w lo ?m \<le> i \<longrightarrow> i < ?m \<longrightarrow> w \<le> b_at (bs ! i)) \<and>
          lo \<le> heap_search bs w lo ?m \<and> heap_search bs w lo ?m \<le> ?m"
        using 1(2)[OF True refl ge 1(3)] 1(4) m by simp
      have "w \<le> b_at (bs ! i)" if "?m \<le> i" "i < hi" for i
      proof (cases "i = ?m")
        case True
        with ge show ?thesis by simp
      next
        case False
        with that have "b_at (bs ! ?m) < b_at (bs ! i)" using 1(3,4) by simp
        with ge show ?thesis by simp
      qed
      then have "w \<le> b_at (bs ! i)" if "heap_search bs w lo ?m \<le> i" "i < hi" for i
        using that IH by (cases "?m \<le> i") auto
      then show ?thesis unfolding eq using IH m by simp
    qed
  qed
qed

lemma heap_search_hit:
  assumes f: "fits lo bs hi" and i: "i < length bs"
  shows "heap_search bs (b_at (bs ! i)) 0 (length bs) = i"
proof -
  have s: "\<forall>i j. i < j \<longrightarrow> j < length bs \<longrightarrow> b_at (bs ! i) < b_at (bs ! j)" using fits_less[OF f] by blast
  let ?r = "heap_search bs (b_at (bs ! i)) 0 (length bs)"
  note S = heap_search_spec[OF s order_refl le0, of "b_at (bs ! i)"]
  have "\<not> i < ?r" using S by (metis le0 less_irrefl)
  moreover have "\<not> ?r < i"
  proof
    assume "?r < i"
    then have "b_at (bs ! ?r) < b_at (bs ! i)" using s i by simp
    then show False using S \<open>?r < i\<close> i by (metis leD le_refl less_trans)
  qed
  ultimately show ?thesis by simp
qed

section \<open>The heap invariant\<close>

definition heap_inv :: "shiki_heap \<Rightarrow> bool" where
  "heap_inv h \<longleftrightarrow>
     (if hp_region h = None then hp_blocks h = [] \<and> hp_words h = 0 \<and> \<not> hp_closing h
      else hp_words h < 65536 \<and> length (hp_blocks h) \<le> SLOTS \<and> fits 0 (hp_blocks h) (hp_words h) \<and>
           (\<forall>w < hp_words h. \<not> covered (hp_blocks h) w \<longrightarrow> hp_mem h w = 0) \<and>
           (hp_closing h \<longrightarrow> hp_blocks h \<noteq> []))"

lemma heap_invD:
  assumes "heap_inv h"
  shows "fits 0 (hp_blocks h) (hp_words h)" "hp_words h < 65536" "length (hp_blocks h) \<le> SLOTS"
    "w < hp_words h \<Longrightarrow> \<not> covered (hp_blocks h) w \<Longrightarrow> hp_mem h w = 0"
    "hp_region h = None \<Longrightarrow> hp_blocks h = []"
  using assms by (auto simp: heap_inv_def SLOTS_def split: if_splits)

lemma covered_split: "covered (xs @ b # ys) w \<longleftrightarrow> covers b w \<or> covered (xs @ ys) w"
  by (auto simp: covered_def)

lemma covered_take_drop: "i < length bs \<Longrightarrow> covered bs w \<longleftrightarrow> covers (bs ! i) w \<or> covered (take i bs @ drop (i + 1) bs) w"
  by (subst id_take_nth_drop[of i bs]) (simp_all add: covered_split)

lemma covered_update:
  assumes "i < length bs"
  shows "covered (bs[i := b]) w \<longleftrightarrow> covers b w \<or> covered (take i bs @ drop (i + 1) bs) w"
  using assms by (simp add: upd_conv_take_nth_drop covered_split)

lemma fits_others:
  assumes f: "fits lo bs hi" and i: "i < length bs" and w: "covered (take i bs @ drop (i + 1) bs) w"
  shows "\<not> covers (bs ! i) w"
proof -
  obtain b where b: "b \<in> set (take i bs @ drop (i + 1) bs)" "covers b w" using w by (auto simp: covered_def)
  have "\<exists>j < length bs. j \<noteq> i \<and> b = bs ! j"
  proof (cases "b \<in> set (take i bs)")
    case True
    then obtain j where "j < i" "b = bs ! j" using i by (auto simp: in_set_conv_nth)
    with i show ?thesis by (intro exI[of _ j]) simp
  next
    case False
    with b have "b \<in> set (drop (i + 1) bs)" by simp
    then obtain k where "k < length bs - (i + 1)" "b = bs ! (i + 1 + k)" using i by (auto simp: in_set_conv_nth)
    then show ?thesis by (intro exI[of _ "i + 1 + k"]) simp
  qed
  then show ?thesis using fits_disjoint[OF f i, of _ w] b(2) by blast
qed

lemma heap_place_inv:
  assumes inv: "heap_inv h" and reg: "hp_region h = Some base" and room: "length (hp_blocks h) < SLOTS"
    and i: "i \<le> length (hp_blocks h)" "gap_start (hp_blocks h) i \<le> at" "0 < words"
      "at + words \<le> gap_end (hp_blocks h) (hp_words h) i"
  shows "heap_inv (snd (heap_place i at words h)) \<and> fst (heap_place i at words h) = Some (base + 4 * at) \<and>
    hp_blocks (snd (heap_place i at words h)) =
      take i (hp_blocks h) @ \<lparr>b_at = at, b_words = words\<rparr> # drop i (hp_blocks h) \<and> at + words \<le> hp_words h \<and>
    (\<forall>w. at \<le> w \<longrightarrow> w < at + words \<longrightarrow> \<not> covered (hp_blocks h) w)"
proof -
  let ?b = "\<lparr>b_at = at, b_words = words\<rparr>"
  note D = heap_invD[OF inv]
  have top: "gap_end (hp_blocks h) (hp_words h) i \<le> hp_words h"
    using fits_nth[OF D(1), of i] by (auto simp: gap_end_def blk_end_def)
  then have le: "at + words \<le> hp_words h" using i by simp
  then have m: "at mod 65536 = at" "words mod 65536 = words" using D(2) i(3) by simp_all
  have f: "fits 0 (take i (hp_blocks h) @ ?b # drop i (hp_blocks h)) (hp_words h)"
    using i by (intro fits_insert[OF D(1)]) (simp_all add: gap_start_from blk_end_def)
  have free: "\<not> covered (hp_blocks h) w" if "at \<le> w" "w < at + words" for w
    using that i by (intro fits_gap_free[OF D(1), of i]) (simp_all add: gap_start_from)
  have cov: "covered (take i (hp_blocks h) @ ?b # drop i (hp_blocks h)) w \<longleftrightarrow> covers ?b w \<or> covered (hp_blocks h) w" for w
    by (simp add: covered_split)
  show ?thesis
    using reg room f le D(2,4) free i(3) inv
    by (auto simp: heap_place_def blk_insert_def m heap_inv_def cov heap_addr_def covers_def)
qed

lemma align_up_ge: "w \<le> align_up base w align"
  by (simp add: align_up_def Let_def)

lemma align_down_le: "align_down base w align = Some at \<Longrightarrow> at \<le> w"
  by (auto simp: align_down_def Let_def split: if_splits)

lemma alloc_low_None: "alloc_low h n align = (None, t) \<Longrightarrow> t = h \<or> hp_region h = None"
  by (auto simp: alloc_low_def Let_def heap_place_def split: if_splits option.splits)

lemma find_SomeD: "find P xs = Some x \<Longrightarrow> x \<in> set xs \<and> P x"
  by (induction xs) (auto split: if_splits)

lemma find_upt_SomeD: "find P [0..<n + 1] = Some i \<Longrightarrow> i \<le> n \<and> P i"
  using find_SomeD[of P "[0..<n + 1]" i] by auto

lemma find_rev_SomeD: "find P (rev [0..<n + 1]) = Some i \<Longrightarrow> i \<le> n \<and> P i"
  using find_SomeD[of P "rev [0..<n + 1]" i] by auto

text \<open>What every successful allocation does.\<close>

definition allocates :: "shiki_heap \<Rightarrow> u32 \<Rightarrow> nat \<Rightarrow> shiki_heap \<Rightarrow> nat \<Rightarrow> bool" where
  "allocates h n p h' at \<longleftrightarrow>
     (let words = words_of (if n = 0 then 1 else n) in
      heap_inv h' \<and> hp_region h' = hp_region h \<and> hp_mem h' = hp_mem h \<and> hp_words h' = hp_words h \<and>
      hp_closing h' = hp_closing h \<and> p = the (hp_region h) + 4 * at \<and> 0 < words \<and> at + words \<le> hp_words h \<and>
      (\<forall>w. at \<le> w \<longrightarrow> w < at + words \<longrightarrow> \<not> covered (hp_blocks h) w) \<and>
      set (hp_blocks h') = insert \<lparr>b_at = at, b_words = words\<rparr> (set (hp_blocks h)) \<and>
      length (hp_blocks h') = Suc (length (hp_blocks h)))"

lemma heap_place_allocates:
  assumes "heap_inv h" "hp_region h = Some base" "length (hp_blocks h) < SLOTS"
    and "i \<le> length (hp_blocks h)" "gap_start (hp_blocks h) i \<le> at" "0 < words_of (if n = 0 then 1 else n)"
      "at + words_of (if n = 0 then 1 else n) \<le> gap_end (hp_blocks h) (hp_words h) i"
    and "heap_place i at (words_of (if n = 0 then 1 else n)) h = (Some p, t)"
  shows "allocates h n p t at"
proof -
  note P = heap_place_inv[OF assms(1-7)]
  have frame: "hp_region t = hp_region h" "hp_mem t = hp_mem h" "hp_words t = hp_words h" "hp_closing t = hp_closing h"
    using assms(8) by (auto simp: heap_place_def)
  have "set (take i (hp_blocks h)) \<union> set (drop i (hp_blocks h)) = set (hp_blocks h)"
    by (metis append_take_drop_id set_append)
  then show ?thesis
    using P assms(2,4,6,8) frame by (simp add: allocates_def Let_def)
qed

lemma alloc_low_Some:
  assumes inv: "heap_inv h" and reg: "hp_region h = Some base" and a: "alloc_low h n align = (Some p, t)"
  shows "\<exists>at. allocates h n p t at \<and> (\<exists>i. at = align_up base (gap_start (hp_blocks h) i) align)"
proof -
  let ?w = "words_of (if n = 0 then 1 else n)"
  have room: "length (hp_blocks h) < SLOTS" "0 < ?w" "?w \<le> hp_words h"
    using a by (auto simp: alloc_low_def Let_def split: if_splits)
  then obtain i where f: "find (low_fit h ?w align) [0..<length (hp_blocks h) + 1] = Some i"
    and pl: "heap_place i (align_up base (gap_start (hp_blocks h) i) align) ?w h = (Some p, t)"
    using a reg by (auto simp: alloc_low_def Let_def split: if_splits option.splits)
  have I: "i \<le> length (hp_blocks h)"
    "align_up base (gap_start (hp_blocks h) i) align + ?w \<le> gap_end (hp_blocks h) (hp_words h) i"
    using find_upt_SomeD[OF f] reg by (auto simp: low_fit_def)
  from heap_place_allocates[OF inv reg room(1) I(1) align_up_ge room(2) I(2) pl] show ?thesis by blast
qed

lemma alloc_high_Some:
  assumes inv: "heap_inv h" and reg: "hp_region h = Some base" and a: "alloc_high h n align = (Some p, t)"
  shows "\<exists>at. allocates h n p t at"
proof -
  let ?w = "words_of (if n = 0 then 1 else n)"
  have room: "length (hp_blocks h) < SLOTS" "0 < ?w" "?w \<le> hp_words h"
    using a by (auto simp: alloc_high_def Let_def split: if_splits)
  then obtain i where f: "find (high_fit h ?w align) (rev [0..<length (hp_blocks h) + 1]) = Some i"
    and pl: "heap_place i (the (align_down base (gap_end (hp_blocks h) (hp_words h) i - ?w) align)) ?w h = (Some p, t)"
    using a reg by (auto simp: alloc_high_def Let_def split: if_splits option.splits)
  let ?e = "gap_end (hp_blocks h) (hp_words h) i" and ?s = "gap_start (hp_blocks h) i"
  have I: "i \<le> length (hp_blocks h)" "high_fit h ?w align i" using find_rev_SomeD[OF f] by auto
  then obtain at where at: "align_down base (?e - ?w) align = Some at" "?s \<le> at" "?w \<le> ?e - ?s"
    using reg by (auto simp: high_fit_def Let_def split: if_splits option.splits)
  then have "at + ?w \<le> ?e" using align_down_le[OF at(1)] room(2) by linarith
  from heap_place_allocates[OF inv reg room(1) I(1) at(2) room(2) this] pl at(1) show ?thesis by auto
qed

section \<open>Lookup and release\<close>

lemma heap_find_SomeD:
  assumes inv: "heap_inv h" and f: "heap_find h p = Some i"
  shows "\<exists>base. hp_region h = Some base \<and> i < length (hp_blocks h) \<and> p = base + 4 * b_at (hp_blocks h ! i)"
proof -
  obtain base where reg: "hp_region h = Some base" using f by (auto simp: heap_find_def split: option.splits)
  have p: "base \<le> p" "(p - base) mod 4 = 0" "i < length (hp_blocks h)" "b_at (hp_blocks h ! i) = (p - base) div 4"
    using f reg by (auto simp: heap_find_def Let_def split: if_splits)
  then have "4 * b_at (hp_blocks h ! i) = p - base" using mult_div_mod_eq[of 4 "p - base"] by simp
  with reg p show ?thesis by simp
qed

lemma heap_find_hit:
  assumes inv: "heap_inv h" and reg: "hp_region h = Some base" and i: "i < length (hp_blocks h)"
  shows "heap_find h (base + 4 * b_at (hp_blocks h ! i)) = Some i \<and> shiki_heap_owns h (base + 4 * b_at (hp_blocks h ! i))"
proof -
  note N = fits_nth[OF heap_invD(1)[OF inv] i]
  then have "b_at (hp_blocks h ! i) < hp_words h" by (simp add: blk_end_def)
  then show ?thesis
    using reg i heap_search_hit[OF heap_invD(1)[OF inv] i] by (simp add: heap_find_def Let_def shiki_heap_owns_def)
qed

lemma heap_release_frame [simp]:
  "hp_region (heap_release i h) = hp_region h" "hp_words (heap_release i h) = hp_words h"
  "hp_closing (heap_release i h) = hp_closing h"
  "hp_blocks (heap_release i h) = take i (hp_blocks h) @ drop (i + 1) (hp_blocks h)"
  by (simp_all add: heap_release_def)

text \<open>The table without one block; \<open>heap_core\<close> is the invariant less the closing clause.\<close>

definition heap_core :: "shiki_heap \<Rightarrow> bool" where
  "heap_core h \<longleftrightarrow> hp_words h < 65536 \<and> length (hp_blocks h) \<le> SLOTS \<and> fits 0 (hp_blocks h) (hp_words h) \<and>
     (\<forall>w < hp_words h. \<not> covered (hp_blocks h) w \<longrightarrow> hp_mem h w = 0)"

lemma heap_inv_core: "hp_region h \<noteq> None \<Longrightarrow> heap_inv h \<longleftrightarrow> heap_core h \<and> (hp_closing h \<longrightarrow> hp_blocks h \<noteq> [])"
  by (auto simp: heap_inv_def heap_core_def)

lemma heap_inv_coreD: "heap_inv h \<Longrightarrow> heap_core h"
  by (auto simp: heap_inv_def heap_core_def SLOTS_def split: if_splits)

lemma heap_release_core:
  assumes inv: "heap_inv h" and i: "i < length (hp_blocks h)"
  shows "heap_core (heap_release i h)"
proof -
  note D = heap_invD[OF inv]
  let ?bs = "take i (hp_blocks h) @ drop (i + 1) (hp_blocks h)"
  have "hp_mem (heap_release i h) w = 0" if "w < hp_words h" "\<not> covered ?bs w" for w
  proof (cases "covers (hp_blocks h ! i) w")
    case True
    then show ?thesis by (simp add: heap_release_def mem_zero_def covers_def blk_end_def)
  next
    case False
    then have "\<not> covered (hp_blocks h) w" using that(2) covered_take_drop[OF i] by simp
    then show ?thesis using D(4)[OF that(1)] by (simp add: heap_release_def mem_zero_def)
  qed
  then show ?thesis
    using D(2,3) fits_remove[OF D(1) i] i by (simp add: heap_core_def)
qed

lemma shiki_heap_free_cases:
  assumes inv: "heap_inv h"
  obtains (none) "shiki_heap_free h p = h"
  | (some) base i where "hp_region h = Some base" "i < length (hp_blocks h)" "p = Some (base + 4 * b_at (hp_blocks h ! i))"
      "shiki_heap_free h p = (let h1 = heap_release i h in if hp_closing h1 \<and> hp_blocks h1 = [] then close_region h1 else h1)"
proof (cases "\<exists>a i. p = Some a \<and> shiki_heap_owns h a \<and> heap_find h a = Some i")
  case True
  then obtain a i where a: "p = Some a" "shiki_heap_owns h a" "heap_find h a = Some i" by blast
  from heap_find_SomeD[OF inv a(3)] a some show ?thesis by (auto simp: shiki_heap_free_def)
next
  case False
  then have "shiki_heap_free h p = h" by (auto simp: shiki_heap_free_def split: option.split)
  then show ?thesis by (rule none)
qed

lemma close_region_inv: "heap_inv (close_region h)"
  by (simp add: close_region_def heap_inv_def)

lemma shiki_heap_free_inv: "heap_inv h \<Longrightarrow> heap_inv (shiki_heap_free h p)"
proof -
  assume inv: "heap_inv h"
  show ?thesis
  proof (cases rule: shiki_heap_free_cases[OF inv, of p])
    case 1
    with inv show ?thesis by simp
  next
    case (2 base i)
    with heap_release_core[OF inv 2(2)] show ?thesis
      by (simp add: Let_def close_region_inv) (simp add: heap_inv_core)
  qed
qed

section \<open>Shrinking\<close>

lemma heap_shrunk_inv:
  assumes inv: "heap_inv h" and i: "i < length (hp_blocks h)" and b: "b_at (hp_blocks h ! i) \<le> b_at b" "0 < b_words b"
      "blk_end b \<le> blk_end (hp_blocks h ! i)"
    and out: "\<And>w. \<not> covers (hp_blocks h ! i) w \<Longrightarrow> m w = hp_mem h w"
    and tail: "\<And>w. covers (hp_blocks h ! i) w \<Longrightarrow> \<not> covers b w \<Longrightarrow> m w = 0"
  shows "heap_inv (heap_set_block i b (h\<lparr>hp_mem := m\<rparr>))"
proof -
  note D = heap_invD[OF inv]
  have reg: "hp_region h \<noteq> None" using D(5) i by (cases "hp_region h = None") auto
  have "m w = 0" if "w < hp_words h" "\<not> covered ((hp_blocks h)[i := b]) w" for w
  proof (cases "covers (hp_blocks h ! i) w")
    case True
    with that tail show ?thesis by (simp add: covered_update[OF i])
  next
    case False
    then have "\<not> covered (hp_blocks h) w" using that(2) by (simp add: covered_update[OF i] covered_take_drop[OF i])
    with out[OF False] D(4)[OF that(1)] show ?thesis by simp
  qed
  then show ?thesis
    using inv reg fits_inside[OF D(1) i b] i by (auto simp: heap_inv_def heap_set_block_def)
qed

lemma words_of_less: "n \<noteq> 0 \<Longrightarrow> words_of n < w \<Longrightarrow> w < 65536 \<Longrightarrow> words_of n mod 65536 = words_of n"
  by simp


text \<open>A request of \<open>n\<close> bytes below the size of a block never rounds to zero words.\<close>

lemma shiki_heap_shrink_inv:
  assumes inv: "heap_inv h" and pos: "0 < words_of n"
  shows "heap_inv (snd (shiki_heap_shrink h p n))"
proof (cases "\<exists>i. shiki_heap_owns h p \<and> n \<noteq> 0 \<and> heap_find h p = Some i \<and> words_of n < b_words (hp_blocks h ! i)")
  case False
  then show ?thesis using inv by (auto simp: shiki_heap_shrink_def Let_def split: option.split)
next
  case True
  then obtain i where c: "shiki_heap_owns h p" "n \<noteq> 0" "heap_find h p = Some i" "words_of n < b_words (hp_blocks h ! i)" by blast
  have i: "i < length (hp_blocks h)" using heap_find_SomeD[OF inv c(3)] by blast
  let ?b = "hp_blocks h ! i"
  have le: "blk_end ?b \<le> hp_words h" using fits_nth[OF heap_invD(1)[OF inv] i] by simp
  then have m: "words_of n mod 65536 = words_of n" using c(4) heap_invD(2)[OF inv] by (simp add: blk_end_def)
  have "heap_inv (heap_set_block i (?b\<lparr>b_words := words_of n\<rparr>)
      (h\<lparr>hp_mem := mem_zero (b_at ?b + words_of n) (b_words ?b - words_of n) (hp_mem h)\<rparr>))"
    using c(4) pos by (intro heap_shrunk_inv[OF inv i]) (auto simp: blk_end_def covers_def mem_zero_def)
  then show ?thesis using c m by (simp add: shiki_heap_shrink_def Let_def)
qed

lemma shiki_heap_shrink_up_inv:
  assumes inv: "heap_inv h" and pos: "0 < words_of n"
  shows "heap_inv (snd (shiki_heap_shrink_up h p n align))"
proof (cases "\<exists>i at. shiki_heap_owns h p \<and> n \<noteq> 0 \<and> heap_find h p = Some i \<and> words_of n < b_words (hp_blocks h ! i) \<and>
    align_down (the (hp_region h)) (blk_end (hp_blocks h ! i) - words_of n) align = Some at \<and> b_at (hp_blocks h ! i) < at")
  case False
  then show ?thesis
    using inv shiki_heap_shrink_inv[OF inv pos]
    by (auto simp: shiki_heap_shrink_up_def Let_def blk_end_def split: option.split)
next
  case True
  then obtain i at where c: "shiki_heap_owns h p" "n \<noteq> 0" "heap_find h p = Some i" "words_of n < b_words (hp_blocks h ! i)"
      "align_down (the (hp_region h)) (blk_end (hp_blocks h ! i) - words_of n) align = Some at"
      "b_at (hp_blocks h ! i) < at" by blast
  have i: "i < length (hp_blocks h)" using heap_find_SomeD[OF inv c(3)] by blast
  let ?b = "hp_blocks h ! i"
  let ?c = "\<lparr>b_at = at, b_words = words_of n\<rparr>"
  let ?m = "mem_zero (at + words_of n) (blk_end ?b - at - words_of n)
     (mem_zero (b_at ?b) (at - b_at ?b) (mem_move at (b_at ?b) (words_of n) (hp_mem h)))"
  have le: "blk_end ?b \<le> hp_words h" using fits_nth[OF heap_invD(1)[OF inv] i] by simp
  have top: "at + words_of n \<le> blk_end ?b" using align_down_le[OF c(5)] c(4) by (simp add: blk_end_def)
  then have m: "words_of n mod 65536 = words_of n" "at mod 65536 = at"
    using heap_invD(2)[OF inv] le pos by simp_all
  have "heap_inv (heap_set_block i ?c (h\<lparr>hp_mem := ?m\<rparr>))"
    using c(4,6) pos top
    by (intro heap_shrunk_inv[OF inv i]) (auto simp: blk_end_def covers_def mem_zero_def mem_move_def)
  then show ?thesis using c m by (simp add: shiki_heap_shrink_up_def Let_def blk_end_def)
qed

section \<open>The heap as a machine\<close>

text \<open>
  The calls of the clients and their stores into live blocks.  A client gives back the end of a block
  with a size whose rounding does not wrap; the reclaim hook is the frees between two attempts.
\<close>

datatype heap_event =
    HBegin u32 "nat option"
  | HEnd
  | HAlloc u32 nat
  | HFree "nat option"
  | HShrink nat u32
  | HShrinkUp nat u32 nat
  | HSpare u32 nat
  | HWrite nat u32

fun heap_apply :: "shiki_heap \<Rightarrow> heap_event \<Rightarrow> shiki_heap" where
  "heap_apply h (HBegin bytes sys) = snd (shiki_heap_begin h bytes sys)"
| "heap_apply h HEnd = shiki_heap_end h"
| "heap_apply h (HAlloc n align) = (if shiki_heap_active h then snd (alloc_low h n align) else h)"
| "heap_apply h (HFree p) = shiki_heap_free h p"
| "heap_apply h (HShrink p n) = (if 0 < words_of n then snd (shiki_heap_shrink h p n) else h)"
| "heap_apply h (HShrinkUp p n align) = (if 0 < words_of n then snd (shiki_heap_shrink_up h p n align) else h)"
| "heap_apply h (HSpare n keep) = snd (shiki_heap_spare h n keep)"
| "heap_apply h (HWrite w v) = (if covered (hp_blocks h) w then h\<lparr>hp_mem := (hp_mem h)(w := v)\<rparr> else h)"

lemma heap_zero_inv: "heap_inv heap_zero"
  by (simp add: heap_zero_def heap_inv_def)

lemma shiki_heap_begin_inv: "heap_inv h \<Longrightarrow> heap_inv (snd (shiki_heap_begin h bytes sys))"
proof -
  assume inv: "heap_inv h"
  have w: "unat (x :: u32) < 65536" if "\<not> x > 0xFFFF" for x
    using that by (simp add: word_less_nat_alt not_less word_le_nat_alt)
  show ?thesis
    using inv w by (auto simp: shiki_heap_begin_def Let_def heap_inv_def covered_def SLOTS_def split: option.split)
qed

lemma alloc_low_inv: "heap_inv h \<Longrightarrow> hp_region h = Some base \<Longrightarrow> heap_inv (snd (alloc_low h n align))"
proof -
  assume inv: "heap_inv h" and reg: "hp_region h = Some base"
  obtain r t where a: "alloc_low h n align = (r, t)" by fastforce
  show ?thesis
  proof (cases r)
    case None
    with a alloc_low_None inv reg show ?thesis by fastforce
  next
    case (Some p)
    with a alloc_low_Some[OF inv reg] show ?thesis by (fastforce simp: allocates_def Let_def)
  qed
qed

lemma allocates_find:
  assumes a: "allocates h n p t at" and reg: "hp_region h = Some base"
  shows "\<exists>i. heap_find t p = Some i \<and> i < length (hp_blocks t) \<and> b_at (hp_blocks t ! i) = at \<and> shiki_heap_owns t p"
proof -
  let ?b = "\<lparr>b_at = at, b_words = words_of (if n = 0 then 1 else n)\<rparr>"
  have "?b \<in> set (hp_blocks t)" using a by (simp add: allocates_def Let_def)
  then obtain i where i: "i < length (hp_blocks t)" "hp_blocks t ! i = ?b" by (auto simp: in_set_conv_nth)
  have "heap_inv t" "hp_region t = Some base" "p = base + 4 * at"
    using a reg by (simp_all add: allocates_def Let_def)
  from heap_find_hit[OF this(1,2) i(1)] this(3) i show ?thesis by simp
qed

lemma shiki_heap_spare_inv: "heap_inv h \<Longrightarrow> heap_inv (snd (shiki_heap_spare h n keep))"
proof -
  assume inv: "heap_inv h"
  show ?thesis
  proof (cases "shiki_heap_active h")
    case False
    with inv show ?thesis by (simp add: shiki_heap_spare_def)
  next
    case True
    then obtain base where reg: "hp_region h = Some base" and live: "\<not> hp_closing h"
      by (auto simp: shiki_heap_active_def)
    obtain r t where a: "alloc_high h n 16 = (r, t)" by fastforce
    show ?thesis
    proof (cases r)
      case None
      with a reg have "t = h" by (auto simp: alloc_high_def Let_def heap_place_def split: if_splits option.splits)
      with True a None inv show ?thesis by (simp add: shiki_heap_spare_def)
    next
      case (Some p)
      with a alloc_high_Some[OF inv reg] obtain at where al: "allocates h n p t at" by blast
      then have t: "heap_inv t" "hp_region t = Some base" "\<not> hp_closing t"
        using reg live by (simp_all add: allocates_def Let_def)
      obtain i where i: "heap_find t p = Some i" "i < length (hp_blocks t)" using allocates_find[OF al reg] by blast
      have "heap_inv (heap_release i t)"
        using heap_release_core[OF t(1) i(2)] t by (simp add: heap_inv_core)
      with True a Some i t show ?thesis by (simp add: shiki_heap_spare_def)
    qed
  qed
qed

interpretation heap_run: started_machine heap_apply heap_inv heap_zero
proof unfold_locales
  fix h e assume inv: "heap_inv h"
  show "heap_inv (heap_apply h e)"
  proof (cases e)
    case (HAlloc n align)
    with inv show ?thesis by (auto simp: shiki_heap_active_def alloc_low_inv)
  next
    case (HWrite w v)
    with inv show ?thesis by (auto simp: heap_inv_def)
  next
    case HEnd
    with inv show ?thesis by (auto simp: shiki_heap_end_def close_region_inv) (auto simp: heap_inv_def)
  qed (use inv in \<open>simp_all add: shiki_heap_begin_inv shiki_heap_free_inv shiki_heap_shrink_inv
      shiki_heap_shrink_up_inv shiki_heap_spare_inv\<close>)
qed (rule heap_zero_inv)

section \<open>A request fails only when nothing fits\<close>





section \<open>The reclaim loop ends\<close>

text \<open>
  What the heap relies on of the hook (shiki_heap.h): while it says it gave something back it freed
  at least one block, and it keeps the heap sound and open.
\<close>

definition reclaim_ok :: "(shiki_heap \<Rightarrow> bool \<times> shiki_heap) \<Rightarrow> bool" where
  "reclaim_ok reclaim \<longleftrightarrow>
     (\<forall>h ok t. heap_inv h \<longrightarrow> shiki_heap_active h \<longrightarrow> reclaim h = (ok, t) \<longrightarrow>
        heap_inv t \<and> shiki_heap_active t \<and> (ok \<longrightarrow> length (hp_blocks t) < length (hp_blocks h)))"

lemma reclaim_okD:
  "reclaim_ok reclaim \<Longrightarrow> heap_inv h \<Longrightarrow> shiki_heap_active h \<Longrightarrow> reclaim h = (ok, t) \<Longrightarrow>
   heap_inv t \<and> shiki_heap_active t \<and> (ok \<longrightarrow> length (hp_blocks t) < length (hp_blocks h))"
  unfolding reclaim_ok_def by blast

lemma owned_loop_hit:
  "alloc_low h n align = (Some p, t) \<Longrightarrow> owned_loop fuel hook h n align = Some (Some p, t)"
  by (subst owned_loop.simps) simp

lemma owned_loop_give_up:
  "alloc_low h n align = (None, t) \<Longrightarrow> reclaim t = (False, u) \<Longrightarrow> owned_loop fuel (Some reclaim) h n align = Some (None, u)"
  by (subst owned_loop.simps) simp

lemma owned_loop_again:
  "alloc_low h n align = (None, t) \<Longrightarrow> reclaim t = (True, u) \<Longrightarrow>
   owned_loop (Suc fuel) (Some reclaim) h n align = owned_loop fuel (Some reclaim) u n align"
  by (subst owned_loop.simps) simp

lemma owned_loop_total:
  assumes "heap_inv h" "shiki_heap_active h" "reclaim_ok reclaim" "length (hp_blocks h) \<le> fuel"
  shows "\<exists>p t. owned_loop fuel (Some reclaim) h n align = Some (p, t) \<and> heap_inv t"
  using assms
proof (induction fuel arbitrary: h)
  case fuel: 0
  then have empty: "hp_blocks h = []" by simp
  obtain base where reg: "hp_region h = Some base" using fuel(2) by (auto simp: shiki_heap_active_def)
  obtain r t where a: "alloc_low h n align = (r, t)" by fastforce
  show ?case
  proof (cases r)
    case None
    then have t: "alloc_low h n align = (None, h)" using alloc_low_None[of h n align t] a reg by simp
    obtain ok u where u: "reclaim h = (ok, u)" by fastforce
    then have "\<not> ok" "heap_inv u" using reclaim_okD[OF fuel(3,1,2) u] empty by simp_all
    then have "owned_loop 0 (Some reclaim) h n align = Some (None, u)" using owned_loop_give_up[OF t] u by simp
    with \<open>heap_inv u\<close> show ?thesis by blast
  next
    case (Some p)
    then have "owned_loop 0 (Some reclaim) h n align = Some (Some p, t)" using owned_loop_hit a by simp
    moreover have "heap_inv t" using alloc_low_inv[OF fuel(1) reg, of n align] a by simp
    ultimately show ?thesis by blast
  qed
next
  case (Suc fuel)
  obtain base where reg: "hp_region h = Some base" using Suc.prems(2) by (auto simp: shiki_heap_active_def)
  obtain r t where a: "alloc_low h n align = (r, t)" by fastforce
  show ?case
  proof (cases r)
    case None
    then have t: "alloc_low h n align = (None, h)" using alloc_low_None[of h n align t] a reg by simp
    obtain ok u where u: "reclaim h = (ok, u)" by fastforce
    then have U: "heap_inv u" "shiki_heap_active u" "ok \<Longrightarrow> length (hp_blocks u) < length (hp_blocks h)"
      using reclaim_okD[OF Suc.prems(3,1,2) u] by simp_all
    show ?thesis
    proof (cases ok)
      case True
      with U Suc.prems(4) have "length (hp_blocks u) \<le> fuel" by simp
      from Suc.IH[OF U(1,2) Suc.prems(3) this] u True show ?thesis by (simp add: owned_loop_again[OF t])
    next
      case False
      then have "owned_loop (Suc fuel) (Some reclaim) h n align = Some (None, u)" using owned_loop_give_up[OF t] u by simp
      with U(1) show ?thesis by blast
    qed
  next
    case (Some p)
    then have "owned_loop (Suc fuel) (Some reclaim) h n align = Some (Some p, t)" using owned_loop_hit a by simp
    moreover have "heap_inv t" using alloc_low_inv[OF Suc.prems(1) reg, of n align] a by simp
    ultimately show ?thesis by blast
  qed
qed

section \<open>The heap as an allocator\<close>

definition heap_live :: "shiki_heap \<Rightarrow> nat set" where
  "heap_live h = (\<lambda>b. heap_addr (the (hp_region h)) (b_at b)) ` set (hp_blocks h)"

definition heap_length :: "shiki_heap \<Rightarrow> nat \<Rightarrow> nat" where
  "heap_length h p = (case heap_find h p of None \<Rightarrow> 0 | Some i \<Rightarrow> 4 * b_words (hp_blocks h ! i))"

lemma shiki_heap_malloc_plain:
  "shiki_heap_malloc malign fuel None h n = Some (if shiki_heap_active h then alloc_low h n malign else (None, h))"
  by (simp add: shiki_heap_malloc_def owned_alloc_def owned_loop.simps split: prod.split option.split)

definition heap_malloc_plain :: "nat \<Rightarrow> shiki_heap \<Rightarrow> u32 \<Rightarrow> nat option \<times> shiki_heap" where
  "heap_malloc_plain malign h n = the (shiki_heap_malloc malign 0 None h n)"

lemma heap_length_block:
  assumes "heap_inv h" "hp_region h = Some base" "b \<in> set (hp_blocks h)"
  shows "heap_length h (heap_addr base (b_at b)) = 4 * b_words b"
proof -
  obtain i where i: "i < length (hp_blocks h)" "hp_blocks h ! i = b" using assms(3) by (auto simp: in_set_conv_nth)
  from heap_find_hit[OF assms(1,2) i(1)] i show ?thesis by (simp add: heap_length_def heap_addr_def)
qed

lemma set_take_nth_drop: "i < length bs \<Longrightarrow> set bs = insert (bs ! i) (set (take i bs @ drop (i + 1) bs))"
proof (induction bs arbitrary: i)
  case Nil
  then show ?case by simp
next
  case (Cons b bs)
  then show ?case by (cases i) auto
qed

lemma heap_release_set:
  assumes inv: "heap_inv h" and i: "i < length (hp_blocks h)"
  shows "set (take i (hp_blocks h) @ drop (i + 1) (hp_blocks h)) = set (hp_blocks h) - {hp_blocks h ! i}"
proof -
  note all = set_take_nth_drop[OF i]
  have "covers (hp_blocks h ! i) (b_at (hp_blocks h ! i))"
    using fits_nth[OF heap_invD(1)[OF inv] i] by (simp add: covers_def blk_end_def)
  then have notin: "hp_blocks h ! i \<notin> set (take i (hp_blocks h) @ drop (i + 1) (hp_blocks h))"
    using fits_others[OF heap_invD(1)[OF inv] i] unfolding covered_def by blast
  have "set (hp_blocks h) - {hp_blocks h ! i} = set (take i (hp_blocks h) @ drop (i + 1) (hp_blocks h))"
    by (subst all) (rule Diff_insert_absorb[OF notin])
  then show ?thesis by (rule sym)
qed

lemma heap_at_unique:
  assumes inv: "heap_inv h" and b: "b \<in> set (hp_blocks h)" "c \<in> set (hp_blocks h)" "b_at b = b_at c"
  shows "b = c"
proof -
  obtain i j where ij: "i < length (hp_blocks h)" "hp_blocks h ! i = b" "j < length (hp_blocks h)" "hp_blocks h ! j = c"
    using b by (auto simp: in_set_conv_nth)
  have "covers b (b_at b)" using fits_mem[OF heap_invD(1)[OF inv] b(1)] by (simp add: covers_def blk_end_def)
  moreover have "covers c (b_at b)"
    using fits_mem[OF heap_invD(1)[OF inv] b(2)] unfolding b(3) by (simp add: covers_def blk_end_def)
  ultimately have "i = j" by (intro fits_disjoint[OF heap_invD(1)[OF inv] ij(1,3)]) (simp_all only: ij)
  with ij show ?thesis by simp
qed

lemma heap_alloc_live:
  assumes inv: "heap_inv h" and reg: "hp_region h = Some base" and a: "allocates h n p t at"
  shows "heap_inv t \<and> p \<notin> heap_live h \<and> heap_live t = insert p (heap_live h) \<and>
    (\<forall>q \<in> heap_live h. heap_length t q = heap_length h q)"
proof -
  let ?w = "words_of (if n = 0 then 1 else n)"
  have A: "heap_inv t" "hp_region t = Some base" "p = heap_addr base at" "0 < ?w"
      "\<forall>w. at \<le> w \<longrightarrow> w < at + ?w \<longrightarrow> \<not> covered (hp_blocks h) w"
      "set (hp_blocks t) = insert \<lparr>b_at = at, b_words = ?w\<rparr> (set (hp_blocks h))"
    using a reg by (simp_all add: allocates_def Let_def heap_addr_def)
  have "b_at b \<noteq> at" if "b \<in> set (hp_blocks h)" for b
  proof
    assume "b_at b = at"
    then have "covered (hp_blocks h) at"
      using that fits_mem[OF heap_invD(1)[OF inv] that] by (auto simp: covered_def covers_def blk_end_def)
    with A(4,5) show False by simp
  qed
  then have "p \<notin> heap_live h" unfolding heap_live_def A(3) reg heap_addr_def by fastforce
  moreover have "heap_length t q = heap_length h q" if "q \<in> heap_live h" for q
    using that heap_length_block[OF inv reg] heap_length_block[OF A(1,2)] A(6) reg by (auto simp: heap_live_def)
  ultimately show ?thesis using A reg by (simp add: heap_live_def)
qed

lemma heap_free_live:
  assumes inv: "heap_inv h" and p: "p \<in> heap_live h"
  shows "heap_live (shiki_heap_free h (Some p)) = heap_live h - {p} \<and>
    (\<forall>q \<in> heap_live h - {p}. heap_length (shiki_heap_free h (Some p)) q = heap_length h q)"
proof -
  obtain b where b: "b \<in> set (hp_blocks h)" "p = heap_addr (the (hp_region h)) (b_at b)" using p by (auto simp: heap_live_def)
  then obtain base where reg: "hp_region h = Some base" using heap_invD(5)[OF inv] by (cases "hp_region h") auto
  obtain i where i: "i < length (hp_blocks h)" "hp_blocks h ! i = b" using b by (auto simp: in_set_conv_nth)
  have f: "heap_find h p = Some i" "shiki_heap_owns h p"
    using heap_find_hit[OF inv reg i(1)] i b reg by (simp_all add: heap_addr_def)
  let ?r = "heap_release i h"
  have set: "set (hp_blocks ?r) = set (hp_blocks h) - {b}" using heap_release_set[OF inv i(1)] i by simp
  have live: "heap_live ?r = heap_live h - {p}"
  proof -
    have "heap_addr base ` b_at ` (set (hp_blocks h) - {b}) = heap_addr base ` b_at ` set (hp_blocks h) - {heap_addr base (b_at b)}"
      using heap_at_unique[OF inv b(1)] by (fastforce simp: heap_addr_def)
    then show ?thesis unfolding heap_live_def set b(2) by (simp add: reg image_image)
  qed
  show ?thesis
  proof (cases "hp_closing ?r \<and> hp_blocks ?r = []")
    case True
    then have "heap_live ?r = {}" by (simp add: heap_live_def)
    with True live f show ?thesis by (auto simp: shiki_heap_free_def Let_def heap_live_def close_region_def)
  next
    case False
    then have free: "shiki_heap_free h (Some p) = ?r" using f by (auto simp: shiki_heap_free_def Let_def)
    have r: "heap_inv ?r" "hp_region ?r = Some base"
      using shiki_heap_free_inv[OF inv, of "Some p"] free reg by simp_all
    have "heap_length ?r q = heap_length h q" if q: "q \<in> heap_live h - {p}" for q
    proof -
      obtain c where c: "c \<in> set (hp_blocks ?r)" "q = heap_addr base (b_at c)"
        using q live r(2) by (auto simp: heap_live_def)
      then have "c \<in> set (hp_blocks h)" using set by blast
      then show ?thesis using heap_length_block[OF r c(1)] heap_length_block[OF inv reg] c(2) by simp
    qed
    then show ?thesis using live free by simp
  qed
qed

interpretation heap_alloc: allocator "heap_malloc_plain malign" "\<lambda>h p. shiki_heap_free h (Some p)" heap_length heap_live heap_inv
  for malign
proof unfold_locales
  fix h :: shiki_heap and n p t
  assume inv: "heap_inv h" and a: "heap_malloc_plain malign h n = (Some p, t)"
  then have act: "shiki_heap_active h" and low: "alloc_low h n malign = (Some p, t)"
    by (auto simp: heap_malloc_plain_def shiki_heap_malloc_plain split: if_splits)
  then obtain base where reg: "hp_region h = Some base" by (auto simp: shiki_heap_active_def)
  obtain at where "allocates h n p t at" using alloc_low_Some[OF inv reg low] by blast
  from heap_alloc_live[OF inv reg this]
  show "heap_inv t \<and> p \<notin> heap_live h \<and> heap_live t = insert p (heap_live h) \<and>
    (\<forall>q \<in> heap_live h. heap_length t q = heap_length h q)" .
next
  fix h :: shiki_heap and n t
  assume "heap_inv h" "heap_malloc_plain malign h n = (None, t)"
  then show "t = h"
    using alloc_low_None[of h n malign t]
    by (auto simp: heap_malloc_plain_def shiki_heap_malloc_plain shiki_heap_active_def split: if_splits)
next
  fix h :: shiki_heap and p
  assume "heap_inv h" "p \<in> heap_live h"
  then show "heap_inv (shiki_heap_free h (Some p)) \<and> heap_live (shiki_heap_free h (Some p)) = heap_live h - {p} \<and>
    (\<forall>q \<in> heap_live h - {p}. heap_length (shiki_heap_free h (Some p)) q = heap_length h q)"
    by (simp add: shiki_heap_free_inv heap_free_live)
qed

section \<open>Properties\<close>



definition heap_sample :: "heap_event list" where
  "heap_sample = [HBegin 64 (Some 16), HAlloc 20 16, HAlloc 8 16, HFree (Some 16)]"


text \<open>Property C22: the loop that calls the reclaim hook while an allocation fails always ends: when
  every accepted reclaim frees at least one block, as many turns as there are live blocks are
  enough, and the heap it leaves is sound.\<close>

theorem shiki_heap_reclaim_terminates:
  assumes "h = foldl heap_apply heap_zero es" "shiki_heap_active h" "reclaim_ok reclaim"
    and "length (hp_blocks h) \<le> fuel"
  shows "\<exists>p t. shiki_heap_malloc malign fuel (Some reclaim) h n = Some (p, t) \<and> heap_inv t"
  using owned_loop_total[OF _ assms(2-4)] heap_run.reachable_inv assms(1,2)
  by (simp add: shiki_heap_malloc_def owned_alloc_def)

definition heap_evict_first :: "shiki_heap \<Rightarrow> bool \<times> shiki_heap" where
  "heap_evict_first h =
     (case hp_blocks h of [] \<Rightarrow> (False, h)
      | b # _ \<Rightarrow> (True, heap_release 0 h))"

lemma heap_evict_first_ok: "reclaim_ok heap_evict_first"
  unfolding reclaim_ok_def
proof (intro allI impI)
  fix h ok t
  assume h: "heap_inv h" "shiki_heap_active h" "heap_evict_first h = (ok, t)"
  show "heap_inv t \<and> shiki_heap_active t \<and> (ok \<longrightarrow> length (hp_blocks t) < length (hp_blocks h))"
  proof (cases "hp_blocks h")
    case Nil
    with h show ?thesis by (simp add: heap_evict_first_def)
  next
    case (Cons b bs)
    then have t: "t = heap_release 0 h" "ok" using h(3) by (simp_all add: heap_evict_first_def)
    have "heap_core t" unfolding t(1) using Cons by (intro heap_release_core[OF h(1)]) simp
    moreover have "hp_region t \<noteq> None" "\<not> hp_closing t" using h(2) t(1) by (auto simp: shiki_heap_active_def)
    ultimately show ?thesis using t Cons by (simp add: heap_inv_core shiki_heap_active_def)
  qed
qed

theorem shiki_heap_reclaim_terminates_witness:
  "\<exists>p t. shiki_heap_malloc 16 1 (Some heap_evict_first) (foldl heap_apply heap_zero heap_sample) 60 = Some (p, t) \<and> heap_inv t"
proof (rule shiki_heap_reclaim_terminates[OF refl _ heap_evict_first_ok])
  show "shiki_heap_active (foldl heap_apply heap_zero heap_sample)" by code_simp
  show "length (hp_blocks (foldl heap_apply heap_zero heap_sample)) \<le> 1" by code_simp
qed

end
