(* ===== verification/BlockCache.thy ===== *)
theory BlockCache
  imports ShikiHeap
begin

text \<open>
  The small-block cache under the guest's allocator (components/pocketjs_guest/src/block_cache.c
  and its header): freed blocks of eight listed sizes are kept in per-class linked lists, threaded
  through the first word of each block, and handed back by the next allocation of that size.

  The backend is the record of function pointers of the source: an allocation, a release and a
  length operation on a backend state, passed as arguments; what the cache relies on is the contract
  \<open>allocator\<close>.  \<open>bc_link\<close> is what the first words of the blocks hold.  Pointers are 4 bytes wide.
  The walk of \<open>block_cache_flush\<close> takes fuel, and \<open>None\<close> is its exhaustion; a list never holds
  more than \<open>BLOCK_CACHE_DEPTH\<close> blocks, so that much fuel is enough.
\<close>

section \<open>Data\<close>

definition BLOCK_CACHE_CLASSES :: nat where "BLOCK_CACHE_CLASSES = 8"
definition BLOCK_CACHE_DEPTH :: nat where "BLOCK_CACHE_DEPTH = 8"
definition BLOCK_CACHE_MAX_SIZE :: nat where "BLOCK_CACHE_MAX_SIZE = 252"

lemmas bc_bounds = BLOCK_CACHE_CLASSES_def BLOCK_CACHE_DEPTH_def BLOCK_CACHE_MAX_SIZE_def

record 's block_cache =
  bc_backend :: 's
  bc_enabled :: bool
  bc_class_of :: "nat list"
  bc_size :: "nat list"
  bc_count :: "nat list"
  bc_head :: "nat option list"
  bc_link :: "nat \<Rightarrow> nat option"
  bc_hits :: u32
  bc_misses :: u32
  bc_pushes :: u32
  bc_flushes :: u32

section \<open>Operations\<close>

text \<open>One turn of the loop of \<open>block_cache_init\<close>.\<close>

definition init_class :: "nat list \<Rightarrow> nat \<Rightarrow> nat list \<times> nat list \<Rightarrow> nat list \<times> nat list" where
  "init_class sizes i acc =
     (case acc of (szs, class_of) \<Rightarrow>
        let s = sizes ! i in
        if s < 4 \<or> s > BLOCK_CACHE_MAX_SIZE \<or> s mod 4 \<noteq> 0 then (szs, class_of)
        else (szs[i := s], class_of[s div 4 := i + 1]))"

definition block_cache_init :: "'s \<Rightarrow> nat list \<Rightarrow> nat \<Rightarrow> bool \<Rightarrow> 's block_cache" where
  "block_cache_init backend sizes n enabled =
     (case fold (init_class sizes) [0..<min n BLOCK_CACHE_CLASSES]
             (replicate BLOCK_CACHE_CLASSES 0, replicate (BLOCK_CACHE_MAX_SIZE div 4 + 1) 0) of
        (szs, class_of) \<Rightarrow>
          \<lparr>bc_backend = backend, bc_enabled = enabled, bc_class_of = class_of, bc_size = szs,
           bc_count = replicate BLOCK_CACHE_CLASSES 0, bc_head = replicate BLOCK_CACHE_CLASSES None,
           bc_link = (\<lambda>_. None), bc_hits = 0, bc_misses = 0, bc_pushes = 0, bc_flushes = 0\<rparr>)"

definition class_index :: "'s block_cache \<Rightarrow> nat \<Rightarrow> nat option" where
  "class_index cache l =
     (if l > BLOCK_CACHE_MAX_SIZE \<or> l mod 4 \<noteq> 0 then None
      else if bc_class_of cache ! (l div 4) = 0 then None else Some (bc_class_of cache ! (l div 4) - 1))"

definition block_cache_held :: "'s block_cache \<Rightarrow> nat" where
  "block_cache_held cache =
     fold (\<lambda>c held. held + bc_count cache ! c * bc_size cache ! c) [0..<BLOCK_CACHE_CLASSES] 0"

fun flush_chain :: "nat \<Rightarrow> (nat \<Rightarrow> nat option) \<Rightarrow> ('s \<Rightarrow> nat \<Rightarrow> 's) \<Rightarrow> nat option \<Rightarrow> 's \<Rightarrow> 's option" where
  "flush_chain fuel link dealloc None s = Some s"
| "flush_chain 0 link dealloc (Some b) s = None"
| "flush_chain (Suc k) link dealloc (Some b) s = flush_chain k link dealloc (link b) (dealloc s b)"

definition flush_class :: "('s \<Rightarrow> nat \<Rightarrow> 's) \<Rightarrow> nat \<Rightarrow> 's block_cache option \<Rightarrow> 's block_cache option" where
  "flush_class dealloc c acc =
     (case acc of None \<Rightarrow> None
      | Some cache \<Rightarrow>
        (case flush_chain BLOCK_CACHE_DEPTH (bc_link cache) dealloc (bc_head cache ! c) (bc_backend cache) of
           None \<Rightarrow> None
         | Some s \<Rightarrow> Some (cache\<lparr>bc_backend := s, bc_head := (bc_head cache)[c := None],
                                 bc_count := (bc_count cache)[c := 0]\<rparr>)))"

definition block_cache_flush :: "('s \<Rightarrow> nat \<Rightarrow> 's) \<Rightarrow> 's block_cache \<Rightarrow> 's block_cache option" where
  "block_cache_flush dealloc cache =
     map_option (\<lambda>c. c\<lparr>bc_flushes := bc_flushes c + 1\<rparr>)
       (fold (flush_class dealloc) [0..<BLOCK_CACHE_CLASSES] (Some cache))"

definition block_cache_set_enabled :: "('s \<Rightarrow> nat \<Rightarrow> 's) \<Rightarrow> 's block_cache \<Rightarrow> bool \<Rightarrow> 's block_cache option" where
  "block_cache_set_enabled dealloc cache enabled =
     (if bc_enabled cache = enabled then Some cache
      else map_option (\<lambda>c. c\<lparr>bc_enabled := enabled\<rparr>)
             (if \<not> enabled then block_cache_flush dealloc cache else Some cache))"

text \<open>A hit takes the head of the class's list.\<close>

definition cache_hit :: "'s block_cache \<Rightarrow> nat \<Rightarrow> (nat \<times> nat) option" where
  "cache_hit cache rounded =
     (case class_index cache rounded of None \<Rightarrow> None
      | Some c \<Rightarrow> map_option (\<lambda>b. (c, b)) (bc_head cache ! c))"

definition cache_pop :: "'s block_cache \<Rightarrow> nat \<Rightarrow> nat \<Rightarrow> 's block_cache" where
  "cache_pop cache c block =
     cache\<lparr>bc_head := (bc_head cache)[c := bc_link cache block],
           bc_count := (bc_count cache)[c := bc_count cache ! c - 1],
           bc_hits := bc_hits cache + 1\<rparr>"

definition block_cache_malloc :: "('s \<Rightarrow> u32 \<Rightarrow> nat option \<times> 's) \<Rightarrow> ('s \<Rightarrow> nat \<Rightarrow> 's) \<Rightarrow> 's block_cache
    \<Rightarrow> u32 \<Rightarrow> nat \<Rightarrow> (nat option \<times> 's block_cache) option" where
  "block_cache_malloc alloc dealloc cache n rounded =
     (case (if bc_enabled cache then cache_hit cache rounded else None) of
        Some (c, block) \<Rightarrow> Some (Some block, cache_pop cache c block)
      | None \<Rightarrow>
        let cache1 = (if bc_enabled cache then cache\<lparr>bc_misses := bc_misses cache + 1\<rparr> else cache) in
        (case alloc (bc_backend cache1) n of
           (Some block, s) \<Rightarrow> Some (Some block, cache1\<lparr>bc_backend := s\<rparr>)
         | (None, s) \<Rightarrow>
           let cache2 = cache1\<lparr>bc_backend := s\<rparr> in
           if bc_enabled cache2 \<and> block_cache_held cache2 \<noteq> 0 then
             (case block_cache_flush dealloc cache2 of None \<Rightarrow> None
              | Some cache3 \<Rightarrow> (case alloc (bc_backend cache3) n of
                  (block, s') \<Rightarrow> Some (block, cache3\<lparr>bc_backend := s'\<rparr>)))
           else Some (None, cache2)))"

definition cache_push :: "'s block_cache \<Rightarrow> nat \<Rightarrow> nat \<Rightarrow> 's block_cache" where
  "cache_push cache c block =
     cache\<lparr>bc_link := (bc_link cache)(block := bc_head cache ! c),
           bc_head := (bc_head cache)[c := Some block],
           bc_count := (bc_count cache)[c := bc_count cache ! c + 1],
           bc_pushes := bc_pushes cache + 1\<rparr>"

definition block_cache_free :: "('s \<Rightarrow> nat \<Rightarrow> 's) \<Rightarrow> ('s \<Rightarrow> nat \<Rightarrow> nat) \<Rightarrow> 's block_cache \<Rightarrow> nat option \<Rightarrow> 's block_cache" where
  "block_cache_free dealloc len cache block =
     (case block of None \<Rightarrow> cache
      | Some b \<Rightarrow>
        (case (if bc_enabled cache then class_index cache (len (bc_backend cache) b) else None) of
           Some c \<Rightarrow> if bc_count cache ! c < BLOCK_CACHE_DEPTH then cache_push cache c b
             else cache\<lparr>bc_backend := dealloc (bc_backend cache) b\<rparr>
         | None \<Rightarrow> cache\<lparr>bc_backend := dealloc (bc_backend cache) b\<rparr>))"

section \<open>The lists\<close>

fun chain :: "(nat \<Rightarrow> nat option) \<Rightarrow> nat option \<Rightarrow> nat list \<Rightarrow> bool" where
  "chain link p [] \<longleftrightarrow> p = None"
| "chain link p (b # bs) \<longleftrightarrow> p = Some b \<and> chain link (link b) bs"

lemma chain_cong: "(\<And>b. b \<in> set bs \<Longrightarrow> link' b = link b) \<Longrightarrow> chain link p bs \<Longrightarrow> chain link' p bs"
  by (induction bs arbitrary: p) auto

text \<open>The table of classes: an entry names a class whose size is the length looked up.\<close>

definition class_table_ok :: "nat list \<Rightarrow> nat list \<Rightarrow> bool" where
  "class_table_ok szs class_of \<longleftrightarrow>
     length szs = BLOCK_CACHE_CLASSES \<and> length class_of = BLOCK_CACHE_MAX_SIZE div 4 + 1 \<and>
     (\<forall>k < length class_of. class_of ! k \<noteq> 0 \<longrightarrow>
        class_of ! k \<le> BLOCK_CACHE_CLASSES \<and> szs ! (class_of ! k - 1) = 4 * k)"

text \<open>\<open>xss\<close> are the blocks the lists hold, class by class.\<close>

definition cache_lists :: "'s block_cache \<Rightarrow> nat list list \<Rightarrow> bool" where
  "cache_lists cache xss \<longleftrightarrow>
     class_table_ok (bc_size cache) (bc_class_of cache) \<and>
     length xss = BLOCK_CACHE_CLASSES \<and> length (bc_head cache) = BLOCK_CACHE_CLASSES \<and>
     length (bc_count cache) = BLOCK_CACHE_CLASSES \<and> distinct (concat xss) \<and>
     (\<forall>c < BLOCK_CACHE_CLASSES. chain (bc_link cache) (bc_head cache ! c) (xss ! c) \<and>
        length (xss ! c) = bc_count cache ! c \<and> bc_count cache ! c \<le> BLOCK_CACHE_DEPTH) \<and>
     (\<not> bc_enabled cache \<longrightarrow> concat xss = [])"

lemma class_index_SomeD:
  assumes "class_table_ok (bc_size cache) (bc_class_of cache)" "class_index cache l = Some c"
  shows "c < BLOCK_CACHE_CLASSES \<and> bc_size cache ! c = l"
proof -
  let ?e = "bc_class_of cache ! (l div 4)"
  have l: "l \<le> BLOCK_CACHE_MAX_SIZE" "l mod 4 = 0" "?e \<noteq> 0" "c = ?e - 1"
    using assms(2) by (auto simp: class_index_def split: if_splits)
  have "l div 4 < length (bc_class_of cache)"
    using assms(1) div_le_mono[OF l(1), of 4] by (simp add: class_table_ok_def bc_bounds)
  then have "?e \<le> BLOCK_CACHE_CLASSES" "bc_size cache ! (?e - 1) = 4 * (l div 4)"
    using assms(1) l(3) by (simp_all add: class_table_ok_def)
  moreover have "4 * (l div 4) = l" using l(2) by (metis add.right_neutral mult_div_mod_eq)
  ultimately show ?thesis using l(3,4) by simp
qed

lemma set_nth_concat: "c < length xss \<Longrightarrow> set (xss ! c) \<subseteq> set (concat xss)"
  by (metis UN_upper nth_mem set_concat)

lemma distinct_concat_update:
  assumes "distinct (concat xss)" "c < length xss" "distinct ys" "set ys \<inter> (set (concat xss) - set (xss ! c)) = {}"
  shows "distinct (concat (xss[c := ys])) \<and> set (concat (xss[c := ys])) = set (concat xss) - set (xss ! c) \<union> set ys"
  using assms
proof (induction xss arbitrary: c)
  case Nil
  then show ?case by simp
next
  case (Cons xs xss)
  show ?case
  proof (cases c)
    case 0
    with Cons.prems show ?thesis by auto
  next
    case (Suc k)
    obtain S where S: "S = set (concat xss)" by blast
    have k: "k < length xss" "(xs # xss) ! c = xss ! k" "(xs # xss)[c := ys] = xs # xss[k := ys]" using Cons.prems(2) Suc by simp_all
    have X: "set (xss ! k) \<subseteq> S" unfolding S using k(1) by (rule set_nth_concat)
    have xs: "distinct xs" "distinct (concat xss)" "set xs \<inter> S = {}" using Cons.prems(1) by (simp_all add: S)
    have ys: "set ys \<inter> (set xs \<union> S - set (xss ! k)) = {}" using Cons.prems(4) k(2) by (simp add: S)
    then have d: "set ys \<inter> (S - set (xss ! k)) = {}" "set ys \<inter> set xs = {}" using X xs(3) by blast+
    have IH: "distinct (concat (xss[k := ys]))" "set (concat (xss[k := ys])) = S - set (xss ! k) \<union> set ys"
      using Cons.IH[OF xs(2) k(1) Cons.prems(3)] d(1) by (simp_all only: S)
    have "set xs \<inter> set (concat (xss[k := ys])) = {}" unfolding IH(2) using xs(3) d(2) by blast
    then have "distinct (concat ((xs # xss)[c := ys]))" using xs(1) IH(1) k(3) by simp
    moreover have "set (concat ((xs # xss)[c := ys])) = set xs \<union> (S - set (xss ! k) \<union> set ys)"
      unfolding k(3) concat.simps set_append IH(2) ..
    moreover have "set (concat (xs # xss)) = set xs \<union> S" by (simp add: S)
    ultimately show ?thesis using X xs(3) k(2) by (simp only:) blast
  qed
qed

lemma distinct_concat_nth: "distinct (concat xss) \<Longrightarrow> c < length xss \<Longrightarrow> distinct (xss ! c)"
  using nth_mem[of c xss] by (simp add: distinct_concat_iff)

lemma distinct_concat_other:
  "distinct (concat xss) \<Longrightarrow> c < length xss \<Longrightarrow> d < length xss \<Longrightarrow> b \<in> set (xss ! c) \<Longrightarrow> b \<in> set (xss ! d) \<Longrightarrow> c = d"
proof (induction xss arbitrary: c d)
  case Nil
  then show ?case by simp
next
  case (Cons xs xss)
  have "b \<in> set (concat xss)" if "k < length xss" "b \<in> set (xss ! k)" for k
    using that set_nth_concat by blast
  with Cons show ?case by (cases c; cases d) auto
qed

text \<open>The lists read off the links.\<close>

fun chain_list :: "nat \<Rightarrow> (nat \<Rightarrow> nat option) \<Rightarrow> nat option \<Rightarrow> nat list" where
  "chain_list fuel link None = []"
| "chain_list 0 link (Some b) = []"
| "chain_list (Suc k) link (Some b) = b # chain_list k link (link b)"

definition cache_blocks :: "'s block_cache \<Rightarrow> nat list list" where
  "cache_blocks cache =
     map (\<lambda>c. chain_list BLOCK_CACHE_DEPTH (bc_link cache) (bc_head cache ! c)) [0..<BLOCK_CACHE_CLASSES]"

lemma chain_list_eq: "chain link p bs \<Longrightarrow> length bs \<le> fuel \<Longrightarrow> chain_list fuel link p = bs"
proof (induction bs arbitrary: p fuel)
  case Nil
  then show ?case by simp
next
  case (Cons b bs)
  then show ?case by (cases fuel) auto
qed

lemma cache_lists_blocks: "cache_lists cache xss \<Longrightarrow> cache_blocks cache = xss"
  by (rule nth_equalityI) (auto simp: cache_lists_def cache_blocks_def chain_list_eq)

text \<open>
  The cache over a heap: the lists hold live blocks of their class's size.  What the guest owns are
  the live blocks the cache does not hold.
\<close>

definition cache_ok :: "('s \<Rightarrow> bool) \<Rightarrow> ('s \<Rightarrow> nat set) \<Rightarrow> ('s \<Rightarrow> nat \<Rightarrow> nat) \<Rightarrow> 's block_cache \<Rightarrow> bool" where
  "cache_ok heap_ok live len cache \<longleftrightarrow>
     heap_ok (bc_backend cache) \<and> cache_lists cache (cache_blocks cache) \<and>
     (\<forall>c < BLOCK_CACHE_CLASSES. \<forall>b \<in> set (cache_blocks cache ! c).
        b \<in> live (bc_backend cache) \<and> len (bc_backend cache) b = bc_size cache ! c)"

definition cache_owned :: "('s \<Rightarrow> nat set) \<Rightarrow> 's block_cache \<Rightarrow> nat set" where
  "cache_owned live cache = live (bc_backend cache) - set (concat (cache_blocks cache))"

lemma cache_okI:
  "heap_ok (bc_backend cache) \<Longrightarrow> cache_lists cache xss \<Longrightarrow>
   (\<And>c b. c < BLOCK_CACHE_CLASSES \<Longrightarrow> b \<in> set (xss ! c) \<Longrightarrow>
      b \<in> live (bc_backend cache) \<and> len (bc_backend cache) b = bc_size cache ! c) \<Longrightarrow>
   cache_ok heap_ok live len cache \<and> cache_blocks cache = xss"
  using cache_lists_blocks[of cache xss] by (simp add: cache_ok_def)

lemma cache_okD:
  assumes "cache_ok heap_ok live len cache"
  shows "heap_ok (bc_backend cache)" "cache_lists cache (cache_blocks cache)"
    "c < BLOCK_CACHE_CLASSES \<Longrightarrow> b \<in> set (cache_blocks cache ! c) \<Longrightarrow>
      b \<in> live (bc_backend cache) \<and> len (bc_backend cache) b = bc_size cache ! c"
    "set (concat (cache_blocks cache)) \<subseteq> live (bc_backend cache)"
proof -
  show "heap_ok (bc_backend cache)" "cache_lists cache (cache_blocks cache)"
    "c < BLOCK_CACHE_CLASSES \<Longrightarrow> b \<in> set (cache_blocks cache ! c) \<Longrightarrow>
      b \<in> live (bc_backend cache) \<and> len (bc_backend cache) b = bc_size cache ! c"
    using assms by (simp_all add: cache_ok_def)
  show "set (concat (cache_blocks cache)) \<subseteq> live (bc_backend cache)"
    using assms by (auto simp: cache_ok_def in_set_conv_nth cache_blocks_def)
qed

lemma cache_listsD:
  assumes "cache_lists cache xss"
  shows "class_table_ok (bc_size cache) (bc_class_of cache)" "length xss = BLOCK_CACHE_CLASSES"
    "length (bc_head cache) = BLOCK_CACHE_CLASSES" "length (bc_count cache) = BLOCK_CACHE_CLASSES"
    "distinct (concat xss)"
    "c < BLOCK_CACHE_CLASSES \<Longrightarrow> chain (bc_link cache) (bc_head cache ! c) (xss ! c)"
    "c < BLOCK_CACHE_CLASSES \<Longrightarrow> length (xss ! c) = bc_count cache ! c"
    "c < BLOCK_CACHE_CLASSES \<Longrightarrow> bc_count cache ! c \<le> BLOCK_CACHE_DEPTH"
    "\<not> bc_enabled cache \<Longrightarrow> concat xss = []"
  using assms by (simp_all add: cache_lists_def)

section \<open>Init\<close>

lemma init_class_ok:
  "class_table_ok (fst acc) (snd acc) \<Longrightarrow> i < BLOCK_CACHE_CLASSES \<Longrightarrow> (\<forall>k < length (snd acc). snd acc ! k \<noteq> i + 1) \<Longrightarrow>
   class_table_ok (fst (init_class sizes i acc)) (snd (init_class sizes i acc))"
proof -
  assume t: "class_table_ok (fst acc) (snd acc)" and i: "i < BLOCK_CACHE_CLASSES"
    and fresh: "\<forall>k < length (snd acc). snd acc ! k \<noteq> i + 1"
  obtain szs class_of where acc: "acc = (szs, class_of)" by (cases acc)
  show ?thesis
  proof (cases "sizes ! i < 4 \<or> sizes ! i > BLOCK_CACHE_MAX_SIZE \<or> sizes ! i mod 4 \<noteq> 0")
    case True
    with t show ?thesis by (simp add: acc init_class_def Let_def)
  next
    case False
    let ?s = "sizes ! i"
    have q: "4 * (?s div 4) = ?s" using False by (metis add.right_neutral mult_div_mod_eq)
    have "(class_of[?s div 4 := i + 1]) ! k \<noteq> 0 \<longrightarrow> (class_of[?s div 4 := i + 1]) ! k \<le> BLOCK_CACHE_CLASSES \<and>
        szs[i := ?s] ! ((class_of[?s div 4 := i + 1]) ! k - 1) = 4 * k" if k: "k < length class_of" for k
    proof (cases "k = ?s div 4")
      case True
      with k t i q show ?thesis by (simp add: acc class_table_ok_def)
    next
      case other: False
      then have "(class_of[?s div 4 := i + 1]) ! k = class_of ! k" by simp
      moreover have "class_of ! k \<noteq> i + 1" using fresh k by (simp add: acc)
      ultimately show ?thesis using t k by (cases "class_of ! k") (auto simp: acc class_table_ok_def nth_list_update)
    qed
    with t False show ?thesis by (simp add: acc init_class_def Let_def class_table_ok_def)
  qed
qed

lemma init_class_entries:
  "\<forall>k < length (snd acc). snd acc ! k \<le> n \<Longrightarrow>
   \<forall>k < length (snd (init_class sizes n acc)). snd (init_class sizes n acc) ! k \<le> Suc n"
proof (intro allI impI)
  fix k assume old: "\<forall>k < length (snd acc). snd acc ! k \<le> n" and k: "k < length (snd (init_class sizes n acc))"
  obtain szs class_of where acc: "acc = (szs, class_of)" by (cases acc)
  have "class_of[sizes ! n div 4 := n + 1] ! k \<le> Suc n" if "k < length class_of"
    using that old by (cases "k = sizes ! n div 4") (auto simp: acc intro: le_SucI)
  then show "snd (init_class sizes n acc) ! k \<le> Suc n"
    using k old by (auto simp: acc init_class_def Let_def intro: le_SucI split: if_splits)
qed

lemma init_fold_ok:
  assumes "n \<le> BLOCK_CACHE_CLASSES"
  shows "let r = fold (init_class sizes) [0..<n]
      (replicate BLOCK_CACHE_CLASSES 0, replicate (BLOCK_CACHE_MAX_SIZE div 4 + 1) 0) in
    class_table_ok (fst r) (snd r) \<and> (\<forall>k < length (snd r). snd r ! k \<le> n)"
  using assms
proof (induction n)
  case 0
  show ?case by (simp add: class_table_ok_def Let_def del: replicate_Suc)
next
  case (Suc n)
  let ?r = "fold (init_class sizes) [0..<n] (replicate BLOCK_CACHE_CLASSES 0, replicate (BLOCK_CACHE_MAX_SIZE div 4 + 1) 0)"
  have IH: "class_table_ok (fst ?r) (snd ?r)" "\<forall>k < length (snd ?r). snd ?r ! k \<le> n"
    using Suc by (simp_all add: Let_def)
  have "\<forall>k < length (snd ?r). snd ?r ! k \<noteq> n + 1" using IH(2) by auto
  then have "class_table_ok (fst (init_class sizes n ?r)) (snd (init_class sizes n ?r))"
    using Suc.prems by (intro init_class_ok[OF IH(1)]) simp_all
  then show ?case using init_class_entries[OF IH(2), of sizes] by (simp add: Let_def)
qed

context allocator begin

lemma init_ok:
  assumes "heap_ok backend"
  shows "cache_ok heap_ok live len (block_cache_init backend sizes n enabled) \<and>
    cache_owned live (block_cache_init backend sizes n enabled) = live backend"
proof -
  let ?c = "block_cache_init backend sizes n enabled"
  let ?xss = "replicate BLOCK_CACHE_CLASSES [] :: nat list list"
  obtain szs class_of where r: "fold (init_class sizes) [0..<min n BLOCK_CACHE_CLASSES]
      (replicate BLOCK_CACHE_CLASSES 0, replicate (BLOCK_CACHE_MAX_SIZE div 4 + 1) 0) = (szs, class_of)"
    by fastforce
  have "class_table_ok szs class_of" using init_fold_ok[of "min n BLOCK_CACHE_CLASSES" sizes] r by (simp add: Let_def)
  moreover have "concat ?xss = []" by simp
  ultimately have lists: "cache_lists ?c ?xss" using r by (simp add: block_cache_init_def cache_lists_def)
  have "cache_ok heap_ok live len ?c \<and> cache_blocks ?c = ?xss"
    using assms r by (intro cache_okI[OF _ lists]) (simp_all add: block_cache_init_def)
  then show ?thesis using r by (simp add: cache_owned_def block_cache_init_def)
qed

lemma flush_chain_ok:
  assumes "chain link p bs" "length bs \<le> fuel" "distinct bs" "set bs \<subseteq> live s" "heap_ok s"
  shows "\<exists>t. flush_chain fuel link dealloc p s = Some t \<and> heap_ok t \<and> live t = live s - set bs \<and>
    (\<forall>q \<in> live t. len t q = len s q)"
  using assms
proof (induction bs arbitrary: p fuel s)
  case Nil
  then show ?case by simp
next
  case (Cons b bs)
  obtain k where k: "fuel = Suc k" using Cons.prems(2) by (cases fuel) auto
  have D: "heap_ok (dealloc s b)" "live (dealloc s b) = live s - {b}"
      "\<forall>q \<in> live s - {b}. len (dealloc s b) q = len s q"
    using dealloc_ok[of s b] Cons.prems(4,5) by auto
  have "chain link (link b) bs" "length bs \<le> k" "distinct bs" "set bs \<subseteq> live (dealloc s b)"
    using Cons.prems k D(2) by auto
  from Cons.IH[OF this D(1)] obtain t where t: "flush_chain k link dealloc (link b) (dealloc s b) = Some t"
      "heap_ok t" "live t = live (dealloc s b) - set bs" "\<forall>q \<in> live t. len t q = len (dealloc s b) q" by blast
  have "p = Some b" using Cons.prems(1) by simp
  then have "flush_chain fuel link dealloc p s = Some t" using t(1) k by simp
  moreover have "live t = live s - set (b # bs)" unfolding t(3) D(2) by auto
  moreover have "\<forall>q \<in> live t. len t q = len s q" using t(3,4) D(2,3) by auto
  ultimately show ?case using t(2) by blast
qed

lemma flush_class_ok:
  assumes ok: "cache_ok heap_ok live len cache" and c: "c < BLOCK_CACHE_CLASSES"
  shows "\<exists>t. flush_class dealloc c (Some cache) = Some t \<and> cache_ok heap_ok live len t \<and>
    cache_owned live t = cache_owned live cache \<and> cache_blocks t = (cache_blocks cache)[c := []] \<and>
    bc_enabled t = bc_enabled cache"
proof -
  let ?xss = "cache_blocks cache" and ?s = "bc_backend cache"
  note L = cache_listsD[OF cache_okD(2)[OF ok]]
  have cl: "c < length ?xss" using L(2) c by simp
  have sub: "set (?xss ! c) \<subseteq> live ?s" using cache_okD(3)[OF ok c] by blast
  obtain s' where s': "flush_chain BLOCK_CACHE_DEPTH (bc_link cache) dealloc (bc_head cache ! c) ?s = Some s'"
      "heap_ok s'" "live s' = live ?s - set (?xss ! c)" "\<forall>q \<in> live s'. len s' q = len ?s q"
    using flush_chain_ok[OF L(6)[OF c] _ distinct_concat_nth[OF L(5) cl] sub cache_okD(1)[OF ok]] L(7,8)[OF c] by fastforce
  let ?t = "cache\<lparr>bc_backend := s', bc_head := (bc_head cache)[c := None], bc_count := (bc_count cache)[c := 0]\<rparr>"
  have t: "flush_class dealloc c (Some cache) = Some ?t" using s'(1) by (simp add: flush_class_def)
  have dc: "distinct (concat (?xss[c := []]))" "set (concat (?xss[c := []])) = set (concat ?xss) - set (?xss ! c)"
    using distinct_concat_update[OF L(5) cl, of "[]"] by simp_all
  have off: "concat (?xss[c := []]) = []" if "\<not> bc_enabled cache"
    using dc(2) L(9)[OF that] by (simp only: set_empty[symmetric]) simp
  have lists: "cache_lists ?t (?xss[c := []])"
    unfolding cache_lists_def using L c dc(1) off by (auto simp: nth_list_update)
  have "b \<in> live s' \<and> len s' b = bc_size cache ! d" if "d < BLOCK_CACHE_CLASSES" "b \<in> set (?xss[c := []] ! d)" for d b
  proof -
    have d: "d \<noteq> c" "b \<in> set (?xss ! d)" using that cl L(2) by (auto simp: nth_list_update split: if_splits)
    then have "b \<notin> set (?xss ! c)" using distinct_concat_other[OF L(5) cl, of d b] that(1) L(2) by auto
    then show ?thesis using cache_okD(3)[OF ok that(1) d(2)] s'(3,4) by auto
  qed
  then have "cache_ok heap_ok live len ?t \<and> cache_blocks ?t = ?xss[c := []]"
    using s'(2) by (intro cache_okI[OF _ lists]) simp_all
  moreover have "cache_owned live ?t = cache_owned live cache"
  proof -
    have "set (?xss ! c) \<subseteq> set (concat ?xss)" by (rule set_nth_concat[OF cl])
    then show ?thesis using calculation dc(2) s'(3) by (auto simp: cache_owned_def simp del: set_concat)
  qed
  ultimately show ?thesis using t by simp
qed

lemma flush_fold_ok:
  assumes ok: "cache_ok heap_ok live len cache" and k: "k \<le> BLOCK_CACHE_CLASSES"
  shows "\<exists>t. fold (flush_class dealloc) [0..<k] (Some cache) = Some t \<and> cache_ok heap_ok live len t \<and>
    cache_owned live t = cache_owned live cache \<and> (\<forall>c < k. cache_blocks t ! c = []) \<and>
    bc_enabled t = bc_enabled cache"
  using k
proof (induction k)
  case 0
  with ok show ?case by simp
next
  case (Suc k)
  then obtain t where t: "fold (flush_class dealloc) [0..<k] (Some cache) = Some t" "cache_ok heap_ok live len t"
      "cache_owned live t = cache_owned live cache" "\<forall>c < k. cache_blocks t ! c = []" "bc_enabled t = bc_enabled cache"
    by auto
  obtain u where u: "flush_class dealloc k (Some t) = Some u" "cache_ok heap_ok live len u"
      "cache_owned live u = cache_owned live t" "cache_blocks u = (cache_blocks t)[k := []]" "bc_enabled u = bc_enabled t"
    using flush_class_ok[OF t(2), of k] Suc.prems by auto
  have "length (cache_blocks t) = BLOCK_CACHE_CLASSES" by (simp add: cache_blocks_def)
  then have "\<forall>c < Suc k. cache_blocks u ! c = []" using u(4) t(4) Suc.prems by (auto simp: nth_list_update less_Suc_eq)
  then show ?case using t u by simp
qed

lemma flush_ok:
  assumes ok: "cache_ok heap_ok live len cache"
  shows "\<exists>t. block_cache_flush dealloc cache = Some t \<and> cache_ok heap_ok live len t \<and>
    cache_owned live t = cache_owned live cache \<and> live (bc_backend t) = cache_owned live t \<and>
    concat (cache_blocks t) = [] \<and> bc_enabled t = bc_enabled cache"
proof -
  obtain t where t: "fold (flush_class dealloc) [0..<BLOCK_CACHE_CLASSES] (Some cache) = Some t" "cache_ok heap_ok live len t"
      "cache_owned live t = cache_owned live cache" "\<forall>c < BLOCK_CACHE_CLASSES. cache_blocks t ! c = []"
      "bc_enabled t = bc_enabled cache"
    using flush_fold_ok[OF ok order_refl] by blast
  let ?u = "t\<lparr>bc_flushes := bc_flushes t + 1\<rparr>"
  have blocks: "cache_blocks ?u = cache_blocks t" by (simp add: cache_blocks_def)
  have "length (cache_blocks t) = BLOCK_CACHE_CLASSES" by (simp add: cache_blocks_def)
  then have empty: "concat (cache_blocks t) = []" using t(4) by (auto simp: in_set_conv_nth)
  have "cache_ok heap_ok live len ?u" using t(2) by (simp add: cache_ok_def blocks cache_lists_def)
  moreover have "cache_owned live t = live (bc_backend t)" "cache_owned live ?u = live (bc_backend t)"
    unfolding cache_owned_def blocks empty by simp_all
  ultimately have "block_cache_flush dealloc cache = Some ?u \<and> cache_ok heap_ok live len ?u \<and>
    cache_owned live ?u = cache_owned live cache \<and> live (bc_backend ?u) = cache_owned live ?u \<and>
    concat (cache_blocks ?u) = [] \<and> bc_enabled ?u = bc_enabled cache"
    using t(1,3,5) empty by (simp add: block_cache_flush_def blocks del: concat_eq_Nil_conv)
  then show ?thesis by blast
qed

lemma backend_alloc_ok:
  assumes ok: "cache_ok heap_ok live len cache" and a: "alloc (bc_backend cache) n = (r, s)"
  shows "cache_ok heap_ok live len (cache\<lparr>bc_backend := s\<rparr>) \<and> cache_blocks (cache\<lparr>bc_backend := s\<rparr>) = cache_blocks cache \<and>
    (case r of None \<Rightarrow> s = bc_backend cache
     | Some p \<Rightarrow> p \<notin> cache_owned live cache \<and> cache_owned live (cache\<lparr>bc_backend := s\<rparr>) = insert p (cache_owned live cache))"
proof -
  let ?c = "cache\<lparr>bc_backend := s\<rparr>"
  have blocks: "cache_blocks ?c = cache_blocks cache" by (simp add: cache_blocks_def)
  have lists: "cache_lists ?c (cache_blocks cache)"
    using cache_okD(2)[OF ok] by (simp add: cache_lists_def)
  show ?thesis
  proof (cases r)
    case None
    with alloc_refused[OF cache_okD(1)[OF ok]] a have "s = bc_backend cache" by simp
    with ok None blocks show ?thesis by simp
  next
    case (Some p)
    have A: "heap_ok s" "p \<notin> live (bc_backend cache)" "live s = insert p (live (bc_backend cache))"
        "\<forall>q \<in> live (bc_backend cache). len s q = len (bc_backend cache) q"
      using alloc_ok[OF cache_okD(1)[OF ok]] a Some by simp_all
    have "cache_ok heap_ok live len ?c"
      using A cache_okD(3)[OF ok] lists by (simp add: cache_ok_def blocks)
    moreover have "p \<notin> set (concat (cache_blocks cache))" using cache_okD(4)[OF ok] A(2) by blast
    then have "cache_owned live ?c = insert p (cache_owned live cache)" "p \<notin> cache_owned live cache"
      unfolding cache_owned_def blocks using A(2,3) by (simp_all del: set_concat) blast
    ultimately show ?thesis using Some blocks by simp
  qed
qed

lemma cache_pop_ok:
  assumes ok: "cache_ok heap_ok live len cache" and hit: "cache_hit cache rounded = Some (c, b)"
  shows "cache_ok heap_ok live len (cache_pop cache c b) \<and> b \<notin> cache_owned live cache \<and>
    cache_owned live (cache_pop cache c b) = insert b (cache_owned live cache) \<and> len (bc_backend cache) b = rounded"
proof -
  let ?xss = "cache_blocks cache" and ?t = "cache_pop cache c b"
  note L = cache_listsD[OF cache_okD(2)[OF ok]]
  have ci: "class_index cache rounded = Some c" and head: "bc_head cache ! c = Some b"
    using hit by (auto simp: cache_hit_def split: option.splits)
  have c: "c < BLOCK_CACHE_CLASSES" "bc_size cache ! c = rounded" using class_index_SomeD[OF L(1) ci] by simp_all
  have cl: "c < length ?xss" using L(2) c by simp
  obtain ys where ys: "?xss ! c = b # ys" "chain (bc_link cache) (bc_link cache b) ys"
    using L(6)[OF c(1)] head by (cases "?xss ! c") auto
  have dist: "distinct (b # ys)" using distinct_concat_nth[OF L(5) cl] ys(1) by simp
  have dc: "distinct (concat (?xss[c := ys]))" "set (concat (?xss[c := ys])) = set (concat ?xss) - set (?xss ! c) \<union> set ys"
    using distinct_concat_update[OF L(5) cl, of ys] dist ys(1) by auto
  have sub: "set (?xss ! c) \<subseteq> set (concat ?xss)" by (rule set_nth_concat[OF cl])
  have off: "bc_enabled cache" using sub ys(1) L(9) by (cases "bc_enabled cache") auto
  have cnt: "bc_count cache ! c = Suc (length ys)" "bc_count cache ! c \<le> BLOCK_CACHE_DEPTH"
    using L(7,8)[OF c(1)] ys(1) by simp_all
  have lists: "cache_lists ?t (?xss[c := ys])"
    unfolding cache_lists_def using L c dc(1) off ys cnt by (auto simp: cache_pop_def nth_list_update)
  have "x \<in> live (bc_backend cache) \<and> len (bc_backend cache) x = bc_size cache ! d"
    if "d < BLOCK_CACHE_CLASSES" "x \<in> set (?xss[c := ys] ! d)" for d x
    using cache_okD(3)[OF ok that(1), of x] that ys(1) cl by (cases "d = c") auto
  then have "cache_ok heap_ok live len ?t \<and> cache_blocks ?t = ?xss[c := ys]"
    using cache_okD(1)[OF ok] by (intro cache_okI[OF _ lists]) (simp_all add: cache_pop_def)
  moreover have b: "b \<in> set (concat ?xss)" "b \<in> live (bc_backend cache)" "len (bc_backend cache) b = rounded"
    using sub ys(1) cache_okD(3)[OF ok c(1), of b] c(2) by auto
  moreover have "cache_owned live ?t = insert b (cache_owned live cache)"
  proof -
    have "set (concat ?xss) = insert b (set (concat (?xss[c := ys])))" "b \<notin> set (concat (?xss[c := ys]))"
      using dc(2) sub ys(1) dist by auto
    then show ?thesis using calculation(1) b(2) by (auto simp: cache_owned_def cache_pop_def simp del: set_concat)
  qed
  ultimately show ?thesis by (simp add: cache_owned_def del: set_concat)
qed

lemma malloc_ok:
  assumes ok: "cache_ok heap_ok live len cache"
  shows "\<exists>r t. block_cache_malloc alloc dealloc cache n rounded = Some (r, t) \<and> cache_ok heap_ok live len t \<and>
    (case r of Some p \<Rightarrow> p \<notin> cache_owned live cache \<and> cache_owned live t = insert p (cache_owned live cache)
     | None \<Rightarrow> cache_owned live t = cache_owned live cache)"
proof (cases "if bc_enabled cache then cache_hit cache rounded else None")
  case (Some cb)
  then obtain c b where cb: "cb = (c, b)" "bc_enabled cache" "cache_hit cache rounded = Some (c, b)"
    by (cases cb) (auto split: if_splits)
  with cache_pop_ok[OF ok cb(3)] Some show ?thesis by (simp add: block_cache_malloc_def)
next
  case None
  obtain c1 where c1: "c1 = (if bc_enabled cache then cache\<lparr>bc_misses := bc_misses cache + 1\<rparr> else cache)" by blast
  have same: "cache_blocks (cache\<lparr>bc_misses := m\<rparr>) = cache_blocks cache" for m by (simp add: cache_blocks_def)
  have ok1: "cache_ok heap_ok live len c1" using ok by (simp add: c1 cache_ok_def same cache_lists_def)
  have own1: "cache_owned live c1 = cache_owned live cache" by (simp add: c1 cache_owned_def same)
  obtain r s where a: "alloc (bc_backend c1) n = (r, s)" by fastforce
  note A = backend_alloc_ok[OF ok1 a]
  have eq: "block_cache_malloc alloc dealloc cache n rounded =
    (case r of Some p \<Rightarrow> Some (Some p, c1\<lparr>bc_backend := s\<rparr>)
     | None \<Rightarrow> if bc_enabled (c1\<lparr>bc_backend := s\<rparr>) \<and> block_cache_held (c1\<lparr>bc_backend := s\<rparr>) \<noteq> 0 then
         (case block_cache_flush dealloc (c1\<lparr>bc_backend := s\<rparr>) of None \<Rightarrow> None
          | Some c3 \<Rightarrow> (case alloc (bc_backend c3) n of (block, s') \<Rightarrow> Some (block, c3\<lparr>bc_backend := s'\<rparr>)))
       else Some (None, c1\<lparr>bc_backend := s\<rparr>))"
    unfolding block_cache_malloc_def None Let_def c1[symmetric] a by (cases r) simp_all
  show ?thesis
  proof (cases r)
    case (Some p)
    with A own1 show ?thesis by (simp add: eq)
  next
    case refused: None
    let ?c2 = "c1\<lparr>bc_backend := s\<rparr>"
    have ok2: "cache_ok heap_ok live len ?c2" using A by simp
    have "s = bc_backend c1" using A refused by simp
    then have own2: "cache_owned live ?c2 = cache_owned live cache" using own1 by simp
    show ?thesis
    proof (cases "bc_enabled ?c2 \<and> block_cache_held ?c2 \<noteq> 0")
      case False
      then have "block_cache_malloc alloc dealloc cache n rounded = Some (None, ?c2)"
        unfolding eq refused by (simp only: option.case if_False)
      with ok2 own2 show ?thesis by simp
    next
      case True
      obtain t where t: "block_cache_flush dealloc ?c2 = Some t" "cache_ok heap_ok live len t"
          "cache_owned live t = cache_owned live ?c2"
        using flush_ok[OF ok2] by blast
      obtain r' s' where a': "alloc (bc_backend t) n = (r', s')" by fastforce
      have m: "block_cache_malloc alloc dealloc cache n rounded = Some (r', t\<lparr>bc_backend := s'\<rparr>)"
        unfolding eq refused using True t(1) a' by (simp only: option.case if_True prod.case simp_thms)
      note B = backend_alloc_ok[OF t(2) a']
      show ?thesis
      proof (cases r')
        case None
        then have "t\<lparr>bc_backend := s'\<rparr> = t" using B by simp
        with m None t(2,3) own2 show ?thesis by simp
      next
        case (Some p)
        with m B t(3) own2 show ?thesis by simp
      qed
    qed
  qed
qed

lemma backend_free_ok:
  assumes ok: "cache_ok heap_ok live len cache" and b: "b \<in> cache_owned live cache"
  shows "cache_ok heap_ok live len (cache\<lparr>bc_backend := dealloc (bc_backend cache) b\<rparr>) \<and>
    cache_owned live (cache\<lparr>bc_backend := dealloc (bc_backend cache) b\<rparr>) = cache_owned live cache - {b}"
proof -
  let ?c = "cache\<lparr>bc_backend := dealloc (bc_backend cache) b\<rparr>"
  have blocks: "cache_blocks ?c = cache_blocks cache" by (simp add: cache_blocks_def)
  have bl: "b \<in> live (bc_backend cache)" "b \<notin> set (concat (cache_blocks cache))"
    using b by (simp_all add: cache_owned_def del: set_concat)
  note D = dealloc_ok[OF cache_okD(1)[OF ok] bl(1)]
  have "x \<in> live (bc_backend cache) - {b}" if "c < BLOCK_CACHE_CLASSES" "x \<in> set (cache_blocks cache ! c)" for c x
    using cache_okD(3)[OF ok that] bl(2) set_nth_concat[of c "cache_blocks cache"] that by (auto simp: cache_blocks_def simp del: set_concat)
  then have "cache_ok heap_ok live len ?c"
    using D cache_okD(2,3)[OF ok] by (simp add: cache_ok_def blocks cache_lists_def)
  moreover have "cache_owned live ?c = cache_owned live cache - {b}"
    unfolding cache_owned_def blocks using D by auto
  ultimately show ?thesis by simp
qed

lemma cache_push_ok:
  assumes ok: "cache_ok heap_ok live len cache" and b: "b \<in> cache_owned live cache" and on: "bc_enabled cache"
    and ci: "class_index cache (len (bc_backend cache) b) = Some c" and room: "bc_count cache ! c < BLOCK_CACHE_DEPTH"
  shows "cache_ok heap_ok live len (cache_push cache c b) \<and>
    cache_owned live (cache_push cache c b) = cache_owned live cache - {b}"
proof -
  let ?xss = "cache_blocks cache" and ?t = "cache_push cache c b"
  note L = cache_listsD[OF cache_okD(2)[OF ok]]
  have c: "c < BLOCK_CACHE_CLASSES" "bc_size cache ! c = len (bc_backend cache) b" using class_index_SomeD[OF L(1) ci] by simp_all
  have cl: "c < length ?xss" using L(2) c by simp
  have bl: "b \<in> live (bc_backend cache)" "b \<notin> set (concat ?xss)" using b by (simp_all add: cache_owned_def del: set_concat)
  have out: "b \<notin> set (?xss ! d)" if "d < BLOCK_CACHE_CLASSES" for d
    using bl(2) set_nth_concat[of d ?xss] that L(2) by auto
  have dc: "distinct (concat (?xss[c := b # ?xss ! c]))"
      "set (concat (?xss[c := b # ?xss ! c])) = set (concat ?xss) - set (?xss ! c) \<union> set (b # ?xss ! c)"
    using distinct_concat_update[OF L(5) cl, of "b # ?xss ! c"] distinct_concat_nth[OF L(5) cl] out[OF c(1)] bl(2)
    by (auto simp del: set_concat)
  have ch: "chain ((bc_link cache)(b := x)) (bc_head cache ! d) (?xss ! d)" if "d < BLOCK_CACHE_CLASSES" for d x
  proof (rule chain_cong[OF _ L(6)[OF that]])
    fix y assume "y \<in> set (?xss ! d)"
    then have "y \<noteq> b" using out[OF that] by blast
    then show "((bc_link cache)(b := x)) y = bc_link cache y" by simp
  qed
  have lists: "cache_lists ?t (?xss[c := b # ?xss ! c])"
  proof -
    have "chain (bc_link ?t) (bc_head ?t ! d) (?xss[c := b # ?xss ! c] ! d) \<and>
        length (?xss[c := b # ?xss ! c] ! d) = bc_count ?t ! d \<and> bc_count ?t ! d \<le> BLOCK_CACHE_DEPTH"
      if d: "d < BLOCK_CACHE_CLASSES" for d
    proof (cases "d = c")
      case True
      then show ?thesis using ch[OF c(1)] L(7)[OF c(1)] L(2-4) c(1) room by (simp add: cache_push_def)
    next
      case False
      then show ?thesis using ch[OF d] L(7,8)[OF d] by (simp add: cache_push_def)
    qed
    then show ?thesis
      unfolding cache_lists_def using L(1-4) dc(1) on by (simp add: cache_push_def)
  qed
  have "x \<in> live (bc_backend cache) \<and> len (bc_backend cache) x = bc_size cache ! d"
    if "d < BLOCK_CACHE_CLASSES" "x \<in> set (?xss[c := b # ?xss ! c] ! d)" for d x
    using cache_okD(3)[OF ok that(1), of x] that bl(1) c(2) cl by (cases "d = c") auto
  then have "cache_ok heap_ok live len ?t \<and> cache_blocks ?t = ?xss[c := b # ?xss ! c]"
    using cache_okD(1)[OF ok] by (intro cache_okI[OF _ lists]) (simp_all add: cache_push_def)
  moreover have "set (concat (?xss[c := b # ?xss ! c])) = insert b (set (concat ?xss))"
    using dc(2) set_nth_concat[OF cl] by auto
  ultimately show ?thesis by (auto simp: cache_owned_def cache_push_def simp del: set_concat)
qed

lemma free_ok:
  assumes ok: "cache_ok heap_ok live len cache" and b: "b \<in> cache_owned live cache"
  shows "cache_ok heap_ok live len (block_cache_free dealloc len cache (Some b)) \<and>
    cache_owned live (block_cache_free dealloc len cache (Some b)) = cache_owned live cache - {b}"
proof (cases "if bc_enabled cache then class_index cache (len (bc_backend cache) b) else None")
  case None
  with backend_free_ok[OF ok b] show ?thesis by (simp add: block_cache_free_def)
next
  case (Some c)
  then have "bc_enabled cache" "class_index cache (len (bc_backend cache) b) = Some c" by (auto split: if_splits)
  with cache_push_ok[OF ok b this] backend_free_ok[OF ok b] show ?thesis by (simp add: block_cache_free_def)
qed

lemma set_enabled_ok:
  assumes ok: "cache_ok heap_ok live len cache"
  shows "\<exists>t. block_cache_set_enabled dealloc cache enabled = Some t \<and> cache_ok heap_ok live len t \<and>
    cache_owned live t = cache_owned live cache \<and> bc_enabled t = enabled \<and>
    (\<not> enabled \<longrightarrow> live (bc_backend t) = cache_owned live t)"
proof -
  have flag: "cache_ok heap_ok live len (t\<lparr>bc_enabled := e\<rparr>) \<and> cache_owned live (t\<lparr>bc_enabled := e\<rparr>) = cache_owned live t"
    if "cache_ok heap_ok live len t" "e \<or> concat (cache_blocks t) = []" for t e
  proof -
    have "cache_blocks (t\<lparr>bc_enabled := e\<rparr>) = cache_blocks t" by (simp add: cache_blocks_def)
    then show ?thesis using that by (auto simp: cache_ok_def cache_lists_def cache_owned_def)
  qed
  consider (same) "bc_enabled cache = enabled" | (off) "bc_enabled cache" "\<not> enabled" | (on) "\<not> bc_enabled cache" enabled
    by blast
  then show ?thesis
  proof cases
    case same
    have "live (bc_backend cache) = cache_owned live cache" if "\<not> enabled"
      using cache_listsD(9)[OF cache_okD(2)[OF ok]] same that
      by (simp add: cache_owned_def del: concat_eq_Nil_conv set_concat)
    with same ok show ?thesis by (simp add: block_cache_set_enabled_def)
  next
    case off
    obtain t where "block_cache_flush dealloc cache = Some t" "cache_ok heap_ok live len t"
        "cache_owned live t = cache_owned live cache" "live (bc_backend t) = cache_owned live t" "concat (cache_blocks t) = []"
      using flush_ok[OF ok] by blast
    with off flag[of t False] show ?thesis by (simp add: block_cache_set_enabled_def del: concat_eq_Nil_conv)
  next
    case on
    with ok flag[OF ok, of True] show ?thesis by (simp add: block_cache_set_enabled_def)
  qed
qed

end

section \<open>Properties\<close>

text \<open>Property C23: over any heap that keeps the allocator contract, an allocation through the cache
  always returns (the walk of a flush never runs out), it never hands out a block the guest
  already owns, and what the guest owns grows by exactly the block handed out; the lists stay
  chains of distinct live blocks of their class's size, at most eight each.\<close>

theorem block_cache_malloc_fresh:
  assumes "allocator alloc dealloc len live heap_ok" "cache_ok heap_ok live len cache"
  shows "\<exists>r t. block_cache_malloc alloc dealloc cache n rounded = Some (r, t) \<and> cache_ok heap_ok live len t \<and>
    (case r of Some p \<Rightarrow> p \<notin> cache_owned live cache \<and> cache_owned live t = insert p (cache_owned live cache)
     | None \<Rightarrow> cache_owned live t = cache_owned live cache)"
  by (rule allocator.malloc_ok[OF assms])

definition cache_sample :: "shiki_heap block_cache" where
  "cache_sample = block_cache_init (foldl heap_apply heap_zero [HBegin 64 (Some 16)]) [12, 16] 2 True"

lemma cache_sample_ok: "cache_ok heap_inv heap_live heap_length cache_sample"
  unfolding cache_sample_def using heap_alloc.init_ok[OF heap_run.reachable_inv] by blast

theorem block_cache_malloc_fresh_witness:
  "\<exists>r t. block_cache_malloc (heap_malloc_plain 8) (\<lambda>h p. shiki_heap_free h (Some p)) cache_sample 12 12 = Some (r, t) \<and>
     cache_ok heap_inv heap_live heap_length t"
  using block_cache_malloc_fresh[OF heap_alloc.allocator_axioms[where malign = 8] cache_sample_ok, of 12 12] by blast

text \<open>Freeing a block the guest owns takes exactly that block from what it owns, whether it
  is kept or goes back to the heap; turning the cache off always returns and gives every
  kept block back, so that nothing but the guest's own blocks stays allocated.\<close>

theorem block_cache_free_no_leak:
  assumes "allocator alloc dealloc len live heap_ok" "cache_ok heap_ok live len cache" "b \<in> cache_owned live cache"
  shows "cache_owned live (block_cache_free dealloc len cache (Some b)) = cache_owned live cache - {b} \<and>
    (\<exists>t. block_cache_set_enabled dealloc (block_cache_free dealloc len cache (Some b)) False = Some t \<and>
       cache_ok heap_ok live len t \<and> live (bc_backend t) = cache_owned live cache - {b})"
  using allocator.free_ok[OF assms] allocator.set_enabled_ok[OF assms(1), of "block_cache_free dealloc len cache (Some b)" False]
  by auto

theorem block_cache_free_no_leak_witness:
  "\<exists>b t. block_cache_malloc (heap_malloc_plain 8) (\<lambda>h p. shiki_heap_free h (Some p)) cache_sample 12 12 = Some (Some b, t) \<and>
     cache_owned heap_live (block_cache_free (\<lambda>h p. shiki_heap_free h (Some p)) heap_length t (Some b)) =
       cache_owned heap_live t - {b}"
proof -
  let ?m = "block_cache_malloc (heap_malloc_plain 8) (\<lambda>h p. shiki_heap_free h (Some p)) cache_sample 12 12"
  have "map_option fst ?m = Some (Some 16)" by code_simp
  then obtain t where m: "?m = Some (Some 16, t)" by auto
  with heap_alloc.malloc_ok[OF cache_sample_ok, where malign = 8 and n = 12 and rounded = 12]
  have t: "cache_ok heap_inv heap_live heap_length t" "16 \<in> cache_owned heap_live t" by auto
  from block_cache_free_no_leak[OF heap_alloc.allocator_axioms[where malign = 8] t] m show ?thesis by blast
qed

end
