(* ===== verification/FpTicket.thy ===== *)
theory FpTicket
  imports Prelude
begin

text \<open>
  Admission of floating-point tasks (standalone/fp_ticket/fp_ticket.c and .h): sixteen reservations
  over two cores, with the processor load of each reservation in parts per million, at most one
  floating-point reservation per core, and tickets whose identities are never reused.

  A request is immutable storage, so a slot holds its value.  \<open>fm_self\<close> is the manager's address,
  which a ticket carries as its owner.  The bit masks are 16-bit words read with \<open>bit\<close>.
\<close>

section \<open>Data\<close>

definition FP_TICKET_CORES :: nat where "FP_TICKET_CORES = 2"
definition FP_TICKET_SLOTS :: nat where "FP_TICKET_SLOTS = 16"
definition FP_TICKET_FULL_LOAD :: u32 where "FP_TICKET_FULL_LOAD = 1000000"
definition FP_TICKET_ANY_CORE :: u8 where "FP_TICKET_ANY_CORE = 3"
definition FP_TICKET_USES_FP :: u8 where "FP_TICKET_USES_FP = 1"

datatype fp_ticket_result =
    FP_TICKET_OK | FP_TICKET_INVALID | FP_TICKET_NO_CAPACITY | FP_TICKET_NO_SLOT | FP_TICKET_STALE
  | FP_TICKET_ID_EXHAUSTED | FP_TICKET_FP_BUSY

record fp_request =
  rq_runtime_us :: u32
  rq_period_us :: u32
  rq_allowed :: u8
  rq_flags :: u8
  rq_priority :: u32

record fp_info =
  in_core :: nat
  in_load_ppm :: u32
  in_request :: fp_request

record fp_slot =
  sl_request :: "fp_request option"
  sl_id :: u32

record fp_manager =
  fm_self :: nat
  fm_capacity :: "u32 list"
  fm_next_id :: u32
  fm_live :: u16
  fm_core1 :: u16
  fm_fp :: u16
  fm_slots :: "fp_slot list"

record fp_ticket =
  tk_owner :: nat
  tk_id :: u32

record fp_snapshot =
  sn_capacity :: "u32 list"
  sn_used :: "u32 list"
  sn_reservations :: "u32 list"
  sn_non_fp :: "u32 list"
  sn_fp_cores :: u8

definition slot_zero :: fp_slot where "slot_zero = \<lparr>sl_request = None, sl_id = 0\<rparr>"

section \<open>Operations\<close>

definition load_of :: "fp_request \<Rightarrow> u32" where
  "load_of r = ucast ((ucast (rq_runtime_us r) * ucast FP_TICKET_FULL_LOAD + ucast (rq_period_us r) - 1)
                      div (ucast (rq_period_us r) :: u64))"

definition uses_fp :: "fp_request \<Rightarrow> bool" where
  "uses_fp r \<longleftrightarrow> rq_flags r AND FP_TICKET_USES_FP \<noteq> 0"

definition fp_ticket_init :: "nat \<Rightarrow> u32 \<Rightarrow> u32 \<Rightarrow> fp_ticket_result \<times> fp_manager option" where
  "fp_ticket_init self core0 core1 =
     (if core0 > FP_TICKET_FULL_LOAD \<or> core1 > FP_TICKET_FULL_LOAD \<or> (core0 = 0 \<and> core1 = 0)
      then (FP_TICKET_INVALID, None)
      else (FP_TICKET_OK, Some \<lparr>fm_self = self, fm_capacity = [core0, core1], fm_next_id = 1, fm_live = 0,
              fm_core1 = 0, fm_fp = 0, fm_slots = replicate FP_TICKET_SLOTS slot_zero\<rparr>))"

definition slot_core :: "fp_manager \<Rightarrow> nat \<Rightarrow> nat" where
  "slot_core m i = (if bit (fm_core1 m) i then 1 else 0)"

definition snapshot_slot :: "fp_manager \<Rightarrow> nat \<Rightarrow> fp_snapshot \<Rightarrow> fp_snapshot" where
  "snapshot_slot m i s =
     (if \<not> bit (fm_live m) i then s
      else let core = slot_core m i;
               s1 = s\<lparr>sn_used := (sn_used s)[core := sn_used s ! core + load_of (the (sl_request (fm_slots m ! i)))],
                      sn_reservations := (sn_reservations s)[core := sn_reservations s ! core + 1]\<rparr> in
        if bit (fm_fp m) i then s1\<lparr>sn_fp_cores := set_bit core (sn_fp_cores s1)\<rparr>
        else s1\<lparr>sn_non_fp := (sn_non_fp s1)[core := sn_non_fp s1 ! core + 1]\<rparr>)"

definition fp_ticket_snapshot :: "fp_manager \<Rightarrow> fp_snapshot" where
  "fp_ticket_snapshot m =
     fold (snapshot_slot m) [0..<FP_TICKET_SLOTS]
       \<lparr>sn_capacity = fm_capacity m, sn_used = [0, 0], sn_reservations = [0, 0], sn_non_fp = [0, 0], sn_fp_cores = 0\<rparr>"

text \<open>One turn of the loop that picks a core; \<open>best = FP_TICKET_CORES\<close> is none yet.\<close>

definition pick_core :: "fp_manager \<Rightarrow> fp_request \<Rightarrow> fp_snapshot \<Rightarrow> u8 \<Rightarrow> u32 \<Rightarrow> nat \<Rightarrow> nat \<times> u32 \<Rightarrow> nat \<times> u32" where
  "pick_core m r st eligible load core acc =
     (case acc of (best, best_used) \<Rightarrow>
        let cap = fm_capacity m ! core in
        if \<not> bit eligible core \<or> sn_used st ! core > cap \<or> load > cap - sn_used st ! core then (best, best_used)
        else
          let projected = sn_used st ! core + load in
          if best = FP_TICKET_CORES \<or>
             (ucast projected * ucast (fm_capacity m ! best) :: u64) < ucast best_used * ucast cap \<or>
             ((ucast projected * ucast (fm_capacity m ! best) :: u64) = ucast best_used * ucast cap \<and>
              \<not> uses_fp r \<and> sn_non_fp st ! core < sn_non_fp st ! best)
          then (core, projected) else (best, best_used))"

definition request_valid :: "fp_request \<Rightarrow> bool" where
  "request_valid r \<longleftrightarrow>
     \<not> (rq_runtime_us r = 0 \<or> rq_period_us r = 0 \<or> rq_runtime_us r > rq_period_us r \<or> rq_allowed r = 0 \<or>
        rq_allowed r AND NOT FP_TICKET_ANY_CORE \<noteq> 0 \<or> rq_flags r AND NOT FP_TICKET_USES_FP \<noteq> 0)"

definition drop_disabled :: "fp_manager \<Rightarrow> nat \<Rightarrow> u8 \<Rightarrow> u8" where
  "drop_disabled m core eligible = (if fm_capacity m ! core = 0 then unset_bit core eligible else eligible)"

definition fp_ticket_acquire :: "fp_manager \<Rightarrow> fp_request \<Rightarrow> fp_ticket_result \<times> fp_ticket option \<times> fp_manager" where
  "fp_ticket_acquire m r =
     (if \<not> request_valid r then (FP_TICKET_INVALID, None, m)
      else if fm_next_id m = 0 then (FP_TICKET_ID_EXHAUSTED, None, m)
      else case find (\<lambda>i. \<not> bit (fm_live m) i) [0..<FP_TICKET_SLOTS] of
        None \<Rightarrow> (FP_TICKET_NO_SLOT, None, m)
      | Some slot \<Rightarrow>
        let load = load_of r;
            st = fp_ticket_snapshot m;
            eligible = fold (drop_disabled m) [0..<FP_TICKET_CORES] (rq_allowed r) in
        if eligible = 0 then (FP_TICKET_NO_CAPACITY, None, m)
        else
          let eligible1 = (if uses_fp r then eligible AND NOT (sn_fp_cores st) else eligible) in
          if uses_fp r \<and> eligible1 = 0 then (FP_TICKET_FP_BUSY, None, m)
          else
            let best = fst (fold (pick_core m r st eligible1 load) [0..<FP_TICKET_CORES] (FP_TICKET_CORES, 0)) in
            if best = FP_TICKET_CORES then (FP_TICKET_NO_CAPACITY, None, m)
            else (FP_TICKET_OK, Some \<lparr>tk_owner = fm_self m, tk_id = fm_next_id m\<rparr>,
              m\<lparr>fm_slots := (fm_slots m)[slot := \<lparr>sl_request = Some r, sl_id = fm_next_id m\<rparr>],
                fm_next_id := fm_next_id m + 1,
                fm_live := set_bit slot (fm_live m),
                fm_core1 := (if best = 1 then set_bit slot (fm_core1 m) else fm_core1 m),
                fm_fp := (if uses_fp r then set_bit slot (fm_fp m) else fm_fp m)\<rparr>))"

definition fp_find :: "fp_manager \<Rightarrow> fp_ticket \<Rightarrow> nat option" where
  "fp_find m t =
     (if tk_owner t \<noteq> fm_self m \<or> tk_id t = 0 then None
      else find (\<lambda>i. bit (fm_live m) i \<and> sl_id (fm_slots m ! i) = tk_id t) [0..<FP_TICKET_SLOTS])"

definition fp_ticket_get :: "fp_manager \<Rightarrow> fp_ticket \<Rightarrow> fp_ticket_result \<times> fp_info option" where
  "fp_ticket_get m t =
     (case fp_find m t of
        None \<Rightarrow> (FP_TICKET_STALE, None)
      | Some i \<Rightarrow> (FP_TICKET_OK, Some \<lparr>in_core = slot_core m i,
            in_load_ppm = load_of (the (sl_request (fm_slots m ! i))), in_request = the (sl_request (fm_slots m ! i))\<rparr>))"

definition fp_ticket_release :: "fp_manager \<Rightarrow> fp_ticket \<Rightarrow> fp_ticket_result \<times> fp_manager" where
  "fp_ticket_release m t =
     (case fp_find m t of
        None \<Rightarrow> (FP_TICKET_STALE, m)
      | Some i \<Rightarrow> (FP_TICKET_OK, m\<lparr>fm_live := unset_bit i (fm_live m), fm_core1 := unset_bit i (fm_core1 m),
            fm_fp := unset_bit i (fm_fp m), fm_slots := (fm_slots m)[i := slot_zero]\<rparr>))"

section \<open>Loads\<close>

lemma load_of_value:
  assumes "rq_runtime_us r \<le> rq_period_us r" "rq_period_us r \<noteq> 0" "rq_runtime_us r \<noteq> 0"
  shows "unat (load_of r) = (unat (rq_runtime_us r) * 1000000 + unat (rq_period_us r) - 1) div unat (rq_period_us r) \<and>
    0 < unat (load_of r) \<and> unat (load_of r) \<le> 1000000"
proof -
  obtain t p where tp: "t = unat (rq_runtime_us r)" "p = unat (rq_period_us r)" by blast
  have b: "0 < t" "t \<le> p" "p < 2 ^ 32"
    using assms unsigned_less[of "rq_period_us r"] by (simp_all add: tp word_le_nat_alt unat_gt_0)
  have up: "unat (ucast (rq_period_us r) :: u64) = p" "unat (ucast (rq_runtime_us r) :: u64) = t"
    using b unfolding tp by (simp_all add: unsigned_ucast_eq take_bit_nat_eq_self)
  have full: "unat (ucast FP_TICKET_FULL_LOAD :: u64) = 1000000" by (simp add: FP_TICKET_FULL_LOAD_def)
  have "unat (ucast (rq_runtime_us r) * ucast FP_TICKET_FULL_LOAD :: u64) = t * 1000000"
    using b by (subst unat_mult_lem[THEN iffD1]) (simp_all add: up full)
  then have "unat (ucast (rq_runtime_us r) * ucast FP_TICKET_FULL_LOAD + ucast (rq_period_us r) :: u64) = t * 1000000 + p"
    using b by (subst unat_add_lem[THEN iffD1]) (simp_all add: up)
  then have s: "unat (ucast (rq_runtime_us r) * ucast FP_TICKET_FULL_LOAD + ucast (rq_period_us r) - 1 :: u64) = t * 1000000 + p - 1"
    using b by (subst unat_sub) (simp_all add: word_le_nat_alt)
  let ?q = "(t * 1000000 + p - 1) div p"
  have q: "?q \<le> 1000000"
  proof -
    have "t * 1000000 + p - 1 < (1000000 + 1) * p" using b by (simp add: algebra_simps)
    then show ?thesis using b by (simp add: less_mult_imp_div_less flip: less_Suc_eq_le)
  qed
  have "0 < ?q" using b by (simp add: div_greater_zero_iff)
  moreover have "unat (load_of r) = ?q"
  proof -
    have d: "unat ((ucast (rq_runtime_us r) * ucast FP_TICKET_FULL_LOAD + ucast (rq_period_us r) - 1)
        div (ucast (rq_period_us r) :: u64)) = ?q" by (simp only: unat_div s up)
    have "take_bit 32 ?q = ?q" using q by (intro take_bit_nat_eq_self) simp
    then show ?thesis unfolding load_of_def unsigned_ucast_eq d by simp
  qed
  ultimately show ?thesis using q tp by simp
qed

section \<open>The invariant\<close>

definition fp_live :: "fp_manager \<Rightarrow> nat \<Rightarrow> bool" where
  "fp_live m i \<longleftrightarrow> bit (fm_live m) i"

text \<open>The load the live reservations put on a core.\<close>

definition core_load :: "fp_manager \<Rightarrow> nat \<Rightarrow> nat \<Rightarrow> nat" where
  "core_load m n c = (\<Sum>i < n. if fp_live m i \<and> slot_core m i = c
     then unat (load_of (the (sl_request (fm_slots m ! i)))) else 0)"

definition slot_ok :: "fp_manager \<Rightarrow> nat \<Rightarrow> bool" where
  "slot_ok m i \<longleftrightarrow>
     (\<exists>r. sl_request (fm_slots m ! i) = Some r \<and> request_valid r \<and> (bit (fm_fp m) i \<longleftrightarrow> uses_fp r) \<and>
        bit (rq_allowed r) (slot_core m i) \<and>
        sl_id (fm_slots m ! i) \<noteq> 0 \<and> (fm_next_id m = 0 \<or> sl_id (fm_slots m ! i) < fm_next_id m))"

definition fp_inv :: "fp_manager \<Rightarrow> bool" where
  "fp_inv m \<longleftrightarrow>
     length (fm_slots m) = FP_TICKET_SLOTS \<and> length (fm_capacity m) = FP_TICKET_CORES \<and>
     (\<forall>c < FP_TICKET_CORES. fm_capacity m ! c \<le> FP_TICKET_FULL_LOAD \<and>
        core_load m FP_TICKET_SLOTS c \<le> unat (fm_capacity m ! c)) \<and>
     (\<forall>i < FP_TICKET_SLOTS. fp_live m i \<longrightarrow> slot_ok m i) \<and>
     (\<forall>i < FP_TICKET_SLOTS. \<not> fp_live m i \<longrightarrow> \<not> bit (fm_core1 m) i \<and> \<not> bit (fm_fp m) i) \<and>
     (\<forall>i < FP_TICKET_SLOTS. \<forall>j < FP_TICKET_SLOTS. fp_live m i \<longrightarrow> fp_live m j \<longrightarrow>
        sl_id (fm_slots m ! i) = sl_id (fm_slots m ! j) \<longrightarrow> i = j) \<and>
     (\<forall>i < FP_TICKET_SLOTS. \<forall>j < FP_TICKET_SLOTS. fp_live m i \<longrightarrow> fp_live m j \<longrightarrow>
        bit (fm_fp m) i \<longrightarrow> bit (fm_fp m) j \<longrightarrow> slot_core m i = slot_core m j \<longrightarrow> i = j)"

lemma fp_invD:
  assumes "fp_inv m"
  shows "length (fm_slots m) = FP_TICKET_SLOTS" "c < FP_TICKET_CORES \<Longrightarrow> core_load m FP_TICKET_SLOTS c \<le> unat (fm_capacity m ! c)"
    "i < FP_TICKET_SLOTS \<Longrightarrow> fp_live m i \<Longrightarrow> slot_ok m i"
    "i < FP_TICKET_SLOTS \<Longrightarrow> \<not> fp_live m i \<Longrightarrow> \<not> bit (fm_core1 m) i \<and> \<not> bit (fm_fp m) i"
    "i < FP_TICKET_SLOTS \<Longrightarrow> j < FP_TICKET_SLOTS \<Longrightarrow> fp_live m i \<Longrightarrow> fp_live m j \<Longrightarrow>
      sl_id (fm_slots m ! i) = sl_id (fm_slots m ! j) \<Longrightarrow> i = j"
    "i < FP_TICKET_SLOTS \<Longrightarrow> j < FP_TICKET_SLOTS \<Longrightarrow> fp_live m i \<Longrightarrow> fp_live m j \<Longrightarrow>
      bit (fm_fp m) i \<Longrightarrow> bit (fm_fp m) j \<Longrightarrow> slot_core m i = slot_core m j \<Longrightarrow> i = j"
    "length (fm_capacity m) = FP_TICKET_CORES" "c < FP_TICKET_CORES \<Longrightarrow> fm_capacity m ! c \<le> FP_TICKET_FULL_LOAD"
  using assms unfolding fp_inv_def by simp_all

lemma fp_invI:
  assumes "length (fm_slots m) = FP_TICKET_SLOTS" "length (fm_capacity m) = FP_TICKET_CORES"
    "\<And>c. c < FP_TICKET_CORES \<Longrightarrow> fm_capacity m ! c \<le> FP_TICKET_FULL_LOAD"
    "\<And>c. c < FP_TICKET_CORES \<Longrightarrow> core_load m FP_TICKET_SLOTS c \<le> unat (fm_capacity m ! c)"
    "\<And>i. i < FP_TICKET_SLOTS \<Longrightarrow> fp_live m i \<Longrightarrow> slot_ok m i"
    "\<And>i. i < FP_TICKET_SLOTS \<Longrightarrow> \<not> fp_live m i \<Longrightarrow> \<not> bit (fm_core1 m) i \<and> \<not> bit (fm_fp m) i"
    "\<And>i j. i < FP_TICKET_SLOTS \<Longrightarrow> j < FP_TICKET_SLOTS \<Longrightarrow> fp_live m i \<Longrightarrow> fp_live m j \<Longrightarrow>
      sl_id (fm_slots m ! i) = sl_id (fm_slots m ! j) \<Longrightarrow> i = j"
    "\<And>i j. i < FP_TICKET_SLOTS \<Longrightarrow> j < FP_TICKET_SLOTS \<Longrightarrow> fp_live m i \<Longrightarrow> fp_live m j \<Longrightarrow>
      bit (fm_fp m) i \<Longrightarrow> bit (fm_fp m) j \<Longrightarrow> slot_core m i = slot_core m j \<Longrightarrow> i = j"
  shows "fp_inv m"
  unfolding fp_inv_def using assms by simp

lemma slot_core_less: "slot_core m i < FP_TICKET_CORES"
  by (simp add: slot_core_def FP_TICKET_CORES_def)

lemma core_load_mono: "n \<le> k \<Longrightarrow> core_load m n c \<le> core_load m k c"
  unfolding core_load_def by (rule sum_mono2) auto

lemma snapshot_fold:
  assumes "n \<le> FP_TICKET_SLOTS" "\<forall>c < FP_TICKET_CORES. core_load m FP_TICKET_SLOTS c < 2 ^ 32"
  shows "let s = fold (snapshot_slot m) [0..<n]
      \<lparr>sn_capacity = fm_capacity m, sn_used = [0, 0], sn_reservations = [0, 0], sn_non_fp = [0, 0], sn_fp_cores = 0\<rparr> in
    length (sn_used s) = FP_TICKET_CORES \<and>
    (\<forall>c < FP_TICKET_CORES. unat (sn_used s ! c) = core_load m n c) \<and>
    (\<forall>c. bit (sn_fp_cores s) c \<longleftrightarrow> (\<exists>i < n. fp_live m i \<and> bit (fm_fp m) i \<and> slot_core m i = c))"
  using assms(1)
proof (induction n)
  case 0
  show ?case by (simp add: core_load_def FP_TICKET_CORES_def less_2_cases_iff)
next
  case (Suc n)
  let ?s = "fold (snapshot_slot m) [0..<n]
      \<lparr>sn_capacity = fm_capacity m, sn_used = [0, 0], sn_reservations = [0, 0], sn_non_fp = [0, 0], sn_fp_cores = 0\<rparr>"
  have IH: "length (sn_used ?s) = FP_TICKET_CORES"
      "\<forall>c < FP_TICKET_CORES. unat (sn_used ?s ! c) = core_load m n c"
      "\<forall>c. bit (sn_fp_cores ?s) c \<longleftrightarrow> (\<exists>i < n. fp_live m i \<and> bit (fm_fp m) i \<and> slot_core m i = c)"
    using Suc by (simp_all add: Let_def)
  have split: "core_load m (Suc n) c = core_load m n c +
      (if fp_live m n \<and> slot_core m n = c then unat (load_of (the (sl_request (fm_slots m ! n)))) else 0)" for c
    by (simp add: core_load_def)
  show ?case
  proof (cases "fp_live m n")
    case False
    then have s: "snapshot_slot m n ?s = ?s" by (simp add: snapshot_slot_def fp_live_def)
    have "(\<exists>i < Suc n. fp_live m i \<and> bit (fm_fp m) i \<and> slot_core m i = c) \<longleftrightarrow>
        (\<exists>i < n. fp_live m i \<and> bit (fm_fp m) i \<and> slot_core m i = c)" for c
      using False by (auto simp: less_Suc_eq)
    then show ?thesis using IH False by (simp add: Let_def s split)
  next
    case True
    let ?c = "slot_core m n" and ?l = "load_of (the (sl_request (fm_slots m ! n)))"
    have c: "?c < FP_TICKET_CORES" by (rule slot_core_less)
    have "core_load m (Suc n) ?c < 2 ^ 32"
      using core_load_mono[OF Suc.prems, of m ?c] assms(2) c by (meson le_less_trans)
    then have add: "unat (sn_used ?s ! ?c + ?l) = core_load m (Suc n) ?c"
      using IH(2) c True by (subst unat_add_lem[THEN iffD1]) (simp_all add: split)
    have used: "sn_used (snapshot_slot m n ?s) = (sn_used ?s)[?c := sn_used ?s ! ?c + ?l]"
      using True by (simp add: snapshot_slot_def fp_live_def Let_def)
    have fp: "sn_fp_cores (snapshot_slot m n ?s) =
        (if bit (fm_fp m) n then set_bit ?c (sn_fp_cores ?s) else sn_fp_cores ?s)"
      using True by (simp add: snapshot_slot_def fp_live_def Let_def)
    have c8: "?c < 8" using c by (simp add: FP_TICKET_CORES_def)
    have "(\<exists>i < Suc n. fp_live m i \<and> bit (fm_fp m) i \<and> slot_core m i = d) \<longleftrightarrow>
        (bit (fm_fp m) n \<and> ?c = d) \<or> (\<exists>i < n. fp_live m i \<and> bit (fm_fp m) i \<and> slot_core m i = d)" for d
      using True by (auto simp: less_Suc_eq)
    then have bits: "bit (sn_fp_cores (snapshot_slot m n ?s)) d \<longleftrightarrow>
        (\<exists>i < Suc n. fp_live m i \<and> bit (fm_fp m) i \<and> slot_core m i = d)" for d
      using IH(3) c8 by (auto simp: fp bit_simps)
    have "unat (sn_used (snapshot_slot m n ?s) ! d) = core_load m (Suc n) d" if "d < FP_TICKET_CORES" for d
    proof (cases "d = ?c")
      case True
      then show ?thesis unfolding used using add IH(1) that by simp
    next
      case False
      then show ?thesis unfolding used using IH(2) that by (simp add: split)
    qed
    then show ?thesis using IH(1) bits by (simp add: Let_def used)
  qed
qed

lemma snapshot_ok:
  assumes inv: "fp_inv m"
  shows "\<forall>c < FP_TICKET_CORES. unat (sn_used (fp_ticket_snapshot m) ! c) = core_load m FP_TICKET_SLOTS c"
    "\<forall>c. bit (sn_fp_cores (fp_ticket_snapshot m)) c \<longleftrightarrow>
      (\<exists>i < FP_TICKET_SLOTS. fp_live m i \<and> bit (fm_fp m) i \<and> slot_core m i = c)"
proof -
  have "core_load m FP_TICKET_SLOTS c < 2 ^ 32" if "c < FP_TICKET_CORES" for c
  proof -
    have "core_load m FP_TICKET_SLOTS c \<le> unat (fm_capacity m ! c)" "fm_capacity m ! c \<le> FP_TICKET_FULL_LOAD"
      using inv that by (simp_all add: fp_inv_def)
    then have "core_load m FP_TICKET_SLOTS c \<le> unat FP_TICKET_FULL_LOAD"
      by (meson order_trans word_le_nat_alt)
    then show ?thesis by (simp add: FP_TICKET_FULL_LOAD_def)
  qed
  then have a: "\<forall>c < FP_TICKET_CORES. core_load m FP_TICKET_SLOTS c < 2 ^ 32" by blast
  note S = snapshot_fold[OF order_refl a, folded fp_ticket_snapshot_def]
  show "\<forall>c < FP_TICKET_CORES. unat (sn_used (fp_ticket_snapshot m) ! c) = core_load m FP_TICKET_SLOTS c"
    "\<forall>c. bit (sn_fp_cores (fp_ticket_snapshot m)) c \<longleftrightarrow>
      (\<exists>i < FP_TICKET_SLOTS. fp_live m i \<and> bit (fm_fp m) i \<and> slot_core m i = c)"
    using S by (simp_all add: Let_def)
qed

section \<open>Acquire\<close>

definition core_fits :: "fp_manager \<Rightarrow> fp_request \<Rightarrow> nat \<Rightarrow> bool" where
  "core_fits m r c \<longleftrightarrow> bit (rq_allowed r) c \<and> fm_capacity m ! c \<noteq> 0 \<and>
     (uses_fp r \<longrightarrow> \<not> (\<exists>i < FP_TICKET_SLOTS. fp_live m i \<and> bit (fm_fp m) i \<and> slot_core m i = c)) \<and>
     core_load m FP_TICKET_SLOTS c + unat (load_of r) \<le> unat (fm_capacity m ! c)"

text \<open>The core with the least share of its capacity in use once the request is on it.\<close>

definition core_best :: "fp_manager \<Rightarrow> fp_request \<Rightarrow> nat \<Rightarrow> bool" where
  "core_best m r c \<longleftrightarrow> (\<forall>d < FP_TICKET_CORES. core_fits m r d \<longrightarrow>
     (core_load m FP_TICKET_SLOTS c + unat (load_of r)) * unat (fm_capacity m ! d) \<le>
     (core_load m FP_TICKET_SLOTS d + unat (load_of r)) * unat (fm_capacity m ! c))"

lemma u32_unat_less: "unat (x :: u32) < 2 ^ 32"
  using unsigned_less[where 'a = nat, of x] by simp

lemma u32_product: "unat (ucast (a :: u32) * ucast (b :: u32) :: u64) = unat a * unat b"
proof -
  have up: "unat (ucast x :: u64) = unat x" for x :: u32
    using u32_unat_less[of x] by (simp add: unsigned_ucast_eq take_bit_nat_eq_self)
  have "unat a * unat b < 2 ^ 32 * 2 ^ 32"
    using u32_unat_less[of a] u32_unat_less[of b] by (intro mult_strict_mono) simp_all
  then have "unat (ucast a :: u64) * unat (ucast b :: u64) < 2 ^ LENGTH(64)" by (simp add: up)
  then have "unat (ucast a * ucast b :: u64) = unat (ucast a :: u64) * unat (ucast b :: u64)"
    by (rule unat_mult_lem[THEN iffD1])
  then show ?thesis by (simp add: up)
qed

lemma pick_core_fits:
  assumes inv: "fp_inv m"
    and el: "\<forall>c < FP_TICKET_CORES. bit eligible c \<longleftrightarrow> bit (rq_allowed r) c \<and> fm_capacity m ! c \<noteq> 0 \<and>
      (uses_fp r \<longrightarrow> \<not> (\<exists>i < FP_TICKET_SLOTS. fp_live m i \<and> bit (fm_fp m) i \<and> slot_core m i = c))"
  shows "let best = fst (fold (pick_core m r (fp_ticket_snapshot m) eligible (load_of r)) [0..<FP_TICKET_CORES] (FP_TICKET_CORES, 0)) in
    if best = FP_TICKET_CORES then \<forall>c < FP_TICKET_CORES. \<not> core_fits m r c
    else best < FP_TICKET_CORES \<and> core_fits m r best \<and> core_best m r best"
proof -
  let ?st = "fp_ticket_snapshot m"
  have fit: "core_fits m r c \<longleftrightarrow> bit eligible c \<and> \<not> (sn_used ?st ! c > fm_capacity m ! c \<or>
      load_of r > fm_capacity m ! c - sn_used ?st ! c)" if "c < FP_TICKET_CORES" for c
  proof -
    have u: "unat (sn_used ?st ! c) = core_load m FP_TICKET_SLOTS c" using snapshot_ok(1)[OF inv] that by blast
    have le: "sn_used ?st ! c \<le> fm_capacity m ! c" using inv that u by (simp add: fp_inv_def word_le_nat_alt)
    have "(load_of r \<le> fm_capacity m ! c - sn_used ?st ! c) \<longleftrightarrow>
        core_load m FP_TICKET_SLOTS c + unat (load_of r) \<le> unat (fm_capacity m ! c)"
      using le u by (simp add: word_le_nat_alt unat_sub) linarith
    then show ?thesis using el that le by (auto simp: core_fits_def not_less)
  qed
  have two: "[0..<FP_TICKET_CORES] = [0, 1]" by (simp add: FP_TICKET_CORES_def upt_rec)
  have fit0: "core_fits m r 0 \<longleftrightarrow> \<not> (\<not> bit eligible 0 \<or> sn_used ?st ! 0 > fm_capacity m ! 0 \<or>
      load_of r > fm_capacity m ! 0 - sn_used ?st ! 0)"
    and fit1: "core_fits m r 1 \<longleftrightarrow> \<not> (\<not> bit eligible 1 \<or> sn_used ?st ! 1 > fm_capacity m ! 1 \<or>
      load_of r > fm_capacity m ! 1 - sn_used ?st ! 1)"
    using fit[of 0] fit[of 1] by (auto simp: FP_TICKET_CORES_def)
  have p0: "pick_core m r ?st eligible (load_of r) 0 (FP_TICKET_CORES, 0) =
      (if core_fits m r 0 then (0, sn_used ?st ! 0 + load_of r) else (FP_TICKET_CORES, 0))"
    unfolding pick_core_def Let_def prod.case fit0 by simp
  have p1: "fst (pick_core m r ?st eligible (load_of r) 1 (b, u)) \<in> {1, b} \<and>
      (fst (pick_core m r ?st eligible (load_of r) 1 (b, u)) = 1 \<longrightarrow> core_fits m r 1 \<or> b = 1) \<and>
      (core_fits m r 1 \<longrightarrow> b = FP_TICKET_CORES \<longrightarrow> fst (pick_core m r ?st eligible (load_of r) 1 (b, u)) = 1)" for b u
    unfolding pick_core_def Let_def prod.case fit1 by auto
  have c: "(\<forall>c < FP_TICKET_CORES. P c) \<longleftrightarrow> P 0 \<and> P 1" for P
    by (simp add: FP_TICKET_CORES_def less_2_cases_iff) blast
  have total: "unat (sn_used ?st ! d + load_of r) = core_load m FP_TICKET_SLOTS d + unat (load_of r)"
    if "d < FP_TICKET_CORES" "core_fits m r d" for d
  proof -
    have "unat (sn_used ?st ! d) = core_load m FP_TICKET_SLOTS d" using snapshot_ok(1)[OF inv] that(1) by blast
    moreover from this have "unat (sn_used ?st ! d) + unat (load_of r) \<le> unat (fm_capacity m ! d)"
      using that(2) by (simp add: core_fits_def)
    ultimately show ?thesis using u32_unat_less[of "fm_capacity m ! d"]
      by (subst unat_add_lem[THEN iffD1]) simp_all
  qed
  let ?u0 = "sn_used ?st ! 0 + load_of r" and ?u1 = "sn_used ?st ! 1 + load_of r"
  have p2: "core_fits m r 1 \<Longrightarrow> fst (pick_core m r ?st eligible (load_of r) 1 (0, ?u0)) =
      (if (ucast ?u1 * ucast (fm_capacity m ! 0) :: u64) < ucast ?u0 * ucast (fm_capacity m ! 1) \<or>
         ((ucast ?u1 * ucast (fm_capacity m ! 0) :: u64) = ucast ?u0 * ucast (fm_capacity m ! 1) \<and>
           \<not> uses_fp r \<and> sn_non_fp ?st ! 1 < sn_non_fp ?st ! 0) then 1 else 0)"
    unfolding pick_core_def Let_def prod.case fit1 by (simp add: FP_TICKET_CORES_def)
  have best: "core_best m r (fst (pick_core m r ?st eligible (load_of r) 1 (0, ?u0)))"
    if "core_fits m r 0" "core_fits m r 1"
    using that total[of 0] total[of 1] unfolding p2[OF that(2)] word_less_nat_alt word_unat_eq_iff u32_product
    by (auto simp: core_best_def FP_TICKET_CORES_def less_2_cases_iff)
  have lone: "core_best m r d" if "\<And>e. e < FP_TICKET_CORES \<Longrightarrow> core_fits m r e \<Longrightarrow> e = d" for d
    using that by (auto simp: core_best_def)
  have one: "core_best m r 0" if "\<not> core_fits m r 1"
    by (rule lone) (use that in \<open>auto simp: FP_TICKET_CORES_def less_2_cases_iff\<close>)
  have other: "core_best m r 1" if "\<not> core_fits m r 0"
    by (rule lone) (use that in \<open>auto simp: FP_TICKET_CORES_def less_2_cases_iff\<close>)
  show ?thesis
    unfolding two fold.simps o_def id_apply p0 Let_def c
    using p1[of 0 "sn_used ?st ! 0 + load_of r"] p1[of FP_TICKET_CORES 0] best one other
    by (auto simp: FP_TICKET_CORES_def split: if_splits)
qed

lemma find_upt_iff: "find P [0..<n] = None \<longleftrightarrow> (\<forall>i < n. \<not> P i)"
  by (auto simp: find_None_iff)

lemma find_upt_Some: "find P [0..<n] = Some i \<Longrightarrow> i < n \<and> P i"
  by (auto simp: find_Some_iff)

lemma find_upt_unique: "i < n \<Longrightarrow> P i \<Longrightarrow> (\<And>j. j < n \<Longrightarrow> P j \<Longrightarrow> j = i) \<Longrightarrow> find P [0..<n] = Some i"
proof (cases "find P [0..<n]")
  case None
  then show "i < n \<Longrightarrow> P i \<Longrightarrow> ?thesis" by (simp only: find_upt_iff)
next
  case (Some k)
  then show "(\<And>j. j < n \<Longrightarrow> P j \<Longrightarrow> j = i) \<Longrightarrow> ?thesis" using find_upt_Some[OF Some] by simp
qed

lemma eligible_bits:
  "\<forall>c < FP_TICKET_CORES. bit (fold (drop_disabled m) [0..<FP_TICKET_CORES] a) c \<longleftrightarrow> bit a c \<and> fm_capacity m ! c \<noteq> 0"
proof -
  have two: "[0..<FP_TICKET_CORES] = [0, 1]" by (simp add: FP_TICKET_CORES_def upt_rec)
  have c: "(\<forall>c < FP_TICKET_CORES. P c) \<longleftrightarrow> P 0 \<and> P 1" for P
    by (simp add: FP_TICKET_CORES_def less_2_cases_iff) blast
  show ?thesis unfolding two c by (auto simp: drop_disabled_def bit_simps)
qed

text \<open>What a successful acquire stores.\<close>

definition acquired :: "fp_manager \<Rightarrow> fp_request \<Rightarrow> nat \<Rightarrow> nat \<Rightarrow> fp_manager" where
  "acquired m r slot best =
     m\<lparr>fm_slots := (fm_slots m)[slot := \<lparr>sl_request = Some r, sl_id = fm_next_id m\<rparr>],
       fm_next_id := fm_next_id m + 1,
       fm_live := set_bit slot (fm_live m),
       fm_core1 := (if best = 1 then set_bit slot (fm_core1 m) else fm_core1 m),
       fm_fp := (if uses_fp r then set_bit slot (fm_fp m) else fm_fp m)\<rparr>"

lemma acquire_cases:
  assumes inv: "fp_inv m" and a: "fp_ticket_acquire m r = (res, t, m')"
  obtains
    (refused) "res \<noteq> FP_TICKET_OK" "t = None" "m' = m"
      "res = FP_TICKET_INVALID \<longleftrightarrow> \<not> request_valid r"
      "res = FP_TICKET_NO_CAPACITY \<or> res = FP_TICKET_FP_BUSY \<longrightarrow> (\<forall>c < FP_TICKET_CORES. \<not> core_fits m r c)"
      "res = FP_TICKET_NO_SLOT \<longrightarrow> (\<forall>i < FP_TICKET_SLOTS. fp_live m i)"
      "res = FP_TICKET_ID_EXHAUSTED \<longrightarrow> fm_next_id m = 0"
      "res = FP_TICKET_INVALID \<or> res = FP_TICKET_NO_CAPACITY \<or> res = FP_TICKET_FP_BUSY \<or> res = FP_TICKET_NO_SLOT \<or>
       res = FP_TICKET_ID_EXHAUSTED"
  | (ok) slot best where "res = FP_TICKET_OK" "t = Some \<lparr>tk_owner = fm_self m, tk_id = fm_next_id m\<rparr>"
      "m' = acquired m r slot best" "slot < FP_TICKET_SLOTS" "\<not> fp_live m slot" "best < FP_TICKET_CORES"
      "core_fits m r best" "request_valid r" "fm_next_id m \<noteq> 0" "core_best m r best"
proof -
  consider (inv) "\<not> request_valid r" | (ids) "request_valid r" "fm_next_id m = 0"
    | (full) "request_valid r" "fm_next_id m \<noteq> 0" "find (\<lambda>i. \<not> bit (fm_live m) i) [0..<FP_TICKET_SLOTS] = None"
    | (go) slot where "request_valid r" "fm_next_id m \<noteq> 0" "find (\<lambda>i. \<not> bit (fm_live m) i) [0..<FP_TICKET_SLOTS] = Some slot"
    by blast
  then show thesis
  proof cases
    case inv
    then show thesis using a refused by (auto simp: fp_ticket_acquire_def)
  next
    case ids
    then show thesis using a refused by (auto simp: fp_ticket_acquire_def)
  next
    case full
    then have "fp_ticket_acquire m r = (FP_TICKET_NO_SLOT, None, m)" by (simp add: fp_ticket_acquire_def)
    moreover have "\<forall>i < FP_TICKET_SLOTS. fp_live m i" using full(3) by (simp only: find_upt_iff fp_live_def) simp
    ultimately show thesis using a full(1) by (intro refused) auto
  next
    case go
    have slot: "slot < FP_TICKET_SLOTS" "\<not> fp_live m slot" using find_upt_Some[OF go(3)] by (simp_all add: fp_live_def)
    let ?st = "fp_ticket_snapshot m"
    let ?e = "fold (drop_disabled m) [0..<FP_TICKET_CORES] (rq_allowed r)"
    let ?e1 = "if uses_fp r then ?e AND NOT (sn_fp_cores ?st) else ?e"
    let ?best = "fst (fold (pick_core m r ?st ?e1 (load_of r)) [0..<FP_TICKET_CORES] (FP_TICKET_CORES, 0))"
    have el: "\<forall>c < FP_TICKET_CORES. bit ?e1 c \<longleftrightarrow> bit (rq_allowed r) c \<and> fm_capacity m ! c \<noteq> 0 \<and>
      (uses_fp r \<longrightarrow> \<not> (\<exists>i < FP_TICKET_SLOTS. fp_live m i \<and> bit (fm_fp m) i \<and> slot_core m i = c))"
      using eligible_bits[of m "rq_allowed r"] snapshot_ok(2)[OF inv]
      by (auto simp: bit_simps FP_TICKET_CORES_def)
    have none0: "\<forall>c < FP_TICKET_CORES. \<not> core_fits m r c" if "?e = 0"
      using that eligible_bits[of m "rq_allowed r"] by (auto simp: core_fits_def)
    have none1: "\<forall>c < FP_TICKET_CORES. \<not> core_fits m r c" if "?e1 = 0"
      using that el by (auto simp: core_fits_def)
    note P = pick_core_fits[OF inv el]
    have eq: "fp_ticket_acquire m r =
      (if ?e = 0 then (FP_TICKET_NO_CAPACITY, None, m)
       else if uses_fp r \<and> ?e1 = 0 then (FP_TICKET_FP_BUSY, None, m)
       else if ?best = FP_TICKET_CORES then (FP_TICKET_NO_CAPACITY, None, m)
       else (FP_TICKET_OK, Some \<lparr>tk_owner = fm_self m, tk_id = fm_next_id m\<rparr>, acquired m r slot ?best))"
      unfolding fp_ticket_acquire_def acquired_def Let_def go(3) using go(1,2) by simp
    consider "?e = 0" | "?e \<noteq> 0" "uses_fp r" "?e1 = 0" | "?e \<noteq> 0" "\<not> (uses_fp r \<and> ?e1 = 0)" "?best = FP_TICKET_CORES"
      | "?e \<noteq> 0" "\<not> (uses_fp r \<and> ?e1 = 0)" "?best \<noteq> FP_TICKET_CORES" by blast
    then show thesis
    proof cases
      case 1
      from a[unfolded eq if_P[OF 1]] have "res = FP_TICKET_NO_CAPACITY" "t = None" "m' = m" by simp_all
      then show thesis using none0[OF 1] go(1) by (intro refused) simp_all
    next
      case 2
      from a[unfolded eq if_not_P[OF 2(1)] if_P[OF conjI[OF 2(2,3)]]]
      have "res = FP_TICKET_FP_BUSY" "t = None" "m' = m" by simp_all
      then show thesis using none1[OF 2(3)] go(1) by (intro refused) simp_all
    next
      case 3
      then have none: "\<forall>c < FP_TICKET_CORES. \<not> core_fits m r c" using P[unfolded Let_def] unfolding if_P[OF 3(3)] by blast
      from a[unfolded eq if_not_P[OF 3(1)] if_not_P[OF 3(2)] if_P[OF 3(3)]]
      have "res = FP_TICKET_NO_CAPACITY" "t = None" "m' = m" by simp_all
      then show thesis using none go(1) by (intro refused) simp_all
    next
      case 4
      from P[unfolded Let_def if_not_P[OF 4(3)]] have fits: "?best < FP_TICKET_CORES" "core_fits m r ?best" "core_best m r ?best" by blast+
      from a[unfolded eq if_not_P[OF 4(1)] if_not_P[OF 4(2)] if_not_P[OF 4(3)]]
      have "res = FP_TICKET_OK" "t = Some \<lparr>tk_owner = fm_self m, tk_id = fm_next_id m\<rparr>" "m' = acquired m r slot ?best"
        by (simp_all only: prod.inject) 
      then show thesis by (rule ok[OF _ _ _ slot fits(1,2) go(1,2) fits(3)])
    qed
  qed
qed

lemma slots16: "i < FP_TICKET_SLOTS \<Longrightarrow> i < LENGTH(16)"
  by (simp add: FP_TICKET_SLOTS_def)

lemma acquired_bits:
  assumes inv: "fp_inv m" and s: "slot < FP_TICKET_SLOTS" "\<not> fp_live m slot" and b: "best < FP_TICKET_CORES"
  shows "fp_live (acquired m r slot best) i \<longleftrightarrow> fp_live m i \<or> i = slot"
    "slot_core (acquired m r slot best) i = (if i = slot then best else slot_core m i)"
    "bit (fm_fp (acquired m r slot best)) i \<longleftrightarrow> (if i = slot then uses_fp r else bit (fm_fp m) i)"
    "fm_slots (acquired m r slot best) ! slot = \<lparr>sl_request = Some r, sl_id = fm_next_id m\<rparr>"
    "i \<noteq> slot \<Longrightarrow> fm_slots (acquired m r slot best) ! i = fm_slots m ! i"
    "fm_capacity (acquired m r slot best) = fm_capacity m" "fm_next_id (acquired m r slot best) = fm_next_id m + 1"
    "length (fm_slots (acquired m r slot best)) = length (fm_slots m)" "fm_self (acquired m r slot best) = fm_self m"
proof -
  have clear: "\<not> bit (fm_core1 m) slot" "\<not> bit (fm_fp m) slot" "length (fm_slots m) = FP_TICKET_SLOTS"
    using inv s by (auto simp: fp_inv_def)
  show "fp_live (acquired m r slot best) i \<longleftrightarrow> fp_live m i \<or> i = slot"
    using slots16[OF s(1)] by (auto simp: fp_live_def acquired_def bit_simps)
  show "slot_core (acquired m r slot best) i = (if i = slot then best else slot_core m i)"
    using slots16[OF s(1)] clear b by (auto simp: slot_core_def acquired_def bit_simps FP_TICKET_CORES_def)
  show "bit (fm_fp (acquired m r slot best)) i \<longleftrightarrow> (if i = slot then uses_fp r else bit (fm_fp m) i)"
    using slots16[OF s(1)] clear by (auto simp: acquired_def bit_simps)
  show "fm_slots (acquired m r slot best) ! slot = \<lparr>sl_request = Some r, sl_id = fm_next_id m\<rparr>"
    using s clear by (simp add: acquired_def)
qed (simp_all add: acquired_def)

lemma core_load_split:
  assumes "s < n"
  shows "core_load m n c = (if fp_live m s \<and> slot_core m s = c then unat (load_of (the (sl_request (fm_slots m ! s)))) else 0) +
    (\<Sum>i \<in> {..<n} - {s}. if fp_live m i \<and> slot_core m i = c then unat (load_of (the (sl_request (fm_slots m ! i)))) else 0)"
  unfolding core_load_def using assms by (subst sum.remove[of _ s]) auto

lemma acquired_load:
  assumes inv: "fp_inv m" and s: "slot < FP_TICKET_SLOTS" "\<not> fp_live m slot" and b: "best < FP_TICKET_CORES"
  shows "core_load (acquired m r slot best) FP_TICKET_SLOTS c =
    core_load m FP_TICKET_SLOTS c + (if c = best then unat (load_of r) else 0)"
proof -
  let ?m = "acquired m r slot best"
  note B = acquired_bits[OF inv s b]
  have "(\<Sum>i \<in> {..<FP_TICKET_SLOTS} - {slot}. if fp_live ?m i \<and> slot_core ?m i = c
        then unat (load_of (the (sl_request (fm_slots ?m ! i)))) else 0) =
      (\<Sum>i \<in> {..<FP_TICKET_SLOTS} - {slot}. if fp_live m i \<and> slot_core m i = c
        then unat (load_of (the (sl_request (fm_slots m ! i)))) else 0)"
  proof (rule sum.cong[OF refl])
    fix i assume "i \<in> {..<FP_TICKET_SLOTS} - {slot}"
    then have "i \<noteq> slot" by simp
    then show "(if fp_live ?m i \<and> slot_core ?m i = c then unat (load_of (the (sl_request (fm_slots ?m ! i)))) else 0) =
        (if fp_live m i \<and> slot_core m i = c then unat (load_of (the (sl_request (fm_slots m ! i)))) else 0)"
      by (simp add: B)
  qed
  then show ?thesis unfolding core_load_split[OF s(1)] using s(2) B(1,2,4) by simp
qed

lemma acquired_inv:
  assumes inv: "fp_inv m" and s: "slot < FP_TICKET_SLOTS" "\<not> fp_live m slot" and b: "best < FP_TICKET_CORES"
    and fit: "core_fits m r best" and r: "request_valid r" "fm_next_id m \<noteq> 0"
  shows "fp_inv (acquired m r slot best)"
proof -
  let ?m = "acquired m r slot best"
  note B = acquired_bits[OF inv s b]
  have old: "fp_live m i \<Longrightarrow> i < FP_TICKET_SLOTS \<Longrightarrow> slot_ok m i" for i using inv by (simp add: fp_inv_def)
  have fresh: "sl_id (fm_slots m ! i) < fm_next_id m" if "fp_live m i" "i < FP_TICKET_SLOTS" for i
    using old[OF that] r(2) by (auto simp: slot_ok_def)
  have next_gt: "fm_next_id m + 1 = 0 \<or> fm_next_id m < fm_next_id m + 1"
  proof (cases "fm_next_id m = U32_MAX")
    case True
    then show ?thesis by simp
  next
    case False
    then show ?thesis using word_inc_greater[of "fm_next_id m"] by simp
  qed
  have slot_ok: "slot_ok ?m i" if "fp_live ?m i" "i < FP_TICKET_SLOTS" for i
  proof (cases "i = slot")
    case True
    then show ?thesis using r fit next_gt by (auto simp: slot_ok_def B core_fits_def)
  next
    case False
    with that B(1) have live: "fp_live m i" by simp
    from old[OF live that(2)] fresh[OF live that(2)] False next_gt show ?thesis
      by (auto simp: slot_ok_def B dest: less_trans)
  qed
  have caps: "core_load ?m FP_TICKET_SLOTS c \<le> unat (fm_capacity m ! c)" if "c < FP_TICKET_CORES" for c
    using inv that fit unfolding acquired_load[OF inv s b] by (auto simp: fp_inv_def core_fits_def)
  have ids: "i = j" if "i < FP_TICKET_SLOTS" "j < FP_TICKET_SLOTS" "fp_live ?m i" "fp_live ?m j"
    "sl_id (fm_slots ?m ! i) = sl_id (fm_slots ?m ! j)" for i j
  proof -
    have ne: "sl_id (fm_slots m ! k) \<noteq> fm_next_id m" if "fp_live m k" "k < FP_TICKET_SLOTS" for k
      using fresh[OF that] by simp
    show ?thesis
      using that fp_invD(5)[OF inv, of i j] ne[of i] ne[of j] B(4) B(1)[where i=i] B(1)[where i=j] B(5)[where i=i] B(5)[where i=j]
      by (cases "i = slot"; cases "j = slot") simp_all
  qed
  have fps: "i = j" if "i < FP_TICKET_SLOTS" "j < FP_TICKET_SLOTS" "fp_live ?m i" "fp_live ?m j"
    "bit (fm_fp ?m) i" "bit (fm_fp ?m) j" "slot_core ?m i = slot_core ?m j" for i j
  proof -
    have free: "slot_core m k \<noteq> best" if "uses_fp r" "fp_live m k" "k < FP_TICKET_SLOTS" "bit (fm_fp m) k" for k
      using fit that by (auto simp: core_fits_def)
    show ?thesis
      using that fp_invD(6)[OF inv, of i j] free[of i] free[of j] B(1,2,3)[where i=i] B(1,2,3)[where i=j]
      by (cases "i = slot"; cases "j = slot") simp_all
  qed
  have dead: "\<not> bit (fm_core1 ?m) i \<and> \<not> bit (fm_fp ?m) i" if "i < FP_TICKET_SLOTS" "\<not> fp_live ?m i" for i
    using fp_invD(4)[OF inv that(1)] that B(1)[where i=i] B(3)[where i=i] s(1)
    by (simp add: acquired_def bit_set_bit_iff)
  show ?thesis
  proof (rule fp_invI)
    fix i assume i: "i < FP_TICKET_SLOTS"
    show "fp_live ?m i \<Longrightarrow> slot_ok ?m i" using slot_ok i by blast
    show "\<not> fp_live ?m i \<Longrightarrow> \<not> bit (fm_core1 ?m) i \<and> \<not> bit (fm_fp ?m) i" using dead[OF i] .
    fix j assume j: "j < FP_TICKET_SLOTS"
    show "fp_live ?m i \<Longrightarrow> fp_live ?m j \<Longrightarrow> sl_id (fm_slots ?m ! i) = sl_id (fm_slots ?m ! j) \<Longrightarrow> i = j"
      using ids[OF i j] .
    show "fp_live ?m i \<Longrightarrow> fp_live ?m j \<Longrightarrow> bit (fm_fp ?m) i \<Longrightarrow> bit (fm_fp ?m) j \<Longrightarrow>
        slot_core ?m i = slot_core ?m j \<Longrightarrow> i = j" using fps[OF i j] .
  qed (simp_all add: B(6,8) fp_invD[OF inv] caps)
qed


section \<open>Release\<close>

definition released :: "fp_manager \<Rightarrow> nat \<Rightarrow> fp_manager" where
  "released m i = m\<lparr>fm_live := unset_bit i (fm_live m), fm_core1 := unset_bit i (fm_core1 m),
      fm_fp := unset_bit i (fm_fp m), fm_slots := (fm_slots m)[i := slot_zero]\<rparr>"

lemma released_bits:
  "fp_live (released m k) i \<longleftrightarrow> fp_live m i \<and> i \<noteq> k"
  "i \<noteq> k \<Longrightarrow> slot_core (released m k) i = slot_core m i"
  "bit (fm_core1 (released m k)) i \<longleftrightarrow> bit (fm_core1 m) i \<and> i \<noteq> k"
  "bit (fm_fp (released m k)) i \<longleftrightarrow> bit (fm_fp m) i \<and> i \<noteq> k"
  "i \<noteq> k \<Longrightarrow> fm_slots (released m k) ! i = fm_slots m ! i"
  "fm_capacity (released m k) = fm_capacity m" "fm_next_id (released m k) = fm_next_id m"
  "length (fm_slots (released m k)) = length (fm_slots m)" "fm_self (released m k) = fm_self m"
  by (auto simp: fp_live_def slot_core_def released_def bit_unset_bit_iff)

lemma released_load:
  assumes "k < FP_TICKET_SLOTS"
  shows "core_load (released m k) FP_TICKET_SLOTS c =
    core_load m FP_TICKET_SLOTS c - (if fp_live m k \<and> slot_core m k = c then unat (load_of (the (sl_request (fm_slots m ! k)))) else 0)"
proof -
  have "(\<Sum>i \<in> {..<FP_TICKET_SLOTS} - {k}. if fp_live (released m k) i \<and> slot_core (released m k) i = c
        then unat (load_of (the (sl_request (fm_slots (released m k) ! i)))) else 0) =
      (\<Sum>i \<in> {..<FP_TICKET_SLOTS} - {k}. if fp_live m i \<and> slot_core m i = c
        then unat (load_of (the (sl_request (fm_slots m ! i)))) else 0)"
    by (rule sum.cong[OF refl]) (simp add: released_bits)
  then show ?thesis unfolding core_load_split[OF assms] by (simp add: released_bits)
qed

lemma released_inv:
  assumes inv: "fp_inv m" and k: "k < FP_TICKET_SLOTS"
  shows "fp_inv (released m k)"
proof (rule fp_invI)
  fix c assume c: "c < FP_TICKET_CORES"
  show "core_load (released m k) FP_TICKET_SLOTS c \<le> unat (fm_capacity (released m k) ! c)"
    unfolding released_load[OF k] released_bits using fp_invD(2)[OF inv c] by simp
next
  fix i assume i: "i < FP_TICKET_SLOTS"
  show "slot_ok (released m k) i" if "fp_live (released m k) i"
    using fp_invD(3)[OF inv i] that by (simp add: released_bits slot_ok_def)
  show "\<not> bit (fm_core1 (released m k)) i \<and> \<not> bit (fm_fp (released m k)) i" if "\<not> fp_live (released m k) i"
    using fp_invD(4)[OF inv i] that by (auto simp: released_bits)
  fix j assume j: "j < FP_TICKET_SLOTS"
  show "i = j" if "fp_live (released m k) i" "fp_live (released m k) j"
      "sl_id (fm_slots (released m k) ! i) = sl_id (fm_slots (released m k) ! j)"
    using fp_invD(5)[OF inv i j] that by (simp add: released_bits)
  show "i = j" if "fp_live (released m k) i" "fp_live (released m k) j"
      "bit (fm_fp (released m k)) i" "bit (fm_fp (released m k)) j" "slot_core (released m k) i = slot_core (released m k) j"
    using fp_invD(6)[OF inv i j] that by (simp add: released_bits)
qed (simp_all add: released_bits fp_invD[OF inv])

lemma fp_find_Some:
  "fp_find m t = Some i \<Longrightarrow> i < FP_TICKET_SLOTS \<and> fp_live m i \<and> sl_id (fm_slots m ! i) = tk_id t \<and> tk_id t \<noteq> 0 \<and> tk_owner t = fm_self m"
  using find_upt_Some by (fastforce simp: fp_find_def fp_live_def split: if_splits)

lemma fp_find_live:
  assumes "fp_inv m" "i < FP_TICKET_SLOTS" "fp_live m i" "tk_owner t = fm_self m" "tk_id t = sl_id (fm_slots m ! i)"
  shows "fp_find m t = Some i"
proof -
  have "tk_id t \<noteq> 0" using fp_invD(3)[OF assms(1-3)] assms(5) by (auto simp: slot_ok_def)
  moreover have "find (\<lambda>j. bit (fm_live m) j \<and> sl_id (fm_slots m ! j) = tk_id t) [0..<FP_TICKET_SLOTS] = Some i"
    using assms fp_invD(5)[OF assms(1)] by (intro find_upt_unique) (auto simp: fp_live_def)
  ultimately show ?thesis using assms(4) by (simp add: fp_find_def)
qed

lemma release_cases:
  obtains (stale) "fp_find m t = None" "fp_ticket_release m t = (FP_TICKET_STALE, m)"
  | (freed) i where "fp_find m t = Some i" "fp_ticket_release m t = (FP_TICKET_OK, released m i)"
  by (cases "fp_find m t") (auto simp: fp_ticket_release_def released_def)

section \<open>Runs\<close>

datatype fp_event = FpAcquire fp_request | FpRelease fp_ticket

definition fp_step :: "fp_manager \<Rightarrow> fp_event \<Rightarrow> fp_manager" where
  "fp_step m e = (case e of FpAcquire r \<Rightarrow> snd (snd (fp_ticket_acquire m r)) | FpRelease t \<Rightarrow> snd (fp_ticket_release m t))"

lemma fp_step_inv: "fp_inv m \<Longrightarrow> fp_inv (fp_step m e)"
proof (cases e)
  case (FpAcquire r)
  assume inv: "fp_inv m"
  obtain res t m' where a: "fp_ticket_acquire m r = (res, t, m')" by (metis prod_cases3)
  show ?thesis
    by (rule acquire_cases[OF inv a]) (simp_all add: FpAcquire fp_step_def a inv acquired_inv)
next
  case (FpRelease t)
  assume inv: "fp_inv m"
  then show ?thesis
    by (rule_tac release_cases[of m t]) (simp_all add: FpRelease fp_step_def released_inv fp_find_Some)
qed

interpretation fp_machine: event_machine fp_step fp_inv
  by unfold_locales (rule fp_step_inv)

lemma fp_init_inv: "fp_ticket_init self c0 c1 = (FP_TICKET_OK, Some m) \<Longrightarrow> fp_inv m"
  by (auto simp: fp_ticket_init_def fp_inv_def fp_live_def core_load_def FP_TICKET_CORES_def less_2_cases_iff
      not_less split: if_splits)

text \<open>An identity that was spent is below the next one, and stays spent.\<close>

definition fp_spent :: "u32 \<Rightarrow> fp_manager \<Rightarrow> bool" where
  "fp_spent n m \<longleftrightarrow> fp_inv m \<and> (fm_next_id m = 0 \<or> n < fm_next_id m) \<and>
     (\<forall>i < FP_TICKET_SLOTS. fp_live m i \<longrightarrow> sl_id (fm_slots m ! i) \<noteq> n)"

lemma fp_spent_step:
  assumes "fp_spent n m"
  shows "fp_spent n (fp_step m e)"
proof (cases e)
  case (FpAcquire r)
  have inv: "fp_inv m" using assms by (simp add: fp_spent_def)
  obtain res t m' where a: "fp_ticket_acquire m r = (res, t, m')" by (metis prod_cases3)
  show ?thesis
  proof (rule acquire_cases[OF inv a])
    assume "m' = m"
    then show ?thesis using assms a by (simp add: FpAcquire fp_step_def)
  next
    fix slot best
    assume A: "res = FP_TICKET_OK" "m' = acquired m r slot best" "slot < FP_TICKET_SLOTS" "\<not> fp_live m slot"
      "best < FP_TICKET_CORES" "core_fits m r best" "request_valid r" "fm_next_id m \<noteq> 0"
    note B = acquired_bits[OF inv A(3,4,5)]
    have n: "n < fm_next_id m" using assms A(8) by (simp add: fp_spent_def)
    have "fm_next_id m + 1 = 0 \<or> n < fm_next_id m + 1"
      using n word_inc_greater[of "fm_next_id m"] by (cases "fm_next_id m = U32_MAX") auto
    moreover have "sl_id (fm_slots m' ! i) \<noteq> n" if "i < FP_TICKET_SLOTS" "fp_live m' i" for i
      using that assms n unfolding A(2) by (cases "i = slot") (auto simp: B fp_spent_def)
    ultimately show ?thesis
      using acquired_inv[OF inv A(3-8)] A(2) by (simp add: FpAcquire fp_step_def a fp_spent_def B)
  qed
next
  case (FpRelease t)
  show ?thesis
  proof (rule release_cases[of m t])
    fix i assume "fp_find m t = Some i" "fp_ticket_release m t = (FP_TICKET_OK, released m i)"
    then show ?thesis using assms fp_find_Some[of m t i]
      by (simp add: FpRelease fp_step_def fp_spent_def released_inv released_bits)
  qed (use assms FpRelease in \<open>simp_all add: fp_step_def\<close>)
qed

interpretation fp_spent_machine: event_machine fp_step "fp_spent n"
  by unfold_locales (rule fp_spent_step)

lemma fp_spent_stale: "fp_spent (tk_id t) m \<Longrightarrow> fp_find m t = None"
  using fp_find_Some[of m t] by (cases "fp_find m t") (auto simp: fp_spent_def)

section \<open>Properties\<close>

text \<open>Property C24: after any sequence of acquisitions and releases on an initialised manager, the load
  of the live reservations of each core is at most its capacity, every live reservation is on a core its
  request allows, at most one floating-point reservation is live per core, and no two live
  reservations share an identity.\<close>

theorem fp_ticket_reachable_inv:
  assumes "fp_ticket_init self c0 c1 = (FP_TICKET_OK, Some m)"
  shows "fp_inv (foldl fp_step m es)"
  by (rule fp_machine.run_inv) (rule fp_init_inv[OF assms])

lemma fp_ticket_reachable_inv_witness:
  "fp_inv (foldl fp_step (the (snd (fp_ticket_init 7 1000000 500000)))
     [FpAcquire \<lparr>rq_runtime_us = 1, rq_period_us = 4, rq_allowed = 3, rq_flags = 1, rq_priority = 0\<rparr>,
      FpRelease \<lparr>tk_owner = 7, tk_id = 1\<rparr>])"
  by (rule fp_ticket_reachable_inv[of 7 1000000 500000]) (simp add: fp_ticket_init_def FP_TICKET_FULL_LOAD_def)

text \<open>Property C15: an acquisition that fails leaves the manager as it was and hands out no ticket; it
  reports a lack of capacity, or a busy floating-point unit, only when no core fits the request (its
  bit allowed, its unit free for a floating-point request, the load within the capacity left).  One that
  succeeds hands out a ticket that fp_ticket_get resolves to the request, on a core the request
  fits, and no other core that it fits would have a smaller share of its capacity in use afterwards.\<close>

theorem fp_ticket_acquire_exact:
  assumes "fp_inv m" "fp_ticket_acquire m r = (res, t, m')"
  shows "(res \<noteq> FP_TICKET_OK \<longrightarrow> t = None \<and> m' = m) \<and>
    (res = FP_TICKET_NO_CAPACITY \<or> res = FP_TICKET_FP_BUSY \<longrightarrow> (\<forall>c < FP_TICKET_CORES. \<not> core_fits m r c)) \<and>
    (res = FP_TICKET_OK \<longrightarrow> (\<exists>tk c. t = Some tk \<and> c < FP_TICKET_CORES \<and> core_fits m r c \<and> core_best m r c \<and>
       fp_ticket_get m' tk = (FP_TICKET_OK, Some \<lparr>in_core = c, in_load_ppm = load_of r, in_request = r\<rparr>)))"
proof (rule acquire_cases[OF assms])
  fix slot best
  assume A: "res = FP_TICKET_OK" "t = Some \<lparr>tk_owner = fm_self m, tk_id = fm_next_id m\<rparr>" "m' = acquired m r slot best"
    "slot < FP_TICKET_SLOTS" "\<not> fp_live m slot" "best < FP_TICKET_CORES" "core_fits m r best" "request_valid r" "fm_next_id m \<noteq> 0"
    "core_best m r best"
  note B = acquired_bits[OF assms(1) A(4,5,6)]
  have "fp_find m' \<lparr>tk_owner = fm_self m, tk_id = fm_next_id m\<rparr> = Some slot"
    unfolding A(3) by (rule fp_find_live[OF acquired_inv[OF assms(1) A(4-9)] A(4)]) (simp_all add: B)
  then have "fp_ticket_get m' \<lparr>tk_owner = fm_self m, tk_id = fm_next_id m\<rparr> =
      (FP_TICKET_OK, Some \<lparr>in_core = best, in_load_ppm = load_of r, in_request = r\<rparr>)"
    by (simp add: fp_ticket_get_def A(3) B)
  then show ?thesis using A by auto
qed simp_all

lemma fp_ticket_acquire_exact_witness:
  "\<exists>t m'. fp_ticket_acquire (the (snd (fp_ticket_init 7 1000000 500000)))
      \<lparr>rq_runtime_us = 1, rq_period_us = 4, rq_allowed = 3, rq_flags = 1, rq_priority = 0\<rparr> = (FP_TICKET_OK, Some t, m') \<and>
     fst (fp_ticket_get m' t) = FP_TICKET_OK"
proof -
  let ?m = "the (snd (fp_ticket_init 7 1000000 500000))"
  let ?r = "\<lparr>rq_runtime_us = 1, rq_period_us = 4, rq_allowed = 3, rq_flags = 1, rq_priority = 0\<rparr>"
  have inv: "fp_inv ?m"
    by (rule fp_init_inv[of 7 1000000 500000]) (simp add: fp_ticket_init_def FP_TICKET_FULL_LOAD_def)
  obtain res t m' where a: "fp_ticket_acquire ?m ?r = (res, t, m')" by (metis prod_cases3)
  have "fst (fp_ticket_acquire ?m ?r) = FP_TICKET_OK" by code_simp
  then have "res = FP_TICKET_OK" using a by simp
  with fp_ticket_acquire_exact[OF inv a] a show ?thesis by auto
qed

text \<open>Identities are never recycled.  Once a ticket has been released, no sequence of later
  operations makes it valid again: looking it up and releasing it report a stale ticket.\<close>

theorem fp_ticket_stale_forever:
  assumes "fp_inv m" "fp_ticket_release m t = (FP_TICKET_OK, m')"
  shows "fp_ticket_get (foldl fp_step m' es) t = (FP_TICKET_STALE, None) \<and>
    fp_ticket_release (foldl fp_step m' es) t = (FP_TICKET_STALE, foldl fp_step m' es)"
proof -
  obtain i where i: "fp_find m t = Some i" "m' = released m i"
    using assms(2) by (cases rule: release_cases[of m t]) auto
  note F = fp_find_Some[OF i(1)]
  from F have L: "i < FP_TICKET_SLOTS" "fp_live m i" "sl_id (fm_slots m ! i) = tk_id t" by blast+
  have "fm_next_id m = 0 \<or> tk_id t < fm_next_id m"
    using fp_invD(3)[OF assms(1) L(1,2)] unfolding slot_ok_def L(3) by blast
  moreover have "sl_id (fm_slots (released m i) ! j) \<noteq> tk_id t" if "j < FP_TICKET_SLOTS" "fp_live (released m i) j" for j
    using that fp_invD(5)[OF assms(1) that(1) L(1) _ L(2)] L(3) by (auto simp: released_bits)
  ultimately have "fp_spent (tk_id t) m'"
    unfolding fp_spent_def i(2) using released_inv[OF assms(1) L(1)] by (simp add: released_bits)
  then have "fp_spent (tk_id t) (foldl fp_step m' es)" by (rule fp_spent_machine.run_inv)
  then have "fp_find (foldl fp_step m' es) t = None" by (rule fp_spent_stale)
  then show ?thesis by (simp add: fp_ticket_get_def fp_ticket_release_def)
qed

lemma fp_ticket_stale_forever_witness:
  "\<exists>t m'. fp_ticket_release m' t = (FP_TICKET_STALE, m') \<and> tk_id t = 1"
proof -
  let ?m = "the (snd (fp_ticket_init 7 1000000 500000))"
  let ?r = "\<lparr>rq_runtime_us = 1, rq_period_us = 4, rq_allowed = 3, rq_flags = 1, rq_priority = 0\<rparr>"
  let ?m1 = "snd (snd (fp_ticket_acquire ?m ?r))"
  let ?t = "\<lparr>tk_owner = 7, tk_id = 1\<rparr>"
  have inv: "fp_inv ?m"
    by (rule fp_init_inv[of 7 1000000 500000]) (simp add: fp_ticket_init_def FP_TICKET_FULL_LOAD_def)
  have inv1: "fp_inv ?m1" using fp_step_inv[OF inv, of "FpAcquire ?r"] by (simp add: fp_step_def)
  have "fst (fp_ticket_release ?m1 ?t) = FP_TICKET_OK" by code_simp
  then obtain m2 where m2: "fp_ticket_release ?m1 ?t = (FP_TICKET_OK, m2)" by (metis prod.collapse)
  show ?thesis using fp_ticket_stale_forever[OF inv1 m2, of "[]"] by (intro exI[of _ ?t] exI[of _ m2]) simp
qed

end
