(* ===== verification/SkkUtf8.thy ===== *)
theory SkkUtf8
  imports Prelude
begin

text \<open>
  The UTF-8 layer of the Japanese input engine (components/skk_core/skk_kana.c, first section):
  stepping over and decoding characters of a byte buffer, the encoder, and the hiragana to
  katakana rewriting.  A buffer and its length are one list; positions are list indices.
\<close>

section \<open>Operations\<close>

definition u8_seq_len :: "u8 \<Rightarrow> nat" where
  "u8_seq_len b =
     (if b < 0x80 then 1 else if b < 0xC2 then 0 else if b < 0xE0 then 2 else if b < 0xF0 then 3
      else if b < 0xF5 then 4 else 0)"

definition is_cont :: "u8 \<Rightarrow> bool" where "is_cont b \<longleftrightarrow> b AND 0xC0 = 0x80"

text \<open>The loop of \<open>skk_utf8_next\<close>: past the continuation bytes before \<open>lim\<close>.\<close>

function utf8_skip :: "bytes \<Rightarrow> nat \<Rightarrow> nat \<Rightarrow> nat" where
  "utf8_skip s j lim = (if j < length s \<and> j < lim \<and> is_cont (s ! j) then utf8_skip s (j + 1) lim else j)"
  by pat_completeness auto
termination by (relation "measure (\<lambda>(s, j, lim). lim - j)") auto

declare utf8_skip.simps [simp del]

definition skk_utf8_next :: "bytes \<Rightarrow> nat \<Rightarrow> nat" where
  "skk_utf8_next s i =
     (if i \<ge> length s then length s
      else let n = u8_seq_len (s ! i) in
        if n \<le> 1 then i + 1 else utf8_skip s (i + 1) (i + n))"

text \<open>The loop of \<open>skk_utf8_prev\<close>: back to a byte that is no continuation, at most four.\<close>

fun utf8_back :: "bytes \<Rightarrow> nat \<Rightarrow> nat \<Rightarrow> nat" where
  "utf8_back s i 0 = 0"
| "utf8_back s i (Suc j) = (if i - Suc j < 4 then if is_cont (s ! j) then utf8_back s i j else j else Suc j)"

definition skk_utf8_prev :: "bytes \<Rightarrow> nat \<Rightarrow> nat" where
  "skk_utf8_prev s i0 =
     (if i0 = 0 then 0
      else let i = (if i0 > length s then length s else i0);
               j = utf8_back s i i;
               n = u8_seq_len (s ! j) in
        if n \<ge> 1 \<and> n = i - j then j else i - 1)"

text \<open>One to \<open>n - 1\<close> continuation bytes folded into the scalar; \<open>None\<close> is the early return.\<close>

fun decode_tail :: "u32 \<Rightarrow> bytes \<Rightarrow> u32 option" where
  "decode_tail cp [] = Some cp"
| "decode_tail cp (c # cs) =
     (if \<not> is_cont c then None else decode_tail (push_bit 6 cp OR (ucast (c AND 0x3F))) cs)"

definition min_cp :: "u32 list" where "min_cp = [0, 0, 0x80, 0x800, 0x10000]"

definition skk_utf8_decode :: "bytes \<Rightarrow> nat \<Rightarrow> u32 \<times> nat" where
  "skk_utf8_decode s i =
     (if i \<ge> length s then (0xFFFD, 1)
      else let b = s ! i; n = u8_seq_len b in
        if n = 1 then (ucast b, 1)
        else if n = 0 \<or> n > length s - i then (0xFFFD, 1)
        else case decode_tail (ucast (b AND drop_bit (n + 1) 0xFF)) (take (n - 1) (drop (i + 1) s)) of
          None \<Rightarrow> (0xFFFD, 1)
        | Some cp \<Rightarrow>
            if cp < min_cp ! n \<or> cp > 0x10FFFF \<or> (cp \<ge> 0xD800 \<and> cp \<le> 0xDFFF) then (0xFFFD, 1) else (cp, n))"

definition u8_encode :: "u32 \<Rightarrow> bytes" where
  "u8_encode cp =
     (if cp < 0x80 then [ucast cp]
      else if cp < 0x800 then [ucast (0xC0 OR drop_bit 6 cp), ucast (0x80 OR (cp AND 0x3F))]
      else if cp < 0x10000 then
        [ucast (0xE0 OR drop_bit 12 cp), ucast (0x80 OR (drop_bit 6 cp AND 0x3F)), ucast (0x80 OR (cp AND 0x3F))]
      else
        [ucast (0xF0 OR drop_bit 18 cp), ucast (0x80 OR (drop_bit 12 cp AND 0x3F)),
         ucast (0x80 OR (drop_bit 6 cp AND 0x3F)), ucast (0x80 OR (cp AND 0x3F))])"

definition kata_cp :: "u32 \<Rightarrow> u32" where
  "kata_cp cp = (if cp \<ge> 0x3041 \<and> cp \<le> 0x3096 then cp + 0x60 else cp)"

definition encode_need :: "u32 \<Rightarrow> nat" where
  "encode_need cp = (if cp < 0x80 then 1 else if cp < 0x800 then 2 else if cp < 0x10000 then 3 else 4)"

lemma skk_utf8_decode_adv: "1 \<le> snd (skk_utf8_decode s i)" "i < length s \<Longrightarrow> i + snd (skk_utf8_decode s i) \<le> length s"
  unfolding skk_utf8_decode_def Let_def
  by (auto split: option.splits if_splits)

text \<open>The rewriting loop; it gives up with no output (\<open>0\<close> bytes) where the next character would not fit.\<close>

function kata_loop :: "bytes \<Rightarrow> nat \<Rightarrow> nat \<Rightarrow> bytes \<Rightarrow> bytes" where
  "kata_loop s cap i out =
     (if i \<ge> length s then out
      else case skk_utf8_decode s i of (cp, adv) \<Rightarrow>
        if cp = 0xFFFD then
          (if length out + 1 > cap then [] else kata_loop s cap (i + adv) (out @ [s ! i]))
        else if encode_need (kata_cp cp) > cap - length out then []
        else kata_loop s cap (i + adv) (out @ u8_encode (kata_cp cp)))"
  by pat_completeness auto
termination
proof (relation "measure (\<lambda>(s, cap, i, out). length s - i)", goal_cases)
  case 1
  show ?case by simp
next
  case (2 s cap i out cp adv)
  then have "(cp, adv) = skk_utf8_decode s i" by simp
  then have "1 \<le> adv" using skk_utf8_decode_adv(1)[of s i] by (metis snd_conv)
  with 2 show ?case by simp
next
  case (3 s cap i out cp adv)
  then have "(cp, adv) = skk_utf8_decode s i" by simp
  then have "1 \<le> adv" using skk_utf8_decode_adv(1)[of s i] by (metis snd_conv)
  with 3 show ?case by simp
qed

declare kata_loop.simps [simp del]

definition to_katakana :: "bytes \<Rightarrow> nat \<Rightarrow> bytes" where
  "to_katakana s cap = kata_loop s cap 0 []"


section \<open>Decoding and encoding are inverse\<close>

definition scalar :: "u32 \<Rightarrow> bool" where
  "scalar cp \<longleftrightarrow> cp \<le> 0x10FFFF \<and> \<not> (cp \<ge> 0xD800 \<and> cp \<le> 0xDFFF)"

text \<open>Every step of the coder on numbers: joining disjoint bit fields is addition.\<close>

lemma or_push_add: "(b :: nat) < 2 ^ n \<Longrightarrow> push_bit n a OR b = a * 2 ^ n + b"
proof -
  assume b: "b < 2 ^ n"
  then have t: "take_bit n b = b" by (simp add: take_bit_nat_eq_self)
  have "push_bit n a AND b = 0"
    by (rule bit_eqI) (use t in \<open>metis bit_and_iff bit_push_bit_iff bit_take_bit_iff not_less bit_0_eq bot_apply bot_bool_def\<close>)
  then have "push_bit n a OR b = push_bit n a + b" by (metis disjunctive_add_eq_or)
  then show ?thesis by (simp add: push_bit_eq_mult)
qed

lemma unat_low: "unat (w AND mask n) = unat w mod 2 ^ n"
  unfolding take_bit_eq_mask[symmetric] unsigned_take_bit_eq by (rule take_bit_eq_mod)

lemma unat_drop: "unat (drop_bit n w) = unat w div 2 ^ n"
  by (simp only: unsigned_drop_bit_eq) (simp add: drop_bit_eq_div take_bit_nat_eq_self)

lemma unat_low6: "unat (w AND 0x3F) = unat w mod 64" for w :: "'a::len word"
proof -
  have "(0x3F :: 'a word) = mask 6" by (simp add: mask_eq_exp_minus_1)
  then show ?thesis using unat_low[of w 6] by simp
qed

lemma unat_tail: "unat (ucast (0x80 OR (cp AND 0x3F)) :: u8) = 128 + unat cp mod 64" for cp :: u32
proof -
  have "unat (0x80 OR (cp AND 0x3F) :: u32) = push_bit 6 2 OR (unat cp mod 64)"
    by (simp add: unsigned_or_eq unat_low6)
  also have "\<dots> = 128 + unat cp mod 64" by (subst or_push_add) simp_all
  finally have *: "unat (0x80 OR (cp AND 0x3F) :: u32) = 128 + unat cp mod 64" .
  have "take_bit 8 (128 + unat cp mod 64) = 128 + unat cp mod 64"
    by (rule take_bit_nat_eq_self) (use mod_less_divisor[of 64 "unat cp"] in simp)
  then show ?thesis unfolding unsigned_ucast_eq * by simp
qed

lemma unat_head:
  fixes x :: u32
  assumes "unat x < 2 ^ k" "k \<le> 5" "c = push_bit k d" "d * 2 ^ k + 2 ^ k \<le> 256"
  shows "unat (ucast (of_nat c OR x) :: u8) = c + unat x"
proof -
  have c: "c = d * 2 ^ k" using assms(3) by (simp add: push_bit_eq_mult)
  have "unat (of_nat c OR x) = push_bit k d OR unat x"
    using assms(3,4) c by (simp add: unsigned_or_eq unat_of_nat)
  also have "\<dots> = c + unat x" using c assms(1) by (simp add: or_push_add)
  finally have *: "unat (of_nat c OR x) = c + unat x" .
  have "take_bit 8 (c + unat x) = c + unat x"
    by (rule take_bit_nat_eq_self) (use assms c in simp)
  then show ?thesis unfolding unsigned_ucast_eq * by simp
qed

lemma encode_nat:
  "map unat (u8_encode cp) =
    (let n = unat cp in
     if n < 0x80 then [n]
     else if n < 0x800 then [192 + n div 64, 128 + n mod 64]
     else if n < 0x10000 then [224 + n div 4096, 128 + n div 64 mod 64, 128 + n mod 64]
     else if n < 0x200000 then [240 + n div 262144, 128 + n div 4096 mod 64, 128 + n div 64 mod 64, 128 + n mod 64]
     else map unat (u8_encode cp))"
proof -
  have 2: "unat (ucast (0xC0 OR drop_bit 6 cp) :: u8) = 192 + unat cp div 64" if "unat cp < 0x800"
    using unat_head[of "drop_bit 6 cp" 5 192 6] that by (simp add: unat_drop)
  have 3: "unat (ucast (0xE0 OR drop_bit 12 cp) :: u8) = 224 + unat cp div 4096" if "unat cp < 0x10000"
    using unat_head[of "drop_bit 12 cp" 4 224 14] that by (simp add: unat_drop)
  have 4: "unat (ucast (0xF0 OR drop_bit 18 cp) :: u8) = 240 + unat cp div 262144" if "unat cp < 0x200000"
    using unat_head[of "drop_bit 18 cp" 3 240 30] that by (simp add: unat_drop)
  have 1: "unat (ucast cp :: u8) = unat cp" if "unat cp < 128"
    using that by (simp add: unsigned_ucast_eq take_bit_nat_eq_self)
  show ?thesis
    using 1 2 3 4 by (simp add: Let_def u8_encode_def word_less_nat_alt unat_tail unat_drop)
qed


lemma high2: "b AND 0xC0 = push_bit 6 (drop_bit 6 b)" for b :: u8
proof -
  have m: "(0xC0 :: u8) = NOT (mask 6)" by (simp add: mask_eq_exp_minus_1)
  show ?thesis unfolding m by (rule bit_word_eqI) (auto simp: bit_simps)
qed

lemma div_eq_2_iff: "n div 64 = 2 \<longleftrightarrow> 128 \<le> n \<and> n < 192" for n :: nat
  by arith

lemma is_cont_nat: "is_cont b \<longleftrightarrow> 128 \<le> unat b \<and> unat b < 192"
proof -
  have d: "unat (drop_bit 6 b) = unat b div 64" by (simp add: unat_drop)
  have lt: "unat b < 256" using unsigned_less[of b] by simp
  have "unat (b AND 0xC0) = unat b div 64 * 64"
    unfolding high2 unsigned_push_bit_eq d
    by (subst take_bit_nat_eq_self) (use lt in \<open>simp_all add: push_bit_eq_mult\<close>)
  then have "is_cont b \<longleftrightarrow> unat b div 64 * 64 = 128" by (simp add: is_cont_def word_unat_eq_iff)
  also have "\<dots> \<longleftrightarrow> unat b div 64 = 2" by linarith
  also have "\<dots> \<longleftrightarrow> 128 \<le> unat b \<and> unat b < 192" using div_eq_2_iff[of "unat b"] .
  finally show ?thesis .
qed

lemma seq_len_nat:
  "u8_seq_len b = (if unat b < 128 then 1 else if unat b < 194 then 0 else if unat b < 224 then 2
     else if unat b < 240 then 3 else if unat b < 245 then 4 else 0)"
  by (simp add: u8_seq_len_def word_less_nat_alt)

lemma tail_step:
  fixes cp :: u32 and c :: u8
  assumes "unat cp < 2 ^ 26"
  shows "unat (push_bit 6 cp OR ucast (c AND 0x3F)) = unat cp * 64 + unat c mod 64"
proof -
  have c: "unat (ucast (c AND 0x3F) :: u32) = unat c mod 64"
    using mod_less_divisor[of 64 "unat c"] by (simp add: unsigned_ucast_eq unat_low6 take_bit_nat_eq_self)
  have "unat (push_bit 6 cp) = push_bit 6 (unat cp)"
    unfolding unsigned_push_bit_eq by (rule take_bit_nat_eq_self) (use assms in \<open>simp add: push_bit_eq_mult\<close>)
  then show ?thesis by (simp add: unsigned_or_eq c or_push_add)
qed

lemma decode_head:
  "unat (ucast (b AND drop_bit 3 0xFF) :: u32) = unat b mod 32"
  "unat (ucast (b AND drop_bit 4 0xFF) :: u32) = unat b mod 16"
  "unat (ucast (b AND drop_bit 5 0xFF) :: u32) = unat b mod 8" for b :: u8
proof -
  have m: "(drop_bit 3 0xFF :: u8) = mask 5" "(drop_bit 4 0xFF :: u8) = mask 4" "(drop_bit 5 0xFF :: u8) = mask 3"
    by (simp_all add: mask_eq_exp_minus_1 drop_bit_eq_div)
  have "unat (ucast (b AND mask k) :: u32) = unat b mod 2 ^ k" for k
  proof -
    have "unat b mod 2 ^ k < 2 ^ 32" using unsigned_less[of b, where ?'a = nat] by (intro le_less_trans[OF mod_less_eq_dividend]) simp
    then show ?thesis by (simp only: unsigned_ucast_eq unat_low) (simp add: take_bit_nat_eq_self)
  qed
  from this[of 5] this[of 4] this[of 3]
  show "unat (ucast (b AND drop_bit 3 0xFF) :: u32) = unat b mod 32"
    "unat (ucast (b AND drop_bit 4 0xFF) :: u32) = unat b mod 16"
    "unat (ucast (b AND drop_bit 5 0xFF) :: u32) = unat b mod 8" by (simp_all only: m) simp_all
qed


lemma encode_length: "length (u8_encode cp) = encode_need cp"
  by (simp add: u8_encode_def encode_need_def)

lemma scalar_nat: "scalar cp \<longleftrightarrow> unat cp \<le> 0x10FFFF \<and> \<not> (0xD800 \<le> unat cp \<and> unat cp \<le> 0xDFFF)"
  by (simp add: scalar_def word_le_nat_alt)

lemma decode_tail_1:
  "decode_tail cp [c] = (if is_cont c then Some (push_bit 6 cp OR ucast (c AND 0x3F)) else None)" by simp

text \<open>What the decoder computes on a sequence of the length its lead byte announces.\<close>

lemma decode_tail_nat:
  assumes "decode_tail cp cs = Some r" "unat cp * 64 ^ length cs < 2 ^ 32" "length cs \<le> 3"
  shows "(\<forall>c \<in> set cs. is_cont c) \<and> unat r = fold (\<lambda>c a. a * 64 + unat c mod 64) cs (unat cp)"
  using assms
proof (induction cs arbitrary: cp)
  case Nil
  then show ?case by simp
next
  case (Cons c cs)
  then have c: "is_cont c" and t: "decode_tail (push_bit 6 cp OR ucast (c AND 0x3F)) cs = Some r"
    by (auto split: if_splits)
  have lt: "unat cp < 2 ^ 26"
  proof -
    have "unat cp * 1 \<le> unat cp * 64 ^ length cs" by (intro mult_le_mono) simp_all
    also have "\<dots> < 2 ^ 26" using Cons.prems(2) by simp
    finally show ?thesis by simp
  qed
  note s = tail_step[OF lt, of c]
  have "(unat cp * 64 + unat c mod 64) * 64 ^ length cs < 2 ^ 32"
  proof -
    consider "length cs = 0" | "length cs = 1" | "length cs = 2" using Cons.prems(3) by (cases "length cs") (auto simp: less_Suc_eq le_Suc_eq)
    then show ?thesis using Cons.prems(2) lt mod_less_divisor[of 64 "unat c"] by cases auto
  qed
  then show ?case using Cons.IH[OF t] Cons.prems(3) c by (simp add: s)
qed


lemma list_unat_eq: "map unat xs = map unat ys \<Longrightarrow> xs = (ys :: bytes)"
  by (erule map_injective) (rule injI, erule unsigned_word_eqI)

lemma mod_shift:
  fixes n m q :: nat
  assumes "q * m \<le> n" "n < q * m + m"
  shows "q * m + n mod m = n"
proof -
  have "n div m = q" by (rule div_nat_eqI) (use assms in \<open>simp_all add: mult.commute\<close>)
  then show ?thesis using div_mult_mod_eq[of n m] by simp
qed

lemma lead_split: "192 \<le> n \<Longrightarrow> n < 224 \<Longrightarrow> 192 + n mod 32 = n" "224 \<le> n \<Longrightarrow> n < 240 \<Longrightarrow> 224 + n mod 16 = n"
  "240 \<le> n \<Longrightarrow> n < 248 \<Longrightarrow> 240 + n mod 8 = n" "128 \<le> n \<Longrightarrow> n < 192 \<Longrightarrow> 128 + n mod 64 = n" for n :: nat
  using mod_shift[of 6 32 n] mod_shift[of 14 16 n] mod_shift[of 30 8 n] mod_shift[of 2 64 n] by simp_all

lemma cont_split: "is_cont c \<Longrightarrow> 128 + unat c mod 64 = unat c"
  by (rule lead_split(4)) (simp_all add: is_cont_nat)

lemma list_of_length:
  "length xs = 1 \<Longrightarrow> \<exists>a. xs = [a]" "length xs = 2 \<Longrightarrow> \<exists>a b. xs = [a, b]" "length xs = 3 \<Longrightarrow> \<exists>a b c. xs = [a, b, c]"
  by (auto simp: numeral_eq_Suc length_Suc_conv)

lemma horner_bits:
  fixes x y :: nat
  assumes "y < 64"
  shows "(x * 64 + y) div 64 = x" "(x * 64 + y) mod 64 = y"
  using assms by auto

lemma horner_bits3:
  fixes x y z :: nat
  assumes "y < 64" "z < 64"
  shows "((x * 64 + y) * 64 + z) div 4096 = x" "((x * 64 + y) * 64 + z) div 64 mod 64 = y" "((x * 64 + y) * 64 + z) mod 64 = z"
proof -
  have "n div 4096 = n div 64 div 64" for n :: nat by (simp add: div_mult2_eq[symmetric])
  then show "((x * 64 + y) * 64 + z) div 4096 = x" by (simp only: horner_bits[OF assms(2)] horner_bits[OF assms(1)])
qed (simp_all only: horner_bits[OF assms(2)] horner_bits[OF assms(1)])

lemma horner_bits4:
  fixes x y z w :: nat
  assumes "y < 64" "z < 64" "w < 64"
  shows "(((x * 64 + y) * 64 + z) * 64 + w) div 262144 = x" "(((x * 64 + y) * 64 + z) * 64 + w) div 4096 mod 64 = y"
    "(((x * 64 + y) * 64 + z) * 64 + w) div 64 mod 64 = z" "(((x * 64 + y) * 64 + z) * 64 + w) mod 64 = w"
proof -
  have d: "n div 262144 = n div 64 div 4096" "n div 4096 = n div 64 div 64" for n :: nat by (simp_all add: div_mult2_eq[symmetric])
  show "(((x * 64 + y) * 64 + z) * 64 + w) div 262144 = x"
    by (simp only: d(1) horner_bits[OF assms(3)] horner_bits3[OF assms(1,2)])
  show "(((x * 64 + y) * 64 + z) * 64 + w) div 4096 mod 64 = y"
    by (simp only: d(2) horner_bits[OF assms(3)] horner_bits3[OF assms(1,2)] horner_bits[OF assms(2)] horner_bits[OF assms(1)])
qed (simp_all only: horner_bits[OF assms(3)] horner_bits3[OF assms(1,2)] horner_bits[OF assms(2)])

lemma lead_mod: "k < 32 \<Longrightarrow> (192 + k) mod 32 = k" "k < 16 \<Longrightarrow> (224 + k) mod 16 = k" "k < 8 \<Longrightarrow> (240 + k) mod 8 = k" for k :: nat
  by (subst mod_add_eq[symmetric]; simp)+

text \<open>A sequence the decoder accepts is the encoding of the scalar it returns.\<close>

lemma decode_sound:
  assumes "i < length s" "skk_utf8_decode s i = (cp, n)" "\<not> (cp = 0xFFFD \<and> n = 1)"
  shows "scalar cp \<and> n = length (u8_encode cp) \<and> take n (drop i s) = u8_encode cp"
proof (cases "u8_seq_len (s ! i) = 1")
  case True
  then have b: "unat (s ! i) < 128" by (auto simp: seq_len_nat split: if_splits)
  have cp: "cp = ucast (s ! i)" "n = 1" using assms True by (simp_all add: skk_utf8_decode_def Let_def)
  have u: "unat cp = unat (s ! i)" unfolding cp using b by (simp add: unsigned_ucast_eq take_bit_nat_eq_self)
  have t: "take 1 (drop i s) = [s ! i]" using assms(1) by (simp add: take_Suc_conv_app_nth Cons_nth_drop_Suc[symmetric])
  have "u8_encode cp = [s ! i]" by (rule list_unat_eq) (use b u in \<open>simp add: encode_nat Let_def\<close>)
  then show ?thesis using b u cp t by (simp add: scalar_nat)
next
  case False
  let ?b = "s ! i"
  let ?n = "u8_seq_len ?b"
  let ?cs = "take (?n - 1) (drop (i + 1) s)"
  let ?t = "decode_tail (ucast (?b AND drop_bit (?n + 1) 0xFF)) ?cs"
  let ?bad = "\<lambda>c. c < min_cp ! ?n \<or> c > 0x10FFFF \<or> (c \<ge> 0xD800 \<and> c \<le> 0xDFFF)"
  have eq: "skk_utf8_decode s i = (if ?n = 0 \<or> ?n > length s - i then (0xFFFD, 1)
      else case ?t of None \<Rightarrow> (0xFFFD, 1) | Some c \<Rightarrow> if ?bad c then (0xFFFD, 1) else (c, ?n))"
    unfolding skk_utf8_decode_def Let_def using assms(1) False by (simp only: not_le[symmetric] if_False)
  have n0: "\<not> (?n = 0 \<or> ?n > length s - i)"
  proof
    assume "?n = 0 \<or> ?n > length s - i"
    with eq assms(2,3) show False by simp
  qed
  have "?t \<noteq> None"
  proof
    assume "?t = None"
    with eq[unfolded if_not_P[OF n0]] assms(2,3) show False by simp
  qed
  then obtain cp' where t: "?t = Some cp'" by blast
  have nb: "\<not> ?bad cp'"
  proof
    assume "?bad cp'"
    with eq[unfolded if_not_P[OF n0] t option.case] assms(2,3) show False by simp
  qed
  have d: "?n \<noteq> 0" "?n \<le> length s - i" "?t = Some cp'" "\<not> ?bad cp'" "cp = cp'" "n = ?n"
    using n0 t nb eq[unfolded if_not_P[OF n0] t option.case if_not_P[OF nb]] assms(2) by simp_all
  have len: "length ?cs = ?n - 1" using d(2) by simp
  have seq: "take ?n (drop i s) = ?b # ?cs"
    using assms(1) d(1) by (cases ?n) (simp_all add: Cons_nth_drop_Suc[symmetric])
  have sc: "scalar cp" using d(4,5) by (auto simp: scalar_def)
  have m: "0 < (64 :: nat)" by simp
  consider (2) "?n = 2" "194 \<le> unat ?b" "unat ?b < 224" | (3) "?n = 3" "224 \<le> unat ?b" "unat ?b < 240"
    | (4) "?n = 4" "240 \<le> unat ?b" "unat ?b < 245"
    using d(1) False by (auto simp: seq_len_nat split: if_splits)
  then show ?thesis
  proof cases
    case 2
    then obtain c where cs: "?cs = [c]" using list_of_length(1)[of ?cs] len by auto
    have h: "unat (ucast (?b AND drop_bit (?n + 1) 0xFF) :: u32) = unat ?b mod 32" using 2 decode_head(1) by simp
    have T: "is_cont c" "unat cp = unat ?b mod 32 * 64 + unat c mod 64"
      using decode_tail_nat[OF d(3)] d(5) unfolding h cs by simp_all
    have "128 \<le> unat cp" using d(4,5) 2 by (simp add: min_cp_def word_less_nat_alt not_less)
    moreover have "unat cp < 2048" "unat ?b = 192 + unat cp div 64" "unat c = 128 + unat cp mod 64"
      unfolding T horner_bits[OF mod_less_divisor[OF m]]
      using 2 cont_split[OF T(1)] lead_split(1)[of "unat ?b"] mod_less_divisor[of 32 "unat ?b"] mod_less_divisor[OF m, of "unat c"]
      by simp_all
    ultimately have "u8_encode cp = [?b, c]" by (intro list_unat_eq) (simp add: encode_nat Let_def)
    then show ?thesis using sc seq cs 2 d by simp
  next
    case 3
    then obtain c1 c2 where cs: "?cs = [c1, c2]" using list_of_length(2)[of ?cs] len by auto
    have h: "unat (ucast (?b AND drop_bit (?n + 1) 0xFF) :: u32) = unat ?b mod 16" using 3 decode_head(2) by simp
    have T: "is_cont c1" "is_cont c2" "unat cp = (unat ?b mod 16 * 64 + unat c1 mod 64) * 64 + unat c2 mod 64"
      using decode_tail_nat[OF d(3)] d(5) unfolding h cs by simp_all
    have "2048 \<le> unat cp" using d(4,5) 3 by (simp add: min_cp_def word_less_nat_alt not_less)
    moreover have "unat cp < 65536" "unat ?b = 224 + unat cp div 4096" "unat c1 = 128 + unat cp div 64 mod 64"
        "unat c2 = 128 + unat cp mod 64"
      unfolding T horner_bits3[OF mod_less_divisor[OF m] mod_less_divisor[OF m]]
      using 3 cont_split[OF T(1)] cont_split[OF T(2)] lead_split(2)[of "unat ?b"] mod_less_divisor[of 16 "unat ?b"]
        mod_less_divisor[OF m, of "unat c1"] mod_less_divisor[OF m, of "unat c2"] by simp_all
    ultimately have "u8_encode cp = [?b, c1, c2]" by (intro list_unat_eq) (simp add: encode_nat Let_def)
    then show ?thesis using sc seq cs 3 d by simp
  next
    case 4
    then obtain c1 c2 c3 where cs: "?cs = [c1, c2, c3]" using list_of_length(3)[of ?cs] len by auto
    have h: "unat (ucast (?b AND drop_bit (?n + 1) 0xFF) :: u32) = unat ?b mod 8" using 4 decode_head(3) by simp
    have T: "is_cont c1" "is_cont c2" "is_cont c3"
        "unat cp = ((unat ?b mod 8 * 64 + unat c1 mod 64) * 64 + unat c2 mod 64) * 64 + unat c3 mod 64"
      using decode_tail_nat[OF d(3)] d(5) unfolding h cs by simp_all
    have "65536 \<le> unat cp" using d(4,5) 4 by (simp add: min_cp_def word_less_nat_alt not_less)
    moreover have "unat cp < 2097152" "unat ?b = 240 + unat cp div 262144" "unat c1 = 128 + unat cp div 4096 mod 64"
        "unat c2 = 128 + unat cp div 64 mod 64" "unat c3 = 128 + unat cp mod 64"
      unfolding T horner_bits4[OF mod_less_divisor[OF m] mod_less_divisor[OF m] mod_less_divisor[OF m]]
      using 4 cont_split[OF T(1)] cont_split[OF T(2)] cont_split[OF T(3)] lead_split(3)[of "unat ?b"] mod_less_divisor[of 8 "unat ?b"]
        mod_less_divisor[OF m, of "unat c1"] mod_less_divisor[OF m, of "unat c2"] mod_less_divisor[OF m, of "unat c3"] by simp_all
    ultimately have "u8_encode cp = [?b, c1, c2, c3]" by (intro list_unat_eq) (simp add: encode_nat Let_def)
    then show ?thesis using sc seq cs 4 d by simp
  qed
qed


text \<open>And every encoding is accepted.\<close>

lemma decode_tail_all:
  assumes "\<forall>c \<in> set cs. is_cont c"
  shows "\<exists>r. decode_tail cp cs = Some r"
  using assms by (induction cs arbitrary: cp) auto

lemma encode_head_seq:
  assumes "scalar cp" "u8_encode cp = b # cs"
  shows "u8_seq_len b = length (u8_encode cp) \<and> (\<forall>c \<in> set cs. is_cont c) \<and>
    (length cs = 0 \<longrightarrow> unat b = unat cp) \<and>
    (length cs = 1 \<longrightarrow> unat b mod 32 = unat cp div 64) \<and> (length cs = 2 \<longrightarrow> unat b mod 16 = unat cp div 4096) \<and>
    (length cs = 3 \<longrightarrow> unat b mod 8 = unat cp div 262144)"
proof -
  let ?n = "unat cp"
  have sc: "?n \<le> 0x10FFFF" using assms(1) by (simp add: scalar_nat)
  have m: "x mod 64 < 64" for x :: nat by simp
  have e: "unat b # map unat cs = map unat (u8_encode cp)" using assms(2) by simp
  have c: "\<forall>c \<in> set cs. is_cont c" if "\<forall>k \<in> set (map unat cs). 128 \<le> k \<and> k < 192" using that by (simp add: is_cont_nat)
  have l: "length cs = length (map unat cs)" "length (u8_encode cp) = Suc (length (map unat cs))" using assms(2) by simp_all
  consider "?n < 128" | "128 \<le> ?n" "?n < 2048" | "2048 \<le> ?n" "?n < 65536" | "65536 \<le> ?n" by linarith
  then show ?thesis
  proof cases
    case 1
    with e have "unat b = ?n" "map unat cs = []" by (simp_all add: encode_nat Let_def)
    then show ?thesis using 1 l by (simp add: seq_len_nat)
  next
    case 2
    with e have E: "unat b = 192 + ?n div 64" "map unat cs = [128 + ?n mod 64]" by (simp_all add: encode_nat Let_def)
    have "?n div 64 < 32" "2 \<le> ?n div 64" using 2 by (auto simp: less_mult_imp_div_less)
    moreover have "\<forall>k \<in> set (map unat cs). 128 \<le> k \<and> k < 192" unfolding E(2) using m by simp
    ultimately show ?thesis unfolding l using c by (simp add: seq_len_nat E lead_mod)
  next
    case 3
    with e have E: "unat b = 224 + ?n div 4096" "map unat cs = [128 + ?n div 64 mod 64, 128 + ?n mod 64]"
      by (simp_all add: encode_nat Let_def)
    have "?n div 4096 < 16" using 3 by (auto simp: less_mult_imp_div_less)
    moreover have "\<forall>k \<in> set (map unat cs). 128 \<le> k \<and> k < 192" unfolding E(2) using m by simp
    ultimately show ?thesis unfolding l using c by (simp add: seq_len_nat E lead_mod)
  next
    case 4
    with e sc have E: "unat b = 240 + ?n div 262144" "map unat cs = [128 + ?n div 4096 mod 64, 128 + ?n div 64 mod 64, 128 + ?n mod 64]"
      by (simp_all add: encode_nat Let_def)
    have "?n div 262144 < 5" using sc by (auto simp: less_mult_imp_div_less)
    moreover have "\<forall>k \<in> set (map unat cs). 128 \<le> k \<and> k < 192" unfolding E(2) using m by simp
    ultimately show ?thesis unfolding l using c by (simp add: seq_len_nat E lead_mod)
  qed
qed


lemma div_join: "n div (m * 64) * 64 + n div m mod 64 = n div m" for n m :: nat
  by (simp add: div_mult2_eq)

lemma div_joins: "n div 64 * 64 + n mod 64 = n" "n div 4096 * 64 + n div 64 mod 64 = n div 64"
  "n div 262144 * 64 + n div 4096 mod 64 = n div 4096" for n :: nat
  using div_join[of n 1] div_join[of n 64] div_join[of n 4096] by simp_all

lemma drop_128: "(128 + x mod 64) mod 64 = x mod 64" for x :: nat
  by (subst mod_add_eq[symmetric]) simp

lemma encode_value:
  assumes "scalar cp" "u8_encode cp = b # cs" "cs \<noteq> []"
  shows "fold (\<lambda>c a. a * 64 + unat c mod 64) cs (unat b mod 2 ^ (6 - length cs)) = unat cp"
proof -
  let ?n = "unat cp"
  have sc: "?n < 0x200000" using assms(1) by (simp add: scalar_nat)
  have e: "map unat cs = tl (map unat (u8_encode cp))" using assms(2) by simp
  have f: "fold (\<lambda>c a. a * 64 + unat c mod 64) cs x = fold (\<lambda>c a. a * 64 + c mod 64) (map unat cs) x" for x
    by (simp add: fold_map o_def)
  have l: "length cs = length (map unat cs)" by simp
  note h = encode_head_seq[OF assms(1,2)]
  consider "?n < 128" | "128 \<le> ?n" "?n < 2048" | "2048 \<le> ?n" "?n < 65536" | "65536 \<le> ?n" by linarith
  then show ?thesis
  proof cases
    case 1
    with e have "map unat cs = []" by (simp add: encode_nat Let_def)
    then show ?thesis using assms(3) by simp
  next
    case 2
    with e have E: "map unat cs = [128 + ?n mod 64]" by (simp add: encode_nat Let_def)
    have L: "length cs = 1" using l E by simp
    with h have "unat b mod 32 = ?n div 64" by simp
    then show ?thesis unfolding f E L by (simp add: div_joins(1) drop_128)
  next
    case 3
    with e have E: "map unat cs = [128 + ?n div 64 mod 64, 128 + ?n mod 64]" by (simp add: encode_nat Let_def)
    have L: "length cs = 2" using l E by simp
    with h have "unat b mod 16 = ?n div 4096" by simp
    then show ?thesis unfolding f E L by (simp add: div_joins(1,2) drop_128)
  next
    case 4
    with e sc have E: "map unat cs = [128 + ?n div 4096 mod 64, 128 + ?n div 64 mod 64, 128 + ?n mod 64]"
      by (simp add: encode_nat Let_def)
    have L: "length cs = 3" using l E by simp
    with h have "unat b mod 8 = ?n div 262144" by simp
    then show ?thesis unfolding f E L by (simp add: div_joins drop_128)
  qed
qed

lemma encode_nonempty: "u8_encode cp \<noteq> []"
  by (simp add: u8_encode_def)

lemma min_cp_need: "scalar cp \<Longrightarrow> \<not> cp < min_cp ! encode_need cp"
  by (simp add: min_cp_def encode_need_def)

lemma decode_complete:
  assumes sc: "scalar cp" and i: "take (length (u8_encode cp)) (drop i s) = u8_encode cp"
  shows "skk_utf8_decode s i = (cp, length (u8_encode cp))"
proof -
  obtain b cs where enc: "u8_encode cp = b # cs" using encode_nonempty[of cp] by (cases "u8_encode cp") auto
  have il: "i < length s" using i enc by (cases "i < length s") auto
  have b: "s ! i = b" and cs: "take (length cs) (drop (i + 1) s) = cs"
    using i il unfolding enc by (simp_all add: Cons_nth_drop_Suc[symmetric])
  have room: "length cs \<le> length s - (i + 1)" using cs by (metis length_drop length_take min.cobounded1 min.commute)
  have fits: "\<not> length s - i < Suc (length cs)" using room il by linarith
  note h = encode_head_seq[OF sc enc]
  have n: "u8_seq_len b = Suc (length cs)" using h enc by simp
  show ?thesis
  proof (cases "cs = []")
    case True
    then have "unat b = unat cp" "u8_seq_len b = 1" using h n by simp_all
    moreover have "unat cp < 2 ^ 32" using unsigned_less[of cp, where ?'a = nat] by simp
    ultimately have "ucast b = cp"
      by (simp add: word_unat_eq_iff unsigned_ucast_eq take_bit_nat_eq_self)
    then show ?thesis using True il n enc by (simp add: skk_utf8_decode_def b)
  next
    case False
    have need: "encode_need cp = Suc (length cs)" using enc encode_length[of cp] by simp
    have len: "length cs \<in> {1, 2, 3}" using need False by (auto simp: encode_need_def split: if_splits)
    have dh: "unat (ucast (b AND drop_bit (u8_seq_len b + 1) 0xFF) :: u32) = unat b mod 2 ^ (6 - length cs)"
      using len n decode_head[of b] by auto
    obtain r where r: "decode_tail (ucast (b AND drop_bit (u8_seq_len b + 1) 0xFF)) cs = Some r"
      using decode_tail_all h by blast
    have small: "unat b mod 2 ^ (6 - length cs) * 64 ^ length cs < 2 ^ 32"
      using len mod_less_divisor[of 32 "unat b"] mod_less_divisor[of 16 "unat b"] mod_less_divisor[of 8 "unat b"] by auto
    have "unat r = unat cp"
      using decode_tail_nat[OF r] small len encode_value[OF sc enc False] unfolding dh by auto
    then have rc: "r = cp" by (rule unsigned_word_eqI)
    have nb: "\<not> (cp < min_cp ! Suc (length cs) \<or> cp > 0x10FFFF \<or> (cp \<ge> 0xD800 \<and> cp \<le> 0xDFFF))"
      using min_cp_need[OF sc] need sc by (auto simp: scalar_def)
    have "skk_utf8_decode s i = (case decode_tail (ucast (b AND drop_bit (u8_seq_len b + 1) 0xFF)) cs of
          None \<Rightarrow> (0xFFFD, 1)
        | Some c \<Rightarrow> if c < min_cp ! Suc (length cs) \<or> c > 0x10FFFF \<or> (c \<ge> 0xD800 \<and> c \<le> 0xDFFF) then (0xFFFD, 1)
            else (c, Suc (length cs)))"
      unfolding skk_utf8_decode_def Let_def b n using il fits False cs by simp
    then show ?thesis unfolding r rc option.case if_not_P[OF nb] enc by simp
  qed
qed


section \<open>Text as characters\<close>

definition utf8 :: "u32 list \<Rightarrow> bytes" where
  "utf8 cps = concat (map u8_encode cps)"

lemma utf8_simps [simp]: "utf8 [] = []" "utf8 (c # cs) = u8_encode c @ utf8 cs" "utf8 (a @ b) = utf8 a @ utf8 b"
  by (simp_all add: utf8_def)

lemma encode_len_bounds: "1 \<le> length (u8_encode c)" "length (u8_encode c) \<le> 4"
  by (simp_all add: encode_length encode_need_def)

lemma seq_len_lead: "1 \<le> u8_seq_len b \<Longrightarrow> \<not> is_cont b"
  by (auto simp: is_cont_nat seq_len_nat split: if_splits)

lemma utf8_skip_run:
  "j \<le> lim \<Longrightarrow> lim \<le> length s \<Longrightarrow> (\<And>k. j \<le> k \<Longrightarrow> k < lim \<Longrightarrow> is_cont (s ! k)) \<Longrightarrow> utf8_skip s j lim = lim"
proof (induction s j lim rule: utf8_skip.induct)
  case (1 s j lim)
  show ?case
  proof (cases "j < lim")
    case True
    with 1 show ?thesis by (simp add: utf8_skip.simps[of s j lim])
  next
    case False
    with 1(2) show ?thesis by (simp add: utf8_skip.simps[of s lim lim])
  qed
qed

lemma utf8_back_run:
  assumes "p < j" "j \<le> i" "i - p \<le> 4" "\<not> is_cont (s ! p)" "\<And>k. p < k \<Longrightarrow> k < i \<Longrightarrow> is_cont (s ! k)"
  shows "utf8_back s i j = p"
  using assms(1,2)
proof (induction j)
  case 0
  then show ?case by simp
next
  case (Suc j)
  have "i - Suc j < 4" using Suc.prems assms(3) by linarith
  then show ?case using Suc assms(4,5) by (cases "p = j") auto
qed

lemma encoded_at:
  assumes "scalar c"
  shows "\<exists>b cs. u8_encode c = b # cs \<and> u8_seq_len b = Suc (length cs) \<and> \<not> is_cont b \<and> (\<forall>x \<in> set cs. is_cont x) \<and> length cs \<le> 3"
proof -
  obtain b cs where enc: "u8_encode c = b # cs" using encode_nonempty[of c] by (cases "u8_encode c") auto
  with encode_head_seq[OF assms enc] encode_len_bounds[of c] seq_len_lead[of b] show ?thesis by auto
qed

lemma step_next:
  assumes "scalar c"
  shows "skk_utf8_next (pre @ u8_encode c @ rest) (length pre) = length pre + length (u8_encode c)"
proof -
  obtain b cs where e: "u8_encode c = b # cs" "u8_seq_len b = Suc (length cs)" "\<forall>x \<in> set cs. is_cont x"
    using encoded_at[OF assms] by blast
  let ?s = "pre @ (b # cs) @ rest"
  have "is_cont (?s ! k)" if "length pre + 1 \<le> k" "k < length pre + Suc (length cs)" for k
  proof -
    from that obtain j where "k = length pre + Suc j" "j < length cs" by (metis add_Suc_right add_less_cancel_left less_iff_Suc_add Suc_eq_plus1 Suc_less_eq le_Suc_ex plus_nat.simps(2))
    then show ?thesis using e(3) by (simp add: nth_append)
  qed
  then have "utf8_skip ?s (length pre + 1) (length pre + Suc (length cs)) = length pre + Suc (length cs)"
    by (intro utf8_skip_run) auto
  then show ?thesis by (simp add: e(1,2) skk_utf8_next_def Let_def nth_append)
qed

lemma step_prev:
  assumes "scalar c"
  shows "skk_utf8_prev (pre @ u8_encode c @ rest) (length pre + length (u8_encode c)) = length pre"
proof -
  obtain b cs where e: "u8_encode c = b # cs" "u8_seq_len b = Suc (length cs)" "\<not> is_cont b" "\<forall>x \<in> set cs. is_cont x" "length cs \<le> 3"
    using encoded_at[OF assms] by blast
  let ?s = "pre @ (b # cs) @ rest"
  let ?i = "length pre + Suc (length cs)"
  have "is_cont (?s ! k)" if "length pre < k" "k < ?i" for k
  proof -
    from that have "k - Suc (length pre) < length cs" "k = length pre + Suc (k - Suc (length pre))" by auto
    then show ?thesis using e(4) by (metis append_Cons nth_Cons_Suc nth_append_left nth_append_length_plus nth_mem)
  qed
  then have "utf8_back ?s ?i ?i = length pre"
    using e(3,5) by (intro utf8_back_run) (auto simp: nth_append)
  then show ?thesis by (simp add: e(1,2) skk_utf8_prev_def Let_def nth_append del: utf8_back.simps)
qed

lemma step_decode:
  assumes "scalar c"
  shows "skk_utf8_decode (pre @ u8_encode c @ rest) (length pre) = (c, length (u8_encode c))"
  by (rule decode_complete[OF assms]) simp

section \<open>Katakana\<close>

lemma kata_cp_props: "scalar c \<Longrightarrow> scalar (kata_cp c)" "length (u8_encode (kata_cp c)) = length (u8_encode c)"
proof -
  have u: "unat (c + 0x60) = unat c + 0x60" if "unat c \<le> 0x3096"
    using that by (subst unat_add_lem[THEN iffD1]) simp_all
  show "scalar c \<Longrightarrow> scalar (kata_cp c)"
    using u by (auto simp: kata_cp_def scalar_nat word_le_nat_alt)
  show "length (u8_encode (kata_cp c)) = length (u8_encode c)"
    using u by (auto simp: kata_cp_def encode_length encode_need_def word_le_nat_alt word_less_nat_alt)
qed

lemma kata_loop_utf8:
  assumes "\<forall>c \<in> set b. scalar c \<and> c \<noteq> 0xFFFD" "length out \<le> cap"
  shows "kata_loop (pre @ utf8 b) cap (length pre) out =
    (if length out + length (utf8 b) \<le> cap then out @ utf8 (map kata_cp b) else [])"
  using assms
proof (induction b arbitrary: pre out)
  case Nil
  then show ?case by (simp add: kata_loop.simps)
next
  case (Cons c b)
  then have c: "scalar c" "c \<noteq> 0xFFFD" by auto
  have d: "skk_utf8_decode (pre @ utf8 (c # b)) (length pre) = (c, length (u8_encode c))"
    using step_decode[OF c(1)] by simp
  have lt: "\<not> length (pre @ utf8 (c # b)) \<le> length pre" using encode_len_bounds(1)[of c] by (simp add: not_le Suc_le_eq)
  have need: "encode_need (kata_cp c) = length (u8_encode c)" using kata_cp_props(2)[of c] by (simp add: encode_length)
  have k: "kata_loop (pre @ utf8 (c # b)) cap (length pre) out =
      (if length (u8_encode c) > cap - length out then []
       else kata_loop ((pre @ u8_encode c) @ utf8 b) cap (length (pre @ u8_encode c)) (out @ u8_encode (kata_cp c)))"
    unfolding kata_loop.simps[of "pre @ utf8 (c # b)" cap "length pre" out] if_not_P[OF lt] d prod.case if_not_P[OF c(2)] need by simp
  show ?case
  proof (cases "length (u8_encode c) > cap - length out")
    case True
    then have "\<not> length out + length (utf8 (c # b)) \<le> cap" using Cons.prems(2) by simp
    then show ?thesis unfolding k using True by simp
  next
    case False
    then have "length (out @ u8_encode (kata_cp c)) \<le> cap" using Cons.prems(2) kata_cp_props(2)[of c] by simp
    from Cons.IH[OF _ this, of "pre @ u8_encode c"] Cons.prems(1) False show ?thesis
      unfolding k using kata_cp_props(2)[of c] by simp
  qed
qed


section \<open>Properties\<close>

text \<open>The decoder and the encoder are inverse.  A Unicode scalar value that is encoded
  anywhere in a buffer is decoded there with its length, and whenever the decoder reports a character
  other than the error value, the bytes it read are exactly the encoding of that scalar value
  (no overlong, surrogate or truncated sequence is accepted).\<close>

theorem skk_utf8_roundtrip:
  "(scalar c \<longrightarrow> skk_utf8_decode (pre @ u8_encode c @ rest) (length pre) = (c, length (u8_encode c))) \<and>
   (i < length s \<longrightarrow> skk_utf8_decode s i = (d, n) \<longrightarrow> \<not> (d = 0xFFFD \<and> n = 1) \<longrightarrow>
      scalar d \<and> n = length (u8_encode d) \<and> take n (drop i s) = u8_encode d)"
  by (intro conjI impI step_decode decode_sound)

lemma skk_utf8_roundtrip_witness:
  "skk_utf8_decode (ascii ''a'' @ u8_encode 0x304B @ ascii ''b'') 1 = (0x304B, 3) \<and> take 3 [0xE3, 0x81, 0x8B, 0x41] = u8_encode 0x304B"
proof -
  have "scalar 0x304B" by (simp add: scalar_def)
  moreover have "length (ascii ''a'') = 1" "length (u8_encode 0x304B) = 3" by code_simp+
  ultimately have "skk_utf8_decode (ascii ''a'' @ u8_encode 0x304B @ ascii ''b'') 1 = (0x304B, 3)"
    using skk_utf8_roundtrip[where c="0x304B" and pre="ascii ''a''" and rest="ascii ''b''"] by simp
  moreover have "skk_utf8_decode [0xE3, 0x81, 0x8B, 0x41] 0 = (0x304B, 3)" by code_simp
  then have "take 3 [0xE3, 0x81, 0x8B, 0x41] = u8_encode 0x304B"
    using skk_utf8_roundtrip[where i=0 and s="[0xE3, 0x81, 0x8B, 0x41]" and d="0x304B" and n=3] by simp
  ultimately show ?thesis by blast
qed

text \<open>On well-formed text one step forward passes exactly one character and one step
  back from its end returns to its start, so a deletion removes a whole character.\<close>

theorem skk_utf8_steps:
  assumes "scalar c"
  shows "skk_utf8_next (pre @ u8_encode c @ rest) (length pre) = length pre + length (u8_encode c) \<and>
    skk_utf8_prev (pre @ u8_encode c @ rest) (skk_utf8_next (pre @ u8_encode c @ rest) (length pre)) = length pre"
  using step_next[OF assms] step_prev[OF assms] by simp

lemma skk_utf8_steps_witness: "skk_utf8_prev ([0x61] @ u8_encode 0x3042 @ []) (skk_utf8_next ([0x61] @ u8_encode 0x3042 @ []) 1) = 1"
proof -
  have "scalar 0x3042" by (simp add: scalar_def)
  from skk_utf8_steps[OF this, of "[0x61]" "[]", THEN conjunct2] show ?thesis by simp
qed

text \<open>The katakana form of a text without replacement characters is the text with every
  hiragana letter moved by 0x60, in as many bytes, or nothing when it does not fit.\<close>

theorem to_katakana_exact:
  assumes "\<forall>c \<in> set cps. scalar c \<and> c \<noteq> 0xFFFD"
  shows "to_katakana (utf8 cps) cap = (if length (utf8 cps) \<le> cap then utf8 (map kata_cp cps) else []) \<and>
    length (utf8 (map kata_cp cps)) = length (utf8 cps)"
proof
  show "to_katakana (utf8 cps) cap = (if length (utf8 cps) \<le> cap then utf8 (map kata_cp cps) else [])"
    using kata_loop_utf8[OF assms, of "[]" cap "[]"] by (simp add: to_katakana_def)
  show "length (utf8 (map kata_cp cps)) = length (utf8 cps)"
    by (induction cps) (simp_all add: kata_cp_props(2))
qed

lemma to_katakana_exact_witness: "to_katakana (utf8 [0x3042, 0x61]) 32 = utf8 [0x30A2, 0x61]"
proof -
  have "\<forall>c \<in> set [0x3042, 0x61]. scalar c \<and> c \<noteq> 0xFFFD" by (simp add: scalar_def)
  moreover have "map kata_cp [0x3042, 0x61] = [0x30A2, 0x61]" "length (utf8 [0x3042, 0x61]) \<le> 32" by code_simp+
  ultimately show ?thesis using to_katakana_exact[where cps="[0x3042, 0x61]" and cap=32] by simp
qed

text \<open>The replacement character itself is taken for the decoder's error value: of its three bytes only
  the first is copied.\<close>

lemma katakana_loses_replacement_char: "to_katakana (u8_encode 0xFFFD) 32 = [0xEF]"
  by code_simp

end
