(* ===== verification/SkkOrder.thy ===== *)
theory SkkOrder
  imports SkkUtf8
begin

text \<open>
  The order-defining half of the dictionary code (components/skk_core/skk_dict.c up to
  \<open>skk_entry_cmp\<close>): the CRC with its nibble table, the collation table and the code of a
  character, the packed key of a reading and the comparator that the index builder and the search share.
  A C buffer and its length are one list.
\<close>

section \<open>Checksums\<close>

definition s_crc_nib :: "u32 list" where
  "s_crc_nib = [
    0x00000000, 0x1DB71064, 0x3B6E20C8, 0x26D930AC,
    0x76DC4190, 0x6B6B51F4, 0x4DB26158, 0x5005713C,
    0xEDB88320, 0xF00F9344, 0xD6D6A3E8, 0xCB61B38C,
    0x9B64C2B0, 0x86D3D2D4, 0xA00AE278, 0xBDBDF21C]"

definition crc_nibble :: "u32 \<Rightarrow> u32" where
  "crc_nibble crc = drop_bit 4 crc XOR s_crc_nib ! unat (crc AND 0x0F)"

definition crc_byte :: "u32 \<Rightarrow> u8 \<Rightarrow> u32" where
  "crc_byte crc b = crc_nibble (crc_nibble (crc XOR ucast b))"

definition skk_crc32 :: "u32 \<Rightarrow> bytes \<Rightarrow> u32" where
  "skk_crc32 seed data = NOT (foldl crc_byte (NOT seed) data)"

section \<open>The collation table\<close>

definition SKK_ALPHA_N :: nat where "SKK_ALPHA_N = 182"
definition SKK_CODE_END :: u8 where "SKK_CODE_END = 0x00"
definition SKK_CODE_ESC :: u8 where "SKK_CODE_ESC = 0xFF"
definition SKK_PACK_CHARS :: nat where "SKK_PACK_CHARS = 8"

definition s_alpha_cp :: "u16 list" where
  "s_alpha_cp = [
    0x0021, 0x0022, 0x0023, 0x0024, 0x0025, 0x0026, 0x0027, 0x0028, 0x0029, 0x002A, 0x002B, 0x002C, 0x002D,
    0x002E, 0x002F, 0x0030, 0x0031, 0x0032, 0x0033, 0x0034, 0x0035, 0x0036, 0x0037, 0x0038, 0x0039, 0x003A,
    0x003C, 0x003D, 0x003E, 0x003F, 0x0040, 0x0041, 0x0042, 0x0043, 0x0044, 0x0045, 0x0046, 0x0047, 0x0048,
    0x0049, 0x004A, 0x004B, 0x004C, 0x004D, 0x004E, 0x004F, 0x0050, 0x0051, 0x0052, 0x0053, 0x0054, 0x0055,
    0x0056, 0x0057, 0x0058, 0x0059, 0x005A, 0x005B, 0x005C, 0x005D, 0x005E, 0x005F, 0x0060, 0x0061, 0x0062,
    0x0063, 0x0064, 0x0065, 0x0066, 0x0067, 0x0068, 0x0069, 0x006A, 0x006B, 0x006C, 0x006D, 0x006E, 0x006F,
    0x0070, 0x0071, 0x0072, 0x0073, 0x0074, 0x0075, 0x0076, 0x0077, 0x0078, 0x0079, 0x007A, 0x007B, 0x007C,
    0x007D, 0x007E, 0x3001, 0x3002, 0x300C, 0x300D, 0x3041, 0x3042, 0x3043, 0x3044, 0x3045, 0x3046, 0x3047,
    0x3048, 0x3049, 0x304A, 0x304B, 0x304C, 0x304D, 0x304E, 0x304F, 0x3050, 0x3051, 0x3052, 0x3053, 0x3054,
    0x3055, 0x3056, 0x3057, 0x3058, 0x3059, 0x305A, 0x305B, 0x305C, 0x305D, 0x305E, 0x305F, 0x3060, 0x3061,
    0x3062, 0x3063, 0x3064, 0x3065, 0x3066, 0x3067, 0x3068, 0x3069, 0x306A, 0x306B, 0x306C, 0x306D, 0x306E,
    0x306F, 0x3070, 0x3071, 0x3072, 0x3073, 0x3074, 0x3075, 0x3076, 0x3077, 0x3078, 0x3079, 0x307A, 0x307B,
    0x307C, 0x307D, 0x307E, 0x307F, 0x3080, 0x3081, 0x3082, 0x3083, 0x3084, 0x3085, 0x3086, 0x3087, 0x3088,
    0x3089, 0x308A, 0x308B, 0x308C, 0x308D, 0x308F, 0x3090, 0x3091, 0x3092, 0x3093, 0x309B, 0x30FC, 0xFF1A]"

text \<open>
  The bisection both searches of the file use: the number of probes and the first position of the
  window that is not below.
\<close>

function bisect :: "(nat \<Rightarrow> bool) \<Rightarrow> nat \<Rightarrow> nat \<Rightarrow> nat \<times> nat" where
  "bisect below lo hi =
     (if lo < hi then
        let mid = lo + (hi - lo) div 2;
            r = (if below mid then bisect below (mid + 1) hi else bisect below lo mid) in
        (fst r + 1, snd r)
      else (0, lo))"
  by pat_completeness auto
termination by (relation "measure (\<lambda>(_, lo, hi). hi - lo)") auto

declare bisect.simps [simp del]

definition skk_char_code :: "u32 \<Rightarrow> u8" where
  "skk_char_code cp =
     (if cp > 0xFFFF then SKK_CODE_ESC
      else let lo = snd (bisect (\<lambda>mid. s_alpha_cp ! mid < ucast cp) 0 SKK_ALPHA_N) in
        if lo < SKK_ALPHA_N \<and> s_alpha_cp ! lo = ucast cp then of_nat (lo + 1) else SKK_CODE_ESC)"

definition alpha_bytes :: "u16 \<Rightarrow> bytes" where
  "alpha_bytes w =
     (let cp = ucast w :: u32 in
      if cp < 0x80 then [ucast cp]
      else if cp < 0x800 then [ucast (0xC0 OR drop_bit 6 cp), ucast (0x80 OR (cp AND 0x3F))]
      else [ucast (0xE0 OR drop_bit 12 cp), ucast (0x80 OR (drop_bit 6 cp AND 0x3F)), ucast (0x80 OR (cp AND 0x3F))])"

definition skk_alphabet_crc32 :: u32 where
  "skk_alphabet_crc32 = foldl (\<lambda>crc w. skk_crc32 crc (alpha_bytes w)) 0 s_alpha_cp"

section \<open>The packed key and the comparator\<close>

text \<open>The loop of \<open>skk_pack\<close>, by the number of characters still taken.\<close>

fun pack_loop :: "bytes \<Rightarrow> nat \<Rightarrow> nat \<Rightarrow> u64 \<Rightarrow> bool \<Rightarrow> u64 \<times> bool" where
  "pack_loop s i 0 key esc = (key, esc)"
| "pack_loop s i (Suc k) key esc =
     (if i < length s then
        case skk_utf8_decode s i of (cp, adv0) \<Rightarrow>
          let code = skk_char_code cp;
              adv = (if adv0 = 0 then 1 else adv0);
              n = SKK_PACK_CHARS - Suc k in
          pack_loop s (i + adv) k (key OR push_bit (56 - 8 * n) (ucast code)) (esc \<or> code = SKK_CODE_ESC)
      else (key, esc))"

definition skk_pack_esc :: "bytes \<Rightarrow> u64 \<times> bool" where
  "skk_pack_esc reading = pack_loop reading 0 SKK_PACK_CHARS 0 False"

definition skk_pack :: "bytes \<Rightarrow> u64" where
  "skk_pack reading = fst (skk_pack_esc reading)"

fun memcmp :: "bytes \<Rightarrow> bytes \<Rightarrow> int" where
  "memcmp (x # xs) (y # ys) = (if x = y then memcmp xs ys else if x < y then -1 else 1)"
| "memcmp _ _ = 0"

definition skk_entry_cmp :: "u64 \<Rightarrow> bytes \<Rightarrow> u64 \<Rightarrow> bytes \<Rightarrow> int" where
  "skk_entry_cmp ka a kb b =
     (if ka \<noteq> kb then (if ka < kb then -1 else 1)
      else let n = (if length a < length b then length a else length b);
               r = memcmp (take n a) (take n b) in
        if n > 0 \<and> r \<noteq> 0 then (if r < 0 then -1 else 1)
        else if length a \<noteq> length b then (if length a < length b then -1 else 1)
        else 0)"

section \<open>The checksum is the bitwise one\<close>

text \<open>The reference: one shift of the reflected polynomial per bit.\<close>

definition crc_bit :: "u32 \<Rightarrow> u32" where
  "crc_bit crc = (if bit crc 0 then drop_bit 1 crc XOR 0xEDB88320 else drop_bit 1 crc)"

definition crc_ref_byte :: "u32 \<Rightarrow> u8 \<Rightarrow> u32" where
  "crc_ref_byte crc b = (crc_bit ^^ 8) (crc XOR ucast b)"

lemma crc_nibble_bits: "crc_nibble crc = (crc_bit ^^ 4) crc"
proof -
  have idx: "unat (crc AND 0x0F) = of_bool (bit crc 0) + 2 * of_bool (bit crc 1) + 4 * of_bool (bit crc 2) + 8 * of_bool (bit crc 3)"
  proof -
    have "(0x0F :: u32) = mask 4" by (simp add: mask_eq_exp_minus_1)
    then have "unat (crc AND 0x0F) = take_bit 4 (unat crc)"
      by (metis take_bit_eq_mask unsigned_take_bit_eq)
    also have "\<dots> = of_bool (bit crc 0) + 2 * of_bool (bit crc 1) + 4 * of_bool (bit crc 2) + 8 * of_bool (bit crc 3)"
      using take_bit_Suc_from_most[of 3 "unat crc"] take_bit_Suc_from_most[of 2 "unat crc"]
        take_bit_Suc_from_most[of 1 "unat crc"] take_bit_Suc_from_most[of 0 "unat crc"]
      by (simp add: bit_unsigned_iff numeral_2_eq_2[symmetric] flip: bit_0)
    finally show ?thesis .
  qed
  define p :: u32 where "p = 0xEDB88320"
  define h :: "u32 \<Rightarrow> u32" where "h = drop_bit 1"
  have c: "h p = 0x76DC4190" "h 0x76DC4190 = 0x3B6E20C8" "h 0x3B6E20C8 = 0x1DB71064" "h 0 = 0"
    "h 0x9B64C2B0 = 0x4DB26158" "h 0x4DB26158 = 0x26D930AC" "h 0xD6D6A3E8 = 0x6B6B51F4" "h 0xA00AE278 = 0x5005713C"
    "\<not> bit p 0" "\<not> bit (0x76DC4190 :: u32) 0" "\<not> bit (0x3B6E20C8 :: u32) 0"
    unfolding p_def h_def by code_simp+
  have hx: "h (x XOR y) = h x XOR h y" for x y by (simp add: h_def drop_bit_xor)
  define b where "b k = (if bit crc k then p else 0)" for k
  have step: "crc_bit (drop_bit k crc XOR x) = drop_bit (Suc k) crc XOR (h x XOR b k)" if "\<not> bit x 0" for k x
    using that by (simp add: crc_bit_def drop_bit_xor bit_xor_iff bit_drop_bit_eq p_def h_def b_def ac_simps)
  define x1 where "x1 = b 0"
  define x2 where "x2 = h x1 XOR b 1"
  define x3 where "x3 = h x2 XOR b 2"
  have low: "\<not> bit x1 0" "\<not> bit x2 0" "\<not> bit x3 0"
    by (simp_all add: x3_def x2_def x1_def b_def c hx bit_xor_iff)
  have "(crc_bit ^^ 4) crc = crc_bit (crc_bit (crc_bit (crc_bit (drop_bit 0 crc XOR 0))))"
    by (simp add: numeral_eq_Suc)
  also have "crc_bit (drop_bit 0 crc XOR 0) = drop_bit 1 crc XOR x1" using step[of 0 0] by (simp add: c x1_def)
  also have "crc_bit (drop_bit 1 crc XOR x1) = drop_bit 2 crc XOR x2"
    using step[OF low(1), of 1] by (simp add: x2_def numeral_2_eq_2)
  also have "crc_bit (drop_bit 2 crc XOR x2) = drop_bit 3 crc XOR x3"
    using step[OF low(2), of 2] by (simp add: x3_def)
  also have "crc_bit (drop_bit 3 crc XOR x3) = drop_bit 4 crc XOR (h x3 XOR b 3)"
    using step[OF low(3), of 3] by simp
  also have "h x3 XOR b 3 =
      s_crc_nib ! (of_bool (bit crc 0) + 2 * of_bool (bit crc 1) + 4 * of_bool (bit crc 2) + 8 * of_bool (bit crc 3))"
    by (cases "bit crc 0"; cases "bit crc 1"; cases "bit crc 2"; cases "bit crc 3")
      (simp_all add: x3_def x2_def x1_def b_def c[unfolded p_def] hx s_crc_nib_def p_def)
  finally show ?thesis unfolding crc_nibble_def idx by simp
qed


lemma crc_byte_ref: "crc_byte crc b = crc_ref_byte crc b"
proof -
  have "(crc_bit ^^ 8) x = (crc_bit ^^ 4) ((crc_bit ^^ 4) x)" for x
    using funpow_add[of 4 4 crc_bit] by simp
  then show ?thesis by (simp add: crc_byte_def crc_ref_byte_def crc_nibble_bits)
qed

lemma crc_append: "skk_crc32 (skk_crc32 seed a) b = skk_crc32 seed (a @ b)"
  by (simp add: skk_crc32_def)

lemma alpha_bytes_encode: "alpha_bytes w = u8_encode (ucast w)"
proof -
  have "unat (ucast w :: u32) < 0x10000" using unsigned_less[of w, where ?'a = nat] by (simp add: unsigned_ucast_eq take_bit_nat_eq_self)
  then have "(ucast w :: u32) < 0x10000" by (simp add: word_less_nat_alt)
  then show ?thesis by (simp add: alpha_bytes_def u8_encode_def Let_def)
qed

lemma alphabet_crc_fold:
  "foldl (\<lambda>crc w. skk_crc32 crc (alpha_bytes w)) seed ws = skk_crc32 seed (concat (map alpha_bytes ws))"
proof (induction ws arbitrary: seed)
  case Nil
  then show ?case by (simp add: skk_crc32_def)
next
  case (Cons w ws)
  then show ?case by (simp add: crc_append)
qed

definition alphabet_crc_from :: "u32 \<Rightarrow> u16 list \<Rightarrow> u32" where
  "alphabet_crc_from = foldl (\<lambda>crc w. skk_crc32 crc (alpha_bytes w))"

lemma alphabet_crc_0: "alphabet_crc_from 0 (take 60 (drop 0 s_alpha_cp)) = 0xF7767482"
  by code_simp

lemma alphabet_crc_1: "alphabet_crc_from 0xF7767482 (take 45 (drop 60 s_alpha_cp)) = 0xA7F4B064"
  by code_simp

lemma alphabet_crc_2: "alphabet_crc_from 0xA7F4B064 (take 15 (drop 105 s_alpha_cp)) = 0x5866BAA"
  by code_simp

lemma alphabet_crc_3: "alphabet_crc_from 0x5866BAA (take 15 (drop 120 s_alpha_cp)) = 0xA795AFAF"
  by code_simp

lemma alphabet_crc_4: "alphabet_crc_from 0xA795AFAF (take 15 (drop 135 s_alpha_cp)) = 0xEDA392FE"
  by code_simp

lemma alphabet_crc_5: "alphabet_crc_from 0xEDA392FE (take 15 (drop 150 s_alpha_cp)) = 0x2565A43D"
  by code_simp

lemma alphabet_crc_6: "alphabet_crc_from 0x2565A43D (take 17 (drop 165 s_alpha_cp)) = 0xE4EF637F"
  by code_simp

lemma alphabet_crc_value: "skk_alphabet_crc32 = 0xE4EF637F"
proof -
  have s: "s_alpha_cp = take 60 (drop 0 s_alpha_cp) @ 
      take 45 (drop 60 s_alpha_cp) @ 
      take 15 (drop 105 s_alpha_cp) @ 
      take 15 (drop 120 s_alpha_cp) @ 
      take 15 (drop 135 s_alpha_cp) @ 
      take 15 (drop 150 s_alpha_cp) @ 
      take 17 (drop 165 s_alpha_cp)"
    by code_simp
  have "skk_alphabet_crc32 = alphabet_crc_from 0 (take 60 (drop 0 s_alpha_cp) @ 
      take 45 (drop 60 s_alpha_cp) @ 
      take 15 (drop 105 s_alpha_cp) @ 
      take 15 (drop 120 s_alpha_cp) @ 
      take 15 (drop 135 s_alpha_cp) @ 
      take 15 (drop 150 s_alpha_cp) @ 
      take 17 (drop 165 s_alpha_cp))"
    unfolding skk_alphabet_crc32_def alphabet_crc_from_def using s by metis
  also have "\<dots> = alphabet_crc_from 0x2565A43D (take 17 (drop 165 s_alpha_cp))"
    unfolding alphabet_crc_from_def foldl_append
    unfolding alphabet_crc_from_def[symmetric] alphabet_crc_0 alphabet_crc_1 alphabet_crc_2 alphabet_crc_3 alphabet_crc_4 alphabet_crc_5 ..
  finally show ?thesis unfolding alphabet_crc_6 .
qed

section \<open>Bisection\<close>

definition downward :: "(nat \<Rightarrow> bool) \<Rightarrow> nat \<Rightarrow> bool" where
  "downward below n \<longleftrightarrow> (\<forall>j < n. below j \<longrightarrow> (\<forall>i \<le> j. below i))"

lemma downwardD: "downward below n \<Longrightarrow> i \<le> j \<Longrightarrow> j < n \<Longrightarrow> below j \<Longrightarrow> below i"
  by (auto simp: downward_def)

lemma bisect_spec:
  assumes "lo \<le> hi" "downward below hi"
  shows "lo \<le> snd (bisect below lo hi) \<and> snd (bisect below lo hi) \<le> hi \<and>
    (\<forall>i. lo \<le> i \<longrightarrow> i < snd (bisect below lo hi) \<longrightarrow> below i) \<and>
    (\<forall>i. snd (bisect below lo hi) \<le> i \<longrightarrow> i < hi \<longrightarrow> \<not> below i)"
  using assms
proof (induction below lo hi rule: bisect.induct)
  case (1 below lo hi)
  show ?case
  proof (cases "lo < hi")
    case False
    then have "bisect below lo hi = (0, lo)" by (simp add: bisect.simps[of below lo hi])
    with False 1(3) show ?thesis by simp
  next
    case True
    let ?mid = "lo + (hi - lo) div 2"
    have mid: "lo \<le> ?mid" "?mid < hi" using True by auto
    show ?thesis
    proof (cases "below ?mid")
      case B: True
      have eq: "snd (bisect below lo hi) = snd (bisect below (?mid + 1) hi)"
        using True B by (simp add: bisect.simps[of below lo hi] Let_def)
      have "?mid + 1 \<le> hi" using mid by simp
      from 1(1)[OF True refl B this 1(4)] have I: "?mid + 1 \<le> snd (bisect below (?mid + 1) hi)"
          "snd (bisect below (?mid + 1) hi) \<le> hi"
          "\<And>i. ?mid + 1 \<le> i \<Longrightarrow> i < snd (bisect below (?mid + 1) hi) \<Longrightarrow> below i"
          "\<And>i. snd (bisect below (?mid + 1) hi) \<le> i \<Longrightarrow> i < hi \<Longrightarrow> \<not> below i" by blast+
      have "below i" if "i < snd (bisect below (?mid + 1) hi)" for i
      proof (cases "i \<le> ?mid")
        case True
        then show ?thesis using downwardD[OF 1(4) _ mid(2) B] by blast
      next
        case False
        then show ?thesis using I(3) that by simp
      qed
      then show ?thesis unfolding eq using I mid(1) by simp
    next
      case B: False
      have eq: "snd (bisect below lo hi) = snd (bisect below lo ?mid)"
        using True B by (simp add: bisect.simps[of below lo hi] Let_def)
      have down: "downward below ?mid" using 1(4) mid(2) unfolding downward_def by (meson less_trans)
      from 1(2)[OF True refl B mid(1) down] have I: "lo \<le> snd (bisect below lo ?mid)" "snd (bisect below lo ?mid) \<le> ?mid"
          "\<And>i. lo \<le> i \<Longrightarrow> i < snd (bisect below lo ?mid) \<Longrightarrow> below i"
          "\<And>i. snd (bisect below lo ?mid) \<le> i \<Longrightarrow> i < ?mid \<Longrightarrow> \<not> below i" by blast+
      have "\<not> below i" if "snd (bisect below lo ?mid) \<le> i" "i < hi" for i
      proof (cases "i < ?mid")
        case True
        then show ?thesis using I(4) that(1) by blast
      next
        case False
        then have "?mid \<le> i" by simp
        then show ?thesis using downwardD[OF 1(4) _ that(2)] B by blast
      qed
      then show ?thesis unfolding eq using I mid by auto
    qed
  qed
qed

lemma bisect_unique:
  assumes "downward below n" "k \<le> n"
    "\<And>i. i < k \<Longrightarrow> below i" "\<And>i. k \<le> i \<Longrightarrow> i < n \<Longrightarrow> \<not> below i"
  shows "snd (bisect below 0 n) = k"
proof -
  have S: "snd (bisect below 0 n) \<le> n" "\<And>i. i < snd (bisect below 0 n) \<Longrightarrow> below i"
    "\<And>i. snd (bisect below 0 n) \<le> i \<Longrightarrow> i < n \<Longrightarrow> \<not> below i"
    using bisect_spec[OF _ assms(1), of 0] by simp_all
  show ?thesis
    using S(2)[of k] S(3)[of "snd (bisect below 0 n)"] assms(3)[of "snd (bisect below 0 n)"] assms(4)[of k] S(1) assms(2)
    by (metis le_refl linorder_neqE_nat order_less_le_trans)
qed

section \<open>Codes\<close>

lemma alpha_sorted: "sorted_wrt (<) s_alpha_cp"
proof -
  have "successively (<) s_alpha_cp" by code_simp
  then show ?thesis by (simp add: successively_conv_sorted_wrt transp_def)
qed

lemma alpha_length: "length s_alpha_cp = SKK_ALPHA_N" by (simp add: s_alpha_cp_def SKK_ALPHA_N_def)

lemma alpha_mono: "i < j \<Longrightarrow> j < SKK_ALPHA_N \<Longrightarrow> s_alpha_cp ! i < s_alpha_cp ! j"
  using alpha_sorted alpha_length by (simp add: sorted_wrt_iff_nth_less)

lemma alpha_code:
  assumes "i < SKK_ALPHA_N"
  shows "skk_char_code (ucast (s_alpha_cp ! i)) = of_nat (i + 1)"
proof -
  let ?c = "s_alpha_cp ! i"
  have small: "\<not> (ucast ?c :: u32) > 0xFFFF"
    using unsigned_less[of ?c, where ?'a = nat] by (simp add: word_less_nat_alt unsigned_ucast_eq take_bit_nat_eq_self)
  have roundtrip: "(ucast (ucast ?c :: u32) :: u16) = ?c" by (rule bit_word_eqI) (simp add: bit_ucast_iff)
  have "snd (bisect (\<lambda>mid. s_alpha_cp ! mid < ?c) 0 SKK_ALPHA_N) = i"
  proof (rule bisect_unique)
    have "s_alpha_cp ! a < ?c" if "a \<le> b" "b < SKK_ALPHA_N" "s_alpha_cp ! b < ?c" for a b
      using that alpha_mono[of a b] by (cases "a = b") auto
    then show "downward (\<lambda>mid. s_alpha_cp ! mid < ?c) SKK_ALPHA_N" by (auto simp: downward_def)
  next
    fix k assume "i \<le> k" "k < SKK_ALPHA_N"
    then show "\<not> s_alpha_cp ! k < ?c" using alpha_mono[of i k] by (cases "i = k") auto
  qed (use assms alpha_mono in auto)
  then show ?thesis using assms by (simp add: skk_char_code_def small roundtrip)
qed

lemma not_alpha_code: "cp \<notin> ucast ` set s_alpha_cp \<Longrightarrow> skk_char_code cp = SKK_CODE_ESC"
proof -
  assume no: "cp \<notin> ucast ` set s_alpha_cp"
  show ?thesis
  proof (rule ccontr)
    assume "skk_char_code cp \<noteq> SKK_CODE_ESC"
    then obtain lo where lo: "lo < SKK_ALPHA_N" "s_alpha_cp ! lo = ucast cp" "\<not> cp > 0xFFFF"
      by (auto simp: skk_char_code_def Let_def split: if_splits)
    have "unat cp < 2 ^ 16" using lo(3) by (simp add: word_less_nat_alt not_less)
    have u: "unat (ucast cp :: u16) = unat cp"
      unfolding unsigned_ucast_eq by (rule take_bit_nat_eq_self) (use \<open>unat cp < 2 ^ 16\<close> in simp)
    have "unat (ucast (ucast cp :: u16) :: u32) = unat cp"
      unfolding unsigned_ucast_eq[of "ucast cp :: u16"] u
      by (rule take_bit_nat_eq_self) (use \<open>unat cp < 2 ^ 16\<close> in simp)
    then have "ucast (ucast cp :: u16) = cp" by (rule unsigned_word_eqI)
    then have "cp = ucast (s_alpha_cp ! lo)" using lo(2) by simp
    then show False using no lo(1) alpha_length by (auto simp: image_iff)
  qed
qed

section \<open>The comparator is a total order\<close>

text \<open>The lexicographic order on readings.\<close>

fun lex_less :: "bytes \<Rightarrow> bytes \<Rightarrow> bool" where
  "lex_less [] ys = (ys \<noteq> [])"
| "lex_less (x # xs) [] = False"
| "lex_less (x # xs) (y # ys) = (x < y \<or> (x = y \<and> lex_less xs ys))"

definition key_less :: "u64 \<Rightarrow> bytes \<Rightarrow> u64 \<Rightarrow> bytes \<Rightarrow> bool" where
  "key_less ka a kb b \<longleftrightarrow> ka < kb \<or> (ka = kb \<and> lex_less a b)"

lemma lex_less_irrefl: "\<not> lex_less a a" by (induction a) auto

lemma lex_less_trans: "lex_less a b \<Longrightarrow> lex_less b c \<Longrightarrow> lex_less a c"
  by (induction a c arbitrary: b rule: lex_less.induct; case_tac b) auto

lemma lex_less_total: "lex_less a b \<or> a = b \<or> lex_less b a"
  by (induction a b rule: lex_less.induct) auto

lemma memcmp_lex:
  "(let n = min (length a) (length b); r = memcmp (take n a) (take n b) in
     if n > 0 \<and> r \<noteq> 0 then (if r < 0 then -1 else 1) else if length a \<noteq> length b then (if length a < length b then -1 else 1) else 0) =
   (if lex_less a b then -1 else if a = b then 0 else (1 :: int))"
proof (induction a b rule: lex_less.induct)
  case (3 x xs y ys)
  have le: "memcmp a b \<in> {-1, 0, 1}" for a b by (induction a b rule: memcmp.induct) auto
  show ?case
  proof (cases "x = y")
    case True
    have n0: "memcmp (take 0 xs) (take 0 ys) = 0" by simp
    show ?thesis using 3 True n0 by (cases "min (length xs) (length ys) = 0") (auto simp: Let_def split: if_splits)
  next
    case False
    then show ?thesis by auto
  qed
qed (auto simp: Let_def)

lemma entry_cmp_spec:
  "skk_entry_cmp ka a kb b = (if key_less ka a kb b then -1 else if ka = kb \<and> a = b then 0 else 1)"
proof -
  have m: "(if length a < length b then length a else length b) = min (length a) (length b)" by simp
  show ?thesis
    unfolding skk_entry_cmp_def m key_less_def memcmp_lex by (auto simp: lex_less_irrefl)
qed


section \<open>The packed key orders readings as their bytes\<close>

definition code_nat :: "u32 \<Rightarrow> nat" where "code_nat c = unat (skk_char_code c)"

text \<open>The number whose base-256 digits, most significant first and padded with zeros, are \<open>ds\<close>.\<close>

fun dval :: "nat list \<Rightarrow> nat \<Rightarrow> nat" where
  "dval ds 0 = 0"
| "dval [] (Suc k) = 0"
| "dval (d # ds) (Suc k) = d * 256 ^ k + dval ds k"

lemma dval_less: "(\<And>d. d \<in> set ds \<Longrightarrow> d < 256) \<Longrightarrow> dval ds k < 256 ^ k"
proof (induction ds k rule: dval.induct)
  case (3 d ds k)
  then have "dval ds k < 256 ^ k" by simp
  moreover have "d + 1 \<le> 256" using 3(2)[of d] by simp
  ultimately have "d * 256 ^ k + dval ds k < (d + 1) * 256 ^ k" by simp
  also have "\<dots> \<le> 256 * 256 ^ k" using \<open>d + 1 \<le> 256\<close> by (rule mult_le_mono1)
  finally show ?case by simp
qed auto

lemma or_digit:
  fixes key :: u64
  assumes "256 ^ Suc k dvd unat key" "k < 8"
  shows "unat (key OR push_bit (8 * k) (ucast (c :: u8))) = unat key + unat c * 256 ^ k"
proof -
  obtain q where q: "unat key = 256 ^ Suc k * q" using assms(1) by (elim dvdE)
  have p: "256 ^ k = (2 :: nat) ^ (8 * k)" by (simp add: power_mult)
  have c: "unat c < 256" using unsigned_less[of c, where ?'a = nat] by simp
  have "unat (ucast c :: u64) = unat c" unfolding unsigned_ucast_eq by (rule take_bit_nat_eq_self) (use c in simp)
  moreover have "unat c * 2 ^ (8 * k) < 2 ^ 64"
  proof -
    have "unat c * 2 ^ (8 * k) < 2 ^ 8 * 2 ^ (8 * k)" using c by simp
    also have "\<dots> = 2 ^ (8 + 8 * k)" by (simp add: power_add)
    also have "\<dots> \<le> 2 ^ 64" by (rule power_increasing) (use assms(2) in auto)
    finally show ?thesis .
  qed
  ultimately have u: "unat (push_bit (8 * k) (ucast c :: u64)) = push_bit (8 * k) (unat c)"
    unfolding unsigned_push_bit_eq by (subst take_bit_nat_eq_self) (simp_all add: push_bit_eq_mult)
  have k: "unat key = push_bit (8 * k) (push_bit 8 q)" unfolding q by (simp add: push_bit_eq_mult p power_add mult_ac)
  have "unat (key OR push_bit (8 * k) (ucast c)) = push_bit (8 * k) (push_bit 8 q OR unat c)"
    unfolding unsigned_or_eq u k push_bit_or ..
  also have "push_bit 8 q OR unat c = q * 256 + unat c" using or_push_add[of "unat c" 8 q] c by simp
  finally show ?thesis unfolding q by (simp add: push_bit_eq_mult p power_add algebra_simps)
qed

lemma pack_loop_value:
  assumes "\<forall>c \<in> set cps. scalar c" "k \<le> 8" "256 ^ k dvd unat key"
  shows "unat (fst (pack_loop (pre @ utf8 cps) (length pre) k key esc)) = unat key + dval (map code_nat cps) k"
  using assms
proof (induction k arbitrary: pre cps key esc)
  case 0
  then show ?case by simp
next
  case (Suc k)
  show ?case
  proof (cases cps)
    case Nil
    then show ?thesis by simp
  next
    case (Cons c cs)
    have c: "scalar c" "\<forall>c \<in> set cs. scalar c" using Suc.prems(1) Cons by auto
    have k: "56 - 8 * (SKK_PACK_CHARS - Suc k) = 8 * k" "k < 8" using Suc.prems(2) by (simp_all add: SKK_PACK_CHARS_def)
    let ?key = "key OR push_bit (8 * k) (ucast (skk_char_code c))"
    have v: "unat ?key = unat key + unat (skk_char_code c) * 256 ^ k" using or_digit[OF Suc.prems(3) k(2)] .
    have "256 ^ k dvd unat key" using Suc.prems(3) by (metis dvd_trans le_imp_power_dvd lessI less_imp_le_nat)
    then have d: "256 ^ k dvd unat ?key" unfolding v by simp
    have adv: "length (u8_encode c) \<noteq> 0" using encode_nonempty by simp
    have "pack_loop (pre @ utf8 cps) (length pre) (Suc k) key esc =
        pack_loop ((pre @ u8_encode c) @ utf8 cs) (length (pre @ u8_encode c)) k ?key (esc \<or> skk_char_code c = SKK_CODE_ESC)"
      using step_decode[OF c(1), of pre "utf8 cs"] adv by (simp add: Cons Let_def k(1))
    then show ?thesis using Suc.IH[OF c(2) _ d, of "pre @ u8_encode c"] Suc.prems(2) v Cons by (simp add: code_nat_def)
  qed
qed

lemma pack_value: "\<forall>c \<in> set cps. scalar c \<Longrightarrow> unat (skk_pack (utf8 cps)) = dval (map code_nat cps) 8"
  using pack_loop_value[of cps 8 0 "[]" False] by (simp add: skk_pack_def skk_pack_esc_def SKK_PACK_CHARS_def)

text \<open>Scalars of the table.\<close>

definition alpha_char :: "u32 \<Rightarrow> bool" where "alpha_char c \<longleftrightarrow> c \<in> ucast ` set s_alpha_cp"

lemma ucast16_less: "(ucast (a :: u16) :: u32) < ucast b \<longleftrightarrow> a < b"
proof -
  have "unat (ucast x :: u32) = unat x" for x :: u16
    unfolding unsigned_ucast_eq by (rule take_bit_nat_eq_self) (use unsigned_less[of x, where ?'a = nat] in simp)
  then show ?thesis by (simp add: word_less_nat_alt)
qed

lemma alpha_index:
  assumes "alpha_char c"
  obtains i where "i < SKK_ALPHA_N" "c = ucast (s_alpha_cp ! i)" "code_nat c = i + 1"
proof -
  obtain i where i: "i < SKK_ALPHA_N" "c = ucast (s_alpha_cp ! i)"
    using assms alpha_length by (auto simp: alpha_char_def in_set_conv_nth)
  have *: "unat (of_nat n :: u8) = n" if "n < 256" for n using that by (simp add: unat_of_nat)
  have "unat (of_nat (i + 1) :: u8) = i + 1" by (rule *) (use i(1) in \<open>simp add: SKK_ALPHA_N_def\<close>)
  with that[OF i] alpha_code[OF i(1)] i(2) show thesis by (simp add: code_nat_def)
qed

lemma code_mono:
  assumes "alpha_char c" "alpha_char d"
  shows "code_nat c < code_nat d \<longleftrightarrow> c < d"
proof -
  obtain i where i: "i < SKK_ALPHA_N" "c = ucast (s_alpha_cp ! i)" "code_nat c = i + 1" by (rule alpha_index[OF assms(1)])
  obtain j where j: "j < SKK_ALPHA_N" "d = ucast (s_alpha_cp ! j)" "code_nat d = j + 1" by (rule alpha_index[OF assms(2)])
  have "s_alpha_cp ! i < s_alpha_cp ! j \<longleftrightarrow> i < j"
    using alpha_mono[of i j] alpha_mono[of j i] i(1) j(1) by (metis less_asym linorder_neqE_nat order_less_irrefl)
  then show ?thesis using i j ucast16_less by simp
qed

lemma code_range: "alpha_char c \<Longrightarrow> 1 \<le> code_nat c \<and> code_nat c < 256"
proof -
  assume "alpha_char c"
  then obtain i where "i < SKK_ALPHA_N" "code_nat c = i + 1" by (rule alpha_index) auto
  then show ?thesis by (simp add: SKK_ALPHA_N_def)
qed

lemma alpha_scalar: "alpha_char c \<Longrightarrow> scalar c"
proof -
  have "list_all (\<lambda>w. scalar (ucast w)) s_alpha_cp" by code_simp
  then show "alpha_char c \<Longrightarrow> scalar c" by (auto simp: alpha_char_def list_all_iff)
qed


text \<open>Order of digit strings, of character strings and of their UTF-8 bytes.\<close>

fun lex_cp :: "u32 list \<Rightarrow> u32 list \<Rightarrow> bool" where
  "lex_cp [] ys = (ys \<noteq> [])"
| "lex_cp (x # xs) [] = False"
| "lex_cp (x # xs) (y # ys) = (x < y \<or> (x = y \<and> lex_cp xs ys))"

lemma digit_less: "a < b \<Longrightarrow> x < p \<Longrightarrow> a * p + x < b * p + y" for a b p x y :: nat
proof -
  assume "a < b" "x < p"
  then have "a * p + x < (a + 1) * p" "(a + 1) * p \<le> b * p" by (simp, intro mult_le_mono1) simp
  then show ?thesis by linarith
qed

lemma digit_step:
  fixes a b p x y :: nat
  assumes "x < p" "y < p"
  shows "a * p + x < b * p + y \<longleftrightarrow> a < b \<or> (a = b \<and> x < y)"
  using digit_less[of a b x p y] digit_less[of b a y p x] assms by (cases a b rule: linorder_cases) auto

lemma lex_cp_irrefl: "\<not> lex_cp a a" by (induction a) auto
lemma lex_cp_total: "lex_cp a b \<or> a = b \<or> lex_cp b a" by (induction a b rule: lex_cp.induct) auto
lemma lex_cp_asym: "lex_cp a b \<Longrightarrow> \<not> lex_cp b a"
proof (induction a b rule: lex_cp.induct)
  case (1 ys)
  then show ?case by (cases ys) auto
qed auto

lemma dval_lex:
  assumes "\<forall>c \<in> set cs. alpha_char c" "\<forall>d \<in> set ds. alpha_char d"
  shows "dval (map code_nat cs) k < dval (map code_nat ds) k \<longleftrightarrow> lex_cp (take k cs) (take k ds)"
  using assms
proof (induction k arbitrary: cs ds)
  case 0
  then show ?case by simp
next
  case (Suc k)
  have lt: "dval (map code_nat xs) k < 256 ^ k" if "\<forall>c \<in> set xs. alpha_char c" for xs
    by (rule dval_less) (use that code_range in auto)
  show ?case
  proof (cases cs)
    case Nil
    show ?thesis
    proof (cases ds)
      case (Cons d ds')
      then have "1 \<le> code_nat d" using Suc.prems(2) code_range by simp
      then show ?thesis using Nil Cons by simp
    qed (simp add: Nil)
  next
    case (Cons c cs')
    note C = Cons
    show ?thesis
    proof (cases ds)
      case Nil
      then show ?thesis using C by simp
    next
      case (Cons d ds')
      have cd: "alpha_char c" "alpha_char d" "\<forall>c \<in> set cs'. alpha_char c" "\<forall>c \<in> set ds'. alpha_char c"
        using Suc.prems C Cons by auto
      have "code_nat c = code_nat d \<longleftrightarrow> c = d"
        using code_mono[OF cd(1,2)] code_mono[OF cd(2,1)] by (metis less_irrefl linorder_neqE)
      then show ?thesis
        using Suc.IH[OF cd(3,4)] code_mono[OF cd(1,2)] digit_step[OF lt[OF cd(3)] lt[OF cd(4)]] C Cons by auto
    qed
  qed
qed

lemma split64: "n < m \<Longrightarrow> n div 64 < m div 64 \<or> (n div 64 = m div 64 \<and> n mod 64 < m mod 64)" for n m :: nat
  using digit_step[of "n mod 64" 64 "m mod 64" "n div 64" "m div 64"] by simp

fun lexn :: "nat list \<Rightarrow> nat list \<Rightarrow> bool" where
  "lexn [] ys = (ys \<noteq> [])"
| "lexn (x # xs) [] = False"
| "lexn (x # xs) (y # ys) = (x < y \<or> (x = y \<and> lexn xs ys))"

lemma lex_less_nat: "lex_less a b \<longleftrightarrow> lexn (map unat a) (map unat b)"
  by (induction a b rule: lex_less.induct) (auto simp: word_less_nat_alt word_unat_eq_iff)

lemma encode_less:
  assumes "scalar c" "scalar d" "c < d"
  shows "lex_less (u8_encode c @ x) (u8_encode d @ y)"
proof -
  let ?n = "unat c"
  let ?m = "unat d"
  have nm: "?n < ?m" "?m < 0x200000" using assms by (simp_all add: word_less_nat_alt scalar_nat)
  have d2: "k div 4096 = k div 64 div 64" "k div 262144 = k div 64 div 64 div 64" for k :: nat by (simp_all add: div_mult2_eq[symmetric])
  note s1 = split64[OF nm(1)] and s2 = split64[of "?n div 64" "?m div 64"] and s3 = split64[of "?n div 64 div 64" "?m div 64 div 64"]
  have goal: "lexn (map unat (u8_encode c) @ map unat x) (map unat (u8_encode d) @ map unat y)"
  proof -
    consider "?m < 128" | "128 \<le> ?m" "?m < 2048" | "2048 \<le> ?m" "?m < 65536" | "65536 \<le> ?m" by linarith
    then show ?thesis
    proof cases
      case 1
      then show ?thesis using nm by (simp add: encode_nat Let_def)
    next
      case 2
      consider "?n < 128" | "128 \<le> ?n" by linarith
      then show ?thesis using 2 nm s1 by cases (auto simp: encode_nat Let_def)
    next
      case 3
      consider "?n < 128" | "128 \<le> ?n" "?n < 2048" | "2048 \<le> ?n" by linarith
      then show ?thesis
      proof cases
        case 2
        have "?n div 64 < 32" using 2 by (simp add: less_mult_imp_div_less)
        then show ?thesis using 2 3 by (simp add: encode_nat Let_def)
      next
        case 4: 3
        then have e: "map unat (u8_encode c) = [224 + ?n div 64 div 64, 128 + ?n div 64 mod 64, 128 + ?n mod 64]"
            "map unat (u8_encode d) = [224 + ?m div 64 div 64, 128 + ?m div 64 mod 64, 128 + ?m mod 64]"
          using 3 nm by (simp_all add: encode_nat Let_def d2)
        show ?thesis using s1 s2 unfolding e by auto
      qed (use 3 in \<open>simp add: encode_nat Let_def\<close>)
    next
      case 4
      consider "?n < 128" | "128 \<le> ?n" "?n < 2048" | "2048 \<le> ?n" "?n < 65536" | "65536 \<le> ?n" by linarith
      then show ?thesis
      proof cases
        case 2
        have "?n div 64 < 32" using 2 by (simp add: less_mult_imp_div_less)
        then show ?thesis using 2 4 nm by (simp add: encode_nat Let_def)
      next
        case 3
        have "?n div 4096 < 16" using 3 by (simp add: less_mult_imp_div_less)
        then show ?thesis using 3 4 nm by (simp add: encode_nat Let_def)
      next
        case 5: 4
        then have e: "map unat (u8_encode c) = [240 + ?n div 64 div 64 div 64, 128 + ?n div 64 div 64 mod 64, 128 + ?n div 64 mod 64, 128 + ?n mod 64]"
            "map unat (u8_encode d) = [240 + ?m div 64 div 64 div 64, 128 + ?m div 64 div 64 mod 64, 128 + ?m div 64 mod 64, 128 + ?m mod 64]"
          using 4 nm by (simp_all add: encode_nat Let_def d2)
        show ?thesis using s1 s2 s3 unfolding e by auto
      qed (use 4 nm in \<open>simp add: encode_nat Let_def\<close>)
    qed
  qed
  then show ?thesis by (simp add: lex_less_nat)
qed

lemma lex_less_append: "lex_less (p @ a) (p @ b) \<longleftrightarrow> lex_less a b"
  by (induction p) auto

lemma utf8_lex:
  assumes "\<forall>c \<in> set cs. scalar c" "\<forall>d \<in> set ds. scalar d"
  shows "lex_less (utf8 cs) (utf8 ds) \<longleftrightarrow> lex_cp cs ds"
  using assms
proof (induction cs ds rule: lex_cp.induct)
  case (1 ys)
  then show ?case using encode_nonempty by (cases ys) auto
next
  case (2 x xs)
  then show ?case using encode_nonempty[of x] by (cases "u8_encode x") auto
next
  case (3 x xs y ys)
  then have sc: "scalar x" "scalar y" by auto
  consider "x < y" | "x = y" | "y < x" by fastforce
  then show ?case
  proof cases
    case 1
    then show ?thesis using encode_less[OF sc] by simp
  next
    case 2
    then show ?thesis using 3 by (simp add: lex_less_append)
  next
    case 3
    then have "lex_less (utf8 (y # ys)) (utf8 (x # xs))" using encode_less[OF sc(2,1)] by simp
    then have "\<not> lex_less (utf8 (x # xs)) (utf8 (y # ys))" using lex_less_trans lex_less_irrefl by blast
    then show ?thesis using 3 by auto
  qed
qed


text \<open>Over the table, comparing keys and then bytes is comparing bytes.\<close>

lemma alpha_key_order:
  assumes "\<forall>c \<in> set cs. alpha_char c" "\<forall>d \<in> set ds. alpha_char d"
  shows "key_less (skk_pack (utf8 cs)) (utf8 cs) (skk_pack (utf8 ds)) (utf8 ds) \<longleftrightarrow> lex_less (utf8 cs) (utf8 ds)"
proof -
  have sc: "\<forall>c \<in> set cs. scalar c" "\<forall>d \<in> set ds. scalar d" using assms alpha_scalar by auto
  have L: "skk_pack (utf8 as) < skk_pack (utf8 bs) \<longleftrightarrow> lex_cp (take 8 as) (take 8 bs)"
    if "\<forall>c \<in> set as. alpha_char c" "\<forall>c \<in> set bs. alpha_char c" for as bs
  proof -
    have "\<forall>c \<in> set as. scalar c" "\<forall>c \<in> set bs. scalar c" using that alpha_scalar by auto
    then show ?thesis by (simp add: word_less_nat_alt pack_value dval_lex[OF that])
  qed
  have T: "lex_cp as bs" if "lex_cp (take k as) (take k bs)" for k as bs
    using that
  proof (induction k arbitrary: as bs)
    case (Suc k)
    then show ?case by (cases as; cases bs) auto
  qed simp
  show ?thesis
  proof (cases "skk_pack (utf8 cs) = skk_pack (utf8 ds)")
    case True
    then show ?thesis by (simp add: key_less_def)
  next
    case False
    then consider "skk_pack (utf8 cs) < skk_pack (utf8 ds)" | "skk_pack (utf8 ds) < skk_pack (utf8 cs)" by fastforce
    then show ?thesis
    proof cases
      case 1
      then have "lex_cp cs ds" using L[OF assms] T by blast
      then show ?thesis using 1 utf8_lex[OF sc] by (simp add: key_less_def)
    next
      case 2
      then have "lex_cp ds cs" using L[OF assms(2,1)] T by blast
      then have "\<not> lex_cp cs ds" by (rule lex_cp_asym)
      then show ?thesis using 2 utf8_lex[OF sc] by (auto simp: key_less_def)
    qed
  qed
qed

lemma key_less_trans: "key_less ka a kb b \<Longrightarrow> key_less kb b kc c \<Longrightarrow> key_less ka a kc c"
  using lex_less_trans[of a b c] by (auto simp: key_less_def)

lemma key_less_total: "key_less ka a kb b \<or> (ka = kb \<and> a = b) \<or> key_less kb b ka a"
  using lex_less_total[of a b] by (auto simp: key_less_def)

lemma key_less_irrefl: "\<not> key_less ka a ka a"
  by (simp add: key_less_def lex_less_irrefl)

section \<open>Properties\<close>

text \<open>The nibble-table checksum is the bit-by-bit CRC with the reflected polynomial
  0xEDB88320, it can be computed over a split buffer, and the stamp of the collation table is the
  checksum of the table read as one UTF-8 string, 0xE4EF637F as the source documents.\<close>

theorem skk_crc32_exact:
  "skk_crc32 seed data = NOT (foldl crc_ref_byte (NOT seed) data) \<and>
   skk_crc32 (skk_crc32 seed a) b = skk_crc32 seed (a @ b) \<and>
   skk_alphabet_crc32 = skk_crc32 0 (utf8 (map ucast s_alpha_cp)) \<and> skk_alphabet_crc32 = 0xE4EF637F"
proof -
  have "crc_byte = crc_ref_byte" by (intro ext) (rule crc_byte_ref)
  moreover have ab: "alpha_bytes = (\<lambda>w. u8_encode (ucast w))" by (intro ext) (rule alpha_bytes_encode)
  have "skk_alphabet_crc32 = skk_crc32 0 (utf8 (map ucast s_alpha_cp))"
    unfolding skk_alphabet_crc32_def alphabet_crc_fold unfolding utf8_def map_map o_def ab ..
  ultimately show ?thesis using alphabet_crc_value by (simp add: skk_crc32_def)
qed

text \<open>The code of a character is its rank in the collation table: codes of table
  characters are ordered as the characters are and never the terminator or the escape code, and every
  other character has the escape code.\<close>

theorem skk_char_code_rank:
  assumes "alpha_char c"
  shows "skk_char_code c \<noteq> SKK_CODE_END \<and> skk_char_code c < SKK_CODE_ESC \<and>
    (alpha_char d \<longrightarrow> (skk_char_code c < skk_char_code d \<longleftrightarrow> c < d)) \<and>
    (\<not> alpha_char d \<longrightarrow> skk_char_code d = SKK_CODE_ESC)"
proof -
  obtain i where i: "i < SKK_ALPHA_N" "code_nat c = i + 1" by (rule alpha_index[OF assms]) auto
  have "skk_char_code c \<noteq> SKK_CODE_END \<and> skk_char_code c < SKK_CODE_ESC"
    using i by (auto simp: code_nat_def word_less_nat_alt SKK_ALPHA_N_def SKK_CODE_END_def SKK_CODE_ESC_def)
  moreover have "skk_char_code c < skk_char_code d \<longleftrightarrow> c < d" if "alpha_char d"
    using code_mono[OF assms that] by (simp add: code_nat_def word_less_nat_alt)
  ultimately show ?thesis using not_alpha_code[of d] by (auto simp: alpha_char_def)
qed

lemma skk_char_code_rank_witness: "alpha_char 0x3042 \<and> skk_char_code 0x3042 < SKK_CODE_ESC"
proof -
  have "list_ex (\<lambda>w. ucast w = (0x3042 :: u32)) s_alpha_cp" by code_simp
  then have "alpha_char 0x3042" by (auto simp: alpha_char_def list_ex_iff image_iff)
  with skk_char_code_rank[OF this] show ?thesis by blast
qed

text \<open>The comparator is a strict total order on entries (packed key, then bytes): zero
  exactly on equal entries, antisymmetric and transitive.  On readings over the collation table it is the
  byte order of the UTF-8 text, so one comparison of packed keys agrees with memcmp.\<close>

theorem skk_entry_cmp_order:
  "(skk_entry_cmp ka a kb b = 0 \<longleftrightarrow> ka = kb \<and> a = b) \<and>
   skk_entry_cmp kb b ka a = - skk_entry_cmp ka a kb b \<and>
   (skk_entry_cmp ka a kb b < 0 \<longrightarrow> skk_entry_cmp kb b kc c < 0 \<longrightarrow> skk_entry_cmp ka a kc c < 0) \<and>
   ((\<forall>x \<in> set cs. alpha_char x) \<longrightarrow> (\<forall>x \<in> set ds. alpha_char x) \<longrightarrow>
     (skk_entry_cmp (skk_pack (utf8 cs)) (utf8 cs) (skk_pack (utf8 ds)) (utf8 ds) < 0 \<longleftrightarrow> lex_less (utf8 cs) (utf8 ds)))"
proof (intro conjI impI)
  show "skk_entry_cmp ka a kb b = 0 \<longleftrightarrow> ka = kb \<and> a = b"
    using key_less_irrefl by (auto simp: entry_cmp_spec)
  show "skk_entry_cmp kb b ka a = - skk_entry_cmp ka a kb b"
    using key_less_total[of ka a kb b] key_less_trans[of ka a kb b ka a] key_less_irrefl
    by (auto simp: entry_cmp_spec)
  show "skk_entry_cmp ka a kc c < 0" if "skk_entry_cmp ka a kb b < 0" "skk_entry_cmp kb b kc c < 0"
    using that key_less_trans[of ka a kb b kc c] by (auto simp: entry_cmp_spec split: if_splits)
  show "skk_entry_cmp (skk_pack (utf8 cs)) (utf8 cs) (skk_pack (utf8 ds)) (utf8 ds) < 0 \<longleftrightarrow> lex_less (utf8 cs) (utf8 ds)"
    if "\<forall>x \<in> set cs. alpha_char x" "\<forall>x \<in> set ds. alpha_char x"
    using alpha_key_order[OF that] by (auto simp: entry_cmp_spec)
qed

lemma skk_entry_cmp_order_witness:
  "skk_entry_cmp 1 [] 3 [] < 0 \<and> skk_entry_cmp (skk_pack (utf8 [])) (utf8 []) (skk_pack (utf8 [0x21])) (utf8 [0x21]) < 0"
proof -
  have "skk_entry_cmp 1 [] 2 [] < 0" "skk_entry_cmp 2 [] 3 [] < 0" by code_simp+
  then have 1: "skk_entry_cmp 1 [] 3 [] < 0"
    using skk_entry_cmp_order[where ka=1 and a="[]" and kb=2 and b="[]" and kc=3 and c="[]"] by blast
  have "list_ex (\<lambda>w. ucast w = (0x21 :: u32)) s_alpha_cp" by code_simp
  then have "\<forall>x \<in> set [0x21]. alpha_char x" by (auto simp: alpha_char_def list_ex_iff image_iff)
  moreover have "lex_less (utf8 []) (utf8 [0x21])" by code_simp
  ultimately have "skk_entry_cmp (skk_pack (utf8 [])) (utf8 []) (skk_pack (utf8 [0x21])) (utf8 [0x21]) < 0"
    using skk_entry_cmp_order[where cs="[]" and ds="[0x21]"] unfolding list.set by blast
  with 1 show ?thesis by blast
qed

end
