(* ===== verification/SkkDict.thy ===== *)
theory SkkDict
  imports SkkOrder
begin

text \<open>
  The dictionary image (components/skk_core/skk_dict.c from the entry-line parser on): splitting an
  entry line, walking its candidates, the sampled search tree, opening an image, lookup, completion,
  and the construction and verification of an index.

  A pointer into an image (or into a text under construction) is an offset into the list of its bytes.  The
  \<open>uint64\<close> and \<open>uint32\<close> arrays that the code reads in place out of the immutable image are lists of
  their elements, read when the image is opened; \<open>NULL\<close> is the empty list.  Counts and offsets are natural
  numbers: an opened image is shorter than \<open>2 ^ 32\<close> bytes, so no index computation wraps
  (\<open>open_counts\<close>).
\<close>

section \<open>Data\<close>

definition SKK_FANOUT :: nat where "SKK_FANOUT = 8"
definition SKK_FAN_LEVELS_MAX :: nat where "SKK_FAN_LEVELS_MAX = 12"
definition SKK_IMAGE_MAGIC :: u32 where "SKK_IMAGE_MAGIC = 0x314b4b53"
definition SKK_IMAGE_VERSION :: u16 where "SKK_IMAGE_VERSION = 2"
definition SKK_IMAGE_ALIGN :: nat where "SKK_IMAGE_ALIGN = 8"
definition SKK_IMAGE_HDR :: nat where "SKK_IMAGE_HDR = 64"

datatype skk_err =
    SKK_ERR_ARG | SKK_ERR_MAGIC | SKK_ERR_VERSION | SKK_ERR_ALIGN | SKK_ERR_TRUNCATED | SKK_ERR_CRC
  | SKK_ERR_ALPHABET | SKK_ERR_NOSPACE | SKK_ERR_FORMAT | SKK_ERR_NODICT

datatype skk_blk = SKK_BLK_NASI | SKK_BLK_ARI

record skk_image_hdr =
  h_magic :: u32
  h_version :: u16
  h_image_len :: u32
  h_payload_crc32 :: u32
  h_alphabet_crc32 :: u32
  h_text_off :: u32
  h_text_len :: u32
  h_nasi_count :: u32
  h_nasi_keys_off :: u32
  h_nasi_offs_off :: u32
  h_ari_count :: u32
  h_ari_keys_off :: u32
  h_ari_offs_off :: u32
  h_nasi_fan_off :: u32
  h_ari_fan_off :: u32

text \<open>\<open>ix_lvl\<close> is \<open>lvl[0..levels]\<close>, of which \<open>lvl_n\<close> are the lengths; level 0 is the keys.\<close>

record skk_index =
  ix_keys :: "u64 list"
  ix_offs :: "u32 list"
  ix_count :: nat
  ix_lvl :: "u64 list list"

record skk_dict =
  d_image :: bytes
  d_text :: nat
  d_text_len :: nat
  d_nasi :: skk_index
  d_ari :: skk_index

definition d_blk :: "skk_dict \<Rightarrow> skk_blk \<Rightarrow> skk_index" where
  "d_blk d blk = (case blk of SKK_BLK_NASI \<Rightarrow> d_nasi d | SKK_BLK_ARI \<Rightarrow> d_ari d)"

datatype skk_src = SKK_SRC_DICT | SKK_SRC_SCRATCH

record skk_cand =
  c_off :: u32
  c_len :: u16
  c_src :: skk_src

record skk_stats =
  st_keys :: u32
  st_consumed :: u32
  st_lookups :: u32
  st_probes :: u32
  st_fullcmp :: u32
  st_cands :: u32
  st_dropped :: u32
  st_commits :: u32

record skk_line =
  ln_reading :: nat
  ln_reading_len :: nat
  ln_body :: nat
  ln_body_len :: nat

section \<open>Entry lines and their candidates\<close>

definition slice :: "bytes \<Rightarrow> nat \<Rightarrow> nat \<Rightarrow> bytes" where
  "slice mem p n = take n (drop p mem)"

definition memchr :: "bytes \<Rightarrow> nat \<Rightarrow> u8 \<Rightarrow> nat \<Rightarrow> nat option" where
  "memchr mem p c n = find (\<lambda>i. mem ! i = c) [p..<p + n]"

definition line_split :: "bytes \<Rightarrow> nat \<Rightarrow> nat \<Rightarrow> skk_line option" where
  "line_split mem ls llen0 =
     (let llen = (if llen0 > 0 \<and> mem ! (ls + llen0 - 1) = 0x0D then llen0 - 1 else llen0) in
      if llen = 0 \<or> mem ! ls = 0x3B then None
      else case memchr mem ls 0x20 llen of
        None \<Rightarrow> None
      | Some sp \<Rightarrow>
          let rl = sp - ls in
          if rl > 0 then Some \<lparr>ln_reading = ls, ln_reading_len = rl, ln_body = sp + 1, ln_body_len = llen - rl - 1\<rparr>
          else None)"

text \<open>The line that starts at \<open>off\<close> in the text window \<open>[lo, hi)\<close>: \<open>line_at\<close> and \<open>reading_at\<close>.\<close>

definition line_in :: "bytes \<Rightarrow> nat \<Rightarrow> nat \<Rightarrow> u32 \<Rightarrow> skk_line option" where
  "line_in mem lo hi off =
     (let o' = unat off in
      if o' < lo \<or> o' \<ge> hi then None
      else line_split mem o' (case memchr mem o' 0x0A (hi - o') of Some nl \<Rightarrow> nl - o' | None \<Rightarrow> hi - o'))"

definition line_at :: "skk_dict \<Rightarrow> u32 \<Rightarrow> skk_line option" where
  "line_at d off = line_in (d_image d) (d_text d) (d_text d + d_text_len d) off"

definition line_reading :: "bytes \<Rightarrow> skk_line \<Rightarrow> bytes" where
  "line_reading mem ln = slice mem (ln_reading ln) (ln_reading_len ln)"

record cand_iter =
  it_p :: nat
  it_end :: nat
  it_group :: bool

definition cand_iter_init :: "skk_line \<Rightarrow> cand_iter" where
  "cand_iter_init ln = \<lparr>it_p = ln_body ln, it_end = ln_body ln + ln_body_len ln, it_group = False\<rparr>"

text \<open>The next token between slashes: its start, its length, and the iterator past it.\<close>

definition cand_token :: "bytes \<Rightarrow> cand_iter \<Rightarrow> nat \<times> nat \<times> cand_iter" where
  "cand_token mem it =
     (let tok = it_p it + 1;
          slash = memchr mem tok 0x2F (it_end it - tok) in
      (tok, (case slash of Some q \<Rightarrow> q - tok | None \<Rightarrow> it_end it - tok),
       it\<lparr>it_p := (case slash of Some q \<Rightarrow> q | None \<Rightarrow> it_end it)\<rparr>))"

lemma memchr_Some: "memchr mem p c n = Some q \<Longrightarrow> p \<le> q \<and> q < p + n \<and> mem ! q = c \<and> (\<forall>i. p \<le> i \<longrightarrow> i < q \<longrightarrow> mem ! i \<noteq> c)"
proof -
  assume "memchr mem p c n = Some q"
  then obtain k where k: "k < n" "q = p + k" "mem ! q = c" "\<forall>j < k. mem ! (p + j) \<noteq> c"
    by (auto simp: memchr_def find_Some_iff)
  have "mem ! i \<noteq> c" if "p \<le> i" "i < q" for i
    using k(4)[rule_format, of "i - p"] that k(2) by simp
  with k show ?thesis by simp
qed

lemma memchr_None: "memchr mem p c n = None \<Longrightarrow> p \<le> i \<Longrightarrow> i < p + n \<Longrightarrow> mem ! i \<noteq> c"
  by (auto simp: memchr_def find_None_iff)

lemma cand_token_props:
  assumes "cand_token mem it = (tok, tlen, it1)" "it_p it < it_end it"
  shows "tok = it_p it + 1 \<and> it_p it1 = tok + tlen \<and> it_p it1 \<le> it_end it \<and> it_end it1 = it_end it \<and> it_group it1 = it_group it \<and>
    (\<forall>i. tok \<le> i \<longrightarrow> i < tok + tlen \<longrightarrow> mem ! i \<noteq> 0x2F) \<and> (it_p it1 < it_end it \<longrightarrow> mem ! it_p it1 = 0x2F)"
proof (cases "memchr mem (it_p it + 1) 0x2F (it_end it - (it_p it + 1))")
  case None
  then show ?thesis using assms memchr_None[OF None] by (auto simp: cand_token_def)
next
  case (Some q)
  then show ?thesis using assms memchr_Some[OF Some] by (auto simp: cand_token_def)
qed

lemma cand_token_less:
  "\<not> (it_end it \<le> it_p it \<or> Q) \<Longrightarrow> (tok, y) = cand_token mem it \<Longrightarrow> (tlen, it1) = y \<Longrightarrow>
   it_end it - it_p it1 < it_end it - it_p it \<and> it_end it1 = it_end it"
  using cand_token_props[of mem it tok tlen it1] by auto

text \<open>
  \<open>cand_next\<close>: the next usable candidate (start and length) with the advanced iterator, the number of
  tokens skipped on the way counted in \<open>dropped\<close>.
\<close>

function cand_next :: "bytes \<Rightarrow> cand_iter \<Rightarrow> u32 \<Rightarrow> (nat \<times> nat) option \<times> cand_iter \<times> u32" where
  "cand_next mem it dropped =
     (if it_p it \<ge> it_end it \<or> mem ! it_p it \<noteq> 0x2F then (None, it, dropped)
      else case cand_token mem it of (tok, tlen, it1) \<Rightarrow>
        if tlen = 0 then cand_next mem it1 dropped
        else if it_group it then
          cand_next mem (if mem ! tok = 0x5D then it1\<lparr>it_group := False\<rparr> else it1) (dropped + 1)
        else if mem ! tok = 0x5B then cand_next mem (it1\<lparr>it_group := True\<rparr>) (dropped + 1)
        else if mem ! tok = 0x28 then cand_next mem it1 (dropped + 1)
        else
          let tlen2 = (case memchr mem tok 0x3B tlen of Some semi \<Rightarrow> semi - tok | None \<Rightarrow> tlen) in
          if tlen2 = 0 \<or> tlen2 > 0xFFFF then cand_next mem it1 (dropped + 1)
          else (Some (tok, tlen2), it1, dropped))"
  by pat_completeness auto
termination
proof (relation "measure (\<lambda>(mem, it, dropped). it_end it - it_p it)", goal_cases)
  case 1
  show ?case by simp
qed (frule (2) cand_token_less, simp)+

declare cand_next.simps [simp del]

section \<open>The sampled search tree\<close>

text \<open>The sizes of the levels above \<open>n\<close> keys, \<open>t\<close> levels being there already.\<close>

function fan_sizes :: "nat \<Rightarrow> nat \<Rightarrow> nat list" where
  "fan_sizes n t =
     (if n \<ge> SKK_FANOUT \<and> t + 1 < SKK_FAN_LEVELS_MAX then n div SKK_FANOUT # fan_sizes (n div SKK_FANOUT) (t + 1) else [])"
  by pat_completeness auto
termination by (relation "measure (\<lambda>(n, t). SKK_FAN_LEVELS_MAX - t)") auto

declare fan_sizes.simps [simp del]

definition skk_fan_levels :: "nat \<Rightarrow> nat list" where
  "skk_fan_levels cnt = cnt # fan_sizes cnt 0"

definition skk_fan_total :: "nat \<Rightarrow> nat" where
  "skk_fan_total cnt = sum_list (tl (skk_fan_levels cnt))"

text \<open>One sampled level: the last key of each complete group.\<close>

definition fan_sample :: "u64 list \<Rightarrow> nat \<Rightarrow> u64 list" where
  "fan_sample src n = map (\<lambda>j. src ! ((j + 1) * SKK_FANOUT - 1)) [0..<n]"

fun fan_build_levels :: "u64 list \<Rightarrow> nat list \<Rightarrow> u64 list list" where
  "fan_build_levels src [] = []"
| "fan_build_levels src (n # ns) = fan_sample src n # fan_build_levels (fan_sample src n) ns"

definition skk_fan_build :: "u64 list \<Rightarrow> nat \<Rightarrow> u64 list" where
  "skk_fan_build keys cnt = concat (fan_build_levels keys (tl (skk_fan_levels cnt)))"

section \<open>Opening an image\<close>

definition rd_u32 :: "bytes \<Rightarrow> nat \<Rightarrow> u32" where
  "rd_u32 b i = ucast (b ! i) OR push_bit 8 (ucast (b ! (i + 1))) OR push_bit 16 (ucast (b ! (i + 2))) OR
     push_bit 24 (ucast (b ! (i + 3)))"

definition rd_u16 :: "bytes \<Rightarrow> nat \<Rightarrow> u16" where
  "rd_u16 b i = ucast (b ! i) OR push_bit 8 (ucast (b ! (i + 1)))"

text \<open>The little-endian arrays read in place.\<close>

definition rd_u64 :: "bytes \<Rightarrow> nat \<Rightarrow> u64" where
  "rd_u64 b i = ucast (rd_u32 b i) OR push_bit 32 (ucast (rd_u32 b (i + 4)))"

definition rd_u64s :: "bytes \<Rightarrow> nat \<Rightarrow> nat \<Rightarrow> u64 list" where
  "rd_u64s b off n = map (\<lambda>i. rd_u64 b (off + 8 * i)) [0..<n]"

definition rd_u32s :: "bytes \<Rightarrow> nat \<Rightarrow> nat \<Rightarrow> u32 list" where
  "rd_u32s b off n = map (\<lambda>i. rd_u32 b (off + 4 * i)) [0..<n]"

definition sect_ok :: "u32 \<Rightarrow> nat \<Rightarrow> nat \<Rightarrow> nat \<Rightarrow> u32 \<Rightarrow> bool" where
  "sect_ok off cnt elem align image_len =
     (if unat off < SKK_IMAGE_HDR \<or> off > image_len \<or> unat off mod align \<noteq> 0 then False
      else if cnt = 0 then True
      else unat off + cnt * elem \<le> unat image_len)"

definition read_hdr :: "bytes \<Rightarrow> skk_image_hdr" where
  "read_hdr b = \<lparr>h_magic = rd_u32 b 0, h_version = rd_u16 b 4, h_image_len = rd_u32 b 8, h_payload_crc32 = rd_u32 b 12,
     h_alphabet_crc32 = rd_u32 b 16, h_text_off = rd_u32 b 20, h_text_len = rd_u32 b 24, h_nasi_count = rd_u32 b 28,
     h_nasi_keys_off = rd_u32 b 32, h_nasi_offs_off = rd_u32 b 36, h_ari_count = rd_u32 b 40, h_ari_keys_off = rd_u32 b 44,
     h_ari_offs_off = rd_u32 b 48, h_nasi_fan_off = rd_u32 b 52, h_ari_fan_off = rd_u32 b 56\<rparr>"

text \<open>\<open>fan_attach\<close>: the levels of a tree that starts at an offset, one after the other.\<close>

fun fan_levels_at :: "bytes \<Rightarrow> nat \<Rightarrow> nat list \<Rightarrow> u64 list list" where
  "fan_levels_at b off [] = []"
| "fan_levels_at b off (n # ns) = rd_u64s b off n # fan_levels_at b (off + 8 * n) ns"

definition fan_attach :: "bytes \<Rightarrow> u64 list \<Rightarrow> u32 list \<Rightarrow> nat \<Rightarrow> u32 \<Rightarrow> skk_index" where
  "fan_attach b keys offs cnt fan =
     \<lparr>ix_keys = keys, ix_offs = offs, ix_count = cnt,
      ix_lvl = keys # (if fan = 0 then [] else fan_levels_at b (unat fan) (tl (skk_fan_levels cnt)))\<rparr>"

definition open_blk :: "bytes \<Rightarrow> u32 \<Rightarrow> u32 \<Rightarrow> u32 \<Rightarrow> u32 \<Rightarrow> skk_index" where
  "open_blk b cnt keys_off offs_off fan_off =
     fan_attach b (rd_u64s b (unat keys_off) (unat cnt)) (rd_u32s b (unat offs_off) (unat cnt)) (unat cnt) fan_off"

definition sections_ok :: "skk_image_hdr \<Rightarrow> bool" where
  "sections_ok h \<longleftrightarrow>
     sect_ok (h_text_off h) (unat (h_text_len h)) 1 1 (h_image_len h) \<and>
     sect_ok (h_nasi_keys_off h) (unat (h_nasi_count h)) 8 8 (h_image_len h) \<and>
     sect_ok (h_nasi_offs_off h) (unat (h_nasi_count h)) 4 4 (h_image_len h) \<and>
     sect_ok (h_ari_keys_off h) (unat (h_ari_count h)) 8 8 (h_image_len h) \<and>
     sect_ok (h_ari_offs_off h) (unat (h_ari_count h)) 4 4 (h_image_len h)"

definition fans_ok :: "skk_image_hdr \<Rightarrow> bool" where
  "fans_ok h \<longleftrightarrow>
     \<not> (h_nasi_fan_off h \<noteq> 0 \<and> \<not> sect_ok (h_nasi_fan_off h) (skk_fan_total (unat (h_nasi_count h))) 8 8 (h_image_len h) \<or>
        h_ari_fan_off h \<noteq> 0 \<and> \<not> sect_ok (h_ari_fan_off h) (skk_fan_total (unat (h_ari_count h))) 8 8 (h_image_len h))"

definition skk_dict_open :: "nat \<Rightarrow> bytes \<Rightarrow> bool \<Rightarrow> skk_err + skk_dict" where
  "skk_dict_open base img verify =
     (if length img < SKK_IMAGE_HDR then Inl SKK_ERR_ARG
      else if base mod SKK_IMAGE_ALIGN \<noteq> 0 then Inl SKK_ERR_ALIGN
      else let h = read_hdr img in
        if h_magic h \<noteq> SKK_IMAGE_MAGIC then Inl SKK_ERR_MAGIC
        else if h_version h \<noteq> SKK_IMAGE_VERSION then Inl SKK_ERR_VERSION
        else if unat (h_image_len h) < SKK_IMAGE_HDR \<or> unat (h_image_len h) > length img then Inl SKK_ERR_TRUNCATED
        else if h_alphabet_crc32 h \<noteq> skk_alphabet_crc32 then Inl SKK_ERR_ALPHABET
        else if \<not> sections_ok h then Inl SKK_ERR_TRUNCATED
        else if h_text_len h = 0 \<and> (h_nasi_count h \<noteq> 0 \<or> h_ari_count h \<noteq> 0) then Inl SKK_ERR_TRUNCATED
        else if \<not> fans_ok h then Inl SKK_ERR_TRUNCATED
        else if verify \<and> skk_crc32 0 (slice img SKK_IMAGE_HDR (unat (h_image_len h) - SKK_IMAGE_HDR)) \<noteq> h_payload_crc32 h
        then Inl SKK_ERR_CRC
        else Inr \<lparr>d_image = take (unat (h_image_len h)) img, d_text = unat (h_text_off h), d_text_len = unat (h_text_len h),
               d_nasi = open_blk img (h_nasi_count h) (h_nasi_keys_off h) (h_nasi_offs_off h) (h_nasi_fan_off h),
               d_ari = open_blk img (h_ari_count h) (h_ari_keys_off h) (h_ari_offs_off h) (h_ari_fan_off h)\<rparr>)"

section \<open>Search\<close>

text \<open>The scan of one level: from \<open>lo\<close> to the first key that is not below, at most \<open>hi\<close>.\<close>

function scan_level :: "u64 list \<Rightarrow> u64 \<Rightarrow> nat \<Rightarrow> nat \<Rightarrow> nat" where
  "scan_level a key lo hi = (if lo < hi \<and> a ! lo < key then scan_level a key (lo + 1) hi else lo)"
  by pat_completeness auto
termination by (relation "measure (\<lambda>(a, key, lo, hi). hi - lo)") auto

declare scan_level.simps [simp del]

text \<open>The descent below the top level, one group of eight per level.\<close>

fun descend :: "u64 list list \<Rightarrow> u64 \<Rightarrow> nat \<Rightarrow> nat" where
  "descend [] key i = i"
| "descend (a # as) key i =
     (let lo = i * SKK_FANOUT;
          hi = (if lo + SKK_FANOUT > length a then length a else lo + SKK_FANOUT) in
      descend as key (scan_level a key lo hi))"

definition key_lower_bound :: "skk_index \<Rightarrow> u64 \<Rightarrow> nat \<times> nat" where
  "key_lower_bound ix key =
     (if length (ix_lvl ix) \<le> 1 then bisect (\<lambda>mid. ix_keys ix ! mid < key) 0 (ix_count ix)
      else case rev (ix_lvl ix) of
        [] \<Rightarrow> (0, 0)
      | apex # below \<Rightarrow> (length (ix_lvl ix), descend below key (scan_level apex key 0 (length apex))))"

text \<open>The run of entries with the same packed key.\<close>

function find_run :: "skk_dict \<Rightarrow> skk_index \<Rightarrow> u64 \<Rightarrow> bytes \<Rightarrow> nat \<Rightarrow> u32 \<Rightarrow> skk_line option \<times> u32" where
  "find_run d ix key reading i fullcmp =
     (if i < ix_count ix \<and> ix_keys ix ! i = key then
        case line_at d (ix_offs ix ! i) of
          None \<Rightarrow> find_run d ix key reading (i + 1) fullcmp
        | Some ln \<Rightarrow>
            let c = skk_entry_cmp key reading key (line_reading (d_image d) ln) in
            if c = 0 then (Some ln, fullcmp + 1)
            else if c < 0 then (None, fullcmp + 1)
            else find_run d ix key reading (i + 1) (fullcmp + 1)
      else (None, fullcmp))"
  by pat_completeness auto
termination by (relation "measure (\<lambda>(d, ix, key, reading, i, fc). ix_count ix - i)") auto

declare find_run.simps [simp del]

definition find_entry :: "skk_dict \<Rightarrow> skk_blk \<Rightarrow> bytes \<Rightarrow> skk_stats \<Rightarrow> skk_line option \<times> skk_stats" where
  "find_entry d blk reading st =
     (let ix = d_blk d blk in
      if ix_count ix = 0 then (None, st)
      else
        let key = skk_pack reading;
            b = key_lower_bound ix key;
            r = find_run d ix key reading (snd b) (st_fullcmp st) in
        (fst r, st\<lparr>st_probes := st_probes st + of_nat (fst b), st_fullcmp := snd r\<rparr>))"

text \<open>The forward walk of a completion.\<close>

function complete_walk :: "skk_dict \<Rightarrow> skk_index \<Rightarrow> u64 \<Rightarrow> bytes \<Rightarrow> nat \<Rightarrow> nat \<Rightarrow> nat \<Rightarrow> bool \<Rightarrow> bytes option" where
  "complete_walk d ix key prefix want i seen in_run =
     (if i < ix_count ix then
        case line_at d (ix_offs ix ! i) of
          None \<Rightarrow> complete_walk d ix key prefix want (i + 1) seen in_run
        | Some ln \<Rightarrow>
            let r = line_reading (d_image d) ln in
            if \<not> (ln_reading_len ln \<ge> length prefix \<and> take (length prefix) r = prefix) then
              (if in_run \<or> ix_keys ix ! i \<noteq> key then None
               else complete_walk d ix key prefix want (i + 1) seen in_run)
            else if ln_reading_len ln = length prefix then complete_walk d ix key prefix want (i + 1) seen True
            else if seen = want then Some r
            else complete_walk d ix key prefix want (i + 1) (seen + 1) True
      else None)"
  by pat_completeness auto
termination by (relation "measure (\<lambda>(d, ix, key, prefix, want, i, seen, in_run). ix_count ix - i)") auto

declare complete_walk.simps [simp del]

definition skk_complete :: "skk_dict \<Rightarrow> skk_blk \<Rightarrow> bytes \<Rightarrow> nat \<Rightarrow> u32 \<Rightarrow> (skk_err + bytes option) \<times> u32" where
  "skk_complete d blk prefix want probes =
     (if prefix = [] then (Inl SKK_ERR_ARG, probes)
      else let ix = d_blk d blk in
        if ix_count ix = 0 then (Inr None, probes)
        else
          let key = skk_pack prefix;
              b = key_lower_bound ix key in
          (Inr (complete_walk d ix key prefix want (snd b) 0 False), probes + of_nat (fst b)))"

text \<open>What a candidate is: a token of the body, without its annotation.\<close>

definition cand_ok :: "bytes \<Rightarrow> nat \<Rightarrow> nat \<Rightarrow> bool" where
  "cand_ok mem p n \<longleftrightarrow> 1 \<le> n \<and> n \<le> 0xFFFF \<and> mem ! (p - 1) = 0x2F \<and> mem ! p \<noteq> 0x5B \<and> mem ! p \<noteq> 0x28 \<and>
     (\<forall>i. p \<le> i \<longrightarrow> i < p + n \<longrightarrow> mem ! i \<noteq> 0x2F \<and> mem ! i \<noteq> 0x3B)"

lemma cand_next_spec:
  "cand_next mem it dr = (Some (p, n), it', dr') \<Longrightarrow>
   it_p it < p \<and> p + n \<le> it_p it' \<and> it_p it' \<le> it_end it \<and> it_end it' = it_end it \<and> cand_ok mem p n"
proof (induction mem it dr rule: cand_next.induct)
  case (1 mem it dr)
  obtain tok tlen it1 where t: "cand_token mem it = (tok, tlen, it1)" by (metis prod_cases3)
  show ?case
  proof (cases "it_end it \<le> it_p it \<or> mem ! it_p it \<noteq> 0x2F")
    case True
    then show ?thesis using 1(6) by (simp add: cand_next.simps[of mem it dr])
  next
    case False
    note T = cand_token_props[OF t]
    have L: "tok = it_p it + 1" "it_p it1 = tok + tlen" "it_p it1 \<le> it_end it" "it_end it1 = it_end it" "it_p it < it_p it1"
        "\<And>i. tok \<le> i \<Longrightarrow> i < tok + tlen \<Longrightarrow> mem ! i \<noteq> 0x2F" "mem ! (tok - 1) = 0x2F"
      using T False by auto
    note prem = 1(6)
    note IH = 1(1-5)[OF False t[symmetric] refl]
    have step: "cand_next mem it dr =
      (if tlen = 0 then cand_next mem it1 dr
       else if it_group it then cand_next mem (if mem ! tok = 0x5D then it1\<lparr>it_group := False\<rparr> else it1) (dr + 1)
       else if mem ! tok = 0x5B then cand_next mem (it1\<lparr>it_group := True\<rparr>) (dr + 1)
       else if mem ! tok = 0x28 then cand_next mem it1 (dr + 1)
       else let tlen2 = (case memchr mem tok 0x3B tlen of Some semi \<Rightarrow> semi - tok | None \<Rightarrow> tlen) in
          if tlen2 = 0 \<or> tlen2 > 0xFFFF then cand_next mem it1 (dr + 1) else (Some (tok, tlen2), it1, dr))"
      using False t by (subst cand_next.simps) simp
    consider "tlen = 0" | "tlen \<noteq> 0" "it_group it" | "tlen \<noteq> 0" "\<not> it_group it" "mem ! tok = 0x5B"
      | "tlen \<noteq> 0" "\<not> it_group it" "mem ! tok \<noteq> 0x5B" "mem ! tok = 0x28"
      | "tlen \<noteq> 0" "\<not> it_group it" "mem ! tok \<noteq> 0x5B" "mem ! tok \<noteq> 0x28" by blast
    then show ?thesis
    proof cases
      case 1
      with prem step have "cand_next mem it1 dr = (Some (p, n), it', dr')" by simp
      from IH(1)[OF 1 this] L show ?thesis by simp
    next
      case 2
      with prem step have "cand_next mem (if mem ! tok = 0x5D then it1\<lparr>it_group := False\<rparr> else it1) (dr + 1) = (Some (p, n), it', dr')" by simp
      from IH(2)[OF 2 this] L show ?thesis by (simp split: if_splits)
    next
      case 3
      with prem step have "cand_next mem (it1\<lparr>it_group := True\<rparr>) (dr + 1) = (Some (p, n), it', dr')" by simp
      from IH(3)[OF 3 this] L show ?thesis by simp
    next
      case 4
      with prem step have "cand_next mem it1 (dr + 1) = (Some (p, n), it', dr')" by simp
      from IH(4)[OF 4 this] L show ?thesis by simp
    next
      case 5
      let ?t2 = "case memchr mem tok 0x3B tlen of Some semi \<Rightarrow> semi - tok | None \<Rightarrow> tlen"
      show ?thesis
      proof (cases "?t2 = 0 \<or> ?t2 > 0xFFFF")
        case True
        with prem step 5 have "cand_next mem it1 (dr + 1) = (Some (p, n), it', dr')" by (simp add: Let_def)
        from IH(5)[OF 5 refl True this] L show ?thesis by simp
      next
        case False
        have eq: "cand_next mem it dr = (Some (tok, ?t2), it1, dr)"
          unfolding step Let_def if_not_P[OF False] using 5 by simp
        have pn: "p = tok" "n = ?t2" "it' = it1" using prem unfolding eq by auto
        have t2: "?t2 \<le> tlen" "\<And>i. tok \<le> i \<Longrightarrow> i < tok + ?t2 \<Longrightarrow> mem ! i \<noteq> 0x3B"
          using memchr_Some[of mem tok "0x3B" tlen] memchr_None[of mem tok "0x3B" tlen] by (auto split: option.splits)
        show ?thesis unfolding pn cand_ok_def using L False 5 t2 by auto
      qed
    qed
  qed
qed

lemma lookup_less:
  "(r, y) = cand_next mem it dr \<Longrightarrow> (it', dr') = y \<Longrightarrow> r = Some c \<Longrightarrow> (tx, tlen) = c \<Longrightarrow>
   it_end it - it_p it' < it_end it - it_p it \<and> it_end it' = it_end it"
  using cand_next_spec[of mem it dr tx tlen it' dr'] by auto

text \<open>The loop over the candidates of the entry; past \<open>cap\<close> they are counted as dropped.\<close>

function lookup_loop :: "bytes \<Rightarrow> cand_iter \<Rightarrow> nat \<Rightarrow> skk_cand list \<Rightarrow> skk_stats \<Rightarrow> skk_cand list \<times> skk_stats" where
  "lookup_loop mem it cap out st =
     (case cand_next mem it (st_dropped st) of (r, it', dr) \<Rightarrow>
        (case r of
           None \<Rightarrow> (out, st\<lparr>st_dropped := dr\<rparr>)
         | Some (tx, tlen) \<Rightarrow>
             if length out \<ge> cap then lookup_loop mem it' cap out (st\<lparr>st_dropped := dr + 1\<rparr>)
             else lookup_loop mem it' cap (out @ [\<lparr>c_off = of_nat tx, c_len = of_nat tlen, c_src = SKK_SRC_DICT\<rparr>])
                    (st\<lparr>st_dropped := dr, st_cands := st_cands st + 1\<rparr>)))"
  by pat_completeness auto

termination
proof (relation "measure (\<lambda>(mem, it, cap, out, st). it_end it - it_p it)", goal_cases)
  case 1
  show ?case by simp
qed (frule (3) lookup_less, simp)+

declare lookup_loop.simps [simp del]

definition skk_lookup_stats :: "skk_dict \<Rightarrow> skk_blk \<Rightarrow> bytes \<Rightarrow> nat \<Rightarrow> skk_stats \<Rightarrow> skk_cand list \<times> skk_stats" where
  "skk_lookup_stats d blk reading cap st0 =
     (let st = st0\<lparr>st_lookups := st_lookups st0 + 1\<rparr> in
      if reading = [] then ([], st)
      else case find_entry d blk reading st of
        (None, st1) \<Rightarrow> ([], st1)
      | (Some ln, st1) \<Rightarrow> lookup_loop (d_image d) (cand_iter_init ln) cap [] st1)"

definition skk_cand_text :: "skk_dict \<Rightarrow> skk_cand \<Rightarrow> bytes option" where
  "skk_cand_text d c =
     (if c_src c \<noteq> SKK_SRC_DICT then None
      else if unat (c_off c) + unat (c_len c) > length (d_image d) then None
      else Some (slice (d_image d) (unat (c_off c)) (unat (c_len c))))"

section \<open>Index construction and verification\<close>

text \<open>The lines of a text: position and length without the newline.\<close>

function text_lines :: "bytes \<Rightarrow> nat \<Rightarrow> (nat \<times> nat) list" where
  "text_lines text i =
     (if i < length text then
        case memchr text i 0x0A (length text - i) of
          Some nl \<Rightarrow> (i, nl - i) # text_lines text (i + (nl - i) + 1)
        | None \<Rightarrow> [(i, length text - i)]
      else [])"
  by pat_completeness auto
termination by (relation "measure (\<lambda>(text, i). length text - i)") (auto dest: memchr_Some)

declare text_lines.simps [simp del]

fun build_loop :: "bytes \<Rightarrow> (nat \<times> nat) list \<Rightarrow> nat \<Rightarrow> (u64 \<times> u32) list \<Rightarrow> nat \<Rightarrow> (u64 \<times> u32) list \<times> nat" where
  "build_loop text [] cap out n = (out, n)"
| "build_loop text ((i, llen) # ls) cap out n =
     (case line_split text i llen of
        None \<Rightarrow> build_loop text ls cap out n
      | Some ln \<Rightarrow>
          build_loop text ls cap (if n < cap then out @ [(skk_pack (line_reading text ln), of_nat i)] else out) (n + 1))"

definition skk_index_build :: "bytes \<Rightarrow> nat \<Rightarrow> (u64 \<times> u32) list \<times> nat \<times> skk_err option" where
  "skk_index_build text cap =
     (let r = build_loop text (text_lines text 0) cap [] 0 in
      (fst r, snd r, if snd r > cap then Some SKK_ERR_NOSPACE else None))"

text \<open>
  \<open>index_check\<close>: the position of the first entry whose line does not parse, whose key is not the packed
  reading, or that is less than its predecessor; \<open>None\<close> is success.
\<close>

fun index_check :: "bytes \<Rightarrow> nat \<Rightarrow> nat \<Rightarrow> (u64 \<times> u32) list \<Rightarrow> nat \<Rightarrow> (u64 \<times> bytes) option \<Rightarrow> nat option" where
  "index_check mem lo hi [] i prev = None"
| "index_check mem lo hi ((key, off) # es) i prev =
     (case line_in mem lo hi off of
        None \<Rightarrow> Some i
      | Some ln \<Rightarrow>
          let rd = line_reading mem ln in
          if key \<noteq> skk_pack rd then Some i
          else if (case prev of None \<Rightarrow> False | Some (pk, pr) \<Rightarrow> skk_entry_cmp pk pr key rd > 0) then Some i
          else index_check mem lo hi es (i + 1) (Some (key, rd)))"

fun fan_check :: "u64 list \<Rightarrow> u64 list list \<Rightarrow> nat \<Rightarrow> nat option" where
  "fan_check dn [] seen = None"
| "fan_check dn (up # ups) seen =
     (case find (\<lambda>j. up ! j \<noteq> dn ! ((j + 1) * SKK_FANOUT - 1)) [0..<length up] of
        Some j \<Rightarrow> Some (seen + j)
      | None \<Rightarrow> fan_check up ups (seen + length up))"

definition skk_index_verify :: "skk_dict \<Rightarrow> skk_blk \<Rightarrow> nat option" where
  "skk_index_verify d blk =
     (let ix = d_blk d blk in
      if ix_count ix = 0 then None
      else case index_check (d_image d) (d_text d) (d_text d + d_text_len d) (zip (ix_keys ix) (ix_offs ix)) 0 None of
        Some i \<Rightarrow> Some i
      | None \<Rightarrow> fan_check (hd (ix_lvl ix)) (tl (ix_lvl ix)) (ix_count ix))"

definition skk_index_check :: "bytes \<Rightarrow> (u64 \<times> u32) list \<Rightarrow> nat option" where
  "skk_index_check text entries = (if entries = [] then None else index_check text 0 (length text) entries 0 None)"

definition k_ari :: bytes where "k_ari = ascii '';; okuri-ari entries.''"
definition k_nasi :: bytes where "k_nasi = ascii '';; okuri-nasi entries.''"

text \<open>The marker walk: marker and start of each block once seen.\<close>

fun split_loop :: "bytes \<Rightarrow> (nat \<times> nat) list \<Rightarrow> (nat \<times> nat) option \<Rightarrow> (nat \<times> nat) option \<Rightarrow>
    (nat \<times> nat) option \<times> (nat \<times> nat) option" where
  "split_loop text [] ari nasi = (ari, nasi)"
| "split_loop text ((i, llen) # ls) ari nasi =
     (let nxt = i + llen + (if i + llen < length text then 1 else 0);
          a = (if ari = None \<and> llen \<ge> length k_ari \<and> slice text i (length k_ari) = k_ari then Some (i, nxt) else ari);
          n = (if a = ari \<and> nasi = None \<and> llen \<ge> length k_nasi \<and> slice text i (length k_nasi) = k_nasi then Some (i, nxt) else nasi) in
      if a \<noteq> None \<and> n \<noteq> None then (a, n) else split_loop text ls a n)"

definition skk_text_split :: "bytes \<Rightarrow> skk_err + (nat \<times> nat) \<times> (nat \<times> nat)" where
  "skk_text_split text =
     (case split_loop text (text_lines text 0) None None of
        (Some (am, as), Some (nm, ns)) \<Rightarrow>
          Inr ((as, if nm > am then nm - as else length text - as), (ns, if am > nm then am - ns else length text - ns))
      | _ \<Rightarrow> Inl SKK_ERR_FORMAT)"

section \<open>The tree finds the lower bound\<close>

definition is_lb :: "u64 list \<Rightarrow> u64 \<Rightarrow> nat \<Rightarrow> bool" where
  "is_lb a key k \<longleftrightarrow> k \<le> length a \<and> (\<forall>i < k. a ! i < key) \<and> (\<forall>i. k \<le> i \<longrightarrow> i < length a \<longrightarrow> key \<le> a ! i)"

lemma is_lb_unique: "is_lb a key j \<Longrightarrow> is_lb a key k \<Longrightarrow> j = k"
  unfolding is_lb_def by (metis le_refl linorder_neqE_nat not_le order_less_le_trans)

lemma scan_level_spec:
  "lo \<le> hi \<Longrightarrow> lo \<le> scan_level a key lo hi \<and> scan_level a key lo hi \<le> hi \<and>
   (\<forall>x. lo \<le> x \<longrightarrow> x < scan_level a key lo hi \<longrightarrow> a ! x < key) \<and>
   (scan_level a key lo hi < hi \<longrightarrow> \<not> a ! scan_level a key lo hi < key)"
proof (induction a key lo hi rule: scan_level.induct)
  case (1 a key lo hi)
  show ?case
  proof (cases "lo < hi \<and> a ! lo < key")
    case True
    then have eq: "scan_level a key lo hi = scan_level a key (lo + 1) hi" by (simp add: scan_level.simps[of a key lo hi])
    have "lo + 1 \<le> hi" using True by simp
    note I = 1(1)[OF True this]
    have "a ! x < key" if "lo \<le> x" "x < scan_level a key (lo + 1) hi" for x
      using I True that by (cases "x = lo") auto
    then show ?thesis unfolding eq using I by auto
  next
    case False
    then have "scan_level a key lo hi = lo" unfolding scan_level.simps[of a key lo hi] by (rule if_not_P)
    then show ?thesis using False 1(2) by auto
  qed
qed

text \<open>A level samples the one below it.\<close>

definition samples :: "u64 list \<Rightarrow> u64 list \<Rightarrow> bool" where
  "samples up a \<longleftrightarrow> length up = length a div SKK_FANOUT \<and> (\<forall>j < length up. up ! j = a ! ((j + 1) * SKK_FANOUT - 1))"

lemma descend_step:
  assumes srt: "sorted a" and smp: "samples up a" and lb: "is_lb up key i"
  shows "is_lb a key (scan_level a key (i * SKK_FANOUT)
    (if i * SKK_FANOUT + SKK_FANOUT > length a then length a else i * SKK_FANOUT + SKK_FANOUT))"
proof -
  let ?lo = "i * SKK_FANOUT"
  let ?hi = "if ?lo + SKK_FANOUT > length a then length a else ?lo + SKK_FANOUT"
  have F: "SKK_FANOUT = 8" by (simp add: SKK_FANOUT_def)
  have len: "length up = length a div 8" "i \<le> length up" using smp lb by (simp_all add: samples_def F is_lb_def)
  have lo_le: "?lo \<le> length a" using len by (simp add: F)
  then have "?lo \<le> ?hi" by simp
  note S = scan_level_spec[OF this, of a key]
  let ?r = "scan_level a key ?lo ?hi"
  have below: "a ! x < key" if "x < ?r" for x
  proof (cases "?lo \<le> x")
    case True
    then show ?thesis using S that by blast
  next
    case False
    then have i: "0 < i" "x \<le> (i - 1) * 8 + 7" by (auto simp: F)
    have j: "i - 1 < length up" using i len by simp
    have "up ! (i - 1) = a ! ((i - 1) * 8 + 7)" using smp j i by (simp add: samples_def F algebra_simps)
    moreover have "up ! (i - 1) < key" using lb i by (simp add: is_lb_def)
    moreover have "(i - 1) * 8 + 7 < length a" using j len by linarith
    ultimately show ?thesis using sorted_nth_mono[OF srt i(2)] by simp
  qed
  have above: "key \<le> a ! x" if "?r \<le> x" "x < length a" for x
  proof (cases "?r < ?hi")
    case True
    then have "key \<le> a ! ?r" using S by (simp add: not_less)
    then show ?thesis using sorted_nth_mono[OF srt that] by simp
  next
    case False
    then have r: "?r = ?hi" using S by simp
    show ?thesis
    proof (cases "i < length up")
      case True
      then have fit: "?lo + 8 \<le> length a" using len unfolding F by linarith
      then have hi: "?hi = ?lo + 8" by (simp add: F)
      have "up ! i = a ! (?lo + 7)" using smp True by (simp add: samples_def F algebra_simps)
      moreover have "key \<le> up ! i" using lb True by (simp add: is_lb_def)
      ultimately have k: "key \<le> a ! (?lo + 7)" by simp
      have "?lo + 7 \<le> x" using that(1) r hi by simp
      then show ?thesis using sorted_nth_mono[OF srt _ that(2)] k by (meson order_trans)
    next
      case False
      then have "i = length a div 8" using len by simp
      then have "length a < ?lo + SKK_FANOUT" by (simp add: F)
      then show ?thesis using r that by simp
    qed
  qed
  have "?r \<le> length a" using S by (auto split: if_splits)
  then show ?thesis using below above by (simp add: is_lb_def)
qed

text \<open>Consecutive levels, lowest first.\<close>

fun sampled :: "u64 list list \<Rightarrow> bool" where
  "sampled (a # up # ups) = (samples up a \<and> sampled (up # ups))"
| "sampled _ = True"

lemma samples_sorted: "sorted a \<Longrightarrow> samples up a \<Longrightarrow> sorted up"
proof -
  assume a: "sorted a" "samples up a"
  have "up ! i \<le> up ! j" if "i \<le> j" "j < length up" for i j
  proof -
    have "(j + 1) * 8 \<le> length a" using that a(2) by (simp add: samples_def SKK_FANOUT_def)
    then have "a ! ((i + 1) * 8 - 1) \<le> a ! ((j + 1) * 8 - 1)" using that by (intro sorted_nth_mono[OF a(1)]) auto
    then show ?thesis using a(2) that by (simp add: samples_def SKK_FANOUT_def)
  qed
  then show "sorted up" by (simp add: sorted_iff_nth_mono)
qed

lemma descend_append: "descend (xs @ ys) key i = descend ys key (descend xs key i)"
  by (induction xs arbitrary: i) (simp_all add: Let_def)

lemma descend_lb:
  "sampled (a # ups) \<Longrightarrow> sorted a \<Longrightarrow> ups \<noteq> [] \<Longrightarrow>
   is_lb a key (descend (tl (rev (a # ups))) key (scan_level (hd (rev (a # ups))) key 0 (length (hd (rev (a # ups))))))"
proof (induction ups arbitrary: a)
  case Nil
  then show ?case by simp
next
  case (Cons up ups)
  then have smp: "samples up a" "sampled (up # ups)" by auto
  have srt: "sorted up" using samples_sorted[OF Cons.prems(2) smp(1)] .
  let ?i = "descend (tl (rev (up # ups))) key (scan_level (hd (rev (up # ups))) key 0 (length (hd (rev (up # ups)))))"
  have lb: "is_lb up key ?i"
  proof (cases "ups = []")
    case True
    have r: "scan_level up key 0 (length up) \<le> length up" and b: "\<And>x. x < scan_level up key 0 (length up) \<Longrightarrow> up ! x < key"
      and n: "scan_level up key 0 (length up) < length up \<Longrightarrow> \<not> up ! scan_level up key 0 (length up) < key"
      using scan_level_spec[of 0 "length up" up key] by auto
    have "key \<le> up ! x" if "scan_level up key 0 (length up) \<le> x" "x < length up" for x
      using n sorted_nth_mono[OF srt that] that by (simp add: not_less)
    then show ?thesis using True r b by (simp add: is_lb_def)
  next
    case False
    then show ?thesis using Cons.IH[OF smp(2) srt] by simp
  qed
  have t: "tl (rev (a # up # ups)) = tl (rev (up # ups)) @ [a]" "hd (rev (a # up # ups)) = hd (rev (up # ups))"
    by (simp_all add: tl_append hd_append split: list.split)
  show ?case unfolding t descend_append descend.simps Let_def by (rule descend_step[OF Cons.prems(2) smp(1) lb])
qed

definition ix_shape :: "skk_index \<Rightarrow> bool" where
  "ix_shape ix \<longleftrightarrow> length (ix_keys ix) = ix_count ix \<and> length (ix_offs ix) = ix_count ix \<and> ix_lvl ix \<noteq> [] \<and> hd (ix_lvl ix) = ix_keys ix \<and>
     (tl (ix_lvl ix) \<noteq> [] \<longrightarrow> map length (tl (ix_lvl ix)) = fan_sizes (ix_count ix) 0)"

lemma lower_bound_exact:
  assumes "ix_shape ix" "sorted (ix_keys ix)" "sampled (ix_lvl ix)"
  shows "is_lb (ix_keys ix) key (snd (key_lower_bound ix key))"
proof (cases "length (ix_lvl ix) \<le> 1")
  case True
  let ?b = "\<lambda>mid. ix_keys ix ! mid < key"
  have n: "length (ix_keys ix) = ix_count ix" using assms(1) by (simp add: ix_shape_def)
  have "downward ?b (ix_count ix)"
    unfolding downward_def n[symmetric] by (meson sorted_nth_mono[OF assms(2)] le_less_trans)
  from bisect_spec[OF _ this, of 0] True assms(1) show ?thesis
    by (auto simp: key_lower_bound_def is_lb_def ix_shape_def not_less)
next
  case False
  then obtain a up ups where l: "ix_lvl ix = a # up # ups" by (cases "ix_lvl ix" rule: remdups_adj.cases) auto
  have a: "a = ix_keys ix" using assms(1) l by (simp add: ix_shape_def)
  obtain t ts where r: "rev (ix_lvl ix) = t # ts" using l by (cases "rev (ix_lvl ix)") auto
  show ?thesis
    using descend_lb[of a "up # ups" key] assms(2,3) False l r a by (simp add: key_lower_bound_def)
qed

section \<open>What verification establishes\<close>

lemma index_check_sound:
  "index_check mem lo hi es i prev = None \<Longrightarrow>
   (\<forall>k < length es. \<exists>ln. line_in mem lo hi (snd (es ! k)) = Some ln \<and> fst (es ! k) = skk_pack (line_reading mem ln) \<and>
      (k = 0 \<longrightarrow> (case prev of None \<Rightarrow> True | Some (pk, pr) \<Rightarrow> skk_entry_cmp pk pr (fst (es ! k)) (line_reading mem ln) \<le> 0)) \<and>
      (\<forall>j ln'. k = Suc j \<longrightarrow> line_in mem lo hi (snd (es ! j)) = Some ln' \<longrightarrow>
         skk_entry_cmp (fst (es ! j)) (line_reading mem ln') (fst (es ! k)) (line_reading mem ln) \<le> 0))"
proof (induction es arbitrary: i prev)
  case Nil
  then show ?case by simp
next
  case (Cons e es)
  obtain key off where e: "e = (key, off)" by (cases e)
  from Cons.prems obtain ln where ln: "line_in mem lo hi off = Some ln" and key: "key = skk_pack (line_reading mem ln)"
    and prev: "case prev of None \<Rightarrow> True | Some (pk, pr) \<Rightarrow> skk_entry_cmp pk pr key (line_reading mem ln) \<le> 0"
    and rest: "index_check mem lo hi es (i + 1) (Some (key, line_reading mem ln)) = None"
    unfolding e by (auto simp: Let_def split: option.splits if_splits prod.splits)
  note IH = Cons.IH[OF rest]
  show ?case
  proof (intro allI impI)
    fix k assume k: "k < length (e # es)"
    show "\<exists>l. line_in mem lo hi (snd ((e # es) ! k)) = Some l \<and> fst ((e # es) ! k) = skk_pack (line_reading mem l) \<and>
      (k = 0 \<longrightarrow> (case prev of None \<Rightarrow> True | Some (pk, pr) \<Rightarrow> skk_entry_cmp pk pr (fst ((e # es) ! k)) (line_reading mem l) \<le> 0)) \<and>
      (\<forall>j ln'. k = Suc j \<longrightarrow> line_in mem lo hi (snd ((e # es) ! j)) = Some ln' \<longrightarrow>
         skk_entry_cmp (fst ((e # es) ! j)) (line_reading mem ln') (fst ((e # es) ! k)) (line_reading mem l) \<le> 0)"
    proof (cases k)
      case 0
      show ?thesis unfolding 0 e using ln key prev by (intro exI[of _ ln]) (auto split: option.splits)
    next
      case (Suc k')
      then have k': "k' < length es" using k by simp
      from IH[rule_format, OF k'] obtain l where l: "line_in mem lo hi (snd (es ! k')) = Some l"
          "fst (es ! k') = skk_pack (line_reading mem l)"
          "k' = 0 \<Longrightarrow> skk_entry_cmp key (line_reading mem ln) (fst (es ! k')) (line_reading mem l) \<le> 0"
          "\<And>j ln'. k' = Suc j \<Longrightarrow> line_in mem lo hi (snd (es ! j)) = Some ln' \<Longrightarrow>
             skk_entry_cmp (fst (es ! j)) (line_reading mem ln') (fst (es ! k')) (line_reading mem l) \<le> 0"
        by auto
      show ?thesis
      proof (intro exI[of _ l] conjI allI impI)
        fix j ln' assume j: "k = Suc j" and lj: "line_in mem lo hi (snd ((e # es) ! j)) = Some ln'"
        show "skk_entry_cmp (fst ((e # es) ! j)) (line_reading mem ln') (fst ((e # es) ! k)) (line_reading mem l) \<le> 0"
        proof (cases j)
          case 0
          then have "ln' = ln" using lj ln by (simp add: e)
          then show ?thesis using l(3) Suc j 0 by (simp add: e)
        next
          case (Suc j')
          then show ?thesis using l(4)[of j' ln'] lj j \<open>k = Suc k'\<close> by simp
        qed
      qed (use Suc l in auto)
    qed
  qed
qed

text \<open>Entry \<open>i\<close> of an index: its key and reading.\<close>

definition entry_reading :: "skk_dict \<Rightarrow> skk_index \<Rightarrow> nat \<Rightarrow> bytes" where
  "entry_reading d ix i = line_reading (d_image d) (the (line_at d (ix_offs ix ! i)))"

definition index_ok :: "skk_dict \<Rightarrow> skk_index \<Rightarrow> bool" where
  "index_ok d ix \<longleftrightarrow> ix_shape ix \<and> sampled (ix_lvl ix) \<and>
     (\<forall>i < ix_count ix. line_at d (ix_offs ix ! i) \<noteq> None \<and> ix_keys ix ! i = skk_pack (entry_reading d ix i)) \<and>
     (\<forall>i j. i < j \<longrightarrow> j < ix_count ix \<longrightarrow>
        \<not> key_less (ix_keys ix ! j) (entry_reading d ix j) (ix_keys ix ! i) (entry_reading d ix i))"

lemma index_okD:
  assumes "index_ok d ix"
  shows "ix_shape ix" "sampled (ix_lvl ix)"
    "i < ix_count ix \<Longrightarrow> \<exists>ln. line_at d (ix_offs ix ! i) = Some ln"
    "i < ix_count ix \<Longrightarrow> ix_keys ix ! i = skk_pack (entry_reading d ix i)"
    "i < j \<Longrightarrow> j < ix_count ix \<Longrightarrow> \<not> key_less (ix_keys ix ! j) (entry_reading d ix j) (ix_keys ix ! i) (entry_reading d ix i)"
  using assms unfolding index_ok_def by blast+

lemma cmp_le_not_less: "skk_entry_cmp ka a kb b \<le> 0 \<Longrightarrow> \<not> key_less kb b ka a"
  using key_less_trans[of kb b ka a kb b] key_less_irrefl by (auto simp: entry_cmp_spec split: if_splits)

lemma fan_check_sampled:
  "fan_check a ups seen = None \<Longrightarrow> map length ups = fan_sizes (length a) t \<Longrightarrow> sampled (a # ups)"
proof (induction ups arbitrary: a seen t)
  case Nil
  then show ?case by simp
next
  case (Cons up ups)
  have len: "length up = length a div SKK_FANOUT" and rest: "map length ups = fan_sizes (length up) (t + 1)"
    using Cons.prems(2) by (auto simp: fan_sizes.simps[of "length a" t] split: if_splits)
  from Cons.prems(1) have f: "find (\<lambda>j. up ! j \<noteq> a ! ((j + 1) * SKK_FANOUT - 1)) [0..<length up] = None"
      "fan_check up ups (seen + length up) = None"
    by (auto split: option.splits)
  then have "samples up a" using len by (auto simp: samples_def find_None_iff)
  then show ?case using Cons.IH[OF f(2) rest] by simp
qed

lemma sorted_steps:
  assumes "\<And>k. Suc k < n \<Longrightarrow> \<not> key_less (K (Suc k)) (R (Suc k)) (K k) (R k)" "i < j" "j < n"
  shows "\<not> key_less (K j) (R j) (K i) (R i)"
  using assms(2,3)
proof (induction j)
  case 0
  then show ?case by simp
next
  case (Suc j)
  show ?case
  proof (cases "i = j")
    case True
    then show ?thesis using assms(1) Suc.prems by simp
  next
    case False
    then have "\<not> key_less (K j) (R j) (K i) (R i)" "\<not> key_less (K (Suc j)) (R (Suc j)) (K j) (R j)" using Suc assms(1) by auto
    then show ?thesis
      using key_less_total[of "K j" "R j" "K i" "R i"] key_less_total[of "K (Suc j)" "R (Suc j)" "K j" "R j"]
        key_less_trans[of "K i" "R i" "K j" "R j" "K (Suc j)" "R (Suc j)"]
        key_less_trans[of "K i" "R i" "K (Suc j)" "R (Suc j)" "K i" "R i"] key_less_irrefl by metis
  qed
qed

lemma verify_sound:
  assumes "skk_index_verify d blk = None" "ix_shape (d_blk d blk)"
  shows "index_ok d (d_blk d blk)"
proof (cases "ix_count (d_blk d blk) = 0")
  case True
  have "sampled (ix_lvl (d_blk d blk))"
  proof (cases "tl (ix_lvl (d_blk d blk)) = []")
    case T: True
    then show ?thesis by (cases "ix_lvl (d_blk d blk)") auto
  next
    case False
    then have "map length (tl (ix_lvl (d_blk d blk))) = fan_sizes 0 0" using assms(2) True by (simp add: ix_shape_def)
    then show ?thesis using False by (simp add: fan_sizes.simps[of 0 0] SKK_FANOUT_def)
  qed
  then show ?thesis using assms True by (simp add: index_ok_def)
next
  case False
  let ?ix = "d_blk d blk"
  let ?es = "zip (ix_keys ?ix) (ix_offs ?ix)"
  have n: "length (ix_keys ?ix) = ix_count ?ix" "length (ix_offs ?ix) = ix_count ?ix" "ix_lvl ?ix = ix_keys ?ix # tl (ix_lvl ?ix)"
    using assms(2) list.collapse[of "ix_lvl ?ix"] by (simp_all add: ix_shape_def)
  from assms(1) False have c: "index_check (d_image d) (d_text d) (d_text d + d_text_len d) ?es 0 None = None"
      and f: "fan_check (hd (ix_lvl ?ix)) (tl (ix_lvl ?ix)) (ix_count ?ix) = None"
    by (auto simp: skk_index_verify_def Let_def split: option.splits)
  have smp: "sampled (ix_lvl ?ix)"
  proof (cases "tl (ix_lvl ?ix) = []")
    case True
    then show ?thesis using n(3) by (metis sampled.simps(3))
  next
    case T: False
    then have "map length (tl (ix_lvl ?ix)) = fan_sizes (length (ix_keys ?ix)) 0" using assms(2) n by (simp add: ix_shape_def)
    then show ?thesis using fan_check_sampled[of "ix_keys ?ix" "tl (ix_lvl ?ix)"] f n(3) assms(2)
      by (metis ix_shape_def)
  qed
  note S = index_check_sound[OF c, rule_format]
  have L: "line_at d (ix_offs ?ix ! k) \<noteq> None \<and> ix_keys ?ix ! k = skk_pack (entry_reading d ?ix k)" if "k < ix_count ?ix" for k
    using S[of k] that n unfolding entry_reading_def line_at_def by auto
  have "\<not> key_less (ix_keys ?ix ! Suc k) (entry_reading d ?ix (Suc k)) (ix_keys ?ix ! k) (entry_reading d ?ix k)" if "Suc k < ix_count ?ix" for k
  proof -
    have sk: "Suc k < ix_count ?ix" using that .
    then have k: "k < ix_count ?ix" by simp
    obtain l where l: "line_at d (ix_offs ?ix ! k) = Some l" using L[OF k] by blast
    obtain l2 where l2: "line_at d (ix_offs ?ix ! Suc k) = Some l2"
        "skk_entry_cmp (ix_keys ?ix ! k) (line_reading (d_image d) l) (ix_keys ?ix ! Suc k) (line_reading (d_image d) l2) \<le> 0"
    proof -
      have k2: "Suc k < length ?es" "?es ! k = (ix_keys ?ix ! k, ix_offs ?ix ! k)" "?es ! Suc k = (ix_keys ?ix ! Suc k, ix_offs ?ix ! Suc k)"
        using sk n by auto
      show thesis using S[OF k2(1)] that l unfolding line_at_def k2(3) fst_conv snd_conv by (auto simp: k2(2))
    qed
    have "skk_entry_cmp (ix_keys ?ix ! k) (entry_reading d ?ix k) (ix_keys ?ix ! Suc k) (entry_reading d ?ix (Suc k)) \<le> 0"
      using l l2 by (simp add: entry_reading_def)
    then show ?thesis by (rule cmp_le_not_less)
  qed
  then have "\<not> key_less (ix_keys ?ix ! j) (entry_reading d ?ix j) (ix_keys ?ix ! i) (entry_reading d ?ix i)"
    if "i < j" "j < ix_count ?ix" for i j
    by (rule sorted_steps[where K = "(!) (ix_keys ?ix)" and R = "entry_reading d ?ix", OF _ that])
  then show ?thesis unfolding index_ok_def using assms(2) smp L by blast
qed

section \<open>Lookup on a verified index\<close>

lemma index_keys_sorted: "index_ok d ix \<Longrightarrow> sorted (ix_keys ix)"
proof -
  assume ok: "index_ok d ix"
  have "ix_keys ix ! i \<le> ix_keys ix ! j" if "i \<le> j" "j < length (ix_keys ix)" for i j
  proof (cases "i = j")
    case False
    then have "\<not> key_less (ix_keys ix ! j) (entry_reading d ix j) (ix_keys ix ! i) (entry_reading d ix i)"
      using ok that by (auto simp: index_ok_def ix_shape_def)
    then show ?thesis by (auto simp: key_less_def not_less)
  qed simp
  then show "sorted (ix_keys ix)" by (simp add: sorted_iff_nth_mono)
qed

lemma find_run_exact:
  assumes ok: "index_ok d ix" and key: "key = skk_pack reading"
    and before: "\<forall>k < i. k < ix_count ix \<longrightarrow> entry_reading d ix k \<noteq> reading"
    and above: "\<forall>k. i \<le> k \<longrightarrow> k < ix_count ix \<longrightarrow> key \<le> ix_keys ix ! k"
  shows "case fst (find_run d ix key reading i fc) of
      None \<Rightarrow> \<forall>k < ix_count ix. entry_reading d ix k \<noteq> reading
    | Some ln \<Rightarrow> \<exists>k < ix_count ix. line_at d (ix_offs ix ! k) = Some ln \<and> line_reading (d_image d) ln = reading"
  using before above
proof (induction "ix_count ix - i" arbitrary: i fc)
  case 0
  then show ?case by (auto simp: find_run.simps[of d ix key reading i fc])
next
  case (Suc n)
  have i: "i < ix_count ix" using Suc.hyps(2) by simp
  obtain ln where ln: "line_at d (ix_offs ix ! i) = Some ln" using ok i by (auto simp: index_ok_def)
  have er: "entry_reading d ix i = line_reading (d_image d) ln" by (simp add: entry_reading_def ln)
  have pk: "ix_keys ix ! k = skk_pack (entry_reading d ix k)" if "k < ix_count ix" for k using ok that by (simp add: index_ok_def)
  have ord: "\<not> key_less (ix_keys ix ! k) (entry_reading d ix k) (ix_keys ix ! i) (entry_reading d ix i)" if "i < k" "k < ix_count ix" for k
    using index_okD(5)[OF ok that] .
  show ?case
  proof (cases "ix_keys ix ! i = key")
    case False
    have "entry_reading d ix k \<noteq> reading" if "k < ix_count ix" for k
    proof (cases "k < i")
      case True
      then show ?thesis using Suc.prems(1) that by blast
    next
      case k: False
      have "key < ix_keys ix ! i" using Suc.prems(2) i False by (simp add: le_neq_trans)
      also have "\<dots> \<le> ix_keys ix ! k"
        using sorted_nth_mono[OF index_keys_sorted[OF ok], of i k] k that ok by (simp add: index_ok_def ix_shape_def)
      finally show ?thesis using pk[OF that] key by auto
    qed
    then show ?thesis using False by (simp add: find_run.simps[of d ix key reading i fc])
  next
    case True
    let ?c = "skk_entry_cmp key reading key (line_reading (d_image d) ln)"
    have eq: "find_run d ix key reading i fc = (if ?c = 0 then (Some ln, fc + 1) else if ?c < 0 then (None, fc + 1)
        else find_run d ix key reading (i + 1) (fc + 1))"
      by (subst find_run.simps) (simp add: i True ln Let_def)
    consider "?c = 0" | "?c < 0" | "\<not> ?c = 0" "\<not> ?c < 0" by blast
    then show ?thesis
    proof cases
      case 1
      then have "line_reading (d_image d) ln = reading" using key_less_irrefl by (simp add: entry_cmp_spec split: if_splits)
      then show ?thesis unfolding eq using 1 i ln by auto
    next
      case 2
      then have smaller: "lex_less reading (entry_reading d ix i)" by (simp add: entry_cmp_spec key_less_def er split: if_splits)
      have "entry_reading d ix k \<noteq> reading" if "k < ix_count ix" for k
      proof (cases k i rule: linorder_cases)
        case less
        then show ?thesis using Suc.prems(1) that by blast
      next
        case equal
        then show ?thesis using smaller lex_less_irrefl by auto
      next
        case greater
        show ?thesis
        proof
          assume r: "entry_reading d ix k = reading"
          then have "ix_keys ix ! k = key" using pk[OF that] key by simp
          then show False using ord[OF greater that] r True smaller by (simp add: key_less_def)
        qed
      qed
      then show ?thesis unfolding eq using 2 by simp
    next
      case 3
      then have "entry_reading d ix i \<noteq> reading" by (auto simp: entry_cmp_spec er key_less_irrefl)
      then have b: "\<forall>k < i + 1. k < ix_count ix \<longrightarrow> entry_reading d ix k \<noteq> reading"
        using Suc.prems(1) by (auto simp: less_Suc_eq)
      have a: "\<forall>k. i + 1 \<le> k \<longrightarrow> k < ix_count ix \<longrightarrow> key \<le> ix_keys ix ! k" using Suc.prems(2) by simp
      have n: "n = ix_count ix - (i + 1)" using Suc.hyps(2) by simp
      from Suc.hyps(1)[OF n b a] show ?thesis unfolding eq using 3 by simp
    qed
  qed
qed

lemma find_entry_exact:
  assumes "index_ok d (d_blk d blk)"
  shows "case fst (find_entry d blk reading st) of
      None \<Rightarrow> \<forall>k < ix_count (d_blk d blk). entry_reading d (d_blk d blk) k \<noteq> reading
    | Some ln \<Rightarrow> \<exists>k < ix_count (d_blk d blk). line_at d (ix_offs (d_blk d blk) ! k) = Some ln \<and> line_reading (d_image d) ln = reading"
proof (cases "ix_count (d_blk d blk) = 0")
  case True
  then show ?thesis by (simp add: find_entry_def Let_def)
next
  case False
  let ?ix = "d_blk d blk"
  let ?key = "skk_pack reading"
  have shape: "ix_shape ?ix" "sampled (ix_lvl ?ix)" using assms by (simp_all add: index_ok_def)
  note lb = lower_bound_exact[OF shape(1) index_keys_sorted[OF assms] shape(2), of ?key]
  have n: "length (ix_keys ?ix) = ix_count ?ix" using shape(1) by (simp add: ix_shape_def)
  let ?i = "snd (key_lower_bound ?ix ?key)"
  have "\<forall>k < ?i. k < ix_count ?ix \<longrightarrow> entry_reading d ?ix k \<noteq> reading"
  proof (intro allI impI)
    fix k assume "k < ?i" "k < ix_count ?ix"
    then have "ix_keys ?ix ! k < ?key" "ix_keys ?ix ! k = skk_pack (entry_reading d ?ix k)"
      using lb index_okD(4)[OF assms] unfolding is_lb_def by blast+
    then show "entry_reading d ?ix k \<noteq> reading" by auto
  qed
  moreover have "\<forall>k. ?i \<le> k \<longrightarrow> k < ix_count ?ix \<longrightarrow> ?key \<le> ix_keys ?ix ! k" using lb n by (simp add: is_lb_def)
  ultimately show ?thesis
    using find_run_exact[OF assms refl] False by (simp add: find_entry_def Let_def)
qed

section \<open>Opening\<close>

lemma fan_levels_at_lengths: "map length (fan_levels_at b off ns) = ns"
  by (induction b off ns rule: fan_levels_at.induct) (simp_all add: rd_u64s_def)

lemma open_blk_shape: "ix_shape (open_blk b cnt k o' f)"
  by (simp add: open_blk_def fan_attach_def ix_shape_def rd_u64s_def rd_u32s_def fan_levels_at_lengths skk_fan_levels_def)

lemma sect_ok_extent:
  "sect_ok off cnt elem align len \<Longrightarrow> SKK_IMAGE_HDR \<le> unat off \<and> unat off + cnt * elem \<le> unat len \<and> unat off mod align = 0"
  by (auto simp: sect_ok_def not_less word_le_nat_alt split: if_splits)

text \<open>What opening establishes of a block: its arrays are inside the image.\<close>

definition blk_extent :: "nat \<Rightarrow> u32 \<Rightarrow> u32 \<Rightarrow> u32 \<Rightarrow> u32 \<Rightarrow> bool" where
  "blk_extent len cnt keys_off offs_off fan_off \<longleftrightarrow>
     unat keys_off + 8 * unat cnt \<le> len \<and> unat keys_off mod 8 = 0 \<and>
     unat offs_off + 4 * unat cnt \<le> len \<and> unat offs_off mod 4 = 0 \<and>
     (fan_off \<noteq> 0 \<longrightarrow> unat fan_off + 8 * skk_fan_total (unat cnt) \<le> len \<and> unat fan_off mod 8 = 0)"

definition dict_ok :: "skk_dict \<Rightarrow> bool" where
  "dict_ok d \<longleftrightarrow> d_text d + d_text_len d \<le> length (d_image d) \<and> length (d_image d) < 2 ^ 32 \<and>
     ix_shape (d_nasi d) \<and> ix_shape (d_ari d)"

lemma open_success:
  assumes "skk_dict_open base img verify = Inr d"
  shows "base mod SKK_IMAGE_ALIGN = 0 \<and> dict_ok d \<and> length (d_image d) = unat (rd_u32 img 8) \<and> length (d_image d) \<le> length img \<and>
    blk_extent (length (d_image d)) (rd_u32 img 28) (rd_u32 img 32) (rd_u32 img 36) (rd_u32 img 52) \<and>
    blk_extent (length (d_image d)) (rd_u32 img 40) (rd_u32 img 44) (rd_u32 img 48) (rd_u32 img 56) \<and>
    (verify \<longrightarrow> skk_crc32 0 (drop SKK_IMAGE_HDR (d_image d)) = rd_u32 img 12)"
proof -
  let ?h = "read_hdr img"
  from assms have A: "base mod SKK_IMAGE_ALIGN = 0" "\<not> (unat (h_image_len ?h) < SKK_IMAGE_HDR \<or> unat (h_image_len ?h) > length img)"
      "sections_ok ?h" "fans_ok ?h"
      "\<not> (verify \<and> skk_crc32 0 (slice img SKK_IMAGE_HDR (unat (h_image_len ?h) - SKK_IMAGE_HDR)) \<noteq> h_payload_crc32 ?h)"
      "d = \<lparr>d_image = take (unat (h_image_len ?h)) img, d_text = unat (h_text_off ?h), d_text_len = unat (h_text_len ?h),
               d_nasi = open_blk img (h_nasi_count ?h) (h_nasi_keys_off ?h) (h_nasi_offs_off ?h) (h_nasi_fan_off ?h),
               d_ari = open_blk img (h_ari_count ?h) (h_ari_keys_off ?h) (h_ari_offs_off ?h) (h_ari_fan_off ?h)\<rparr>"
    unfolding skk_dict_open_def Let_def by (simp_all split: if_splits)
  have len: "length (d_image d) = unat (h_image_len ?h)" using A(2,6) by simp
  have crc: "slice img SKK_IMAGE_HDR (unat (h_image_len ?h) - SKK_IMAGE_HDR) = drop SKK_IMAGE_HDR (d_image d)"
    using A(2,6) by (simp add: slice_def drop_take)
  have x: "unat (h_image_len ?h) < 2 ^ 32" using unsigned_less[of "h_image_len ?h", where ?'a = nat] by simp
  note S = A(3)[unfolded sections_ok_def]
  have t: "unat (h_text_off ?h) + unat (h_text_len ?h) \<le> unat (h_image_len ?h)"
    using sect_ok_extent[of "h_text_off ?h"] S by fastforce
  have "dict_ok d" unfolding dict_ok_def len using t x A(6) by (simp add: open_blk_shape)
  moreover have "blk_extent (length (d_image d)) (rd_u32 img 28) (rd_u32 img 32) (rd_u32 img 36) (rd_u32 img 52)"
    using S A(4) sect_ok_extent[of "h_nasi_keys_off ?h"] sect_ok_extent[of "h_nasi_offs_off ?h"] sect_ok_extent[of "h_nasi_fan_off ?h"]
    unfolding len blk_extent_def fans_ok_def by (fastforce simp: read_hdr_def mult.commute)
  moreover have "blk_extent (length (d_image d)) (rd_u32 img 40) (rd_u32 img 44) (rd_u32 img 48) (rd_u32 img 56)"
    using S A(4) sect_ok_extent[of "h_ari_keys_off ?h"] sect_ok_extent[of "h_ari_offs_off ?h"] sect_ok_extent[of "h_ari_fan_off ?h"]
    unfolding len blk_extent_def fans_ok_def by (fastforce simp: read_hdr_def mult.commute)
  ultimately show ?thesis using A(1,2,5) len unfolding crc by (simp add: read_hdr_def not_less)
qed

text \<open>Hence no index computation of the search leaves 32 bits.\<close>

lemma open_counts: "blk_extent len cnt k o' f \<Longrightarrow> len < 2 ^ 32 \<Longrightarrow> unat cnt < 2 ^ 29"
  by (simp add: blk_extent_def)

section \<open>Candidates\<close>

lemma line_split_bounds:
  "line_split mem ls llen = Some ln \<Longrightarrow>
   ln_reading ln = ls \<and> 0 < ln_reading_len ln \<and> ls + ln_reading_len ln + 1 = ln_body ln \<and> ln_body ln + ln_body_len ln \<le> ls + llen"
  by (auto simp: line_split_def Let_def dest!: memchr_Some split: if_splits option.splits)

lemma line_at_bounds:
  assumes "line_at d off = Some ln"
  shows "d_text d \<le> ln_reading ln \<and> ln_body ln + ln_body_len ln \<le> d_text d + d_text_len d \<and>
    ln_reading ln + ln_reading_len ln < ln_body ln \<and> 0 < ln_reading_len ln"
proof -
  let ?hi = "d_text d + d_text_len d"
  let ?n = "case memchr (d_image d) (unat off) 0x0A (?hi - unat off) of Some nl \<Rightarrow> nl - unat off | None \<Rightarrow> ?hi - unat off"
  from assms have w: "d_text d \<le> unat off" "unat off < ?hi" "line_split (d_image d) (unat off) ?n = Some ln"
    by (auto simp: line_at_def line_in_def Let_def split: if_splits)
  have "unat off + ?n \<le> ?hi" using w(2) by (auto split: option.split dest!: memchr_Some)
  with line_split_bounds[OF w(3)] w show ?thesis by linarith
qed

lemma lookup_loop_cands:
  assumes "\<And>c. c \<in> set out \<Longrightarrow> P c" "length out \<le> cap"
    "\<And>p n. it_p it < p \<Longrightarrow> p + n \<le> it_end it \<Longrightarrow> cand_ok mem p n \<Longrightarrow> P \<lparr>c_off = of_nat p, c_len = of_nat n, c_src = SKK_SRC_DICT\<rparr>"
  shows "(\<forall>c \<in> set (fst (lookup_loop mem it cap out st)). P c) \<and> length (fst (lookup_loop mem it cap out st)) \<le> cap"
  using assms
proof (induction mem it cap out st rule: lookup_loop.induct)
  case (1 mem it cap out st)
  obtain r it' dr where n: "cand_next mem it (st_dropped st) = (r, it', dr)" by (metis prod_cases3)
  show ?case
  proof (cases r)
    case None
    then show ?thesis using 1(3,4) n by (subst (1 2) lookup_loop.simps) simp
  next
    case (Some c)
    obtain p k where c: "c = (p, k)" by (cases c)
    note S = cand_next_spec[OF n[unfolded Some c]]
    have later: "P \<lparr>c_off = of_nat q, c_len = of_nat m, c_src = SKK_SRC_DICT\<rparr>" if "it_p it' < q" "q + m \<le> it_end it'" "cand_ok mem q m" for q m
      using 1(5)[of q m] that S by simp
    show ?thesis
    proof (cases "cap \<le> length out")
      case True
      have eq: "lookup_loop mem it cap out st = lookup_loop mem it' cap out (st\<lparr>st_dropped := dr + 1\<rparr>)"
        using True by (subst lookup_loop.simps) (simp add: n Some c)
      show ?thesis unfolding eq using 1(1)[OF n[symmetric] refl Some c[symmetric] True] 1(3,4) later by blast
    next
      case False
      let ?c = "\<lparr>c_off = of_nat p, c_len = of_nat k, c_src = SKK_SRC_DICT\<rparr>"
      have eq: "lookup_loop mem it cap out st =
          lookup_loop mem it' cap (out @ [?c]) (st\<lparr>st_dropped := dr, st_cands := st_cands st + 1\<rparr>)"
        using False by (subst lookup_loop.simps) (simp add: n Some c)
      have "P ?c" using 1(5)[of p k] S by simp
      then have o: "\<And>x. x \<in> set (out @ [?c]) \<Longrightarrow> P x" "length (out @ [?c]) \<le> cap" using 1(3) False by auto
      show ?thesis unfolding eq using 1(2)[OF n[symmetric] refl Some c[symmetric] False o later] .
    qed
  qed
qed

lemma cand_text_ok:
  assumes d: "dict_ok d" and c: "cand_ok (d_image d) p n" "p + n \<le> d_text d + d_text_len d"
  shows "skk_cand_text d \<lparr>c_off = of_nat p, c_len = of_nat n, c_src = SKK_SRC_DICT\<rparr> = Some (slice (d_image d) p n) \<and>
    length (slice (d_image d) p n) = n \<and> set (slice (d_image d) p n) \<inter> {0x2F, 0x3B} = {} \<and>
    hd (slice (d_image d) p n) \<notin> {0x5B, 0x28}"
proof -
  have n: "1 \<le> n" "n \<le> 0xFFFF" using c(1) by (simp_all add: cand_ok_def)
  have len: "p + n \<le> length (d_image d)" "length (d_image d) < 2 ^ 32" using d c(2) by (simp_all add: dict_ok_def)
  have u: "unat (of_nat p :: u32) = p" "unat (of_nat n :: u16) = n"
    using len n by (simp_all add: unat_of_nat)
  have nth: "slice (d_image d) p n ! i = d_image d ! (p + i)" if "i < n" for i using that len by (simp add: slice_def)
  have l: "length (slice (d_image d) p n) = n" using len by (simp add: slice_def)
  have "x \<noteq> 0x2F \<and> x \<noteq> 0x3B" if "x \<in> set (slice (d_image d) p n)" for x
  proof -
    from that obtain i where "i < n" "x = slice (d_image d) p n ! i" unfolding in_set_conv_nth l by blast
    then have "i < n" "x = d_image d ! (p + i)" using nth by simp_all
    then show ?thesis using c(1) unfolding cand_ok_def by (metis add_less_cancel_left le_add1)
  qed
  then have "set (slice (d_image d) p n) \<inter> {0x2F, 0x3B} = {}" by auto
  moreover have "hd (slice (d_image d) p n) = d_image d ! p" using nth[of 0] n l hd_conv_nth[of "slice (d_image d) p n"] by fastforce
  ultimately show ?thesis using c(1) l len u by (simp add: skk_cand_text_def cand_ok_def)
qed

lemma find_run_line:
  "fst (find_run d ix key reading i fc) = Some ln \<Longrightarrow> \<exists>off. line_at d off = Some ln"
proof (induction d ix key reading i fc rule: find_run.induct)
  case (1 d ix key reading i fc)
  note prem = 1(3)
  show ?case
  proof (cases "i < ix_count ix \<and> ix_keys ix ! i = key")
    case False
    have "find_run d ix key reading i fc = (None, fc)" unfolding find_run.simps[of d ix key reading i fc] by (rule if_not_P[OF False])
    then show ?thesis using prem by simp
  next
    case i: True
    show ?thesis
    proof (cases "line_at d (ix_offs ix ! i)")
      case None
      have "find_run d ix key reading i fc = find_run d ix key reading (i + 1) fc"
        by (subst find_run.simps) (simp add: i None)
      then show ?thesis using 1(1)[OF i None] prem by simp
    next
      case (Some l)
      let ?c = "skk_entry_cmp key reading key (line_reading (d_image d) l)"
      have eq: "find_run d ix key reading i fc = (if ?c = 0 then (Some l, fc + 1) else if ?c < 0 then (None, fc + 1)
          else find_run d ix key reading (i + 1) (fc + 1))"
        by (subst find_run.simps) (simp add: i Some Let_def)
      show ?thesis using prem Some 1(2)[OF i Some refl] unfolding eq by (auto split: if_splits)
    qed
  qed
qed

lemma find_entry_line:
  "fst (find_entry d blk reading st) = Some ln \<Longrightarrow> \<exists>off. line_at d off = Some ln"
  by (rule find_run_line[of d "d_blk d blk" "skk_pack reading" reading "snd (key_lower_bound (d_blk d blk) (skk_pack reading))" "st_fullcmp st"])
    (simp add: find_entry_def Let_def split: if_split_asm)

lemma complete_walk_sound:
  "complete_walk d ix key pre want i seen run = Some r \<Longrightarrow>
   \<exists>k ln. i \<le> k \<and> k < ix_count ix \<and> line_at d (ix_offs ix ! k) = Some ln \<and> r = line_reading (d_image d) ln \<and>
     ln_reading_len ln > length pre \<and> take (length pre) r = pre"
proof (induction d ix key pre want i seen run rule: complete_walk.induct)
  case (1 d ix key pre want i seen run)
  note prem = 1(5)
  have up: "\<exists>k ln. i \<le> k \<and> k < ix_count ix \<and> line_at d (ix_offs ix ! k) = Some ln \<and> r = line_reading (d_image d) ln \<and>
     ln_reading_len ln > length pre \<and> take (length pre) r = pre"
    if "\<exists>k ln. i + 1 \<le> k \<and> k < ix_count ix \<and> line_at d (ix_offs ix ! k) = Some ln \<and> r = line_reading (d_image d) ln \<and>
     ln_reading_len ln > length pre \<and> take (length pre) r = pre"
    using that add_leD1[of i 1] by blast
  show ?case
  proof (cases "i < ix_count ix")
    case False
    then show ?thesis using prem by (simp add: complete_walk.simps[of d ix key pre want i])
  next
    case i: True
    show ?thesis
    proof (cases "line_at d (ix_offs ix ! i)")
      case None
      then have "complete_walk d ix key pre want (i + 1) seen run = Some r"
        using prem i by (simp add: complete_walk.simps[of d ix key pre want i])
      from 1(1)[OF i None this] show ?thesis by (rule up)
    next
      case (Some ln)
      let ?r = "line_reading (d_image d) ln"
      let ?m = "ln_reading_len ln \<ge> length pre \<and> take (length pre) ?r = pre"
      have eq: "complete_walk d ix key pre want i seen run =
        (if \<not> ?m then (if run \<or> ix_keys ix ! i \<noteq> key then None else complete_walk d ix key pre want (i + 1) seen run)
         else if ln_reading_len ln = length pre then complete_walk d ix key pre want (i + 1) seen True
         else if seen = want then Some ?r else complete_walk d ix key pre want (i + 1) (seen + 1) True)"
        by (subst complete_walk.simps) (simp add: i Some Let_def)
      note IH = 1(2-4)[OF i Some refl]
      consider "\<not> ?m" "\<not> (run \<or> ix_keys ix ! i \<noteq> key)" "complete_walk d ix key pre want (i + 1) seen run = Some r"
        | "\<not> \<not> ?m" "ln_reading_len ln = length pre" "complete_walk d ix key pre want (i + 1) seen True = Some r"
        | "\<not> \<not> ?m" "ln_reading_len ln \<noteq> length pre" "seen \<noteq> want" "complete_walk d ix key pre want (i + 1) (seen + 1) True = Some r"
        | "\<not> \<not> ?m" "ln_reading_len ln \<noteq> length pre" "r = ?r"
        using prem unfolding eq by (auto split: if_splits)
      then show ?thesis
      proof cases
        case 1
        from IH(1)[OF 1] show ?thesis by (rule up)
      next
        case 2
        from IH(2)[OF 2] show ?thesis by (rule up)
      next
        case 3
        from IH(3)[OF 3] show ?thesis by (rule up)
      next
        case 4
        then show ?thesis using i Some by (intro exI[of _ i] exI[of _ ln]) auto
      qed
    qed
  qed
qed

section \<open>The reference for the search tree\<close>

lemma fan_build_lengths: "map length (fan_build_levels a ns) = ns"
  by (induction a ns rule: fan_build_levels.induct) (simp_all add: fan_sample_def)

lemma fan_sizes_length: "t < SKK_FAN_LEVELS_MAX \<Longrightarrow> length (fan_sizes n t) < SKK_FAN_LEVELS_MAX - t"
proof (induction n t rule: fan_sizes.induct)
  case (1 n t)
  show ?case
  proof (cases "n \<ge> SKK_FANOUT \<and> t + 1 < SKK_FAN_LEVELS_MAX")
    case True
    then show ?thesis using 1(1)[OF True] by (simp add: fan_sizes.simps[of n t])
  next
    case False
    have "fan_sizes n t = []" unfolding fan_sizes.simps[of n t] by (rule if_not_P[OF False])
    then show ?thesis using 1(2) by simp
  qed
qed

lemma fan_build_sampled: "ns = fan_sizes (length a) t \<Longrightarrow> sampled (a # fan_build_levels a ns)"
proof (induction a ns arbitrary: t rule: fan_build_levels.induct)
  case (1 a)
  then show ?case by simp
next
  case (2 a n ns)
  have n: "n = length a div SKK_FANOUT" "ns = fan_sizes n (t + 1)"
    using 2(2) by (auto simp: fan_sizes.simps[of "length a" t] split: if_splits)
  have len: "length (fan_sample a n) = n" by (simp add: fan_sample_def)
  have "samples (fan_sample a n) a" using n by (simp add: samples_def fan_sample_def)
  then show ?case using 2(1)[of "t + 1"] n(2) len by simp
qed

text \<open>The index over a key array, with the tree \<open>skk_fan_build\<close> makes for it.\<close>

definition built_index :: "u64 list \<Rightarrow> u32 list \<Rightarrow> skk_index" where
  "built_index keys offs = \<lparr>ix_keys = keys, ix_offs = offs, ix_count = length keys,
     ix_lvl = keys # fan_build_levels keys (tl (skk_fan_levels (length keys)))\<rparr>"

definition plain_index :: "u64 list \<Rightarrow> u32 list \<Rightarrow> skk_index" where
  "plain_index keys offs = \<lparr>ix_keys = keys, ix_offs = offs, ix_count = length keys, ix_lvl = [keys]\<rparr>"

lemma built_index_shape: "length offs = length keys \<Longrightarrow> ix_shape (built_index keys offs) \<and> sampled (ix_lvl (built_index keys offs))"
  using fan_build_lengths fan_build_sampled[OF refl, of keys 0]
  by (simp add: built_index_def ix_shape_def skk_fan_levels_def)

lemma lb_count: "sorted a \<Longrightarrow> is_lb a key k \<Longrightarrow> k = length (filter (\<lambda>x. x < key) a)"
proof -
  assume s: "sorted a" and lb: "is_lb a key k"
  have k: "k \<le> length a" using lb by (simp add: is_lb_def)
  have "\<forall>x \<in> set (take k a). x < key" using lb by (auto simp: is_lb_def in_set_conv_nth)
  moreover have "\<forall>x \<in> set (drop k a). \<not> x < key"
  proof
    fix x assume "x \<in> set (drop k a)"
    then obtain i where "i < length a - k" "x = a ! (k + i)" using k by (auto simp: in_set_conv_nth)
    then show "\<not> x < key" using lb by (auto simp: is_lb_def not_less)
  qed
  ultimately have "filter (\<lambda>x. x < key) (take k a @ drop k a) = take k a" unfolding filter_append by simp
  then show ?thesis using k by simp
qed

section \<open>Built entries\<close>

lemma text_lines_shape:
  "(i, n) \<in> set (text_lines text j) \<Longrightarrow>
   i < length text \<and> n = (case memchr text i 0x0A (length text - i) of Some nl \<Rightarrow> nl - i | None \<Rightarrow> length text - i)"
proof (induction "text" j rule: text_lines.induct)
  case (1 "text" j)
  show ?case
  proof (cases "j < length text")
    case False
    then show ?thesis using 1(2) by (simp add: text_lines.simps[of "text" j])
  next
    case j: True
    show ?thesis
    proof (cases "memchr text j 0x0A (length text - j)")
      case None
      then show ?thesis using 1(2) j by (simp add: text_lines.simps[of "text" j])
    next
      case (Some nl)
      then show ?thesis using 1(2) j 1(1)[OF j Some] by (auto simp: text_lines.simps[of "text" j])
    qed
  qed
qed

lemma build_loop_entries:
  "(key, off) \<in> set (fst (build_loop text ls cap out n)) \<Longrightarrow>
   (key, off) \<in> set out \<or> (\<exists>i llen ln. (i, llen) \<in> set ls \<and> line_split text i llen = Some ln \<and> off = of_nat i \<and> key = skk_pack (line_reading text ln))"
proof (induction "text" ls cap out n rule: build_loop.induct)
  case (1 "text" cap out n)
  then show ?case by simp
next
  case (2 "text" i llen ls cap out n)
  show ?case
  proof (cases "line_split text i llen")
    case None
    then show ?thesis using 2(1)[OF None] 2(3) by auto
  next
    case (Some ln)
    then show ?thesis using 2(2)[OF Some] 2(3) by (auto split: if_splits)
  qed
qed

lemma build_loop_count: "length out = min cap n \<Longrightarrow>
  length (fst (build_loop text ls cap out n)) = min cap (snd (build_loop text ls cap out n))"
  by (induction "text" ls cap out n rule: build_loop.induct) (auto split: option.splits simp: Let_def)

lemma built_entry_line:
  assumes "length text < 2 ^ 32" "(key, off) \<in> set (fst (skk_index_build text cap))"
  shows "\<exists>ln. line_in text 0 (length text) off = Some ln \<and> key = skk_pack (line_reading text ln)"
proof -
  obtain i llen ln where w: "(i, llen) \<in> set (text_lines text 0)" "line_split text i llen = Some ln" "off = of_nat i"
      "key = skk_pack (line_reading text ln)"
    using build_loop_entries[of key off "text" "text_lines text 0" cap "[]" 0] assms(2) by (auto simp: skk_index_build_def Let_def)
  note T = text_lines_shape[OF w(1)]
  have "unat off = i" using T assms(1) w(3) by (simp add: unat_of_nat)
  then show ?thesis using T w(2,4) by (auto simp: line_in_def)
qed

text \<open>Entries in the order of the readings their offsets name.\<close>

definition text_reading :: "bytes \<Rightarrow> u32 \<Rightarrow> bytes" where
  "text_reading text off = line_reading text (the (line_in text 0 (length text) off))"

fun entries_ordered :: "bytes \<Rightarrow> (u64 \<times> u32) list \<Rightarrow> bool" where
  "entries_ordered text (e # f # es) =
     (skk_entry_cmp (fst e) (text_reading text (snd e)) (fst f) (text_reading text (snd f)) \<le> 0 \<and> entries_ordered text (f # es))"
| "entries_ordered text _ = True"

lemma index_check_complete:
  assumes "\<And>key off. (key, off) \<in> set es \<Longrightarrow> \<exists>ln. line_in text 0 (length text) off = Some ln \<and> key = skk_pack (line_reading text ln)"
    "entries_ordered text es" "case prev of None \<Rightarrow> True | Some (pk, pr) \<Rightarrow> es \<noteq> [] \<longrightarrow> skk_entry_cmp pk pr (fst (hd es)) (text_reading text (snd (hd es))) \<le> 0"
  shows "index_check text 0 (length text) es i prev = None"
  using assms
proof (induction es arbitrary: i prev)
  case Nil
  then show ?case by simp
next
  case (Cons e es)
  obtain key off where e: "e = (key, off)" by (cases e)
  obtain ln where ln: "line_in text 0 (length text) off = Some ln" "key = skk_pack (line_reading text ln)"
    using Cons.prems(1)[of key off] e by auto
  have r: "text_reading text off = line_reading text ln" by (simp add: text_reading_def ln)
  have nxt: "entries_ordered text es" "es \<noteq> [] \<Longrightarrow> skk_entry_cmp key (line_reading text ln) (fst (hd es)) (text_reading text (snd (hd es))) \<le> 0"
    using Cons.prems(2) r e by (cases es; simp)+
  have "index_check text 0 (length text) es (i + 1) (Some (key, line_reading text ln)) = None"
    using Cons.IH[of "Some (key, line_reading text ln)"] Cons.prems(1) nxt by simp
  moreover have "\<not> (case prev of None \<Rightarrow> False | Some (pk, pr) \<Rightarrow> skk_entry_cmp pk pr key (line_reading text ln) > 0)"
    using Cons.prems(3) r e by (auto split: option.splits)
  ultimately show ?case using ln unfolding e index_check.simps by simp
qed

lemma lookup_candidates_ok:
  assumes "dict_ok d"
  shows "length (fst (skk_lookup_stats d blk reading cap st)) \<le> cap \<and>
    (\<forall>c \<in> set (fst (skk_lookup_stats d blk reading cap st)). \<exists>t. skk_cand_text d c = Some t \<and> t \<noteq> [] \<and> length t = unat (c_len c) \<and>
       set t \<inter> {0x2F, 0x3B} = {} \<and> hd t \<notin> {0x5B, 0x28})"
proof (cases "reading = []")
  case True
  then show ?thesis by (simp add: skk_lookup_stats_def Let_def)
next
  case False
  let ?st = "st\<lparr>st_lookups := st_lookups st + 1\<rparr>"
  obtain r st1 where f: "find_entry d blk reading ?st = (r, st1)" by fastforce
  show ?thesis
  proof (cases r)
    case None
    then show ?thesis using False f by (simp add: skk_lookup_stats_def Let_def)
  next
    case (Some ln)
    let ?P = "\<lambda>c. \<exists>t. skk_cand_text d c = Some t \<and> t \<noteq> [] \<and> length t = unat (c_len c) \<and> set t \<inter> {0x2F, 0x3B} = {} \<and> hd t \<notin> {0x5B, 0x28}"
    obtain off where off: "line_at d off = Some ln" using find_entry_line[of d blk reading ?st] f Some by auto
    have e: "it_end (cand_iter_init ln) \<le> d_text d + d_text_len d" using line_at_bounds[OF off] by (simp add: cand_iter_init_def)
    have "?P \<lparr>c_off = of_nat p, c_len = of_nat n, c_src = SKK_SRC_DICT\<rparr>" if "p + n \<le> it_end (cand_iter_init ln)" "cand_ok (d_image d) p n" for p n
      using cand_text_ok[OF assms that(2)] that e cand_ok_def[of "d_image d" p n] by (fastforce simp: unat_of_nat)
    then have "(\<forall>c \<in> set (fst (lookup_loop (d_image d) (cand_iter_init ln) cap [] st1)). ?P c) \<and>
        length (fst (lookup_loop (d_image d) (cand_iter_init ln) cap [] st1)) \<le> cap"
      by (intro lookup_loop_cands) auto
    then show ?thesis using False f Some by (simp add: skk_lookup_stats_def Let_def)
  qed
qed

lemma complete_sound:
  assumes "dict_ok d" "skk_complete d blk prefix want probes = (Inr (Some r), probes')"
  shows "length prefix < length r \<and> take (length prefix) r = prefix \<and>
    (\<exists>k < ix_count (d_blk d blk). line_at d (ix_offs (d_blk d blk) ! k) \<noteq> None \<and> r = entry_reading d (d_blk d blk) k)"
proof -
  let ?ix = "d_blk d blk"
  have "complete_walk d ?ix (skk_pack prefix) prefix want (snd (key_lower_bound ?ix (skk_pack prefix))) 0 False = Some r"
    using assms(2) by (simp add: skk_complete_def Let_def split: if_split_asm)
  from complete_walk_sound[OF this] obtain k ln where k: "k < ix_count ?ix" "line_at d (ix_offs ?ix ! k) = Some ln"
      "r = line_reading (d_image d) ln" "ln_reading_len ln > length prefix" "take (length prefix) r = prefix" by blast
  have "ln_reading ln + ln_reading_len ln \<le> length (d_image d)"
    using line_at_bounds[OF k(2)] assms(1) by (simp add: dict_ok_def)
  then have "length r = ln_reading_len ln" by (simp add: k(3) line_reading_def slice_def)
  then show ?thesis using k by (auto simp: entry_reading_def)
qed

section \<open>Properties\<close>

text \<open>Property C25: the sampled search tree is an optimisation only: over sorted keys, the descent
  through the levels that skk_fan_build samples ends at the same entry as the plain bisection, the
  number of keys below the wanted one, and it reads at most twelve levels.\<close>

lemma search_tree_exact:
  assumes "sorted keys" "length offs = length keys"
  shows "snd (key_lower_bound (built_index keys offs) key) = snd (key_lower_bound (plain_index keys offs) key) \<and>
    snd (key_lower_bound (built_index keys offs) key) = length (filter (\<lambda>x. x < key) keys) \<and>
    length (ix_lvl (built_index keys offs)) \<le> SKK_FAN_LEVELS_MAX"
proof -
  note B = built_index_shape[OF assms(2)]
  have keys: "ix_keys (built_index keys offs) = keys" "ix_keys (plain_index keys offs) = keys"
    by (simp_all add: built_index_def plain_index_def)
  have P: "ix_shape (plain_index keys offs)" "sampled (ix_lvl (plain_index keys offs))"
    using assms(2) by (simp_all add: plain_index_def ix_shape_def)
  have 1: "snd (key_lower_bound (built_index keys offs) key) = length (filter (\<lambda>x. x < key) keys)"
    using lb_count[OF assms(1)] lower_bound_exact[of "built_index keys offs" key] B assms(1) keys by simp
  have 2: "snd (key_lower_bound (plain_index keys offs) key) = length (filter (\<lambda>x. x < key) keys)"
    using lb_count[OF assms(1)] lower_bound_exact[OF P(1) _ P(2), of key] assms(1) keys by simp
  have "length (map length (fan_build_levels keys (fan_sizes (length keys) 0))) < SKK_FAN_LEVELS_MAX - 0"
    unfolding fan_build_lengths by (rule fan_sizes_length) (simp add: SKK_FAN_LEVELS_MAX_def)
  then show ?thesis using 1 2 by (simp add: built_index_def skk_fan_levels_def)
qed

lemma search_tree_exact_witness:
  "snd (key_lower_bound (built_index [1, 2, 3, 5, 8, 13, 21, 34, 55, 89] (replicate 10 0)) 6) =
   snd (key_lower_bound (plain_index [1, 2, 3, 5, 8, 13, 21, 34, 55, 89] (replicate 10 0)) 6)"
proof -
  have "sorted [1, 2, 3, 5, 8, 13, 21, 34, 55, 89 :: u64]" "length (replicate 10 (0::u32)) = length [1, 2, 3, 5, 8, 13, 21, 34, 55, 89 :: u64]"
    by code_simp+
  from search_tree_exact[OF this, of 6] show ?thesis by blast
qed

text \<open>Property C5: on an index that skk_index_verify accepts, the lookup by packed key is exact: it
  returns an entry with the wanted reading when the block has one, and nothing when it has none.\<close>

lemma skk_find_entry_exact:
  assumes "skk_index_verify d blk = None" "ix_shape (d_blk d blk)"
  shows "case fst (find_entry d blk reading st) of
      None \<Rightarrow> \<forall>k < ix_count (d_blk d blk). entry_reading d (d_blk d blk) k \<noteq> reading
    | Some ln \<Rightarrow> \<exists>k < ix_count (d_blk d blk). line_at d (ix_offs (d_blk d blk) ! k) = Some ln \<and> line_reading (d_image d) ln = reading"
  by (rule find_entry_exact[OF verify_sound[OF assms]])

text \<open>A dictionary of two entries, without a tree.\<close>

definition small_dict :: skk_dict where
  "small_dict = \<lparr>d_image = ascii ''a /b/c;d/'' @ [10] @ ascii ''ab /(e/f/'', d_text = 0, d_text_len = 19,
     d_nasi = plain_index [skk_pack (ascii ''a''), skk_pack (ascii ''ab'')] [0, 10], d_ari = plain_index [] []\<rparr>"

lemma small_dict_ok: "dict_ok small_dict" "skk_index_verify small_dict SKK_BLK_NASI = None" "ix_shape (d_blk small_dict SKK_BLK_NASI)"
proof -
  have "d_text small_dict + d_text_len small_dict = length (d_image small_dict)" "length (d_image small_dict) = 19"
      "ix_shape (d_nasi small_dict)" "ix_shape (d_ari small_dict)" by code_simp+
  then show "dict_ok small_dict" by (simp add: dict_ok_def)
  show "skk_index_verify small_dict SKK_BLK_NASI = None" by code_simp
  show "ix_shape (d_blk small_dict SKK_BLK_NASI)" by code_simp
qed

lemma skk_find_entry_exact_witness:
  "case fst (find_entry small_dict SKK_BLK_NASI (ascii ''ab'') undefined) of
      None \<Rightarrow> \<forall>k < 2. entry_reading small_dict (d_nasi small_dict) k \<noteq> ascii ''ab''
    | Some ln \<Rightarrow> line_reading (d_image small_dict) ln = ascii ''ab''"
proof -
  have "d_blk small_dict SKK_BLK_NASI = d_nasi small_dict" "ix_count (d_nasi small_dict) = 2"
    by (simp_all add: d_blk_def small_dict_def plain_index_def)
  then show ?thesis
    using skk_find_entry_exact[OF small_dict_ok(2,3), of "ascii ''ab''" undefined] by (auto split: option.splits)
qed

text \<open>Property C26: an image is opened only when it is aligned, complete and every section with its
  search tree lies inside it; then all index arrays have their counts, no index reaches 32 bits, and with
  verify the stored checksum is the one of the payload.\<close>

lemma skk_dict_open_safe:
  assumes "skk_dict_open base img verify = Inr d"
  shows "base mod SKK_IMAGE_ALIGN = 0 \<and> dict_ok d \<and> length (d_image d) = unat (rd_u32 img 8) \<and> length (d_image d) \<le> length img \<and>
    blk_extent (length (d_image d)) (rd_u32 img 28) (rd_u32 img 32) (rd_u32 img 36) (rd_u32 img 52) \<and>
    blk_extent (length (d_image d)) (rd_u32 img 40) (rd_u32 img 44) (rd_u32 img 48) (rd_u32 img 56) \<and>
    (verify \<longrightarrow> skk_crc32 0 (drop SKK_IMAGE_HDR (d_image d)) = rd_u32 img 12)"
  by (rule open_success[OF assms])

text \<open>The empty image: a header alone.\<close>

definition empty_image :: bytes where
  "empty_image = [0x53, 0x4B, 0x4B, 0x31, 2, 0, 0, 0, 64, 0, 0, 0, 0, 0, 0, 0, 0x7F, 0x63, 0xEF, 0xE4, 64, 0, 0, 0, 0, 0, 0, 0,
     0, 0, 0, 0, 64, 0, 0, 0, 64, 0, 0, 0, 0, 0, 0, 0, 64, 0, 0, 0, 64, 0, 0, 0, 0, 0, 0, 0, 0, 0, 0, 0, 0, 0, 0, 0]"

lemma empty_image_opens: "\<exists>d. skk_dict_open 0 empty_image True = Inr d"
proof -
  have h: "read_hdr empty_image = \<lparr>h_magic = SKK_IMAGE_MAGIC, h_version = SKK_IMAGE_VERSION, h_image_len = 64, h_payload_crc32 = 0,
     h_alphabet_crc32 = 0xE4EF637F, h_text_off = 64, h_text_len = 0, h_nasi_count = 0, h_nasi_keys_off = 64, h_nasi_offs_off = 64,
     h_ari_count = 0, h_ari_keys_off = 64, h_ari_offs_off = 64, h_nasi_fan_off = 0, h_ari_fan_off = 0\<rparr>" by code_simp
  have s: "sections_ok (read_hdr empty_image)" "fans_ok (read_hdr empty_image)" by code_simp+
  have c: "skk_crc32 0 [] = 0" by code_simp
  have l: "length empty_image = 64" by code_simp
  have "\<not> length empty_image < SKK_IMAGE_HDR" "(0::nat) mod SKK_IMAGE_ALIGN = 0" "unat (h_image_len (read_hdr empty_image)) = 64"
    by (simp_all add: l h SKK_IMAGE_HDR_def)
  then show ?thesis using s
    by (simp add: skk_dict_open_def Let_def h l alphabet_crc_value SKK_IMAGE_HDR_def slice_def c)
qed

lemma skk_dict_open_safe_witness: "\<exists>d. skk_dict_open 0 empty_image True = Inr d \<and> dict_ok d"
  using empty_image_opens skk_dict_open_safe[of 0 empty_image True] by metis

text \<open>At most cap candidates are returned, and each of them resolves to its text: not
  empty, inside the image, without a slash or an annotation, and never a group or a Lisp form.\<close>

lemma skk_lookup_candidates:
  assumes "dict_ok d"
  shows "length (fst (skk_lookup_stats d blk reading cap st)) \<le> cap \<and>
    (\<forall>c \<in> set (fst (skk_lookup_stats d blk reading cap st)). \<exists>t. skk_cand_text d c = Some t \<and> t \<noteq> [] \<and> length t = unat (c_len c) \<and>
       set t \<inter> {0x2F, 0x3B} = {} \<and> hd t \<notin> {0x5B, 0x28})"
  by (rule lookup_candidates_ok[OF assms])

lemma skk_lookup_candidates_witness: "length (fst (skk_lookup_stats small_dict SKK_BLK_NASI (ascii ''a'') 1 undefined)) \<le> 1"
  using skk_lookup_candidates[OF small_dict_ok(1), of SKK_BLK_NASI "ascii ''a''" 1 undefined] by simp

text \<open>A completion is a reading of the dictionary, and it is strictly longer than the
  prefix it completes.\<close>

lemma skk_complete_sound:
  assumes "dict_ok d" "skk_complete d blk prefix want probes = (Inr (Some r), probes')"
  shows "length prefix < length r \<and> take (length prefix) r = prefix \<and>
    (\<exists>k < ix_count (d_blk d blk). line_at d (ix_offs (d_blk d blk) ! k) \<noteq> None \<and> r = entry_reading d (d_blk d blk) k)"
  by (rule complete_sound[OF assms])

lemma skk_complete_sound_witness: "take 1 (ascii ''ab'') = ascii ''a'' \<and> fst (skk_complete small_dict SKK_BLK_NASI (ascii ''a'') 0 0) = Inr (Some (ascii ''ab''))"
proof -
  have e: "skk_complete small_dict SKK_BLK_NASI (ascii ''a'') 0 0 = (Inr (Some (ascii ''ab'')), snd (skk_complete small_dict SKK_BLK_NASI (ascii ''a'') 0 0))"
    by code_simp
  have "length (ascii ''a'') = 1" by code_simp
  then show ?thesis using skk_complete_sound[OF small_dict_ok(1) e] e by (metis fst_conv)
qed

text \<open>Building, sorting and checking an index agree: any selection of the built entries
  that is in the order of its readings passes the check, and the builder reports too little space exactly
  when it left entries out.\<close>

lemma skk_index_build_check:
  assumes "length text < 2 ^ 32" "skk_index_build text cap = (built, n, err)" "set es \<subseteq> set built" "entries_ordered text es"
  shows "skk_index_check text es = None \<and> length built = min cap n \<and> (err = None \<longleftrightarrow> length built = n)"
proof -
  have b: "built = fst (skk_index_build text cap)" "n = fst (snd (skk_index_build text cap))" "err = snd (snd (skk_index_build text cap))"
    using assms(2) by simp_all
  have "\<exists>ln. line_in text 0 (length text) off = Some ln \<and> key = skk_pack (line_reading text ln)" if "(key, off) \<in> set es" for key off
    using built_entry_line[OF assms(1), of key off cap] assms(3) b(1) that by blast
  then have "index_check text 0 (length text) es 0 None = None" using index_check_complete[of es "text" None 0] assms(4) by simp
  moreover have "length built = min cap n" "err = (if n > cap then Some SKK_ERR_NOSPACE else None)"
    using build_loop_count[of "[]" cap 0 "text" "text_lines text 0"] b by (simp_all add: skk_index_build_def Let_def)
  ultimately show ?thesis by (auto simp: skk_index_check_def)
qed

lemma skk_index_build_check_witness:
  "skk_index_check (ascii ''a /b/'') [(skk_pack (ascii ''a''), 0)] = None"
proof -
  have b: "skk_index_build (ascii ''a /b/'') 4 = ([(skk_pack (ascii ''a''), 0)], 1, None)" by code_simp
  have "length (ascii ''a /b/'') = 5" by code_simp
  then have l: "length (ascii ''a /b/'') < 2 ^ 32" by simp
  show ?thesis using skk_index_build_check[OF l b, of "[(skk_pack (ascii ''a''), 0)]"] by simp
qed

end
