(* ===== verification/SkkRomaji.thy ===== *)
theory SkkRomaji
  imports SkkDict
begin

text \<open>
  The romaji table of the Japanese input engine (components/skk_core/skk_kana.c, the romaji to kana
  table and \<open>roma_find\<close>).  An entry is its romaji and its kana, both without the terminating NUL; where
  the code compares or reads past the end of the romaji, it sees the NULs of its \<open>char[5]\<close> field.
\<close>

section \<open>The table\<close>

text \<open>The rows as characters; \<open>ROMA\<close> is their bytes.\<close>

definition ROMA_ROWS :: "(string \<times> u32 list) list" where
  "ROMA_ROWS = [
    (''a'', [0x3042]), (''i'', [0x3044]), (''u'', [0x3046]), (''e'', [0x3048]),
    (''o'', [0x304A]), (''xa'', [0x3041]), (''xi'', [0x3043]), (''xu'', [0x3045]),
    (''xe'', [0x3047]), (''xo'', [0x3049]), (''la'', [0x3041]), (''li'', [0x3043]),
    (''lu'', [0x3045]), (''le'', [0x3047]), (''lo'', [0x3049]), (''ka'', [0x304B]),
    (''ki'', [0x304D]), (''ku'', [0x304F]), (''ke'', [0x3051]), (''ko'', [0x3053]),
    (''kya'', [0x304D, 0x3083]), (''kyi'', [0x304D, 0x3043]), (''kyu'', [0x304D, 0x3085]), (''kye'', [0x304D, 0x3047]),
    (''kyo'', [0x304D, 0x3087]), (''ga'', [0x304C]), (''gi'', [0x304E]), (''gu'', [0x3050]),
    (''ge'', [0x3052]), (''go'', [0x3054]), (''gya'', [0x304E, 0x3083]), (''gyi'', [0x304E, 0x3043]),
    (''gyu'', [0x304E, 0x3085]), (''gye'', [0x304E, 0x3047]), (''gyo'', [0x304E, 0x3087]), (''sa'', [0x3055]),
    (''si'', [0x3057]), (''su'', [0x3059]), (''se'', [0x305B]), (''so'', [0x305D]),
    (''sha'', [0x3057, 0x3083]), (''shi'', [0x3057]), (''shu'', [0x3057, 0x3085]), (''she'', [0x3057, 0x3047]),
    (''sho'', [0x3057, 0x3087]), (''sya'', [0x3057, 0x3083]), (''syi'', [0x3057, 0x3043]), (''syu'', [0x3057, 0x3085]),
    (''sye'', [0x3057, 0x3047]), (''syo'', [0x3057, 0x3087]), (''za'', [0x3056]), (''zi'', [0x3058]),
    (''zu'', [0x305A]), (''ze'', [0x305C]), (''zo'', [0x305E]), (''zya'', [0x3058, 0x3083]),
    (''zyi'', [0x3058, 0x3043]), (''zyu'', [0x3058, 0x3085]), (''zye'', [0x3058, 0x3047]), (''zyo'', [0x3058, 0x3087]),
    (''ja'', [0x3058, 0x3083]), (''ji'', [0x3058]), (''ju'', [0x3058, 0x3085]), (''je'', [0x3058, 0x3047]),
    (''jo'', [0x3058, 0x3087]), (''jya'', [0x3058, 0x3083]), (''jyi'', [0x3058, 0x3043]), (''jyu'', [0x3058, 0x3085]),
    (''jye'', [0x3058, 0x3047]), (''jyo'', [0x3058, 0x3087]), (''ta'', [0x305F]), (''ti'', [0x3061]),
    (''tu'', [0x3064]), (''te'', [0x3066]), (''to'', [0x3068]), (''tsu'', [0x3064]),
    (''tsa'', [0x3064, 0x3041]), (''tsi'', [0x3064, 0x3043]), (''tse'', [0x3064, 0x3047]), (''tso'', [0x3064, 0x3049]),
    (''cha'', [0x3061, 0x3083]), (''chi'', [0x3061]), (''chu'', [0x3061, 0x3085]), (''che'', [0x3061, 0x3047]),
    (''cho'', [0x3061, 0x3087]), (''tya'', [0x3061, 0x3083]), (''tyi'', [0x3061, 0x3043]), (''tyu'', [0x3061, 0x3085]),
    (''tye'', [0x3061, 0x3047]), (''tyo'', [0x3061, 0x3087]), (''cya'', [0x3061, 0x3083]), (''cyi'', [0x3061, 0x3043]),
    (''cyu'', [0x3061, 0x3085]), (''cye'', [0x3061, 0x3047]), (''cyo'', [0x3061, 0x3087]), (''tha'', [0x3066, 0x3083]),
    (''thi'', [0x3066, 0x3043]), (''thu'', [0x3066, 0x3085]), (''the'', [0x3066, 0x3047]), (''tho'', [0x3066, 0x3087]),
    (''twa'', [0x3068, 0x3041]), (''twi'', [0x3068, 0x3043]), (''twu'', [0x3068, 0x3045]), (''twe'', [0x3068, 0x3047]),
    (''two'', [0x3068, 0x3049]), (''da'', [0x3060]), (''di'', [0x3062]), (''du'', [0x3065]),
    (''de'', [0x3067]), (''do'', [0x3069]), (''dya'', [0x3062, 0x3083]), (''dyi'', [0x3062, 0x3043]),
    (''dyu'', [0x3062, 0x3085]), (''dye'', [0x3062, 0x3047]), (''dyo'', [0x3062, 0x3087]), (''dha'', [0x3067, 0x3083]),
    (''dhi'', [0x3067, 0x3043]), (''dhu'', [0x3067, 0x3085]), (''dhe'', [0x3067, 0x3047]), (''dho'', [0x3067, 0x3087]),
    (''dwa'', [0x3069, 0x3041]), (''dwi'', [0x3069, 0x3043]), (''dwu'', [0x3069, 0x3045]), (''dwe'', [0x3069, 0x3047]),
    (''dwo'', [0x3069, 0x3049]), (''na'', [0x306A]), (''ni'', [0x306B]), (''nu'', [0x306C]),
    (''ne'', [0x306D]), (''no'', [0x306E]), (''nya'', [0x306B, 0x3083]), (''nyi'', [0x306B, 0x3043]),
    (''nyu'', [0x306B, 0x3085]), (''nye'', [0x306B, 0x3047]), (''nyo'', [0x306B, 0x3087]), (''n'', [0x3093]),
    (''nn'', [0x3093]), (''n'' @ [CHR 0x27], [0x3093]), (''xn'', [0x3093]), (''nna'', [0x3093, 0x306A]),
    (''nni'', [0x3093, 0x306B]), (''nnu'', [0x3093, 0x306C]), (''nne'', [0x3093, 0x306D]), (''nno'', [0x3093, 0x306E]),
    (''nnya'', [0x3093, 0x306B, 0x3083]), (''nnyi'', [0x3093, 0x306B, 0x3043]), (''nnyu'', [0x3093, 0x306B, 0x3085]), (''nnye'', [0x3093, 0x306B, 0x3047]),
    (''nnyo'', [0x3093, 0x306B, 0x3087]), (''ha'', [0x306F]), (''hi'', [0x3072]), (''hu'', [0x3075]),
    (''he'', [0x3078]), (''ho'', [0x307B]), (''hya'', [0x3072, 0x3083]), (''hyi'', [0x3072, 0x3043]),
    (''hyu'', [0x3072, 0x3085]), (''hye'', [0x3072, 0x3047]), (''hyo'', [0x3072, 0x3087]), (''fa'', [0x3075, 0x3041]),
    (''fi'', [0x3075, 0x3043]), (''fu'', [0x3075]), (''fe'', [0x3075, 0x3047]), (''fo'', [0x3075, 0x3049]),
    (''fya'', [0x3075, 0x3083]), (''fyu'', [0x3075, 0x3085]), (''fyo'', [0x3075, 0x3087]), (''ba'', [0x3070]),
    (''bi'', [0x3073]), (''bu'', [0x3076]), (''be'', [0x3079]), (''bo'', [0x307C]),
    (''bya'', [0x3073, 0x3083]), (''byi'', [0x3073, 0x3043]), (''byu'', [0x3073, 0x3085]), (''bye'', [0x3073, 0x3047]),
    (''byo'', [0x3073, 0x3087]), (''pa'', [0x3071]), (''pi'', [0x3074]), (''pu'', [0x3077]),
    (''pe'', [0x307A]), (''po'', [0x307D]), (''pya'', [0x3074, 0x3083]), (''pyi'', [0x3074, 0x3043]),
    (''pyu'', [0x3074, 0x3085]), (''pye'', [0x3074, 0x3047]), (''pyo'', [0x3074, 0x3087]), (''ma'', [0x307E]),
    (''mi'', [0x307F]), (''mu'', [0x3080]), (''me'', [0x3081]), (''mo'', [0x3082]),
    (''mya'', [0x307F, 0x3083]), (''myi'', [0x307F, 0x3043]), (''myu'', [0x307F, 0x3085]), (''mye'', [0x307F, 0x3047]),
    (''myo'', [0x307F, 0x3087]), (''ya'', [0x3084]), (''yi'', [0x3044]), (''yu'', [0x3086]),
    (''ye'', [0x3044, 0x3047]), (''yo'', [0x3088]), (''xya'', [0x3083]), (''xyu'', [0x3085]),
    (''xyo'', [0x3087]), (''lya'', [0x3083]), (''lyu'', [0x3085]), (''lyo'', [0x3087]),
    (''ra'', [0x3089]), (''ri'', [0x308A]), (''ru'', [0x308B]), (''re'', [0x308C]),
    (''ro'', [0x308D]), (''rya'', [0x308A, 0x3083]), (''ryi'', [0x308A, 0x3043]), (''ryu'', [0x308A, 0x3085]),
    (''rye'', [0x308A, 0x3047]), (''ryo'', [0x308A, 0x3087]), (''wa'', [0x308F]), (''wi'', [0x3046, 0x3043]),
    (''wu'', [0x3046]), (''we'', [0x3046, 0x3047]), (''wo'', [0x3092]), (''wha'', [0x3046, 0x3041]),
    (''whi'', [0x3046, 0x3043]), (''whu'', [0x3046]), (''whe'', [0x3046, 0x3047]), (''who'', [0x3046, 0x3049]),
    (''xwa'', [0x308E]), (''lwa'', [0x308E]), (''va'', [0x3094, 0x3041]), (''vi'', [0x3094, 0x3043]),
    (''vu'', [0x3094]), (''ve'', [0x3094, 0x3047]), (''vo'', [0x3094, 0x3049]), (''vya'', [0x3094, 0x3083]),
    (''vyu'', [0x3094, 0x3085]), (''vyo'', [0x3094, 0x3087]), (''xtu'', [0x3063]), (''ltu'', [0x3063]),
    (''xtsu'', [0x3063]), (''ltsu'', [0x3063]), (''-'', [0x30FC]), (''.'', [0x3002]),
    ('','', [0x3001]), (''['', [0x300C]), ('']'', [0x300D])]"

definition ROMA :: "(bytes \<times> bytes) list" where
  "ROMA = map (\<lambda>(r, k). (ascii r, utf8 k)) ROMA_ROWS"

definition ROMA_N :: nat where "ROMA_N = length ROMA"

definition KANA_SOKUON :: bytes where "KANA_SOKUON = utf8 [0x3063]"

text \<open>The romaji field: padded to its five bytes.\<close>

definition roma_field :: "bytes \<Rightarrow> bytes" where
  "roma_field e = take 5 (e @ replicate 5 0)"

text \<open>The last exact match, and whether an entry strictly extends the argument.\<close>

fun roma_scan :: "(bytes \<times> bytes) list \<Rightarrow> bytes \<Rightarrow> bytes option \<Rightarrow> bool \<Rightarrow> bytes option \<times> bool" where
  "roma_scan [] r hit ext = (hit, ext)"
| "roma_scan ((e, k) # es) r hit ext =
     (if take (length r) (roma_field e) \<noteq> r then roma_scan es r hit ext
      else if roma_field e ! length r = 0 then roma_scan es r (Some k) ext
      else roma_scan es r hit True)"

definition roma_find :: "bytes \<Rightarrow> bytes option \<times> bool" where
  "roma_find r = (if r = [] \<or> length r > 4 then (None, False) else roma_scan ROMA r None False)"

definition is_vowel :: "u8 \<Rightarrow> bool" where
  "is_vowel c \<longleftrightarrow> c = 0x61 \<or> c = 0x69 \<or> c = 0x75 \<or> c = 0x65 \<or> c = 0x6F"

definition is_sokuon :: "u8 \<Rightarrow> nat \<Rightarrow> u8 \<Rightarrow> bool" where
  "is_sokuon pend plen c =
     (if plen \<noteq> 1 then False
      else if c < 0x61 \<or> c > 0x7A then False
      else if is_vowel c \<or> c = 0x6E then False
      else c = pend \<or> (pend = 0x74 \<and> c = 0x63))"

section \<open>Facts of the table\<close>

text \<open>A row: one to four printable romaji characters, one to three kana.\<close>

definition roma_row_ok :: "string \<times> u32 list \<Rightarrow> bool" where
  "roma_row_ok x \<longleftrightarrow> fst x \<noteq> [] \<and> length (fst x) \<le> 4 \<and>
     list_all (\<lambda>c. (0x21 :: int) \<le> of_char c \<and> of_char c \<le> (0x7E :: int)) (fst x) \<and>
     snd x \<noteq> [] \<and> length (snd x) \<le> 3 \<and> list_all (\<lambda>c. c < 0x10000) (snd x)"

lemma ROMA_rows: "list_all roma_row_ok ROMA_ROWS"
  by code_simp

text \<open>Distinctness of many keys: sort by merging and compare neighbours.\<close>

fun merge_ints :: "int list \<Rightarrow> int list \<Rightarrow> int list" where
  "merge_ints [] ys = ys"
| "merge_ints (x # xs) [] = x # xs"
| "merge_ints (x # xs) (y # ys) = (if x \<le> y then x # merge_ints xs (y # ys) else y # merge_ints (x # xs) ys)"

fun msort :: "nat \<Rightarrow> int list \<Rightarrow> int list" where
  "msort 0 xs = xs"
| "msort (Suc d) xs = (let h = length xs div 2 in merge_ints (msort d (take h xs)) (msort d (drop h xs)))"

fun ascending :: "int list \<Rightarrow> bool" where
  "ascending (x # y # zs) = (x < y \<and> ascending (y # zs))"
| "ascending _ = True"

lemma mset_merge: "mset (merge_ints xs ys) = mset xs + mset ys"
  by (induction xs ys rule: merge_ints.induct) auto

lemma mset_msort: "mset (msort d xs) = mset xs"
proof (induction d arbitrary: xs)
  case (Suc d)
  show ?case by (simp add: Let_def mset_merge Suc flip: mset_append)
qed simp

lemma ascending_distinct: "ascending xs \<Longrightarrow> distinct xs \<and> (xs \<noteq> [] \<longrightarrow> (\<forall>x \<in> set (tl xs). hd xs < x))"
  by (induction xs rule: ascending.induct) auto

lemma distinct_by_msort: "ascending (msort d xs) \<Longrightarrow> distinct xs"
  using ascending_distinct mset_eq_imp_distinct_iff[OF mset_msort[of d xs]] by blast

lemma ROMA_rows_distinct: "distinct (map fst ROMA_ROWS)"
proof -
  have "ascending (msort 8 (map (\<lambda>r. foldr (\<lambda>c x. of_char c + 128 * x) (fst r) (0 :: int)) ROMA_ROWS))" by code_simp
  from distinct_by_msort[OF this]
  have "distinct (map (\<lambda>r. foldr (\<lambda>c x. of_char c + 128 * x) r (0 :: int)) (map fst ROMA_ROWS))" by (simp add: comp_def)
  then show ?thesis unfolding distinct_map by blast
qed

section \<open>The search as a lookup\<close>

lemma unat_of_char: "unat (of_char c :: u8) = of_char c"
proof -
  have "unat (of_nat (of_char c) :: u8) = of_char c" by (simp only: unat_of_nat) simp
  then show ?thesis by (simp only: of_nat_of_char)
qed

lemma uint_of_char: "uint (of_char c :: u8) = of_char c"
  by (rule trans[OF uint_nat]) (simp add: unat_of_char of_nat_of_char)

lemma of_char_u8_inj: "(of_char c :: u8) = of_char d \<Longrightarrow> c = d"
proof (rule of_char_eqI)
  assume a: "(of_char c :: u8) = of_char d"
  show "of_char c = (of_char d :: nat)" using arg_cong[OF a, of unat] unfolding unat_of_char .
qed

lemma ROMA_distinct: "distinct (map fst ROMA)"
proof -
  have "inj ascii" unfolding ascii_def by (rule inj_mapI) (auto intro: injI of_char_u8_inj)
  then have "inj_on ascii (set (map fst ROMA_ROWS))" by (rule inj_on_subset) simp
  then have "distinct (map ascii (map fst ROMA_ROWS))" unfolding distinct_map[of ascii] using ROMA_rows_distinct by blast
  moreover have "map fst ROMA = map ascii (map fst ROMA_ROWS)" by (simp add: ROMA_def comp_def case_prod_beta)
  ultimately show ?thesis by simp
qed

lemma ROMA_entry:
  assumes "(e, k) \<in> set ROMA"
  shows "e \<noteq> []" "length e \<le> 4" "\<And>b. b \<in> set e \<Longrightarrow> 0x21 \<le> b \<and> b \<le> 0x7E" "k \<noteq> []" "length k \<le> 9" "0 \<notin> set e"
proof -
  obtain r c where rc: "(r, c) \<in> set ROMA_ROWS" "e = ascii r" "k = utf8 c" using assms by (auto simp: ROMA_def)
  then have ok: "roma_row_ok (r, c)" using ROMA_rows by (auto simp: list_all_iff)
  show "e \<noteq> []" "length e \<le> 4" using ok rc(2) by (auto simp: roma_row_ok_def ascii_def)
  show b: "0x21 \<le> b \<and> b \<le> 0x7E" if "b \<in> set e" for b
  proof -
    from that have "b \<in> of_char ` set r" by (simp add: rc(2) ascii_def)
    then obtain x where x: "x \<in> set r" "b = of_char x" by blast
    then have "(0x21 :: int) \<le> of_char x \<and> of_char x \<le> (0x7E :: int)" using ok by (auto simp: roma_row_ok_def list_all_iff)
    then show ?thesis by (simp add: x(2) word_le_def uint_of_char)
  qed
  then show "0 \<notin> set e" by fastforce
  obtain c1 cs where c: "c = c1 # cs" using ok by (cases c) (auto simp: roma_row_ok_def)
  show "k \<noteq> []" using encode_len_bounds(1)[of c1] by (auto simp: rc(3) c)
  have l3: "length (u8_encode x) \<le> 3" if "x < 0x10000" for x using that by (simp add: encode_length encode_need_def)
  have "length (utf8 c) \<le> 3 * length c" if "\<forall>x \<in> set c. x < 0x10000" for c :: "u32 list"
    using that l3 by (induction c) fastforce+
  then have "length k \<le> 3 * length c" using ok by (auto simp: rc(3) roma_row_ok_def list_all_iff)
  then show "length k \<le> 9" using ok by (simp add: roma_row_ok_def)
qed

text \<open>An entry strictly extends the pending romaji.\<close>

definition roma_extends :: "bytes \<Rightarrow> bool" where
  "roma_extends r \<longleftrightarrow> (\<exists>(e, k) \<in> set ROMA. \<exists>t. t \<noteq> [] \<and> e = r @ t)"

lemma field_prefix:
  assumes "e \<noteq> []" "length e \<le> 4" "0 \<notin> set r" "length r \<le> 4"
  shows "take (length r) (roma_field e) = r \<longleftrightarrow> (\<exists>t. e = r @ t)"
proof
  assume a: "take (length r) (roma_field e) = r"
  have f: "roma_field e = e @ replicate (5 - length e) 0" using assms(2) by (simp add: roma_field_def)
  have le: "length r \<le> length e"
  proof (rule ccontr)
    assume "\<not> length r \<le> length e"
    then have l: "length e < length r" by simp
    have "take (length r) (roma_field e) ! length e = 0" using l f assms(4) by (simp add: nth_append)
    then have "r ! length e = 0" using a by simp
    with l have "0 \<in> set r" using nth_mem by metis
    then show False using assms(3) by simp
  qed
  then have "r = take (length r) e" using a f by simp
  then show "\<exists>t. e = r @ t" by (metis append_take_drop_id)
next
  assume "\<exists>t. e = r @ t"
  then show "take (length r) (roma_field e) = r" using assms(2) by (auto simp: roma_field_def)
qed

lemma roma_scan_spec:
  assumes "0 \<notin> set r" "r \<noteq> []" "length r \<le> 4" "\<And>e k. (e, k) \<in> set es \<Longrightarrow> e \<noteq> [] \<and> length e \<le> 4 \<and> 0 \<notin> set e"
  shows "roma_scan es r hit ext =
    (case map_of (rev es) r of Some k \<Rightarrow> Some k | None \<Rightarrow> hit, ext \<or> (\<exists>(e, k) \<in> set es. \<exists>t. t \<noteq> [] \<and> e = r @ t))"
  using assms(4)
proof (induction es arbitrary: hit ext)
  case Nil
  then show ?case by simp
next
  case (Cons x es)
  obtain e k where x: "x = (e, k)" by (cases x)
  have e: "e \<noteq> []" "length e \<le> 4" "0 \<notin> set e" using Cons.prems[of e k] x by auto
  note IH = Cons.IH[OF Cons.prems[OF list.set_intros(2)]]
  note F = field_prefix[OF e(1,2) assms(1,3)]
  have m: "map_of (rev (x # es)) r = (case map_of (rev es) r of Some y \<Rightarrow> Some y | None \<Rightarrow> if e = r then Some k else None)"
    by (simp add: x map_add_def split: option.split)
  show ?case
  proof (cases "\<exists>t. e = r @ t")
    case False
    then have "e \<noteq> r" by (metis append_Nil2)
    then have "map_of (rev (x # es)) r = map_of (rev es) r" unfolding m by (simp split: option.split)
    then show ?thesis using False F by (simp add: x IH)
  next
    case True
    then obtain t where t: "e = r @ t" by blast
    have z: "roma_field e ! length r = 0 \<longleftrightarrow> t = []"
      using e t by (cases t) (auto simp: roma_field_def nth_append)
    show ?thesis
    proof (cases "t = []")
      case True
      then have "map_of (rev (x # es)) r = (case map_of (rev es) r of Some y \<Rightarrow> Some y | None \<Rightarrow> Some k)" unfolding m using t by simp
      then show ?thesis using F t z True by (simp add: x IH split: option.split)
    next
      case False
      then have "map_of (rev (x # es)) r = map_of (rev es) r" unfolding m using t by (simp split: option.split)
      then show ?thesis using F t z False by (simp add: x IH)
    qed
  qed
qed

lemma map_of_rev_distinct:
  assumes d: "distinct (map fst xs)"
  shows "map_of (rev xs) = map_of xs"
proof
  fix x
  have d2: "distinct (map fst (rev xs))" using d by (simp add: rev_map[symmetric])
  show "map_of (rev xs) x = map_of xs x"
    using map_of_eq_Some_iff[OF d] map_of_eq_Some_iff[OF d2] by (metis not_None_eq set_rev)
qed

lemma roma_find_spec:
  assumes "0 \<notin> set r" "r \<noteq> []" "length r \<le> 4"
  shows "roma_find r = (map_of ROMA r, roma_extends r)"
proof -
  have "roma_find r = roma_scan ROMA r None False" using assms by (simp add: roma_find_def)
  also have "\<dots> = (case map_of (rev ROMA) r of Some k \<Rightarrow> Some k | None \<Rightarrow> None, False \<or> (\<exists>(e, k) \<in> set ROMA. \<exists>t. t \<noteq> [] \<and> e = r @ t))"
    using ROMA_entry by (intro roma_scan_spec assms) auto
  finally show ?thesis by (simp add: map_of_rev_distinct[OF ROMA_distinct] roma_extends_def split: option.split)
qed

lemma roma_extends_bound:
  assumes "roma_extends r"
  shows "length r \<le> 3" "0 \<notin> set r" "\<And>b. b \<in> set r \<Longrightarrow> 0x21 \<le> b \<and> b \<le> 0x7E"
proof -
  obtain e k t where e: "(e, k) \<in> set ROMA" "t \<noteq> []" "e = r @ t" using assms unfolding roma_extends_def by blast
  note R = ROMA_entry[OF e(1)]
  have "length t \<ge> 1" using e(2) by (cases t) auto
  then show "length r \<le> 3" using R(2) e(3) by simp
  show "0 \<notin> set r" using R(6) e(3) by simp
  show "0x21 \<le> b \<and> b \<le> 0x7E" if "b \<in> set r" for b using R(3)[of b] that e(3) by simp
qed

lemma roma_extendsI: "(r @ t, k) \<in> set ROMA \<Longrightarrow> t \<noteq> [] \<Longrightarrow> roma_extends r"
  unfolding roma_extends_def by blast

lemma roma_extends_prefix:
  assumes "roma_extends (r @ t)"
  shows "roma_extends r"
proof -
  obtain k u where "((r @ t) @ u, k) \<in> set ROMA" "u \<noteq> []" using assms unfolding roma_extends_def by blast
  then show ?thesis using roma_extendsI[of r "t @ u" k] by simp
qed

lemma roma_kana:
  assumes "fst (roma_find r) = Some k" "0 \<notin> set r"
  shows "k \<noteq> [] \<and> length k \<le> 9"
proof -
  have r: "r \<noteq> []" "length r \<le> 4" using assms(1) by (auto simp: roma_find_def split: if_splits)
  then have "(r, k) \<in> set ROMA" using assms roma_find_spec[of r] by (simp add: map_of_SomeD)
  then show ?thesis using ROMA_entry(4,5) by blast
qed

end
