(* ===== verification/SkkKana.thy ===== *)
theory SkkKana
  imports SkkRomaji
begin

text \<open>
  The Japanese input engine (components/skk_core/skk_kana.c, from the buffer appends on): the state of
  one input session, the romaji converter, the preedit with its spans, the transitions, the key
  dispatch and the entry points.

  A buffer and its length field are one list; what lies past the length is never read.  The dictionary
  pointer is an option.  Every operation takes the state and, where the code updates the status bits
  through a pointer, the bits, and returns both.  The session pointer of the entry points is valid.
\<close>

section \<open>Constants and types\<close>

definition SKK_ST_CONSUMED :: u32 where "SKK_ST_CONSUMED = 1"
definition SKK_ST_PREEDIT :: u32 where "SKK_ST_PREEDIT = 2"
definition SKK_ST_CANDS :: u32 where "SKK_ST_CANDS = 4"
definition SKK_ST_SEL :: u32 where "SKK_ST_SEL = 8"
definition SKK_ST_COMMIT :: u32 where "SKK_ST_COMMIT = 16"
definition SKK_ST_MODE :: u32 where "SKK_ST_MODE = 32"

definition SKK_ROMA_MAX :: nat where "SKK_ROMA_MAX = 8"
definition SKK_READING_MAX :: nat where "SKK_READING_MAX = 96"
definition SKK_OKURI_MAX :: nat where "SKK_OKURI_MAX = 16"
definition SKK_CAND_MAX :: nat where "SKK_CAND_MAX = 64"
definition SKK_PREEDIT_MAX :: nat where "SKK_PREEDIT_MAX = 192"
definition SKK_COMMIT_MAX :: nat where "SKK_COMMIT_MAX = 256"
definition SKK_SCRATCH_MAX :: nat where "SKK_SCRATCH_MAX = 96"
definition SKK_SPAN_MAX :: nat where "SKK_SPAN_MAX = 5"

datatype skk_mode = SKK_MODE_ASCII | SKK_MODE_KANA | SKK_MODE_KATA | SKK_MODE_MIDASHI | SKK_MODE_OKURI | SKK_MODE_SELECT

datatype skk_span_kind = SKK_SPAN_MARK | SKK_SPAN_READING | SKK_SPAN_CAND | SKK_SPAN_SEP | SKK_SPAN_OKURI | SKK_SPAN_ROMA

record skk_span =
  sp_off :: nat
  sp_len :: nat
  sp_kind :: skk_span_kind

record skk_t =
  k_dict :: "skk_dict option"
  k_enabled :: bool
  k_mode :: skk_mode
  k_base :: skk_mode
  k_roma :: bytes
  k_reading :: bytes
  k_stem :: u8
  k_okuri :: bytes
  k_cand :: "skk_cand list"
  k_sel :: int
  k_comp_len :: nat
  k_comp_i :: u16
  k_preedit :: bytes
  k_span :: "skk_span list"
  k_commit :: bytes
  k_scratch :: bytes
  k_scratch_len :: nat
  k_stats :: skk_stats

section \<open>Fixed-buffer appends\<close>

definition add_reading :: "skk_t \<Rightarrow> bytes \<Rightarrow> bool \<times> skk_t" where
  "add_reading s p =
     (if length p > SKK_READING_MAX - length (k_reading s) then (False, s)
      else (True, s\<lparr>k_reading := k_reading s @ p\<rparr>))"

definition add_okuri :: "skk_t \<Rightarrow> bytes \<Rightarrow> bool \<times> skk_t" where
  "add_okuri s p =
     (if length p > SKK_OKURI_MAX - length (k_okuri s) then (False, s)
      else (True, s\<lparr>k_okuri := k_okuri s @ p\<rparr>))"

text \<open>Back off trailing continuation bytes.\<close>

fun cut_back :: "bytes \<Rightarrow> nat \<Rightarrow> nat" where
  "cut_back p 0 = 0"
| "cut_back p (Suc n) = (if is_cont (p ! Suc n) then cut_back p n else Suc n)"

definition add_commit :: "skk_t \<Rightarrow> bytes \<Rightarrow> bool \<times> skk_t" where
  "add_commit s p =
     (if length (k_commit s) + 1 \<ge> SKK_COMMIT_MAX then (False, s)
      else let room = SKK_COMMIT_MAX - 1 - length (k_commit s) in
        if length p > room then
          (let n = cut_back p room in
           if n = 0 then (False, s) else (True, s\<lparr>k_commit := k_commit s @ take n p\<rparr>))
        else (True, s\<lparr>k_commit := k_commit s @ p\<rparr>))"

section \<open>Emission and the romaji converter\<close>

definition emit :: "skk_t \<Rightarrow> bytes \<Rightarrow> u32 \<Rightarrow> skk_t \<times> u32" where
  "emit s p st =
     (if p = [] then (s, st)
      else if k_mode s = SKK_MODE_MIDASHI then
        (case add_reading s p of (ok, s1) \<Rightarrow> (s1, if ok then st OR SKK_ST_PREEDIT else st))
      else if k_mode s = SKK_MODE_OKURI then
        (case add_okuri s p of (ok, s1) \<Rightarrow> (s1, if ok then st OR SKK_ST_PREEDIT else st))
      else if k_base s = SKK_MODE_KATA then
        (let kb = to_katakana p 32 in
         if kb = [] then (s, st)
         else case add_commit s kb of (ok, s1) \<Rightarrow> (s1, if ok then st OR SKK_ST_COMMIT else st))
      else (case add_commit s p of (ok, s1) \<Rightarrow> (s1, if ok then st OR SKK_ST_COMMIT else st)))"

text \<open>One pass of the converter's loop: \<open>Inl\<close> continues it, \<open>Inr\<close> returns.\<close>

definition roma_pass :: "skk_t \<Rightarrow> u8 \<Rightarrow> u32 \<Rightarrow> (skk_t \<times> u32) + (skk_t \<times> u32)" where
  "roma_pass s c st =
     (let cand = (if length (k_roma s) \<ge> SKK_ROMA_MAX then [] else k_roma s) @ [c] in
      case roma_find cand of (hit, ext) \<Rightarrow>
        if hit \<noteq> None \<and> \<not> ext then
          (case emit (s\<lparr>k_roma := []\<rparr>) (the hit) st of (s1, st1) \<Rightarrow> Inr (s1, st1 OR SKK_ST_PREEDIT))
        else if hit \<noteq> None \<or> ext then Inr (s\<lparr>k_roma := cand\<rparr>, st OR SKK_ST_PREEDIT)
        else if k_roma s \<noteq> [] then
          (let pend = fst (roma_find (k_roma s)); l = last (k_roma s); plen = length (k_roma s); s1 = s\<lparr>k_roma := []\<rparr> in
           Inl (if pend \<noteq> None then emit s1 (the pend) st
                else if is_sokuon l plen c then emit s1 KANA_SOKUON st
                else (s1, st)))
        else (case emit s [c] st of (s1, st1) \<Rightarrow> Inr (s1, st1 OR SKK_ST_PREEDIT)))"

fun roma_loop :: "nat \<Rightarrow> skk_t \<Rightarrow> u8 \<Rightarrow> u32 \<Rightarrow> skk_t \<times> u32" where
  "roma_loop 0 s c st = (s, st)"
| "roma_loop (Suc n) s c st = (case roma_pass s c st of Inl (s1, st1) \<Rightarrow> roma_loop n s1 c st1 | Inr r \<Rightarrow> r)"

definition roma_feed :: "skk_t \<Rightarrow> u8 \<Rightarrow> u32 \<Rightarrow> skk_t \<times> u32" where
  "roma_feed s c st = roma_loop 3 s c st"

definition roma_flush :: "skk_t \<Rightarrow> u32 \<Rightarrow> skk_t \<times> u32" where
  "roma_flush s st =
     (if k_roma s = [] then (s, st)
      else let pend = fst (roma_find (k_roma s)); s1 = s\<lparr>k_roma := []\<rparr>; st1 = st OR SKK_ST_PREEDIT in
        case pend of Some k \<Rightarrow> emit s1 k st1 | None \<Rightarrow> (s1, st1))"

section \<open>Candidates and the preedit\<close>

definition skk_cand_at :: "skk_t \<Rightarrow> int \<Rightarrow> bytes option" where
  "skk_cand_at s i =
     (if i < 0 \<or> i \<ge> int (length (k_cand s)) then None
      else let c = k_cand s ! nat i in
        if c_src c = SKK_SRC_SCRATCH then
          (if unat (c_off c) + unat (c_len c) > k_scratch_len s then None
           else Some (slice (k_scratch s) (unat (c_off c)) (unat (c_len c))))
        else case k_dict s of None \<Rightarrow> None | Some d \<Rightarrow> skk_cand_text d c)"

definition MARK_MIDASHI :: bytes where "MARK_MIDASHI = [0xE2, 0x96, 0xBD]"
definition MARK_SELECT :: bytes where "MARK_SELECT = [0xE2, 0x96, 0xBC]"

definition pre_add :: "skk_t \<Rightarrow> bytes \<Rightarrow> skk_t" where
  "pre_add s p = (if length p > SKK_PREEDIT_MAX - 1 - length (k_preedit s) then s else s\<lparr>k_preedit := k_preedit s @ p\<rparr>)"

definition pre_span :: "skk_t \<Rightarrow> skk_span_kind \<Rightarrow> bytes \<Rightarrow> skk_t" where
  "pre_span s kind p =
     (let off = length (k_preedit s);
          s1 = pre_add s p;
          got = length (k_preedit s1) - off in
      if got = 0 \<or> length (k_span s1) \<ge> SKK_SPAN_MAX then s1
      else s1\<lparr>k_span := k_span s1 @ [\<lparr>sp_off = off, sp_len = got, sp_kind = kind\<rparr>]\<rparr>)"

text \<open>What the preedit is composed of, in order.\<close>

definition preedit_parts :: "skk_t \<Rightarrow> (skk_span_kind \<times> bytes) list" where
  "preedit_parts s =
     (case k_mode s of
        SKK_MODE_MIDASHI \<Rightarrow> [(SKK_SPAN_MARK, MARK_MIDASHI), (SKK_SPAN_READING, k_reading s)]
      | SKK_MODE_OKURI \<Rightarrow>
          [(SKK_SPAN_MARK, MARK_MIDASHI), (SKK_SPAN_READING, k_reading s), (SKK_SPAN_SEP, [0x2A]), (SKK_SPAN_OKURI, k_okuri s)]
      | SKK_MODE_SELECT \<Rightarrow>
          [(SKK_SPAN_MARK, MARK_SELECT),
           (case skk_cand_at s (k_sel s) of Some c \<Rightarrow> (SKK_SPAN_CAND, c) | None \<Rightarrow> (SKK_SPAN_READING, k_reading s)),
           (SKK_SPAN_OKURI, k_okuri s)]
      | _ \<Rightarrow> []) @ [(SKK_SPAN_ROMA, k_roma s)]"

definition build_preedit :: "skk_t \<Rightarrow> skk_t" where
  "build_preedit s = foldl (\<lambda>t (kind, p). pre_span t kind p) (s\<lparr>k_preedit := [], k_span := []\<rparr>) (preedit_parts s)"

definition skk_preedit_spans :: "skk_t \<Rightarrow> skk_span list" where
  "skk_preedit_spans s = k_span s"

section \<open>State transitions\<close>

definition clear_span :: "skk_t \<Rightarrow> skk_t" where
  "clear_span s = s\<lparr>k_reading := [], k_okuri := [], k_stem := 0, k_roma := [], k_cand := [], k_sel := -1, k_scratch_len := 0\<rparr>"

definition span_cancel :: "skk_t \<Rightarrow> u32 \<Rightarrow> skk_t \<times> u32" where
  "span_cancel s st = ((clear_span s)\<lparr>k_mode := k_base s\<rparr>, st OR (SKK_ST_PREEDIT OR SKK_ST_MODE))"

definition span_done :: "skk_t \<Rightarrow> u32 \<Rightarrow> skk_t \<times> u32" where
  "span_done s st = ((clear_span s)\<lparr>k_mode := k_base s\<rparr>, st OR (SKK_ST_PREEDIT OR SKK_ST_MODE))"

definition span_commit :: "skk_t \<Rightarrow> u32 \<Rightarrow> nat \<Rightarrow> skk_t \<times> u32" where
  "span_commit s st before =
     (if length (k_commit s) > before then
        span_done (s\<lparr>k_stats := (k_stats s)\<lparr>st_commits := st_commits (k_stats s) + 1\<rparr>\<rparr>) (st OR SKK_ST_COMMIT)
      else span_done s st)"

definition commit_reading :: "skk_t \<Rightarrow> u32 \<Rightarrow> skk_t \<times> u32" where
  "commit_reading s st =
     (case add_commit s (k_reading s) of (ok, s1) \<Rightarrow>
        span_commit (if ok then snd (add_commit s1 (k_okuri s1)) else s1) st (length (k_commit s)))"

definition commit_katakana :: "skk_t \<Rightarrow> u32 \<Rightarrow> skk_t \<times> u32" where
  "commit_katakana s st =
     (let k = to_katakana (k_reading s) SKK_SCRATCH_MAX; s0 = s\<lparr>k_scratch := k\<rparr> in
      if k = [] then span_commit s0 st (length (k_commit s))
      else case add_commit s0 k of (ok, s1) \<Rightarrow>
        span_commit (if ok then snd (add_commit s1 (k_okuri s1)) else s1) st (length (k_commit s)))"

definition span_key :: "skk_t \<Rightarrow> bytes \<times> skk_blk" where
  "span_key s = (if k_stem s \<noteq> 0 then (k_reading s @ [k_stem s], SKK_BLK_ARI) else (k_reading s, SKK_BLK_NASI))"

definition commit_selection :: "skk_t \<Rightarrow> u32 \<Rightarrow> skk_t \<times> u32" where
  "commit_selection s st =
     (case skk_cand_at s (k_sel s) of
        None \<Rightarrow> span_commit s st (length (k_commit s))
      | Some c \<Rightarrow>
          (case add_commit s c of (ok, s1) \<Rightarrow>
             span_commit (if ok then snd (add_commit s1 (k_okuri s1)) else s1) st (length (k_commit s))))"

definition convert :: "skk_t \<Rightarrow> u32 \<Rightarrow> skk_t \<times> u32" where
  "convert s st =
     (case k_dict s of
        None \<Rightarrow> (s, st)
      | Some d \<Rightarrow>
          if k_reading s = [] then (s, st)
          else case span_key s of (key, blk) \<Rightarrow>
            (case skk_lookup_stats d blk key SKK_CAND_MAX (k_stats s) of (cs, stats) \<Rightarrow>
               if cs = [] then (s\<lparr>k_stats := stats\<rparr>, st)
               else (s\<lparr>k_stats := stats, k_cand := cs, k_sel := 0, k_mode := SKK_MODE_SELECT\<rparr>,
                     st OR (SKK_ST_CANDS OR SKK_ST_PREEDIT OR SKK_ST_MODE))))"

definition okuri_maybe_convert :: "skk_t \<Rightarrow> u32 \<Rightarrow> skk_t \<times> u32" where
  "okuri_maybe_convert s st =
     (if k_mode s = SKK_MODE_OKURI \<and> k_okuri s \<noteq> [] \<and> k_roma s = [] then convert s st else (s, st))"

text \<open>The search of a completion with its probes counted; \<open>None\<close> is every result but 1.\<close>

definition complete_at :: "skk_t \<Rightarrow> skk_dict \<Rightarrow> nat \<Rightarrow> bytes option \<times> skk_t" where
  "complete_at s d want =
     (case skk_complete d SKK_BLK_NASI (take (k_comp_len s) (k_reading s)) want (st_probes (k_stats s)) of (r, probes) \<Rightarrow>
        (case r of Inr (Some x) \<Rightarrow> Some x | _ \<Rightarrow> None, s\<lparr>k_stats := (k_stats s)\<lparr>st_probes := probes\<rparr>\<rparr>))"

definition complete_take :: "skk_t \<Rightarrow> bytes \<Rightarrow> u32 \<Rightarrow> skk_t \<times> u32" where
  "complete_take s r st =
     (if r = [] \<or> length r > SKK_READING_MAX then (s, st) else (s\<lparr>k_reading := r\<rparr>, st OR SKK_ST_PREEDIT))"

definition span_complete :: "skk_t \<Rightarrow> u32 \<Rightarrow> skk_t \<times> u32" where
  "span_complete s0 st0 =
     (let st = st0 OR SKK_ST_CONSUMED in
      case k_dict s0 of
        None \<Rightarrow> (s0, st)
      | Some d \<Rightarrow>
          if k_mode s0 \<noteq> SKK_MODE_MIDASHI then (s0, st)
          else case roma_flush s0 st of (s1, st1) \<Rightarrow>
            if k_comp_len s1 = 0 \<and> k_reading s1 = [] then (s1, st1)
            else
              let s2 = (if k_comp_len s1 = 0 then s1\<lparr>k_comp_len := length (k_reading s1), k_comp_i := 0\<rparr>
                        else s1\<lparr>k_comp_i := k_comp_i s1 + 1\<rparr>) in
              (case complete_at s2 d (unat (k_comp_i s2)) of
                 (Some r, s3) \<Rightarrow> complete_take s3 r st1
               | (None, s3) \<Rightarrow>
                   if k_comp_i s3 = 0 then (s3\<lparr>k_comp_len := 0\<rparr>, st1)
                   else let s4 = s3\<lparr>k_comp_i := 0\<rparr> in
                     (case complete_at s4 d 0 of
                        (Some r, s5) \<Rightarrow> complete_take s5 r st1
                      | (None, s5) \<Rightarrow> (s5, st1))))"

definition span_backspace :: "skk_t \<Rightarrow> u32 \<Rightarrow> skk_t \<times> u32" where
  "span_backspace s st0 =
     (let st = st0 OR SKK_ST_PREEDIT in
      if k_roma s \<noteq> [] then (s\<lparr>k_roma := butlast (k_roma s)\<rparr>, st)
      else if k_mode s = SKK_MODE_OKURI then
        (let o' = (if k_okuri s \<noteq> [] then take (skk_utf8_prev (k_okuri s) (length (k_okuri s))) (k_okuri s) else []) in
         if o' \<noteq> [] then (s\<lparr>k_okuri := o'\<rparr>, st)
         else (s\<lparr>k_okuri := [], k_stem := 0, k_mode := SKK_MODE_MIDASHI\<rparr>, st OR SKK_ST_MODE))
      else
        (let r' = (if k_reading s \<noteq> [] then take (skk_utf8_prev (k_reading s) (length (k_reading s))) (k_reading s) else []) in
         if r' \<noteq> [] then (s\<lparr>k_reading := r'\<rparr>, st) else span_cancel (s\<lparr>k_reading := []\<rparr>) st))"

definition okuri_start :: "skk_t \<Rightarrow> u8 \<Rightarrow> u32 \<Rightarrow> skk_t \<times> u32" where
  "okuri_start s lower st =
     (case (if k_roma s \<noteq> [] \<and> fst (roma_find (k_roma s)) \<noteq> None then roma_flush s st else (s, st)) of (s1, st1) \<Rightarrow>
      (case roma_feed (s1\<lparr>k_stem := (if k_roma s1 \<noteq> [] then hd (k_roma s1) else lower), k_okuri := [], k_mode := SKK_MODE_OKURI\<rparr>)
              lower (st1 OR (SKK_ST_PREEDIT OR SKK_ST_MODE)) of (s2, st2) \<Rightarrow>
       okuri_maybe_convert s2 st2))"

section \<open>Key dispatch\<close>

datatype tok_t = TOK_NONE | TOK_PREV | TOK_NEXT | TOK_ESC | TOK_DEL | TOK_SWALLOW | TOK_OTHER

definition token_of :: "bytes \<Rightarrow> tok_t" where
  "token_of p =
     (if p = ascii ''left'' then TOK_PREV else if p = ascii ''up'' then TOK_PREV
      else if p = ascii ''right'' then TOK_NEXT else if p = ascii ''down'' then TOK_NEXT
      else if p = ascii ''esc'' then TOK_ESC else if p = ascii ''del'' then TOK_DEL
      else if p = ascii ''home'' then TOK_SWALLOW else if p = ascii ''end'' then TOK_SWALLOW
      else if p = ascii ''pgup'' then TOK_SWALLOW else if p = ascii ''pgdn'' then TOK_SWALLOW
      else TOK_OTHER)"

definition sel_move :: "skk_t \<Rightarrow> int \<Rightarrow> u32 \<Rightarrow> skk_t \<times> u32" where
  "sel_move s delta st =
     (let n = k_sel s + delta in
      if n < 0 then
        (s\<lparr>k_cand := [], k_sel := -1, k_mode := (if k_stem s \<noteq> 0 then SKK_MODE_OKURI else SKK_MODE_MIDASHI)\<rparr>,
         st OR (SKK_ST_PREEDIT OR SKK_ST_MODE))
      else if n \<ge> int (length (k_cand s)) then (s, st OR SKK_ST_CONSUMED)
      else (s\<lparr>k_sel := n\<rparr>, st OR (SKK_ST_SEL OR SKK_ST_PREEDIT)))"

text \<open>
  What the first part of \<open>dispatch\<close> finds out about a key: not for the engine, a broken character, or
  the ASCII byte (0 if there is none), the length of the leading character and the token.
\<close>

datatype key_head = HEAD_PASS | HEAD_BROKEN | HEAD u8 nat tok_t

definition key_head :: "bytes \<Rightarrow> key_head" where
  "key_head key =
     (let k0 = hd key in
      if k0 = 0 then
        (if length key < 2 then HEAD_PASS
         else let tok = token_of (tl key) in if tok = TOK_OTHER then HEAD_PASS else HEAD 0 1 tok)
      else if k0 = 0x1B \<and> length key > 1 then HEAD_PASS
      else if k0 = 0x1B then HEAD 0 1 TOK_ESC
      else if k0 < 0x80 then HEAD k0 1 TOK_NONE
      else if skk_utf8_decode key 0 = (0xFFFD, 1) then HEAD_BROKEN
      else HEAD 0 (snd (skk_utf8_decode key 0)) TOK_NONE)"

definition dispatch_kana :: "skk_t \<Rightarrow> bytes \<Rightarrow> u8 \<Rightarrow> nat \<Rightarrow> tok_t \<Rightarrow> u32 \<Rightarrow> skk_t \<times> u32" where
  "dispatch_kana s key c seq tok st =
     (if tok \<noteq> TOK_NONE then
        (if k_roma s = [] then (s, st) else (s\<lparr>k_roma := []\<rparr>, st OR SKK_ST_PREEDIT))
      else if c = 0x07 \<or> c = 0x08 then
        (if k_roma s = [] then (s, st)
         else (s\<lparr>k_roma := (if c = 0x08 then butlast (k_roma s) else [])\<rparr>, st OR SKK_ST_PREEDIT))
      else if c = 0x0A \<or> c = 0x20 then (if k_roma s = [] then (s, st) else roma_flush s st)
      else if c = 0x6C then
        (case roma_flush s st of (s1, st1) \<Rightarrow> (s1\<lparr>k_mode := SKK_MODE_ASCII\<rparr>, st1 OR (SKK_ST_PREEDIT OR SKK_ST_MODE)))
      else if c = 0x71 then
        (case roma_flush s st of (s1, st1) \<Rightarrow>
           let b = (if k_base s1 = SKK_MODE_KATA then SKK_MODE_KANA else SKK_MODE_KATA) in
           (s1\<lparr>k_base := b, k_mode := b\<rparr>, st1 OR (SKK_ST_PREEDIT OR SKK_ST_MODE)))
      else if 0x41 \<le> c \<and> c \<le> 0x5A then
        (let s1 = (clear_span (s\<lparr>k_roma := []\<rparr>))\<lparr>k_mode := SKK_MODE_MIDASHI\<rparr>; st1 = st OR (SKK_ST_PREEDIT OR SKK_ST_MODE) in
         if c \<noteq> 0x51 then roma_feed s1 (c - 0x41 + 0x61) st1 else (s1, st1))
      else if 0x21 \<le> c \<and> c \<le> 0x7E then roma_feed s c st
      else if c = 0 \<and> hd key \<ge> 0x80 \<and> k_roma s \<noteq> [] then
        (case roma_flush s st of (s1, st1) \<Rightarrow>
          (case emit s1 (take seq key) st1 of (s2, st2) \<Rightarrow> (s2, st2 OR SKK_ST_PREEDIT)))
      else (s, st))"

definition dispatch_span :: "skk_t \<Rightarrow> bytes \<Rightarrow> u8 \<Rightarrow> nat \<Rightarrow> tok_t \<Rightarrow> u32 \<Rightarrow> skk_t \<times> u32" where
  "dispatch_span s key c seq tok st =
     (if tok \<noteq> TOK_NONE then
        (case (if tok = TOK_ESC then span_cancel s st else (s, st)) of (s1, st1) \<Rightarrow> (s1, st1 OR SKK_ST_CONSUMED))
      else if c = 0x07 then span_cancel s st
      else if c = 0x08 \<or> c = 0x7F then span_backspace s st
      else if c = 0x0A then (case roma_flush s st of (s1, st1) \<Rightarrow> commit_reading s1 st1)
      else if c = 0x09 then span_complete s st
      else if c = 0x20 then
        (case roma_flush s st of (s1, st1) \<Rightarrow>
          (case (if k_reading s1 = [] then span_cancel s1 st1 else convert s1 st1) of (s2, st2) \<Rightarrow> (s2, st2 OR SKK_ST_CONSUMED)))
      else if c = 0x71 \<and> k_mode s = SKK_MODE_MIDASHI then (case roma_flush s st of (s1, st1) \<Rightarrow> commit_katakana s1 st1)
      else if 0x41 \<le> c \<and> c \<le> 0x5A then
        (let lower = c - 0x41 + 0x61 in
         if k_mode s = SKK_MODE_MIDASHI then
           (if k_reading s = [] then roma_feed s lower st else okuri_start s lower st)
         else (case roma_feed s lower st of (s1, st1) \<Rightarrow> okuri_maybe_convert s1 st1))
      else if 0x21 \<le> c \<and> c \<le> 0x7E then (case roma_feed s c st of (s1, st1) \<Rightarrow> okuri_maybe_convert s1 st1)
      else if c = 0 \<and> hd key \<ge> 0x80 then
        (case roma_flush s st of (s1, st1) \<Rightarrow>
         (case emit s1 (take seq key) st1 of (s2, st2) \<Rightarrow>
         (case okuri_maybe_convert s2 st2 of (s3, st3) \<Rightarrow> (s3, st3 OR SKK_ST_PREEDIT))))
      else (s, st OR SKK_ST_CONSUMED))"

text \<open>In the selection, \<open>True\<close> asks for the same key again.\<close>

definition dispatch_select :: "skk_t \<Rightarrow> bytes \<Rightarrow> u8 \<Rightarrow> nat \<Rightarrow> tok_t \<Rightarrow> u32 \<Rightarrow> bool \<times> skk_t \<times> u32" where
  "dispatch_select s key c seq tok st =
     (if tok = TOK_PREV then (False, sel_move s (-1) st)
      else if tok = TOK_NEXT then (False, sel_move s 1 st)
      else if tok = TOK_ESC then (False, sel_move s (-1 - k_sel s) st)
      else if tok = TOK_DEL \<or> tok = TOK_SWALLOW then (False, s, st OR SKK_ST_CONSUMED)
      else if c = 0x20 then (False, sel_move s 1 st)
      else if c = 0x78 then (False, sel_move s (-1) st)
      else if c = 0x07 \<or> c = 0x08 then (False, sel_move s (-1 - k_sel s) st)
      else if c = 0x0A then (False, commit_selection s st)
      else if c = 0 \<and> hd key \<ge> 0x80 then
        (case commit_selection s st of (s1, st1) \<Rightarrow>
         (case add_commit s1 (take seq key) of (ok, s2) \<Rightarrow> (False, s2, if ok then st1 OR SKK_ST_COMMIT else st1)))
      else (True, commit_selection s st))"

definition dispatch :: "skk_t \<Rightarrow> bytes \<Rightarrow> u32 \<Rightarrow> bool \<times> skk_t \<times> u32" where
  "dispatch s key st =
     (case key_head key of
        HEAD_PASS \<Rightarrow> (False, s, st)
      | HEAD_BROKEN \<Rightarrow>
          (False, s, if k_mode s \<in> {SKK_MODE_ASCII, SKK_MODE_KANA, SKK_MODE_KATA} then st else st OR SKK_ST_CONSUMED)
      | HEAD c seq tok \<Rightarrow>
          (case k_mode s of
             SKK_MODE_ASCII \<Rightarrow> (False, s, st)
           | SKK_MODE_KANA \<Rightarrow> (False, dispatch_kana s key c seq tok st)
           | SKK_MODE_KATA \<Rightarrow> (False, dispatch_kana s key c seq tok st)
           | SKK_MODE_MIDASHI \<Rightarrow> (False, dispatch_span s key c seq tok st)
           | SKK_MODE_OKURI \<Rightarrow> (False, dispatch_span s key c seq tok st)
           | SKK_MODE_SELECT \<Rightarrow> dispatch_select s key c seq tok st))"

section \<open>Entry points\<close>

definition stats_zero :: skk_stats where
  "stats_zero = \<lparr>st_keys = 0, st_consumed = 0, st_lookups = 0, st_probes = 0, st_fullcmp = 0, st_cands = 0, st_dropped = 0, st_commits = 0\<rparr>"

definition skk_init :: skk_t where
  "skk_init = \<lparr>k_dict = None, k_enabled = False, k_mode = SKK_MODE_KANA, k_base = SKK_MODE_KANA, k_roma = [], k_reading = [],
     k_stem = 0, k_okuri = [], k_cand = [], k_sel = -1, k_comp_len = 0, k_comp_i = 0, k_preedit = [], k_span = [], k_commit = [],
     k_scratch = [], k_scratch_len = 0, k_stats = stats_zero\<rparr>"

definition skk_attach :: "skk_t \<Rightarrow> skk_dict option \<Rightarrow> skk_t" where
  "skk_attach s d = s\<lparr>k_dict := d\<rparr>"

definition skk_reset :: "skk_t \<Rightarrow> skk_t" where
  "skk_reset s =
     (let s1 = (clear_span s)\<lparr>k_commit := []\<rparr> in
      build_preedit (if k_mode s1 \<noteq> SKK_MODE_ASCII then s1\<lparr>k_mode := k_base s1\<rparr> else s1))"

definition skk_enable :: "skk_t \<Rightarrow> bool \<Rightarrow> skk_t" where
  "skk_enable s on = skk_reset (s\<lparr>k_enabled := on\<rparr>)"

definition skk_set_mode :: "skk_t \<Rightarrow> skk_mode \<Rightarrow> skk_err + skk_t" where
  "skk_set_mode s m =
     (if m \<noteq> SKK_MODE_ASCII \<and> m \<noteq> SKK_MODE_KANA \<and> m \<noteq> SKK_MODE_KATA then Inl SKK_ERR_ARG
      else let s1 = (clear_span s)\<lparr>k_commit := [], k_mode := m\<rparr> in
        Inr (build_preedit (if m \<noteq> SKK_MODE_ASCII then s1\<lparr>k_base := m\<rparr> else s1)))"

text \<open>\<open>skk_key\<close>; a \<open>NULL\<close> key is the empty one, both are passed through.\<close>

definition key_start :: "skk_t \<Rightarrow> skk_t" where
  "key_start s = s\<lparr>k_stats := (k_stats s)\<lparr>st_keys := st_keys (k_stats s) + 1\<rparr>, k_commit := []\<rparr>"

definition key_comp :: "skk_t \<Rightarrow> bytes \<Rightarrow> skk_t" where
  "key_comp s key = (if key = [0x09] then s else s\<lparr>k_comp_len := 0, k_comp_i := 0\<rparr>)"

definition key_twice :: "skk_t \<Rightarrow> bytes \<Rightarrow> skk_t \<times> u32" where
  "key_twice s key =
     (case dispatch s key 0 of (again, s1, st1) \<Rightarrow> if again then snd (dispatch s1 key st1) else (s1, st1))"

definition skk_key :: "skk_t \<Rightarrow> bytes \<Rightarrow> skk_t \<times> u32" where
  "skk_key s0 key =
     (let s = key_start s0 in
      if \<not> k_enabled s \<or> key = [] then (s, 0)
      else case key_twice (key_comp s key) key of (s1, st) \<Rightarrow>
        if st = 0 then (s1, 0)
        else (build_preedit (s1\<lparr>k_stats := (k_stats s1)\<lparr>st_consumed := st_consumed (k_stats s1) + 1\<rparr>\<rparr>), st OR SKK_ST_CONSUMED))"

definition skk_stats_reset :: "skk_t \<Rightarrow> skk_t" where
  "skk_stats_reset s = s\<lparr>k_stats := stats_zero\<rparr>"

definition skk_enabled :: "skk_t \<Rightarrow> bool" where "skk_enabled s = k_enabled s"
definition skk_mode_of :: "skk_t \<Rightarrow> skk_mode" where "skk_mode_of s = k_mode s"
definition skk_preedit :: "skk_t \<Rightarrow> bytes" where "skk_preedit s = k_preedit s"
definition skk_commit :: "skk_t \<Rightarrow> bytes" where "skk_commit s = k_commit s"
definition skk_cand_count :: "skk_t \<Rightarrow> nat" where "skk_cand_count s = length (k_cand s)"
definition skk_sel_of :: "skk_t \<Rightarrow> int" where "skk_sel_of s = k_sel s"
definition skk_stats_of :: "skk_t \<Rightarrow> skk_stats" where "skk_stats_of s = k_stats s"

section \<open>Status bits\<close>

lemmas st_defs = SKK_ST_CONSUMED_def SKK_ST_PREEDIT_def SKK_ST_CANDS_def SKK_ST_SEL_def SKK_ST_COMMIT_def SKK_ST_MODE_def

lemma st_nonzero [simp]: "SKK_ST_CONSUMED \<noteq> 0" "SKK_ST_PREEDIT \<noteq> 0" "SKK_ST_CANDS \<noteq> 0" "SKK_ST_SEL \<noteq> 0" "SKK_ST_COMMIT \<noteq> 0"
    "SKK_ST_MODE \<noteq> 0"
  by (simp_all add: st_defs)

lemma or_zero [simp]: "(a :: u32) OR b = 0 \<longleftrightarrow> a = 0 \<and> b = 0"
  by (rule or_eq_0_iff)

text \<open>The candidate bit.\<close>

definition cands_bit :: "u32 \<Rightarrow> bool" where "cands_bit st \<longleftrightarrow> st AND SKK_ST_CANDS \<noteq> 0"

lemma cands_bit_iff: "cands_bit st \<longleftrightarrow> bit st 2"
proof -
  have "SKK_ST_CANDS = push_bit 2 1" by (simp add: SKK_ST_CANDS_def)
  then show ?thesis by (simp add: cands_bit_def bit_iff_and_push_bit_not_eq_0)
qed

lemma cands_bit_or [simp]: "cands_bit (a OR b) \<longleftrightarrow> cands_bit a \<or> cands_bit b"
  by (simp add: cands_bit_iff bit_or_iff)

lemma cands_bit_flags [simp]: "\<not> cands_bit 0" "\<not> cands_bit SKK_ST_CONSUMED" "\<not> cands_bit SKK_ST_PREEDIT" "cands_bit SKK_ST_CANDS"
    "\<not> cands_bit SKK_ST_SEL" "\<not> cands_bit SKK_ST_COMMIT" "\<not> cands_bit SKK_ST_MODE"
  by (simp_all add: cands_bit_def st_defs)

text \<open>Bits are only added, and not the candidate bit.\<close>

definition quiet :: "u32 \<Rightarrow> u32 \<Rightarrow> bool" where
  "quiet st st' \<longleftrightarrow> (st' = 0 \<longrightarrow> st = 0) \<and> (cands_bit st' \<longleftrightarrow> cands_bit st)"

lemma quiet_refl [simp]: "quiet st st" by (simp add: quiet_def)

lemma quiet_trans: "quiet a b \<Longrightarrow> quiet b c \<Longrightarrow> quiet a c" by (simp add: quiet_def)

lemma quiet_or [simp]: "\<not> cands_bit f \<Longrightarrow> quiet st (st OR f)" by (simp add: quiet_def)

section \<open>Appends only grow the buffers\<close>

lemma cut_back_le: "cut_back p n \<le> n"
  by (induction n) auto

lemma add_commit_spec:
  assumes "add_commit s p = (ok, t)" "length (k_commit s) \<le> 255"
  shows "\<exists>z. t = s\<lparr>k_commit := k_commit s @ z\<rparr> \<and> length (k_commit s @ z) \<le> 255 \<and> (\<not> ok \<longrightarrow> z = []) \<and> (length p + length (k_commit s) \<le> 254 \<longrightarrow> ok \<and> z = p)"
proof (cases "length (k_commit s) + 1 \<ge> SKK_COMMIT_MAX")
  case True
  then show ?thesis using assms by (intro exI[of _ "[]"]) (auto simp: add_commit_def SKK_COMMIT_MAX_def)
next
  case False
  let ?room = "SKK_COMMIT_MAX - 1 - length (k_commit s)"
  let ?n = "cut_back p ?room"
  have room: "?room = 255 - length (k_commit s)" by (simp add: SKK_COMMIT_MAX_def)
  have C: "(ok, t) = (if length p > ?room then if ?n = 0 then (False, s) else (True, s\<lparr>k_commit := k_commit s @ take ?n p\<rparr>)
      else (True, s\<lparr>k_commit := k_commit s @ p\<rparr>))"
    using assms(1) unfolding add_commit_def if_not_P[OF False] Let_def by simp
  have n: "?n \<le> ?room" by (rule cut_back_le)
  show ?thesis
  proof (cases "length p > ?room")
    case True
    then show ?thesis using C n assms(2) room
      by (cases "?n = 0"; intro exI[of _ "take ?n p"]) (auto simp: min_def)
  next
    case False
    then show ?thesis using C assms(2) room by (intro exI[of _ p]) auto
  qed
qed

definition roma_ok :: "bytes \<Rightarrow> bool" where "roma_ok r \<longleftrightarrow> r = [] \<or> roma_extends r"

text \<open>
  What the converter may do to a session: set the pending romaji and append to the buffer that its mode
  selects.
\<close>

definition fed :: "skk_t \<Rightarrow> skk_t \<Rightarrow> bool" where
  "fed s t \<longleftrightarrow> (\<exists>r x y z. t = s\<lparr>k_roma := r, k_reading := k_reading s @ x, k_okuri := k_okuri s @ y, k_commit := k_commit s @ z\<rparr> \<and>
     roma_ok r \<and> (k_mode s \<noteq> SKK_MODE_MIDASHI \<longrightarrow> x = []) \<and> (k_mode s \<noteq> SKK_MODE_OKURI \<longrightarrow> y = []) \<and>
     (length (k_reading s) \<le> 96 \<longrightarrow> length (k_reading s @ x) \<le> 96) \<and> (length (k_okuri s) \<le> 16 \<longrightarrow> length (k_okuri s @ y) \<le> 16) \<and>
     (length (k_commit s) \<le> 255 \<longrightarrow> length (k_commit s @ z) \<le> 255))"

lemma fed_refl: "roma_ok (k_roma s) \<Longrightarrow> fed s s"
  unfolding fed_def by (intro exI[of _ "k_roma s"] exI[of _ "[]"]) simp

lemma fed_trans:
  assumes "fed s t" "fed t u"
  shows "fed s u"
proof -
  obtain r x y z where t: "t = s\<lparr>k_roma := r, k_reading := k_reading s @ x, k_okuri := k_okuri s @ y, k_commit := k_commit s @ z\<rparr>"
      "k_mode s \<noteq> SKK_MODE_MIDASHI \<longrightarrow> x = []" "k_mode s \<noteq> SKK_MODE_OKURI \<longrightarrow> y = []"
      "length (k_reading s) \<le> 96 \<longrightarrow> length (k_reading s @ x) \<le> 96" "length (k_okuri s) \<le> 16 \<longrightarrow> length (k_okuri s @ y) \<le> 16"
      "length (k_commit s) \<le> 255 \<longrightarrow> length (k_commit s @ z) \<le> 255"
    using assms(1) unfolding fed_def by blast
  obtain r' x' y' z' where u: "u = t\<lparr>k_roma := r', k_reading := k_reading t @ x', k_okuri := k_okuri t @ y', k_commit := k_commit t @ z'\<rparr>"
      "roma_ok r'" "k_mode t \<noteq> SKK_MODE_MIDASHI \<longrightarrow> x' = []" "k_mode t \<noteq> SKK_MODE_OKURI \<longrightarrow> y' = []"
      "length (k_reading t) \<le> 96 \<longrightarrow> length (k_reading t @ x') \<le> 96" "length (k_okuri t) \<le> 16 \<longrightarrow> length (k_okuri t @ y') \<le> 16"
      "length (k_commit t) \<le> 255 \<longrightarrow> length (k_commit t @ z') \<le> 255"
    using assms(2) unfolding fed_def by blast
  show ?thesis unfolding fed_def
    by (rule exI[of _ r'], rule exI[of _ "x @ x'"], rule exI[of _ "y @ y'"], rule exI[of _ "z @ z'"]) (use t u in auto)
qed

lemma emit_fed:
  assumes "emit s p st = (t, st')" "roma_ok (k_roma s)" "length (k_commit s) \<le> 255"
  shows "fed s t \<and> k_roma t = k_roma s \<and> quiet st st' \<and> (st' = 0 \<longrightarrow> t = s)"
proof -
  have F: "fed s (s\<lparr>k_commit := k_commit s @ z\<rparr>)" if "length (k_commit s @ z) \<le> 255" for z
    unfolding fed_def by (rule exI[of _ "k_roma s"], rule exI[of _ "[]"], rule exI[of _ "[]"], rule exI[of _ z]) (use that assms(2) in simp)
  have C: "fed s u \<and> k_roma u = k_roma s \<and> (\<not> ok \<longrightarrow> u = s)" if "add_commit s q = (ok, u)" for q ok u
    using add_commit_spec[OF that assms(3)] F by auto
  consider "p = []" | "p \<noteq> []" "k_mode s = SKK_MODE_MIDASHI" | "p \<noteq> []" "k_mode s = SKK_MODE_OKURI"
    | "p \<noteq> []" "k_mode s \<noteq> SKK_MODE_MIDASHI" "k_mode s \<noteq> SKK_MODE_OKURI" by blast
  then show ?thesis
  proof cases
    case 1
    then show ?thesis using assms fed_refl by (simp add: emit_def)
  next
    case 2
    have "fed s (s\<lparr>k_reading := k_reading s @ p\<rparr>)" if "\<not> 96 - length (k_reading s) < length p"
      unfolding fed_def by (rule exI[of _ "k_roma s"], rule exI[of _ p], rule exI[of _ "[]"], rule exI[of _ "[]"]) (use that assms(2) 2 in auto)
    then show ?thesis using 2 assms(1,2) fed_refl[OF assms(2)]
      by (auto simp: emit_def add_reading_def SKK_READING_MAX_def quiet_def split: if_splits)
  next
    case 3
    have "fed s (s\<lparr>k_okuri := k_okuri s @ p\<rparr>)" if "\<not> 16 - length (k_okuri s) < length p"
      unfolding fed_def by (rule exI[of _ "k_roma s"], rule exI[of _ "[]"], rule exI[of _ p], rule exI[of _ "[]"]) (use that assms(2) 3 in auto)
    then show ?thesis using 3 assms(1,2) fed_refl[OF assms(2)]
      by (auto simp: emit_def add_okuri_def SKK_OKURI_MAX_def quiet_def split: if_splits)
  next
    case 4
    then show ?thesis using assms(1) C fed_refl[OF assms(2)]
      by (auto simp: emit_def Let_def quiet_def split: if_splits prod.splits)
  qed
qed

lemma fed_roma: "roma_ok r \<Longrightarrow> fed s (s\<lparr>k_roma := r\<rparr>)"
  unfolding fed_def by (rule exI[of _ r], rule exI[of _ "[]"], rule exI[of _ "[]"], rule exI[of _ "[]"]) simp

lemma fed_commit: "fed s t \<Longrightarrow> length (k_commit s) \<le> 255 \<Longrightarrow> length (k_commit t) \<le> 255"
  by (auto simp: fed_def)

lemma fed_roma_ok: "fed s t \<Longrightarrow> roma_ok (k_roma t)"
  by (auto simp: fed_def)

lemma roma_ok_simps [simp]: "roma_ok []"
  by (simp add: roma_ok_def)

lemma roma_ok_bound: "roma_ok r \<Longrightarrow> length r \<le> 3 \<and> 0 \<notin> set r"
  using roma_extends_bound by (auto simp: roma_ok_def)

lemma roma_pass_spec:
  assumes r: "roma_ok (k_roma s)" and l: "length (k_commit s) \<le> 255" and c: "c \<noteq> 0"
  shows "(\<exists>t st'. roma_pass s c st = Inr (t, st') \<and> fed s t \<and> st' \<noteq> 0 \<and> (cands_bit st' \<longleftrightarrow> cands_bit st)) \<or>
    (\<exists>t st'. roma_pass s c st = Inl (t, st') \<and> k_roma s \<noteq> [] \<and> fed s t \<and> k_roma t = [] \<and> quiet st st')"
proof -
  let ?cand = "k_roma s @ [c]"
  note R = roma_ok_bound[OF r]
  have base: "(if length (k_roma s) \<ge> SKK_ROMA_MAX then [] else k_roma s) @ [c] = ?cand" using R by (simp add: SKK_ROMA_MAX_def)
  have f: "roma_find ?cand = (map_of ROMA ?cand, roma_extends ?cand)" using R c by (intro roma_find_spec) auto
  let ?s0 = "s\<lparr>k_roma := []\<rparr>"
  have s0: "fed s ?s0" "roma_ok (k_roma ?s0)" "length (k_commit ?s0) \<le> 255" using fed_roma l by simp_all
  have E: "fed s u \<and> k_roma u = [] \<and> quiet st v" if "emit ?s0 k st = (u, v)" for k u v
    using emit_fed[OF that s0(2,3)] fed_trans[OF s0(1)] by auto
  consider k where "map_of ROMA ?cand = Some k" "\<not> roma_extends ?cand"
    | "roma_extends ?cand"
    | "map_of ROMA ?cand = None" "\<not> roma_extends ?cand" "k_roma s = []"
    | "map_of ROMA ?cand = None" "\<not> roma_extends ?cand" "k_roma s \<noteq> []" by blast
  then show ?thesis
  proof cases
    case 1
    obtain u v where e: "emit ?s0 k st = (u, v)" by fastforce
    then have "roma_pass s c st = Inr (u, v OR SKK_ST_PREEDIT)" using 1 unfolding roma_pass_def Let_def base f by simp
    then show ?thesis using E[OF e] by (simp add: quiet_def)
  next
    case 2
    then have "roma_pass s c st = Inr (s\<lparr>k_roma := ?cand\<rparr>, st OR SKK_ST_PREEDIT)" unfolding roma_pass_def Let_def base f by simp
    then show ?thesis using 2 fed_roma[of ?cand s] by (simp add: roma_ok_def)
  next
    case 3
    obtain u v where e: "emit s [c] st = (u, v)" by fastforce
    then have "roma_pass s c st = Inr (u, v OR SKK_ST_PREEDIT)" using 3 unfolding roma_pass_def Let_def base f by simp
    then show ?thesis using emit_fed[OF e r l] by (simp add: quiet_def)
  next
    case 4
    let ?x = "if fst (roma_find (k_roma s)) \<noteq> None then emit ?s0 (the (fst (roma_find (k_roma s)))) st
       else if is_sokuon (last (k_roma s)) (length (k_roma s)) c then emit ?s0 KANA_SOKUON st else (?s0, st)"
    have p: "roma_pass s c st = Inl ?x" using 4 unfolding roma_pass_def Let_def base f by simp
    obtain u v where x: "?x = (u, v)" by fastforce
    have "fed s u \<and> k_roma u = [] \<and> quiet st v"
    proof (cases "fst (roma_find (k_roma s)) \<noteq> None")
      case True
      with x have "emit ?s0 (the (fst (roma_find (k_roma s)))) st = (u, v)" by (simp only: if_True not_False_eq_True)
      then show ?thesis by (rule E)
    next
      case F: False
      show ?thesis
      proof (cases "is_sokuon (last (k_roma s)) (length (k_roma s)) c")
        case True
        with x F have "emit ?s0 KANA_SOKUON st = (u, v)" by (simp only: if_True if_False not_True_eq_False not_False_eq_True)
        then show ?thesis by (rule E)
      next
        case False
        with x F have "(u, v) = (?s0, st)" by (simp only: if_False not_True_eq_False not_False_eq_True)
        then have "u = ?s0" "v = st" by (simp_all only: prod.inject)
        then show ?thesis using s0(1) by simp
      qed
    qed
    moreover have "roma_pass s c st = Inl (u, v)" using p unfolding x .
    ultimately show ?thesis using 4 by blast
  qed
qed

text \<open>From an empty tail one pass is enough, so the loop returns in its second pass at the latest.\<close>

lemma roma_loop_returns:
  assumes r: "roma_ok (k_roma s)" and l: "length (k_commit s) \<le> 255" and c: "c \<noteq> 0"
  shows "\<exists>t st'. (\<forall>n. roma_loop (Suc (Suc n)) s c st = (t, st')) \<and> fed s t \<and> st' \<noteq> 0 \<and> (cands_bit st' \<longleftrightarrow> cands_bit st)"
  using roma_pass_spec[OF assms, of st]
proof
  assume "\<exists>t st'. roma_pass s c st = Inr (t, st') \<and> fed s t \<and> st' \<noteq> 0 \<and> (cands_bit st' \<longleftrightarrow> cands_bit st)"
  then show ?thesis by auto
next
  assume "\<exists>t st'. roma_pass s c st = Inl (t, st') \<and> k_roma s \<noteq> [] \<and> fed s t \<and> k_roma t = [] \<and> quiet st st'"
  then obtain t st' where t: "roma_pass s c st = Inl (t, st')" "fed s t" "k_roma t = []" "quiet st st'" by blast
  have "roma_ok (k_roma t)" "length (k_commit t) \<le> 255" using t(3) fed_commit[OF t(2) l] by simp_all
  from roma_pass_spec[OF this c, of st'] t(3) obtain u st2 where
    u: "roma_pass t c st' = Inr (u, st2)" "fed t u" "st2 \<noteq> 0" "cands_bit st2 \<longleftrightarrow> cands_bit st'" by auto
  then show ?thesis using t fed_trans[OF t(2) u(2)] by (simp add: quiet_def)
qed

lemma roma_feed_spec:
  assumes "roma_ok (k_roma s)" "length (k_commit s) \<le> 255" "c \<noteq> 0" "roma_feed s c st = (t, st')"
  shows "fed s t \<and> st' \<noteq> 0 \<and> (cands_bit st' \<longleftrightarrow> cands_bit st)"
proof -
  obtain u v where u: "\<forall>n. roma_loop (Suc (Suc n)) s c st = (u, v)" "fed s u" "v \<noteq> 0" "cands_bit v \<longleftrightarrow> cands_bit st"
    using roma_loop_returns[OF assms(1-3), of st] by blast
  then have "roma_feed s c st = (u, v)" using u(1)[rule_format, of 1] unfolding roma_feed_def by (simp only: numeral_3_eq_3 One_nat_def)
  then show ?thesis using u assms(4) by simp
qed

lemma roma_flush_spec:
  assumes "roma_ok (k_roma s)" "length (k_commit s) \<le> 255" "roma_flush s st = (t, st')"
  shows "fed s t \<and> k_roma t = [] \<and> quiet st st' \<and> (st' = 0 \<longrightarrow> t = s) \<and> (k_roma s \<noteq> [] \<longrightarrow> st' \<noteq> 0)"
proof (cases "k_roma s = []")
  case True
  then show ?thesis using assms fed_refl[of s] by (simp add: roma_flush_def)
next
  case False
  let ?s0 = "s\<lparr>k_roma := []\<rparr>"
  have s0: "fed s ?s0" "roma_ok (k_roma ?s0)" "length (k_commit ?s0) \<le> 255" using fed_roma assms(2) by simp_all
  show ?thesis
  proof (cases "fst (roma_find (k_roma s))")
    case None
    then show ?thesis using False assms(3) s0(1) by (auto simp: roma_flush_def Let_def quiet_def)
  next
    case (Some k)
    then have "emit ?s0 k (st OR SKK_ST_PREEDIT) = (t, st')" using False assms(3) by (simp add: roma_flush_def Let_def)
    from emit_fed[OF this s0(2,3)] fed_trans[OF s0(1)] show ?thesis by (auto simp: quiet_def)
  qed
qed

section \<open>The session invariant\<close>

definition idle :: "skk_t \<Rightarrow> bool" where
  "idle s \<longleftrightarrow> k_reading s = [] \<and> k_okuri s = [] \<and> k_stem s = 0 \<and> k_cand s = [] \<and> k_sel s = -1"

definition kana_bounds :: "skk_t \<Rightarrow> bool" where
  "kana_bounds s \<longleftrightarrow> roma_ok (k_roma s) \<and> length (k_reading s) \<le> 96 \<and> length (k_okuri s) \<le> 16 \<and> length (k_cand s) \<le> 64 \<and>
     length (k_commit s) \<le> 255 \<and> k_base s \<in> {SKK_MODE_KANA, SKK_MODE_KATA} \<and> (\<forall>d. k_dict s = Some d \<longrightarrow> dict_ok d) \<and>
     k_scratch_len s = 0"

definition kana_mode_ok :: "skk_t \<Rightarrow> bool" where
  "kana_mode_ok s \<longleftrightarrow>
     (case k_mode s of
        SKK_MODE_ASCII \<Rightarrow> idle s \<and> k_roma s = []
      | SKK_MODE_KANA \<Rightarrow> idle s \<and> k_base s = SKK_MODE_KANA
      | SKK_MODE_KATA \<Rightarrow> idle s \<and> k_base s = SKK_MODE_KATA
      | SKK_MODE_MIDASHI \<Rightarrow> k_stem s = 0 \<and> k_okuri s = [] \<and> k_cand s = [] \<and> k_sel s = -1 \<and> k_comp_len s \<le> length (k_reading s)
      | SKK_MODE_OKURI \<Rightarrow> k_stem s \<noteq> 0 \<and> k_reading s \<noteq> [] \<and> k_cand s = [] \<and> k_sel s = -1
      | SKK_MODE_SELECT \<Rightarrow> k_roma s = [] \<and> k_reading s \<noteq> [] \<and> 0 \<le> k_sel s \<and> k_sel s < int (length (k_cand s)) \<and>
          (k_stem s = 0 \<longrightarrow> k_okuri s = []))"

definition kana_inv :: "skk_t \<Rightarrow> bool" where
  "kana_inv s \<longleftrightarrow> kana_bounds s \<and> kana_mode_ok s"

definition typing :: "skk_mode \<Rightarrow> bool" where
  "typing m \<longleftrightarrow> m \<in> {SKK_MODE_KANA, SKK_MODE_KATA, SKK_MODE_MIDASHI, SKK_MODE_OKURI}"

lemma fed_inv:
  assumes "fed s t" "kana_inv s" "typing (k_mode s)"
  shows "kana_inv t"
proof -
  obtain r x y z where t: "t = s\<lparr>k_roma := r, k_reading := k_reading s @ x, k_okuri := k_okuri s @ y, k_commit := k_commit s @ z\<rparr>"
      and m: "roma_ok r" "k_mode s \<noteq> SKK_MODE_MIDASHI \<longrightarrow> x = []" "k_mode s \<noteq> SKK_MODE_OKURI \<longrightarrow> y = []"
      and l: "length (k_reading s) \<le> 96 \<longrightarrow> length (k_reading s @ x) \<le> 96" "length (k_okuri s) \<le> 16 \<longrightarrow> length (k_okuri s @ y) \<le> 16"
      "length (k_commit s) \<le> 255 \<longrightarrow> length (k_commit s @ z) \<le> 255"
    using assms(1) unfolding fed_def by blast
  have "kana_bounds t" using assms(2) m l unfolding t kana_inv_def kana_bounds_def by simp
  moreover have "kana_mode_ok t"
    using assms(2,3) m unfolding t kana_inv_def kana_mode_ok_def typing_def by (cases "k_mode s") (simp_all add: idle_def)
  ultimately show ?thesis by (simp add: kana_inv_def)
qed

lemma fed_frame:
  assumes "fed s t"
  shows "k_mode t = k_mode s" "k_base t = k_base s" "k_dict t = k_dict s" "k_stem t = k_stem s" "k_cand t = k_cand s"
    "k_comp_len t = k_comp_len s" "k_sel t = k_sel s" "k_reading s \<noteq> [] \<Longrightarrow> k_reading t \<noteq> []"
    "k_mode s \<noteq> SKK_MODE_MIDASHI \<Longrightarrow> k_reading t = k_reading s" "length (k_reading s) \<le> length (k_reading t)"
  using assms by (auto simp: fed_def)

text \<open>Fields the invariant does not look at.\<close>

lemma kana_mode_frame [simp]:
  "kana_mode_ok (s\<lparr>k_stats := x\<rparr>) = kana_mode_ok s" "kana_mode_ok (s\<lparr>k_commit := c\<rparr>) = kana_mode_ok s"
  "kana_mode_ok (s\<lparr>k_preedit := p\<rparr>) = kana_mode_ok s" "kana_mode_ok (s\<lparr>k_span := q\<rparr>) = kana_mode_ok s"
  "kana_mode_ok (s\<lparr>k_dict := d\<rparr>) = kana_mode_ok s" "kana_mode_ok (s\<lparr>k_enabled := e\<rparr>) = kana_mode_ok s"
  by (cases "k_mode s"; simp add: kana_mode_ok_def idle_def)+

lemma kana_bounds_frame [simp]:
  "kana_bounds (s\<lparr>k_stats := x\<rparr>) = kana_bounds s" "kana_bounds (s\<lparr>k_preedit := p\<rparr>) = kana_bounds s"
  "kana_bounds (s\<lparr>k_span := q\<rparr>) = kana_bounds s" "kana_bounds (s\<lparr>k_enabled := e\<rparr>) = kana_bounds s"
  "kana_bounds (s\<lparr>k_mode := m\<rparr>) = kana_bounds s" "kana_bounds (s\<lparr>k_comp_len := n\<rparr>) = kana_bounds s"
  "kana_bounds (s\<lparr>k_comp_i := j\<rparr>) = kana_bounds s"
  by (simp_all add: kana_bounds_def)

text \<open>Leaving a span: back in the base mode, everything of the span cleared.\<close>

definition left :: "skk_t \<Rightarrow> u32 \<Rightarrow> skk_t \<Rightarrow> u32 \<Rightarrow> bool" where
  "left s st t st' \<longleftrightarrow> kana_inv t \<and> st' \<noteq> 0 \<and> (cands_bit st' \<longleftrightarrow> cands_bit st) \<and> k_mode t = k_base s \<and> k_base t = k_base s \<and>
     k_comp_len t = k_comp_len s"

lemma kana_boundsD:
  assumes "kana_bounds s"
  shows "roma_ok (k_roma s)" "length (k_reading s) \<le> 96" "length (k_okuri s) \<le> 16" "length (k_cand s) \<le> 64"
    "length (k_commit s) \<le> 255" "k_base s = SKK_MODE_KANA \<or> k_base s = SKK_MODE_KATA" "k_dict s = Some d \<Longrightarrow> dict_ok d"
    "k_scratch_len s = 0"
  using assms by (auto simp: kana_bounds_def)

lemma kana_invD: "kana_inv s \<Longrightarrow> kana_bounds s" "kana_inv s \<Longrightarrow> kana_mode_ok s"
  by (simp_all add: kana_inv_def)

lemma cleared_inv: "kana_bounds s \<Longrightarrow> kana_inv ((clear_span s)\<lparr>k_mode := k_base s\<rparr>)"
  by (auto simp: kana_inv_def kana_bounds_def kana_mode_ok_def clear_span_def idle_def)

lemma clear_span_frame [simp]: "k_base (clear_span s) = k_base s" "k_mode (clear_span s) = k_mode s" "k_commit (clear_span s) = k_commit s"
    "k_roma (clear_span s) = []" "k_reading (clear_span s) = []" "k_comp_len (clear_span s) = k_comp_len s"
  by (simp_all add: clear_span_def)

lemma span_cancel_left: "kana_bounds s \<Longrightarrow> span_cancel s st = (t, st') \<Longrightarrow> left s st t st'"
  using cleared_inv[of s] by (auto simp: span_cancel_def left_def)

lemma span_commit_left:
  assumes "kana_bounds s" "span_commit s st n = (t, st')"
  shows "left s st t st'"
proof -
  let ?s = "s\<lparr>k_stats := (k_stats s)\<lparr>st_commits := st_commits (k_stats s) + 1\<rparr>\<rparr>"
  have "kana_bounds ?s" using assms(1) by (simp add: kana_bounds_def)
  from cleared_inv[OF this] cleared_inv[OF assms(1)] show ?thesis
    using assms(2) by (auto simp: span_commit_def span_done_def left_def split: if_splits)
qed

lemma add_commit_bounds:
  assumes "add_commit s p = (ok, t)" "kana_bounds s"
  shows "kana_bounds t \<and> k_base t = k_base s \<and> k_mode t = k_mode s \<and> k_roma t = k_roma s \<and> k_reading t = k_reading s \<and>
    k_okuri t = k_okuri s \<and> k_stem t = k_stem s \<and> k_cand t = k_cand s \<and> k_sel t = k_sel s \<and> k_comp_len t = k_comp_len s"
  using add_commit_spec[OF assms(1) kana_boundsD(5)[OF assms(2)]] assms(2) by (auto simp: kana_bounds_def)

lemma add_commit_bounds_snd: "kana_bounds s \<Longrightarrow> kana_bounds (snd (add_commit s p)) \<and> k_base (snd (add_commit s p)) = k_base s \<and>
  k_comp_len (snd (add_commit s p)) = k_comp_len s"
  using add_commit_bounds[of s p "fst (add_commit s p)" "snd (add_commit s p)"] by simp

text \<open>The shape the three commits share.\<close>

lemma commit_twice_left:
  assumes "kana_bounds s" "add_commit s p = (ok, s1)" "span_commit (if ok then snd (add_commit s1 q) else s1) st n = (t, st')"
  shows "left s st t st'"
proof -
  note B = add_commit_bounds[OF assms(2,1)]
  have "kana_bounds (if ok then snd (add_commit s1 q) else s1) \<and> k_base (if ok then snd (add_commit s1 q) else s1) = k_base s \<and>
      k_comp_len (if ok then snd (add_commit s1 q) else s1) = k_comp_len s"
    using B add_commit_bounds_snd[of s1 q] by simp
  with span_commit_left[OF _ assms(3)] show ?thesis by (simp add: left_def)
qed

lemma commit_reading_left: "kana_bounds s \<Longrightarrow> commit_reading s st = (t, st') \<Longrightarrow> left s st t st'"
  unfolding commit_reading_def
  by (cases "add_commit s (k_reading s)") (rule commit_twice_left, assumption+, simp)

lemma commit_selection_left: "kana_bounds s \<Longrightarrow> commit_selection s st = (t, st') \<Longrightarrow> left s st t st'"
proof (cases "skk_cand_at s (k_sel s)")
  case None
  assume "kana_bounds s" "commit_selection s st = (t, st')"
  with None span_commit_left show ?thesis by (simp add: commit_selection_def)
next
  case (Some c)
  assume a: "kana_bounds s" "commit_selection s st = (t, st')"
  obtain ok s1 where "add_commit s c = (ok, s1)" by fastforce
  with a Some show ?thesis by (intro commit_twice_left[OF a(1)]) (simp_all add: commit_selection_def)
qed

lemma commit_katakana_left: "kana_bounds s \<Longrightarrow> commit_katakana s st = (t, st') \<Longrightarrow> left s st t st'"
proof -
  assume a: "kana_bounds s" "commit_katakana s st = (t, st')"
  let ?k = "to_katakana (k_reading s) SKK_SCRATCH_MAX"
  let ?s = "s\<lparr>k_scratch := ?k\<rparr>"
  have b: "kana_bounds ?s" "k_base ?s = k_base s" using a(1) by (simp_all add: kana_bounds_def)
  obtain ok s1 where c: "add_commit ?s ?k = (ok, s1)" by fastforce
  have "left ?s st t st'"
  proof (cases "?k = []")
    case True
    then show ?thesis using a(2) span_commit_left[OF b(1)] by (simp add: commit_katakana_def Let_def)
  next
    case False
    then show ?thesis using a(2) by (intro commit_twice_left[OF b(1) c]) (simp add: commit_katakana_def Let_def c)
  qed
  then show ?thesis by (simp add: left_def)
qed

section \<open>Conversion and completion\<close>

text \<open>A step: the invariant holds again, and new candidates come with the selection mode and selection 0.\<close>

definition moved :: "u32 \<Rightarrow> skk_t \<Rightarrow> u32 \<Rightarrow> bool" where
  "moved st t st' \<longleftrightarrow> kana_inv t \<and> (st' = 0 \<longrightarrow> st = 0) \<and>
     (cands_bit st' \<longrightarrow> cands_bit st \<or> k_mode t = SKK_MODE_SELECT \<and> k_sel t = 0)"

lemma moved_quiet: "quiet a b \<Longrightarrow> moved b t c \<Longrightarrow> moved a t c"
  by (auto simp: moved_def quiet_def)

lemma left_moved: "left s st t st' \<Longrightarrow> moved st t st'"
  by (auto simp: left_def moved_def)

lemma fed_moved: "fed s t \<Longrightarrow> kana_inv s \<Longrightarrow> typing (k_mode s) \<Longrightarrow> quiet st st' \<Longrightarrow> moved st t st'"
  using fed_inv by (auto simp: moved_def quiet_def)

lemma moved_or: "moved st t st' \<Longrightarrow> \<not> cands_bit f \<Longrightarrow> moved st t (st' OR f)"
  by (auto simp: moved_def)

lemma convert_moved:
  assumes i: "kana_inv s" and r: "k_roma s = []" and m: "k_mode s = SKK_MODE_MIDASHI \<or> k_mode s = SKK_MODE_OKURI"
    and c: "convert s st = (t, st')"
  shows "moved st t st'"
proof (cases "k_dict s")
  case None
  then show ?thesis using i c by (simp add: convert_def moved_def)
next
  case (Some d)
  show ?thesis
  proof (cases "k_reading s = []")
    case True
    then show ?thesis using i c Some by (simp add: convert_def moved_def)
  next
    case False
    obtain key blk where k: "span_key s = (key, blk)" by fastforce
    obtain cs stats where l: "skk_lookup_stats d blk key SKK_CAND_MAX (k_stats s) = (cs, stats)" by fastforce
    have d: "dict_ok d" using kana_boundsD(7)[OF kana_invD(1)[OF i] Some] .
    have n: "length cs \<le> 64" using lookup_candidates_ok[OF d, of blk key SKK_CAND_MAX "k_stats s"] l by (simp add: SKK_CAND_MAX_def)
    have C: "(t, st') = (if cs = [] then (s\<lparr>k_stats := stats\<rparr>, st)
        else (s\<lparr>k_stats := stats, k_cand := cs, k_sel := 0, k_mode := SKK_MODE_SELECT\<rparr>, st OR (SKK_ST_CANDS OR SKK_ST_PREEDIT OR SKK_ST_MODE)))"
      using c Some False k l by (simp add: convert_def)
    have s': "kana_inv (s\<lparr>k_stats := stats\<rparr>)" using i by (simp add: kana_inv_def)
    have "kana_inv (s\<lparr>k_stats := stats, k_cand := cs, k_sel := 0, k_mode := SKK_MODE_SELECT\<rparr>)" if "cs \<noteq> []"
      using i r m n that False by (auto simp: kana_inv_def kana_bounds_def kana_mode_ok_def)
    then show ?thesis using C s' by (cases "cs = []") (auto simp: moved_def)
  qed
qed

lemma okuri_maybe_convert_moved:
  assumes "kana_inv s" "okuri_maybe_convert s st = (t, st')"
  shows "moved st t st'"
  using assms convert_moved[OF assms(1)] by (auto simp: okuri_maybe_convert_def moved_def split: if_splits)

lemma complete_take_inv:
  assumes "kana_inv s" "k_mode s = SKK_MODE_MIDASHI" "k_comp_len s \<le> length r" "complete_take s r st = (t, st')"
  shows "kana_inv t \<and> quiet st st'"
  using assms by (auto simp: complete_take_def kana_inv_def kana_bounds_def kana_mode_ok_def SKK_READING_MAX_def split: if_splits)

lemma complete_at_inv:
  assumes i: "kana_inv s" and m: "k_mode s = SKK_MODE_MIDASHI" and d: "k_dict s = Some d" and c: "complete_at s d want = (r, t)"
  shows "kana_inv t \<and> k_mode t = SKK_MODE_MIDASHI \<and> k_dict t = k_dict s \<and> k_comp_len t = k_comp_len s \<and> k_comp_i t = k_comp_i s \<and>
    (\<forall>x. r = Some x \<longrightarrow> k_comp_len s \<le> length x)"
proof -
  let ?pre = "take (k_comp_len s) (k_reading s)"
  obtain q probes where q: "skk_complete d SKK_BLK_NASI ?pre want (st_probes (k_stats s)) = (q, probes)" by fastforce
  have t: "t = s\<lparr>k_stats := (k_stats s)\<lparr>st_probes := probes\<rparr>\<rparr>" "r = (case q of Inr (Some x) \<Rightarrow> Some x | _ \<Rightarrow> None)"
    using c q by (simp_all add: complete_at_def)
  have "length ?pre = k_comp_len s" using i m by (simp add: kana_inv_def kana_mode_ok_def)
  moreover have "length ?pre < length x" if "r = Some x" for x
  proof -
    have "q = Inr (Some x)" using that t(2) by (auto split: sum.splits option.splits)
    then show ?thesis using complete_sound[OF kana_boundsD(7)[OF kana_invD(1)[OF i] d]] q by blast
  qed
  ultimately show ?thesis using i m d t(1) by (auto simp: kana_inv_def kana_bounds_def kana_mode_ok_def)
qed

lemma span_complete_moved:
  assumes i: "kana_inv s0" and c: "span_complete s0 st0 = (t, st')"
  shows "moved st0 t st' \<and> st' \<noteq> 0"
proof -
  let ?st = "st0 OR SKK_ST_CONSUMED"
  consider "k_dict s0 = None \<or> k_mode s0 \<noteq> SKK_MODE_MIDASHI" | d where "k_dict s0 = Some d" "k_mode s0 = SKK_MODE_MIDASHI" by (cases "k_dict s0") auto
  then show ?thesis
  proof cases
    case 1
    then have "t = s0" "st' = ?st" using c by (auto simp: span_complete_def Let_def split: option.splits)
    then show ?thesis using i by (simp add: moved_def)
  next
    case 2
    obtain s1 st1 where f: "roma_flush s0 ?st = (s1, st1)" by fastforce
    note B = kana_boundsD[OF kana_invD(1)[OF i]]
    note F = roma_flush_spec[OF B(1,5) f]
    have i1: "kana_inv s1" using fed_inv[OF _ i] F 2 by (simp add: typing_def)
    have s1: "k_mode s1 = SKK_MODE_MIDASHI" "k_dict s1 = Some d" using fed_frame[of s0 s1] F 2 by simp_all
    have q: "quiet ?st st1" using F by simp
    let ?s2 = "if k_comp_len s1 = 0 then s1\<lparr>k_comp_len := length (k_reading s1), k_comp_i := 0\<rparr> else s1\<lparr>k_comp_i := k_comp_i s1 + 1\<rparr>"
    have s2: "kana_inv ?s2" "k_mode ?s2 = SKK_MODE_MIDASHI" "k_dict ?s2 = Some d"
      using i1 s1 by (auto simp: kana_inv_def kana_bounds_def kana_mode_ok_def)
    have goal: "moved st0 u v \<and> v \<noteq> 0" if "kana_inv u" "quiet st1 v" for u v
      using that quiet_trans[OF q that(2)] by (auto simp: moved_def quiet_def)
    show ?thesis
    proof (cases "k_comp_len s1 = 0 \<and> k_reading s1 = []")
      case True
      then have "t = s1" "st' = st1" using c 2 f by (simp_all add: span_complete_def Let_def)
      then show ?thesis using goal[of s1 st1] i1 by simp
    next
      case False
      obtain r s3 where a: "complete_at ?s2 d (unat (k_comp_i ?s2)) = (r, s3)" by fastforce
      have C: "(t, st') = (case (r, s3) of (Some r, s3) \<Rightarrow> complete_take s3 r st1
          | (None, s3) \<Rightarrow> if k_comp_i s3 = 0 then (s3\<lparr>k_comp_len := 0\<rparr>, st1)
             else let s4 = s3\<lparr>k_comp_i := 0\<rparr> in (case complete_at s4 d 0 of (Some r, s5) \<Rightarrow> complete_take s5 r st1 | (None, s5) \<Rightarrow> (s5, st1)))"
        using c unfolding span_complete_def Let_def 2(1) option.case f prod.case if_not_P[OF False] a using 2(2) by simp
      note A = complete_at_inv[OF s2 a]
      show ?thesis
      proof (cases r)
        case (Some x)
        then have "complete_take s3 x st1 = (t, st')" "k_comp_len s3 \<le> length x" using C A by simp_all
        then show ?thesis using complete_take_inv[of s3 x st1 t st'] A goal by blast
      next
        case None
        show ?thesis
        proof (cases "k_comp_i s3 = 0")
          case True
          then have "t = s3\<lparr>k_comp_len := 0\<rparr>" "st' = st1" using C None by simp_all
          moreover have "kana_inv (s3\<lparr>k_comp_len := 0\<rparr>)" using A by (auto simp: kana_inv_def kana_mode_ok_def)
          ultimately show ?thesis using goal by simp
        next
          case False
          let ?s4 = "s3\<lparr>k_comp_i := 0\<rparr>"
          have s4: "kana_inv ?s4" "k_mode ?s4 = SKK_MODE_MIDASHI" "k_dict ?s4 = Some d"
            using A s2(3) by (auto simp: kana_inv_def kana_bounds_def kana_mode_ok_def)
          obtain r' s5 where a': "complete_at ?s4 d 0 = (r', s5)" by fastforce
          note A' = complete_at_inv[OF s4 a']
          show ?thesis
          proof (cases r')
            case None
            then have "t = s5" "st' = st1" using C False a' \<open>r = None\<close> by (simp_all add: Let_def)
            then show ?thesis using goal[of s5 st1] A' by simp
          next
            case (Some x)
            then have "complete_take s5 x st1 = (t, st')" "k_comp_len s5 \<le> length x" using C False a' A' \<open>r = None\<close> by (simp_all add: Let_def)
            then show ?thesis using complete_take_inv[of s5 x st1 t st'] A' goal by blast
          qed
        qed
      qed
    qed
  qed
qed

section \<open>Editing a span\<close>

lemma butlast_roma_ok: "roma_ok r \<Longrightarrow> roma_ok (butlast r)"
  using roma_extends_prefix[of "butlast r" "[last r]"] by (cases "r = []") (auto simp: roma_ok_def)

lemma roma_inv: "kana_inv s \<Longrightarrow> roma_ok r \<Longrightarrow> typing (k_mode s) \<Longrightarrow> kana_inv (s\<lparr>k_roma := r\<rparr>)"
  by (rule fed_inv[OF fed_roma])

lemma kana_modeD:
  assumes "kana_inv s"
  shows "k_mode s = SKK_MODE_MIDASHI \<Longrightarrow> k_stem s = 0 \<and> k_okuri s = [] \<and> k_cand s = [] \<and> k_sel s = -1 \<and> k_comp_len s \<le> length (k_reading s)"
    "k_mode s = SKK_MODE_OKURI \<Longrightarrow> k_stem s \<noteq> 0 \<and> k_reading s \<noteq> [] \<and> k_cand s = [] \<and> k_sel s = -1"
    "k_mode s = SKK_MODE_SELECT \<Longrightarrow> k_roma s = [] \<and> k_reading s \<noteq> [] \<and> 0 \<le> k_sel s \<and> k_sel s < int (length (k_cand s)) \<and>
       (k_stem s = 0 \<longrightarrow> k_okuri s = [])"
    "k_mode s = SKK_MODE_KANA \<Longrightarrow> idle s \<and> k_base s = SKK_MODE_KANA"
    "k_mode s = SKK_MODE_KATA \<Longrightarrow> idle s \<and> k_base s = SKK_MODE_KATA"
    "k_mode s = SKK_MODE_ASCII \<Longrightarrow> idle s \<and> k_roma s = []"
  using assms by (auto simp: kana_inv_def kana_mode_ok_def)

lemma span_backspace_moved:
  assumes i: "kana_inv s" and m: "k_mode s = SKK_MODE_MIDASHI \<or> k_mode s = SKK_MODE_OKURI" and z: "k_comp_len s = 0"
    and c: "span_backspace s st = (t, st')"
  shows "moved st t st' \<and> st' \<noteq> 0"
proof -
  note B = kana_invD(1)[OF i]
  consider "k_roma s \<noteq> []" | "k_roma s = []" "k_mode s = SKK_MODE_OKURI" | "k_roma s = []" "k_mode s = SKK_MODE_MIDASHI" using m by blast
  then show ?thesis
  proof cases
    case 1
    then have "t = s\<lparr>k_roma := butlast (k_roma s)\<rparr>" "st' = st OR SKK_ST_PREEDIT" using c by (simp_all add: span_backspace_def Let_def)
    moreover have "kana_inv (s\<lparr>k_roma := butlast (k_roma s)\<rparr>)"
      using roma_inv[OF i butlast_roma_ok[OF kana_boundsD(1)[OF B]]] m by (auto simp: typing_def)
    ultimately show ?thesis by (simp add: moved_def)
  next
    case 2
    let ?o = "if k_okuri s \<noteq> [] then take (skk_utf8_prev (k_okuri s) (length (k_okuri s))) (k_okuri s) else []"
    have "span_backspace s st = (if ?o \<noteq> [] then (s\<lparr>k_okuri := ?o\<rparr>, st OR SKK_ST_PREEDIT)
        else (s\<lparr>k_okuri := [], k_stem := 0, k_mode := SKK_MODE_MIDASHI\<rparr>, (st OR SKK_ST_PREEDIT) OR SKK_ST_MODE))"
      using 2 unfolding span_backspace_def Let_def by simp
    then have C: "(t, st') = (if ?o \<noteq> [] then (s\<lparr>k_okuri := ?o\<rparr>, st OR SKK_ST_PREEDIT)
        else (s\<lparr>k_okuri := [], k_stem := 0, k_mode := SKK_MODE_MIDASHI\<rparr>, (st OR SKK_ST_PREEDIT) OR SKK_ST_MODE))"
      unfolding c .
    have o: "kana_inv (s\<lparr>k_okuri := take n (k_okuri s)\<rparr>)" for n
      using i 2 by (auto simp: kana_inv_def kana_bounds_def kana_mode_ok_def)
    have n: "kana_inv (s\<lparr>k_okuri := [], k_stem := 0, k_mode := SKK_MODE_MIDASHI\<rparr>)"
      using i 2 z by (auto simp: kana_inv_def kana_bounds_def kana_mode_ok_def)
    show ?thesis
    proof (cases "?o = []")
      case True
      then show ?thesis using C n unfolding True by (simp add: moved_def)
    next
      case False
      then have "k_okuri s \<noteq> []" by (auto split: if_splits)
      then show ?thesis using C False o[of "skk_utf8_prev (k_okuri s) (length (k_okuri s))"] by (simp add: moved_def)
    qed
  next
    case 3
    let ?r = "if k_reading s \<noteq> [] then take (skk_utf8_prev (k_reading s) (length (k_reading s))) (k_reading s) else []"
    have "span_backspace s st = (if ?r \<noteq> [] then (s\<lparr>k_reading := ?r\<rparr>, st OR SKK_ST_PREEDIT)
        else span_cancel (s\<lparr>k_reading := []\<rparr>) (st OR SKK_ST_PREEDIT))"
      using 3 unfolding span_backspace_def Let_def by simp
    then have C: "(t, st') = (if ?r \<noteq> [] then (s\<lparr>k_reading := ?r\<rparr>, st OR SKK_ST_PREEDIT)
        else span_cancel (s\<lparr>k_reading := []\<rparr>) (st OR SKK_ST_PREEDIT))" unfolding c .
    have r: "kana_inv (s\<lparr>k_reading := take n (k_reading s)\<rparr>)" for n
      using i 3 z by (auto simp: kana_inv_def kana_bounds_def kana_mode_ok_def)
    show ?thesis
    proof (cases "?r = []")
      case True
      have b: "kana_bounds (s\<lparr>k_reading := []\<rparr>)" using B by (simp add: kana_bounds_def)
      have "span_cancel (s\<lparr>k_reading := []\<rparr>) (st OR SKK_ST_PREEDIT) = (t, st')" using C unfolding True by simp
      from span_cancel_left[OF b this] show ?thesis by (auto simp: moved_def left_def)
    next
      case False
      then have "k_reading s \<noteq> []" by (auto split: if_splits)
      then show ?thesis using C False r[of "skk_utf8_prev (k_reading s) (length (k_reading s))"] by (simp add: moved_def)
    qed
  qed
qed

text \<open>Feeding a character in a typing mode.\<close>

lemma roma_feed_moved:
  assumes "kana_inv s" "typing (k_mode s)" "c \<noteq> 0" "roma_feed s c st = (t, st')"
  shows "fed s t \<and> kana_inv t \<and> st' \<noteq> 0 \<and> (cands_bit st' \<longleftrightarrow> cands_bit st) \<and> k_mode t = k_mode s"
proof -
  note B = kana_boundsD[OF kana_invD(1)[OF assms(1)]]
  note F = roma_feed_spec[OF B(1,5) assms(3,4)]
  then show ?thesis using fed_inv[OF _ assms(1,2)] fed_frame(1)[of s t] by simp
qed

lemma roma_flush_moved:
  assumes "kana_inv s" "typing (k_mode s)" "roma_flush s st = (t, st')"
  shows "fed s t \<and> kana_inv t \<and> k_roma t = [] \<and> quiet st st' \<and> (st' = 0 \<longrightarrow> t = s) \<and> (k_roma s \<noteq> [] \<longrightarrow> st' \<noteq> 0) \<and> k_mode t = k_mode s"
proof -
  note B = kana_boundsD[OF kana_invD(1)[OF assms(1)]]
  note F = roma_flush_spec[OF B(1,5) assms(3)]
  then show ?thesis using fed_inv[OF _ assms(1,2)] fed_frame(1)[of s t] by simp
qed

lemma emit_moved:
  assumes "kana_inv s" "typing (k_mode s)" "emit s p st = (t, st')"
  shows "fed s t \<and> kana_inv t \<and> k_roma t = k_roma s \<and> quiet st st' \<and> k_mode t = k_mode s"
proof -
  note B = kana_boundsD[OF kana_invD(1)[OF assms(1)]]
  note F = emit_fed[OF assms(3) B(1,5)]
  then show ?thesis using fed_inv[OF _ assms(1,2)] fed_frame(1)[of s t] by simp
qed

lemma roma_hd: "roma_ok r \<Longrightarrow> r \<noteq> [] \<Longrightarrow> hd r \<noteq> 0"
  using roma_ok_bound[of r] by (cases r) auto

lemma okuri_start_moved:
  assumes i: "kana_inv s" and m: "k_mode s = SKK_MODE_MIDASHI" and r: "k_reading s \<noteq> []" and l: "lower \<noteq> 0"
    and c: "okuri_start s lower st = (t, st')"
  shows "moved st t st' \<and> st' \<noteq> 0"
proof -
  obtain s1 st1 where f: "(if k_roma s \<noteq> [] \<and> fst (roma_find (k_roma s)) \<noteq> None then roma_flush s st else (s, st)) = (s1, st1)" by fastforce
  have F: "kana_inv s1 \<and> k_mode s1 = SKK_MODE_MIDASHI \<and> quiet st st1 \<and> k_reading s1 \<noteq> []"
    using f roma_flush_moved[OF i, of st s1 st1] i m r fed_frame(8)[of s s1] by (auto simp: typing_def split: if_splits)
  define x where "x = (if k_roma s1 \<noteq> [] then hd (k_roma s1) else lower)"
  let ?s2 = "s1\<lparr>k_stem := x, k_okuri := [], k_mode := SKK_MODE_OKURI\<rparr>"
  let ?st2 = "st1 OR (SKK_ST_PREEDIT OR SKK_ST_MODE)"
  have "roma_ok (k_roma s1)" using F kana_boundsD(1) kana_invD(1) by blast
  then have stem: "x \<noteq> 0" using roma_hd l by (simp add: x_def)
  have "kana_bounds ?s2" using F kana_invD(1)[of s1] by (simp add: kana_bounds_def)
  moreover have "kana_mode_ok ?s2" using F stem kana_modeD(1)[of s1] by (simp add: kana_mode_ok_def)
  ultimately have s2: "kana_inv ?s2" "typing (k_mode ?s2)" by (simp_all add: kana_inv_def typing_def)
  obtain s3 st3 where g: "roma_feed ?s2 lower ?st2 = (s3, st3)" by fastforce
  note G = roma_feed_moved[OF s2 l g]
  have "okuri_maybe_convert s3 st3 = (t, st')" using c f g by (simp add: okuri_start_def x_def)
  from okuri_maybe_convert_moved[OF _ this] G have M: "moved st3 t st'" by simp
  moreover have "cands_bit st3 \<longleftrightarrow> cands_bit st" using G F by (simp add: quiet_def)
  ultimately show ?thesis using G by (auto simp: moved_def)
qed

lemma sel_move_moved:
  assumes i: "kana_inv s" and m: "k_mode s = SKK_MODE_SELECT" and z: "k_comp_len s = 0 \<or> k_sel s + delta \<ge> 0" and c: "sel_move s delta st = (t, st')"
  shows "moved st t st' \<and> st' \<noteq> 0"
proof -
  note M = kana_modeD(3)[OF i m]
  consider "k_sel s + delta < 0" | "0 \<le> k_sel s + delta" "k_sel s + delta \<ge> int (length (k_cand s))"
    | "0 \<le> k_sel s + delta" "k_sel s + delta < int (length (k_cand s))" by linarith
  then show ?thesis
  proof cases
    case 1
    then have "kana_inv (s\<lparr>k_cand := [], k_sel := -1, k_mode := (if k_stem s \<noteq> 0 then SKK_MODE_OKURI else SKK_MODE_MIDASHI)\<rparr>)"
      using i M z by (auto simp: kana_inv_def kana_bounds_def kana_mode_ok_def)
    then show ?thesis using 1 c by (auto simp: sel_move_def Let_def moved_def)
  next
    case 2
    then show ?thesis using i c by (auto simp: sel_move_def Let_def moved_def)
  next
    case 3
    then have "kana_inv (s\<lparr>k_sel := k_sel s + delta\<rparr>)"
      using i m M by (auto simp: kana_inv_def kana_bounds_def kana_mode_ok_def)
    then show ?thesis using 3 c by (auto simp: sel_move_def Let_def moved_def)
  qed
qed

section \<open>One key\<close>

lemma lower_nonzero: "0x41 \<le> c \<Longrightarrow> c \<le> 0x5A \<Longrightarrow> (c :: u8) - 0x41 + 0x61 \<noteq> 0"
proof
  assume c: "0x41 \<le> c" "c \<le> 0x5A" and z: "c - 0x41 + 0x61 = 0"
  have "c + 0x20 = 0" using z by (simp add: algebra_simps)
  then have "c = - 0x20" unfolding eq_neg_iff_add_eq_0 .
  then show False using c(2) by simp
qed

text \<open>What a key does in one pass.\<close>

definition pass_ok :: "skk_t \<Rightarrow> u32 \<Rightarrow> skk_t \<Rightarrow> u32 \<Rightarrow> bool" where
  "pass_ok s st t st' \<longleftrightarrow> moved st t st' \<and> (st' = 0 \<longrightarrow> t = s)"

lemma pass_okI: "moved st t st' \<and> st' \<noteq> 0 \<Longrightarrow> pass_ok s st t st'" by (simp add: pass_ok_def)
lemma pass_ok_id: "kana_inv s \<Longrightarrow> pass_ok s st s st" by (simp add: pass_ok_def moved_def)

lemma left_pass_ok: "left s st t st' \<Longrightarrow> pass_ok u st t st'"
  by (auto simp: pass_ok_def left_def moved_def)

lemma dispatch_kana_ok:
  assumes i: "kana_inv s" and m: "k_mode s = SKK_MODE_KANA \<or> k_mode s = SKK_MODE_KATA"
    and z: "k_comp_len s = 0 \<or> c = 0x09" and d: "dispatch_kana s key c seq tok st = (t, st')"
  shows "pass_ok s st t st'"
proof -
  have ty: "typing (k_mode s)" using m by (auto simp: typing_def)
  have idl: "idle s" using kana_modeD(4,5)[OF i] m by blast
  note B = kana_invD(1)[OF i]
  obtain s1 st1 where f: "roma_flush s st = (s1, st1)" by fastforce
  note F = roma_flush_moved[OF i ty f]
  let ?special = "c = 0x07 \<or> c = 0x08 \<or> c = 0x0A \<or> c = 0x20 \<or> c = 0x6C \<or> c = 0x71"
  consider "tok \<noteq> TOK_NONE" | "tok = TOK_NONE" "c = 0x07 \<or> c = 0x08" | "tok = TOK_NONE" "c = 0x0A \<or> c = 0x20"
    | "tok = TOK_NONE" "c = 0x6C" | "tok = TOK_NONE" "c = 0x71"
    | "tok = TOK_NONE" "\<not> ?special" "0x41 \<le> c" "c \<le> 0x5A"
    | "tok = TOK_NONE" "\<not> ?special" "\<not> (0x41 \<le> c \<and> c \<le> 0x5A)" "0x21 \<le> c" "c \<le> 0x7E"
    | "tok = TOK_NONE" "\<not> ?special" "\<not> (0x41 \<le> c \<and> c \<le> 0x5A)" "\<not> (0x21 \<le> c \<and> c \<le> 0x7E)" by blast
  then show ?thesis
  proof cases
    case 1
    then show ?thesis using d roma_inv[OF i _ ty, of "[]"] pass_ok_id[OF i]
      by (auto simp: dispatch_kana_def pass_ok_def moved_def split: if_splits)
  next
    case 2
    have "roma_ok (if c = 0x08 then butlast (k_roma s) else [])" using butlast_roma_ok[OF kana_boundsD(1)[OF B]] by simp
    from roma_inv[OF i this ty] show ?thesis using d 2 pass_ok_id[OF i]
      by (simp add: dispatch_kana_def split: if_split_asm) (auto simp: pass_ok_def moved_def)
  next
    case 3
    then have "(if k_roma s = [] then (s, st) else roma_flush s st) = (t, st')" using d by (auto simp: dispatch_kana_def)
    then show ?thesis using f F pass_ok_id[OF i] by (auto simp: pass_ok_def moved_def quiet_def split: if_splits)
  next
    case 4
    then have e: "t = s1\<lparr>k_mode := SKK_MODE_ASCII\<rparr>" "st' = st1 OR (SKK_ST_PREEDIT OR SKK_ST_MODE)" using d f by (simp_all add: dispatch_kana_def)
    have "idle s1" using kana_modeD(4,5)[of s1] F m by auto
    then have "kana_inv t" using F unfolding e(1) by (simp add: kana_inv_def kana_mode_ok_def idle_def)
    then show ?thesis using F e(2) by (simp add: pass_ok_def moved_def quiet_def)
  next
    case 5
    let ?b = "if k_base s1 = SKK_MODE_KATA then SKK_MODE_KANA else SKK_MODE_KATA"
    have e: "t = s1\<lparr>k_base := ?b, k_mode := ?b\<rparr>" "st' = st1 OR (SKK_ST_PREEDIT OR SKK_ST_MODE)"
      using d f 5 by (simp_all add: dispatch_kana_def Let_def)
    have "idle s1" using kana_modeD(4,5)[of s1] F m by auto
    then have "kana_inv t" using F unfolding e(1) by (simp add: kana_inv_def kana_mode_ok_def kana_bounds_def idle_def)
    then show ?thesis using F e(2) by (simp add: pass_ok_def moved_def quiet_def)
  next
    case 6
    let ?s1 = "(clear_span (s\<lparr>k_roma := []\<rparr>))\<lparr>k_mode := SKK_MODE_MIDASHI\<rparr>"
    have e: "(t, st') = (if c \<noteq> 0x51 then roma_feed ?s1 (c - 0x41 + 0x61) (st OR (SKK_ST_PREEDIT OR SKK_ST_MODE))
        else (?s1, st OR (SKK_ST_PREEDIT OR SKK_ST_MODE)))"
      using d 6 unfolding dispatch_kana_def Let_def by simp
    have "k_comp_len s = 0" using z 6 by auto
    then have s1: "kana_inv ?s1" "typing (k_mode ?s1)" using B
      by (simp_all add: kana_inv_def kana_bounds_def kana_mode_ok_def clear_span_def typing_def)
    show ?thesis
    proof (cases "c = 0x51")
      case True
      then show ?thesis using e s1 by (simp add: pass_ok_def moved_def)
    next
      case False
      then have "roma_feed ?s1 (c - 0x41 + 0x61) (st OR (SKK_ST_PREEDIT OR SKK_ST_MODE)) = (t, st')" using e by simp
      from roma_feed_moved[OF s1 lower_nonzero[OF 6(3,4)] this] show ?thesis by (simp add: pass_ok_def moved_def)
    qed
  next
    case 7
    then have "roma_feed s c st = (t, st')" "c \<noteq> 0" using d unfolding dispatch_kana_def by auto
    from roma_feed_moved[OF i ty this(2,1)] show ?thesis by (simp add: pass_ok_def moved_def)
  next
    case 8
    obtain s2 st2 where g: "emit s1 (take seq key) st1 = (s2, st2)" by fastforce
    have "typing (k_mode s1)" using F ty by simp
    note E = emit_moved[OF _ this g]
    have e: "(t, st') = (if c = 0 \<and> hd key \<ge> 0x80 \<and> k_roma s \<noteq> [] then (s2, st2 OR SKK_ST_PREEDIT) else (s, st))"
      using d 8 f g unfolding dispatch_kana_def by auto
    show ?thesis using e E F pass_ok_id[OF i] by (auto simp: pass_ok_def moved_def quiet_def split: if_splits)
  qed
qed

lemma dispatch_span_ok:
  assumes i: "kana_inv s" and m: "k_mode s = SKK_MODE_MIDASHI \<or> k_mode s = SKK_MODE_OKURI"
    and z: "k_comp_len s = 0 \<or> c = 0x09" and d: "dispatch_span s key c seq tok st = (t, st')"
  shows "moved st t st' \<and> st' \<noteq> 0"
proof -
  have ty: "typing (k_mode s)" using m by (auto simp: typing_def)
  note B = kana_invD(1)[OF i]
  obtain s1 st1 where f: "roma_flush s st = (s1, st1)" by fastforce
  note F = roma_flush_moved[OF i ty f]
  have B1: "kana_bounds s1" using F kana_invD(1) by blast
  have L: "moved st t st' \<and> st' \<noteq> 0" if "left s1 st1 t st'"
    using that F by (auto simp: left_def moved_def quiet_def)
  have after: "moved st u v \<and> v \<noteq> 0"
    if "roma_feed s x st = (s2, st2)" "okuri_maybe_convert s2 st2 = (u, v)" "x \<noteq> 0" for x s2 st2 u v
    using roma_feed_moved[OF i ty that(3,1)] okuri_maybe_convert_moved[OF _ that(2)] by (auto simp: moved_def)
  let ?special = "c = 0x07 \<or> c = 0x08 \<or> c = 0x7F \<or> c = 0x0A \<or> c = 0x09 \<or> c = 0x20 \<or> (c = 0x71 \<and> k_mode s = SKK_MODE_MIDASHI)"
  consider "tok \<noteq> TOK_NONE" | "tok = TOK_NONE" "c = 0x07" | "tok = TOK_NONE" "c = 0x08 \<or> c = 0x7F" | "tok = TOK_NONE" "c = 0x0A"
    | "tok = TOK_NONE" "c = 0x09" | "tok = TOK_NONE" "c = 0x20" | "tok = TOK_NONE" "c = 0x71" "k_mode s = SKK_MODE_MIDASHI"
    | "tok = TOK_NONE" "\<not> ?special" "0x41 \<le> c" "c \<le> 0x5A"
    | "tok = TOK_NONE" "\<not> ?special" "\<not> (0x41 \<le> c \<and> c \<le> 0x5A)" "0x21 \<le> c" "c \<le> 0x7E"
    | "tok = TOK_NONE" "\<not> ?special" "\<not> (0x41 \<le> c \<and> c \<le> 0x5A)" "\<not> (0x21 \<le> c \<and> c \<le> 0x7E)" by blast
  then show ?thesis
  proof cases
    case 1
    obtain u v where p: "(if tok = TOK_ESC then span_cancel s st else (s, st)) = (u, v)" by fastforce
    have "moved st u v"
    proof (cases "tok = TOK_ESC")
      case True
      then show ?thesis using p left_moved[OF span_cancel_left[OF B]] by simp
    next
      case False
      then show ?thesis using p i by (simp add: moved_def)
    qed
    moreover have "t = u" "st' = v OR SKK_ST_CONSUMED" using d p 1 by (simp_all add: dispatch_span_def)
    ultimately show ?thesis by (simp add: moved_def)
  next
    case 2
    then have "span_cancel s st = (t, st')" using d by (simp add: dispatch_span_def)
    from span_cancel_left[OF B this] show ?thesis by (auto simp: left_def moved_def)
  next
    case 3
    then have "span_backspace s st = (t, st')" "k_comp_len s = 0" using d z by (auto simp: dispatch_span_def)
    from span_backspace_moved[OF i m this(2,1)] show ?thesis .
  next
    case 4
    then have "commit_reading s1 st1 = (t, st')" using d f by (simp add: dispatch_span_def)
    from commit_reading_left[OF B1 this] show ?thesis by (rule L)
  next
    case 5
    then have "span_complete s st = (t, st')" using d by (simp add: dispatch_span_def)
    from span_complete_moved[OF i this] show ?thesis .
  next
    case 6
    obtain u v where p: "(if k_reading s1 = [] then span_cancel s1 st1 else convert s1 st1) = (u, v)" by fastforce
    have e: "t = u" "st' = v OR SKK_ST_CONSUMED" using d p 6 f by (simp_all add: dispatch_span_def)
    have "moved st1 u v"
    proof (cases "k_reading s1 = []")
      case True
      then show ?thesis using p left_moved[OF span_cancel_left[OF B1]] by simp
    next
      case False
      then show ?thesis using p convert_moved[of s1 st1 u v] F m by simp
    qed
    then show ?thesis using F moved_quiet[of st st1 u v] by (simp add: e moved_def)
  next
    case 7
    then have "commit_katakana s1 st1 = (t, st')" using d f by (simp add: dispatch_span_def)
    from commit_katakana_left[OF B1 this] show ?thesis by (rule L)
  next
    case 8
    have q: "c \<noteq> 0x71" using 8(4) by auto
    define l0 where "l0 = c - 0x41 + 0x61"
    have l: "l0 \<noteq> 0" using lower_nonzero[OF 8(3,4)] by (simp only: l0_def not_False_eq_True)
    obtain s2 st2 where r: "roma_feed s l0 st = (s2, st2)" by fastforce
    have e0: "(if k_mode s = SKK_MODE_MIDASHI then (if k_reading s = [] then (s2, st2) else okuri_start s l0 st)
        else okuri_maybe_convert s2 st2) = (t, st')"
      using d[unfolded dispatch_span_def Let_def, folded l0_def] 8 r q by (auto split: if_splits)
    note e = e0[symmetric]
    show ?thesis
    proof (cases "k_mode s = SKK_MODE_MIDASHI")
      case True
      show ?thesis
      proof (cases "k_reading s = []")
        case T: True
        then show ?thesis using e True roma_feed_moved[OF i ty l r] by (simp add: moved_def)
      next
        case False
        then have "okuri_start s l0 st = (t, st')" using e True by simp
        from okuri_start_moved[OF i True False l this] show ?thesis .
      qed
    next
      case False
      then have "okuri_maybe_convert s2 st2 = (t, st')" using e0 by simp
      from after[OF r this l] show ?thesis .
    qed
  next
    case 9
    obtain s2 st2 where r: "roma_feed s c st = (s2, st2)" by fastforce
    have "okuri_maybe_convert s2 st2 = (t, st')" using d 9 r unfolding dispatch_span_def by auto
    moreover have "c \<noteq> 0" using 9 by auto
    ultimately show ?thesis using after[OF r] by simp
  next
    case 10
    obtain s2 st2 where g: "emit s1 (take seq key) st1 = (s2, st2)" by fastforce
    have "typing (k_mode s1)" using F ty by simp
    note E = emit_moved[OF _ this g]
    obtain s3 st3 where h: "okuri_maybe_convert s2 st2 = (s3, st3)" by fastforce
    have e: "(t, st') = (if c = 0 \<and> hd key \<ge> 0x80 then (s3, st3 OR SKK_ST_PREEDIT) else (s, st OR SKK_ST_CONSUMED))"
      using d 10 f g h unfolding dispatch_span_def by auto
    have q: "quiet st st2" using E F quiet_trans by blast
    have "moved st s3 st3" using okuri_maybe_convert_moved[OF _ h] E F moved_quiet[OF q] by blast
    then show ?thesis using e i by (auto simp: moved_def split: if_splits)
  qed
qed

lemma dispatch_select_ok:
  assumes i: "kana_inv s" and m: "k_mode s = SKK_MODE_SELECT" and z: "k_comp_len s = 0 \<or> (c = 0x09 \<and> tok = TOK_NONE)"
    and o: "tok \<noteq> TOK_OTHER" and d: "dispatch_select s key c seq tok st = (again, t, st')"
  shows "moved st t st' \<and> st' \<noteq> 0 \<and> (again \<longrightarrow> k_mode t = k_base t \<and> (cands_bit st' \<longleftrightarrow> cands_bit st) \<and> k_comp_len t = k_comp_len s)"
proof -
  note B = kana_invD(1)[OF i]
  have sel: "0 \<le> k_sel s" using kana_modeD(3)[OF i m] by blast
  obtain s1 st1 where g: "commit_selection s st = (s1, st1)" by fastforce
  note G = commit_selection_left[OF B g]
  have S: "moved st t st' \<and> st' \<noteq> 0 \<and> (again \<longrightarrow> k_mode t = k_base t \<and> (cands_bit st' \<longleftrightarrow> cands_bit st) \<and> k_comp_len t = k_comp_len s)"
    if "(again, t, st') = (False, sel_move s delta st)" "k_comp_len s = 0 \<or> delta = 1" for delta
    using sel_move_moved[OF i m, of delta st t st'] that sel by auto
  let ?tok = "tok = TOK_PREV \<or> tok = TOK_NEXT \<or> tok = TOK_ESC \<or> tok = TOK_DEL \<or> tok = TOK_SWALLOW"
  have z0: "k_comp_len s = 0" if "?tok \<or> c \<noteq> 0x09" using that z by auto
  consider "tok = TOK_PREV" | "tok = TOK_NEXT" | "tok = TOK_ESC" | "tok = TOK_DEL \<or> tok = TOK_SWALLOW"
    | "tok = TOK_NONE" "c = 0x20" | "tok = TOK_NONE" "c = 0x78" | "tok = TOK_NONE" "c = 0x07 \<or> c = 0x08" | "tok = TOK_NONE" "c = 0x0A"
    | "tok = TOK_NONE" "c \<notin> {0x20, 0x78, 0x07, 0x08, 0x0A}"
    using o by (cases tok) auto
  then show ?thesis
  proof cases
    case 1
    then show ?thesis using d z0 by (intro S[of "-1"]) (simp_all add: dispatch_select_def)
  next
    case 2
    then show ?thesis using d by (intro S[of 1]) (simp_all add: dispatch_select_def)
  next
    case 3
    then show ?thesis using d z0 by (intro S[of "-1 - k_sel s"]) (simp_all add: dispatch_select_def)
  next
    case 4
    then show ?thesis using d i by (auto simp: dispatch_select_def moved_def)
  next
    case 5
    then show ?thesis using d by (intro S[of 1]) (simp_all add: dispatch_select_def)
  next
    case 6
    then show ?thesis using d z0 by (intro S[of "-1"]) (simp_all add: dispatch_select_def)
  next
    case 7
    then show ?thesis using d z0 by (intro S[of "-1 - k_sel s"]) (auto simp: dispatch_select_def)
  next
    case 8
    then show ?thesis using d g G by (simp add: dispatch_select_def left_def moved_def)
  next
    case 9
    obtain ok s2 where a: "add_commit s1 (take seq key) = (ok, s2)" by fastforce
    have e: "(again, t, st') = (if c = 0 \<and> hd key \<ge> 0x80 then (False, s2, if ok then st1 OR SKK_ST_COMMIT else st1) else (True, s1, st1))"
      using d 9 g a unfolding dispatch_select_def by auto
    have b1: "kana_bounds s1" "kana_mode_ok s1" using G by (simp_all add: left_def kana_inv_def)
    obtain w where w: "s2 = s1\<lparr>k_commit := k_commit s1 @ w\<rparr>" using add_commit_spec[OF a kana_boundsD(5)[OF b1(1)]] by blast
    have "kana_inv s2" using add_commit_bounds[OF a b1(1)] b1(2) by (simp add: kana_inv_def w)
    then show ?thesis using e G by (auto simp: left_def moved_def split: if_splits)
  qed
qed

lemma key_head_cases:
  assumes "key_head key = HEAD c seq tok"
  shows "tok \<noteq> TOK_OTHER" "key = [0x09] \<Longrightarrow> c = 0x09 \<and> tok = TOK_NONE"
proof -
  show "tok \<noteq> TOK_OTHER" using assms by (auto simp: key_head_def Let_def split: if_splits)
  show "c = 0x09 \<and> tok = TOK_NONE" if "key = [0x09]" using assms that by (simp add: key_head_def Let_def)
qed

lemma dispatch_ok:
  assumes i: "kana_inv s" and z: "k_comp_len s = 0 \<or> key = [0x09]" and d: "dispatch s key st = (again, t, st')"
  shows "pass_ok s st t st' \<and> (again \<longrightarrow> k_mode t = k_base t \<and> (cands_bit st' \<longleftrightarrow> cands_bit st) \<and> st' \<noteq> 0 \<and> k_comp_len t = k_comp_len s) \<and>
    (k_mode s \<noteq> SKK_MODE_SELECT \<longrightarrow> \<not> again)"
proof (cases "key_head key")
  case HEAD_PASS
  then show ?thesis using d pass_ok_id[OF i] by (simp add: dispatch_def)
next
  case HEAD_BROKEN
  then have "t = s" "\<not> again" "st' = st \<or> st' = st OR SKK_ST_CONSUMED" using d by (auto simp: dispatch_def)
  then show ?thesis using pass_ok_id[OF i] by (auto simp: pass_ok_def moved_def)
next
  case (HEAD c seq tok)
  have z': "k_comp_len s = 0 \<or> (c = 0x09 \<and> tok = TOK_NONE)" using z key_head_cases(2)[OF HEAD] by blast
  then have z2: "k_comp_len s = 0 \<or> c = 0x09" by blast
  show ?thesis
  proof (cases "k_mode s")
    case SKK_MODE_ASCII
    then show ?thesis using d HEAD pass_ok_id[OF i] by (simp add: dispatch_def)
  next
    case SKK_MODE_KANA
    then have "dispatch_kana s key c seq tok st = (t, st')" "\<not> again" using d HEAD by (simp_all add: dispatch_def)
    then show ?thesis using dispatch_kana_ok[OF i _ z2] SKK_MODE_KANA by simp
  next
    case SKK_MODE_KATA
    then have "dispatch_kana s key c seq tok st = (t, st')" "\<not> again" using d HEAD by (simp_all add: dispatch_def)
    then show ?thesis using dispatch_kana_ok[OF i _ z2] SKK_MODE_KATA by simp
  next
    case SKK_MODE_MIDASHI
    then have "dispatch_span s key c seq tok st = (t, st')" "\<not> again" using d HEAD by (simp_all add: dispatch_def)
    then show ?thesis using dispatch_span_ok[OF i _ z2] SKK_MODE_MIDASHI by (simp add: pass_ok_def)
  next
    case SKK_MODE_OKURI
    then have "dispatch_span s key c seq tok st = (t, st')" "\<not> again" using d HEAD by (simp_all add: dispatch_def)
    then show ?thesis using dispatch_span_ok[OF i _ z2] SKK_MODE_OKURI by (simp add: pass_ok_def)
  next
    case SKK_MODE_SELECT
    then have "dispatch_select s key c seq tok st = (again, t, st')" using d HEAD by (simp add: dispatch_def)
    from dispatch_select_ok[OF i SKK_MODE_SELECT z' key_head_cases(1)[OF HEAD] this] show ?thesis
      using SKK_MODE_SELECT by (simp add: pass_ok_def)
  qed
qed

section \<open>The preedit\<close>

text \<open>The spans partition the preedit: none is empty and each begins where the one before it ends.\<close>

fun spans_from :: "nat \<Rightarrow> skk_span list \<Rightarrow> nat \<Rightarrow> bool" where
  "spans_from off [] n \<longleftrightarrow> off = n"
| "spans_from off (sp # sps) n \<longleftrightarrow> sp_off sp = off \<and> 0 < sp_len sp \<and> spans_from (off + sp_len sp) sps n"

definition spans_ok :: "skk_t \<Rightarrow> bool" where
  "spans_ok s \<longleftrightarrow> length (k_preedit s) \<le> 191 \<and> length (k_span s) \<le> SKK_SPAN_MAX \<and> spans_from 0 (k_span s) (length (k_preedit s))"

lemma spans_from_snoc: "spans_from off sps n \<Longrightarrow> 0 < sp_len sp \<Longrightarrow> sp_off sp = n \<Longrightarrow> spans_from off (sps @ [sp]) (n + sp_len sp)"
  by (induction off sps n rule: spans_from.induct) auto

lemma pre_span_spec:
  assumes "spans_ok s" "length (k_span s) < SKK_SPAN_MAX"
  shows "spans_ok (pre_span s kind p) \<and> length (k_span (pre_span s kind p)) \<le> length (k_span s) + 1 \<and>
    (length (k_preedit s) + length p \<le> 191 \<longrightarrow> k_preedit (pre_span s kind p) = k_preedit s @ p)"
proof (cases "length p > SKK_PREEDIT_MAX - 1 - length (k_preedit s) \<or> p = []")
  case True
  then have "pre_span s kind p = s" by (auto simp: pre_span_def pre_add_def Let_def)
  then show ?thesis using True assms by (auto simp: SKK_PREEDIT_MAX_def)
next
  case False
  then have "pre_span s kind p = s\<lparr>k_preedit := k_preedit s @ p,
      k_span := k_span s @ [\<lparr>sp_off = length (k_preedit s), sp_len = length p, sp_kind = kind\<rparr>]\<rparr>"
    using assms(2) by (simp add: pre_span_def pre_add_def Let_def)
  moreover have "length (k_preedit s) + length p \<le> 191"
  proof -
    have "length (k_preedit s) \<le> 191" "\<not> 191 - length (k_preedit s) < length p" using False assms(1) by (simp_all add: spans_ok_def SKK_PREEDIT_MAX_def)
    then show ?thesis by arith
  qed
  ultimately show ?thesis
    using False assms spans_from_snoc[of 0 "k_span s" "length (k_preedit s)" "\<lparr>sp_off = length (k_preedit s), sp_len = length p, sp_kind = kind\<rparr>"]
    by (simp add: spans_ok_def SKK_PREEDIT_MAX_def)
qed

lemma pre_spans_spec:
  assumes "spans_ok s" "length (k_span s) + length parts \<le> SKK_SPAN_MAX"
  shows "spans_ok (foldl (\<lambda>t (kind, p). pre_span t kind p) s parts) \<and>
    (length (k_preedit s) + sum_list (map (length \<circ> snd) parts) \<le> 191 \<longrightarrow>
       k_preedit (foldl (\<lambda>t (kind, p). pre_span t kind p) s parts) = k_preedit s @ concat (map snd parts))"
  using assms
proof (induction parts arbitrary: s)
  case Nil
  then show ?case by simp
next
  case (Cons x parts)
  obtain kind p where x: "x = (kind, p)" by (cases x)
  have "length (k_span s) < SKK_SPAN_MAX" using Cons.prems(2) by simp
  note P = pre_span_spec[OF Cons.prems(1) this, of kind p]
  have "length (k_span (pre_span s kind p)) + length parts \<le> SKK_SPAN_MAX" using P Cons.prems(2) by simp
  from Cons.IH[OF _ this] P show ?case by (auto simp: x)
qed

lemma parts_clear [simp]: "preedit_parts (s\<lparr>k_preedit := p, k_span := q\<rparr>) = preedit_parts s"
  by (cases "k_mode s") (simp_all add: preedit_parts_def skk_cand_at_def Let_def split: option.split)

lemma parts_frame [simp]: "preedit_parts (s\<lparr>k_stats := x\<rparr>) = preedit_parts s" "preedit_parts (s\<lparr>k_commit := c\<rparr>) = preedit_parts s"
    "preedit_parts (s\<lparr>k_comp_len := n\<rparr>) = preedit_parts s" "preedit_parts (s\<lparr>k_comp_i := j\<rparr>) = preedit_parts s"
  by (cases "k_mode s"; simp add: preedit_parts_def skk_cand_at_def Let_def split: option.split)+

lemma pre_span_form: "\<exists>p q. pre_span s kind x = s\<lparr>k_preedit := p, k_span := q\<rparr>"
  by (rule exI[of _ "k_preedit (pre_span s kind x)"], rule exI[of _ "k_span (pre_span s kind x)"])
    (simp add: pre_span_def pre_add_def Let_def)

lemma pre_span_frame:
  "k_mode (pre_span s kind p) = k_mode s" "kana_inv (pre_span s kind p) = kana_inv s" "preedit_parts (pre_span s kind p) = preedit_parts s"
  "k_commit (pre_span s kind p) = k_commit s"
proof -
  obtain x y where "pre_span s kind p = s\<lparr>k_preedit := x, k_span := y\<rparr>" using pre_span_form by blast
  then show "k_mode (pre_span s kind p) = k_mode s" "kana_inv (pre_span s kind p) = kana_inv s"
    "preedit_parts (pre_span s kind p) = preedit_parts s" "k_commit (pre_span s kind p) = k_commit s"
    by (simp_all add: kana_inv_def)
qed

lemma foldl_pre_span_frame:
  "k_mode (foldl (\<lambda>t (kind, p). pre_span t kind p) s parts) = k_mode s \<and>
   kana_inv (foldl (\<lambda>t (kind, p). pre_span t kind p) s parts) = kana_inv s \<and>
   preedit_parts (foldl (\<lambda>t (kind, p). pre_span t kind p) s parts) = preedit_parts s \<and>
   k_commit (foldl (\<lambda>t (kind, p). pre_span t kind p) s parts) = k_commit s \<and>
   k_sel (foldl (\<lambda>t (kind, p). pre_span t kind p) s parts) = k_sel s"
proof (induction parts arbitrary: s)
  case (Cons x parts)
  have "k_sel (pre_span s (fst x) (snd x)) = k_sel s" by (simp add: pre_span_def pre_add_def Let_def)
  then show ?case using Cons[of "pre_span s (fst x) (snd x)"] by (simp add: case_prod_beta pre_span_frame)
qed simp

lemma build_preedit_frame [simp]:
  "k_mode (build_preedit s) = k_mode s" "kana_inv (build_preedit s) = kana_inv s" "preedit_parts (build_preedit s) = preedit_parts s"
  "k_commit (build_preedit s) = k_commit s" "k_sel (build_preedit s) = k_sel s"
  using foldl_pre_span_frame[of "s\<lparr>k_preedit := [], k_span := []\<rparr>" "preedit_parts s"]
  by (simp_all add: build_preedit_def kana_inv_def)

lemma preedit_parts_bound: "length (preedit_parts s) \<le> SKK_SPAN_MAX"
  by (cases "k_mode s") (simp_all add: preedit_parts_def SKK_SPAN_MAX_def)

lemma parts_fit:
  assumes "kana_inv s" "k_mode s \<noteq> SKK_MODE_SELECT"
  shows "sum_list (map (length \<circ> snd) (preedit_parts s)) \<le> 191"
proof -
  note B = kana_boundsD[OF kana_invD(1)[OF assms(1)]]
  have "length (k_roma s) \<le> 3" using roma_ok_bound[OF B(1)] by simp
  then show ?thesis using assms(2) B(2,3) by (cases "k_mode s") (simp_all add: preedit_parts_def MARK_MIDASHI_def)
qed

text \<open>The preedit on display: partitioned by its spans and, outside the selection, exactly its parts.\<close>

definition shown :: "skk_t \<Rightarrow> bool" where
  "shown s \<longleftrightarrow> spans_ok s \<and> (k_mode s \<noteq> SKK_MODE_SELECT \<longrightarrow> k_preedit s = concat (map snd (preedit_parts s)))"

lemma build_preedit_shown:
  assumes "kana_inv s"
  shows "shown (build_preedit s)"
proof -
  let ?s = "s\<lparr>k_preedit := [], k_span := []\<rparr>"
  have "spans_ok ?s" by (simp add: spans_ok_def)
  from pre_spans_spec[OF this, of "preedit_parts s"] preedit_parts_bound[of s]
  have P: "spans_ok (build_preedit s) \<and> (sum_list (map (length \<circ> snd) (preedit_parts s)) \<le> 191 \<longrightarrow>
      k_preedit (build_preedit s) = concat (map snd (preedit_parts s)))"
    by (simp add: build_preedit_def)
  then show ?thesis using parts_fit[OF assms] by (simp add: shown_def)
qed

section \<open>The entry points keep the invariant\<close>

lemma key_start_inv: "kana_inv s \<Longrightarrow> kana_inv (key_start s)"
  by (simp add: key_start_def kana_inv_def kana_bounds_def)

lemma key_comp_inv: "kana_inv s \<Longrightarrow> kana_inv (key_comp s key)"
proof -
  assume i: "kana_inv s"
  have "kana_mode_ok (s\<lparr>k_comp_len := 0, k_comp_i := 0\<rparr>)"
    using i by (cases "k_mode s") (simp_all add: kana_inv_def kana_mode_ok_def idle_def)
  then show ?thesis using i by (simp add: key_comp_def kana_inv_def)
qed

lemma key_twice_ok:
  assumes i: "kana_inv s" and z: "k_comp_len s = 0 \<or> key = [0x09]" and k: "key_twice s key = (t, st)"
  shows "pass_ok s 0 t st"
proof -
  obtain again s1 st1 where d: "dispatch s key 0 = (again, s1, st1)" by (metis prod_cases3)
  note D = dispatch_ok[OF i z d]
  show ?thesis
  proof (cases again)
    case False
    then show ?thesis using k d D by (simp add: key_twice_def)
  next
    case True
    obtain again2 r where r: "dispatch s1 key st1 = (again2, r)" by (metis prod.exhaust)
    have d2: "dispatch s1 key st1 = (again2, t, st)" using k d True r by (simp add: key_twice_def)
    have i1: "kana_inv s1" and b1: "k_mode s1 = k_base s1" "st1 \<noteq> 0" "\<not> cands_bit st1" "k_comp_len s1 = k_comp_len s"
      using D True by (auto simp: pass_ok_def moved_def)
    have "k_comp_len s1 = 0 \<or> key = [0x09]" using z b1(4) by simp
    note D2 = dispatch_ok[OF i1 this d2]
    then show ?thesis using b1 by (auto simp: pass_ok_def moved_def)
  qed
qed

lemma skk_key_ok:
  assumes i: "kana_inv s" and k: "skk_key s key = (t, st)"
  shows "kana_inv t \<and> (shown s \<longrightarrow> shown t) \<and> (st \<noteq> 0 \<longrightarrow> st AND SKK_ST_CONSUMED \<noteq> 0) \<and>
    (cands_bit st \<longrightarrow> k_mode t = SKK_MODE_SELECT \<and> k_sel t = 0) \<and>
    (st = 0 \<longrightarrow> t = key_start s \<or> t = key_comp (key_start s) key)"
proof (cases "\<not> k_enabled (key_start s) \<or> key = []")
  case True
  then have "t = key_start s" "st = 0" using k by (simp_all add: skk_key_def Let_def)
  moreover have "shown (key_start s) = shown s"
    by (simp add: shown_def spans_ok_def key_start_def)
  ultimately show ?thesis using key_start_inv[OF i] by simp
next
  case False
  let ?s = "key_comp (key_start s) key"
  have i2: "kana_inv ?s" by (rule key_comp_inv[OF key_start_inv[OF i]])
  have z: "k_comp_len ?s = 0 \<or> key = [0x09]" by (simp add: key_comp_def)
  obtain u v where w: "key_twice ?s key = (u, v)" by fastforce
  note W = key_twice_ok[OF i2 z w]
  have K: "(t, st) = (if v = 0 then (u, 0)
      else (build_preedit (u\<lparr>k_stats := (k_stats u)\<lparr>st_consumed := st_consumed (k_stats u) + 1\<rparr>\<rparr>), v OR SKK_ST_CONSUMED))"
    using k w unfolding skk_key_def Let_def if_not_P[OF False] by simp
  show ?thesis
  proof (cases "v = 0")
    case True
    then have "t = ?s" "st = 0" using K W by (simp_all add: pass_ok_def)
    moreover have "shown ?s = shown s"
      by (simp add: shown_def spans_ok_def key_start_def key_comp_def)
    ultimately show ?thesis using i2 by simp
  next
    case False
    let ?u = "u\<lparr>k_stats := (k_stats u)\<lparr>st_consumed := st_consumed (k_stats u) + 1\<rparr>\<rparr>"
    have u: "kana_inv ?u" using W by (simp add: pass_ok_def moved_def kana_inv_def)
    have e: "t = build_preedit ?u" "st = v OR SKK_ST_CONSUMED" using K False by simp_all
    have c: "st AND SKK_ST_CONSUMED \<noteq> 0"
    proof -
      have "bit st 0" unfolding e(2) SKK_ST_CONSUMED_def by (simp add: bit_or_iff)
      then show ?thesis by (simp add: SKK_ST_CONSUMED_def and_one_eq odd_iff_mod_2_eq_one bit_0)
    qed
    show ?thesis using u W False c build_preedit_shown[OF u] by (simp add: e pass_ok_def moved_def)
  qed
qed

datatype kana_event =
    KOpen nat bytes bool | KDetach | KReset | KEnable bool | KSetMode skk_mode | KKey bytes | KStatsReset

text \<open>A session is driven by its entry points; only dictionaries that opened are attached.\<close>

fun kana_step :: "skk_t \<Rightarrow> kana_event \<Rightarrow> skk_t" where
  "kana_step s (KOpen base img verify) = (case skk_dict_open base img verify of Inl _ \<Rightarrow> s | Inr d \<Rightarrow> skk_attach s (Some d))"
| "kana_step s KDetach = skk_attach s None"
| "kana_step s KReset = skk_reset s"
| "kana_step s (KEnable on) = skk_enable s on"
| "kana_step s (KSetMode m) = (case skk_set_mode s m of Inl _ \<Rightarrow> s | Inr t \<Rightarrow> t)"
| "kana_step s (KKey key) = fst (skk_key s key)"
| "kana_step s KStatsReset = skk_stats_reset s"

definition kana_good :: "skk_t \<Rightarrow> bool" where "kana_good s \<longleftrightarrow> kana_inv s \<and> shown s"

lemma kana_good_built: "kana_inv s \<Longrightarrow> kana_good (build_preedit s)"
  by (simp add: kana_good_def build_preedit_shown)

lemma shown_dict [simp]: "k_mode s \<noteq> SKK_MODE_SELECT \<Longrightarrow> preedit_parts (s\<lparr>k_dict := d\<rparr>) = preedit_parts s"
  by (cases "k_mode s") (simp_all add: preedit_parts_def)

lemma skk_attach_good: "kana_good s \<Longrightarrow> (\<And>x. d = Some x \<Longrightarrow> dict_ok x) \<Longrightarrow> kana_good (skk_attach s d)"
  by (simp add: kana_good_def skk_attach_def kana_inv_def kana_bounds_def shown_def spans_ok_def)

lemma skk_reset_good: "kana_bounds s \<Longrightarrow> kana_good (skk_reset s)"
  unfolding skk_reset_def Let_def
  by (rule kana_good_built) (auto simp: kana_inv_def kana_bounds_def kana_mode_ok_def clear_span_def idle_def)

lemma skk_set_mode_good: "kana_bounds s \<Longrightarrow> skk_set_mode s m = Inr t \<Longrightarrow> kana_good t"
  unfolding skk_set_mode_def Let_def
  by (auto split: if_splits intro!: kana_good_built simp: kana_inv_def kana_bounds_def kana_mode_ok_def clear_span_def idle_def)

lemma skk_stats_reset_good: "kana_good s \<Longrightarrow> kana_good (skk_stats_reset s)"
  by (auto simp: kana_good_def skk_stats_reset_def kana_inv_def shown_def spans_ok_def)

lemma kana_step_good:
  assumes "kana_good s"
  shows "kana_good (kana_step s e)"
proof (cases e)
  case (KOpen base img verify)
  show ?thesis
  proof (cases "skk_dict_open base img verify")
    case (Inr d)
    then have "dict_ok d" using open_success by blast
    then show ?thesis using skk_attach_good[OF assms, of "Some d"] KOpen Inr by simp
  qed (use assms KOpen in simp)
next
  case KDetach
  then show ?thesis using skk_attach_good[OF assms, of None] by simp
next
  case KReset
  then show ?thesis using skk_reset_good assms by (simp add: kana_good_def kana_inv_def)
next
  case (KEnable on)
  then show ?thesis using skk_reset_good assms by (simp add: skk_enable_def kana_good_def kana_inv_def)
next
  case (KSetMode m)
  then show ?thesis using skk_set_mode_good[of s m] assms by (cases "skk_set_mode s m") (simp_all add: kana_good_def kana_inv_def)
next
  case (KKey key)
  obtain t st where "skk_key s key = (t, st)" by fastforce
  then show ?thesis using skk_key_ok[of s key t st] assms KKey by (simp add: kana_good_def)
next
  case KStatsReset
  then show ?thesis using skk_stats_reset_good assms by simp
qed

lemma skk_init_good: "kana_good skk_init"
  by (simp add: kana_good_def skk_init_def kana_inv_def kana_bounds_def kana_mode_ok_def idle_def shown_def spans_ok_def preedit_parts_def)

interpretation kana_machine: started_machine kana_step kana_good skk_init
  by unfold_locales (rule kana_step_good, assumption, rule skk_init_good)

section \<open>Typing table entries\<close>

lemma fed_chain:
  assumes "(r @ t, k) \<in> set ROMA" "t \<noteq> []" "k_roma s = r" "c = hd t" "tl t \<noteq> []"
  shows "roma_feed s c st = (s\<lparr>k_roma := r @ [c]\<rparr>, st OR SKK_ST_PREEDIT)"
proof -
  have t: "t = c # tl t" using assms(2,4) by simp
  note R = ROMA_entry[OF assms(1)]
  have e: "roma_extends (r @ [c])" using roma_extendsI[of "r @ [c]" "tl t" k] assms(1,5) t by simp
  have len: "length (r @ [c]) \<le> 4" "0 \<notin> set (r @ [c])" using R(2,6) t by (cases t; auto)+
  have f: "roma_find (r @ [c]) = (map_of ROMA (r @ [c]), True)" using roma_find_spec[of "r @ [c]"] len e by simp
  have "roma_pass s c st = Inr (s\<lparr>k_roma := r @ [c]\<rparr>, st OR SKK_ST_PREEDIT)"
    using len(1) by (simp add: roma_pass_def Let_def SKK_ROMA_MAX_def assms(3) f)
  then show ?thesis by (simp add: roma_feed_def numeral_3_eq_3)
qed

definition roma_feeds :: "skk_t \<times> u32 \<Rightarrow> bytes \<Rightarrow> skk_t \<times> u32" where
  "roma_feeds = foldl (\<lambda>(t, st) c. roma_feed t c st)"

lemma roma_feeds_append: "roma_feeds x (a @ b) = roma_feeds (roma_feeds x a) b"
  by (simp add: roma_feeds_def)

lemma roma_feeds_prefix: "(p @ q, k) \<in> set ROMA \<Longrightarrow> q \<noteq> [] \<Longrightarrow> k_roma s = [] \<Longrightarrow> \<exists>st'. roma_feeds (s, st) p = (s\<lparr>k_roma := p\<rparr>, st')"
proof (induction p arbitrary: q rule: rev_induct)
  case Nil
  then show ?case by (simp add: roma_feeds_def)
next
  case (snoc c p)
  obtain st1 where "roma_feeds (s, st) p = (s\<lparr>k_roma := p\<rparr>, st1)" using snoc.IH[of "c # q"] snoc.prems by auto
  moreover have "roma_feed (s\<lparr>k_roma := p\<rparr>) c st1 = (s\<lparr>k_roma := p\<rparr>\<lparr>k_roma := p @ [c]\<rparr>, st1 OR SKK_ST_PREEDIT)"
    using fed_chain[of p "c # q" k "s\<lparr>k_roma := p\<rparr>" c st1] snoc.prems by simp
  ultimately show ?case unfolding roma_feeds_append by (simp add: roma_feeds_def)
qed

lemma roma_feeds_entry:
  assumes e: "(r, k) \<in> set ROMA" "\<not> roma_extends r" and s: "k_roma s = []" "k_mode s = SKK_MODE_KANA" "k_base s = SKK_MODE_KANA"
    and l: "length (k_commit s) + length k \<le> 254"
  shows "\<exists>st'. roma_feeds (s, st) r = (s\<lparr>k_commit := k_commit s @ k\<rparr>, st')"
proof -
  note R = ROMA_entry[OF e(1)]
  have r: "r = butlast r @ [last r]" using R(1) by simp
  obtain st1 where b: "roma_feeds (s, st) (butlast r) = (s\<lparr>k_roma := butlast r\<rparr>, st1)"
    using roma_feeds_prefix[of "butlast r" "[last r]" k s st] e(1) r s(1) by auto
  have f: "roma_find (butlast r @ [last r]) = (Some k, False)"
    using roma_find_spec[OF R(6,1,2)] e ROMA_distinct r by simp
  let ?s0 = "s\<lparr>k_roma := []\<rparr>"
  have s0: "?s0 = s" using s(1) by simp
  obtain ok u where a: "add_commit s k = (ok, u)" by fastforce
  have u: "u = s\<lparr>k_commit := k_commit s @ k\<rparr>" "ok"
    using add_commit_spec[OF a] l by auto
  have em: "emit s k st1 = (u, st1 OR SKK_ST_COMMIT)" using s R(4) a u by (simp add: emit_def)
  have "length (butlast r) < SKK_ROMA_MAX" using R(2) by (simp add: SKK_ROMA_MAX_def)
  then have "roma_pass (s\<lparr>k_roma := butlast r\<rparr>) (last r) st1 = Inr (u, (st1 OR SKK_ST_COMMIT) OR SKK_ST_PREEDIT)"
    using f em s0 by (simp add: roma_pass_def Let_def)
  then have "roma_feed (s\<lparr>k_roma := butlast r\<rparr>) (last r) st1 = (u, (st1 OR SKK_ST_COMMIT) OR SKK_ST_PREEDIT)"
    by (simp add: roma_feed_def numeral_3_eq_3)
  then have "roma_feeds (s, st) (butlast r @ [last r]) = (u, (st1 OR SKK_ST_COMMIT) OR SKK_ST_PREEDIT)"
    unfolding roma_feeds_append b by (simp add: roma_feeds_def)
  then show ?thesis unfolding r[symmetric] u(1) by blast
qed

lemma roma_feeds_words:
  assumes "\<forall>(r, k) \<in> set ws. (r, k) \<in> set ROMA \<and> \<not> roma_extends r" "k_roma s = []" "k_mode s = SKK_MODE_KANA" "k_base s = SKK_MODE_KANA"
    "length (k_commit s) + length (concat (map snd ws)) \<le> 254"
  shows "\<exists>st'. roma_feeds (s, st) (concat (map fst ws)) = (s\<lparr>k_commit := k_commit s @ concat (map snd ws)\<rparr>, st')"
  using assms
proof (induction ws arbitrary: s st)
  case Nil
  then show ?case by (simp add: roma_feeds_def)
next
  case (Cons w ws)
  obtain r k where w: "w = (r, k)" by (cases w)
  have e: "(r, k) \<in> set ROMA" "\<not> roma_extends r" using Cons.prems(1) w by auto
  obtain st1 where f: "roma_feeds (s, st) r = (s\<lparr>k_commit := k_commit s @ k\<rparr>, st1)"
    using roma_feeds_entry[OF e, of s st] Cons.prems w by auto
  obtain st2 where "roma_feeds (s\<lparr>k_commit := k_commit s @ k\<rparr>, st1) (concat (map fst ws)) =
      (s\<lparr>k_commit := k_commit s @ k\<rparr>\<lparr>k_commit := (k_commit s @ k) @ concat (map snd ws)\<rparr>, st2)"
    using Cons.IH[of "s\<lparr>k_commit := k_commit s @ k\<rparr>" st1] Cons.prems w by auto
  then show ?case by (simp add: w roma_feeds_append f)
qed

section \<open>Properties\<close>



text \<open>The bits that a key returns tell the caller the truth: a key that is not passed
  through is marked consumed, a key that is passed through leaves the session alone but for its counters,
  its last commit and an unfinished completion cycle, and new candidates always come in selection mode
  with the first one selected.\<close>

lemma skk_key_status:
  assumes "skk_key (foldl kana_step skk_init es) key = (t, st)"
  shows "(st \<noteq> 0 \<longrightarrow> st AND SKK_ST_CONSUMED \<noteq> 0) \<and>
    (st = 0 \<longrightarrow> t = key_start (foldl kana_step skk_init es) \<or> t = key_comp (key_start (foldl kana_step skk_init es)) key) \<and>
    (st AND SKK_ST_CANDS \<noteq> 0 \<longrightarrow> k_mode t = SKK_MODE_SELECT \<and> k_sel t = 0)"
proof -
  have "kana_inv (foldl kana_step skk_init es)" using kana_machine.reachable_inv by (simp add: kana_good_def)
  from skk_key_ok[OF this assms] show ?thesis unfolding cands_bit_def by blast
qed

lemma skk_key_status_witness:
  "snd (skk_key (foldl kana_step skk_init [KEnable True]) [0x6C]) = 0x23 \<and>
   snd (skk_key (foldl kana_step skk_init [KEnable True]) [0x6C]) AND SKK_ST_CONSUMED \<noteq> 0"
proof -
  let ?r = "skk_key (foldl kana_step skk_init [KEnable True]) [0x6C]"
  have v: "snd ?r = 0x23"
    by (simp add: skk_init_def skk_enable_def skk_reset_def clear_span_def build_preedit_def preedit_parts_def pre_span_def pre_add_def
        skk_key_def key_start_def key_comp_def key_twice_def dispatch_def key_head_def dispatch_kana_def roma_flush_def Let_def st_defs stats_zero_def)
  have "?r = (fst ?r, snd ?r)" by simp
  from skk_key_status[OF this] v show ?thesis by auto
qed

text \<open>The romaji converter returns in its second pass at the latest, so the bound of three
  in its loop is never what ends it, and a byte always leaves a visible trace.\<close>

lemma roma_feed_two_passes:
  assumes "kana_inv s" "c \<noteq> 0"
  shows "roma_feed s c st = roma_loop 2 s c st \<and> (\<forall>n. roma_loop (2 + n) s c st = roma_loop 2 s c st) \<and> snd (roma_feed s c st) \<noteq> 0"
proof -
  note B = kana_boundsD[OF kana_invD(1)[OF assms(1)]]
  obtain t st' where L: "\<And>n. roma_loop (Suc (Suc n)) s c st = (t, st')" "st' \<noteq> 0"
    using roma_loop_returns[OF B(1,5) assms(2), of st] by blast
  have "roma_loop 3 s c st = (t, st')" using L(1)[of 1] by (simp only: numeral_3_eq_3 One_nat_def)
  moreover have "roma_loop 2 s c st = (t, st')" using L(1)[of 0] by (simp only: numeral_2_eq_2)
  moreover have "roma_loop (2 + n) s c st = (t, st')" for n using L(1)[of n] by (simp only: add_2_eq_Suc)
  ultimately show ?thesis using L(2) by (simp only: roma_feed_def snd_conv simp_thms)
qed

lemma roma_feed_two_passes_witness: "snd (roma_feed skk_init 0x61 0) \<noteq> 0"
proof -
  have "kana_inv skk_init" using skk_init_good by (simp add: kana_good_def)
  moreover have "(0x61 :: u8) \<noteq> 0" by simp
  ultimately show ?thesis using roma_feed_two_passes[of skk_init "0x61" 0] by blast
qed

text \<open>Typing the romaji of any sequence of table entries that no other entry extends
  commits exactly the kana of these entries, one after the other.\<close>

lemma roma_feed_types_table:
  assumes "\<forall>(r, k) \<in> set ws. (r, k) \<in> set ROMA \<and> \<not> roma_extends r" "k_roma s = []" "k_mode s = SKK_MODE_KANA" "k_base s = SKK_MODE_KANA"
    "length (k_commit s) + length (concat (map snd ws)) \<le> 254"
  shows "fst (roma_feeds (s, 0) (concat (map fst ws))) = s\<lparr>k_commit := k_commit s @ concat (map snd ws)\<rparr>"
  using roma_feeds_words[OF assms, of 0] by auto

lemma dot_row: "(ascii ''.'', utf8 [0x3002]) \<in> set ROMA" "\<not> roma_extends (ascii ''.'')"
proof -
  have "(''.'', [0x3002]) \<in> set ROMA_ROWS" by (simp add: ROMA_ROWS_def)
  then show "(ascii ''.'', utf8 [0x3002]) \<in> set ROMA" by (force simp: ROMA_def)
  have rows: "list_all (\<lambda>(r, k). hd r = CHR ''.'' \<longrightarrow> length r = 1) ROMA_ROWS" by code_simp
  show "\<not> roma_extends (ascii ''.'')"
  proof
    assume "roma_extends (ascii ''.'')"
    then obtain k t where "(ascii ''.'' @ t, k) \<in> set ROMA" and t: "t \<noteq> []" unfolding roma_extends_def by blast
    then obtain r c where r: "(r, c) \<in> set ROMA_ROWS" "ascii r = ascii ''.'' @ t" by (auto simp: ROMA_def)
    then obtain x r' where x: "r = x # r'" "(of_char x :: u8) = of_char CHR ''.''" "r' \<noteq> []" using t by (cases r) (auto simp: ascii_def)
    then have "x = CHR ''.''" using of_char_u8_inj by blast
    then show False using rows r(1) x by (auto simp: list_all_iff)
  qed
qed

lemma roma_feed_types_table_witness: "k_commit (fst (roma_feeds (skk_init, 0) (ascii ''.''))) = utf8 [0x3002]"
proof -
  have l: "length (utf8 [0x3002]) = 3" by code_simp
  show ?thesis using roma_feed_types_table[of "[(ascii ''.'', utf8 [0x3002])]" skk_init] dot_row l by (simp add: skk_init_def)
qed

end
