(* ===== verification/SkkStatus.thy ===== *)
theory SkkStatus
  imports SkkKana
begin

text \<open>
  What the status word of \<open>skk_key\<close> promises to the layer that draws (the bits \<open>SKK_ST_*\<close> of
  components/skk_core/include/skk_core.h): a visible part of the session that changed has its bit set,
  and the commit bit is set exactly when there is committed text.  The relation \<open>calm\<close> states this for
  everything but the walk through the candidates, and composes along the steps of a key.
\<close>

section \<open>Bits\<close>

lemma bit_flag: "k < 32 \<Longrightarrow> bit (push_bit k 1 :: u32) n \<longleftrightarrow> n = k"
  by (auto simp: bit_simps)

lemma st_push: "SKK_ST_CONSUMED = push_bit 0 1" "SKK_ST_PREEDIT = push_bit 1 1" "SKK_ST_CANDS = push_bit 2 1" "SKK_ST_SEL = push_bit 3 1"
    "SKK_ST_COMMIT = push_bit 4 1" "SKK_ST_MODE = push_bit 5 1"
  by (simp_all add: st_defs)

lemma st_bits [simp]:
  "bit SKK_ST_CONSUMED n \<longleftrightarrow> n = 0" "bit SKK_ST_PREEDIT n \<longleftrightarrow> n = 1" "bit SKK_ST_CANDS n \<longleftrightarrow> n = 2" "bit SKK_ST_SEL n \<longleftrightarrow> n = 3"
  "bit SKK_ST_COMMIT n \<longleftrightarrow> n = 4" "bit SKK_ST_MODE n \<longleftrightarrow> n = 5"
  unfolding st_push by (rule bit_flag, simp)+

lemma st_has: "st AND SKK_ST_PREEDIT \<noteq> 0 \<longleftrightarrow> bit st 1" "st AND SKK_ST_CANDS \<noteq> 0 \<longleftrightarrow> bit st 2" "st AND SKK_ST_SEL \<noteq> 0 \<longleftrightarrow> bit st 3"
    "st AND SKK_ST_COMMIT \<noteq> 0 \<longleftrightarrow> bit st 4" "st AND SKK_ST_MODE \<noteq> 0 \<longleftrightarrow> bit st 5"
  unfolding st_push bit_iff_and_push_bit_not_eq_0 by (rule refl)+

section \<open>Calm steps\<close>

text \<open>
  Bits are only added; the commit only grows, and its bit is added exactly when it does; a change of mode, a
  selection that opens or changes, raises its bit.  \<open>calm\<close> adds that the composition of the preedit only
  changes with its bit.
\<close>

definition calm0 :: "skk_t \<Rightarrow> u32 \<Rightarrow> skk_t \<Rightarrow> u32 \<Rightarrow> bool" where
  "calm0 s st t st' \<longleftrightarrow>
     (\<forall>n. bit st n \<longrightarrow> bit st' n) \<and> (bit st' 3 \<longrightarrow> bit st 3) \<and>
     k_enabled t = k_enabled s \<and> k_dict t = k_dict s \<and>
     (\<exists>x. k_commit t = k_commit s @ x \<and> (bit st' 4 \<longleftrightarrow> bit st 4 \<or> x \<noteq> [])) \<and>
     (k_mode t \<noteq> k_mode s \<longrightarrow> bit st' 5) \<and>
     (k_mode t = SKK_MODE_SELECT \<longrightarrow> bit st' 2 \<or> (k_mode s = SKK_MODE_SELECT \<and> k_cand t = k_cand s \<and> k_sel t = k_sel s))"

definition calm :: "skk_t \<Rightarrow> u32 \<Rightarrow> skk_t \<Rightarrow> u32 \<Rightarrow> bool" where
  "calm s st t st' \<longleftrightarrow> calm0 s st t st' \<and> (preedit_parts t \<noteq> preedit_parts s \<longrightarrow> bit st' 1)"

lemma calm0_refl [simp]: "calm0 s st s st" by (simp add: calm0_def)
lemma calm_refl [simp]: "calm s st s st" by (simp add: calm_def)

lemma calm0_select:
  "calm0 s st t st' \<Longrightarrow> k_mode t = SKK_MODE_SELECT \<Longrightarrow>
   bit st' 2 \<or> (k_mode s = SKK_MODE_SELECT \<and> k_cand t = k_cand s \<and> k_sel t = k_sel s)"
  unfolding calm0_def by blast

lemma calm0_trans:
  assumes "calm0 s a t b" "calm0 t b u c"
  shows "calm0 s a u c"
proof -
  obtain x y where c: "k_commit t = k_commit s @ x" "bit b 4 \<longleftrightarrow> bit a 4 \<or> x \<noteq> []" "k_commit u = k_commit t @ y"
      "bit c 4 \<longleftrightarrow> bit b 4 \<or> y \<noteq> []"
    using assms unfolding calm0_def by blast
  have m: "bit a n \<Longrightarrow> bit b n" "bit b n \<Longrightarrow> bit c n" for n using assms by (simp_all add: calm0_def)
  have "\<exists>z. k_commit u = k_commit s @ z \<and> (bit c 4 \<longleftrightarrow> bit a 4 \<or> z \<noteq> [])" using c by (intro exI[of _ "x @ y"]) auto
  moreover have "k_mode u \<noteq> k_mode s \<longrightarrow> bit c 5"
    using assms m(2)[of 5] unfolding calm0_def by (cases "k_mode t = k_mode s") simp_all
  moreover have "k_mode u = SKK_MODE_SELECT \<longrightarrow> bit c 2 \<or> (k_mode s = SKK_MODE_SELECT \<and> k_cand u = k_cand s \<and> k_sel u = k_sel s)"
  proof
    assume "k_mode u = SKK_MODE_SELECT"
    from calm0_select[OF assms(2) this]
    show "bit c 2 \<or> (k_mode s = SKK_MODE_SELECT \<and> k_cand u = k_cand s \<and> k_sel u = k_sel s)"
    proof
      assume "bit c 2" then show ?thesis ..
    next
      assume u: "k_mode t = SKK_MODE_SELECT \<and> k_cand u = k_cand t \<and> k_sel u = k_sel t"
      then have "k_mode t = SKK_MODE_SELECT" ..
      from calm0_select[OF assms(1) this] show ?thesis
      proof
        assume "bit b 2" then show ?thesis using m(2)[of 2] by simp
      next
        assume "k_mode s = SKK_MODE_SELECT \<and> k_cand t = k_cand s \<and> k_sel t = k_sel s" then show ?thesis using u by simp
      qed
    qed
  qed
  moreover have "bit c 3 \<longrightarrow> bit a 3" "k_enabled u = k_enabled s" "k_dict u = k_dict s"
    using assms unfolding calm0_def by (blast, metis, metis)
  moreover have "\<forall>n. bit a n \<longrightarrow> bit c n" using m by blast
  ultimately show ?thesis unfolding calm0_def by (intro conjI)
qed

lemma calm_trans:
  assumes "calm s a t b" "calm t b u c"
  shows "calm s a u c"
proof -
  have "bit b 1 \<Longrightarrow> bit c 1" using assms(2) by (simp add: calm_def calm0_def)
  then have "preedit_parts u \<noteq> preedit_parts s \<longrightarrow> bit c 1"
    using assms by (cases "preedit_parts t = preedit_parts s") (simp_all add: calm_def)
  then show ?thesis using assms calm0_trans[of s a t b u c] by (simp add: calm_def)
qed

text \<open>With the preedit bit set nothing more is asked of the preedit.\<close>

lemma calm_of0: "calm0 s st t st' \<Longrightarrow> bit st' 1 \<Longrightarrow> calm s st t st'" by (simp add: calm_def)
lemma calm_0: "calm s st t st' \<Longrightarrow> calm0 s st t st'" by (simp add: calm_def)

lemma calm0_or: "calm0 s st t st' \<Longrightarrow> f \<in> {SKK_ST_CONSUMED, SKK_ST_PREEDIT, SKK_ST_MODE, SKK_ST_CANDS} \<Longrightarrow> calm0 s st t (st' OR f)"
  unfolding calm0_def by (auto simp: bit_or_iff)

lemma calm_or: "calm s st t st' \<Longrightarrow> f \<in> {SKK_ST_CONSUMED, SKK_ST_PREEDIT, SKK_ST_MODE, SKK_ST_CANDS} \<Longrightarrow> calm s st t (st' OR f)"
  unfolding calm_def using calm0_or by (auto simp: bit_or_iff)

text \<open>Appending to the commit buffer.\<close>

lemma add_commit_shape: "add_commit s p = (ok, t) \<Longrightarrow> \<exists>x. t = s\<lparr>k_commit := k_commit s @ x\<rparr> \<and> (ok \<and> p \<noteq> [] \<longleftrightarrow> x \<noteq> [])"
proof -
  assume a: "add_commit s p = (ok, t)"
  show ?thesis
  proof (cases "length (k_commit s) + 1 \<ge> SKK_COMMIT_MAX")
    case True
    then show ?thesis using a by (intro exI[of _ "[]"]) (auto simp: add_commit_def)
  next
    case False
    let ?room = "SKK_COMMIT_MAX - 1 - length (k_commit s)"
    let ?n = "cut_back p ?room"
    have C: "(ok, t) = (if length p > ?room then if ?n = 0 then (False, s) else (True, s\<lparr>k_commit := k_commit s @ take ?n p\<rparr>)
        else (True, s\<lparr>k_commit := k_commit s @ p\<rparr>))"
      using a unfolding add_commit_def if_not_P[OF False] Let_def by simp
    show ?thesis
    proof (cases "length p > ?room")
      case True
      show ?thesis
      proof (cases "?n = 0")
        case True
        then show ?thesis using C \<open>length p > ?room\<close> by (intro exI[of _ "[]"]) auto
      next
        case False
        have "take ?n p \<noteq> []" using False \<open>length p > ?room\<close> by auto
        then show ?thesis using C False \<open>length p > ?room\<close> by (intro exI[of _ "take ?n p"]) auto
      qed
    next
      case False
      then show ?thesis using C by (intro exI[of _ p]) auto
    qed
  qed
qed

lemma calm_commit:
  assumes "add_commit s p = (ok, t)" "p \<noteq> []"
  shows "calm s st t (if ok then st OR SKK_ST_COMMIT else st)"
proof -
  obtain x where "t = s\<lparr>k_commit := k_commit s @ x\<rparr>" "ok \<longleftrightarrow> x \<noteq> []" using add_commit_shape[OF assms(1)] assms(2) by auto
  then show ?thesis by (auto simp: calm_def calm0_def bit_or_iff)
qed

lemma emit_calm:
  assumes "emit s p st = (t, st')"
  shows "calm s st t st'"
proof -
  consider "p = []" | "p \<noteq> []" "k_mode s = SKK_MODE_MIDASHI" | "p \<noteq> []" "k_mode s = SKK_MODE_OKURI"
    | "p \<noteq> []" "k_mode s \<noteq> SKK_MODE_MIDASHI" "k_mode s \<noteq> SKK_MODE_OKURI" by blast
  then show ?thesis
  proof cases
    case 1
    then show ?thesis using assms by (simp add: emit_def)
  next
    case 2
    then show ?thesis using assms by (auto simp: emit_def add_reading_def calm_def calm0_def bit_or_iff split: if_splits)
  next
    case 3
    then show ?thesis using assms by (auto simp: emit_def add_okuri_def calm_def calm0_def bit_or_iff split: if_splits)
  next
    case 4
    show ?thesis
    proof (cases "k_base s = SKK_MODE_KATA")
      case True
      show ?thesis
      proof (cases "to_katakana p 32 = []")
        case True
        then show ?thesis using assms 4 \<open>k_base s = SKK_MODE_KATA\<close> by (simp add: emit_def)
      next
        case False
        obtain ok u where c: "add_commit s (to_katakana p 32) = (ok, u)" by fastforce
        then show ?thesis using assms 4 True False calm_commit[OF c False, of st] by (simp add: emit_def split: if_splits)
      qed
    next
      case False
      obtain ok u where c: "add_commit s p = (ok, u)" by fastforce
      then show ?thesis using assms 4 False calm_commit[OF c, of st] by (simp add: emit_def split: if_splits)
    qed
  qed
qed

lemma roma_calm0: "calm0 s st (s\<lparr>k_roma := r\<rparr>) st"
  by (simp add: calm0_def)

lemma roma_pass_calm:
  "(roma_pass s c st = Inl (t, st') \<longrightarrow> calm0 s st t st') \<and> (roma_pass s c st = Inr (t, st') \<longrightarrow> calm0 s st t st' \<and> bit st' 1)"
proof -
  have E: "calm0 s st u v" if "emit (s\<lparr>k_roma := []\<rparr>) p st = (u, v)" for p u v
    using calm0_trans[OF roma_calm0 calm_0[OF emit_calm[OF that]]] .
  have R: "calm0 s st (s\<lparr>k_roma := r\<rparr>) (st OR SKK_ST_PREEDIT)" for r using calm0_or[OF roma_calm0] by simp
  show ?thesis
    unfolding roma_pass_def Let_def
    by (auto split: prod.splits if_splits simp: roma_calm0 R bit_or_iff intro: E calm0_or[OF E] calm0_or[OF calm_0[OF emit_calm]])
qed

lemma roma_loop_calm: "roma_loop n s c st = (t, st') \<Longrightarrow> calm0 s st t st'"
proof (induction n arbitrary: s st)
  case (Suc n)
  show ?case
  proof (cases "roma_pass s c st")
    case (Inl x)
    obtain u v where x: "x = (u, v)" by fastforce
    then have "calm0 s st u v" using roma_pass_calm[of s c st u v] Inl by blast
    moreover have "calm0 u v t st'" using Suc Inl x by simp
    ultimately show ?thesis by (rule calm0_trans)
  next
    case (Inr x)
    then show ?thesis using Suc.prems roma_pass_calm[of s c st t st'] by simp
  qed
qed simp

text \<open>The converter always leaves the preedit bit.\<close>

lemma roma_feed_calm:
  assumes "roma_ok (k_roma s)" "length (k_commit s) \<le> 255" "c \<noteq> 0" "roma_feed s c st = (t, st')"
  shows "calm s st t st'"
proof (rule calm_of0)
  show "calm0 s st t st'" using assms(4) unfolding roma_feed_def by (rule roma_loop_calm)
  have F: "roma_feed s c st = (case roma_pass s c st of Inl (s1, st1) \<Rightarrow> roma_loop (Suc (Suc 0)) s1 c st1 | Inr r \<Rightarrow> r)"
    by (simp add: roma_feed_def numeral_3_eq_3)
  from roma_pass_spec[OF assms(1-3), of st] show "bit st' 1"
  proof
    assume "\<exists>t st'. roma_pass s c st = Inr (t, st') \<and> fed s t \<and> st' \<noteq> 0 \<and> (cands_bit st' \<longleftrightarrow> cands_bit st)"
    then obtain u v where "roma_pass s c st = Inr (u, v)" by blast
    then show ?thesis using F assms(4) roma_pass_calm[of s c st u v] by simp
  next
    assume "\<exists>t st'. roma_pass s c st = Inl (t, st') \<and> k_roma s \<noteq> [] \<and> fed s t \<and> k_roma t = [] \<and> quiet st st'"
    then obtain u v where u: "roma_pass s c st = Inl (u, v)" "fed s u" "k_roma u = []" by blast
    have "roma_ok (k_roma u)" "length (k_commit u) \<le> 255" using u(3) fed_commit[OF u(2) assms(2)] by simp_all
    from roma_pass_spec[OF this assms(3), of v] u(3) obtain w z where w: "roma_pass u c v = Inr (w, z)" by auto
    then have "roma_feed s c st = (w, z)" using F u(1) by simp
    then show ?thesis using assms(4) roma_pass_calm[of u c v w z] w by simp
  qed
qed

lemma roma_flush_calm:
  assumes "roma_flush s st = (t, st')"
  shows "calm s st t st'"
proof (cases "k_roma s = []")
  case True
  then show ?thesis using assms by (simp add: roma_flush_def)
next
  case False
  have R: "calm s st (s\<lparr>k_roma := []\<rparr>) (st OR SKK_ST_PREEDIT)"
    by (rule calm_of0) (simp_all add: calm0_or roma_calm0 bit_or_iff)
  show ?thesis
  proof (cases "fst (roma_find (k_roma s))")
    case None
    then show ?thesis using False assms R by (auto simp: roma_flush_def Let_def)
  next
    case (Some k)
    then have "emit (s\<lparr>k_roma := []\<rparr>) k (st OR SKK_ST_PREEDIT) = (t, st')" using False assms by (simp add: roma_flush_def Let_def)
    from calm_trans[OF R emit_calm[OF this]] show ?thesis .
  qed
qed

section \<open>The transitions of the spans\<close>

text \<open>Leaving a span sets the preedit and the mode bit, and counts a commit exactly when text was added.\<close>

lemma span_cancel_calm: "k_base s \<noteq> SKK_MODE_SELECT \<Longrightarrow> span_cancel s st = (t, st') \<Longrightarrow> calm s st t st'"
  by (auto simp: span_cancel_def clear_span_def calm_def calm0_def bit_or_iff)

lemma span_commit_calm:
  assumes "k_commit s1 = k_commit s @ x" "k_enabled s1 = k_enabled s" "k_dict s1 = k_dict s" "k_base s1 \<noteq> SKK_MODE_SELECT"
    "span_commit s1 st (length (k_commit s)) = (t, st')"
  shows "calm s st t st'"
  using assms by (cases "x = []") (auto simp: span_commit_def span_done_def clear_span_def calm_def calm0_def bit_or_iff)

lemma add_twice:
  assumes "add_commit s p = (ok, s1)"
  shows "\<exists>x. (if ok then snd (add_commit s1 (k_okuri s1)) else s1) = s\<lparr>k_commit := k_commit s @ x\<rparr>"
proof -
  obtain x where x: "s1 = s\<lparr>k_commit := k_commit s @ x\<rparr>" using add_commit_shape[OF assms] by blast
  obtain ok2 s2 where a: "add_commit s1 (k_okuri s1) = (ok2, s2)" by fastforce
  obtain y where "s2 = s1\<lparr>k_commit := k_commit s1 @ y\<rparr>" using add_commit_shape[OF a] by blast
  then have "s2 = s\<lparr>k_commit := k_commit s @ x @ y\<rparr>" using x by simp
  then show ?thesis using x a by (cases ok) auto
qed

lemma commit_twice_calm:
  assumes "add_commit s p = (ok, s1)" "k_base s \<noteq> SKK_MODE_SELECT"
    "span_commit (if ok then snd (add_commit s1 (k_okuri s1)) else s1) st (length (k_commit s)) = (t, st')"
  shows "calm s st t st'"
proof -
  obtain x where x: "(if ok then snd (add_commit s1 (k_okuri s1)) else s1) = s\<lparr>k_commit := k_commit s @ x\<rparr>"
    using add_twice[OF assms(1)] by blast
  show ?thesis using assms(2,3) unfolding x by (intro span_commit_calm) auto
qed

lemma commit_reading_calm: "k_base s \<noteq> SKK_MODE_SELECT \<Longrightarrow> commit_reading s st = (t, st') \<Longrightarrow> calm s st t st'"
  unfolding commit_reading_def by (auto split: prod.splits intro: commit_twice_calm)

lemma commit_selection_calm:
  assumes "k_base s \<noteq> SKK_MODE_SELECT" "commit_selection s st = (t, st')"
  shows "calm s st t st'"
proof (cases "skk_cand_at s (k_sel s)")
  case None
  then show ?thesis using assms by (intro span_commit_calm[of s s "[]" st t st']) (simp_all add: commit_selection_def)
next
  case (Some c)
  then show ?thesis using assms unfolding commit_selection_def by (auto split: prod.splits intro: commit_twice_calm)
qed

lemma commit_katakana_calm:
  assumes "k_base s \<noteq> SKK_MODE_SELECT" "commit_katakana s st = (t, st')"
  shows "calm s st t st'"
proof -
  let ?k = "to_katakana (k_reading s) SKK_SCRATCH_MAX"
  let ?s0 = "s\<lparr>k_scratch := ?k\<rparr>"
  have S: "calm s st t st'" if "k_commit u = k_commit ?s0 @ x" "k_enabled u = k_enabled s" "k_dict u = k_dict s" "k_base u = k_base s"
      "span_commit u st (length (k_commit s)) = (t, st')" for u x
    using that assms(1) by (intro span_commit_calm[of u s x]) auto
  show ?thesis
  proof (cases "?k = []")
    case True
    then show ?thesis using assms(2) by (intro S[of ?s0 "[]"]) (simp_all add: commit_katakana_def)
  next
    case False
    obtain ok s1 where a: "add_commit ?s0 ?k = (ok, s1)" by fastforce
    obtain x where x: "(if ok then snd (add_commit s1 (k_okuri s1)) else s1) = ?s0\<lparr>k_commit := k_commit ?s0 @ x\<rparr>"
      using add_twice[OF a] by blast
    have "span_commit (if ok then snd (add_commit s1 (k_okuri s1)) else s1) st (length (k_commit s)) = (t, st')"
      using assms(2) False a unfolding commit_katakana_def Let_def by simp
    then show ?thesis unfolding x by (intro S[of _ x]) auto
  qed
qed

lemma convert_calm: "convert s st = (t, st') \<Longrightarrow> calm s st t st'"
  by (auto simp: convert_def calm_def calm0_def bit_or_iff split: option.splits if_splits prod.splits)

lemma okuri_maybe_convert_calm: "okuri_maybe_convert s st = (t, st') \<Longrightarrow> calm s st t st'"
  using convert_calm by (auto simp: okuri_maybe_convert_def split: if_splits)

text \<open>Counters, the state of a completion and the scratch buffer are not visible while nothing is selected.\<close>

lemma calm_stats: "calm s st (s\<lparr>k_stats := x\<rparr>) st" "calm s st (s\<lparr>k_comp_len := n, k_comp_i := j\<rparr>) st" "calm s st (s\<lparr>k_comp_i := j\<rparr>) st"
    "calm s st (s\<lparr>k_comp_len := n\<rparr>) st"
  by (simp_all add: calm_def calm0_def)

lemma complete_take_calm: "complete_take s r st = (t, st') \<Longrightarrow> calm s st t st'"
  by (auto simp: complete_take_def calm_def calm0_def bit_or_iff split: if_splits)

lemma complete_at_calm: "complete_at s d want = (r, t) \<Longrightarrow> calm s st t st"
  by (auto simp: complete_at_def intro: calm_stats split: prod.splits)

lemma span_complete_calm:
  assumes "span_complete s0 st0 = (t, st')"
  shows "calm s0 st0 t st'"
proof -
  let ?st = "st0 OR SKK_ST_CONSUMED"
  have C: "calm s0 st0 s0 ?st" by (simp add: calm_or)
  show ?thesis
  proof (cases "k_dict s0")
    case None
    then show ?thesis using assms C by (simp add: span_complete_def)
  next
    case (Some d)
    show ?thesis
    proof (cases "k_mode s0 = SKK_MODE_MIDASHI")
      case False
      then show ?thesis using assms C Some by (simp add: span_complete_def)
    next
      case True
      obtain s1 st1 where f: "roma_flush s0 ?st = (s1, st1)" by fastforce
      have c1: "calm s0 st0 s1 st1" using calm_trans[OF C roma_flush_calm[OF f]] .
      show ?thesis
      proof (cases "k_comp_len s1 = 0 \<and> k_reading s1 = []")
        case True
        then show ?thesis using assms Some \<open>k_mode s0 = _\<close> f c1 by (simp add: span_complete_def)
      next
        case False
        let ?s2 = "if k_comp_len s1 = 0 then s1\<lparr>k_comp_len := length (k_reading s1), k_comp_i := 0\<rparr> else s1\<lparr>k_comp_i := k_comp_i s1 + 1\<rparr>"
        have c2: "calm s0 st0 ?s2 st1" using calm_trans[OF c1] calm_stats by simp
        obtain r s3 where a: "complete_at ?s2 d (unat (k_comp_i ?s2)) = (r, s3)" by fastforce
        have c3: "calm s0 st0 s3 st1" by (rule calm_trans[OF c2 complete_at_calm[OF a]])
        have E: "(t, st') = (case r of Some r \<Rightarrow> complete_take s3 r st1 | None \<Rightarrow>
             if k_comp_i s3 = 0 then (s3\<lparr>k_comp_len := 0\<rparr>, st1)
             else (case complete_at (s3\<lparr>k_comp_i := 0\<rparr>) d 0 of (Some r, s5) \<Rightarrow> complete_take s5 r st1 | (None, s5) \<Rightarrow> (s5, st1)))"
          using assms Some True f a unfolding span_complete_def Let_def by (simp only: False option.case prod.case if_False not_True_eq_False simp_thms)
        show ?thesis
        proof (cases r)
          case (Some x)
          then show ?thesis using E calm_trans[OF c3 complete_take_calm] by simp
        next
          case None
          show ?thesis
          proof (cases "k_comp_i s3 = 0")
            case True
            then show ?thesis using E None calm_trans[OF c3] calm_stats by simp
          next
            case False
            obtain r5 s5 where b: "complete_at (s3\<lparr>k_comp_i := 0\<rparr>) d 0 = (r5, s5)" by fastforce
            have "calm s0 st0 s5 st1" using calm_trans[OF calm_trans[OF c3 calm_stats(3)] complete_at_calm[OF b]] .
            then show ?thesis using E None False b calm_trans complete_take_calm by (auto split: option.splits)
          qed
        qed
      qed
    qed
  qed
qed

lemma span_backspace_calm:
  assumes "k_base s \<noteq> SKK_MODE_SELECT" "span_backspace s st = (t, st')"
  shows "calm s st t st'"
proof (rule calm_of0)
  show "calm0 s st t st'" using assms
    by (auto simp: span_backspace_def Let_def span_cancel_def clear_span_def calm0_def bit_or_iff split: if_splits)
  show "bit st' 1" using assms(2)
    by (auto simp: span_backspace_def Let_def span_cancel_def bit_or_iff split: if_splits)
qed

lemma okuri_start_calm:
  assumes i: "kana_inv s" and m: "k_mode s = SKK_MODE_MIDASHI" and l: "lower \<noteq> 0" and o': "okuri_start s lower st = (t, st')"
  shows "calm s st t st'"
proof -
  note B = kana_boundsD[OF kana_invD(1)[OF i]]
  obtain s1 st1 where f: "(if k_roma s \<noteq> [] \<and> fst (roma_find (k_roma s)) \<noteq> None then roma_flush s st else (s, st)) = (s1, st1)" by fastforce
  have c1: "calm s st s1 st1" using f roma_flush_calm by (auto split: if_splits)
  have b1: "roma_ok (k_roma s1)" "length (k_commit s1) \<le> 255"
    using f roma_flush_spec[OF B(1) B(5)] B fed_roma_ok fed_commit[OF _ B(5)] by (auto split: if_splits)
  let ?s2 = "s1\<lparr>k_stem := (if k_roma s1 \<noteq> [] then hd (k_roma s1) else lower), k_okuri := [], k_mode := SKK_MODE_OKURI\<rparr>"
  have c2: "calm s1 st1 ?s2 (st1 OR (SKK_ST_PREEDIT OR SKK_ST_MODE))" by (rule calm_of0) (auto simp: calm0_def bit_or_iff)
  obtain s3 st3 where r: "roma_feed ?s2 lower (st1 OR (SKK_ST_PREEDIT OR SKK_ST_MODE)) = (s3, st3)" by fastforce
  have c3: "calm ?s2 (st1 OR (SKK_ST_PREEDIT OR SKK_ST_MODE)) s3 st3" by (rule roma_feed_calm[OF _ _ l r]) (use b1 in simp_all)
  have "okuri_maybe_convert s3 st3 = (t, st')" using o' f r unfolding okuri_start_def by simp
  from calm_trans[OF calm_trans[OF calm_trans[OF c1 c2] c3] okuri_maybe_convert_calm[OF this]] show ?thesis .
qed

section \<open>The passes of a key\<close>

text \<open>The walk through the candidates: what it adds to a calm step is the selection bit, within the selection.\<close>

definition walked :: "skk_t \<Rightarrow> u32 \<Rightarrow> skk_t \<Rightarrow> u32 \<Rightarrow> bool" where
  "walked s st t st' \<longleftrightarrow> (\<exists>n. t = s\<lparr>k_sel := n\<rparr>) \<and> k_mode s = SKK_MODE_SELECT \<and> st' = st OR (SKK_ST_SEL OR SKK_ST_PREEDIT)"

lemma sel_move_calm:
  assumes "k_mode s = SKK_MODE_SELECT" "sel_move s delta st = (t, st')"
  shows "calm s st t st' \<or> walked s st t st'"
proof -
  let ?n = "k_sel s + delta"
  consider "?n < 0" | "0 \<le> ?n" "?n \<ge> int (length (k_cand s))" | "0 \<le> ?n" "?n < int (length (k_cand s))" by linarith
  then show ?thesis
  proof cases
    case 1
    then have "calm0 s st t st'" "bit st' 1" using assms by (auto simp: sel_move_def calm0_def bit_or_iff split: if_splits)
    then show ?thesis using calm_of0 by blast
  next
    case 2
    then have "t = s" "st' = st OR SKK_ST_CONSUMED" using assms by (simp_all add: sel_move_def)
    then show ?thesis by (simp add: calm_or)
  next
    case 3
    then show ?thesis using assms by (auto simp: sel_move_def walked_def)
  qed
qed

lemma dispatch_kana_calm:
  assumes i: "kana_inv s" and d: "dispatch_kana s key c seq tok st = (t, st')"
  shows "calm s st t st'"
proof -
  note B = kana_boundsD[OF kana_invD(1)[OF i]]
  have R: "calm s st (s\<lparr>k_roma := r\<rparr>) (st OR SKK_ST_PREEDIT)" for r
    by (rule calm_of0) (simp_all add: calm0_or roma_calm0 bit_or_iff)
  have M: "calm u a (v\<lparr>k_mode := m\<rparr>) (b OR (SKK_ST_PREEDIT OR SKK_ST_MODE))"
    if "calm0 u a v b" "m \<noteq> SKK_MODE_SELECT" for u v a b m
    by (rule calm_of0) (use that in \<open>auto simp: calm0_def bit_or_iff\<close>)
  have K: "calm u a (v\<lparr>k_base := x, k_mode := m\<rparr>) (b OR (SKK_ST_PREEDIT OR SKK_ST_MODE))"
    if "calm0 u a v b" "m \<noteq> SKK_MODE_SELECT" for u v a b m x
    by (rule calm_of0) (use that in \<open>auto simp: calm0_def bit_or_iff\<close>)
  obtain s1 st1 where f: "roma_flush s st = (s1, st1)" by fastforce
  have c1: "calm s st s1 st1" by (rule roma_flush_calm[OF f])
  have b1: "k_base s1 = k_base s"
    using fed_frame(2) roma_flush_spec[OF B(1) B(5) f] by blast
  note D = d[unfolded dispatch_kana_def Let_def f prod.case]
  let ?up = "(clear_span (s\<lparr>k_roma := []\<rparr>))\<lparr>k_mode := SKK_MODE_MIDASHI\<rparr>" and ?stu = "st OR (SKK_ST_PREEDIT OR SKK_ST_MODE)"
  have U: "calm s st ?up ?stu" by (rule calm_of0) (auto simp: calm0_def clear_span_def bit_or_iff)
  consider (tok) "tok \<noteq> TOK_NONE" | (bs) "tok = TOK_NONE" "c = 0x07 \<or> c = 0x08" | (sp) "tok = TOK_NONE" "c = 0x0A \<or> c = 0x20"
    | (l) "tok = TOK_NONE" "c = 0x6C" | (q) "tok = TOK_NONE" "c = 0x71"
    | (up) "tok = TOK_NONE" "0x41 \<le> c" "c \<le> 0x5A"
    | (plain) "tok = TOK_NONE" "\<not> (0x41 \<le> c \<and> c \<le> 0x5A)" "c \<notin> {0x07, 0x08, 0x0A, 0x20, 0x6C, 0x71}" "0x21 \<le> c" "c \<le> 0x7E"
    | (rest) "tok = TOK_NONE" "\<not> (0x41 \<le> c \<and> c \<le> 0x5A)" "c \<notin> {0x07, 0x08, 0x0A, 0x20, 0x6C, 0x71}" "\<not> (0x21 \<le> c \<and> c \<le> 0x7E)"
    by blast
  then show ?thesis
  proof cases
    case tok
    then show ?thesis using D R[of "[]"] by (auto split: if_splits)
  next
    case bs
    then show ?thesis using D R by (auto split: if_splits)
  next
    case sp
    then show ?thesis using D c1 by (auto split: if_splits)
  next
    case l
    then show ?thesis using D M[OF calm_0[OF c1], of SKK_MODE_ASCII] by auto
  next
    case q
    then have "(t, st') = (let b = (if k_base s1 = SKK_MODE_KATA then SKK_MODE_KANA else SKK_MODE_KATA) in
        (s1\<lparr>k_base := b, k_mode := b\<rparr>, st1 OR (SKK_ST_PREEDIT OR SKK_ST_MODE)))" using D by (simp add: Let_def)
    then show ?thesis using K[OF calm_0[OF c1]] by (auto simp: Let_def split: if_splits)
  next
    case up
    then have n: "c \<notin> {0x07, 0x08, 0x0A, 0x20, 0x6C, 0x71}" by auto
    have E: "(t, st') = (if c \<noteq> 0x51 then roma_feed ?up (c - 0x41 + 0x61) ?stu else (?up, ?stu))" using D up n by auto
    show ?thesis
    proof (cases "c = 0x51")
      case True
      then show ?thesis using E U by simp
    next
      case False
      then have r: "roma_feed ?up (c - 0x41 + 0x61) ?stu = (t, st')" using E by simp
      have "calm ?up ?stu t st'" by (rule roma_feed_calm[OF _ _ lower_nonzero[OF up(2,3)] r]) (use B in \<open>simp_all add: clear_span_def\<close>)
      then show ?thesis using calm_trans[OF U] by blast
    qed
  next
    case plain
    then have "roma_feed s c st = (t, st')" using D by auto
    moreover have "c \<noteq> 0" using plain(4) by auto
    ultimately show ?thesis using roma_feed_calm[OF B(1) B(5)] by blast
  next
    case rest
    then have E: "(t, st') = (if c = 0 \<and> hd key \<ge> 0x80 \<and> k_roma s \<noteq> [] then
        (case emit s1 (take seq key) st1 of (s2, st2) \<Rightarrow> (s2, st2 OR SKK_ST_PREEDIT)) else (s, st))" using D by auto
    obtain s2 st2 where e: "emit s1 (take seq key) st1 = (s2, st2)" by fastforce
    have "calm s st s2 (st2 OR SKK_ST_PREEDIT)" using calm_or[OF calm_trans[OF c1 emit_calm[OF e]]] by simp
    then show ?thesis using E e by (auto split: if_splits)
  qed
qed

lemma dispatch_span_calm:
  assumes i: "kana_inv s" and m: "k_mode s = SKK_MODE_MIDASHI \<or> k_mode s = SKK_MODE_OKURI"
    and d: "dispatch_span s key c seq tok st = (t, st')"
  shows "calm s st t st'"
proof -
  note B = kana_boundsD[OF kana_invD(1)[OF i]]
  have b: "k_base s \<noteq> SKK_MODE_SELECT" using B(6) by auto
  obtain s1 st1 where f: "roma_flush s st = (s1, st1)" by fastforce
  have c1: "calm s st s1 st1" by (rule roma_flush_calm[OF f])
  have b1: "k_base s1 \<noteq> SKK_MODE_SELECT" using fed_frame(2) roma_flush_spec[OF B(1) B(5) f] b by metis
  have F: "calm s st t st'" if "c \<noteq> 0" "(case roma_feed s c st of (s1, st1) \<Rightarrow> okuri_maybe_convert s1 st1) = (t, st')" for c
  proof -
    obtain s2 st2 where r: "roma_feed s c st = (s2, st2)" by fastforce
    show ?thesis using calm_trans[OF roma_feed_calm[OF B(1) B(5) that(1) r] okuri_maybe_convert_calm] that(2) r by simp
  qed
  note D = d[unfolded dispatch_span_def Let_def f prod.case]
  consider (tok) "tok \<noteq> TOK_NONE" | (can) "tok = TOK_NONE" "c = 0x07" | (bs) "tok = TOK_NONE" "c = 0x08 \<or> c = 0x7F"
    | (ret) "tok = TOK_NONE" "c = 0x0A" | (tab) "tok = TOK_NONE" "c = 0x09" | (sp) "tok = TOK_NONE" "c = 0x20"
    | (q) "tok = TOK_NONE" "c = 0x71" "k_mode s = SKK_MODE_MIDASHI"
    | (up) "tok = TOK_NONE" "0x41 \<le> c" "c \<le> 0x5A"
    | (plain) "tok = TOK_NONE" "\<not> (0x41 \<le> c \<and> c \<le> 0x5A)" "c \<notin> {0x07, 0x08, 0x7F, 0x0A, 0x09, 0x20}" "c \<noteq> 0x71 \<or> k_mode s \<noteq> SKK_MODE_MIDASHI"
        "0x21 \<le> c" "c \<le> 0x7E"
    | (rest) "tok = TOK_NONE" "\<not> (0x41 \<le> c \<and> c \<le> 0x5A)" "c \<notin> {0x07, 0x08, 0x7F, 0x0A, 0x09, 0x20}" "c \<noteq> 0x71 \<or> k_mode s \<noteq> SKK_MODE_MIDASHI"
        "\<not> (0x21 \<le> c \<and> c \<le> 0x7E)"
    by blast
  then show ?thesis
  proof cases
    case tok
    obtain s2 st2 where x: "span_cancel s st = (s2, st2)" by fastforce
    show ?thesis using D tok x calm_or[OF span_cancel_calm[OF b x]] by (auto simp: calm_or split: if_splits)
  next
    case can
    then show ?thesis using D span_cancel_calm[OF b] by auto
  next
    case bs
    then show ?thesis using D span_backspace_calm[OF b] by auto
  next
    case ret
    then show ?thesis using D calm_trans[OF c1 commit_reading_calm[OF b1]] by auto
  next
    case tab
    then show ?thesis using D span_complete_calm by auto
  next
    case sp
    obtain s2 st2 where x: "(if k_reading s1 = [] then span_cancel s1 st1 else convert s1 st1) = (s2, st2)" by fastforce
    have "calm s1 st1 s2 st2" using x span_cancel_calm[OF b1] convert_calm by (simp split: if_splits)
    from calm_or[OF calm_trans[OF c1 this], of SKK_ST_CONSUMED] show ?thesis using D sp x by auto
  next
    case q
    then show ?thesis using D calm_trans[OF c1 commit_katakana_calm[OF b1]] by auto
  next
    case up
    then have n: "c \<notin> {0x07, 0x08, 0x7F, 0x0A, 0x09, 0x20, 0x71}" by auto
    note lz = lower_nonzero[OF up(2,3)]
    have E: "(if k_mode s = SKK_MODE_MIDASHI then
           (if k_reading s = [] then roma_feed s (c - 0x41 + 0x61) st else okuri_start s (c - 0x41 + 0x61) st)
         else (case roma_feed s (c - 0x41 + 0x61) st of (s1, st1) \<Rightarrow> okuri_maybe_convert s1 st1)) = (t, st')" using D up n by auto
    consider "k_mode s = SKK_MODE_MIDASHI" "k_reading s = []" | "k_mode s = SKK_MODE_MIDASHI" "k_reading s \<noteq> []" | "k_mode s \<noteq> SKK_MODE_MIDASHI" by blast
    then show ?thesis
    proof cases
      case 1
      then have "roma_feed s (c - 0x41 + 0x61) st = (t, st')" using E by simp
      then show ?thesis by (rule roma_feed_calm[OF B(1) B(5) lz])
    next
      case 2
      then have "okuri_start s (c - 0x41 + 0x61) st = (t, st')" using E by simp
      then show ?thesis by (rule okuri_start_calm[OF i 2(1) lz])
    next
      case 3
      then show ?thesis using E F[OF lz] by simp
    qed
  next
    case plain
    then have "(case roma_feed s c st of (s1, st1) \<Rightarrow> okuri_maybe_convert s1 st1) = (t, st')" using D by auto
    moreover have "c \<noteq> 0" using plain(5) by auto
    ultimately show ?thesis using F by blast
  next
    case rest
    then have E: "(t, st') = (if c = 0 \<and> hd key \<ge> 0x80 then
        (case emit s1 (take seq key) st1 of (s2, st2) \<Rightarrow> (case okuri_maybe_convert s2 st2 of (s3, st3) \<Rightarrow> (s3, st3 OR SKK_ST_PREEDIT)))
        else (s, st OR SKK_ST_CONSUMED))" using D by auto
    obtain s2 st2 where e: "emit s1 (take seq key) st1 = (s2, st2)" by fastforce
    obtain s3 st3 where o': "okuri_maybe_convert s2 st2 = (s3, st3)" by fastforce
    have "calm s st s3 (st3 OR SKK_ST_PREEDIT)"
      using calm_or[OF calm_trans[OF calm_trans[OF c1 emit_calm[OF e]] okuri_maybe_convert_calm[OF o']]] by simp
    then show ?thesis using E e o' by (auto simp: calm_or split: if_splits)
  qed
qed

lemma commit_selection_base: "commit_selection s st = (t, st') \<Longrightarrow> k_mode t = k_base s \<and> k_base t = k_base s \<and> bit st' 1"
proof -
  assume c: "commit_selection s st = (t, st')"
  have S: "k_mode t = k_base u \<and> k_base t = k_base u \<and> bit st' 1" if "span_commit u st n = (t, st')" for u n
    using that by (auto simp: span_commit_def span_done_def clear_span_def bit_or_iff split: if_splits)
  show ?thesis
  proof (cases "skk_cand_at s (k_sel s)")
    case None
    then show ?thesis using c S by (simp add: commit_selection_def)
  next
    case (Some x)
    obtain ok s1 where a: "add_commit s x = (ok, s1)" by fastforce
    obtain y where y: "(if ok then snd (add_commit s1 (k_okuri s1)) else s1) = s\<lparr>k_commit := k_commit s @ y\<rparr>" using add_twice[OF a] by blast
    have "span_commit (s\<lparr>k_commit := k_commit s @ y\<rparr>) st (length (k_commit s)) = (t, st')"
      using c Some a unfolding commit_selection_def y[symmetric] by simp
    from S[OF this] show ?thesis by simp
  qed
qed

lemma dispatch_select_calm:
  assumes i: "kana_inv s" and m: "k_mode s = SKK_MODE_SELECT" and n: "0 < seq" "key \<noteq> []"
    and d: "dispatch_select s key c seq tok st = (again, t, st')"
  shows "calm s st t st' \<or> (walked s st t st' \<and> \<not> again)"
proof -
  have b: "k_base s \<noteq> SKK_MODE_SELECT" using kana_boundsD(6)[OF kana_invD(1)[OF i]] by auto
  have S: "calm s st t st' \<or> walked s st t st'" if "sel_move s delta st = (t, st')" for delta
    by (rule sel_move_calm[OF m that])
  obtain s1 st1 where f: "commit_selection s st = (s1, st1)" by fastforce
  have c1: "calm s st s1 st1" by (rule commit_selection_calm[OF b f])
  obtain ok s2 where a: "add_commit s1 (take seq key) = (ok, s2)" by fastforce
  have c2: "calm s st s2 (if ok then st1 OR SKK_ST_COMMIT else st1)" by (rule calm_trans[OF c1 calm_commit[OF a]]) (use n in simp)
  show ?thesis
    using d S c1 c2 unfolding dispatch_select_def f a prod.case by (auto simp: calm_or split: if_splits)
qed

lemma key_head_seq: "key_head key = HEAD c seq tok \<Longrightarrow> 0 < seq"
  using skk_utf8_decode_adv(1)[of key 0] by (auto simp: key_head_def Let_def split: if_splits)

lemma dispatch_calm:
  assumes i: "kana_inv s" and k: "key \<noteq> []" and d: "dispatch s key st = (again, t, st')"
  shows "calm s st t st' \<or> (walked s st t st' \<and> \<not> again)"
proof (cases "key_head key")
  case HEAD_PASS
  then show ?thesis using d by (simp add: dispatch_def)
next
  case HEAD_BROKEN
  then have "t = s" "st' = st \<or> st' = st OR SKK_ST_CONSUMED" using d by (auto simp: dispatch_def)
  then show ?thesis by (auto simp: calm_or)
next
  case (HEAD c seq tok)
  show ?thesis
  proof (cases "k_mode s")
    case SKK_MODE_ASCII
    then show ?thesis using d HEAD by (simp add: dispatch_def)
  next
    case SKK_MODE_KANA
    then show ?thesis using d HEAD dispatch_kana_calm[OF i] by (auto simp: dispatch_def)
  next
    case SKK_MODE_KATA
    then show ?thesis using d HEAD dispatch_kana_calm[OF i] by (auto simp: dispatch_def)
  next
    case SKK_MODE_MIDASHI
    then show ?thesis using d HEAD dispatch_span_calm[OF i] by (auto simp: dispatch_def)
  next
    case SKK_MODE_OKURI
    then show ?thesis using d HEAD dispatch_span_calm[OF i] by (auto simp: dispatch_def)
  next
    case SKK_MODE_SELECT
    then have "dispatch_select s key c seq tok st = (again, t, st')" using d HEAD by (simp add: dispatch_def)
    then show ?thesis by (rule dispatch_select_calm[OF i SKK_MODE_SELECT key_head_seq[OF HEAD] k])
  qed
qed

lemma key_twice_calm:
  assumes i: "kana_inv s" and z: "k_comp_len s = 0 \<or> key = [0x09]" and k: "key \<noteq> []" and t: "key_twice s key = (t, st)"
  shows "calm s 0 t st \<or> walked s 0 t st"
proof -
  obtain again s1 st1 where d: "dispatch s key 0 = (again, s1, st1)" by (metis prod_cases3)
  show ?thesis
  proof (cases again)
    case False
    then show ?thesis using dispatch_calm[OF i k d] t d by (simp add: key_twice_def)
  next
    case True
    then have c1: "calm s 0 s1 st1" using dispatch_calm[OF i k d] by blast
    have i1: "kana_inv s1" and b1: "k_mode s1 = k_base s1" using dispatch_ok[OF i z d] True by (auto simp: pass_ok_def moved_def)
    have m1: "k_mode s1 \<noteq> SKK_MODE_SELECT" using b1 kana_boundsD(6)[OF kana_invD(1)[OF i1]] by auto
    obtain again2 where r: "dispatch s1 key st1 = (again2, t, st)" using t d True by (auto simp: key_twice_def prod_eq_iff)
    have "calm s1 st1 t st" using dispatch_calm[OF i1 k r] m1 by (auto simp: walked_def)
    then show ?thesis using calm_trans[OF c1] by blast
  qed
qed

section \<open>What is drawn\<close>

lemma build_preedit_form: "\<exists>p q. build_preedit s = s\<lparr>k_preedit := p, k_span := q\<rparr>"
proof -
  have "\<exists>p q. foldl (\<lambda>t (kind, x). pre_span t kind x) (s\<lparr>k_preedit := a, k_span := b\<rparr>) parts = s\<lparr>k_preedit := p, k_span := q\<rparr>" for a b parts
  proof (induction parts arbitrary: a b)
    case (Cons x parts)
    obtain p q where "pre_span (s\<lparr>k_preedit := a, k_span := b\<rparr>) (fst x) (snd x) = s\<lparr>k_preedit := p, k_span := q\<rparr>"
      using pre_span_form[of "s\<lparr>k_preedit := a, k_span := b\<rparr>" "fst x" "snd x"] by auto
    then show ?case using Cons[where a = p and b = q] by (simp add: case_prod_beta)
  qed auto
  then show ?thesis by (simp add: build_preedit_def)
qed

lemma build_preedit_frame2 [simp]: "k_cand (build_preedit s) = k_cand s" "k_enabled (build_preedit s) = k_enabled s"
    "k_dict (build_preedit s) = k_dict s" "k_base (build_preedit s) = k_base s"
proof -
  obtain p q where "build_preedit s = s\<lparr>k_preedit := p, k_span := q\<rparr>" using build_preedit_form by blast
  then show "k_cand (build_preedit s) = k_cand s" "k_enabled (build_preedit s) = k_enabled s"
    "k_dict (build_preedit s) = k_dict s" "k_base (build_preedit s) = k_base s" by simp_all
qed

text \<open>The preedit and its spans are a function of the parts.\<close>

lemma pre_span_cong:
  assumes "k_preedit s = k_preedit t" "k_span s = k_span t"
  shows "k_preedit (pre_span s kind p) = k_preedit (pre_span t kind p) \<and> k_span (pre_span s kind p) = k_span (pre_span t kind p)"
proof -
  have "k_preedit (pre_add s p) = k_preedit (pre_add t p)" "k_span (pre_add s p) = k_span (pre_add t p)" using assms by (simp_all add: pre_add_def)
  then show ?thesis using assms by (simp add: pre_span_def Let_def)
qed

lemma foldl_pre_span_cong:
  "k_preedit s = k_preedit t \<Longrightarrow> k_span s = k_span t \<Longrightarrow>
   k_preedit (foldl (\<lambda>t (kind, p). pre_span t kind p) s parts) = k_preedit (foldl (\<lambda>t (kind, p). pre_span t kind p) t parts) \<and>
   k_span (foldl (\<lambda>t (kind, p). pre_span t kind p) s parts) = k_span (foldl (\<lambda>t (kind, p). pre_span t kind p) t parts)"
proof (induction parts arbitrary: s t)
  case (Cons x parts)
  show ?case using Cons.IH[of "pre_span s (fst x) (snd x)" "pre_span t (fst x) (snd x)"] pre_span_cong[OF Cons.prems] by (simp add: case_prod_beta)
qed simp

text \<open>The preedit on display is the composition of the present session.\<close>

definition fresh :: "skk_t \<Rightarrow> bool" where
  "fresh s \<longleftrightarrow> k_preedit s = k_preedit (build_preedit s) \<and> k_span s = k_span (build_preedit s)"

lemma build_cong: "preedit_parts s = preedit_parts t \<Longrightarrow>
    k_preedit (build_preedit s) = k_preedit (build_preedit t) \<and> k_span (build_preedit s) = k_span (build_preedit t)"
  unfolding build_preedit_def by (simp, rule foldl_pre_span_cong) simp_all

lemma fresh_build [simp]: "fresh (build_preedit s)"
  using build_cong[of "build_preedit s" s] by (simp add: fresh_def)

lemma fresh_same: "fresh s \<Longrightarrow> k_preedit t = k_preedit s \<Longrightarrow> k_span t = k_span s \<Longrightarrow> preedit_parts t = preedit_parts s \<Longrightarrow> fresh t"
  using build_cong[of t s] by (simp add: fresh_def)

lemma fresh_parts: "fresh s \<Longrightarrow> preedit_parts t = preedit_parts s \<Longrightarrow>
    k_preedit (build_preedit t) = k_preedit s \<and> k_span (build_preedit t) = k_span s"
  using build_cong[of t s] by (simp add: fresh_def)

text \<open>What one key promises to the layer above.\<close>

definition flagged :: "skk_t \<Rightarrow> skk_t \<Rightarrow> u32 \<Rightarrow> bool" where
  "flagged s t st \<longleftrightarrow>
     (bit st 4 \<longleftrightarrow> k_commit t \<noteq> []) \<and> (k_mode t \<noteq> k_mode s \<longrightarrow> bit st 5) \<and>
     (k_preedit t \<noteq> k_preedit s \<or> k_span t \<noteq> k_span s \<longrightarrow> bit st 1) \<and>
     (k_mode t = SKK_MODE_SELECT \<longrightarrow>
        bit st 2 \<or> (k_mode s = SKK_MODE_SELECT \<and> k_cand t = k_cand s \<and> (k_sel t \<noteq> k_sel s \<longrightarrow> bit st 3))) \<and>
     (bit st 3 \<longrightarrow> k_mode t = SKK_MODE_SELECT)"

lemma skk_key_flagged:
  assumes i: "kana_inv s" and f: "fresh s" and k: "skk_key s key = (t, st)"
  shows "flagged s t st \<and> fresh t \<and> k_enabled t = k_enabled s \<and> k_dict t = k_dict s"
proof (cases "\<not> k_enabled (key_start s) \<or> key = []")
  case True
  then have "t = key_start s" "st = 0" using k by (simp_all add: skk_key_def Let_def)
  then show ?thesis using fresh_same[OF f] by (simp add: flagged_def key_start_def)
next
  case False
  let ?s = "key_comp (key_start s) key"
  have S: "k_mode ?s = k_mode s" "k_cand ?s = k_cand s" "k_sel ?s = k_sel s" "preedit_parts ?s = preedit_parts s" "k_commit ?s = []"
      "k_preedit ?s = k_preedit s" "k_span ?s = k_span s" "k_enabled ?s = k_enabled s" "k_dict ?s = k_dict s"
    by (simp_all add: key_comp_def key_start_def)
  have i2: "kana_inv ?s" by (rule key_comp_inv[OF key_start_inv[OF i]])
  have z: "k_comp_len ?s = 0 \<or> key = [0x09]" by (simp add: key_comp_def)
  obtain u v where w: "key_twice ?s key = (u, v)" by fastforce
  have C: "calm ?s 0 u v \<or> walked ?s 0 u v" using key_twice_calm[OF i2 z _ w] False by blast
  have K: "(t, st) = (if v = 0 then (u, 0)
      else (build_preedit (u\<lparr>k_stats := (k_stats u)\<lparr>st_consumed := st_consumed (k_stats u) + 1\<rparr>\<rparr>), v OR SKK_ST_CONSUMED))"
    using k w unfolding skk_key_def Let_def if_not_P[OF False] by simp
  show ?thesis
  proof (cases "v = 0")
    case True
    then have "u = ?s" using key_twice_ok[OF i2 z w] by (simp add: pass_ok_def)
    then show ?thesis using K True S fresh_same[OF f] by (auto simp: flagged_def)
  next
    case False
    let ?u = "u\<lparr>k_stats := (k_stats u)\<lparr>st_consumed := st_consumed (k_stats u) + 1\<rparr>\<rparr>"
    have e: "t = build_preedit ?u" "st = v OR SKK_ST_CONSUMED" using K False by simp_all
    have P: "k_preedit t \<noteq> k_preedit s \<or> k_span t \<noteq> k_span s \<longrightarrow> preedit_parts u \<noteq> preedit_parts ?s"
      using fresh_parts[OF f, of ?u] S(4) by (auto simp: e(1))
    have V: "k_mode t = k_mode u" "k_cand t = k_cand u" "k_sel t = k_sel u" "k_commit t = k_commit u" "k_enabled t = k_enabled u" "k_dict t = k_dict u"
      by (simp_all add: e(1))
    have st: "bit st n \<longleftrightarrow> bit v n" if "n \<noteq> 0" for n using that by (simp add: e(2) bit_or_iff)
    from C have "flagged s t st \<and> k_enabled t = k_enabled s \<and> k_dict t = k_dict s"
    proof
      assume c: "calm ?s 0 u v"
      then have c0: "calm0 ?s 0 u v" and p: "preedit_parts u \<noteq> preedit_parts ?s \<longrightarrow> bit v 1" unfolding calm_def by blast+
      have a: "bit v 4 \<longleftrightarrow> k_commit u \<noteq> []" "\<not> bit v 3" "k_mode u \<noteq> k_mode ?s \<longrightarrow> bit v 5" "k_enabled u = k_enabled ?s" "k_dict u = k_dict ?s"
        using c0 S(5) by (auto simp: calm0_def)
      show ?thesis using a p P calm0_select[OF c0] by (auto simp: flagged_def V S st)
    next
      assume w: "walked ?s 0 u v"
      then obtain n where n: "u = ?s\<lparr>k_sel := n\<rparr>" "k_mode ?s = SKK_MODE_SELECT" "v = SKK_ST_SEL OR SKK_ST_PREEDIT" by (auto simp: walked_def)
      show ?thesis unfolding flagged_def V S(5) st using n S by (simp add: bit_or_iff st)
    qed
    then show ?thesis using e(1) by simp
  qed
qed

end
