(* ===== verification/ImeCore.thy ===== *)
theory ImeCore
  imports SkkStatus
begin

text \<open>
  The session policy of the input method, components/ime_core/ime_core.c and ime_core.h: when keys are
  offered to the engine of SkkKana, what the toggle means, what becomes of a reading on the way out, and
  which parts of the view a renderer has to read again.

  \<open>ime_t\<close> is the record \<open>ime\<close>.  The pointer \<open>text\<close> with its length is the optional list of bytes it points
  at, which the header lets a caller read until the next operation.
\<close>

datatype ime_disp = IME_PASS | IME_TAKEN | IME_TEXT

definition IME_V_PREEDIT :: u32 where "IME_V_PREEDIT = push_bit 0 1"
definition IME_V_CANDS :: u32 where "IME_V_CANDS = push_bit 1 1"
definition IME_V_SEL :: u32 where "IME_V_SEL = push_bit 2 1"
definition IME_V_MODE :: u32 where "IME_V_MODE = push_bit 3 1"
definition IME_V_ENABLE :: u32 where "IME_V_ENABLE = push_bit 4 1"

record ime =
  im_skk :: skk_t
  im_ready :: bool
  im_on :: bool
  im_mode :: skk_mode
  im_ncand :: nat
  im_view :: u32
  im_text :: "bytes option"

section \<open>Operations\<close>

definition TOK_IME :: bytes where "TOK_IME = 0 # ascii ''ime''"

definition is_tok :: "bytes \<Rightarrow> bytes \<Rightarrow> bool" where
  "is_tok key tok \<longleftrightarrow> length key = length tok \<and> hd key = 0 \<and> key = tok"

definition ime_init :: ime where
  "ime_init = \<lparr>im_skk = skk_init, im_ready = False, im_on = False, im_mode = skk_mode_of skk_init, im_ncand = 0, im_view = 0, im_text = None\<rparr>"

definition ime_attach :: "ime \<Rightarrow> skk_dict option \<Rightarrow> ime" where
  "ime_attach im d =
     (let im1 = im\<lparr>im_skk := skk_attach (im_skk im) d, im_ready := d \<noteq> None\<rparr> in
      if \<not> im_ready im1 then im1\<lparr>im_on := False, im_skk := skk_enable (im_skk im1) False\<rparr> else im1)"

definition ime_set_on :: "ime \<Rightarrow> bool \<Rightarrow> ime" where
  "ime_set_on im on =
     (if on \<and> \<not> im_ready im then im
      else if im_on im = on then im
      else let s = skk_enable (im_skk im) on;
               s1 = (if on then (case skk_set_mode s SKK_MODE_KANA of Inl _ \<Rightarrow> s | Inr t \<Rightarrow> t) else skk_reset s) in
        im\<lparr>im_on := on, im_skk := s1, im_mode := skk_mode_of s1, im_ncand := 0, im_text := None,
           im_view := im_view im OR (IME_V_ENABLE OR IME_V_PREEDIT OR IME_V_CANDS OR IME_V_MODE)\<rparr>)"

definition ime_reset :: "ime \<Rightarrow> ime" where
  "ime_reset im =
     (let s = skk_reset (im_skk im) in
      im\<lparr>im_skk := s, im_mode := skk_mode_of s, im_ncand := 0, im_text := None,
         im_view := im_view im OR (IME_V_PREEDIT OR IME_V_CANDS OR IME_V_MODE)\<rparr>)"

text \<open>The fan of \<open>ime_feed\<close>: each status bit of the engine decides what is read again.\<close>

definition fan_commit :: "u32 \<Rightarrow> ime \<Rightarrow> ime" where
  "fan_commit st im = (if st AND SKK_ST_COMMIT \<noteq> 0 then im\<lparr>im_text := Some (skk_commit (im_skk im))\<rparr> else im)"

definition fan_mode :: "u32 \<Rightarrow> ime \<Rightarrow> ime" where
  "fan_mode st im =
     (if st AND SKK_ST_MODE \<noteq> 0 then im\<lparr>im_mode := skk_mode_of (im_skk im), im_view := im_view im OR IME_V_MODE\<rparr> else im)"

definition fan_preedit :: "u32 \<Rightarrow> ime \<Rightarrow> ime" where
  "fan_preedit st im = (if st AND (SKK_ST_PREEDIT OR SKK_ST_COMMIT) \<noteq> 0 then im\<lparr>im_view := im_view im OR IME_V_PREEDIT\<rparr> else im)"

definition fan_cands :: "u32 \<Rightarrow> ime \<Rightarrow> ime" where
  "fan_cands st im =
     (if st AND SKK_ST_CANDS \<noteq> 0 then
        im\<lparr>im_ncand := skk_cand_count (im_skk im), im_view := im_view im OR (IME_V_CANDS OR IME_V_SEL)\<rparr>
      else if st AND SKK_ST_SEL \<noteq> 0 then im\<lparr>im_view := im_view im OR IME_V_SEL\<rparr>
      else if im_mode im \<noteq> SKK_MODE_SELECT \<and> im_ncand im \<noteq> 0 then im\<lparr>im_ncand := 0, im_view := im_view im OR IME_V_CANDS\<rparr>
      else im)"

definition ime_feed :: "ime \<Rightarrow> bytes \<Rightarrow> ime \<times> ime_disp" where
  "ime_feed im key =
     (if key = [] then (im, IME_PASS)
      else if is_tok key TOK_IME then (ime_set_on im (\<not> im_on im), IME_TAKEN)
      else let im1 = im\<lparr>im_text := None\<rparr> in
        if \<not> im_on im1 \<or> \<not> im_ready im1 then (im1, IME_PASS)
        else case skk_key (im_skk im1) key of (s, st) \<Rightarrow>
          let im2 = im1\<lparr>im_skk := s\<rparr> in
          if st = 0 then (im2, IME_PASS)
          else (fan_cands st (fan_preedit st (fan_mode st (fan_commit st im2))),
                if st AND SKK_ST_COMMIT \<noteq> 0 then IME_TEXT else IME_TAKEN))"

definition ime_view :: "ime \<Rightarrow> u32" where "ime_view im = im_view im"
definition ime_view_clear :: "ime \<Rightarrow> ime" where "ime_view_clear im = im\<lparr>im_view := 0\<rparr>"
definition ime_text :: "ime \<Rightarrow> bytes option" where "ime_text im = im_text im"
definition ime_preedit :: "ime \<Rightarrow> bytes" where "ime_preedit im = skk_preedit (im_skk im)"
definition ime_preedit_spans :: "ime \<Rightarrow> skk_span list" where "ime_preedit_spans im = skk_preedit_spans (im_skk im)"
definition ime_mode :: "ime \<Rightarrow> skk_mode" where "ime_mode im = im_mode im"
definition ime_cand_count :: "ime \<Rightarrow> nat" where "ime_cand_count im = im_ncand im"
definition ime_sel :: "ime \<Rightarrow> int" where "ime_sel im = skk_sel_of (im_skk im)"
definition ime_cand :: "ime \<Rightarrow> int \<Rightarrow> bytes option" where "ime_cand im i = skk_cand_at (im_skk im) i"
definition ime_ready :: "ime \<Rightarrow> bool" where "ime_ready im = im_ready im"
definition ime_on :: "ime \<Rightarrow> bool" where "ime_on im = im_on im"

lemmas ime_read_defs = ime_view_def ime_view_clear_def ime_text_def ime_preedit_def ime_preedit_spans_def ime_mode_def ime_cand_count_def
  ime_sel_def ime_cand_def ime_ready_def ime_on_def skk_mode_of_def skk_preedit_def skk_preedit_spans_def skk_cand_count_def skk_sel_of_def skk_commit_def

section \<open>View bits\<close>

lemma v_bits [simp]:
  "bit IME_V_PREEDIT n \<longleftrightarrow> n = 0" "bit IME_V_CANDS n \<longleftrightarrow> n = 1" "bit IME_V_SEL n \<longleftrightarrow> n = 2" "bit IME_V_MODE n \<longleftrightarrow> n = 3"
  "bit IME_V_ENABLE n \<longleftrightarrow> n = 4"
  unfolding IME_V_PREEDIT_def IME_V_CANDS_def IME_V_SEL_def IME_V_MODE_def IME_V_ENABLE_def by (rule bit_flag, simp)+


lemma st_has_preedit: "st AND (SKK_ST_PREEDIT OR SKK_ST_COMMIT) \<noteq> 0 \<longleftrightarrow> bit st 1 \<or> bit st 4"
  unfolding bit.conj_disj_distrib or_zero using st_has(1,4)[of st] by auto

section \<open>The session\<close>

datatype ime_event = IFeed bytes | ISetOn bool | IReset | IViewClear

fun ime_step :: "ime \<Rightarrow> ime_event \<Rightarrow> ime" where
  "ime_step im (IFeed key) = fst (ime_feed im key)"
| "ime_step im (ISetOn on) = ime_set_on im on"
| "ime_step im IReset = ime_reset im"
| "ime_step im IViewClear = ime_view_clear im"

text \<open>
  The session as it is set up at start: without a dictionary, or with one that opened
  (main/text/skk_session.c attaches once).
\<close>

definition ime_boot :: "nat \<Rightarrow> bytes \<Rightarrow> bool \<Rightarrow> ime" where
  "ime_boot base img verify = (case skk_dict_open base img verify of Inl _ \<Rightarrow> ime_init | Inr d \<Rightarrow> ime_attach ime_init (Some d))"

text \<open>
  The invariant: the engine's own; armed only with a dictionary, and armed exactly when the engine is enabled;
  nothing is selected while it is off; the cached mode and count are the engine's.
\<close>

definition ime_inv :: "ime \<Rightarrow> bool" where
  "ime_inv im \<longleftrightarrow> kana_good (im_skk im) \<and> fresh (im_skk im) \<and> (im_on im \<longrightarrow> im_ready im) \<and> (im_ready im \<longleftrightarrow> k_dict (im_skk im) \<noteq> None) \<and>
     k_enabled (im_skk im) = im_on im \<and> im_mode im = k_mode (im_skk im) \<and> im_ncand im = length (k_cand (im_skk im)) \<and>
     (im_text im \<noteq> None \<longrightarrow> im_on im)"

lemma reset_idle: "k_cand (skk_reset s) = []" "k_dict (skk_reset s) = k_dict s" "k_enabled (skk_reset s) = k_enabled s" "fresh (skk_reset s)"
  by (simp_all add: skk_reset_def clear_span_def Let_def)

lemma set_mode_idle:
  assumes "skk_set_mode s m = Inr t"
  shows "k_cand t = [] \<and> k_dict t = k_dict s \<and> k_enabled t = k_enabled s \<and> fresh t \<and> k_mode t = m"
  using assms by (auto simp: skk_set_mode_def clear_span_def Let_def split: if_splits)

lemma set_mode_kana: "\<exists>t. skk_set_mode s SKK_MODE_KANA = Inr t" by (simp add: skk_set_mode_def)

lemma good_bounds: "kana_good s \<Longrightarrow> kana_bounds (s\<lparr>k_enabled := e\<rparr>)"
  by (simp add: kana_good_def kana_inv_def)

lemma enable_good: "kana_good s \<Longrightarrow> kana_good (skk_enable s e)"
  unfolding skk_enable_def by (rule skk_reset_good) (rule good_bounds)

lemma good_kana: "kana_good s \<Longrightarrow> kana_bounds s" by (simp add: kana_good_def kana_inv_def)

lemma ime_set_on_inv: "ime_inv im \<Longrightarrow> ime_inv (ime_set_on im on)"
proof -
  assume i: "ime_inv im"
  let ?s = "skk_enable (im_skk im) on"
  have g: "kana_good ?s" by (rule enable_good) (use i in \<open>simp add: ime_inv_def\<close>)
  have e: "k_enabled ?s = on" "k_dict ?s = k_dict (im_skk im)" by (simp_all add: skk_enable_def reset_idle)
  obtain t where t: "skk_set_mode ?s SKK_MODE_KANA = Inr t" using set_mode_kana by blast
  note T = set_mode_idle[OF t] skk_set_mode_good[OF good_kana[OF g] t]
  note R = reset_idle[of ?s] skk_reset_good[OF good_kana[OF g]]
  show ?thesis using i T R e t by (cases on) (auto simp: ime_set_on_def ime_inv_def Let_def skk_mode_of_def)
qed

lemma ime_reset_inv: "ime_inv im \<Longrightarrow> ime_inv (ime_reset im)"
  using reset_idle[of "im_skk im"] skk_reset_good[OF good_kana[of "im_skk im"]] by (auto simp: ime_reset_def ime_inv_def Let_def skk_mode_of_def)

lemma idle_cand: "kana_inv s \<Longrightarrow> k_mode s \<noteq> SKK_MODE_SELECT \<Longrightarrow> k_cand s = [] \<and> k_sel s = -1"
  by (cases "k_mode s") (simp_all add: kana_inv_def kana_mode_ok_def idle_def)


section \<open>What a renderer reads\<close>

text \<open>
  \<open>noted a b\<close>: going from \<open>a\<close> to \<open>b\<close>, no view bit was lost, and every accessor that answers differently in \<open>b\<close>
  has its bit set there.
\<close>

definition noted :: "ime \<Rightarrow> ime \<Rightarrow> bool" where
  "noted a b \<longleftrightarrow>
     (\<forall>n. bit (im_view a) n \<longrightarrow> bit (im_view b) n) \<and>
     (ime_preedit b \<noteq> ime_preedit a \<or> ime_preedit_spans b \<noteq> ime_preedit_spans a \<longrightarrow> bit (im_view b) 0) \<and>
     (ime_cand_count b \<noteq> ime_cand_count a \<or> ime_cand b \<noteq> ime_cand a \<longrightarrow> bit (im_view b) 1) \<and>
     (ime_sel b \<noteq> ime_sel a \<longrightarrow> bit (im_view b) 1 \<or> bit (im_view b) 2) \<and>
     (ime_mode b \<noteq> ime_mode a \<longrightarrow> bit (im_view b) 3) \<and>
     (ime_on b \<noteq> ime_on a \<longrightarrow> bit (im_view b) 4)"

lemma noted_refl [simp]: "noted a a" by (simp add: noted_def)





section \<open>One key\<close>

lemma fan_frame:
  defines "f st im \<equiv> fan_cands st (fan_preedit st (fan_mode st (fan_commit st im)))"
  shows "im_skk (f st im) = im_skk im" "im_ready (f st im) = im_ready im" "im_on (f st im) = im_on im"
    "im_mode (f st im) = (if bit st 5 then k_mode (im_skk im) else im_mode im)"
    "im_text (f st im) = (if bit st 4 then Some (k_commit (im_skk im)) else im_text im)"
    "im_ncand (f st im) = (if bit st 2 then length (k_cand (im_skk im))
       else if bit st 3 then im_ncand im
       else if im_mode (f st im) \<noteq> SKK_MODE_SELECT then 0 else im_ncand im)"
  by (auto simp: f_def fan_cands_def fan_preedit_def fan_mode_def fan_commit_def st_has st_has_preedit skk_mode_of_def skk_commit_def skk_cand_count_def)

lemma fan_view:
  defines "f st im \<equiv> fan_cands st (fan_preedit st (fan_mode st (fan_commit st im)))"
  shows "bit (im_view (f st im)) n \<longleftrightarrow> bit (im_view im) n \<or>
    (n = 0 \<and> (bit st 1 \<or> bit st 4)) \<or>
    (n = 1 \<and> (bit st 2 \<or> (\<not> bit st 3 \<and> im_mode (f st im) \<noteq> SKK_MODE_SELECT \<and> im_ncand im \<noteq> 0))) \<or>
    (n = 2 \<and> (bit st 2 \<or> bit st 3)) \<or> (n = 3 \<and> bit st 5)"
  by (auto simp: f_def fan_cands_def fan_preedit_def fan_mode_def fan_commit_def st_has st_has_preedit bit_or_iff)

lemma key_step:
  assumes i: "ime_inv im" and k: "skk_key (im_skk im) key = (s, st)"
  shows "kana_good s \<and> flagged (im_skk im) s st \<and> fresh s \<and> k_enabled s = k_enabled (im_skk im) \<and> k_dict s = k_dict (im_skk im) \<and>
    (cands_bit st \<longrightarrow> k_mode s = SKK_MODE_SELECT)"
proof -
  have g: "kana_inv (im_skk im)" "shown (im_skk im)" "fresh (im_skk im)" using i by (simp_all add: ime_inv_def kana_good_def)
  show ?thesis using skk_key_ok[OF g(1) k] skk_key_flagged[OF g(1) g(3) k] g(2) by (simp add: kana_good_def)
qed

lemma feed_cases:
  obtains (empty) "key = []" | (toggle) "key = TOK_IME" "is_tok key TOK_IME" "key \<noteq> []"
    | (off) "key \<noteq> []" "key \<noteq> TOK_IME" "\<not> is_tok key TOK_IME" "\<not> im_on im \<or> \<not> im_ready im"
    | (on) "key \<noteq> []" "key \<noteq> TOK_IME" "\<not> is_tok key TOK_IME" "im_on im" "im_ready im"
  by (cases "key = TOK_IME"; cases "key = []") (auto simp: is_tok_def TOK_IME_def)

lemma toggle_result:
  assumes "\<not> im_on im \<Longrightarrow> im_text im = None" "im_on im \<Longrightarrow> im_ready im"
  shows "im_text (ime_set_on im (\<not> im_on im)) = None \<and> (im_on (ime_set_on im (\<not> im_on im)) \<longleftrightarrow> im_ready im \<and> \<not> im_on im)"
  by (cases "im_on im"; cases "im_ready im") (use assms in \<open>simp_all add: ime_set_on_def Let_def\<close>)

lemma feed_on:
  assumes "key \<noteq> []" "\<not> is_tok key TOK_IME" "im_on im" "im_ready im" "skk_key (im_skk im) key = (s, st)"
  shows "ime_feed im key =
    (if st = 0 then (im\<lparr>im_text := None, im_skk := s\<rparr>, IME_PASS)
     else (fan_cands st (fan_preedit st (fan_mode st (fan_commit st (im\<lparr>im_text := None, im_skk := s\<rparr>)))),
           if bit st 4 then IME_TEXT else IME_TAKEN))"
  using assms by (simp add: ime_feed_def Let_def st_has)

text \<open>The session after a key that reached the engine, fan or not.\<close>

lemma feed_result:
  assumes i: "ime_inv im" and a: "key \<noteq> []" "\<not> is_tok key TOK_IME" "im_on im" "im_ready im"
    and k: "skk_key (im_skk im) key = (s, st)" and f: "ime_feed im key = (im', d)"
  shows "im_skk im' = s" "im_ready im' = im_ready im" "im_on im' = im_on im" "im_mode im' = k_mode s" "im_ncand im' = length (k_cand s)"
    "im_text im' = (if k_commit s = [] then None else Some (k_commit s))"
    "bit (im_view im) n \<Longrightarrow> bit (im_view im') n" "bit st 1 \<Longrightarrow> bit (im_view im') 0"
    "bit st 2 \<or> (k_mode s \<noteq> SKK_MODE_SELECT \<and> im_ncand im \<noteq> 0) \<Longrightarrow> bit (im_view im') 1"
    "bit st 3 \<Longrightarrow> bit (im_view im') 2" "bit st 5 \<Longrightarrow> bit (im_view im') 3"
    "d = IME_TEXT \<longleftrightarrow> k_commit s \<noteq> []" "d = IME_PASS \<longleftrightarrow> st = 0"
proof -
  note K = key_step[OF i k]
  have I: "im_mode im = k_mode (im_skk im)" "im_ncand im = length (k_cand (im_skk im))" "kana_inv (im_skk im)"
    using i by (simp_all add: ime_inv_def kana_good_def)
  have s: "kana_inv s" using K by (simp add: kana_good_def)
  have F: "bit st 4 \<longleftrightarrow> k_commit s \<noteq> []" "k_mode s \<noteq> k_mode (im_skk im) \<longrightarrow> bit st 5" "bit st 3 \<longrightarrow> k_mode s = SKK_MODE_SELECT"
      "k_mode s = SKK_MODE_SELECT \<longrightarrow> bit st 2 \<or> (k_mode (im_skk im) = SKK_MODE_SELECT \<and> k_cand s = k_cand (im_skk im))"
    using K unfolding flagged_def by blast+
  let ?im = "im\<lparr>im_text := None, im_skk := s\<rparr>"
  let ?f = "fan_cands st (fan_preedit st (fan_mode st (fan_commit st ?im)))"
  have c0: "k_mode (im_skk im) \<noteq> SKK_MODE_SELECT \<Longrightarrow> k_cand (im_skk im) = []" "k_mode s \<noteq> SKK_MODE_SELECT \<Longrightarrow> k_cand s = []"
    using idle_cand[OF I(3)] idle_cand[OF s] by blast+
  have m: "(if bit st 5 then k_mode s else im_mode im) = k_mode s" using F(2) I(1) by auto
  have n: "(if bit st 2 then length (k_cand s) else if bit st 3 then im_ncand im
      else if k_mode s \<noteq> SKK_MODE_SELECT then 0 else im_ncand im) = length (k_cand s)"
    using F(3,4) I(2) c0 by auto
  note E = f[unfolded feed_on[OF a k]]
  have "im_skk im' = s \<and> im_ready im' = im_ready im \<and> im_on im' = im_on im \<and> im_mode im' = k_mode s \<and> im_ncand im' = length (k_cand s) \<and>
    im_text im' = (if k_commit s = [] then None else Some (k_commit s)) \<and> (\<forall>n. bit (im_view im) n \<longrightarrow> bit (im_view im') n) \<and>
    (bit st 1 \<longrightarrow> bit (im_view im') 0) \<and> (bit st 2 \<or> (k_mode s \<noteq> SKK_MODE_SELECT \<and> im_ncand im \<noteq> 0) \<longrightarrow> bit (im_view im') 1) \<and>
    (bit st 3 \<longrightarrow> bit (im_view im') 2) \<and> (bit st 5 \<longrightarrow> bit (im_view im') 3) \<and>
    (d = IME_TEXT \<longleftrightarrow> k_commit s \<noteq> []) \<and> (d = IME_PASS \<longleftrightarrow> st = 0)"
  proof (cases "st = 0")
    case True
    then have "im' = ?im" "d = IME_PASS" using E by simp_all
    then show ?thesis using True F m n c0 I(1,2) by auto
  next
    case False
    then have e: "im' = ?f" "d = (if bit st 4 then IME_TEXT else IME_TAKEN)" using E by simp_all
    have M: "im_mode ?f = k_mode s" using m by (simp add: fan_frame(4) split: if_splits)
    have N: "im_ncand ?f = length (k_cand s)" using n by (simp add: fan_frame(6) M split: if_splits)
    show ?thesis unfolding e(1) using M N F(1,3) e(2) False by (auto simp: fan_frame(1-3,5) fan_view)
  qed
  then show "im_skk im' = s" "im_ready im' = im_ready im" "im_on im' = im_on im" "im_mode im' = k_mode s" "im_ncand im' = length (k_cand s)"
    "im_text im' = (if k_commit s = [] then None else Some (k_commit s))"
    "bit (im_view im) n \<Longrightarrow> bit (im_view im') n" "bit st 1 \<Longrightarrow> bit (im_view im') 0"
    "bit st 2 \<or> (k_mode s \<noteq> SKK_MODE_SELECT \<and> im_ncand im \<noteq> 0) \<Longrightarrow> bit (im_view im') 1"
    "bit st 3 \<Longrightarrow> bit (im_view im') 2" "bit st 5 \<Longrightarrow> bit (im_view im') 3"
    "d = IME_TEXT \<longleftrightarrow> k_commit s \<noteq> []" "d = IME_PASS \<longleftrightarrow> st = 0" by blast+
qed

lemma ime_feed_inv:
  assumes "ime_inv im"
  shows "ime_inv (fst (ime_feed im key))"
proof (cases rule: feed_cases[where key = key and im = im])
  case empty
  then show ?thesis using assms by (simp add: ime_feed_def)
next
  case toggle
  then show ?thesis using ime_set_on_inv[OF assms] by (simp add: ime_feed_def)
next
  case off
  then show ?thesis using assms by (simp add: ime_feed_def Let_def ime_inv_def)
next
  case on
  obtain s st where k: "skk_key (im_skk im) key = (s, st)" by fastforce
  obtain im' d where f: "ime_feed im key = (im', d)" by fastforce
  note R = feed_result[OF assms on(1,3,4,5) k f]
  show ?thesis using key_step[OF assms k] assms on(4) by (auto simp: f ime_inv_def R(1-6))
qed


lemma ime_step_inv: "ime_inv im \<Longrightarrow> ime_inv (ime_step im e)"
  by (cases e) (auto simp: ime_feed_inv ime_set_on_inv ime_reset_inv, auto simp: ime_inv_def ime_view_clear_def)


lemma ime_init_inv: "ime_inv ime_init"
  using skk_init_good by (simp add: ime_inv_def ime_init_def skk_mode_of_def) (simp add: skk_init_def fresh_def build_preedit_def preedit_parts_def pre_span_def pre_add_def)

lemma ime_boot_inv: "ime_inv (ime_boot b img v)"
proof (cases "skk_dict_open b img v")
  case (Inl x)
  then show ?thesis using ime_init_inv by (simp add: ime_boot_def)
next
  case (Inr d)
  then have d: "dict_ok d" using open_success by blast
  have "kana_good (skk_attach skk_init (Some d))" by (rule skk_attach_good[OF skk_init_good]) (use d in simp)
  moreover have "fresh (skk_attach skk_init (Some d))"
    by (simp add: skk_attach_def skk_init_def fresh_def build_preedit_def preedit_parts_def pre_span_def pre_add_def)
  ultimately show ?thesis using Inr by (simp add: ime_boot_def ime_attach_def ime_inv_def ime_init_def Let_def skk_mode_of_def) (simp add: skk_attach_def skk_init_def)
qed

interpretation ime: event_machine ime_step ime_inv
  by unfold_locales (rule ime_step_inv)

lemma ime_reachable: "ime_inv (foldl ime_step (ime_boot b img v) es)"
  by (rule ime.run_inv) (rule ime_boot_inv)


section \<open>The contract of the layer\<close>

lemma boot_ready: "\<exists>dict. ime_boot 0 empty_image True = ime_attach ime_init (Some dict)"
  using empty_image_opens by (auto simp: ime_boot_def)





text \<open>Property C13: what leaves the input method is exactly what the engine committed.  In every session a non-empty
  key is answered TEXT exactly when it reached an armed engine that committed something, and the text is that; with any
  other answer there is no text; a key that is passed on has changed nothing that can be read; and the cached mode and
  count agree with the engine throughout.\<close>

theorem ime_feed_exact:
  assumes "im = foldl ime_step (ime_boot b img v) es" "ime_feed im key = (im', d)" "key \<noteq> []" "skk_key (im_skk im) key = (s, st)"
  shows "(d = IME_TEXT \<longleftrightarrow> key \<noteq> TOK_IME \<and> ime_on im \<and> skk_commit s \<noteq> []) \<and>
    ime_text im' = (if d = IME_TEXT then Some (skk_commit s) else None) \<and>
    (key = TOK_IME \<longrightarrow> d = IME_TAKEN \<and> (ime_on im' \<longleftrightarrow> ime_ready im \<and> \<not> ime_on im)) \<and>
    (d = IME_PASS \<longrightarrow> ime_preedit im' = ime_preedit im \<and> ime_preedit_spans im' = ime_preedit_spans im \<and> ime_mode im' = ime_mode im \<and>
       ime_cand_count im' = ime_cand_count im \<and> ime_cand im' = ime_cand im \<and> ime_sel im' = ime_sel im \<and> ime_view im' = ime_view im) \<and>
    ime_mode im' = skk_mode_of (im_skk im') \<and> ime_cand_count im' = skk_cand_count (im_skk im')"
proof -
  have i: "ime_inv im" using ime_reachable assms(1) by simp
  have i': "ime_inv im'" using ime_feed_inv[OF i, of key] assms(2) by simp
  then have cached: "ime_mode im' = skk_mode_of (im_skk im') \<and> ime_cand_count im' = skk_cand_count (im_skk im')"
    by (simp add: ime_inv_def ime_read_defs)
  have t0: "\<not> im_on im \<Longrightarrow> im_text im = None" "im_on im \<Longrightarrow> im_ready im" using i by (auto simp: ime_inv_def)
  show ?thesis
  proof (cases rule: feed_cases[where key = key and im = im])
    case empty
    then show ?thesis using assms(3) by simp
  next
    case toggle
    have "im_text im' = None \<and> d = IME_TAKEN \<and> (im_on im' \<longleftrightarrow> im_ready im \<and> \<not> im_on im)"
      using assms(2) toggle toggle_result[OF t0] by (auto simp: ime_feed_def)
    then show ?thesis using toggle cached by (simp add: ime_text_def ime_on_def ime_ready_def)
  next
    case off
    then have "im' = im\<lparr>im_text := None\<rparr>" "d = IME_PASS" "\<not> im_on im" using assms(2) t0 by (auto simp: ime_feed_def Let_def)
    then show ?thesis using off cached by (simp add: ime_read_defs fun_eq_iff)
  next
    case on
    note R = feed_result[OF i on(1,3,4,5) assms(4,2)]
    have P: "im_skk im' = s \<and> im_view im' = im_view im \<and> (s = key_start (im_skk im) \<or> s = key_comp (key_start (im_skk im)) key)" if "st = 0"
      using assms(2) skk_key_ok[OF _ assms(4)] i that unfolding feed_on[OF on(1,3,4,5) assms(4)] by (auto simp: ime_inv_def kana_good_def)
    have C: "skk_cand_at (key_start u) = skk_cand_at u" "skk_cand_at (key_comp u key) = skk_cand_at u" for u
      by (simp_all add: fun_eq_iff skk_cand_at_def key_start_def key_comp_def Let_def split: option.splits)
    have V: "ime_preedit im' = ime_preedit im \<and> ime_preedit_spans im' = ime_preedit_spans im \<and> ime_mode im' = ime_mode im \<and>
       ime_cand_count im' = ime_cand_count im \<and> ime_cand im' = ime_cand im \<and> ime_sel im' = ime_sel im \<and> ime_view im' = ime_view im" if "st = 0"
      using P[OF that] i R(4,5) C by (auto simp: ime_read_defs fun_eq_iff ime_inv_def key_start_def key_comp_def)
    show ?thesis using R(6,12,13) V on cached by (auto simp: ime_text_def ime_on_def skk_commit_def)
  qed
qed

lemma ime_feed_exact_witness:
  "ime_text (fst (ime_feed (foldl ime_step (ime_boot 0 empty_image True) [ISetOn True]) TOK_IME)) = None \<and>
   snd (ime_feed (foldl ime_step (ime_boot 0 empty_image True) [ISetOn True]) TOK_IME) = IME_TAKEN \<and>
   \<not> ime_on (fst (ime_feed (foldl ime_step (ime_boot 0 empty_image True) [ISetOn True]) TOK_IME))"
proof -
  let ?im = "foldl ime_step (ime_boot 0 empty_image True) [ISetOn True]"
  obtain im' d where f: "ime_feed ?im TOK_IME = (im', d)" by fastforce
  obtain s st where k: "skk_key (im_skk ?im) TOK_IME = (s, st)" by fastforce
  obtain dict where b: "ime_boot 0 empty_image True = ime_attach ime_init (Some dict)" using boot_ready by blast
  have "ime_on ?im" by (simp add: b ime_on_def ime_set_on_def ime_attach_def ime_init_def Let_def)
  moreover have "TOK_IME \<noteq> []" by (simp add: TOK_IME_def)
  ultimately show ?thesis using ime_feed_exact[OF refl f _ k] unfolding f fst_conv snd_conv by auto
qed

end
