(* ===== verification/SkkSession.thy ===== *)
theory SkkSession
  imports ImeCore
begin

text \<open>
  The one session of the device, main/text/skk_session.c: the dictionary partition is mapped, opened and
  attached, and the checksum walk is skipped when the settings remember the pair of length and checksum that
  was verified before.

  The partition is an argument: absent, not mappable, or mapped at an address with its bytes.  The settings are the
  stored pair, \<open>None\<close> when the name space does not open; an absent key reads as the zero that the code initialises.
  The timings and the probe lookup, which only log, are left out.
\<close>

datatype skk_part = PART_ABSENT | PART_UNMAPPED | PART_MAPPED nat bytes

datatype skk_status = NOT_INITIALISED | NO_PARTITION | MMAP_FAILED | DICT_INVALID | READY

record skk_device =
  sd_session :: ime
  sd_ready :: bool
  sd_status :: skk_status

definition skk_session_init :: "skk_part \<Rightarrow> (u32 \<times> u32) option \<Rightarrow> skk_device \<Rightarrow> bool \<times> (u32 \<times> u32) option \<times> skk_device" where
  "skk_session_init part prefs dev =
     (let dev = dev\<lparr>sd_session := ime_init\<rparr> in
      case part of
        PART_ABSENT \<Rightarrow> (False, prefs, dev\<lparr>sd_status := NO_PARTITION\<rparr>)
      | PART_UNMAPPED \<Rightarrow> (False, prefs, dev\<lparr>sd_status := MMAP_FAILED\<rparr>)
      | PART_MAPPED base img \<Rightarrow>
          let image_len = rd_u32 img 8; payload_crc = rd_u32 img 12;
              verified = (case prefs of None \<Rightarrow> False | Some (seen_len, seen_crc) \<Rightarrow> seen_len = image_len \<and> seen_crc = payload_crc);
              rc = skk_dict_open base img (\<not> verified);
              prefs' = (if prefs \<noteq> None \<and> \<not> isl rc \<and> \<not> verified then Some (image_len, payload_crc) else prefs) in
          (case rc of
             Inl e \<Rightarrow> (False, prefs', dev\<lparr>sd_status := DICT_INVALID\<rparr>)
           | Inr d \<Rightarrow> (True, prefs', dev\<lparr>sd_session := ime_attach (sd_session dev) (Some d), sd_ready := True, sd_status := READY\<rparr>)))"

definition skk_session_ready :: "skk_device \<Rightarrow> bool" where "skk_session_ready dev = sd_ready dev"
definition skk_session :: "skk_device \<Rightarrow> ime" where "skk_session dev = sd_session dev"
definition skk_session_status :: "skk_device \<Rightarrow> skk_status" where "skk_session_status dev = sd_status dev"

text \<open>The session is the one of the input core, so its contract holds on the device.\<close>

lemma skk_session_boot:
  assumes "skk_session_init part prefs dev = (ok, prefs', dev')"
  shows "(\<not> ok \<and> skk_session dev' = ime_init) \<or>
    (ok \<and> sd_ready dev' \<and> (\<exists>base img v. part = PART_MAPPED base img \<and> skk_session dev' = ime_boot base img v \<and> ime_ready (skk_session dev')))"
proof (cases part)
  case (PART_MAPPED base img)
  define v where "v = (case prefs of None \<Rightarrow> False | Some (a, b) \<Rightarrow> a = rd_u32 img 8 \<and> b = rd_u32 img 12)"
  show ?thesis
  proof (cases "skk_dict_open base img (\<not> v)")
    case (Inl e)
    then show ?thesis using assms PART_MAPPED by (auto simp: skk_session_init_def skk_session_def Let_def v_def)
  next
    case (Inr d)
    then have "ok \<and> sd_ready dev' \<and> skk_session dev' = ime_attach ime_init (Some d)"
      using assms PART_MAPPED by (auto simp: skk_session_init_def skk_session_def Let_def v_def)
    moreover have "ime_boot base img (\<not> v) = ime_attach ime_init (Some d)" using Inr by (simp add: ime_boot_def)
    ultimately show ?thesis using PART_MAPPED by (auto simp: ime_ready_def ime_attach_def Let_def intro!: exI[of _ "\<not> v"])
  qed
qed (use assms in \<open>auto simp: skk_session_init_def skk_session_def Let_def\<close>)

text \<open>
  Skipping the walk changes nothing but its cost: an image that opened with the walk opens without it, as the
  same dictionary.
\<close>

lemma open_unverified: "skk_dict_open base img True = Inr d \<Longrightarrow> skk_dict_open base img False = Inr d"
  by (simp add: skk_dict_open_def Let_def split: if_splits)

lemma open_any: "skk_dict_open base img v = Inr d \<Longrightarrow> skk_dict_open base img False = Inr d"
  using open_unverified by (cases v) auto

text \<open>
  The next start over the same partition: it is ready with the same session, whichever of the two opens is used,
  and leaves the settings as they are.
\<close>

theorem skk_session_next_start:
  assumes "skk_session_init (PART_MAPPED base img) (Some p) dev = (True, prefs', dev')"
  shows "prefs' = Some (rd_u32 img 8, rd_u32 img 12) \<and>
    skk_session_init (PART_MAPPED base img) prefs' dev2 =
      (True, prefs', dev2\<lparr>sd_session := sd_session dev', sd_ready := True, sd_status := READY\<rparr>)"
proof -
  define v where "v = (fst p = rd_u32 img 8 \<and> snd p = rd_u32 img 12)"
  obtain a b where p: "p = (a, b)" by fastforce
  obtain d where d: "skk_dict_open base img (\<not> v) = Inr d"
    using assms by (cases "skk_dict_open base img (\<not> v)") (auto simp: skk_session_init_def Let_def v_def p)
  have o': "skk_dict_open base img False = Inr d" by (rule open_any[OF d])
  have P: "prefs' = Some (rd_u32 img 8, rd_u32 img 12)" and S: "sd_session dev' = ime_attach ime_init (Some d)"
    using assms d by (auto simp: skk_session_init_def Let_def v_def p split: if_splits)
  then show ?thesis using o' by (simp add: skk_session_init_def Let_def)
qed

end
