(* ===== verification/AppControl.thy ===== *)
theory AppControl
  imports Prelude
begin

text \<open>
  Native remote control (\<open>main/pocket/app_control.c\<close>, \<open>app_control.h\<close>, the byte helpers of
  \<open>pocket_wire.h\<close>): a bounded request queue filled by the USB input task, a session with a lease
  and a fence, and a ledger of receipts that makes every command take effect at most once.

  What the sources reach through \<open>app_control_hooks_t\<close> is a parameter: the hooks act on a world
  \<open>'w\<close>.  The catalogue, the fingerprint and the instance number are read from the world; start,
  tap, suspend, stop, emit and the clock may change it, and answer whatever they like.  The ledger
  array with its counter \<open>used\<close> is the list of its used entries.
\<close>

section \<open>Codes and data\<close>

abbreviation AC_CATALOG :: u8 where "AC_CATALOG \<equiv> 1"
abbreviation AC_OPEN :: u8 where "AC_OPEN \<equiv> 2"
abbreviation AC_START :: u8 where "AC_START \<equiv> 3"
abbreviation AC_TAP :: u8 where "AC_TAP \<equiv> 4"
abbreviation AC_STATUS :: u8 where "AC_STATUS \<equiv> 5"
abbreviation AC_SUSPEND :: u8 where "AC_SUSPEND \<equiv> 6"
abbreviation AC_STOP :: u8 where "AC_STOP \<equiv> 7"
abbreviation AC_CLOSE :: u8 where "AC_CLOSE \<equiv> 8"
abbreviation AC_REPLY :: u8 where "AC_REPLY \<equiv> 128"

abbreviation AC_OK :: u8 where "AC_OK \<equiv> 0"
abbreviation AC_ACCEPTED :: u8 where "AC_ACCEPTED \<equiv> 1"
abbreviation AC_CONSUMED :: u8 where "AC_CONSUMED \<equiv> 2"
abbreviation AC_UNKNOWN_APP :: u8 where "AC_UNKNOWN_APP \<equiv> 3"
abbreviation AC_UNSUPPORTED :: u8 where "AC_UNSUPPORTED \<equiv> 4"
abbreviation AC_STALE_BOOT :: u8 where "AC_STALE_BOOT \<equiv> 5"
abbreviation AC_STALE_SESSION :: u8 where "AC_STALE_SESSION \<equiv> 6"
abbreviation AC_STALE_LEASE :: u8 where "AC_STALE_LEASE \<equiv> 7"
abbreviation AC_STALE_RUN :: u8 where "AC_STALE_RUN \<equiv> 8"
abbreviation AC_OUT_OF_ORDER :: u8 where "AC_OUT_OF_ORDER \<equiv> 9"
abbreviation AC_CONFLICT :: u8 where "AC_CONFLICT \<equiv> 10"
abbreviation AC_QUEUE_FULL :: u8 where "AC_QUEUE_FULL \<equiv> 11"
abbreviation AC_BLOCKED :: u8 where "AC_BLOCKED \<equiv> 12"
abbreviation AC_BUSY :: u8 where "AC_BUSY \<equiv> 13"
abbreviation AC_OUTCOME_UNKNOWN :: u8 where "AC_OUTCOME_UNKNOWN \<equiv> 14"
abbreviation AC_LIMIT :: u8 where "AC_LIMIT \<equiv> 15"
abbreviation AC_EXPIRED :: u8 where "AC_EXPIRED \<equiv> 16"
abbreviation AC_INVALID :: u8 where "AC_INVALID \<equiv> 17"
abbreviation AC_TEARDOWN_FAILED :: u8 where "AC_TEARDOWN_FAILED \<equiv> 18"

abbreviation AC_NO_SESSION :: u8 where "AC_NO_SESSION \<equiv> 0"
abbreviation AC_READY :: u8 where "AC_READY \<equiv> 1"
abbreviation AC_RUNNING :: u8 where "AC_RUNNING \<equiv> 2"
abbreviation AC_SUSPENDED :: u8 where "AC_SUSPENDED \<equiv> 3"
abbreviation AC_STOPPED :: u8 where "AC_STOPPED \<equiv> 4"
abbreviation AC_NEEDS_REVIEW :: u8 where "AC_NEEDS_REVIEW \<equiv> 5"

abbreviation AC_REQUEST_SIZE :: nat where "AC_REQUEST_SIZE \<equiv> 60"
abbreviation AC_RESPONSE_SIZE :: nat where "AC_RESPONSE_SIZE \<equiv> 120"
abbreviation AC_INBOX :: nat where "AC_INBOX \<equiv> 4"
abbreviation AC_LEDGER :: nat where "AC_LEDGER \<equiv> 64"

record app_control_descriptor =
  d_id :: bytes
  d_title :: "bytes option"
  d_flags :: u32

record 'w app_control_hooks =
  h_catalog_count :: "'w \<Rightarrow> u32"
  h_catalog :: "u32 \<Rightarrow> 'w \<Rightarrow> app_control_descriptor option"
  h_start :: "bytes \<Rightarrow> bool \<Rightarrow> 'w \<Rightarrow> u8 \<times> 'w"
  h_tap :: "u8 \<Rightarrow> 'w \<Rightarrow> u8 \<times> 'w"
  h_suspend :: "'w \<Rightarrow> u8 \<times> 'w"
  h_stop :: "'w \<Rightarrow> bool \<times> 'w"
  h_emit :: "bytes \<Rightarrow> 'w \<Rightarrow> bool \<times> 'w"
  h_fingerprint :: "'w \<Rightarrow> bytes \<times> bytes"
  h_instance :: "'w \<Rightarrow> u32"
  h_clock_ms :: "('w \<Rightarrow> u64 \<times> 'w) option"

record request =
  rq_session :: u32
  rq_id :: u32
  rq_op :: u8
  rq_data :: bytes

record receipt =
  rc_request :: request
  rc_run :: u32
  rc_result :: u8
  rc_state :: u8

record control =
  ct_boot :: u64
  ct_deadline :: u64
  ct_now :: u64
  ct_rate_start :: u64
  ct_session :: u32
  ct_fence :: u32
  ct_run :: u32
  ct_run_counter :: u32
  ct_next_seq :: u32
  ct_ttl :: u32
  ct_offer :: u32
  ct_instance :: u32
  ct_state :: u8
  ct_user_count :: u8
  ct_rate_count :: u8
  ct_closed :: bool
  ct_app :: bytes
  ct_ledger :: "receipt list"

text \<open>The queue and the mailbox beside the control block, the head the current turn drains to, and
the world.\<close>

record 'w app_control =
  ac_control :: control
  ac_inbox :: "request list"
  ac_overflow :: request
  ac_head :: u32
  ac_tail :: u32
  ac_overflow_ready :: bool
  ac_limit :: u32
  ac_world :: 'w

section \<open>Bytes\<close>

definition pocket_wire_read32 :: "bytes \<Rightarrow> nat \<Rightarrow> u32" where
  "pocket_wire_read32 p k =
     ucast (p ! k) OR push_bit 8 (ucast (p ! (k + 1))) OR push_bit 16 (ucast (p ! (k + 2)))
       OR push_bit 24 (ucast (p ! (k + 3)))"

text \<open>\<open>poke b k xs\<close> overwrites the bytes of \<open>b\<close> from index \<open>k\<close>.\<close>

definition poke :: "bytes \<Rightarrow> nat \<Rightarrow> bytes \<Rightarrow> bytes" where
  "poke b k xs = take k b @ take (length b - k) xs @ drop (k + length xs) b"

definition pocket_wire_write32 :: "bytes \<Rightarrow> nat \<Rightarrow> u32 \<Rightarrow> bytes" where
  "pocket_wire_write32 b k v =
     poke b k [ucast v, ucast (drop_bit 8 v), ucast (drop_bit 16 v), ucast (drop_bit 24 v)]"

definition rd64 :: "bytes \<Rightarrow> nat \<Rightarrow> u64" where
  "rd64 p k = ucast (pocket_wire_read32 p k) OR push_bit 32 (ucast (pocket_wire_read32 p (k + 4)))"

definition wr64 :: "bytes \<Rightarrow> nat \<Rightarrow> u64 \<Rightarrow> bytes" where
  "wr64 b k v =
     pocket_wire_write32 (pocket_wire_write32 b k (ucast v)) (k + 4) (ucast (drop_bit 32 v))"

text \<open>\<open>text\<close> copies at most \<open>n - 1\<close> bytes of a string into a field that is zero.\<close>

definition text_field :: "bytes \<Rightarrow> nat \<Rightarrow> nat \<Rightarrow> bytes option \<Rightarrow> bytes" where
  "text_field b k n s = (case s of None \<Rightarrow> b | Some t \<Rightarrow> poke b k (take (n - 1) t))"

definition c_string :: "bytes \<Rightarrow> nat \<Rightarrow> bytes" where
  "c_string p k = takeWhile (\<lambda>x. x \<noteq> 0) (drop k p)"

fun clean_loop :: "bool \<Rightarrow> bytes \<Rightarrow> bool" where
  "clean_loop end [] = end"
| "clean_loop end (x # xs) =
     (if x = 0 then clean_loop True xs
      else if end \<or> x < 0x21 \<or> x > 0x7e then False
      else clean_loop end xs)"

definition clean_string :: "bytes \<Rightarrow> bool" where
  "clean_string p = clean_loop False (take 32 p)"

definition zero_bytes :: "bytes \<Rightarrow> nat \<Rightarrow> bool" where
  "zero_bytes p n = list_all (\<lambda>x. x = 0) (take n p)"

section \<open>Replies\<close>

definition reply_remaining :: "control \<Rightarrow> u8 \<Rightarrow> u32" where
  "reply_remaining c state =
     (if ct_session c \<noteq> 0 \<and> \<not> ct_closed c \<and> state \<noteq> AC_NO_SESSION \<and> ct_deadline c > ct_now c
      then ucast (ct_deadline c - ct_now c) else 0)"

definition reply_body :: "'w app_control_hooks \<Rightarrow> control \<Rightarrow> 'w \<Rightarrow> request \<Rightarrow> u8 \<Rightarrow> u8 \<Rightarrow> u32 \<Rightarrow>
    app_control_descriptor option \<Rightarrow> u32 \<Rightarrow> bytes" where
  "reply_body h c w r result state run d index =
     (let b = [1, AC_REPLY, of_nat AC_RESPONSE_SIZE, 0] @ replicate (8 + AC_RESPONSE_SIZE) 0;
          b = pocket_wire_write32 b 4 (if rq_op r = AC_CATALOG then ct_offer c else rq_session r);
          b = pocket_wire_write32 b 8 (rq_id r);
          b = wr64 b 12 (ct_boot c);
          b = pocket_wire_write32 b 20 run;
          b = pocket_wire_write32 b 24 (pocket_wire_read32 (rq_data r) 12);
          b = pocket_wire_write32 b 28 (ct_fence c);
          b = poke b 32 [result, state, rq_op r, rq_data r ! 56];
          b = pocket_wire_write32 b 36 (ct_next_seq c);
          b = pocket_wire_write32 b 40 (reply_remaining c state);
          b = poke b 44 [ucast index, ucast (drop_bit 8 index)];
          count = h_catalog_count h w;
          b = poke b 46 [ucast count, ucast (drop_bit 8 count)]
      in if rq_op r = AC_CATALOG \<and> index = 0xffff \<and> result = AC_OK then
           (let (hash, version) = h_fingerprint h w in poke (poke b 52 hash) 84 version)
         else case d of
           Some d \<Rightarrow> text_field (text_field (pocket_wire_write32 b 48 (d_flags d)) 52 32 (Some (d_id d)))
                       84 48 (d_title d)
         | None \<Rightarrow> text_field b 52 32 (Some (ct_app c)))"

definition reply :: "'w app_control_hooks \<Rightarrow> control \<Rightarrow> 'w \<Rightarrow> request \<Rightarrow> u8 \<Rightarrow> u8 \<Rightarrow> u32 \<Rightarrow>
    app_control_descriptor option \<Rightarrow> u32 \<Rightarrow> 'w" where
  "reply h c w r result state run d index =
     snd (h_emit h (reply_body h c w r result state run d index) w)"

text \<open>Most replies carry the current state and run.\<close>

abbreviation answer :: "'w app_control_hooks \<Rightarrow> control \<Rightarrow> 'w \<Rightarrow> request \<Rightarrow> u8 \<Rightarrow> 'w" where
  "answer h c w r result \<equiv> reply h c w r result (ct_state c) (ct_run c) None 0"

section \<open>The ledger\<close>

definition find_receipt :: "control \<Rightarrow> u32 \<Rightarrow> receipt option" where
  "find_receipt c i = List.find (\<lambda>e. rq_id (rc_request e) = i) (ct_ledger c)"

definition same_request :: "request \<Rightarrow> request \<Rightarrow> bool" where
  "same_request a b \<longleftrightarrow> rq_session a = rq_session b \<and> rq_id a = rq_id b \<and> rq_op a = rq_op b \<and>
     rq_data a = rq_data b"

section \<open>Start and input\<close>

definition null_request :: request where
  "null_request = \<lparr>rq_session = 0, rq_id = 0, rq_op = 0, rq_data = replicate AC_REQUEST_SIZE 0\<rparr>"

definition app_control_init :: "u64 \<Rightarrow> 'w \<Rightarrow> 'w app_control" where
  "app_control_init boot w =
     (let boot = (if boot \<noteq> 0 then boot else 1);
          offer = (ucast boot :: u32)
      in \<lparr>ac_control = \<lparr>ct_boot = boot, ct_deadline = 0, ct_now = 0, ct_rate_start = 0, ct_session = 0,
            ct_fence = 0, ct_run = 0, ct_run_counter = 0, ct_next_seq = 0, ct_ttl = 0,
            ct_offer = (if offer = 0 then 1 else offer), ct_instance = 0, ct_state = 0,
            ct_user_count = 0, ct_rate_count = 0, ct_closed = False, ct_app = [], ct_ledger = []\<rparr>,
          ac_inbox = replicate AC_INBOX null_request, ac_overflow = null_request, ac_head = 0,
          ac_tail = 0, ac_overflow_ready = False, ac_limit = 0, ac_world = w\<rparr>)"

definition frame_ok :: "bytes \<Rightarrow> bool" where
  "frame_ok body \<longleftrightarrow> length body = 12 + AC_REQUEST_SIZE \<and> body ! 0 = 1 \<and> body ! 2 = of_nat AC_REQUEST_SIZE \<and>
     body ! 3 = 0"

definition frame_request :: "bytes \<Rightarrow> request" where
  "frame_request body = \<lparr>rq_session = pocket_wire_read32 body 4, rq_id = pocket_wire_read32 body 8,
     rq_op = body ! 1, rq_data = drop 12 body\<rparr>"

definition app_control_receive :: "bytes \<Rightarrow> 'w app_control \<Rightarrow> 'w app_control" where
  "app_control_receive body s =
     (if \<not> frame_ok body then s
      else
        (let r = frame_request body;
             hd = ac_head s
         in if hd - ac_tail s \<ge> of_nat AC_INBOX then
              (if \<not> ac_overflow_ready s then s\<lparr>ac_overflow := r, ac_overflow_ready := True\<rparr> else s)
            else s\<lparr>ac_inbox := (ac_inbox s)[unat hd mod AC_INBOX := r], ac_head := hd + 1\<rparr>))"

section \<open>Handling one request\<close>

fun descriptor_loop :: "'w app_control_hooks \<Rightarrow> 'w \<Rightarrow> bytes \<Rightarrow> nat list \<Rightarrow> app_control_descriptor option" where
  "descriptor_loop h w name [] = None"
| "descriptor_loop h w name (i # is) =
     (case h_catalog h (of_nat i) w of
        Some d \<Rightarrow> if d_id d = name then Some d else descriptor_loop h w name is
      | None \<Rightarrow> descriptor_loop h w name is)"

definition descriptor_for :: "'w app_control_hooks \<Rightarrow> 'w \<Rightarrow> bytes \<Rightarrow> app_control_descriptor option" where
  "descriptor_for h w name = descriptor_loop h w name [0..<unat (h_catalog_count h w)]"

definition expire :: "'w app_control_hooks \<Rightarrow> control \<Rightarrow> 'w \<Rightarrow> control \<times> 'w" where
  "expire h c w =
     (if ct_session c \<noteq> 0 \<and> \<not> ct_closed c \<and> ct_now c \<ge> ct_deadline c then
        (let (gone, w) = (if ct_state c = AC_STOPPED then (True, w) else h_stop h w)
         in if gone then
              (c\<lparr>ct_state := AC_STOPPED, ct_closed := True, ct_offer := ct_offer c + 1\<rparr>, w)
            else (c\<lparr>ct_state := AC_NEEDS_REVIEW\<rparr>, w))
      else (c, w))"

definition clock_tick :: "'w app_control_hooks \<Rightarrow> control \<Rightarrow> 'w \<Rightarrow> control \<times> 'w" where
  "clock_tick h c w =
     (case h_clock_ms h of None \<Rightarrow> (c, w) | Some clk \<Rightarrow> (let (t, w) = clk w in (c\<lparr>ct_now := t\<rparr>, w)))"

definition malformed :: "request \<Rightarrow> bool" where
  "malformed r \<longleftrightarrow>
     \<not> clean_string (drop 24 (rq_data r)) \<or> \<not> zero_bytes (drop 57 (rq_data r)) 3 \<or>
     rq_op r < AC_CATALOG \<or> rq_op r > AC_CLOSE \<or>
     (rq_op r \<ge> AC_START \<and>
       (pocket_wire_read32 (rq_data r) 20 \<noteq> 0 \<or>
        (rq_op r \<noteq> AC_START \<and> \<not> zero_bytes (drop 24 (rq_data r)) 32) \<or>
        (rq_op r \<noteq> AC_START \<and> rq_op r \<noteq> AC_TAP \<and> rq_data r ! 56 \<noteq> 0)))"

abbreviation rq_run :: "request \<Rightarrow> u32" where "rq_run r \<equiv> pocket_wire_read32 (rq_data r) 8"
abbreviation rq_seq :: "request \<Rightarrow> u32" where "rq_seq r \<equiv> pocket_wire_read32 (rq_data r) 12"
abbreviation rq_fence :: "request \<Rightarrow> u32" where "rq_fence r \<equiv> pocket_wire_read32 (rq_data r) 16"
abbreviation rq_ttl :: "request \<Rightarrow> u32" where "rq_ttl r \<equiv> pocket_wire_read32 (rq_data r) 20"
abbreviation rq_boot :: "request \<Rightarrow> u64" where "rq_boot r \<equiv> rd64 (rq_data r) 0"
abbreviation rq_arg :: "request \<Rightarrow> u8" where "rq_arg r \<equiv> rq_data r ! 56"

definition handle_catalog :: "'w app_control_hooks \<Rightarrow> control \<Rightarrow> 'w \<Rightarrow> request \<Rightarrow> 'w" where
  "handle_catalog h c w r =
     (let valid = rq_session r = 0 \<and> rq_id r = 0 \<and> zero_bytes (rq_data r) 12 \<and>
                  zero_bytes (drop 16 (rq_data r)) 44;
          d = (if rq_seq r = 0xffff then None else h_catalog h (rq_seq r) w);
          got = valid \<and> (rq_seq r = 0xffff \<or> d \<noteq> None)
      in reply h c w r (if got then AC_OK else AC_INVALID) (ct_state c) (ct_run c)
           (if got then d else None) (rq_seq r))"

definition open_result :: "control \<Rightarrow> request \<Rightarrow> u8" where
  "open_result c r =
     (if rq_session r = 0 \<or> rq_fence r = 0 \<or> rq_id r \<noteq> 0 \<or> rq_run r \<noteq> 0 \<or> rq_seq r \<noteq> 0 \<or> rq_ttl r = 0 \<or>
         rq_ttl r > 90000 \<or> rq_arg r \<noteq> 0 \<or> \<not> zero_bytes (drop 24 (rq_data r)) 32 then AC_INVALID
      else if ct_session c \<noteq> 0 \<and> \<not> ct_closed c then
        (if ct_session c \<noteq> rq_session r \<or> ct_fence c \<noteq> rq_fence r \<or> ct_ttl c \<noteq> rq_ttl r
         then AC_BUSY else AC_OK)
      else if ct_offer c = 0 \<or> rq_session r \<noteq> ct_offer c then AC_STALE_SESSION
      else AC_OK)"

definition open_session :: "control \<Rightarrow> request \<Rightarrow> control" where
  "open_session c r = c\<lparr>ct_session := rq_session r, ct_fence := rq_fence r, ct_ttl := rq_ttl r,
     ct_deadline := ct_now c + ucast (rq_ttl r), ct_next_seq := 1, ct_state := AC_READY,
     ct_ledger := [], ct_user_count := 0, ct_rate_count := 0, ct_rate_start := ct_now c, ct_run := 0,
     ct_app := [], ct_closed := False\<rparr>"

definition handle_open :: "'w app_control_hooks \<Rightarrow> control \<Rightarrow> 'w \<Rightarrow> request \<Rightarrow> control \<times> 'w" where
  "handle_open h c w r =
     (let result = open_result c r;
          c = (if result = AC_OK \<and> \<not> (ct_session c \<noteq> 0 \<and> \<not> ct_closed c) then open_session c r else c)
      in (c, answer h c w r result))"

definition handle_status :: "'w app_control_hooks \<Rightarrow> control \<Rightarrow> 'w \<Rightarrow> request \<Rightarrow> 'w" where
  "handle_status h c w r =
     (if rq_id r \<noteq> 0 then
        (case find_receipt c (rq_id r) of
           None \<Rightarrow> answer h c w r AC_OUTCOME_UNKNOWN
         | Some e \<Rightarrow>
             if rq_seq (rc_request e) \<noteq> rq_seq r then answer h c w r AC_OUTCOME_UNKNOWN
             else reply h c w (rc_request e) (rc_result e) (rc_state e) (rc_run e) None 0)
      else if rq_run r \<noteq> ct_run c then answer h c w r AC_STALE_RUN
      else answer h c w r AC_OK)"

text \<open>Whether a new command is in turn (\<open>AC_OK\<close>), or why not.\<close>

definition turn_result :: "control \<Rightarrow> request \<Rightarrow> u8" where
  "turn_result c r =
     (if rq_id r = 0 \<or> rq_seq r \<noteq> ct_next_seq c \<or> rq_seq r = 0 then AC_OUT_OF_ORDER
      else if length (ct_ledger c) \<ge> AC_LEDGER then AC_LIMIT
      else if (rq_op r \<noteq> AC_START \<or> rq_arg r \<noteq> 0) \<and> rq_run r \<noteq> ct_run c then AC_STALE_RUN
      else if rq_op r = AC_START \<and> rq_arg r = 0 \<and> rq_run r \<noteq> 0 then AC_STALE_RUN
      else AC_OK)"

text \<open>The lease and the budget of a command that is in turn.\<close>

definition cleanup_op :: "request \<Rightarrow> bool" where
  "cleanup_op r \<longleftrightarrow> rq_op r = AC_STOP \<or> rq_op r = AC_CLOSE"

definition charge :: "control \<Rightarrow> request \<Rightarrow> u8 \<times> control" where
  "charge c r =
     (if cleanup_op r then (AC_OK, c)
      else if ct_now c \<ge> ct_deadline c then (AC_EXPIRED, c)
      else if ct_user_count c \<ge> 60 then (AC_LIMIT, c)
      else
        (let c = (if ct_now c - ct_rate_start c \<ge> 1000
                  then c\<lparr>ct_rate_start := ct_now c, ct_rate_count := 0\<rparr> else c)
         in if ct_rate_count c \<ge> 10 then (AC_LIMIT, c)
            else (AC_OK, c\<lparr>ct_rate_count := ct_rate_count c + 1, ct_user_count := ct_user_count c + 1\<rparr>)))"

definition do_start :: "'w app_control_hooks \<Rightarrow> control \<Rightarrow> 'w \<Rightarrow> request \<Rightarrow> u8 \<times> control \<times> 'w" where
  "do_start h c w r =
     (let arg = rq_arg r
      in if arg > 1 then (AC_INVALID, c, w)
         else case descriptor_for h w (c_string (rq_data r) 24) of
           None \<Rightarrow> (AC_UNKNOWN_APP, c, w)
         | Some d \<Rightarrow>
             if d_flags d AND 1 = 0 then (AC_UNSUPPORTED, c, w)
             else if arg = 1 \<and> (ct_state c \<noteq> AC_SUSPENDED \<or> ct_app c \<noteq> d_id d) then (AC_STALE_RUN, c, w)
             else if ct_state c = AC_RUNNING then (AC_BUSY, c, w)
             else if arg = 0 \<and> ct_run_counter c = U32_MAX then (AC_LIMIT, c, w)
             else
               (let (result, w) = h_start h (d_id d) (arg = 1) w
                in if result = AC_OK then
                     (let c = (if arg = 0 then
                                 (let n = ct_run_counter c + 1; n = (if n = 0 then n + 1 else n)
                                  in c\<lparr>ct_run_counter := n, ct_run := n\<rparr>)
                               else c)
                      in (result, c\<lparr>ct_app := take 31 (d_id d), ct_state := AC_RUNNING,
                                    ct_instance := h_instance h w\<rparr>, w))
                   else (result, c, w)))"

definition set_receipt :: "control \<Rightarrow> nat \<Rightarrow> request \<Rightarrow> u8 \<Rightarrow> control" where
  "set_receipt c k r result =
     c\<lparr>ct_ledger := (ct_ledger c)[k := \<lparr>rc_request = r, rc_run = ct_run c, rc_result = result,
                                        rc_state = ct_state c\<rparr>]\<rparr>"

definition do_tap :: "'w app_control_hooks \<Rightarrow> control \<Rightarrow> 'w \<Rightarrow> nat \<Rightarrow> request \<Rightarrow> u8 \<times> control \<times> 'w" where
  "do_tap h c w k r =
     (let arg = rq_arg r
      in if ct_state c \<noteq> AC_RUNNING then (AC_BLOCKED, c, w)
         else if arg < 1 \<or> arg > 6 then (AC_UNSUPPORTED, c, w)
         else
           (let c = set_receipt c k r AC_ACCEPTED;
                w = answer h c w r AC_ACCEPTED;
                (c, w) = clock_tick h c w
            in if ct_now c \<ge> ct_deadline c then
                 (let (c, w) = expire h c w in (AC_EXPIRED, c, w))
               else
                 (let (result, w) = h_tap h arg w
                  in (if result = AC_OK then AC_CONSUMED else result, c, w))))"

definition do_suspend :: "'w app_control_hooks \<Rightarrow> control \<Rightarrow> 'w \<Rightarrow> u8 \<times> control \<times> 'w" where
  "do_suspend h c w =
     (if ct_state c \<noteq> AC_RUNNING then (AC_BLOCKED, c, w)
      else
        (let (result, w) = h_suspend h w
         in (result,
             if result = 0 then c\<lparr>ct_state := AC_SUSPENDED\<rparr>
             else if result = AC_TEARDOWN_FAILED then c\<lparr>ct_state := AC_NEEDS_REVIEW\<rparr> else c, w)))"

definition do_stop :: "'w app_control_hooks \<Rightarrow> control \<Rightarrow> 'w \<Rightarrow> u8 \<times> control \<times> 'w" where
  "do_stop h c w =
     (let (ok, w) = h_stop h w
      in if \<not> ok then (AC_TEARDOWN_FAILED, c\<lparr>ct_state := AC_NEEDS_REVIEW\<rparr>, w)
         else (AC_OK, c\<lparr>ct_state := AC_STOPPED\<rparr>, w))"

definition do_close :: "control \<Rightarrow> u8 \<times> control" where
  "do_close c = (if ct_state c \<noteq> AC_STOPPED then (AC_BUSY, c) else (AC_OK, c\<lparr>ct_state := AC_NO_SESSION\<rparr>))"

definition do_command :: "'w app_control_hooks \<Rightarrow> control \<Rightarrow> 'w \<Rightarrow> nat \<Rightarrow> request \<Rightarrow> u8 \<times> control \<times> 'w" where
  "do_command h c w k r =
     (if rq_op r = AC_START then do_start h c w r
      else if rq_op r = AC_TAP then do_tap h c w k r
      else if rq_op r = AC_SUSPEND then do_suspend h c w
      else if rq_op r = AC_STOP then do_stop h c w
      else if rq_op r = AC_CLOSE then (let (result, c) = do_close c in (result, c, w))
      else (AC_INVALID, c, w))"

text \<open>A command in turn takes the next place of the ledger whatever becomes of it.  The C entry holds
stale bytes in its result, state and run until they are set below; nothing reads them in between.\<close>

definition admit :: "control \<Rightarrow> request \<Rightarrow> control" where
  "admit c r = c\<lparr>ct_ledger := ct_ledger c @ [\<lparr>rc_request = r, rc_run = 0, rc_result = 0, rc_state = 0\<rparr>],
     ct_next_seq := ct_next_seq c + 1\<rparr>"

definition handle_command :: "'w app_control_hooks \<Rightarrow> control \<Rightarrow> 'w \<Rightarrow> request \<Rightarrow> control \<times> 'w" where
  "handle_command h c w r =
     (let k = length (ct_ledger c);
          (result, c) = charge (admit c r) r;
          (result, c, w) = (if result = AC_OK then do_command h c w k r else (result, c, w));
          c = set_receipt c k r result;
          w = answer h c w r result
      in if rq_op r = AC_CLOSE \<and> result = AC_OK
         then (c\<lparr>ct_closed := True, ct_offer := ct_offer c + 1\<rparr>, w) else (c, w))"

definition handle :: "'w app_control_hooks \<Rightarrow> control \<Rightarrow> 'w \<Rightarrow> request \<Rightarrow> control \<times> 'w" where
  "handle h c w r =
     (if malformed r then (c, answer h c w r AC_INVALID)
      else if rq_op r = AC_CATALOG then (c, handle_catalog h c w r)
      else if rq_boot r \<noteq> ct_boot c then (c, answer h c w r AC_STALE_BOOT)
      else if rq_op r = AC_OPEN then handle_open h c w r
      else if ct_session c = 0 \<or> rq_session r \<noteq> ct_session c then (c, answer h c w r AC_STALE_SESSION)
      else if rq_fence r \<noteq> ct_fence c then (c, answer h c w r AC_STALE_LEASE)
      else if rq_op r = AC_STATUS then (c, handle_status h c w r)
      else case find_receipt c (rq_id r) of
        Some e \<Rightarrow>
          if same_request r (rc_request e)
          then (c, reply h c w r (rc_result e) (rc_state e) (rc_run e) None 0)
          else (c, answer h c w r AC_CONFLICT)
      | None \<Rightarrow>
          if ct_closed c then (c, answer h c w r AC_STALE_SESSION)
          else if turn_result c r \<noteq> AC_OK then (c, answer h c w r (turn_result c r))
          else handle_command h c w r)"

section \<open>The owner's turn\<close>

text \<open>The producer may run at any point of a turn, so the turn is cut where it takes from the queue:
its start with the snapshot of the head, one request, the mailbox.  Handling a request does not touch
the queue, so nothing is lost by taking one request as one step.\<close>

definition pump_begin :: "'w app_control_hooks \<Rightarrow> u64 \<Rightarrow> 'w app_control \<Rightarrow> 'w app_control" where
  "pump_begin h now_ms s =
     (let (c, w) = expire h ((ac_control s)\<lparr>ct_now := now_ms\<rparr>) (ac_world s)
      in s\<lparr>ac_control := c, ac_world := w, ac_limit := ac_head s\<rparr>)"

definition serve :: "'w app_control_hooks \<Rightarrow> control \<times> 'w \<Rightarrow> request \<Rightarrow> control \<times> 'w" where
  "serve h cw r =
     (let (c, w) = handle h (fst cw) (snd cw) r;
          (c, w) = clock_tick h c w
      in expire h c w)"

definition wake :: "'w app_control_hooks \<Rightarrow> control \<Rightarrow> 'w \<Rightarrow> control \<times> 'w" where
  "wake h c w = (let (c, w) = clock_tick h c w in expire h c w)"

definition pump_one :: "'w app_control_hooks \<Rightarrow> 'w app_control \<Rightarrow> 'w app_control" where
  "pump_one h s =
     (if ac_tail s = ac_limit s then s
      else
        (let cw = wake h (ac_control s) (ac_world s);
             r = ac_inbox s ! (unat (ac_tail s) mod AC_INBOX);
             (c, w) = serve h cw r
         in s\<lparr>ac_tail := ac_tail s + 1, ac_control := c, ac_world := w\<rparr>))"

definition overflow_receipt :: "control \<Rightarrow> request \<Rightarrow> control" where
  "overflow_receipt c r =
     (if rq_op r \<ge> AC_START \<and> rq_op r \<noteq> AC_STATUS \<and> rq_op r \<le> AC_CLOSE \<and> rq_id r \<noteq> 0 \<and>
         rq_boot r = ct_boot c \<and> rq_session r = ct_session c \<and> rq_fence r = ct_fence c \<and>
         rq_seq r = ct_next_seq c \<and> length (ct_ledger c) < AC_LEDGER \<and> \<not> ct_closed c
      then c\<lparr>ct_ledger := ct_ledger c @ [\<lparr>rc_request = r, rc_run = ct_run c, rc_result = AC_QUEUE_FULL,
               rc_state = ct_state c\<rparr>], ct_next_seq := ct_next_seq c + 1\<rparr>
      else c)"

definition handle_overflow :: "'w app_control_hooks \<Rightarrow> control \<Rightarrow> 'w \<Rightarrow> request \<Rightarrow> control \<times> 'w" where
  "handle_overflow h c w r =
     (case find_receipt c (rq_id r) of
        Some e \<Rightarrow>
          if rq_session r = ct_session c then
            (if same_request r (rc_request e)
             then (c, reply h c w r (rc_result e) (rc_state e) (rc_run e) None 0)
             else (c, answer h c w r AC_CONFLICT))
          else (let c = overflow_receipt c r in (c, answer h c w r AC_QUEUE_FULL))
      | None \<Rightarrow> (let c = overflow_receipt c r in (c, answer h c w r AC_QUEUE_FULL)))"

definition pump_overflow :: "'w app_control_hooks \<Rightarrow> 'w app_control \<Rightarrow> 'w app_control" where
  "pump_overflow h s =
     (if ac_overflow_ready s then
        (let (c, w) = handle_overflow h (ac_control s) (ac_world s) (ac_overflow s)
         in s\<lparr>ac_overflow_ready := False, ac_control := c, ac_world := w\<rparr>)
      else s)"


definition app_control_observe :: "bool \<Rightarrow> bytes option \<Rightarrow> bytes option \<Rightarrow> u32 \<Rightarrow> control \<Rightarrow> control" where
  "app_control_observe running dormant_id current_id inst c =
     (if ct_session c = 0 \<or> ct_closed c \<or> ct_run c = 0 \<or>
         (ct_state c \<noteq> AC_RUNNING \<and> ct_state c \<noteq> AC_SUSPENDED) then c
      else if inst \<noteq> ct_instance c then c\<lparr>ct_state := AC_STOPPED\<rparr>
      else if running \<and> current_id = Some (ct_app c) then c\<lparr>ct_state := AC_RUNNING\<rparr>
      else if dormant_id = Some (ct_app c) then c\<lparr>ct_state := AC_SUSPENDED\<rparr>
      else c\<lparr>ct_state := AC_STOPPED\<rparr>)"

datatype ac_event =
    AcReceive bytes
  | AcBegin u64
  | AcOne
  | AcOverflow
  | AcObserve bool "bytes option" "bytes option" u32

fun ac_step :: "'w app_control_hooks \<Rightarrow> 'w app_control \<Rightarrow> ac_event \<Rightarrow> 'w app_control" where
  "ac_step h s (AcReceive b) = app_control_receive b s"
| "ac_step h s (AcBegin t) = pump_begin h t s"
| "ac_step h s AcOne = pump_one h s"
| "ac_step h s AcOverflow = pump_overflow h s"
| "ac_step h s (AcObserve a b c i) =
     s\<lparr>ac_control := app_control_observe a b c i (ac_control s)\<rparr>"

section \<open>The invariant\<close>

abbreviation ct_requests :: "control \<Rightarrow> request list" where
  "ct_requests c \<equiv> map rc_request (ct_ledger c)"

text \<open>The ledger holds the commands of the current session, in the order of their numbers from 1.
(Before the first session only the mailbox can leave refusals there; they count from 0.)\<close>

definition first_seq :: "control \<Rightarrow> u32" where
  "first_seq c = (if ct_session c = 0 then 0 else 1)"

definition ledger_ok :: "control \<Rightarrow> bool" where
  "ledger_ok c \<longleftrightarrow> length (ct_ledger c) \<le> AC_LEDGER \<and> distinct (map rq_id (ct_requests c)) \<and>
     (\<forall>i < length (ct_requests c). rq_seq (ct_requests c ! i) = first_seq c + of_nat i) \<and>
     (\<forall>r \<in> set (ct_requests c). rq_id r \<noteq> 0 \<and> rq_session r = ct_session c \<and> rq_fence r = ct_fence c \<and>
        rq_boot r = ct_boot c \<and> AC_START \<le> rq_op r \<and> rq_op r \<le> AC_CLOSE \<and> rq_op r \<noteq> AC_STATUS) \<and>
     ct_next_seq c = first_seq c + of_nat (length (ct_ledger c))"

definition budget_ok :: "control \<Rightarrow> bool" where
  "budget_ok c \<longleftrightarrow> ct_user_count c \<le> 60 \<and> unat (ct_user_count c) \<le> length (ct_ledger c) \<and>
     ct_rate_count c \<le> 10 \<and> ct_rate_count c \<le> ct_user_count c"

text \<open>Where the guest stands: only a session has one, only a numbered run is running or asleep, and
a closed session has none.\<close>

definition phase_ok :: "control \<Rightarrow> bool" where
  "phase_ok c \<longleftrightarrow> ct_boot c \<noteq> 0 \<and> ct_state c \<le> AC_NEEDS_REVIEW \<and> ct_run c \<le> ct_run_counter c \<and>
     (ct_session c = 0 \<longrightarrow> ct_state c = AC_NO_SESSION \<and> \<not> ct_closed c \<and> ct_run c = 0) \<and>
     (ct_session c \<noteq> 0 \<and> \<not> ct_closed c \<longrightarrow> ct_offer c = ct_session c) \<and>
     (ct_closed c \<longrightarrow> ct_offer c = ct_session c + 1 \<and> (ct_state c = AC_STOPPED \<or> ct_state c = AC_NO_SESSION)) \<and>
     (ct_state c = AC_RUNNING \<or> ct_state c = AC_SUSPENDED \<longrightarrow> ct_run c \<noteq> 0)"

definition idle_ok :: "control \<Rightarrow> bool" where
  "idle_ok c \<longleftrightarrow> (ct_session c \<noteq> 0 \<and> \<not> ct_closed c \<longrightarrow> ct_state c \<noteq> AC_NO_SESSION)"

definition control_ok :: "control \<Rightarrow> bool" where
  "control_ok c \<longleftrightarrow> ledger_ok c \<and> budget_ok c \<and> phase_ok c \<and> idle_ok c"

text \<open>What the parts of the invariant depend on.\<close>

definition ledger_view :: "control \<Rightarrow> u64 \<times> u32 \<times> u32 \<times> u32 \<times> request list" where
  "ledger_view c = (ct_boot c, ct_session c, ct_fence c, ct_next_seq c, ct_requests c)"

definition budget_view :: "control \<Rightarrow> u8 \<times> u8 \<times> nat" where
  "budget_view c = (ct_user_count c, ct_rate_count c, length (ct_ledger c))"

definition phase_view :: "control \<Rightarrow> u64 \<times> u8 \<times> u32 \<times> u32 \<times> u32 \<times> bool \<times> u32" where
  "phase_view c = (ct_boot c, ct_state c, ct_run c, ct_run_counter c, ct_session c, ct_closed c, ct_offer c)"

lemma requests_length: "ct_requests c' = ct_requests c \<Longrightarrow> length (ct_ledger c') = length (ct_ledger c)"
  by (rule map_eq_imp_length_eq)

lemma ledger_ok_cong:
  assumes "ledger_view c' = ledger_view c" shows "ledger_ok c' = ledger_ok c"
proof -
  have v: "ct_boot c' = ct_boot c" "ct_session c' = ct_session c" "ct_fence c' = ct_fence c"
    "ct_next_seq c' = ct_next_seq c" "ct_requests c' = ct_requests c"
    using assms by (auto simp: ledger_view_def)
  have l: "length (ct_ledger c') = length (ct_ledger c)" using v(5) by (rule requests_length)
  show ?thesis unfolding ledger_ok_def first_seq_def l v by simp
qed

lemma budget_ok_cong: "budget_view c' = budget_view c \<Longrightarrow> budget_ok c' = budget_ok c"
  by (simp add: budget_view_def budget_ok_def)

lemma phase_ok_cong: "phase_view c' = phase_view c \<Longrightarrow> phase_ok c' = phase_ok c \<and> idle_ok c' = idle_ok c"
  by (simp add: phase_view_def phase_ok_def idle_ok_def)

lemmas view_defs = ledger_view_def budget_view_def phase_view_def

lemma requests_update:
  "k < length L \<Longrightarrow> rc_request (L ! k) = rc_request e \<Longrightarrow> map rc_request (L[k := e]) = map rc_request L"
  by (metis length_map list_update_id map_update nth_map)

lemma set_receipt_view:
  assumes "k < length (ct_ledger c)" "rc_request (ct_ledger c ! k) = r"
  shows "ledger_view (set_receipt c k r x) = ledger_view c" "budget_view (set_receipt c k r x) = budget_view c"
    "phase_view (set_receipt c k r x) = phase_view c"
  using assms by (simp_all add: view_defs set_receipt_def requests_update)

text \<open>What no part of a command changes once it is admitted and charged.\<close>

definition command_frame :: "control \<Rightarrow> control \<Rightarrow> bool" where
  "command_frame c c' \<longleftrightarrow> ledger_view c' = ledger_view c \<and> budget_view c' = budget_view c \<and>
     ct_deadline c' = ct_deadline c \<and> ct_ttl c' = ct_ttl c"

lemma command_frame_refl [simp]: "command_frame c c"
  by (simp add: command_frame_def)

lemma command_frame_trans [trans]: "command_frame a b \<Longrightarrow> command_frame b c \<Longrightarrow> command_frame a c"
  by (simp add: command_frame_def)

lemma expire_frame: "expire h c w = (c', w') \<Longrightarrow> command_frame c c'"
  by (auto simp: expire_def command_frame_def view_defs Let_def split: if_splits prod.splits)

lemma clock_tick_frame:
  "clock_tick h c w = (c', w') \<Longrightarrow> command_frame c c' \<and> phase_view c' = phase_view c"
  by (auto simp: clock_tick_def command_frame_def view_defs Let_def split: option.splits prod.splits)

lemma set_receipt_frame:
  "k < length (ct_ledger c) \<Longrightarrow> rc_request (ct_ledger c ! k) = r \<Longrightarrow> command_frame c (set_receipt c k r x)"
  by (simp add: command_frame_def set_receipt_view) (simp add: set_receipt_def)

lemma control_ok_frame:
  "command_frame c c' \<Longrightarrow> control_ok c \<Longrightarrow> phase_ok c' \<and> idle_ok c' \<Longrightarrow> control_ok c'"
  unfolding command_frame_def control_ok_def using ledger_ok_cong budget_ok_cong by blast

definition session_open :: "control \<Rightarrow> bool" where
  "session_open c \<longleftrightarrow> ct_session c \<noteq> 0 \<and> \<not> ct_closed c"

lemma expire_cases:
  assumes "expire h c w = (c', w')"
  obtains (same) "c' = c" "w' = w" "\<not> (session_open c \<and> ct_deadline c \<le> ct_now c)"
  | (stopped) "session_open c" "ct_deadline c \<le> ct_now c"
      "c' = c\<lparr>ct_state := AC_STOPPED, ct_closed := True, ct_offer := ct_offer c + 1\<rparr>"
      "if ct_state c = AC_STOPPED then w' = w else h_stop h w = (True, w')"
  | (review) "session_open c" "ct_deadline c \<le> ct_now c" "c' = c\<lparr>ct_state := AC_NEEDS_REVIEW\<rparr>"
      "ct_state c \<noteq> AC_STOPPED" "h_stop h w = (False, w')"
proof (cases "session_open c \<and> ct_deadline c \<le> ct_now c")
  case False
  with assms show thesis using same by (simp add: expire_def session_open_def split: if_splits)
next
  case True
  show thesis
  proof (cases "ct_state c = AC_STOPPED")
    case s: True
    with True assms show thesis using stopped by (simp add: expire_def session_open_def)
  next
    case s: False
    obtain ok w1 where st: "h_stop h w = (ok, w1)" by (cases "h_stop h w")
    with True assms s show thesis using stopped review by (cases ok) (auto simp: expire_def session_open_def)
  qed
qed

lemma expire_phase:
  assumes "phase_ok c" "idle_ok c" "expire h c w = (c', w')" shows "phase_ok c' \<and> idle_ok c'"
  using assms(3)
proof (cases rule: expire_cases)
  case same
  with assms show ?thesis by simp
next
  case stopped
  with assms(1) show ?thesis by (simp add: phase_ok_def idle_ok_def session_open_def)
next
  case review
  with assms(1) show ?thesis by (simp add: phase_ok_def idle_ok_def session_open_def)
qed

lemma expire_ok: "control_ok c \<Longrightarrow> expire h c w = (c', w') \<Longrightarrow> control_ok c'"
  using control_ok_frame[OF expire_frame] expire_phase control_ok_def by metis

lemma clock_tick_ok: "control_ok c \<Longrightarrow> clock_tick h c w = (c', w') \<Longrightarrow> control_ok c'"
  using control_ok_frame clock_tick_frame phase_ok_cong control_ok_def by metis

definition started :: "control \<Rightarrow> u8 \<Rightarrow> bytes \<Rightarrow> u32 \<Rightarrow> control" where
  "started c arg name inst =
     (let c = (if arg = 0 then (let n = ct_run_counter c + 1; n = (if n = 0 then n + 1 else n)
                                in c\<lparr>ct_run_counter := n, ct_run := n\<rparr>) else c)
      in c\<lparr>ct_app := take 31 name, ct_state := AC_RUNNING, ct_instance := inst\<rparr>)"

lemma do_start_cases:
  assumes "do_start h c w r = (x, c', w')"
  obtains (refused) "c' = c" "w' = w" "x \<noteq> AC_OK"
  | (called) d where "descriptor_for h w (c_string (rq_data r) 24) = Some d" "\<not> rq_arg r > 1"
      "d_flags d AND 1 \<noteq> 0" "rq_arg r = 1 \<longrightarrow> ct_state c = AC_SUSPENDED \<and> ct_app c = d_id d"
      "rq_arg r = 0 \<longrightarrow> ct_run_counter c \<noteq> U32_MAX" "h_start h (d_id d) (rq_arg r = 1) w = (x, w')"
      "c' = (if x = AC_OK then started c (rq_arg r) (d_id d) (h_instance h w') else c)"
proof (cases "descriptor_for h w (c_string (rq_data r) 24)")
  case None
  with assms refused show thesis unfolding do_start_def Let_def by (simp split: if_splits)
next
  case (Some d)
  show thesis
  proof (cases "rq_arg r > 1 \<or> d_flags d AND 1 = 0 \<or> (rq_arg r = 1 \<and> (ct_state c \<noteq> AC_SUSPENDED \<or> ct_app c \<noteq> d_id d))
      \<or> ct_state c = AC_RUNNING \<or> (rq_arg r = 0 \<and> ct_run_counter c = U32_MAX)")
    case True
    with assms Some refused show thesis unfolding do_start_def Let_def by (simp split: if_splits)
  next
    case False
    obtain y v where h: "h_start h (d_id d) (rq_arg r = 1) w = (y, v)" by fastforce
    from False Some have "do_start h c w r =
        (if y = AC_OK then (y, started c (rq_arg r) (d_id d) (h_instance h v), v) else (y, c, v))"
      unfolding do_start_def started_def by (auto simp add: Let_def h)
    with assms have "x = y" "w' = v" "c' = (if x = AC_OK then started c (rq_arg r) (d_id d) (h_instance h w') else c)"
      by (auto split: if_splits)
    with False Some h called[of d] show thesis by auto
  qed
qed

lemma do_start_ok:
  assumes "phase_ok c" "session_open c" "idle_ok c" "do_start h c w r = (x, c', w')"
  shows "command_frame c c' \<and> phase_ok c' \<and> idle_ok c'"
  using assms(4)
proof (cases rule: do_start_cases)
  case refused
  with assms show ?thesis by simp
next
  case (called d)
  have arg: "rq_arg r = 0 \<or> rq_arg r = 1"
    using called(2) by (auto simp: word_less_nat_alt word_unat_eq_iff)
  show ?thesis
  proof (cases "x = AC_OK")
    case False
    with called assms show ?thesis by simp
  next
    case x: True
    show ?thesis
    proof (cases "rq_arg r = 0")
      case True
      then have n: "ct_run_counter c + 1 \<noteq> 0" using called(5) word_inc_nonzero by blast
      with True called(7) x have "c' = c\<lparr>ct_run_counter := ct_run_counter c + 1, ct_run := ct_run_counter c + 1,
          ct_app := take 31 (d_id d), ct_state := AC_RUNNING, ct_instance := h_instance h w'\<rparr>"
        by (simp add: started_def Let_def)
      with n assms(1-3) show ?thesis
        by (simp add: command_frame_def view_defs phase_ok_def idle_ok_def session_open_def)
    next
      case False
      with called(7) x
      have "c' = c\<lparr>ct_app := take 31 (d_id d), ct_state := AC_RUNNING, ct_instance := h_instance h w'\<rparr>"
        by (simp add: started_def Let_def)
      moreover have "ct_run c \<noteq> 0" using False arg called(4) assms(1) by (simp add: phase_ok_def)
      ultimately show ?thesis using assms(1-3)
        by (simp add: command_frame_def view_defs phase_ok_def idle_ok_def session_open_def)
    qed
  qed
qed

lemma do_tap_ok:
  assumes "phase_ok c" "idle_ok c" "k < length (ct_ledger c)" "rc_request (ct_ledger c ! k) = r"
    "do_tap h c w k r = (x, c', w')"
  shows "command_frame c c' \<and> phase_ok c' \<and> idle_ok c'"
proof (cases "c' = c")
  case True
  with assms show ?thesis by simp
next
  case False
  define c1 where "c1 = set_receipt c k r AC_ACCEPTED"
  obtain c2 w2 where t: "clock_tick h c1 (answer h c1 w r AC_ACCEPTED) = (c2, w2)" by fastforce
  obtain c3 w3 where e: "expire h c2 w2 = (c3, w3)" by fastforce
  have c': "c' = c2 \<or> c' = c3"
    using assms(5) False t e by (auto simp: do_tap_def c1_def Let_def split: if_splits prod.splits)
  have f1: "command_frame c c1" "phase_ok c1 \<and> idle_ok c1"
    using assms set_receipt_frame phase_ok_cong set_receipt_view(3) unfolding c1_def by blast+
  then have f2: "command_frame c c2" "phase_ok c2 \<and> idle_ok c2"
    using clock_tick_frame[OF t] phase_ok_cong command_frame_trans by blast+
  then have "command_frame c c3" "phase_ok c3 \<and> idle_ok c3"
    using expire_frame[OF e] expire_phase[OF _ _ e] command_frame_trans by blast+
  with c' f2 show ?thesis by blast
qed

lemma do_suspend_ok:
  "phase_ok c \<Longrightarrow> idle_ok c \<Longrightarrow> session_open c \<Longrightarrow> do_suspend h c w = (x, c', w')
   \<Longrightarrow> command_frame c c' \<and> phase_ok c' \<and> idle_ok c'"
  by (auto simp: do_suspend_def command_frame_def view_defs phase_ok_def idle_ok_def session_open_def Let_def
      split: if_splits prod.splits)

lemma do_stop_ok:
  "phase_ok c \<Longrightarrow> idle_ok c \<Longrightarrow> session_open c \<Longrightarrow> do_stop h c w = (x, c', w')
   \<Longrightarrow> command_frame c c' \<and> phase_ok c' \<and> idle_ok c'"
  by (cases "h_stop h w")
    (auto simp: do_stop_def command_frame_def view_defs phase_ok_def idle_ok_def session_open_def split: if_splits)

lemma do_close_ok:
  "phase_ok c \<Longrightarrow> idle_ok c \<Longrightarrow> session_open c \<Longrightarrow> do_close c = (x, c')
   \<Longrightarrow> command_frame c c' \<and> phase_ok c' \<and> (idle_ok c' \<or> x = AC_OK \<and> ct_state c' = AC_NO_SESSION)"
  by (auto simp: do_close_def command_frame_def view_defs phase_ok_def idle_ok_def session_open_def split: if_splits)

lemma do_command_ok:
  assumes "phase_ok c" "idle_ok c" "session_open c" "k < length (ct_ledger c)" "rc_request (ct_ledger c ! k) = r"
    "do_command h c w k r = (x, c', w')"
  shows "command_frame c c' \<and> phase_ok c' \<and> (idle_ok c' \<or> rq_op r = AC_CLOSE \<and> x = AC_OK \<and> ct_state c' = AC_NO_SESSION)"
  using assms do_start_ok[of c h w r x c' w'] do_tap_ok[of c k r h w x c' w'] do_suspend_ok[of c h w x c' w']
    do_stop_ok[of c h w x c' w'] do_close_ok[of c x c']
  by (auto simp: do_command_def split: if_splits prod.splits)

lemma append_ok:
  assumes ok: "ledger_ok c" and new: "find_receipt c (rq_id r) = None"
    and t: "rq_id r \<noteq> 0" "rq_seq r = ct_next_seq c" "length (ct_ledger c) < AC_LEDGER"
    and who: "rq_session r = ct_session c" "rq_fence r = ct_fence c" "rq_boot r = ct_boot c"
    and op: "AC_START \<le> rq_op r" "rq_op r \<le> AC_CLOSE" "rq_op r \<noteq> AC_STATUS"
    and L: "ct_ledger c' = ct_ledger c @ [e]" "rc_request e = r" "ct_next_seq c' = ct_next_seq c + 1"
    and f: "ct_session c' = ct_session c" "ct_fence c' = ct_fence c" "ct_boot c' = ct_boot c"
  shows "ledger_ok c'"
proof -
  have "rq_id r \<notin> set (map rq_id (ct_requests c))"
    using new by (auto simp: find_receipt_def find_None_iff)
  moreover have "rq_seq (ct_requests c' ! i) = first_seq c' + of_nat i" if "i < length (ct_requests c')" for i
    using that ok t(2) L f by (cases "i < length (ct_ledger c)") (auto simp: ledger_ok_def first_seq_def nth_append less_Suc_eq)
  moreover have "ct_next_seq c' = first_seq c' + of_nat (length (ct_ledger c'))"
    using ok L f by (auto simp: ledger_ok_def first_seq_def)
  ultimately show ?thesis using ok t who op L(1,2) unfolding ledger_ok_def
    by (simp add: f)
qed

lemma turn_resultD:
  "turn_result c r = AC_OK \<Longrightarrow> rq_id r \<noteq> 0 \<and> rq_seq r = ct_next_seq c \<and> length (ct_ledger c) < AC_LEDGER"
  by (simp add: turn_result_def split: if_splits)

lemma u8_inc: "(x :: u8) \<le> b \<Longrightarrow> b < 255 \<Longrightarrow> unat (x + 1) = Suc (unat x)"
proof -
  assume "x \<le> b" "b < 255"
  then have "x < 255" by (rule le_less_trans)
  then have "x \<noteq> - 1" by auto
  then show ?thesis by (rule unat_inc)
qed

lemma charge_view:
  "charge c r = (x, c1) \<Longrightarrow> ledger_view c1 = ledger_view c \<and> phase_view c1 = phase_view c \<and>
     ct_ledger c1 = ct_ledger c \<and> ct_deadline c1 = ct_deadline c \<and> ct_ttl c1 = ct_ttl c \<and> ct_now c1 = ct_now c"
  by (auto simp: charge_def view_defs Let_def split: if_splits)

lemma charge_budget:
  assumes ok: "budget_ok c" and ch: "charge (admit c r) r = (x, c1)"
  shows "budget_ok c1"
proof -
  define n where "n = length (ct_ledger c)"
  have L: "length (ct_ledger c1) = Suc n" using charge_view[OF ch] by (simp add: admit_def n_def)
  have b: "unat (ct_user_count c) \<le> 60" "unat (ct_user_count c) \<le> n" "unat (ct_rate_count c) \<le> 10"
    "unat (ct_rate_count c) \<le> unat (ct_user_count c)"
    using ok by (simp_all add: budget_ok_def n_def word_le_nat_alt)
  consider (same) "ct_user_count c1 = ct_user_count c" "ct_rate_count c1 = ct_rate_count c \<or> ct_rate_count c1 = 0"
    | (spent) v where "v = ct_rate_count c \<or> v = 0" "v < 10" "ct_user_count c < 60"
        "ct_user_count c1 = ct_user_count c + 1" "ct_rate_count c1 = v + 1"
    using ch by (auto simp: charge_def admit_def Let_def not_le split: if_splits)
  then show ?thesis
  proof cases
    case same
    with b L show ?thesis by (auto simp: budget_ok_def word_le_nat_alt)
  next
    case spent
    then have "unat (ct_user_count c1) = Suc (unat (ct_user_count c))" "unat (ct_rate_count c1) = Suc (unat v)"
      using u8_inc[of "ct_user_count c" 60] u8_inc[of v 10] by simp_all
    moreover have "unat v < 10" "unat (ct_user_count c) < 60" using spent(2,3) by (simp_all add: word_less_nat_alt)
    moreover have "unat v \<le> unat (ct_user_count c)" using spent(1) b(4) by auto
    ultimately show ?thesis using b L by (simp add: budget_ok_def word_le_nat_alt)
  qed
qed

text \<open>The command requests that get past every refusal.\<close>

definition admissible :: "control \<Rightarrow> request \<Rightarrow> bool" where
  "admissible c r \<longleftrightarrow>
     \<not> malformed r \<and> rq_op r \<in> {AC_START, AC_TAP, AC_SUSPEND, AC_STOP, AC_CLOSE} \<and>
     rq_boot r = ct_boot c \<and> session_open c \<and> rq_session r = ct_session c \<and> rq_fence r = ct_fence c \<and>
     find_receipt c (rq_id r) = None \<and> turn_result c r = AC_OK"

lemma u8_range_ops:
  "\<not> (x :: u8) < 1 \<Longrightarrow> \<not> x > 8 \<Longrightarrow> x = 1 \<or> x = 2 \<or> x = 3 \<or> x = 4 \<or> x = 5 \<or> x = 6 \<or> x = 7 \<or> x = 8"
proof -
  assume "\<not> x < 1" "\<not> x > 8"
  then have "1 \<le> unat x" "unat x \<le> 8" by (simp_all add: word_less_nat_alt not_less)
  then have "unat x = 1 \<or> unat x = 2 \<or> unat x = 3 \<or> unat x = 4 \<or> unat x = 5 \<or> unat x = 6 \<or> unat x = 7 \<or> unat x = 8"
    by arith
  then show ?thesis by (auto simp: word_unat_eq_iff)
qed

lemma malformed_op: "\<not> malformed r \<Longrightarrow> rq_op r \<in> {1, 2, 3, 4, 5, 6, 7, 8}"
  using u8_range_ops[of "rq_op r"] by (auto simp: malformed_def)

text \<open>A request is opened, admitted, or only answered: one reply goes out and nothing else happens.\<close>

definition only_answered :: "'w app_control_hooks \<Rightarrow> control \<Rightarrow> 'w \<Rightarrow> 'w \<Rightarrow> bool" where
  "only_answered h c w v \<longleftrightarrow> (\<exists>q x st run d i. v = reply h c w q x st run d i)"

lemma only_answered_reply [simp]: "only_answered h c w (reply h c w q x st run d i)"
  unfolding only_answered_def by blast

lemma only_answered_parts [simp]:
  "only_answered h c w (handle_catalog h c w r)" "only_answered h c w (handle_status h c w r)"
  by (simp_all add: handle_catalog_def handle_status_def Let_def split: option.split)

lemma handle_cases:
  obtains (opened) "\<not> malformed r" "rq_op r = AC_OPEN" "rq_boot r = ct_boot c" "handle h c w r = handle_open h c w r"
  | (command) "admissible c r" "handle h c w r = handle_command h c w r"
  | (answered) v where "\<not> admissible c r" "handle h c w r = (c, v)" "only_answered h c w v"
proof -
  show thesis
  proof (cases "malformed r \<or> rq_op r = AC_CATALOG \<or> rq_boot r \<noteq> ct_boot c")
    case True
    then have "\<not> admissible c r" by (auto simp: admissible_def)
    with True show thesis by (intro answered[of "snd (handle h c w r)"]) (auto simp: handle_def)
  next
    case f1: False
    show thesis
    proof (cases "rq_op r = AC_OPEN")
      case True
      with f1 opened show thesis by (simp add: handle_def)
    next
      case f2: False
      show thesis
      proof (cases "ct_session c = 0 \<or> rq_session r \<noteq> ct_session c \<or> rq_fence r \<noteq> ct_fence c \<or> rq_op r = AC_STATUS")
        case True
        then have "\<not> admissible c r" by (auto simp: admissible_def session_open_def)
        with True f1 f2 show thesis by (intro answered[of "snd (handle h c w r)"]) (auto simp: handle_def)
      next
        case f3: False
        show thesis
        proof (cases "find_receipt c (rq_id r)")
          case (Some e)
          then have "\<not> admissible c r" by (auto simp: admissible_def)
          with Some f1 f2 f3 show thesis
            by (intro answered[of "snd (handle h c w r)"]) (auto simp: handle_def)
        next
          case None
          show thesis
          proof (cases "ct_closed c \<or> turn_result c r \<noteq> AC_OK")
            case True
            then have "\<not> admissible c r" by (auto simp: admissible_def session_open_def)
            with True None f1 f2 f3 show thesis
              by (intro answered[of "snd (handle h c w r)"]) (auto simp: handle_def)
          next
            case f4: False
            then have "admissible c r" using None f1 f2 f3 malformed_op[of r]
              by (auto simp: admissible_def session_open_def)
            with f4 None f1 f2 f3 command show thesis by (simp add: handle_def)
          qed
        qed
      qed
    qed
  qed
qed

lemma handle_command_split:
  assumes "handle_command h c w r = (c', w')"
  obtains x1 c1 x c2 w2 c3 where "charge (admit c r) r = (x1, c1)"
    "(if x1 = AC_OK then do_command h c1 w (length (ct_ledger c)) r else (x1, c1, w)) = (x, c2, w2)"
    "c3 = set_receipt c2 (length (ct_ledger c)) r x" "w' = answer h c3 w2 r x"
    "c' = (if rq_op r = AC_CLOSE \<and> x = AC_OK then c3\<lparr>ct_closed := True, ct_offer := ct_offer c3 + 1\<rparr> else c3)"
proof -
  obtain x1 c1 where ch: "charge (admit c r) r = (x1, c1)" by fastforce
  obtain x c2 w2 where d: "(if x1 = AC_OK then do_command h c1 w (length (ct_ledger c)) r else (x1, c1, w)) = (x, c2, w2)"
    by (metis prod_cases3)
  show thesis
  proof (rule that[OF ch d refl])
    show "w' = answer h (set_receipt c2 (length (ct_ledger c)) r x) w2 r x"
      "c' = (if rq_op r = AC_CLOSE \<and> x = AC_OK
        then (set_receipt c2 (length (ct_ledger c)) r x)\<lparr>ct_closed := True,
               ct_offer := ct_offer (set_receipt c2 (length (ct_ledger c)) r x) + 1\<rparr>
        else set_receipt c2 (length (ct_ledger c)) r x)"
      using assms by (auto simp: handle_command_def ch d Let_def split: if_splits)
  qed
qed

lemma requests_nth:
  "ct_requests a = ct_requests b \<Longrightarrow> k < length (ct_ledger a) \<Longrightarrow> rc_request (ct_ledger a ! k) = rc_request (ct_ledger b ! k)"
  by (metis length_map nth_map)

text \<open>The pieces of an admitted command, with what each keeps.\<close>

lemma handle_command_parts:
  assumes ok: "control_ok c" and adm: "admissible c r" and hc: "handle_command h c w r = (c', w')"
  obtains x1 c1 x c2 w2 c3 where "charge (admit c r) r = (x1, c1)"
    "(if x1 = AC_OK then do_command h c1 w (length (ct_ledger c)) r else (x1, c1, w)) = (x, c2, w2)"
    "c3 = set_receipt c2 (length (ct_ledger c)) r x" "w' = answer h c3 w2 r x"
    "c' = (if rq_op r = AC_CLOSE \<and> x = AC_OK then c3\<lparr>ct_closed := True, ct_offer := ct_offer c3 + 1\<rparr> else c3)"
    "ledger_ok c1" "budget_ok c1" "phase_ok c1" "idle_ok c1" "session_open c1"
    "command_frame c1 c3" "phase_view c3 = phase_view c2" "phase_ok c3"
    "idle_ok c3 \<or> rq_op r = AC_CLOSE \<and> x = AC_OK \<and> ct_state c3 = AC_NO_SESSION"
proof -
  define k where "k = length (ct_ledger c)"
  from hc obtain x1 c1 x c2 w2 c3 where p: "charge (admit c r) r = (x1, c1)"
    "(if x1 = AC_OK then do_command h c1 w k r else (x1, c1, w)) = (x, c2, w2)"
    "c3 = set_receipt c2 k r x" "w' = answer h c3 w2 r x"
    "c' = (if rq_op r = AC_CLOSE \<and> x = AC_OK then c3\<lparr>ct_closed := True, ct_offer := ct_offer c3 + 1\<rparr> else c3)"
    unfolding k_def by (rule handle_command_split)
  note v = charge_view[OF p(1)]
  have so: "session_open c" and find: "find_receipt c (rq_id r) = None" and turn: "turn_result c r = AC_OK"
    and same: "rq_session r = ct_session c" "rq_fence r = ct_fence c" "rq_boot r = ct_boot c"
    and op: "rq_op r \<in> {AC_START, AC_TAP, AC_SUSPEND, AC_STOP, AC_CLOSE}"
    using adm by (auto simp: admissible_def)
  have "ledger_ok (admit c r)"
    by (rule append_ok[OF _ find _ _ _ same, where e = "\<lparr>rc_request = r, rc_run = 0, rc_result = 0, rc_state = 0\<rparr>"])
      (use ok turn_resultD[OF turn] op in \<open>auto simp: control_ok_def admit_def\<close>)
  then have l1: "ledger_ok c1" using v ledger_ok_cong by blast
  have b1: "budget_ok c1" using ok p(1) charge_budget control_ok_def by blast
  have pv: "phase_view c1 = phase_view c" using v by (simp add: phase_view_def admit_def)
  then have p1: "phase_ok c1" "idle_ok c1" using ok phase_ok_cong control_ok_def by blast+
  have s1: "session_open c1" using pv so by (simp add: phase_view_def session_open_def)
  have k1: "k < length (ct_ledger c1)" "rc_request (ct_ledger c1 ! k) = r"
    using v by (simp_all add: admit_def k_def)
  have d: "command_frame c1 c2 \<and> phase_ok c2 \<and> (idle_ok c2 \<or> rq_op r = AC_CLOSE \<and> x = AC_OK \<and> ct_state c2 = AC_NO_SESSION)"
  proof (cases "x1 = AC_OK")
    case True
    with p(2) have "do_command h c1 w k r = (x, c2, w2)" by simp
    from do_command_ok[OF p1 s1 k1 this] show ?thesis .
  next
    case False
    with p(2) p1 show ?thesis by auto
  qed
  then have rq: "ct_requests c2 = ct_requests c1" by (simp add: command_frame_def ledger_view_def)
  have k2: "k < length (ct_ledger c2)" using k1(1) requests_length[OF rq] by simp
  have k3: "rc_request (ct_ledger c2 ! k) = r" using k1(2) requests_nth[OF rq k2] by simp
  have f3: "command_frame c1 c3" using d set_receipt_frame[OF k2 k3] command_frame_trans p(3) by blast
  have v3: "phase_view c3 = phase_view c2" using set_receipt_view(3)[OF k2 k3] p(3) by simp
  then have "phase_ok c3" "idle_ok c3 \<or> rq_op r = AC_CLOSE \<and> x = AC_OK \<and> ct_state c3 = AC_NO_SESSION"
    using d phase_ok_cong[OF v3] by (auto simp: phase_view_def)
  with that p l1 b1 p1 s1 f3 v3 show thesis unfolding k_def by blast
qed

lemma handle_command_ok:
  assumes ok: "control_ok c" and adm: "admissible c r" and hc: "handle_command h c w r = (c', w')"
  shows "control_ok c'"
  using assms
proof (cases rule: handle_command_parts)
  case (1 x1 c1 x c2 w2 c3)
  have lb: "ledger_ok c3" "budget_ok c3"
    using 1(6,7,11) ledger_ok_cong budget_ok_cong unfolding command_frame_def by blast+
  show ?thesis
  proof (cases "rq_op r = AC_CLOSE \<and> x = AC_OK")
    case False
    with 1 lb show ?thesis by (auto simp: control_ok_def)
  next
    case True
    then have "x1 = AC_OK" using 1(1) by (simp add: charge_def cleanup_op_def)
    then have d: "do_close c1 = (x, c2)"
      using 1(2) True by (simp add: do_command_def split: prod.splits)
    then have st: "ct_state c2 = AC_NO_SESSION" "ct_session c2 = ct_session c1" "ct_closed c2 = ct_closed c1"
      using True by (auto simp: do_close_def split: if_splits)
    then have "ct_state c3 = AC_NO_SESSION" "ct_session c3 \<noteq> 0" "\<not> ct_closed c3"
      using 1(10,12) by (auto simp: phase_view_def session_open_def)
    moreover have c': "c' = c3\<lparr>ct_closed := True, ct_offer := ct_offer c3 + 1\<rparr>" using 1(5) True by simp
    ultimately have "phase_ok c'" "idle_ok c'" using 1(13) by (simp_all add: phase_ok_def idle_ok_def)
    moreover have "ledger_view c' = ledger_view c3" "budget_view c' = budget_view c3"
      by (simp_all add: c' view_defs)
    ultimately show ?thesis using lb ledger_ok_cong budget_ok_cong unfolding control_ok_def by blast
  qed
qed

lemma open_session_ok:
  assumes "control_ok c" "rq_session r \<noteq> 0" "rq_session r = ct_offer c"
  shows "control_ok (open_session c r)"
  using assms by (simp add: control_ok_def ledger_ok_def budget_ok_def phase_ok_def idle_ok_def open_session_def first_seq_def)

lemma handle_open_cases:
  assumes "handle_open h c w r = (c', w')"
  obtains (kept) "c' = c" "only_answered h c w w'"
  | (fresh) "c' = open_session c r" "rq_session r \<noteq> 0" "rq_session r = ct_offer c" "\<not> session_open c"
      "w' = answer h c' w r AC_OK"
proof (cases "open_result c r = AC_OK \<and> \<not> session_open c")
  case True
  then have "rq_session r \<noteq> 0" "rq_session r = ct_offer c"
    by (auto simp: open_result_def session_open_def split: if_splits)
  with True assms show thesis using fresh by (auto simp: handle_open_def session_open_def Let_def)
next
  case False
  with assms have "c' = c" "w' = answer h c w r (open_result c r)"
    by (auto simp: handle_open_def session_open_def Let_def)
  then show thesis using kept by simp
qed

lemma handle_ok: "control_ok c \<Longrightarrow> handle h c w r = (c', w') \<Longrightarrow> control_ok c'"
proof (cases rule: handle_cases[of r c h w])
  case opened
  assume "control_ok c" "handle h c w r = (c', w')"
  with opened show ?thesis using handle_open_cases open_session_ok by metis
qed (auto intro: handle_command_ok)

lemma overflow_receipt_ok:
  assumes ok: "control_ok c" and new: "find_receipt c (rq_id r) = None \<or> rq_session r \<noteq> ct_session c"
  shows "control_ok (overflow_receipt c r)"
proof (cases "overflow_receipt c r = c")
  case True
  with ok show ?thesis by simp
next
  case False
  then have g: "rq_op r \<ge> AC_START" "rq_op r \<noteq> AC_STATUS" "rq_op r \<le> AC_CLOSE" "rq_id r \<noteq> 0"
    "rq_boot r = ct_boot c" "rq_session r = ct_session c" "rq_fence r = ct_fence c"
    "rq_seq r = ct_next_seq c" "length (ct_ledger c) < 64" "\<not> ct_closed c"
    and c': "overflow_receipt c r = c\<lparr>ct_ledger := ct_ledger c @ [\<lparr>rc_request = r, rc_run = ct_run c,
        rc_result = AC_QUEUE_FULL, rc_state = ct_state c\<rparr>], ct_next_seq := ct_next_seq c + 1\<rparr>"
    by (auto simp: overflow_receipt_def split: if_splits)
  have f: "find_receipt c (rq_id r) = None" using new g(6) by simp
  have "ledger_ok (overflow_receipt c r)"
    by (rule append_ok[OF _ f g(4) g(8,9) g(6,7,5) g(1,3,2)])
      (use ok in \<open>auto simp: control_ok_def c'\<close>)
  moreover have "budget_ok (overflow_receipt c r)" using ok by (simp add: control_ok_def budget_ok_def c')
  moreover have "phase_view (overflow_receipt c r) = phase_view c" by (simp add: phase_view_def c')
  ultimately show ?thesis using ok phase_ok_cong unfolding control_ok_def by blast
qed

lemma handle_overflow_cases:
  assumes "handle_overflow h c w r = (c', w')"
  obtains (kept) "c' = c" "only_answered h c w w'"
  | (refused) "c' = overflow_receipt c r" "w' = answer h c' w r AC_QUEUE_FULL"
      "find_receipt c (rq_id r) = None \<or> rq_session r \<noteq> ct_session c"
proof (cases "find_receipt c (rq_id r) = None \<or> rq_session r \<noteq> ct_session c")
  case True
  with assms show thesis using refused by (auto simp: handle_overflow_def Let_def split: option.splits if_splits)
next
  case False
  with assms show thesis using kept by (auto simp: handle_overflow_def split: option.splits if_splits)
qed

lemma handle_overflow_ok: "control_ok c \<Longrightarrow> handle_overflow h c w r = (c', w') \<Longrightarrow> control_ok c'"
  by (erule handle_overflow_cases) (auto intro: overflow_receipt_ok)

lemma observe_ok: "control_ok c \<Longrightarrow> control_ok (app_control_observe a b d i c)"
proof -
  assume ok: "control_ok c"
  let ?c = "app_control_observe a b d i c"
  have f: "command_frame c ?c" by (simp add: command_frame_def view_defs app_control_observe_def)
  have "phase_ok ?c \<and> idle_ok ?c"
    using ok by (simp add: control_ok_def phase_ok_def idle_ok_def app_control_observe_def)
  with f ok show ?thesis using control_ok_frame by blast
qed

section \<open>The queue\<close>

text \<open>What waits in the ring of four, oldest first.\<close>

definition ac_queue :: "'w app_control \<Rightarrow> request list" where
  "ac_queue s = map (\<lambda>i. ac_inbox s ! ((unat (ac_tail s) + i) mod AC_INBOX)) [0..<unat (ac_head s - ac_tail s)]"

definition queue_ok :: "'w app_control \<Rightarrow> bool" where
  "queue_ok s \<longleftrightarrow> length (ac_inbox s) = AC_INBOX \<and> unat (ac_head s - ac_tail s) \<le> AC_INBOX \<and>
     unat (ac_limit s - ac_tail s) \<le> unat (ac_head s - ac_tail s) \<and>
     (\<forall>r \<in> insert (ac_overflow s) (set (ac_inbox s)). length (rq_data r) = AC_REQUEST_SIZE)"

lemma unat_add_mod4: "unat ((x :: u32) + of_nat n) mod 4 = (unat x + n) mod 4"
proof -
  have "unat (x + of_nat n) = (unat x + n) mod 2 ^ 32"
    by (simp add: unat_word_ariths unat_of_nat mod_simps)
  then show ?thesis by (simp add: mod_mod_cancel)
qed

lemma unat_head_mod4: "unat h mod 4 = (unat t + unat (h - t)) mod 4" for h t :: u32
  using unat_add_mod4[of t "unat (h - t)"] by simp

lemma ring_distinct: "i < n \<Longrightarrow> n < 4 \<Longrightarrow> ((t :: nat) + i) mod 4 \<noteq> (t + n) mod 4"
proof
  assume "i < n" "n < 4" "(t + i) mod 4 = (t + n) mod 4"
  then have "4 dvd (t + n) - (t + i)" by (metis mod_eq_dvd_iff_nat add_le_cancel_left less_imp_le)
  then have "4 dvd n - i" by simp
  with \<open>i < n\<close> have "4 \<le> n - i" by (intro dvd_imp_le) simp_all
  with \<open>n < 4\<close> show False by simp
qed

lemma ring_shift: "(x :: nat) mod 4 = (y + 1) mod 4 \<Longrightarrow> (x + i) mod 4 = (y + Suc i) mod 4"
  using mod_add_cong[of x 4 "y + 1" i i] by simp

lemma queue_length: "length (ac_queue s) = unat (ac_head s - ac_tail s)"
  by (simp add: ac_queue_def)

lemma ring_full_iff: "queue_ok s \<Longrightarrow> ac_head s - ac_tail s \<ge> of_nat AC_INBOX \<longleftrightarrow> length (ac_queue s) = AC_INBOX"
  by (auto simp: queue_ok_def queue_length word_le_nat_alt)

lemma u32_succ_diff: "unat (a - b :: u32) < 4 \<Longrightarrow> unat (a + 1 - b) = Suc (unat (a - b))"
proof -
  assume "unat (a - b) < 4"
  then have "a - b < 4" by (simp add: word_less_nat_alt)
  then have "a - b \<noteq> - 1" by auto
  then show ?thesis using unat_inc[of "a - b"] by (simp add: algebra_simps)
qed

lemma u32_pred_diff: "a \<noteq> b \<Longrightarrow> unat (a - (b + 1)) = unat (a - b) - 1" for a b :: u32
proof -
  assume "a \<noteq> b"
  then have "a - b \<noteq> 0" by simp
  then have "unat (a - b - 1) = unat (a - b) - 1" by (rule unat_minus_one)
  then show ?thesis by (simp add: algebra_simps)
qed

lemma receive_queue:
  assumes ok: "queue_ok s" and b: "frame_ok b"
  shows "ac_queue (app_control_receive b s) =
      (if length (ac_queue s) < AC_INBOX then ac_queue s @ [frame_request b] else ac_queue s)"
proof (cases "length (ac_queue s) < 4")
  case False
  with ok have "ac_head s - ac_tail s \<ge> of_nat AC_INBOX" using ring_full_iff[OF ok] by (simp add: queue_ok_def queue_length)
  with b False show ?thesis by (simp add: app_control_receive_def ac_queue_def)
next
  case True
  define n where "n = unat (ac_head s - ac_tail s)"
  have n: "n < 4" using True by (simp add: queue_length n_def)
  let ?s = "app_control_receive b s"
  have "\<not> ac_head s - ac_tail s \<ge> of_nat AC_INBOX" using ring_full_iff[OF ok] True by simp
  then have s: "ac_inbox ?s = (ac_inbox s)[unat (ac_head s) mod 4 := frame_request b]"
    "ac_head ?s = ac_head s + 1" "ac_tail ?s = ac_tail s" using b by (simp_all add: app_control_receive_def Let_def)
  have len: "unat (ac_head ?s - ac_tail ?s) = Suc n"
    using n u32_succ_diff by (simp add: s n_def)
  have ix: "unat (ac_head s) mod 4 = (unat (ac_tail s) + n) mod 4"
    unfolding n_def by (rule unat_head_mod4)
  have four: "length (ac_inbox s) = 4" using ok by (simp add: queue_ok_def)
  have "ac_inbox ?s ! ((unat (ac_tail s) + i) mod 4) = ac_inbox s ! ((unat (ac_tail s) + i) mod 4)" if "i < n" for i
    using ring_distinct[OF that n, of "unat (ac_tail s)"] by (simp add: s ix)
  moreover have "ac_inbox ?s ! ((unat (ac_tail s) + n) mod 4) = frame_request b"
    using four by (simp add: s ix)
  ultimately show ?thesis using n by (simp add: ac_queue_def len[unfolded s(3)] s(3) flip: n_def)
qed

lemma pump_one_queue:
  assumes ok: "queue_ok s" and more: "ac_tail s \<noteq> ac_limit s"
  obtains r rest where "ac_queue s = r # rest" "ac_queue (pump_one h s) = rest"
    "(ac_control (pump_one h s), ac_world (pump_one h s)) = serve h (wake h (ac_control s) (ac_world s)) r"
proof -
  define n where "n = unat (ac_head s - ac_tail s)"
  have "ac_limit s - ac_tail s \<noteq> 0" using more by simp
  then have "0 < unat (ac_limit s - ac_tail s)" by (simp add: unat_gt_0)
  then have n: "0 < n" using ok by (simp add: queue_ok_def n_def)
  then have ne: "ac_head s \<noteq> ac_tail s" by (auto simp: n_def)
  obtain c w where sv: "serve h (wake h (ac_control s) (ac_world s)) (ac_inbox s ! (unat (ac_tail s) mod 4)) = (c, w)"
    by fastforce
  have p: "pump_one h s = s\<lparr>ac_tail := ac_tail s + 1, ac_control := c, ac_world := w\<rparr>"
    using more sv by (simp add: pump_one_def)
  have "ac_queue s = map (\<lambda>i. ac_inbox s ! ((unat (ac_tail s) + i) mod 4)) (0 # map Suc [0..<n - 1])"
    using n by (simp add: ac_queue_def upt_conv_Cons map_Suc_upt flip: n_def)
  moreover have "ac_queue (pump_one h s) = map (\<lambda>i. ac_inbox s ! ((unat (ac_tail s) + Suc i) mod 4)) [0..<n - 1]"
  proof -
    have "(unat (ac_tail s + 1) + i) mod 4 = (unat (ac_tail s) + Suc i) mod 4" for i
      by (rule ring_shift) (use unat_add_mod4[of "ac_tail s" 1] in simp)
    then show ?thesis using u32_pred_diff[OF ne] by (simp add: ac_queue_def p n_def)
  qed
  ultimately show thesis using that sv by (simp add: p comp_def)
qed

lemma pump_one_ok: "queue_ok s \<Longrightarrow> queue_ok (pump_one h s)"
proof (cases "ac_tail s = ac_limit s")
  case True
  then show "queue_ok s \<Longrightarrow> ?thesis" by (simp add: pump_one_def)
next
  case False
  assume ok: "queue_ok s"
  have l: "ac_limit s - ac_tail s \<noteq> 0" using False by simp
  then have "0 < unat (ac_limit s - ac_tail s)" by (simp add: unat_gt_0)
  then have "ac_head s \<noteq> ac_tail s" using ok by (auto simp: queue_ok_def)
  with False ok show ?thesis
    using u32_pred_diff[of "ac_head s" "ac_tail s"] u32_pred_diff[of "ac_limit s" "ac_tail s"]
    by (auto simp: queue_ok_def pump_one_def Let_def split: prod.splits)
qed

lemma frame_request_length: "frame_ok b \<Longrightarrow> length (rq_data (frame_request b)) = AC_REQUEST_SIZE"
  by (simp add: frame_ok_def frame_request_def)

lemma receive_ok: "queue_ok s \<Longrightarrow> queue_ok (app_control_receive b s)"
proof (cases "frame_ok b \<and> unat (ac_head s - ac_tail s) < 4")
  case True
  assume ok: "queue_ok s"
  have "\<not> ac_head s - ac_tail s \<ge> of_nat AC_INBOX" using ring_full_iff[OF ok] True by (simp add: queue_length)
  with True have s: "app_control_receive b s =
      s\<lparr>ac_inbox := (ac_inbox s)[unat (ac_head s) mod 4 := frame_request b], ac_head := ac_head s + 1\<rparr>"
    by (simp add: app_control_receive_def Let_def)
  have "length (rq_data r) = AC_REQUEST_SIZE"
    if "r \<in> set ((ac_inbox s)[unat (ac_head s) mod 4 := frame_request b])" for r
    using set_update_in[OF that] ok True frame_request_length by (auto simp: queue_ok_def)
  moreover have "unat (ac_head s + 1 - ac_tail s) = Suc (unat (ac_head s - ac_tail s))"
    using True by (intro u32_succ_diff) simp
  ultimately show ?thesis using True ok by (simp add: queue_ok_def s)
next
  case False
  assume ok: "queue_ok s"
  show ?thesis
  proof (cases "frame_ok b")
    case True
    with False have "length (ac_queue s) = 4" using ok by (simp add: queue_ok_def queue_length)
    with ok True show ?thesis using ring_full_iff[OF ok] frame_request_length[OF True]
      by (simp add: app_control_receive_def queue_ok_def)
  qed (use ok in \<open>simp add: app_control_receive_def\<close>)
qed

section \<open>The machine\<close>

definition ac_ok :: "'w app_control \<Rightarrow> bool" where
  "ac_ok s \<longleftrightarrow> control_ok (ac_control s) \<and> queue_ok s"

lemma wake_split:
  assumes "wake h c w = (c', w')"
  obtains c1 w1 where "clock_tick h c w = (c1, w1)" "expire h c1 w1 = (c', w')"
  using assms by (auto simp: wake_def split: prod.splits)

lemma serve_split:
  assumes "serve h cw r = (c', w')"
  obtains c1 w1 c2 w2 where "handle h (fst cw) (snd cw) r = (c1, w1)" "clock_tick h c1 w1 = (c2, w2)"
    "expire h c2 w2 = (c', w')"
  using assms by (auto simp: serve_def split: prod.splits)

lemma wake_ok: "control_ok c \<Longrightarrow> wake h c w = (c', w') \<Longrightarrow> control_ok c'"
  by (erule wake_split) (blast intro: clock_tick_ok expire_ok)

lemma serve_ok: "control_ok (fst cw) \<Longrightarrow> serve h cw r = (c', w') \<Longrightarrow> control_ok c'"
  by (erule serve_split) (blast intro: handle_ok clock_tick_ok expire_ok)

lemma pump_begin_ok: "ac_ok s \<Longrightarrow> ac_ok (pump_begin h t s)"
proof -
  assume ok: "ac_ok s"
  obtain c w where e: "expire h ((ac_control s)\<lparr>ct_now := t\<rparr>) (ac_world s) = (c, w)" by fastforce
  have "control_ok ((ac_control s)\<lparr>ct_now := t\<rparr>)"
    using ok by (simp add: ac_ok_def control_ok_def ledger_ok_def budget_ok_def phase_ok_def idle_ok_def first_seq_def)
  from expire_ok[OF this e] ok show ?thesis by (simp add: ac_ok_def pump_begin_def e queue_ok_def)
qed

lemma pump_one_control_ok: "control_ok (ac_control s) \<Longrightarrow> control_ok (ac_control (pump_one h s))"
proof -
  assume ok: "control_ok (ac_control s)"
  obtain c w where k: "wake h (ac_control s) (ac_world s) = (c, w)" by fastforce
  obtain c' w' where v: "serve h (c, w) (ac_inbox s ! (unat (ac_tail s) mod 4)) = (c', w')" by fastforce
  have "control_ok c'" using serve_ok[OF _ v] wake_ok[OF ok k] by simp
  with ok show ?thesis by (simp add: pump_one_def k v)
qed

lemma pump_overflow_ok: "ac_ok s \<Longrightarrow> ac_ok (pump_overflow h s)"
proof -
  assume ok: "ac_ok s"
  obtain c w where v: "handle_overflow h (ac_control s) (ac_world s) (ac_overflow s) = (c, w)" by fastforce
  from ok handle_overflow_ok[OF _ v] show ?thesis by (simp add: pump_overflow_def v ac_ok_def queue_ok_def)
qed

lemma receive_control: "ac_control (app_control_receive b s) = ac_control s"
  by (simp add: app_control_receive_def Let_def)

lemma ac_step_ok: "ac_ok s \<Longrightarrow> ac_ok (ac_step h s e)"
proof (cases e)
  case (AcReceive b)
  then show "ac_ok s \<Longrightarrow> ?thesis" by (simp add: ac_ok_def receive_ok receive_control)
next
  case AcOne
  then show "ac_ok s \<Longrightarrow> ?thesis" by (simp add: ac_ok_def pump_one_ok pump_one_control_ok)
next
  case (AcObserve a b c i)
  then show "ac_ok s \<Longrightarrow> ?thesis" using observe_ok by (simp add: ac_ok_def queue_ok_def)
qed (auto intro: pump_begin_ok pump_overflow_ok)

lemma ac_init_ok: "ac_ok (app_control_init boot w)"
  by (auto simp: app_control_init_def ac_ok_def control_ok_def ledger_ok_def budget_ok_def phase_ok_def idle_ok_def
      first_seq_def queue_ok_def null_request_def Let_def)

interpretation ac_machine: started_machine "ac_step h" ac_ok "app_control_init boot w" for h boot w
  by unfold_locales (auto intro: ac_step_ok ac_init_ok)

section \<open>Receipts\<close>

text \<open>Nothing but a new session removes a receipt or changes one.\<close>

definition ledger_extends :: "control \<Rightarrow> control \<Rightarrow> bool" where
  "ledger_extends c c' \<longleftrightarrow> ct_boot c' = ct_boot c \<and> ct_session c' = ct_session c \<and> ct_fence c' = ct_fence c \<and>
     (\<exists>new. ct_ledger c' = ct_ledger c @ new)"

lemma ledger_extends_refl [simp]: "ledger_extends c c"
  by (simp add: ledger_extends_def)

lemma ledger_extends_trans [trans]: "ledger_extends a b \<Longrightarrow> ledger_extends b c \<Longrightarrow> ledger_extends a c"
  by (auto simp: ledger_extends_def)

lemma expire_extends: "expire h c w = (c', w') \<Longrightarrow> ledger_extends c c'"
  by (erule expire_cases) (auto simp: ledger_extends_def)

lemma clock_tick_extends: "clock_tick h c w = (c', w') \<Longrightarrow> ledger_extends c c'"
  by (auto simp: clock_tick_def ledger_extends_def split: option.splits prod.splits)

text \<open>A command only writes the entry that it took.\<close>

lemma do_tap_last:
  assumes "ct_ledger c = L @ [e]" "do_tap h c w (length L) r = (x, c', w')"
  shows "\<exists>e'. ct_ledger c' = L @ [e']"
proof (cases "c' = c")
  case True
  with assms show ?thesis by simp
next
  case False
  define c1 where "c1 = set_receipt c (length L) r AC_ACCEPTED"
  obtain c2 w2 where t: "clock_tick h c1 (answer h c1 w r AC_ACCEPTED) = (c2, w2)" by fastforce
  obtain c3 w3 where e: "expire h c2 w2 = (c3, w3)" by fastforce
  have "c' = c2 \<or> c' = c3"
    using assms(2) False t e by (auto simp: do_tap_def c1_def Let_def split: if_splits prod.splits)
  moreover have "ct_ledger c2 = ct_ledger c1"
    using t by (auto simp: clock_tick_def split: option.splits prod.splits)
  moreover have "ct_ledger c3 = ct_ledger c2" using e by (auto elim!: expire_cases)
  ultimately have "ct_ledger c' = ct_ledger c1" by auto
  then show ?thesis using assms(1) by (simp add: c1_def set_receipt_def)
qed

lemma do_command_last:
  assumes "ct_ledger c = L @ [e]" "do_command h c w (length L) r = (x, c', w')"
  shows "\<exists>e'. ct_ledger c' = L @ [e']"
proof (cases "rq_op r = AC_TAP")
  case True
  with assms show ?thesis using do_tap_last by (simp add: do_command_def)
next
  case False
  have "ct_ledger c' = ct_ledger c"
  proof (cases "rq_op r = AC_START")
    case True
    with assms(2) have "do_start h c w r = (x, c', w')" by (simp add: do_command_def)
    then show ?thesis by (cases rule: do_start_cases) (auto simp: started_def Let_def)
  next
    case s: False
    with False assms(2) show ?thesis
      by (auto simp: do_command_def do_suspend_def do_stop_def do_close_def Let_def split: if_splits prod.splits)
  qed
  with assms show ?thesis by simp
qed

lemma handle_command_extends:
  assumes "control_ok c" "admissible c r" "handle_command h c w r = (c', w')"
  obtains e where "ct_ledger c' = ct_ledger c @ [e]" "rc_request e = r" "ledger_extends c c'"
  using assms
proof (cases rule: handle_command_parts)
  case (1 x1 c1 x c2 w2 c3)
  note v = charge_view[OF 1(1)]
  then have l1: "ct_ledger c1 = ct_ledger c @ [\<lparr>rc_request = r, rc_run = 0, rc_result = 0, rc_state = 0\<rparr>]"
    by (simp add: admit_def)
  have "\<exists>e2. ct_ledger c2 = ct_ledger c @ [e2]"
  proof (cases "x1 = AC_OK")
    case True
    with 1(2) have "do_command h c1 w (length (ct_ledger c)) r = (x, c2, w2)" by simp
    then show ?thesis by (rule do_command_last[OF l1])
  next
    case False
    with 1(2) l1 show ?thesis by simp
  qed
  then obtain e2 where "ct_ledger c2 = ct_ledger c @ [e2]" by blast
  then have "ct_ledger c3 = ct_ledger c @ [\<lparr>rc_request = r, rc_run = ct_run c2, rc_result = x, rc_state = ct_state c2\<rparr>]"
    using 1(3) by (simp add: set_receipt_def)
  moreover have "ct_ledger c' = ct_ledger c3" using 1(5) by simp
  moreover have "ledger_view c1 = ledger_view (admit c r)" using v by simp
  then have "ct_boot c' = ct_boot c \<and> ct_session c' = ct_session c \<and> ct_fence c' = ct_fence c"
    using 1(5,11) by (simp add: command_frame_def ledger_view_def admit_def)
  ultimately show thesis using that by (simp add: ledger_extends_def)
qed

lemma handle_extends:
  assumes ok: "control_ok c" and own: "rq_op r = AC_OPEN \<Longrightarrow> rq_session r = ct_session c"
    and hd: "handle h c w r = (c', w')"
  shows "ledger_extends c c'"
proof (cases rule: handle_cases[of r c h w])
  case opened
  with hd have "handle_open h c w r = (c', w')" by simp
  then show ?thesis
  proof (cases rule: handle_open_cases)
    case fresh
    then have "ct_session c \<noteq> 0" "ct_closed c" using own opened by (auto simp: session_open_def)
    then have "ct_offer c = ct_session c + 1" using ok by (simp add: control_ok_def phase_ok_def)
    with fresh own opened show ?thesis by simp
  qed simp
next
  case command
  with ok hd handle_command_extends show ?thesis by metis
next
  case answered
  with hd show ?thesis by simp
qed

lemma wake_extends: "wake h c w = (c', w') \<Longrightarrow> ledger_extends c c'"
  by (erule wake_split) (blast intro: ledger_extends_trans clock_tick_extends expire_extends)

lemma serve_extends:
  assumes "control_ok (fst cw)" "rq_op r = AC_OPEN \<Longrightarrow> rq_session r = ct_session (fst cw)" "serve h cw r = (c', w')"
  shows "ledger_extends (fst cw) c'"
  using assms(3)
proof (cases rule: serve_split)
  case (1 c1 w1 c2 w2)
  then show ?thesis
    using handle_extends[OF assms(1,2) 1(1)] clock_tick_extends[OF 1(2)] expire_extends[OF 1(3)]
    by (blast intro: ledger_extends_trans)
qed

lemma observe_extends: "ledger_extends c (app_control_observe a b d i c)"
  by (simp add: ledger_extends_def app_control_observe_def)

lemma overflow_extends: "handle_overflow h c w r = (c', w') \<Longrightarrow> ledger_extends c c'"
  by (erule handle_overflow_cases) (auto simp: ledger_extends_def overflow_receipt_def)

text \<open>Requests that do not open another session than \<open>n\<close>.\<close>

definition own_session :: "u32 \<Rightarrow> request \<Rightarrow> bool" where
  "own_session n r \<longleftrightarrow> (rq_op r = AC_OPEN \<longrightarrow> rq_session r = n)"

fun own_event :: "u32 \<Rightarrow> ac_event \<Rightarrow> bool" where
  "own_event n (AcReceive b) = (frame_ok b \<longrightarrow> own_session n (frame_request b))"
| "own_event n _ = True"

lemma receive_unframed: "\<not> frame_ok b \<Longrightarrow> app_control_receive b s = s"
  by (simp add: app_control_receive_def)

lemma step_own:
  assumes ok: "ac_ok s" and q: "list_all (own_session n) (ac_queue s)" and e: "own_event n e"
    and n: "n = ct_session (ac_control s)"
  shows "ledger_extends (ac_control s) (ac_control (ac_step h s e)) \<and> list_all (own_session n) (ac_queue (ac_step h s e))"
proof (cases e)
  case (AcReceive b)
  have "queue_ok s" using ok by (simp add: ac_ok_def)
  from receive_queue[OF this, of b] AcReceive q e show ?thesis
    by (cases "frame_ok b") (simp_all add: receive_control receive_unframed)
next
  case (AcBegin t)
  obtain c w where x: "expire h ((ac_control s)\<lparr>ct_now := t\<rparr>) (ac_world s) = (c, w)" by fastforce
  from expire_extends[OF this] have "ledger_extends (ac_control s) c" by (simp add: ledger_extends_def)
  with AcBegin q show ?thesis by (simp add: pump_begin_def x ac_queue_def)
next
  case AcOne
  show ?thesis
  proof (cases "ac_tail s = ac_limit s")
    case True
    with AcOne q show ?thesis by (simp add: pump_one_def)
  next
    case False
    have "queue_ok s" using ok by (simp add: ac_ok_def)
    from this False obtain r rest where r: "ac_queue s = r # rest" "ac_queue (pump_one h s) = rest"
      "(ac_control (pump_one h s), ac_world (pump_one h s)) = serve h (wake h (ac_control s) (ac_world s)) r"
      by (rule pump_one_queue)
    obtain c w where k: "wake h (ac_control s) (ac_world s) = (c, w)" by fastforce
    have c: "control_ok c" "ledger_extends (ac_control s) c"
      using wake_ok[OF _ k] ok wake_extends[OF k] by (auto simp: ac_ok_def)
    have "rq_op r = AC_OPEN \<Longrightarrow> rq_session r = ct_session c"
      using q r(1) n c(2) by (simp add: own_session_def ledger_extends_def)
    from serve_extends[of "(c, w)" r h, simplified, OF c(1) this r(3)[unfolded k, symmetric]] c(2)
    have "ledger_extends (ac_control s) (ac_control (pump_one h s))" by (blast intro: ledger_extends_trans)
    with AcOne q r(1,2) show ?thesis by simp
  qed
next
  case AcOverflow
  obtain c w where v: "handle_overflow h (ac_control s) (ac_world s) (ac_overflow s) = (c, w)" by fastforce
  from overflow_extends[OF this] AcOverflow q show ?thesis by (simp add: pump_overflow_def v ac_queue_def)
next
  case (AcObserve a b c i)
  with q observe_extends show ?thesis by (simp add: ac_queue_def)
qed

lemma run_own:
  "ac_ok s \<Longrightarrow> list_all (own_session (ct_session (ac_control s))) (ac_queue s)
   \<Longrightarrow> list_all (own_event (ct_session (ac_control s))) es
   \<Longrightarrow> ledger_extends (ac_control s) (ac_control (foldl (ac_step h) s es))"
proof (induction es arbitrary: s)
  case Nil
  then show ?case by simp
next
  case (Cons e es)
  let ?n = "ct_session (ac_control s)" and ?t = "ac_step h s e"
  have t: "ledger_extends (ac_control s) (ac_control ?t)" "list_all (own_session ?n) (ac_queue ?t)"
    using step_own[of s ?n e h] Cons.prems by auto
  then have "ct_session (ac_control ?t) = ?n" by (simp add: ledger_extends_def)
  with Cons.IH[of ?t] Cons.prems t ac_step_ok[of s h e]
  have "ledger_extends (ac_control ?t) (ac_control (foldl (ac_step h) ?t es))" by simp
  with t(1) show ?case by (simp add: ledger_extends_trans)
qed

text \<open>A request that the ledger holds is answered from it.\<close>

lemma recorded_found:
  assumes "control_ok c" "e \<in> set (ct_ledger c)"
  shows "find_receipt c (rq_id (rc_request e)) = Some e"
proof -
  obtain i where i: "i < length (ct_ledger c)" "ct_ledger c ! i = e" using assms(2) by (metis in_set_conv_nth)
  have d: "distinct (map rq_id (ct_requests c))" using assms(1) by (simp add: control_ok_def ledger_ok_def)
  have "rq_id (rc_request (ct_ledger c ! j)) \<noteq> rq_id (rc_request e)" if "j < i" for j
    using nth_eq_iff_index_eq[OF d, of j i] that i by auto
  then show ?thesis unfolding find_receipt_def using i by (auto simp: find_Some_iff)
qed

lemma same_request_refl [simp]: "same_request r r"
  by (simp add: same_request_def)

lemma handle_malformed: "malformed r \<Longrightarrow> handle h c w r = (c, answer h c w r AC_INVALID)"
  by (simp add: handle_def)

lemma handle_recorded:
  assumes ok: "control_ok c" and e: "e \<in> set (ct_ledger c)" and s: "ct_session c \<noteq> 0"
    and m: "\<not> malformed (rc_request e)"
  shows "handle h c w (rc_request e) = (c, reply h c w (rc_request e) (rc_result e) (rc_state e) (rc_run e) None 0)"
proof -
  let ?r = "rc_request e"
  have "?r \<in> set (ct_requests c)" using e by simp
  then have "rq_session ?r = ct_session c" "rq_fence ?r = ct_fence c" "rq_boot ?r = ct_boot c"
    "AC_START \<le> rq_op ?r" "rq_op ?r \<noteq> AC_STATUS"
    using ok by (auto simp: control_ok_def ledger_ok_def)
  moreover have "\<not> (3 :: u8) \<le> 1" "\<not> (3 :: u8) \<le> 2" by (simp_all add: word_le_nat_alt)
  with calculation have "rq_op ?r \<noteq> AC_CATALOG" "rq_op ?r \<noteq> AC_OPEN" by metis+
  ultimately show ?thesis using recorded_found[OF ok e] s m by (simp add: handle_def)
qed


text \<open>What a command that is not in the budget or past the lease does.\<close>

lemma charge_ok_lease: "charge c r = (AC_OK, c1) \<Longrightarrow> cleanup_op r \<or> ct_now c < ct_deadline c \<and> ct_user_count c < 60"
  by (auto simp: charge_def not_le split: if_splits)

lemma handle_effect:
  assumes "handle h c w r = (c', w')"
  shows "(\<exists>c1. only_answered h c1 w w') \<or>
    admissible c r \<and> (cleanup_op r \<or> ct_now c < ct_deadline c \<and> ct_user_count c < 60)"
proof (cases rule: handle_cases[of r c h w])
  case opened
  with assms have "handle_open h c w r = (c', w')" by simp
  then have "\<exists>c1. only_answered h c1 w w'"
    by (cases rule: handle_open_cases) (auto intro: only_answered_reply)
  then show ?thesis ..
next
  case command
  with assms have "handle_command h c w r = (c', w')" by simp
  then obtain x1 c1 x c2 w2 c3 where p: "charge (admit c r) r = (x1, c1)"
    "(if x1 = AC_OK then do_command h c1 w (length (ct_ledger c)) r else (x1, c1, w)) = (x, c2, w2)"
    "w' = answer h c3 w2 r x" by (rule handle_command_split)
  show ?thesis
  proof (cases "x1 = AC_OK")
    case True
    with charge_ok_lease[of "admit c r" r c1] p(1) command show ?thesis by (simp add: admit_def)
  next
    case False
    with p(2,3) have "only_answered h c3 w w'" by simp
    then show ?thesis by blast
  qed
next
  case answered
  with assms show ?thesis by auto
qed

text \<open>The producer's side: a well-formed frame joins the end of the queue, or, when four wait, takes the
  mailbox if that is free; frames beyond both are dropped.\<close>

lemma ac_receive_keeps_order:
  assumes "queue_ok s" "frame_ok b"
  shows "if length (ac_queue s) < AC_INBOX
    then ac_queue (app_control_receive b s) = ac_queue s @ [frame_request b] \<and>
         ac_overflow_ready (app_control_receive b s) = ac_overflow_ready s
    else ac_queue (app_control_receive b s) = ac_queue s \<and> ac_overflow_ready (app_control_receive b s) \<and>
         ac_overflow (app_control_receive b s) = (if ac_overflow_ready s then ac_overflow s else frame_request b)"
  using receive_queue[OF assms] ring_full_iff[OF assms(1)] assms(2) queue_length[of s] assms(1)
  by (auto simp: app_control_receive_def Let_def queue_ok_def)

section \<open>A concrete run\<close>

definition test_hooks :: "nat app_control_hooks" where
  "test_hooks = \<lparr>h_catalog_count = (\<lambda>_. 1),
     h_catalog = (\<lambda>i _. if i = 0 then Some \<lparr>d_id = [0x61], d_title = None, d_flags = 5\<rparr> else None),
     h_start = (\<lambda>_ _ w. (AC_OK, w + 1)), h_tap = (\<lambda>_ w. (AC_OK, w + 1)), h_suspend = (\<lambda>w. (AC_OK, w + 1)),
     h_stop = (\<lambda>w. (True, w + 1)), h_emit = (\<lambda>_ w. (True, w)), h_fingerprint = (\<lambda>_. ([], [])),
     h_instance = (\<lambda>_. 7), h_clock_ms = None\<rparr>"

definition test_frame :: "u8 \<Rightarrow> u32 \<Rightarrow> u32 \<Rightarrow> u32 \<Rightarrow> bytes" where
  "test_frame op i seq ttl =
     (let b = [1, op, 60, 0] @ replicate 68 0; b = pocket_wire_write32 b 4 42; b = pocket_wire_write32 b 8 i;
          b = pocket_wire_write32 b 12 42; b = pocket_wire_write32 b 24 seq; b = pocket_wire_write32 b 28 9
      in pocket_wire_write32 b 32 ttl)"

definition test_run :: "ac_event list" where
  "test_run = [AcReceive (test_frame AC_OPEN 0 0 1000), AcBegin 5, AcOne,
     AcReceive (test_frame AC_STOP 1 1 0), AcBegin 6, AcOne]"

lemma test_reply: "reply test_hooks c w r x st run d i = w"
  by (simp add: reply_def test_hooks_def)

lemma test_frames: "frame_ok (test_frame AC_OPEN 0 0 1000) \<and> frame_ok (test_frame AC_STOP 1 1 0)"
  by code_simp

definition open_request :: request where "open_request = frame_request (test_frame AC_OPEN 0 0 1000)"
definition stop_request :: request where "stop_request = frame_request (test_frame AC_STOP 1 1 0)"

lemma test_requests:
  "\<not> malformed open_request \<and> rq_op open_request = AC_OPEN \<and> rq_boot open_request = 42 \<and>
   rq_session open_request = 42 \<and> rq_fence open_request = 9 \<and> rq_ttl open_request = 1000 \<and>
   rq_id open_request = 0 \<and> rq_run open_request = 0 \<and> rq_seq open_request = 0 \<and> rq_arg open_request = 0 \<and>
   zero_bytes (drop 24 (rq_data open_request)) 32"
  "\<not> malformed stop_request \<and> rq_op stop_request = AC_STOP \<and> rq_boot stop_request = 42 \<and>
   rq_session stop_request = 42 \<and> rq_fence stop_request = 9 \<and> rq_run stop_request = 0 \<and>
   rq_id stop_request = 1 \<and> rq_seq stop_request = 1 \<and> rq_arg stop_request = 0"
  by code_simp+

lemma test_run_ledger:
  "ct_session (ac_control (foldl (ac_step test_hooks) (app_control_init 42 0) test_run)) = 42 \<and>
   ac_queue (foldl (ac_step test_hooks) (app_control_init 42 0) test_run) = [] \<and>
   ct_ledger (ac_control (foldl (ac_step test_hooks) (app_control_init 42 0) test_run)) =
     [\<lparr>rc_request = stop_request, rc_run = 0, rc_result = AC_OK, rc_state = AC_STOPPED\<rparr>]"
  using test_requests
  by (simp add: test_run_def app_control_init_def app_control_receive_def test_frames pump_begin_def pump_one_def
      wake_def serve_def expire_def clock_tick_def handle_def handle_open_def open_result_def open_session_def
      handle_command_def admit_def charge_def cleanup_op_def do_command_def do_stop_def set_receipt_def
      find_receipt_def turn_result_def ac_queue_def test_reply test_hooks_def Let_def
      flip: open_request_def stop_request_def)







section \<open>Properties\<close>




text \<open>Property C2: a command takes effect at most once. Once a command is in the ledger of a session, then through
  whatever happens next, as long as no request opens another session, its receipt stays as it is, and sending
  the same request again only answers that receipt: the control block does not change and no hook but the
  writer is called. (A command refused in the mailbox is recorded before its form is checked; a copy of an
  ill-formed one is answered as invalid.)\<close>

theorem ac_at_most_once:
  assumes "s = foldl (ac_step h) (app_control_init boot w0) es0" "n = ct_session (ac_control s)" "n \<noteq> 0"
    and "e \<in> set (ct_ledger (ac_control s))"
    and "list_all (own_session n) (ac_queue s)" "list_all (own_event n) es"
    and "c = ac_control (foldl (ac_step h) s es)"
  shows "e \<in> set (ct_ledger c) \<and>
    handle h c w (rc_request e) =
      (c, if malformed (rc_request e) then answer h c w (rc_request e) AC_INVALID
          else reply h c w (rc_request e) (rc_result e) (rc_state e) (rc_run e) None 0)"
proof -
  have s: "ac_ok s" using assms(1) ac_machine.reachable_inv by simp
  then have ok: "control_ok c" using ac_machine.run_inv[OF s, of h es] assms(7) by (simp add: ac_ok_def)
  have "ledger_extends (ac_control s) c" using run_own[OF s] assms by simp
  then have e: "e \<in> set (ct_ledger c)" and n: "ct_session c \<noteq> 0"
    using assms(2-4) by (auto simp: ledger_extends_def)
  then show ?thesis by (simp add: handle_recorded[OF ok e n] handle_malformed)
qed

theorem ac_at_most_once_witness:
  "\<lparr>rc_request = stop_request, rc_run = 0, rc_result = AC_OK, rc_state = AC_STOPPED\<rparr> \<in>
     set (ct_ledger (ac_control (foldl (ac_step test_hooks) (foldl (ac_step test_hooks) (app_control_init 42 0) test_run)
       [AcReceive (test_frame AC_STOP 1 1 0), AcBegin 9, AcOne])))"
proof -
  have "own_session 42 (frame_request (test_frame AC_STOP 1 1 0))"
    using test_requests(2) by (simp add: own_session_def flip: stop_request_def)
  then show ?thesis
    using ac_at_most_once[OF refl refl, of test_hooks 42 0 test_run "\<lparr>rc_request = stop_request, rc_run = 0,
        rc_result = AC_OK, rc_state = AC_STOPPED\<rparr>" "[AcReceive (test_frame AC_STOP 1 1 0), AcBegin 9, AcOne]", OF _ _ _ _ refl, of 0]
      test_run_ledger by (simp del: foldl.simps)
qed

text \<open>Property C30: nothing but an admitted command reaches the guest. Whatever request is handled, either one
  reply is written and no other hook that changes the world is called, or the request is admissible (well
  formed, of this boot, of the open session and its fence, not in the ledger, next in sequence, of the current
  run, with room in the ledger) and, unless it is STOP or CLOSE, the lease has time left and the budget of 60
  is not spent.\<close>

theorem ac_effect_needs_lease:
  "(\<exists>c1. only_answered h c1 w (snd (handle h c w r))) \<or>
   admissible c r \<and> (cleanup_op r \<or> ct_now c < ct_deadline c \<and> ct_user_count c < 60)"
  by (rule handle_effect) (rule prod.collapse[symmetric])



end
