(* ===== verification/WireFrame.thy ===== *)
theory WireFrame
  imports AppControl SkkOrder
begin

text \<open>
  The framed byte stream between the device and a PC (the transport half of
  \<open>main/pocket/pocket_bridge.c\<close>, \<open>pocket_bridge.h\<close> and the checksum of \<open>pocket_wire.h\<close>): a frame is
  GS, a namespace letter, the body and its CRC in lower-case hex, and a line feed.  Namespace B is the
  guest's, with an inbox of two slots shared with the JS task; namespace C goes to the native control of
  \<open>AppControl\<close>.

  The USB driver is a parameter: the bytes it has ready, whether it is installed, and what writing a
  frame answers.  The slot pointer of the parser is the constructor of the slot it points to.
\<close>

section \<open>Checksum and hex\<close>

definition wire_crc_bit :: "u32 \<Rightarrow> u32" where
  "wire_crc_bit c = drop_bit 1 c XOR ((0 - (c AND 1)) AND 0xedb88320)"

definition wire_crc_byte :: "u32 \<Rightarrow> u8 \<Rightarrow> u32" where
  "wire_crc_byte c b = (wire_crc_bit ^^ 8) (c XOR ucast b)"

definition pocket_wire_crc :: "bytes \<Rightarrow> u32" where
  "pocket_wire_crc p = foldl wire_crc_byte 0xffffffff p XOR 0xffffffff"

definition HEX :: bytes where
  "HEX = ascii ''0123456789abcdef''"

definition hex_digit :: "u8 \<Rightarrow> u8 option" where
  "hex_digit c =
     (if c \<ge> 0x30 \<and> c \<le> 0x39 then Some (c - 0x30)
      else if c \<ge> 0x61 \<and> c \<le> 0x66 then Some (c - 0x61 + 10)
      else None)"

definition hex_byte :: "u8 \<Rightarrow> bytes" where
  "hex_byte b = [HEX ! unat (drop_bit 4 b), HEX ! unat (b AND 15)]"

section \<open>The parser\<close>

abbreviation POCKET_BRIDGE_VERSION :: u8 where "POCKET_BRIDGE_VERSION \<equiv> 1"
abbreviation POCKET_BRIDGE_HEADER :: nat where "POCKET_BRIDGE_HEADER \<equiv> 12"
abbreviation POCKET_BRIDGE_MAX_FRAME :: nat where "POCKET_BRIDGE_MAX_FRAME \<equiv> 496"
abbreviation POCKET_BRIDGE_MAX_WIRE :: nat where "POCKET_BRIDGE_MAX_WIRE \<equiv> 995"

abbreviation WIRE_GS :: u8 where "WIRE_GS \<equiv> 0x1d"
abbreviation WIRE_LF :: u8 where "WIRE_LF \<equiv> 0x0a"
abbreviation NS_GUEST :: u8 where "NS_GUEST \<equiv> 0x42"
abbreviation NS_CONTROL :: u8 where "NS_CONTROL \<equiv> 0x43"

record bridge_slot =
  sl_length :: nat
  sl_data :: bytes

datatype rx_state = RX_IDLE | RX_TYPE | RX_HIGH | RX_LOW | RX_SKIP

datatype rx_target = TO_CONTROL | TO_INBOX nat

record 'w bridge =
  br_inbox :: "bridge_slot list"
  br_head :: u32
  br_tail :: u32
  br_dropped :: u32
  br_state :: rx_state
  br_high :: u8
  br_length :: nat
  br_slot :: rx_target
  br_control_slot :: bridge_slot
  br_namespace :: u8
  br_app :: "'w app_control"

definition slot_data :: "'w bridge \<Rightarrow> bytes" where
  "slot_data s = (case br_slot s of TO_CONTROL \<Rightarrow> sl_data (br_control_slot s) | TO_INBOX i \<Rightarrow> sl_data (br_inbox s ! i))"

definition put_data :: "bytes \<Rightarrow> 'w bridge \<Rightarrow> 'w bridge" where
  "put_data d s =
     (case br_slot s of
        TO_CONTROL \<Rightarrow> s\<lparr>br_control_slot := (br_control_slot s)\<lparr>sl_data := d\<rparr>\<rparr>
      | TO_INBOX i \<Rightarrow> s\<lparr>br_inbox := (br_inbox s)[i := (br_inbox s ! i)\<lparr>sl_data := d\<rparr>]\<rparr>)"

definition count_drop :: "'w bridge \<Rightarrow> 'w bridge" where
  "count_drop s = (if br_namespace s = NS_GUEST then s\<lparr>br_dropped := br_dropped s + 1\<rparr> else s)"

text \<open>The checks on a completed run of \<open>n\<close> bytes.\<close>

definition run_intact :: "bytes \<Rightarrow> nat \<Rightarrow> bool" where
  "run_intact d n \<longleftrightarrow>
     (let payload = unat ((ucast (d ! 2) :: u32) OR push_bit 8 (ucast (d ! 3)))
      in d ! 0 = POCKET_BRIDGE_VERSION \<and> POCKET_BRIDGE_HEADER + payload + 4 = n \<and>
         pocket_wire_crc (take (n - 4) d) = pocket_wire_read32 d (n - 4))"

definition rx_finish :: "'w bridge \<Rightarrow> 'w bridge" where
  "rx_finish s =
     (let whole = br_state s = RX_HIGH;
          s = s\<lparr>br_state := RX_IDLE\<rparr>;
          d = slot_data s; n = br_length s
      in if \<not> whole \<or> n < POCKET_BRIDGE_HEADER + 4 then count_drop s
         else if \<not> run_intact d n then count_drop s
         else if br_namespace s = NS_CONTROL then s\<lparr>br_app := app_control_receive (take (n - 4) d) (br_app s)\<rparr>
         else (case br_slot s of
             TO_INBOX i \<Rightarrow> s\<lparr>br_inbox := (br_inbox s)[i := (br_inbox s ! i)\<lparr>sl_length := n\<rparr>], br_head := br_head s + 1\<rparr>
           | TO_CONTROL \<Rightarrow> s\<lparr>br_control_slot := (br_control_slot s)\<lparr>sl_length := n\<rparr>, br_head := br_head s + 1\<rparr>))"

definition rx_feed :: "'w bridge \<Rightarrow> u8 \<Rightarrow> 'w bridge" where
  "rx_feed s c =
     (case br_state s of
        RX_IDLE \<Rightarrow> if c = WIRE_GS then s\<lparr>br_state := RX_TYPE\<rparr> else s
      | RX_TYPE \<Rightarrow>
          if c = WIRE_GS then s
          else if c \<noteq> NS_GUEST \<and> c \<noteq> NS_CONTROL then s\<lparr>br_state := RX_SKIP\<rparr>
          else
            (let s = s\<lparr>br_namespace := c\<rparr>
             in if c = NS_GUEST \<and> br_head s - br_tail s \<ge> 2 then
                  s\<lparr>br_dropped := br_dropped s + 1, br_state := RX_SKIP\<rparr>
                else s\<lparr>br_slot := (if c = NS_CONTROL then TO_CONTROL else TO_INBOX (unat (br_head s AND 1))),
                       br_length := 0, br_state := RX_HIGH\<rparr>)
      | RX_SKIP \<Rightarrow>
          if c = WIRE_GS then s\<lparr>br_state := RX_TYPE\<rparr>
          else if c = WIRE_LF then s\<lparr>br_state := RX_IDLE\<rparr> else s
      | _ \<Rightarrow>
          if c = WIRE_LF then rx_finish s
          else if c = WIRE_GS then s\<lparr>br_state := RX_TYPE\<rparr>
          else case hex_digit c of
            None \<Rightarrow> s\<lparr>br_state := RX_SKIP\<rparr>
          | Some v \<Rightarrow>
              if br_state s = RX_HIGH \<and> br_length s \<ge> POCKET_BRIDGE_MAX_FRAME then s\<lparr>br_state := RX_SKIP\<rparr>
              else if br_state s = RX_HIGH then s\<lparr>br_high := push_bit 4 v, br_state := RX_LOW\<rparr>
              else (put_data ((slot_data s)[br_length s := br_high s OR v]) s)
                     \<lparr>br_length := br_length s + 1, br_state := RX_HIGH\<rparr>)"

text \<open>The bytes that the driver has ready are taken while a frame is open.\<close>

fun usb_drain :: "nat \<Rightarrow> bytes \<Rightarrow> 'w bridge \<Rightarrow> bytes \<times> 'w bridge" where
  "usb_drain 0 ready s = (ready, s)"
| "usb_drain (Suc n) ready s =
     (if br_state s = RX_IDLE then (ready, s)
      else case ready of [] \<Rightarrow> ([], s) | c # rest \<Rightarrow> usb_drain n rest (rx_feed s c))"

definition pocket_bridge_usb :: "u8 \<Rightarrow> bytes \<Rightarrow> 'w bridge \<Rightarrow> bool \<times> bytes \<times> 'w bridge" where
  "pocket_bridge_usb c ready s =
     (if br_state s = RX_IDLE \<and> c \<noteq> WIRE_GS then (False, ready, s)
      else (let (ready, s) = usb_drain POCKET_BRIDGE_MAX_WIRE ready (rx_feed s c) in (True, ready, s)))"

section \<open>The writer\<close>

definition wire_frame :: "u8 \<Rightarrow> bytes \<Rightarrow> bytes" where
  "wire_frame ns body =
     (let crc = pocket_wire_crc body;
          tail = [ucast crc, ucast (drop_bit 8 crc), ucast (drop_bit 16 crc), ucast (drop_bit 24 crc)]
      in [WIRE_GS, ns] @ concat (map hex_byte body) @ concat (map hex_byte tail) @ [WIRE_LF])"

text \<open>\<open>Inl\<close> is the refusal, \<open>Inr\<close> the bytes handed to the driver in one call.\<close>

datatype emit_error = EMIT_INVALID_SIZE | EMIT_INVALID_STATE

definition pocket_bridge_emit_namespace :: "bool \<Rightarrow> u8 \<Rightarrow> bytes option \<Rightarrow> emit_error + bytes" where
  "pocket_bridge_emit_namespace installed ns body =
     (case body of
        None \<Rightarrow> Inl EMIT_INVALID_SIZE
      | Some b \<Rightarrow>
          if length b < POCKET_BRIDGE_HEADER \<or> length b > POCKET_BRIDGE_MAX_FRAME - 4 then Inl EMIT_INVALID_SIZE
          else if \<not> installed then Inl EMIT_INVALID_STATE
          else Inr (wire_frame ns b))"

definition pocket_bridge_emit :: "bool \<Rightarrow> bytes option \<Rightarrow> emit_error + bytes" where
  "pocket_bridge_emit installed body = pocket_bridge_emit_namespace installed NS_GUEST body"

section \<open>The JS task's side of the inbox\<close>

definition bridge_inbox_reset :: "'w bridge \<Rightarrow> 'w bridge" where
  "bridge_inbox_reset s = s\<lparr>br_tail := br_head s, br_dropped := 0\<rparr>"

definition pocket_bridge_resume :: "'w bridge \<Rightarrow> 'w bridge" where
  "pocket_bridge_resume s = s\<lparr>br_dropped := br_dropped s + (br_head s - br_tail s), br_tail := br_head s\<rparr>"

text \<open>One frame of the pump: what it hands on is read before the slot is released.\<close>

definition bridge_take :: "'w bridge \<Rightarrow> bytes option \<times> 'w bridge" where
  "bridge_take s =
     (if br_tail s = br_head s then (None, s)
      else (let d = br_inbox s ! unat (br_tail s AND 1)
            in (Some (take (sl_length d) (sl_data d)), s\<lparr>br_tail := br_tail s + 1\<rparr>)))"

section \<open>Encoding\<close>

lemma wire_crc_is_skk: "pocket_wire_crc p = skk_crc32 0 p"
proof -
  have "wire_crc_bit c = crc_bit c" for c
  proof (cases "bit c 0")
    case True
    then have "c AND 1 = 1" by (simp add: and_one_eq odd_iff_mod_2_eq_one bit_0)
    with True show ?thesis by (simp add: wire_crc_bit_def crc_bit_def)
  next
    case False
    then have "c AND 1 = 0" by (simp add: and_one_eq even_iff_mod_2_eq_zero bit_0)
    with False show ?thesis by (simp add: wire_crc_bit_def crc_bit_def)
  qed
  then have "wire_crc_bit = crc_bit" by (rule ext)
  then have "wire_crc_byte = crc_byte" by (intro ext) (simp add: wire_crc_byte_def crc_byte_ref crc_ref_byte_def)
  moreover have m: "(0xffffffff :: u32) = - 1" by simp
  have "x XOR 0xffffffff = NOT x" for x :: u32
    unfolding m by (simp add: bit_eq_iff bit_simps)
  ultimately show ?thesis unfolding pocket_wire_crc_def skk_crc32_def m by simp
qed

lemma hex_table: "\<forall>k < 16. hex_digit (HEX ! k) = Some (of_nat k) \<and> HEX ! k \<noteq> WIRE_LF \<and> HEX ! k \<noteq> WIRE_GS"
proof -
  have "list_all (\<lambda>k. hex_digit (HEX ! k) = Some (of_nat k) \<and> HEX ! k \<noteq> WIRE_LF \<and> HEX ! k \<noteq> WIRE_GS) [0..<16]"
    by code_simp
  then show ?thesis by (simp add: list_all_iff)
qed

lemma nibbles: "unat (drop_bit 4 (b :: u8)) < 16" "unat (b AND 15) < 16"
  "push_bit 4 (drop_bit 4 b) OR (b AND 15) = b"
proof -
  show "unat (drop_bit 4 b) < 16"
    using unsigned_less[where 'a = nat, of b] by (simp add: drop_bit_eq_div unat_div)
  have "b AND 15 \<le> 15" by (rule word_and_le1)
  then show "unat (b AND 15) < 16" by (simp add: word_le_nat_alt)
  have "(15 :: u8) = mask 4" by (simp add: mask_eq_exp_minus_1)
  then show "push_bit 4 (drop_bit 4 b) OR (b AND 15) = b" by (auto simp: bit_eq_iff bit_simps)
qed

lemma read_write32:
  "pocket_wire_read32 (xs @ [ucast v, ucast (drop_bit 8 v), ucast (drop_bit 16 v), ucast (drop_bit 24 v)] @ ys) (length xs) = v"
proof -
  have "(ucast (ucast v :: u8) OR push_bit 8 (ucast (ucast (drop_bit 8 v) :: u8)) OR push_bit 16 (ucast (ucast (drop_bit 16 v) :: u8))
      OR push_bit 24 (ucast (ucast (drop_bit 24 v) :: u8)) :: u32) = v"
  proof (rule bit_word_eqI)
    fix n
    assume "n < LENGTH(32)"
    then have "n < 8 \<or> (8 \<le> n \<and> n < 16) \<or> (16 \<le> n \<and> n < 24) \<or> (24 \<le> n \<and> n < 32)" by auto
    then show "bit (ucast (ucast v :: u8) OR push_bit 8 (ucast (ucast (drop_bit 8 v) :: u8)) OR push_bit 16 (ucast (ucast (drop_bit 16 v) :: u8))
      OR push_bit 24 (ucast (ucast (drop_bit 24 v) :: u8)) :: u32) n = bit v n"
      by (elim disjE) (auto simp: bit_simps)
  qed
  then show ?thesis by (simp add: pocket_wire_read32_def nth_append)
qed

section \<open>Reading what was written\<close>

definition slots_ok :: "'w bridge \<Rightarrow> bool" where
  "slots_ok s \<longleftrightarrow> length (br_inbox s) = 2 \<and> (\<forall>d \<in> set (br_inbox s). length (sl_data d) = POCKET_BRIDGE_MAX_FRAME) \<and>
     length (sl_data (br_control_slot s)) = POCKET_BRIDGE_MAX_FRAME"

definition target_ok :: "'w bridge \<Rightarrow> bool" where
  "target_ok s \<longleftrightarrow> (\<forall>i. br_slot s = TO_INBOX i \<longrightarrow> i < length (br_inbox s))"

lemma slot_data_put: "target_ok s \<Longrightarrow> slot_data (put_data d s) = d"
  by (auto simp: slot_data_def put_data_def target_ok_def split: rx_target.split)

lemma put_data_same: "put_data (slot_data s) s = s"
  by (auto simp: slot_data_def put_data_def split: rx_target.split)

lemma put_data_twice: "put_data d (put_data e s) = put_data d s"
proof (cases "br_slot s")
  case (TO_INBOX i)
  then show ?thesis by (cases "i < length (br_inbox s)") (simp_all add: put_data_def list_update_beyond)
qed (simp add: put_data_def)

lemma put_data_update: "put_data d (s\<lparr>br_length := n, br_high := h\<rparr>) = (put_data d s)\<lparr>br_length := n, br_high := h\<rparr>"
  by (simp add: put_data_def split: rx_target.split)

lemma put_data_fields [simp]:
  "br_head (put_data d s) = br_head s" "br_tail (put_data d s) = br_tail s" "br_dropped (put_data d s) = br_dropped s"
  "br_state (put_data d s) = br_state s" "br_length (put_data d s) = br_length s" "br_slot (put_data d s) = br_slot s"
  "br_namespace (put_data d s) = br_namespace s" "br_app (put_data d s) = br_app s" "br_high (put_data d s) = br_high s"
  by (simp_all add: put_data_def split: rx_target.split)

lemma feed_hex_byte:
  assumes s: "br_state s = RX_HIGH" "br_length s < POCKET_BRIDGE_MAX_FRAME"
  shows "foldl rx_feed s (hex_byte b) =
    (put_data ((slot_data s)[br_length s := b]) s)\<lparr>br_length := br_length s + 1, br_high := push_bit 4 (drop_bit 4 b)\<rparr>"
proof -
  have h: "hex_digit (HEX ! unat (drop_bit 4 b)) = Some (drop_bit 4 b)" "HEX ! unat (drop_bit 4 b) \<noteq> WIRE_LF"
    "HEX ! unat (drop_bit 4 b) \<noteq> WIRE_GS" "hex_digit (HEX ! unat (b AND 15)) = Some (b AND 15)"
    "HEX ! unat (b AND 15) \<noteq> WIRE_LF" "HEX ! unat (b AND 15) \<noteq> WIRE_GS"
    using hex_table nibbles(1,2)[of b] by auto
  let ?t = "s\<lparr>br_high := push_bit 4 (drop_bit 4 b), br_state := RX_LOW\<rparr>"
  have "rx_feed s (HEX ! unat (drop_bit 4 b)) = ?t"
    using s h by (simp add: rx_feed_def)
  moreover have "rx_feed ?t (HEX ! unat (b AND 15)) =
      (put_data ((slot_data ?t)[br_length s := b]) ?t)\<lparr>br_length := br_length s + 1, br_state := RX_HIGH\<rparr>"
    using h nibbles(3)[of b] by (simp add: rx_feed_def)
  ultimately show ?thesis using s(1)
    by (simp add: hex_byte_def slot_data_def put_data_def split: rx_target.split)
qed

definition splice :: "bytes \<Rightarrow> nat \<Rightarrow> bytes \<Rightarrow> bytes" where
  "splice d n xs = take n d @ xs @ drop (n + length xs) d"

lemma splice_step: "n + Suc (length xs) \<le> length d \<Longrightarrow> splice (d[n := x]) (Suc n) xs = splice d n (x # xs)"
  by (simp add: splice_def take_Suc_conv_app_nth)

lemma feed_hexes:
  assumes "br_state s = RX_HIGH" "br_length s + length xs \<le> POCKET_BRIDGE_MAX_FRAME" "target_ok s"
    "length (slot_data s) = POCKET_BRIDGE_MAX_FRAME"
  shows "\<exists>h. foldl rx_feed s (concat (map hex_byte xs)) =
    (put_data (splice (slot_data s) (br_length s) xs) s)\<lparr>br_length := br_length s + length xs, br_high := h\<rparr>"
  using assms
proof (induction xs arbitrary: s)
  case Nil
  then show ?case by (auto simp: splice_def put_data_same intro: exI[of _ "br_high s"])
next
  case (Cons x xs)
  let ?d = "(slot_data s)[br_length s := x]"
  let ?t = "(put_data ?d s)\<lparr>br_length := br_length s + 1, br_high := push_bit 4 (drop_bit 4 x)\<rparr>"
  have f: "foldl rx_feed s (hex_byte x) = ?t" using Cons.prems by (intro feed_hex_byte) simp_all
  have t: "target_ok ?t" "slot_data ?t = ?d"
    using Cons.prems(3) slot_data_put[OF Cons.prems(3), of ?d]
    by (auto simp: target_ok_def slot_data_def put_data_def split: rx_target.split)
  then obtain h where "foldl rx_feed ?t (concat (map hex_byte xs)) =
      (put_data (splice ?d (br_length s + 1) xs) ?t)\<lparr>br_length := br_length s + 1 + length xs, br_high := h\<rparr>"
    using Cons.IH[of ?t] Cons.prems by auto
  also have "splice ?d (br_length s + 1) xs = splice (slot_data s) (br_length s) (x # xs)"
    using splice_step[of "br_length s" xs "slot_data s" x] Cons.prems(2,4) by simp
  also have "put_data (splice (slot_data s) (br_length s) (x # xs)) ?t =
      (put_data (splice (slot_data s) (br_length s) (x # xs)) s)\<lparr>br_length := br_length s + 1, br_high := push_bit 4 (drop_bit 4 x)\<rparr>"
    by (simp add: put_data_update put_data_twice)
  finally have "foldl rx_feed ?t (concat (map hex_byte xs)) =
      (put_data (splice (slot_data s) (br_length s) (x # xs)) s)\<lparr>br_length := br_length s + length (x # xs), br_high := h\<rparr>"
    by simp
  then show ?case using f by (intro exI[of _ h]) simp
qed

text \<open>The bodies that the writer is given: a header whose payload length is right.\<close>

definition body_ok :: "bytes \<Rightarrow> bool" where
  "body_ok b \<longleftrightarrow> POCKET_BRIDGE_HEADER \<le> length b \<and> length b \<le> POCKET_BRIDGE_MAX_FRAME - 4 \<and>
     b ! 0 = POCKET_BRIDGE_VERSION \<and>
     POCKET_BRIDGE_HEADER + unat ((ucast (b ! 2) :: u32) OR push_bit 8 (ucast (b ! 3))) = length b"

definition crc_tail :: "bytes \<Rightarrow> bytes" where
  "crc_tail b = (let crc = pocket_wire_crc b in [ucast crc, ucast (drop_bit 8 crc), ucast (drop_bit 16 crc), ucast (drop_bit 24 crc)])"

lemma crc_tail_length [simp]: "length (crc_tail b) = 4"
  by (simp add: crc_tail_def Let_def)

lemma wire_frame_parts: "wire_frame ns b = [WIRE_GS, ns] @ concat (map hex_byte (b @ crc_tail b)) @ [WIRE_LF]"
  by (simp add: wire_frame_def crc_tail_def Let_def)

lemma written_intact:
  assumes b: "body_ok b"
  shows "run_intact (b @ crc_tail b @ ys) (length b + 4) \<and> take (length b) (b @ crc_tail b @ ys) = b"
proof -
  have l: "12 \<le> length b" using b by (simp add: body_ok_def)
  then have "(b @ crc_tail b @ ys) ! k = b ! k" if "k < 12" for k using that by (simp add: nth_append)
  moreover have "pocket_wire_read32 (b @ crc_tail b @ ys) (length b) = pocket_wire_crc b"
    using read_write32[of b "pocket_wire_crc b" ys] by (simp add: crc_tail_def Let_def)
  ultimately show ?thesis using b l by (simp add: run_intact_def body_ok_def Let_def)
qed

lemma feed_gs: "rx_feed s WIRE_GS = s\<lparr>br_state := RX_TYPE\<rparr>"
  by (simp add: rx_feed_def split: rx_state.split)

lemma hex_bytes_plain: "c \<in> set (concat (map hex_byte xs)) \<Longrightarrow> c \<noteq> WIRE_LF \<and> c \<noteq> WIRE_GS"
  using hex_table nibbles by (auto simp: hex_byte_def)

lemma skip_plain: "br_state s = RX_SKIP \<Longrightarrow> \<forall>c \<in> set xs. c \<noteq> WIRE_LF \<and> c \<noteq> WIRE_GS \<Longrightarrow> foldl rx_feed s xs = s"
  by (induction xs) (simp_all add: rx_feed_def)

text \<open>After the two bytes that open a frame, the body goes into the slot and the checks succeed.\<close>

lemma feed_body:
  assumes s: "br_state s = RX_HIGH" "br_length s = 0" "target_ok s" "length (slot_data s) = POCKET_BRIDGE_MAX_FRAME"
    and b: "body_ok b"
  defines "d \<equiv> b @ crc_tail b @ drop (length b + 4) (slot_data s)"
  obtains h where "foldl rx_feed s (concat (map hex_byte (b @ crc_tail b)) @ [WIRE_LF]) =
      (let t = (put_data d s)\<lparr>br_length := length b + 4, br_high := h, br_state := RX_IDLE\<rparr>
       in if br_namespace s = NS_CONTROL then t\<lparr>br_app := app_control_receive b (br_app s)\<rparr>
          else case br_slot s of
            TO_INBOX i \<Rightarrow> t\<lparr>br_inbox := (br_inbox t)[i := (br_inbox t ! i)\<lparr>sl_length := length b + 4\<rparr>], br_head := br_head s + 1\<rparr>
          | TO_CONTROL \<Rightarrow> t\<lparr>br_control_slot := (br_control_slot t)\<lparr>sl_length := length b + 4\<rparr>, br_head := br_head s + 1\<rparr>)"
proof -
  have len: "12 \<le> length b" "length b \<le> 492" using b by (simp_all add: body_ok_def)
  have d: "splice (slot_data s) 0 (b @ crc_tail b) = d" by (simp add: splice_def d_def)
  obtain h where f: "foldl rx_feed s (concat (map hex_byte (b @ crc_tail b))) =
      (put_data d s)\<lparr>br_length := length b + 4, br_high := h\<rparr>"
    using feed_hexes[of s "b @ crc_tail b"] s len d by auto
  have sd: "slot_data ((put_data d s)\<lparr>br_length := n, br_high := h, br_state := x\<rparr>) = d" for n x
    using slot_data_put[OF s(3), of d] by (simp add: slot_data_def split: rx_target.splits)
  have "rx_feed ((put_data d s)\<lparr>br_length := length b + 4, br_high := h\<rparr>) WIRE_LF =
      rx_finish ((put_data d s)\<lparr>br_length := length b + 4, br_high := h\<rparr>)"
    using s(1) by (simp add: rx_feed_def)
  also have "\<dots> = (let t = (put_data d s)\<lparr>br_length := length b + 4, br_high := h, br_state := RX_IDLE\<rparr>
       in if br_namespace s = NS_CONTROL then t\<lparr>br_app := app_control_receive b (br_app s)\<rparr>
          else case br_slot s of
            TO_INBOX i \<Rightarrow> t\<lparr>br_inbox := (br_inbox t)[i := (br_inbox t ! i)\<lparr>sl_length := length b + 4\<rparr>], br_head := br_head s + 1\<rparr>
          | TO_CONTROL \<Rightarrow> t\<lparr>br_control_slot := (br_control_slot t)\<lparr>sl_length := length b + 4\<rparr>, br_head := br_head s + 1\<rparr>)"
    using written_intact[OF b, of "drop (length b + 4) (slot_data s)"] s(1) len
    by (simp add: rx_finish_def Let_def sd flip: d_def split: rx_target.split)
  finally show thesis using f that by simp
qed

lemma control_frame:
  assumes s: "slots_ok s" and b: "body_ok b"
  shows "let t = foldl rx_feed s (wire_frame NS_CONTROL b) in
    br_state t = RX_IDLE \<and> br_app t = app_control_receive b (br_app s) \<and> br_inbox t = br_inbox s \<and>
    br_head t = br_head s \<and> br_tail t = br_tail s \<and> br_dropped t = br_dropped s"
proof -
  let ?s = "s\<lparr>br_state := RX_HIGH, br_namespace := NS_CONTROL, br_slot := TO_CONTROL, br_length := 0\<rparr>"
  have "foldl rx_feed s [WIRE_GS, NS_CONTROL] = ?s" by (simp add: feed_gs) (simp add: rx_feed_def)
  moreover have "target_ok ?s" "length (slot_data ?s) = POCKET_BRIDGE_MAX_FRAME"
    using s by (simp_all add: target_ok_def slot_data_def slots_ok_def)
  from feed_body[OF _ _ this b] obtain h where
    "foldl rx_feed ?s (concat (map hex_byte (b @ crc_tail b)) @ [WIRE_LF]) =
      (put_data (b @ crc_tail b @ drop (length b + 4) (slot_data ?s)) ?s)
        \<lparr>br_length := length b + 4, br_high := h, br_state := RX_IDLE, br_app := app_control_receive b (br_app s)\<rparr>"
    by (auto simp: Let_def)
  ultimately show ?thesis by (simp add: wire_frame_parts Let_def put_data_def)
qed

abbreviation ring_pos :: "u32 \<Rightarrow> nat" where "ring_pos x \<equiv> unat (x AND 1)"

lemma ring_pos_less: "ring_pos x < 2"
proof -
  have "x AND 1 \<le> 1" by (rule word_and_le1)
  then show ?thesis by (simp add: word_le_nat_alt)
qed

lemma ring_pos_inc: "ring_pos (x + 1) = 1 - ring_pos x"
proof (cases "even x")
  case True
  then show ?thesis by (simp add: and_one_eq even_iff_mod_2_eq_zero[symmetric] mod_2_eq_odd)
next
  case False
  then show ?thesis by (simp add: and_one_eq mod_2_eq_odd)
qed

lemma guest_frame:
  assumes s: "slots_ok s" and b: "body_ok b"
  shows "let t = foldl rx_feed s (wire_frame NS_GUEST b) in
    br_state t = RX_IDLE \<and> br_app t = br_app s \<and> br_tail t = br_tail s \<and>
    (if br_head s - br_tail s < 2 then
       br_head t = br_head s + 1 \<and> br_dropped t = br_dropped s \<and>
       sl_length (br_inbox t ! ring_pos (br_head s)) = length b + 4 \<and>
       take (length b + 4) (sl_data (br_inbox t ! ring_pos (br_head s))) = b @ crc_tail b \<and>
       (\<forall>k. k \<noteq> ring_pos (br_head s) \<longrightarrow> br_inbox t ! k = br_inbox s ! k)
     else br_head t = br_head s \<and> br_dropped t = br_dropped s + 1 \<and> br_inbox t = br_inbox s)"
proof (cases "br_head s - br_tail s < 2")
  case False
  let ?s = "s\<lparr>br_state := RX_SKIP, br_namespace := NS_GUEST, br_dropped := br_dropped s + 1\<rparr>"
  have "foldl rx_feed s [WIRE_GS, NS_GUEST] = ?s" using False by (simp add: feed_gs) (simp add: rx_feed_def not_less)
  moreover have "foldl rx_feed ?s (concat (map hex_byte (b @ crc_tail b))) = ?s"
    using hex_bytes_plain[of _ "b @ crc_tail b"] by (intro skip_plain) auto
  ultimately have "foldl rx_feed s (wire_frame NS_GUEST b) = rx_feed ?s WIRE_LF" by (simp add: wire_frame_parts)
  with False show ?thesis by (simp add: rx_feed_def Let_def)
next
  case True
  let ?i = "ring_pos (br_head s)"
  let ?s = "s\<lparr>br_state := RX_HIGH, br_namespace := NS_GUEST, br_slot := TO_INBOX ?i, br_length := 0\<rparr>"
  have "foldl rx_feed s [WIRE_GS, NS_GUEST] = ?s" using True by (simp add: feed_gs) (simp add: rx_feed_def not_less[symmetric])
  moreover have i: "?i < length (br_inbox s)" using s ring_pos_less by (simp add: slots_ok_def)
  then have t: "target_ok ?s" "length (slot_data ?s) = POCKET_BRIDGE_MAX_FRAME"
    using s by (simp_all add: target_ok_def slot_data_def slots_ok_def)
  let ?d = "b @ crc_tail b @ drop (length b + 4) (slot_data ?s)"
  let ?t = "put_data ?d ?s"
  from feed_body[OF _ _ t b] obtain h where
    "foldl rx_feed ?s (concat (map hex_byte (b @ crc_tail b)) @ [WIRE_LF]) =
      ?t\<lparr>br_length := length b + 4, br_high := h, br_state := RX_IDLE,
         br_inbox := (br_inbox ?t)[?i := (br_inbox ?t ! ?i)\<lparr>sl_length := length b + 4\<rparr>], br_head := br_head s + 1\<rparr>"
    by (auto simp: Let_def)
  ultimately show ?thesis using True i
    by (simp add: wire_frame_parts Let_def put_data_def nth_list_update)
qed

section \<open>The ring under two tasks\<close>

text \<open>The slots that wait for the JS task.\<close>

definition waits :: "'w bridge \<Rightarrow> nat \<Rightarrow> bool" where
  "waits s k \<longleftrightarrow> br_head s - br_tail s = 2 \<and> k < 2 \<or> br_head s - br_tail s = 1 \<and> k = ring_pos (br_tail s)"

definition slot_intact :: "bridge_slot \<Rightarrow> bool" where
  "slot_intact d \<longleftrightarrow> POCKET_BRIDGE_HEADER + 4 \<le> sl_length d \<and> sl_length d \<le> POCKET_BRIDGE_MAX_FRAME \<and>
     run_intact (sl_data d) (sl_length d)"

definition rx_busy :: "'w bridge \<Rightarrow> bool" where
  "rx_busy s \<longleftrightarrow> br_state s = RX_HIGH \<or> br_state s = RX_LOW"

definition bridge_ok :: "'w bridge \<Rightarrow> bool" where
  "bridge_ok s \<longleftrightarrow> slots_ok s \<and> br_head s - br_tail s \<le> 2 \<and> (\<forall>k. waits s k \<longrightarrow> slot_intact (br_inbox s ! k)) \<and>
     ac_ok (br_app s) \<and>
     (rx_busy s \<longrightarrow> br_length s \<le> POCKET_BRIDGE_MAX_FRAME \<and> (br_state s = RX_LOW \<longrightarrow> br_length s < POCKET_BRIDGE_MAX_FRAME) \<and>
       (br_namespace s = NS_CONTROL \<and> br_slot s = TO_CONTROL \<or>
        br_namespace s = NS_GUEST \<and> br_slot s = TO_INBOX (ring_pos (br_head s)) \<and> br_head s - br_tail s < 2))"

lemma u32_le2: "(x :: u32) \<le> 2 \<Longrightarrow> x = 0 \<or> x = 1 \<or> x = 2"
proof -
  assume "x \<le> 2"
  then have "unat x \<le> 2" by (simp add: word_le_nat_alt)
  then have "unat x = 0 \<or> unat x = 1 \<or> unat x = 2" by arith
  then show ?thesis by (auto simp: word_unat_eq_iff)
qed

lemma u32_less2: "(x :: u32) < 2 \<Longrightarrow> x = 0 \<or> x = 1"
proof -
  assume "x < 2"
  then have "x = 0 \<or> x = 1 \<or> x = 2" by (intro u32_le2) simp
  with \<open>x < 2\<close> show ?thesis by auto
qed

lemma head_free: "br_head s - br_tail s < 2 \<Longrightarrow> \<not> waits s (ring_pos (br_head s))"
proof
  assume l: "br_head s - br_tail s < 2" and w: "waits s (ring_pos (br_head s))"
  from u32_less2[OF l] w have "br_head s - br_tail s = 1" "ring_pos (br_head s) = ring_pos (br_tail s)"
    by (auto simp: waits_def)
  moreover from this(1) have "br_head s = br_tail s + 1" by (simp add: diff_eq_eq add.commute)
  ultimately have "ring_pos (br_tail s + 1) = ring_pos (br_tail s)" by simp
  then show False using ring_pos_inc[of "br_tail s"] ring_pos_less[of "br_tail s"] by arith
qed

lemma waits_cong: "br_head t = br_head s \<Longrightarrow> br_tail t = br_tail s \<Longrightarrow> waits t k = waits s k"
  by (simp add: waits_def)

lemma idle_ok_bridge: "bridge_ok s \<Longrightarrow> x \<notin> {RX_HIGH, RX_LOW} \<Longrightarrow> bridge_ok (s\<lparr>br_state := x\<rparr>)"
  by (simp add: bridge_ok_def slots_ok_def waits_def rx_busy_def)

lemma count_drop_ok: "bridge_ok (s\<lparr>br_state := RX_IDLE\<rparr>) \<Longrightarrow> bridge_ok (count_drop (s\<lparr>br_state := RX_IDLE\<rparr>))"
  by (simp add: bridge_ok_def slots_ok_def waits_def rx_busy_def count_drop_def)

lemma slots_put:
  assumes "slots_ok s" "length d = POCKET_BRIDGE_MAX_FRAME" "target_ok s"
  shows "slots_ok (put_data d s)"
  using assms set_update_in[of _ "br_inbox s"]
  by (fastforce simp: slots_ok_def put_data_def target_ok_def split: rx_target.split)

lemma busy_target: "bridge_ok s \<Longrightarrow> rx_busy s \<Longrightarrow> target_ok s \<and> length (slot_data s) = POCKET_BRIDGE_MAX_FRAME"
  using ring_pos_less[of "br_head s"] by (auto simp: bridge_ok_def target_ok_def slots_ok_def slot_data_def)

lemma rx_finish_ok:
  assumes ok: "bridge_ok s" and busy: "rx_busy s"
  shows "bridge_ok (rx_finish s)"
proof -
  let ?s = "s\<lparr>br_state := RX_IDLE\<rparr>"
  have i: "bridge_ok ?s" using ok by (rule idle_ok_bridge) simp
  have sd: "slot_data ?s = slot_data s" by (simp add: slot_data_def split: rx_target.split)
  show ?thesis
  proof (cases "br_state s \<noteq> RX_HIGH \<or> br_length s < POCKET_BRIDGE_HEADER + 4 \<or> \<not> run_intact (slot_data s) (br_length s)")
    case True
    then have "rx_finish s = count_drop ?s" by (auto simp: rx_finish_def Let_def sd)
    with count_drop_ok[OF i] show ?thesis by simp
  next
    case whole: False
    show ?thesis
    proof (cases "br_namespace s = NS_CONTROL")
      case True
      with whole have f: "rx_finish s = ?s\<lparr>br_app := app_control_receive (take (br_length s - 4) (slot_data s)) (br_app s)\<rparr>"
        by (simp add: rx_finish_def Let_def sd)
      have "ac_ok (ac_step h (br_app s) (AcReceive b))" for h b
        using ok by (intro ac_step_ok) (simp add: bridge_ok_def)
      with i show ?thesis unfolding f by (simp add: bridge_ok_def slots_ok_def waits_def rx_busy_def)
    next
      case False
      let ?k = "ring_pos (br_head s)"
      have b: "br_slot s = TO_INBOX ?k" "br_head s - br_tail s < 2" "br_length s \<le> 496"
        using ok busy False by (auto simp: bridge_ok_def)
      let ?d = "(br_inbox s ! ?k)\<lparr>sl_length := br_length s\<rparr>"
      have f: "rx_finish s = ?s\<lparr>br_inbox := (br_inbox s)[?k := ?d], br_head := br_head s + 1\<rparr>"
        using whole False b by (simp add: rx_finish_def Let_def sd)
      have k: "?k < length (br_inbox s)" using ok ring_pos_less by (simp add: bridge_ok_def slots_ok_def)
      have "slot_intact ?d" using whole b by (simp add: slot_intact_def slot_data_def)
      moreover have "waits (rx_finish s) j \<Longrightarrow> j \<noteq> ?k \<Longrightarrow> waits s j" for j
      proof -
        assume w: "waits (rx_finish s) j" and j: "j \<noteq> ?k"
        have h: "br_head (rx_finish s) = br_head s + 1" "br_tail (rx_finish s) = br_tail s" by (simp_all add: f)
        from u32_less2[OF b(2)] show "waits s j"
        proof
          assume d: "br_head s - br_tail s = 0"
          then show ?thesis using w j by (simp add: waits_def h algebra_simps)
        next
          assume d: "br_head s - br_tail s = 1"
          then have e: "br_head s = br_tail s + 1" by (simp add: diff_eq_eq add.commute)
          have "j < 2" using w d by (auto simp: waits_def h algebra_simps ring_pos_less)
          then have "j = ring_pos (br_tail s)"
            using j ring_pos_inc[of "br_tail s"] ring_pos_less[of "br_tail s"] unfolding e by auto
          with d show ?thesis by (simp add: waits_def)
        qed
      qed
      ultimately have "waits (rx_finish s) j \<Longrightarrow> slot_intact ((br_inbox s)[?k := ?d] ! j)" for j
        using ok k by (cases "j = ?k") (auto simp: bridge_ok_def)
      moreover have "br_head s + 1 - br_tail s \<le> 2"
        using u32_less2[OF b(2)] by (auto simp: diff_eq_eq add.commute)
      moreover have "slots_ok (rx_finish s)"
      proof -
        have l: "\<forall>d \<in> set (br_inbox s). length (sl_data d) = POCKET_BRIDGE_MAX_FRAME"
          using ok by (simp add: bridge_ok_def slots_ok_def)
        then have "length (sl_data (br_inbox s ! ?k)) = POCKET_BRIDGE_MAX_FRAME" using nth_mem[OF k] by blast
        then have "\<forall>d \<in> set ((br_inbox s)[?k := ?d]). length (sl_data d) = POCKET_BRIDGE_MAX_FRAME"
          using l by (auto dest!: set_update_in)
        then show ?thesis using ok by (simp add: bridge_ok_def slots_ok_def f)
      qed
      ultimately show ?thesis using ok unfolding bridge_ok_def by (simp add: f rx_busy_def)
    qed
  qed
qed

lemma put_data_ok:
  assumes ok: "bridge_ok s" and busy: "rx_busy s" and l: "length d = POCKET_BRIDGE_MAX_FRAME" "n \<le> POCKET_BRIDGE_MAX_FRAME"
  shows "bridge_ok ((put_data d s)\<lparr>br_length := n, br_state := RX_HIGH\<rparr>)"
proof -
  let ?t = "(put_data d s)\<lparr>br_length := n, br_state := RX_HIGH\<rparr>"
  have "slots_ok (put_data d s)"
    using slots_put[of s d] busy_target[OF ok busy] ok l(1) by (simp add: bridge_ok_def)
  then have "slots_ok ?t" by (simp add: slots_ok_def)
  moreover have "slot_intact (br_inbox ?t ! k)" if w: "waits ?t k" for k
  proof -
    have ws: "waits s k" using w by (simp add: waits_def)
    have "br_inbox ?t ! k = br_inbox s ! k"
    proof (cases "br_slot s")
      case (TO_INBOX i)
      with ok busy have "i = ring_pos (br_head s)" "br_head s - br_tail s < 2" by (auto simp: bridge_ok_def)
      with ws head_free have "k \<noteq> i" by blast
      with TO_INBOX show ?thesis by (simp add: put_data_def)
    qed (simp add: put_data_def)
    with ws ok show ?thesis by (simp add: bridge_ok_def)
  qed
  ultimately show ?thesis using ok busy l(2) by (auto simp: bridge_ok_def rx_busy_def)
qed

lemma rx_feed_ok: "bridge_ok s \<Longrightarrow> bridge_ok (rx_feed s c)"
proof (cases "br_state s = RX_HIGH \<or> br_state s = RX_LOW")
  case True
  assume ok: "bridge_ok s"
  have busy: "rx_busy s" using True by (simp add: rx_busy_def)
  have len: "length (slot_data s) = POCKET_BRIDGE_MAX_FRAME" using busy_target[OF ok busy] by simp
  have skip: "bridge_ok (s\<lparr>br_state := RX_SKIP\<rparr>)" "bridge_ok (s\<lparr>br_state := RX_TYPE\<rparr>)"
    using ok by (auto intro: idle_ok_bridge)
  have high: "bridge_ok (s\<lparr>br_high := v, br_state := RX_LOW\<rparr>)" if "br_length s < POCKET_BRIDGE_MAX_FRAME" for v
    using ok busy that by (auto simp: bridge_ok_def slots_ok_def waits_def rx_busy_def)
  have low: "bridge_ok ((put_data ((slot_data s)[br_length s := v]) s)\<lparr>br_length := br_length s + 1, br_state := RX_HIGH\<rparr>)"
    if "br_state s = RX_LOW" for v
    using ok busy that len by (intro put_data_ok) (auto simp: bridge_ok_def)
  show ?thesis
    using True skip high low rx_finish_ok[OF ok busy]
    by (auto simp: rx_feed_def split: option.split)
next
  case False
  assume ok: "bridge_ok s"
  have stay: "bridge_ok (s\<lparr>br_state := x\<rparr>)" if "x \<notin> {RX_HIGH, RX_LOW}" for x using ok that by (rule idle_ok_bridge)
  show ?thesis
  proof (cases "br_state s")
    case RX_TYPE
    have "bridge_ok (s\<lparr>br_namespace := c, br_dropped := d, br_state := RX_SKIP\<rparr>)" for d
      using ok by (simp add: bridge_ok_def slots_ok_def waits_def rx_busy_def)
    moreover have "bridge_ok (s\<lparr>br_namespace := c, br_slot := (if c = NS_CONTROL then TO_CONTROL else TO_INBOX (ring_pos (br_head s))),
        br_length := 0, br_state := RX_HIGH\<rparr>)" if "c = NS_CONTROL \<or> c = NS_GUEST \<and> br_head s - br_tail s < 2"
      using ok that by (auto simp: bridge_ok_def slots_ok_def waits_def rx_busy_def)
    ultimately show ?thesis using RX_TYPE ok stay[of RX_SKIP]
      by (auto simp: rx_feed_def Let_def not_le)
  qed (use False ok stay in \<open>auto simp: rx_feed_def\<close>)
qed

lemma bridge_take_ok: "bridge_ok s \<Longrightarrow> bridge_ok (snd (bridge_take s))"
proof (cases "br_tail s = br_head s")
  case False
  assume ok: "bridge_ok s"
  let ?t = "s\<lparr>br_tail := br_tail s + 1\<rparr>"
  have n: "br_head s - br_tail s = 1 \<or> br_head s - br_tail s = 2"
    using u32_le2[of "br_head s - br_tail s"] ok False by (auto simp: bridge_ok_def)
  then have d: "br_head s - br_tail s = 1 \<and> br_head s - (br_tail s + 1) = 0 \<or>
      br_head s - br_tail s = 2 \<and> br_head s - (br_tail s + 1) = 1"
    by (auto simp: diff_diff_eq[symmetric])
  have le: "(1 :: u32) \<le> 2" "(1 :: u32) < 2" "(0 :: u32) < 2" by (simp_all add: word_le_nat_alt word_less_nat_alt)
  from d have "waits ?t k \<Longrightarrow> waits s k" for k
    using ring_pos_less[of "br_tail s + 1"] by (auto simp: waits_def)
  moreover have "br_head s - (br_tail s + 1) \<le> 2" "br_head s - br_tail s < 2 \<Longrightarrow> br_head s - (br_tail s + 1) < 2"
    using d le word_zero_le by metis+
  ultimately have "bridge_ok ?t" using ok by (auto simp: bridge_ok_def slots_ok_def rx_busy_def)
  then show ?thesis using False by (simp add: bridge_take_def Let_def)
qed (simp add: bridge_take_def)

text \<open>Bytes from the driver, the JS task taking a frame, starting over and waking, the native control's
owner, in any order.\<close>

datatype bridge_event = BrByte u8 bytes | BrTake | BrReset | BrResume | BrOwner ac_event

fun bridge_step :: "'w app_control_hooks \<Rightarrow> 'w bridge \<Rightarrow> bridge_event \<Rightarrow> 'w bridge" where
  "bridge_step h s (BrByte c ready) = snd (snd (pocket_bridge_usb c ready s))"
| "bridge_step h s BrTake = snd (bridge_take s)"
| "bridge_step h s BrReset = bridge_inbox_reset s"
| "bridge_step h s BrResume = pocket_bridge_resume s"
| "bridge_step h s (BrOwner e) = s\<lparr>br_app := ac_step h (br_app s) e\<rparr>"

definition bridge_zero :: "u64 \<Rightarrow> 'w \<Rightarrow> 'w bridge" where
  "bridge_zero boot w =
     (let slot = \<lparr>sl_length = 0, sl_data = replicate POCKET_BRIDGE_MAX_FRAME 0\<rparr>
      in \<lparr>br_inbox = [slot, slot], br_head = 0, br_tail = 0, br_dropped = 0, br_state = RX_IDLE, br_high = 0,
          br_length = 0, br_slot = TO_CONTROL, br_control_slot = slot, br_namespace = 0,
          br_app = app_control_init boot w\<rparr>)"

lemma usb_drain_ok: "bridge_ok s \<Longrightarrow> bridge_ok (snd (usb_drain n ready s))"
  by (induction n ready s rule: usb_drain.induct) (auto simp: rx_feed_ok split: list.split)

lemma bridge_step_ok: "bridge_ok s \<Longrightarrow> bridge_ok (bridge_step h s e)"
proof (cases e)
  case (BrByte c ready)
  assume "bridge_ok s"
  then have "bridge_ok (snd (usb_drain POCKET_BRIDGE_MAX_WIRE ready (rx_feed s c)))" by (intro usb_drain_ok rx_feed_ok)
  with \<open>bridge_ok s\<close> BrByte show ?thesis by (simp add: pocket_bridge_usb_def split: prod.split)
next
  case BrTake
  then show "bridge_ok s \<Longrightarrow> ?thesis" by (simp add: bridge_take_ok)
next
  case (BrOwner a)
  then show "bridge_ok s \<Longrightarrow> ?thesis" by (simp add: bridge_ok_def slots_ok_def waits_def rx_busy_def ac_step_ok)
qed (auto simp: bridge_ok_def slots_ok_def waits_def rx_busy_def bridge_inbox_reset_def pocket_bridge_resume_def)

lemma bridge_zero_ok: "bridge_ok (bridge_zero boot w)"
  by (auto simp: bridge_zero_def bridge_ok_def slots_ok_def waits_def rx_busy_def ac_init_ok Let_def)

interpretation bridge_machine: started_machine "bridge_step h" bridge_ok "bridge_zero boot w" for h boot w
  by unfold_locales (rule bridge_step_ok, assumption, rule bridge_zero_ok)

section \<open>Properties\<close>

text \<open>Property C35: whatever bytes arrive and however the JS task, resets and the owner of the native control
  interleave with them, the two-slot ring stays a ring: at most two frames wait, a frame that waits is whole
  and its checksum right, the parser never writes into a slot that waits and never past the 496 bytes of a
  slot, and the native control that the frames reach keeps its invariant.\<close>

theorem bridge_reachable_inv: "bridge_ok (foldl (bridge_step h) (bridge_zero boot w) es)"
  by (rule bridge_machine.reachable_inv)

text \<open>Property C7: what the writer writes the parser reads, from wherever it stands. A frame of a well-formed body
  that the writer puts on the wire, fed byte by byte to a parser in any state (in the middle of another
  frame, skipping, or idle), ends idle: in namespace C the native control receives exactly the body; in
  namespace B with room in the ring the next slot holds exactly the body and its checksum and nothing else
  of the ring changes, and without room the frame is counted as dropped and nothing else happens.\<close>

theorem bridge_frame_roundtrip:
  assumes "slots_ok s" "body_ok b"
  shows "(let t = foldl rx_feed s (wire_frame NS_CONTROL b) in
      br_state t = RX_IDLE \<and> br_app t = app_control_receive b (br_app s) \<and> br_inbox t = br_inbox s \<and>
      br_head t = br_head s \<and> br_tail t = br_tail s \<and> br_dropped t = br_dropped s) \<and>
    (let t = foldl rx_feed s (wire_frame NS_GUEST b) in
      br_state t = RX_IDLE \<and> br_app t = br_app s \<and> br_tail t = br_tail s \<and>
      (if br_head s - br_tail s < 2 then
         br_head t = br_head s + 1 \<and> br_dropped t = br_dropped s \<and>
         sl_length (br_inbox t ! ring_pos (br_head s)) = length b + 4 \<and>
         take (length b + 4) (sl_data (br_inbox t ! ring_pos (br_head s))) = b @ crc_tail b \<and>
         (\<forall>k. k \<noteq> ring_pos (br_head s) \<longrightarrow> br_inbox t ! k = br_inbox s ! k)
       else br_head t = br_head s \<and> br_dropped t = br_dropped s + 1 \<and> br_inbox t = br_inbox s))"
  using control_frame[OF assms] guest_frame[OF assms] by (rule conjI)

lemma test_frame_body: "body_ok (test_frame AC_STOP 1 1 0)"
  by code_simp

theorem bridge_frame_roundtrip_witness:
  "br_app (foldl rx_feed (bridge_zero 42 (0 :: nat)) (wire_frame NS_CONTROL (test_frame AC_STOP 1 1 0))) =
   app_control_receive (test_frame AC_STOP 1 1 0) (app_control_init 42 0)"
proof -
  have "slots_ok (bridge_zero 42 (0 :: nat))" using bridge_zero_ok[of 42 "0 :: nat"] by (simp add: bridge_ok_def)
  from bridge_frame_roundtrip[OF this test_frame_body] show ?thesis by (simp add: Let_def bridge_zero_def)
qed

end
