(* ===== verification/NetService.thy ===== *)
theory NetService
  imports Prelude
begin

text \<open>
  The reference-counted Wi-Fi link for native holders (\<open>main/pocket/net_service.c\<close>,
  \<open>net_service.h\<close>).  The link itself (\<open>wifi_time.c\<close>, a task over the Wi-Fi driver) is reached
  through four calls, which are a parameter \<open>'w link_ops\<close> acting on a world \<open>'w\<close>: who owns the
  link, its state, starting it and asking for it back.  Every operation holds the module's mutex for
  its whole length, so it is one step.  The codes of \<open>esp_err_t\<close> are those of ESP-IDF.
\<close>

type_synonym esp_err = int

abbreviation ESP_OK :: esp_err where "ESP_OK \<equiv> 0"
abbreviation ESP_ERR_NO_MEM :: esp_err where "ESP_ERR_NO_MEM \<equiv> 0x101"
abbreviation ESP_ERR_INVALID_ARG :: esp_err where "ESP_ERR_INVALID_ARG \<equiv> 0x102"
abbreviation ESP_ERR_INVALID_STATE :: esp_err where "ESP_ERR_INVALID_STATE \<equiv> 0x103"
abbreviation ESP_ERR_TIMEOUT :: esp_err where "ESP_ERR_TIMEOUT \<equiv> 0x107"

section \<open>Data\<close>

datatype wifi_time_link = LINK_DOWN | LINK_CONNECTING | LINK_UP | LINK_FAILED

text \<open>The owner is 0 when there is no link.\<close>

datatype wifi_time_link_owner = LINK_NOBODY | LINK_APP | LINK_SERVICE

datatype net_service_state = NET_OFF | NET_CONNECTING | NET_UP | NET_FAILED

record 'w link_ops =
  lk_owner :: "'w \<Rightarrow> wifi_time_link_owner"
  lk_state :: "'w \<Rightarrow> wifi_time_link"
  lk_start :: "wifi_time_link_owner \<Rightarrow> 'w \<Rightarrow> esp_err \<times> 'w"
  lk_stop :: "wifi_time_link_owner \<Rightarrow> 'w \<Rightarrow> 'w"

abbreviation NET_SERVICE_REASONS :: nat where "NET_SERVICE_REASONS \<equiv> 4"
abbreviation NET_SERVICE_LISTENERS :: nat where "NET_SERVICE_LISTENERS \<equiv> 4"

record hold =
  hd_name :: "bytes option"
  hd_count :: u32

record net_service =
  ns_reasons :: "hold list"
  ns_total :: u32

definition net_service_zero :: net_service where
  "net_service_zero = \<lparr>ns_reasons = replicate NET_SERVICE_REASONS \<lparr>hd_name = None, hd_count = 0\<rparr>, ns_total = 0\<rparr>"

section \<open>Operations\<close>

definition find_hold :: "net_service \<Rightarrow> bytes \<Rightarrow> nat option" where
  "find_hold s reason = first_slot (\<lambda>r. hd_name r = Some reason) (ns_reasons s)"

definition put_hold :: "nat \<Rightarrow> hold \<Rightarrow> net_service \<Rightarrow> net_service" where
  "put_hold i r s = s\<lparr>ns_reasons := (ns_reasons s)[i := r]\<rparr>"

text \<open>The place of a reason: its own, or the first free one.\<close>

definition hold_place :: "net_service \<Rightarrow> bytes \<Rightarrow> nat option" where
  "hold_place s reason =
     (case find_hold s reason of
        Some i \<Rightarrow> Some i
      | None \<Rightarrow> first_slot (\<lambda>r. hd_name r = None) (ns_reasons s))"

definition count_hold :: "nat \<Rightarrow> bytes \<Rightarrow> net_service \<Rightarrow> net_service" where
  "count_hold i reason s =
     (let r = ns_reasons s ! i
      in (put_hold i \<lparr>hd_name = (if hd_name r = None then Some reason else hd_name r), hd_count = hd_count r + 1\<rparr> s)
           \<lparr>ns_total := ns_total s + 1\<rparr>)"

definition net_service_acquire ::
    "'w link_ops \<Rightarrow> bytes option \<Rightarrow> net_service \<Rightarrow> 'w \<Rightarrow> esp_err \<times> net_service \<times> 'w" where
  "net_service_acquire lk reason s w =
     (case reason of
        None \<Rightarrow> (ESP_ERR_INVALID_ARG, s, w)
      | Some name \<Rightarrow>
          if name = [] then (ESP_ERR_INVALID_ARG, s, w)
          else case hold_place s name of
            None \<Rightarrow> (ESP_ERR_NO_MEM, s, w)
          | Some i \<Rightarrow>
              if lk_owner lk w \<noteq> LINK_SERVICE then
                (let (err, w) = lk_start lk LINK_SERVICE w
                 in if err \<noteq> ESP_OK then (err, s, w) else (ESP_OK, count_hold i name s, w))
              else if ns_total s = 0 then (ESP_ERR_INVALID_STATE, s, w)
              else (ESP_OK, count_hold i name s, w))"

definition net_service_release ::
    "'w link_ops \<Rightarrow> bytes option \<Rightarrow> net_service \<Rightarrow> 'w \<Rightarrow> esp_err \<times> net_service \<times> 'w" where
  "net_service_release lk reason s w =
     (case reason of
        None \<Rightarrow> (ESP_ERR_INVALID_ARG, s, w)
      | Some name \<Rightarrow>
          if name = [] then (ESP_ERR_INVALID_ARG, s, w)
          else case find_hold s name of
            None \<Rightarrow> (ESP_ERR_INVALID_STATE, s, w)
          | Some i \<Rightarrow>
              if hd_count (ns_reasons s ! i) = 0 then (ESP_ERR_INVALID_STATE, s, w)
              else
                (let n = hd_count (ns_reasons s ! i) - 1;
                     s = put_hold i \<lparr>hd_name = (if n = 0 then None else hd_name (ns_reasons s ! i)), hd_count = n\<rparr> s;
                     s = s\<lparr>ns_total := ns_total s - 1\<rparr>;
                     w = (if ns_total s = 0 then lk_stop lk LINK_SERVICE w else w)
                 in (ESP_OK, s, w)))"

definition net_service_holders :: "net_service \<Rightarrow> u32" where
  "net_service_holders s = ns_total s"

definition net_service_state_of :: "'w link_ops \<Rightarrow> net_service \<Rightarrow> 'w \<Rightarrow> net_service_state" where
  "net_service_state_of lk s w =
     (if ns_total s = 0 then NET_OFF
      else if lk_owner lk w \<noteq> LINK_SERVICE then NET_FAILED
      else case lk_state lk w of
        LINK_CONNECTING \<Rightarrow> NET_CONNECTING
      | LINK_UP \<Rightarrow> NET_UP
      | _ \<Rightarrow> NET_FAILED)"

fun net_service_state_name :: "net_service_state \<Rightarrow> bytes" where
  "net_service_state_name NET_OFF = ascii ''off''"
| "net_service_state_name NET_CONNECTING = ascii ''connecting''"
| "net_service_state_name NET_UP = ascii ''up''"
| "net_service_state_name NET_FAILED = ascii ''failed''"

section \<open>Listeners\<close>

text \<open>A listener is a function pointer and its argument; what a call does, to the table too, is the
parameter \<open>call\<close>.  The pump reads the table entry by entry while the calls run.\<close>

record ('f, 'u) listeners =
  li_table :: "('f option \<times> 'u) list"
  li_reported :: net_service_state

definition net_service_listen :: "'f option \<Rightarrow> 'u \<Rightarrow> ('f, 'u) listeners \<Rightarrow> bool \<times> ('f, 'u) listeners" where
  "net_service_listen fn user l =
     (if fn = None then (False, l)
      else case first_slot (\<lambda>e. fst e = None) (li_table l) of
        Some i \<Rightarrow> (True, l\<lparr>li_table := (li_table l)[i := (fn, user)]\<rparr>)
      | None \<Rightarrow> (False, l))"

definition net_service_unlisten :: "'f option \<Rightarrow> 'u \<Rightarrow> ('f, 'u) listeners \<Rightarrow> ('f, 'u) listeners" where
  "net_service_unlisten fn user l =
     l\<lparr>li_table := map (\<lambda>e. if fst e = fn \<and> snd e = user then (None, snd e) else e) (li_table l)\<rparr>"

fun pump_listeners :: "('f \<Rightarrow> net_service_state \<Rightarrow> 'u \<Rightarrow> ('f, 'u) listeners \<times> 'w \<Rightarrow> ('f, 'u) listeners \<times> 'w) \<Rightarrow>
    net_service_state \<Rightarrow> nat list \<Rightarrow> ('f, 'u) listeners \<times> 'w \<Rightarrow> ('f, 'u) listeners \<times> 'w" where
  "pump_listeners call now [] lw = lw"
| "pump_listeners call now (i # is) lw =
     (case fst (li_table (fst lw) ! i) of
        None \<Rightarrow> pump_listeners call now is lw
      | Some f \<Rightarrow> pump_listeners call now is (call f now (snd (li_table (fst lw) ! i)) lw))"

definition net_service_pump :: "('f \<Rightarrow> net_service_state \<Rightarrow> 'u \<Rightarrow> ('f, 'u) listeners \<times> 'w \<Rightarrow> ('f, 'u) listeners \<times> 'w) \<Rightarrow>
    'w link_ops \<Rightarrow> net_service \<Rightarrow> ('f, 'u) listeners \<times> 'w \<Rightarrow> ('f, 'u) listeners \<times> 'w" where
  "net_service_pump call lk s lw =
     (let now = net_service_state_of lk s (snd lw)
      in if now = li_reported (fst lw) then lw
         else pump_listeners call now [0..<NET_SERVICE_LISTENERS] ((fst lw)\<lparr>li_reported := now\<rparr>, snd lw))"

section \<open>The holds as a bag\<close>

text \<open>What the table means: the bag of the names that hold the link, one copy for every hold.\<close>

definition hold_bag :: "hold \<Rightarrow> bytes multiset" where
  "hold_bag r = replicate_mset (unat (hd_count r)) (the (hd_name r))"

definition ns_bag :: "net_service \<Rightarrow> bytes multiset" where
  "ns_bag s = sum_list (map hold_bag (ns_reasons s))"

definition ns_ok :: "net_service \<Rightarrow> bool" where
  "ns_ok s \<longleftrightarrow> length (ns_reasons s) = NET_SERVICE_REASONS \<and>
     (\<forall>r \<in> set (ns_reasons s). hd_name r = None \<longleftrightarrow> hd_count r = 0) \<and>
     unique_by (\<lambda>r. hd_name r \<noteq> None) hd_name (ns_reasons s) \<and>
     unat (ns_total s) = size (ns_bag s)"

lemma sum_list_map_update:
  "i < length xs \<Longrightarrow> sum_list (map f (xs[i := y])) + f (xs ! i) = sum_list (map f xs) + (f y :: 'a :: comm_monoid_add)"
proof (induction xs arbitrary: i)
  case Nil
  then show ?case by simp
next
  case (Cons x xs)
  then show ?case by (cases i) (auto simp: ac_simps)
qed

lemma bag_put: "i < length (ns_reasons s) \<Longrightarrow> ns_bag (put_hold i r s) + hold_bag (ns_reasons s ! i) = ns_bag s + hold_bag r"
  by (simp add: ns_bag_def put_hold_def sum_list_map_update)

lemma in_mset_sum_list_iff: "x \<in># sum_list Ms \<longleftrightarrow> (\<exists>M \<in> set Ms. x \<in># M)"
  by (induction Ms) auto

lemma bag_has:
  assumes ok: "ns_ok s" shows "name \<in># ns_bag s \<longleftrightarrow> (\<exists>i. find_hold s name = Some i)"
proof
  assume "name \<in># ns_bag s"
  then obtain r where r: "r \<in> set (ns_reasons s)" "name \<in># hold_bag r"
    by (auto simp: ns_bag_def in_mset_sum_list_iff)
  then have "hd_count r \<noteq> 0" "the (hd_name r) = name" by (auto simp: hold_bag_def in_replicate_mset unat_eq_0 split: if_splits)
  moreover have "hd_name r = None \<longleftrightarrow> hd_count r = 0" using ok r(1) by (simp add: ns_ok_def)
  ultimately have "hd_name r = Some name" by (cases "hd_name r") auto
  with r(1) show "\<exists>i. find_hold s name = Some i" unfolding find_hold_def by (rule first_slot_Some_ex)
next
  assume "\<exists>i. find_hold s name = Some i"
  then obtain i where i: "i < length (ns_reasons s)" "hd_name (ns_reasons s ! i) = Some name"
    unfolding find_hold_def using first_slot_SomeD by blast
  then have "hd_count (ns_reasons s ! i) \<noteq> 0" using ok nth_mem[OF i(1)] by (metis ns_ok_def option.discI)
  then have "name \<in># hold_bag (ns_reasons s ! i)" using i(2) by (simp add: hold_bag_def unat_eq_0)
  with i(1) show "name \<in># ns_bag s" by (auto simp: ns_bag_def in_mset_sum_list_iff)
qed

lemma ball_update: "\<forall>x \<in> set xs. P x \<Longrightarrow> P y \<Longrightarrow> \<forall>x \<in> set (xs[i := y]). P x"
  by (metis set_update_in)

lemma size_sum_list: "size (sum_list (Ms :: 'a multiset list)) = sum_list (map size Ms)"
  by (induction Ms) auto

lemma hold_le_bag: "r \<in> set (ns_reasons s) \<Longrightarrow> unat (hd_count r) \<le> size (ns_bag s)"
  using member_le_sum_list[of "unat (hd_count r)" "map (\<lambda>r. unat (hd_count r)) (ns_reasons s)"]
  by (simp add: ns_bag_def size_sum_list hold_bag_def comp_def)

lemma hold_place_spec:
  assumes "ns_ok s" "hold_place s name = Some i"
  shows "i < length (ns_reasons s)" "hd_name (ns_reasons s ! i) = Some name \<or>
    hd_name (ns_reasons s ! i) = None \<and> (\<forall>r \<in> set (ns_reasons s). hd_name r \<noteq> Some name)"
  using assms first_slot_SomeD[of _ "ns_reasons s" i]
  by (auto simp: hold_place_def find_hold_def first_slot_None_iff split: option.splits)

lemma count_hold_bag:
  assumes ok: "ns_ok s" and at: "hold_place s name = Some i" and room: "ns_total s \<noteq> U32_MAX"
  shows "ns_ok (count_hold i name s) \<and> ns_bag (count_hold i name s) = add_mset name (ns_bag s)"
proof -
  let ?r = "ns_reasons s ! i"
  let ?n = "\<lparr>hd_name = Some name, hd_count = hd_count ?r + 1\<rparr>"
  note i = hold_place_spec[OF ok at]
  have "unat (hd_count ?r) \<le> unat (ns_total s)" using hold_le_bag[of ?r s] i(1) ok by (simp add: ns_ok_def)
  moreover have "unat (ns_total s) < unat U32_MAX" using room by (metis word_less_max_iff word_less_nat_alt)
  ultimately have "hd_count ?r < U32_MAX" by (simp add: word_less_nat_alt)
  then have u: "unat (hd_count ?r + 1) = Suc (unat (hd_count ?r))" "hd_count ?r + 1 \<noteq> 0"
    using unat_inc[of "hd_count ?r"] word_inc_nonzero[of "hd_count ?r"] by simp_all
  have c: "count_hold i name s = (put_hold i ?n s)\<lparr>ns_total := ns_total s + 1\<rparr>"
    using i(2) by (auto simp: count_hold_def Let_def)
  have "hd_name ?r = None \<Longrightarrow> hd_count ?r = 0" using ok i(1) by (simp add: ns_ok_def)
  then have h: "hold_bag ?n = add_mset name (hold_bag ?r)" using i(2) u by (auto simp: hold_bag_def)
  have "ns_bag (put_hold i ?n s) + hold_bag ?r = add_mset name (ns_bag s) + hold_bag ?r"
    using bag_put[OF i(1), of ?n] h by simp
  then have b: "ns_bag (put_hold i ?n s) = add_mset name (ns_bag s)" by (rule add_right_imp_eq)
  have "unique_by (\<lambda>r. hd_name r \<noteq> None) hd_name ((ns_reasons s)[i := ?n])"
    using i(2)
  proof
    assume "hd_name ?r = Some name"
    with ok i(1) show ?thesis by (intro unique_by_same_key) (auto simp: ns_ok_def)
  next
    assume "hd_name ?r = None \<and> (\<forall>r \<in> set (ns_reasons s). hd_name r \<noteq> Some name)"
    with ok show ?thesis by (intro unique_by_fresh) (auto simp: ns_ok_def)
  qed
  moreover have "\<forall>r \<in> set ((ns_reasons s)[i := ?n]). hd_name r = None \<longleftrightarrow> hd_count r = 0"
    by (rule ball_update) (use ok u(2) in \<open>auto simp: ns_ok_def\<close>)
  moreover have "unat (ns_total s + 1) = Suc (unat (ns_total s))" using room by (rule unat_inc)
  moreover have "ns_bag (count_hold i name s) = ns_bag (put_hold i ?n s)" by (simp add: c ns_bag_def)
  ultimately show ?thesis using ok b by (simp add: ns_ok_def c put_hold_def ns_bag_def)
qed

lemma release_bag:
  assumes ok: "ns_ok s" and at: "find_hold s name = Some i"
  defines "n \<equiv> hd_count (ns_reasons s ! i) - 1"
  defines "t \<equiv> (put_hold i \<lparr>hd_name = (if n = 0 then None else hd_name (ns_reasons s ! i)), hd_count = n\<rparr> s)
      \<lparr>ns_total := ns_total s - 1\<rparr>"
  shows "hd_count (ns_reasons s ! i) \<noteq> 0 \<and> ns_ok t \<and> add_mset name (ns_bag t) = ns_bag s"
proof -
  let ?r = "ns_reasons s ! i" and ?q = "\<lparr>hd_name = (if n = 0 then None else hd_name (ns_reasons s ! i)), hd_count = n\<rparr>"
  have i: "i < length (ns_reasons s)" "hd_name ?r = Some name"
    using at first_slot_SomeD unfolding find_hold_def by blast+
  then have c: "hd_count ?r \<noteq> 0" using ok nth_mem[OF i(1)] by (metis ns_ok_def option.discI)
  then have u: "Suc (unat n) = unat (hd_count ?r)"
    unfolding n_def by (simp add: unat_minus_one unat_gt_0 Suc_diff_1)
  then have h: "add_mset name (hold_bag ?q) = hold_bag ?r"
    using i(2) by (auto simp: hold_bag_def simp flip: u)
  have "add_mset name (ns_bag (put_hold i ?q s)) + hold_bag ?q = ns_bag s + hold_bag ?q"
    using bag_put[OF i(1), of ?q] h by (metis add_mset_add_single union_mset_add_mset_left union_mset_add_mset_right)
  then have b: "add_mset name (ns_bag (put_hold i ?q s)) = ns_bag s" by (rule add_right_imp_eq)
  have "name \<in># ns_bag s" using bag_has[OF ok] at by blast
  then have "ns_total s \<noteq> 0" using ok by (auto simp: ns_ok_def)
  then have "unat (ns_total s - 1) = unat (ns_total s) - 1" by (rule unat_minus_one)
  moreover have "size (ns_bag (put_hold i ?q s)) = size (ns_bag s) - 1" using b by (metis diff_Suc_1 size_add_mset)
  moreover have "unique_by (\<lambda>r. hd_name r \<noteq> None) hd_name ((ns_reasons s)[i := ?q])"
  proof (cases "n = 0")
    case True
    with ok show ?thesis by (intro unique_by_kill) (auto simp: ns_ok_def)
  next
    case False
    with ok i show ?thesis by (intro unique_by_same_key) (auto simp: ns_ok_def)
  qed
  moreover have "\<forall>r \<in> set ((ns_reasons s)[i := ?q]). hd_name r = None \<longleftrightarrow> hd_count r = 0"
    by (rule ball_update) (use ok i(2) in \<open>auto simp: ns_ok_def\<close>)
  moreover have "ns_bag t = ns_bag (put_hold i ?q s)" by (simp add: t_def ns_bag_def)
  ultimately show ?thesis using ok b c by (simp add: ns_ok_def t_def put_hold_def ns_bag_def)
qed

text \<open>A release takes one copy of its name out of the bag and stops the link with the last; a name that
holds nothing changes nothing.\<close>

lemma net_service_release_exact:
  assumes ok: "ns_ok s" and rel: "net_service_release lk reason s w = (err, s', w')"
  shows "case reason of None \<Rightarrow> err = ESP_ERR_INVALID_ARG \<and> s' = s \<and> w' = w
    | Some name \<Rightarrow>
        if name = [] then err = ESP_ERR_INVALID_ARG \<and> s' = s \<and> w' = w
        else if name \<in># ns_bag s then err = ESP_OK \<and> ns_ok s' \<and> ns_bag s' = ns_bag s - {#name#} \<and>
          w' = (if ns_bag s = {#name#} then lk_stop lk LINK_SERVICE w else w)
        else err = ESP_ERR_INVALID_STATE \<and> s' = s \<and> w' = w"
proof (cases reason)
  case None
  with rel show ?thesis by (simp add: net_service_release_def)
next
  case (Some name)
  show ?thesis
  proof (cases "name = [] \<or> name \<notin># ns_bag s")
    case True
    with Some rel bag_has[OF ok, of name] show ?thesis
      by (auto simp: net_service_release_def split: if_splits option.splits)
  next
    case False
    then obtain i where i: "find_hold s name = Some i" using bag_has[OF ok] by blast
    note b = release_bag[OF ok i]
    let ?n = "hd_count (ns_reasons s ! i) - 1"
    let ?t = "(put_hold i \<lparr>hd_name = (if ?n = 0 then None else hd_name (ns_reasons s ! i)), hd_count = ?n\<rparr> s)
      \<lparr>ns_total := ns_total s - 1\<rparr>"
    have r: "err = ESP_OK" "s' = ?t" "w' = (if ns_total ?t = 0 then lk_stop lk LINK_SERVICE w else w)"
      using rel Some False i b by (auto simp: net_service_release_def Let_def put_hold_def)
    have "ns_total ?t = 0 \<longleftrightarrow> ns_bag ?t = {#}"
      using b by (metis ns_ok_def size_eq_0_iff_empty unat_eq_0)
    also have "\<dots> \<longleftrightarrow> ns_bag s = {#name#}" using b by (metis add_mset_eq_single)
    finally have "w' = (if ns_bag s = {#name#} then lk_stop lk LINK_SERVICE w else w)" using r(3) by simp
    moreover have "ns_bag s' = ns_bag s - {#name#}" using b r(2) by (metis add_mset_remove_trivial)
    ultimately show ?thesis using Some False r b by simp
  qed
qed

text \<open>An acquisition adds a copy of its name, or changes nothing of the bag.\<close>

lemma net_service_acquire_exact:
  assumes ok: "ns_ok s" and room: "ns_total s \<noteq> U32_MAX" and acq: "net_service_acquire lk reason s w = (err, s', w')"
  shows "ns_ok s' \<and> (if err = ESP_OK then (\<exists>name. reason = Some name \<and> name \<noteq> [] \<and> ns_bag s' = add_mset name (ns_bag s))
      else s' = s)"
proof (cases "err = ESP_OK")
  case True
  with acq obtain name i where n: "reason = Some name" "name \<noteq> []" "hold_place s name = Some i" "s' = count_hold i name s"
    by (auto simp: net_service_acquire_def split: option.splits if_splits prod.splits)
  with count_hold_bag[OF ok n(3) room] True show ?thesis by simp
next
  case False
  with acq ok show ?thesis by (auto simp: net_service_acquire_def split: option.splits if_splits prod.splits)
qed

end
