(* ===== verification/NetAutosync.thy ===== *)
theory NetAutosync
  imports NetService
begin

text \<open>
  Automatic clock sync (\<open>main/pocket/net_autosync.c\<close>, \<open>net_autosync.h\<close>): the policy that
  decides when an attempt may start, one attempt with its three waits, and the runtime shared by the
  owner's frame, the settings and Wi-Fi screens and the worker task.

  The clock, the radio and SNTP are the hooks of \<open>autosync_ops_t\<close>; with the link of
  \<open>net_service.c\<close> and the status cell of \<open>wifi_time.c\<close> they are a parameter
  \<open>'w autosync_ops\<close> over a world that every call may change.  Times are milliseconds since boot in
  an \<open>int64_t\<close>, which no uptime overflows; they are integers here.
\<close>

section \<open>The policy\<close>

definition AUTOSYNC_IDLE_MS :: int where "AUTOSYNC_IDLE_MS = 10000"
definition AUTOSYNC_MIN_FREE :: nat where "AUTOSYNC_MIN_FREE = 64 * 1024"
definition AUTOSYNC_MIN_LARGEST :: nat where "AUTOSYNC_MIN_LARGEST = 16 * 1024"
definition AUTOSYNC_BACKOFF_1_MS :: int where "AUTOSYNC_BACKOFF_1_MS = 60 * 1000"
definition AUTOSYNC_BACKOFF_2_MS :: int where "AUTOSYNC_BACKOFF_2_MS = 5 * 60 * 1000"
definition AUTOSYNC_BACKOFF_3_MS :: int where "AUTOSYNC_BACKOFF_3_MS = 30 * 60 * 1000"
definition AUTOSYNC_MAX_FAILURES :: nat where "AUTOSYNC_MAX_FAILURES = 4"
definition AUTOSYNC_RESYNC_MS :: int where "AUTOSYNC_RESYNC_MS = 12 * 60 * 60 * 1000"
definition AUTOSYNC_RETRY_MS :: int where "AUTOSYNC_RETRY_MS = 60 * 1000"
definition AUTOSYNC_ABORT_RETRY_MS :: int where "AUTOSYNC_ABORT_RETRY_MS = 5 * 60 * 1000"
definition AUTOSYNC_MAX_ATTEMPTS :: nat where "AUTOSYNC_MAX_ATTEMPTS = 32"

lemmas autosync_times = AUTOSYNC_IDLE_MS_def AUTOSYNC_BACKOFF_1_MS_def AUTOSYNC_BACKOFF_2_MS_def
  AUTOSYNC_BACKOFF_3_MS_def AUTOSYNC_RESYNC_MS_def AUTOSYNC_RETRY_MS_def AUTOSYNC_ABORT_RETRY_MS_def

datatype autosync_outcome = AUTOSYNC_OK | AUTOSYNC_FAILED | AUTOSYNC_ABORTED | AUTOSYNC_BUSY

datatype autosync_decision =
    AUTOSYNC_WAIT | AUTOSYNC_START | AUTOSYNC_LOW_MEMORY | AUTOSYNC_NO_CREDENTIALS | AUTOSYNC_APP_ASLEEP

record autosync_policy =
  ap_attempts :: nat
  ap_failures :: nat
  ap_next_ms :: int
  ap_last_ok_ms :: int
  ap_running :: bool
  ap_gave_up :: bool

record autosync_inputs =
  in_enabled :: bool
  in_has_credentials :: bool
  in_idle_ms :: int
  in_free_bytes :: nat
  in_largest_bytes :: nat
  in_app_asleep :: bool

definition autosync_policy_init :: autosync_policy where
  "autosync_policy_init = \<lparr>ap_attempts = 0, ap_failures = 0, ap_next_ms = 0, ap_last_ok_ms = - 1,
     ap_running = False, ap_gave_up = False\<rparr>"

definition autosync_policy_decide ::
    "autosync_policy \<Rightarrow> autosync_inputs \<Rightarrow> int \<Rightarrow> autosync_decision \<times> autosync_policy" where
  "autosync_policy_decide p i now =
     (if ap_running p \<or> ap_gave_up p \<or> \<not> in_enabled i then (AUTOSYNC_WAIT, p)
      else if now < ap_next_ms p then (AUTOSYNC_WAIT, p)
      else if in_idle_ms i < AUTOSYNC_IDLE_MS then (AUTOSYNC_WAIT, p)
      else if \<not> in_has_credentials i then
        (AUTOSYNC_NO_CREDENTIALS, p\<lparr>ap_next_ms := now + AUTOSYNC_RETRY_MS\<rparr>)
      else if in_app_asleep i then (AUTOSYNC_APP_ASLEEP, p\<lparr>ap_next_ms := now + AUTOSYNC_RETRY_MS\<rparr>)
      else if in_free_bytes i < AUTOSYNC_MIN_FREE \<or> in_largest_bytes i < AUTOSYNC_MIN_LARGEST then
        (AUTOSYNC_LOW_MEMORY, p\<lparr>ap_next_ms := now + AUTOSYNC_RETRY_MS\<rparr>)
      else if ap_attempts p \<ge> AUTOSYNC_MAX_ATTEMPTS then (AUTOSYNC_WAIT, p\<lparr>ap_gave_up := True\<rparr>)
      else (AUTOSYNC_START, p\<lparr>ap_attempts := ap_attempts p + 1, ap_running := True\<rparr>))"

definition autosync_backoff :: "int list" where
  "autosync_backoff = [AUTOSYNC_BACKOFF_1_MS, AUTOSYNC_BACKOFF_2_MS, AUTOSYNC_BACKOFF_3_MS]"

definition autosync_policy_record :: "autosync_policy \<Rightarrow> autosync_outcome \<Rightarrow> int \<Rightarrow> autosync_policy" where
  "autosync_policy_record p outcome now =
     (let p = p\<lparr>ap_running := False\<rparr>
      in case outcome of
        AUTOSYNC_OK \<Rightarrow> p\<lparr>ap_failures := 0, ap_last_ok_ms := now, ap_next_ms := now + AUTOSYNC_RESYNC_MS\<rparr>
      | AUTOSYNC_FAILED \<Rightarrow>
          (let n = ap_failures p + 1; p = p\<lparr>ap_failures := n\<rparr>
           in if n \<ge> AUTOSYNC_MAX_FAILURES then p\<lparr>ap_gave_up := True\<rparr>
              else p\<lparr>ap_next_ms := now + autosync_backoff ! (if n - 1 < 2 then n - 1 else 2)\<rparr>)
      | AUTOSYNC_ABORTED \<Rightarrow>
          p\<lparr>ap_attempts := (if ap_attempts p \<noteq> 0 then ap_attempts p - 1 else 0),
            ap_next_ms := now + AUTOSYNC_ABORT_RETRY_MS\<rparr>
      | AUTOSYNC_BUSY \<Rightarrow> p\<lparr>ap_next_ms := now + AUTOSYNC_RETRY_MS\<rparr>)"

fun autosync_outcome_name :: "autosync_outcome \<Rightarrow> bytes" where
  "autosync_outcome_name AUTOSYNC_OK = ascii ''ok''"
| "autosync_outcome_name AUTOSYNC_FAILED = ascii ''failed''"
| "autosync_outcome_name AUTOSYNC_ABORTED = ascii ''aborted''"
| "autosync_outcome_name AUTOSYNC_BUSY = ascii ''busy''"

section \<open>One attempt\<close>

datatype wifi_time_state = WIFI_TIME_IDLE | WIFI_TIME_RUNNING | WIFI_TIME_OK | WIFI_TIME_FAILED

datatype wifi_time_stage =
    WIFI_TIME_STAGE_NONE | WIFI_TIME_STAGE_NVS | WIFI_TIME_STAGE_INIT | WIFI_TIME_STAGE_ASSOC
  | WIFI_TIME_STAGE_AUTH | WIFI_TIME_STAGE_DHCP | WIFI_TIME_STAGE_SNTP

definition AUTOSYNC_SLICE_MS :: int where "AUTOSYNC_SLICE_MS = 100"
definition AUTOSYNC_CONNECT_WAIT_MS :: int where "AUTOSYNC_CONNECT_WAIT_MS = 20000"
definition AUTOSYNC_SNTP_WAIT_MS :: int where "AUTOSYNC_SNTP_WAIT_MS = 10000"
definition AUTOSYNC_DOWN_WAIT_MS :: int where "AUTOSYNC_DOWN_WAIT_MS = 3000"

record 'w autosync_ops =
  op_link :: "'w link_ops"
  op_now_ms :: "'w \<Rightarrow> int \<times> 'w"
  op_sleep_ms :: "int \<Rightarrow> 'w \<Rightarrow> 'w"
  op_abort_requested :: "'w \<Rightarrow> bool \<times> 'w"
  op_sntp_start :: "'w \<Rightarrow> esp_err \<times> 'w"
  op_sntp_wait :: "int \<Rightarrow> 'w \<Rightarrow> esp_err \<times> 'w"
  op_sntp_stop :: "'w \<Rightarrow> 'w"
  op_set_synchronized :: "'w \<Rightarrow> 'w"
  op_radio_busy :: "'w \<Rightarrow> bool \<times> 'w"
  op_status :: "'w \<Rightarrow> wifi_time_stage \<times> int"
  op_settle :: "wifi_time_state \<Rightarrow> wifi_time_stage \<Rightarrow> int \<Rightarrow> 'w \<Rightarrow> 'w"

definition HOLDER :: bytes where "HOLDER = ascii ''time''"

definition settle_link_lost :: "'w autosync_ops \<Rightarrow> 'w \<Rightarrow> 'w" where
  "settle_link_lost q w = op_settle q WIFI_TIME_FAILED (fst (op_status q w)) (snd (op_status q w)) w"

text \<open>How the wait for the link ends: by a yield, by its bound, or with the state of the link.\<close>

datatype connect_end = CON_ABORTED | CON_TIMEOUT | CON_STATE net_service_state

partial_function (option) connect_loop ::
    "'w autosync_ops \<Rightarrow> net_service \<Rightarrow> int \<Rightarrow> 'w \<Rightarrow> (connect_end \<times> 'w) option" where
  "connect_loop q s began w =
     (if net_service_state_of (op_link q) s w \<noteq> NET_CONNECTING
      then Some (CON_STATE (net_service_state_of (op_link q) s w), w)
      else if fst (op_abort_requested q w) then Some (CON_ABORTED, snd (op_abort_requested q w))
      else if fst (op_now_ms q (snd (op_abort_requested q w))) - began \<ge> AUTOSYNC_CONNECT_WAIT_MS
      then Some (CON_TIMEOUT, snd (op_now_ms q (snd (op_abort_requested q w))))
      else connect_loop q s began
             (op_sleep_ms q AUTOSYNC_SLICE_MS (snd (op_now_ms q (snd (op_abort_requested q w))))))"

text \<open>How the wait for the clock ends: the last answer, whether the link was lost, whether by a yield.\<close>

partial_function (option) sntp_loop ::
    "'w autosync_ops \<Rightarrow> net_service \<Rightarrow> int \<Rightarrow> 'w \<Rightarrow> ((esp_err \<times> bool \<times> bool) \<times> 'w) option" where
  "sntp_loop q s began w0 =
     (let err = fst (op_sntp_wait q AUTOSYNC_SLICE_MS w0); w = snd (op_sntp_wait q AUTOSYNC_SLICE_MS w0)
      in if err = ESP_OK then Some ((err, False, False), w)
         else if net_service_state_of (op_link q) s w \<noteq> NET_UP then Some ((err, True, False), w)
         else if err \<noteq> ESP_ERR_TIMEOUT then Some ((err, False, False), w)
         else if fst (op_abort_requested q w) then Some ((err, False, True), snd (op_abort_requested q w))
         else if fst (op_now_ms q (snd (op_abort_requested q w))) - began \<ge> AUTOSYNC_SNTP_WAIT_MS
         then Some ((err, False, False), snd (op_now_ms q (snd (op_abort_requested q w))))
         else sntp_loop q s began (snd (op_now_ms q (snd (op_abort_requested q w)))))"

partial_function (option) down_loop :: "'w autosync_ops \<Rightarrow> int \<Rightarrow> 'w \<Rightarrow> 'w option" where
  "down_loop q began w =
     (if \<not> fst (op_radio_busy q w) then Some (snd (op_radio_busy q w))
      else if fst (op_now_ms q (snd (op_radio_busy q w))) - began \<ge> AUTOSYNC_DOWN_WAIT_MS
      then Some (snd (op_now_ms q (snd (op_radio_busy q w))))
      else down_loop q began (op_sleep_ms q 10 (snd (op_now_ms q (snd (op_radio_busy q w))))))"

text \<open>From the link being up to the clock: the outcome and the world, before the release.\<close>

definition ask_clock :: "'w autosync_ops \<Rightarrow> net_service \<Rightarrow> 'w \<Rightarrow> (autosync_outcome \<times> 'w) option" where
  "ask_clock q s w =
     (let (stop, w) = op_abort_requested q w
      in if stop then Some (AUTOSYNC_ABORTED, w)
         else
           (let (err, w) = op_sntp_start q w
            in if err \<noteq> ESP_OK then
                 Some (AUTOSYNC_FAILED,
                   if net_service_state_of (op_link q) s w \<noteq> NET_UP then settle_link_lost q w
                   else op_settle q WIFI_TIME_FAILED WIFI_TIME_STAGE_SNTP err w)
               else
                 (let (began, w) = op_now_ms q w
                  in case sntp_loop q s began w of
                    None \<Rightarrow> None
                  | Some ((err, lost, aborted), w) \<Rightarrow>
                      (let w = op_sntp_stop q w
                       in if err = ESP_OK then
                            Some (AUTOSYNC_OK,
                              op_settle q WIFI_TIME_OK WIFI_TIME_STAGE_NONE 0 (op_set_synchronized q w))
                          else if lost then Some (AUTOSYNC_FAILED, settle_link_lost q w)
                          else if aborted then Some (AUTOSYNC_ABORTED, w)
                          else Some (AUTOSYNC_FAILED, op_settle q WIFI_TIME_FAILED WIFI_TIME_STAGE_SNTP err w)))))"

definition give_back :: "'w autosync_ops \<Rightarrow> autosync_outcome \<Rightarrow> net_service \<Rightarrow> 'w \<Rightarrow>
    (autosync_outcome \<times> net_service \<times> 'w) option" where
  "give_back q out s w =
     (let w = (if out = AUTOSYNC_ABORTED then op_settle q WIFI_TIME_IDLE WIFI_TIME_STAGE_NONE 0 w else w);
          (err, s, w) = net_service_release (op_link q) (Some HOLDER) s w;
          (began, w) = op_now_ms q w
      in case down_loop q began w of None \<Rightarrow> None | Some w \<Rightarrow> Some (out, s, w))"

definition autosync_attempt :: "'w autosync_ops \<Rightarrow> net_service \<Rightarrow> 'w \<Rightarrow>
    (autosync_outcome \<times> net_service \<times> 'w) option" where
  "autosync_attempt q s w =
     (let (err, s, w) = net_service_acquire (op_link q) (Some HOLDER) s w
      in if err = ESP_ERR_INVALID_STATE then Some (AUTOSYNC_BUSY, s, w)
         else if err \<noteq> ESP_OK then Some (AUTOSYNC_FAILED, s, w)
         else
           (let (began, w) = op_now_ms q w
            in case connect_loop q s began w of
              None \<Rightarrow> None
            | Some (CON_ABORTED, w) \<Rightarrow> give_back q AUTOSYNC_ABORTED s w
            | Some (CON_TIMEOUT, w) \<Rightarrow> give_back q AUTOSYNC_FAILED s w
            | Some (CON_STATE st, w) \<Rightarrow>
                if st \<noteq> NET_UP then give_back q AUTOSYNC_FAILED s w
                else case ask_clock q s w of
                  None \<Rightarrow> None
                | Some (out, w) \<Rightarrow> give_back q out s w))"

section \<open>The runtime\<close>

text \<open>The worker task: waiting, notified of a job, in an automatic attempt, with its outcome posted
but \<open>active\<close> not yet cleared, in a manual attempt.\<close>

datatype sync_worker = W_WAITS | W_NOTIFIED | W_AUTO | W_POSTED | W_MANUAL

record autosync_runtime =
  rt_policy :: autosync_policy
  rt_enabled :: bool
  rt_credentials :: int
  rt_eligible_since :: int
  rt_active :: bool
  rt_abort_req :: bool
  rt_posted :: "autosync_outcome option"
  rt_has_worker :: bool
  rt_job_manual :: bool
  rt_status :: "wifi_time_state \<times> wifi_time_stage \<times> int"
  rt_worker :: sync_worker

text \<open>What a frame reads: the clock, whether the clock is synchronized, the stored credentials, the
heap, whether an app sleeps.\<close>

record frame_readings =
  fr_now :: int
  fr_synchronized :: bool
  fr_credentials :: bool
  fr_free :: nat
  fr_largest :: nat
  fr_asleep :: bool

definition autosync_runtime_zero :: autosync_runtime where
  "autosync_runtime_zero = \<lparr>rt_policy = autosync_policy_init\<lparr>ap_last_ok_ms := 0\<rparr>, rt_enabled = True, rt_credentials = - 1,
     rt_eligible_since = - 1, rt_active = False, rt_abort_req = False, rt_posted = None, rt_has_worker = False,
     rt_job_manual = False, rt_status = (WIFI_TIME_IDLE, WIFI_TIME_STAGE_NONE, 0), rt_worker = W_WAITS\<rparr>"

text \<open>The task is created at boot; \<open>made\<close> says whether that succeeded.\<close>

definition net_autosync_init :: "bool \<Rightarrow> autosync_runtime" where
  "net_autosync_init made = autosync_runtime_zero\<lparr>rt_policy := autosync_policy_init, rt_has_worker := made\<rparr>"

definition sync_worker_post :: "bool \<Rightarrow> autosync_runtime \<Rightarrow> bool \<times> autosync_runtime" where
  "sync_worker_post manual r =
     (if \<not> rt_has_worker r then (False, r)
      else (True, r\<lparr>rt_job_manual := manual, rt_worker := W_NOTIFIED\<rparr>))"

definition net_autosync_sync_now :: "bool \<Rightarrow> autosync_runtime \<Rightarrow> esp_err \<times> autosync_runtime" where
  "net_autosync_sync_now wifi_busy r =
     (if wifi_busy \<or> rt_active r then (ESP_ERR_INVALID_STATE, r)
      else
        (let r = r\<lparr>rt_active := True, rt_abort_req := False,
                   rt_status := (WIFI_TIME_RUNNING, WIFI_TIME_STAGE_NVS, 0)\<rparr>;
             (posted, r) = sync_worker_post True r
         in if \<not> posted then
              (ESP_ERR_NO_MEM, r\<lparr>rt_status := (WIFI_TIME_FAILED, WIFI_TIME_STAGE_INIT, ESP_ERR_NO_MEM),
                                 rt_active := False\<rparr>)
            else (ESP_OK, r)))"

definition net_autosync_set_enabled :: "bool \<Rightarrow> autosync_runtime \<Rightarrow> autosync_runtime" where
  "net_autosync_set_enabled on r =
     (if on = rt_enabled r then r
      else
        (let r = r\<lparr>rt_enabled := on\<rparr>
         in if \<not> on then (if rt_active r then r\<lparr>rt_abort_req := True\<rparr> else r)
            else r\<lparr>rt_policy := autosync_policy_init\<lparr>ap_running := ap_running (rt_policy r)\<rparr>\<rparr>))"

definition collect_outcome :: "int \<Rightarrow> autosync_runtime \<Rightarrow> autosync_runtime" where
  "collect_outcome now r =
     (case rt_posted r of
        None \<Rightarrow> r
      | Some out \<Rightarrow> r\<lparr>rt_posted := None, rt_policy := autosync_policy_record (rt_policy r) out now\<rparr>)"

definition poll_due :: "int \<Rightarrow> autosync_runtime \<Rightarrow> bool" where
  "poll_due now r \<longleftrightarrow>
     \<not> (\<not> rt_enabled r \<or> ap_running (rt_policy r) \<or> ap_gave_up (rt_policy r) \<or> now < ap_next_ms (rt_policy r) \<or>
        now - rt_eligible_since r < AUTOSYNC_IDLE_MS \<or> rt_active r)"

definition poll_decide :: "frame_readings \<Rightarrow> autosync_runtime \<Rightarrow> autosync_runtime" where
  "poll_decide f r =
     (let now = fr_now f;
          r = (if rt_credentials r < 0 then r\<lparr>rt_credentials := (if fr_credentials f then 1 else 0)\<rparr> else r);
          i = \<lparr>in_enabled = rt_enabled r, in_has_credentials = rt_credentials r > 0,
               in_idle_ms = now - rt_eligible_since r, in_free_bytes = fr_free f,
               in_largest_bytes = fr_largest f, in_app_asleep = fr_asleep f\<rparr>;
          (d, p) = autosync_policy_decide (rt_policy r) i now;
          r = r\<lparr>rt_policy := p\<rparr>
      in if d = AUTOSYNC_START then
           (let r = r\<lparr>rt_abort_req := False, rt_active := True\<rparr>;
                (posted, r) = sync_worker_post False r
            in if \<not> posted then
                 r\<lparr>rt_active := False, rt_policy := autosync_policy_record (rt_policy r) AUTOSYNC_BUSY now\<rparr>
               else r)
         else r)"

definition net_autosync_poll :: "bool \<Rightarrow> bool \<Rightarrow> frame_readings \<Rightarrow> autosync_runtime \<Rightarrow> autosync_runtime" where
  "net_autosync_poll eligible key f r =
     (let now = fr_now f;
          r = collect_outcome now r
      in if \<not> eligible then r\<lparr>rt_eligible_since := - 1, rt_credentials := - 1\<rparr>
         else
           (let r = (if key \<or> rt_eligible_since r < 0 then r\<lparr>rt_eligible_since := now\<rparr> else r)
            in if \<not> poll_due now r then r
               else if ap_last_ok_ms (rt_policy r) < 0 \<and> fr_synchronized f then
                 r\<lparr>rt_policy := (rt_policy r)\<lparr>ap_last_ok_ms := now, ap_next_ms := now + AUTOSYNC_RESYNC_MS\<rparr>\<rparr>
               else poll_decide f r))"

text \<open>The first half of a yield; the rest only waits for \<open>active\<close> to clear.\<close>

definition yield_request :: "autosync_runtime \<Rightarrow> autosync_runtime" where
  "yield_request r = (if \<not> rt_active r then r else r\<lparr>rt_abort_req := True\<rparr>)"

text \<open>The worker's steps.  The outcome of an attempt and the status it leaves are whatever
\<open>autosync_attempt\<close> returned.\<close>

definition worker_take :: "autosync_runtime \<Rightarrow> autosync_runtime" where
  "worker_take r = (if rt_worker r = W_NOTIFIED then r\<lparr>rt_worker := (if rt_job_manual r then W_MANUAL else W_AUTO)\<rparr> else r)"

definition run_auto_posts :: "autosync_outcome \<Rightarrow> wifi_time_state \<times> wifi_time_stage \<times> int \<Rightarrow> autosync_runtime \<Rightarrow> autosync_runtime" where
  "run_auto_posts out st r =
     (if rt_worker r = W_AUTO then r\<lparr>rt_status := st, rt_posted := Some out, rt_worker := W_POSTED\<rparr> else r)"

definition run_auto_clears :: "autosync_runtime \<Rightarrow> autosync_runtime" where
  "run_auto_clears r = (if rt_worker r = W_POSTED then r\<lparr>rt_active := False, rt_worker := W_WAITS\<rparr> else r)"

definition run_manual_ends :: "autosync_outcome \<Rightarrow> wifi_time_state \<times> wifi_time_stage \<times> int \<Rightarrow> autosync_runtime \<Rightarrow> autosync_runtime" where
  "run_manual_ends out st r =
     (if rt_worker r = W_MANUAL then
        r\<lparr>rt_status := (if out = AUTOSYNC_BUSY then (WIFI_TIME_FAILED, WIFI_TIME_STAGE_INIT, ESP_ERR_INVALID_STATE) else st),
          rt_active := False, rt_worker := W_WAITS\<rparr>
      else r)"

datatype autosync_event =
    AsPoll bool bool frame_readings
  | AsEnable bool
  | AsSyncNow bool
  | AsYield
  | AsTake
  | AsPosts autosync_outcome "wifi_time_state \<times> wifi_time_stage \<times> int"
  | AsClears
  | AsManualEnds autosync_outcome "wifi_time_state \<times> wifi_time_stage \<times> int"

fun autosync_step :: "autosync_runtime \<Rightarrow> autosync_event \<Rightarrow> autosync_runtime" where
  "autosync_step r (AsPoll e k f) = net_autosync_poll e k f r"
| "autosync_step r (AsEnable on) = net_autosync_set_enabled on r"
| "autosync_step r (AsSyncNow b) = snd (net_autosync_sync_now b r)"
| "autosync_step r AsYield = yield_request r"
| "autosync_step r AsTake = worker_take r"
| "autosync_step r (AsPosts out st) = run_auto_posts out st r"
| "autosync_step r AsClears = run_auto_clears r"
| "autosync_step r (AsManualEnds out st) = run_manual_ends out st r"

section \<open>An attempt ends and gives the link back\<close>

text \<open>What an attempt asks of its hooks to end: the clock does not run backwards, a sleep and a wait that
timed out take their time.\<close>

definition clock_runs :: "'w autosync_ops \<Rightarrow> ('w \<Rightarrow> int) \<Rightarrow> bool" where
  "clock_runs q clk \<longleftrightarrow>
     (\<forall>w. fst (op_now_ms q w) = clk (snd (op_now_ms q w)) \<and> clk w \<le> clk (snd (op_now_ms q w))) \<and>
     (\<forall>n w. clk w + n \<le> clk (op_sleep_ms q n w)) \<and>
     (\<forall>w. clk w \<le> clk (snd (op_abort_requested q w))) \<and>
     (\<forall>w. clk w \<le> clk (snd (op_radio_busy q w))) \<and>
     (\<forall>n w. fst (op_sntp_wait q n w) = ESP_ERR_TIMEOUT \<longrightarrow> clk w + n \<le> clk (snd (op_sntp_wait q n w)))"

lemma clock_runsD:
  assumes "clock_runs q clk"
  shows "fst (op_now_ms q w) = clk (snd (op_now_ms q w))" "clk w \<le> clk (snd (op_now_ms q w))"
    "clk w + n \<le> clk (op_sleep_ms q n w)" "clk w \<le> clk (snd (op_abort_requested q w))"
    "clk w \<le> clk (snd (op_radio_busy q w))"
    "fst (op_sntp_wait q n w) = ESP_ERR_TIMEOUT \<Longrightarrow> clk w + n \<le> clk (snd (op_sntp_wait q n w))"
  using assms by (simp_all add: clock_runs_def)

text \<open>A loop ends when every round that goes on moves the clock forward below the bound.\<close>

lemma clocked_loop_ends:
  fixes f :: "'w \<Rightarrow> 'a option" and clk :: "'w \<Rightarrow> int"
  assumes round: "\<And>w. (\<exists>x. f w = Some x) \<or> (\<exists>v. f w = f v \<and> clk w < clk v \<and> clk w < bound)"
  shows "\<exists>x. f w = Some x"
proof (induction "nat (bound - clk w)" arbitrary: w rule: less_induct)
  case less
  from round[of w] show ?case
  proof
    assume "\<exists>v. f w = f v \<and> clk w < clk v \<and> clk w < bound"
    then obtain v where v: "f w = f v" "clk w < clk v" "clk w < bound" by blast
    then have "nat (bound - clk v) < nat (bound - clk w)" by simp
    from less[OF this] v(1) show ?thesis by simp
  qed
qed

lemma connect_loop_ends:
  assumes clk: "clock_runs q clk" shows "\<exists>x. connect_loop q s began w = Some x"
proof (rule clocked_loop_ends[where clk = clk and bound = "began + AUTOSYNC_CONNECT_WAIT_MS"])
  fix w
  let ?w1 = "snd (op_abort_requested q w)"
  let ?w2 = "snd (op_now_ms q ?w1)"
  let ?v = "op_sleep_ms q AUTOSYNC_SLICE_MS ?w2"
  have "clk w \<le> clk ?w2" "clk ?w2 < clk ?v" "fst (op_now_ms q ?w1) = clk ?w2"
    using clock_runsD(1,2)[OF clk, of ?w1] clock_runsD(4)[OF clk, of w]
      clock_runsD(3)[OF clk, of ?w2 AUTOSYNC_SLICE_MS] by (simp_all add: AUTOSYNC_SLICE_MS_def)
  then show "(\<exists>x. connect_loop q s began w = Some x) \<or>
      (\<exists>v. connect_loop q s began w = connect_loop q s began v \<and> clk w < clk v \<and> clk w < began + AUTOSYNC_CONNECT_WAIT_MS)"
    by (subst (1 2) connect_loop.simps) (auto intro!: exI[of _ ?v])
qed

lemma sntp_loop_ends:
  assumes clk: "clock_runs q clk" shows "\<exists>x. sntp_loop q s began w = Some x"
proof (rule clocked_loop_ends[where clk = clk and bound = "began + AUTOSYNC_SNTP_WAIT_MS"])
  fix w
  let ?w0 = "snd (op_sntp_wait q AUTOSYNC_SLICE_MS w)"
  let ?w1 = "snd (op_abort_requested q ?w0)"
  let ?v = "snd (op_now_ms q ?w1)"
  have "clk ?w0 \<le> clk ?v" "fst (op_now_ms q ?w1) = clk ?v"
    using clock_runsD(1,2)[OF clk, of ?w1] clock_runsD(4)[OF clk, of ?w0] by simp_all
  moreover have "fst (op_sntp_wait q AUTOSYNC_SLICE_MS w) = ESP_ERR_TIMEOUT \<Longrightarrow> clk w < clk ?w0"
    using clock_runsD(6)[OF clk, of AUTOSYNC_SLICE_MS w] by (simp add: AUTOSYNC_SLICE_MS_def)
  ultimately show "(\<exists>x. sntp_loop q s began w = Some x) \<or>
      (\<exists>v. sntp_loop q s began w = sntp_loop q s began v \<and> clk w < clk v \<and> clk w < began + AUTOSYNC_SNTP_WAIT_MS)"
    by (subst (1 2) sntp_loop.simps) (auto simp: Let_def intro!: exI[of _ ?v])
qed

lemma down_loop_ends:
  assumes clk: "clock_runs q clk" shows "\<exists>x. down_loop q began w = Some x"
proof (rule clocked_loop_ends[where clk = clk and bound = "began + AUTOSYNC_DOWN_WAIT_MS"])
  fix w
  let ?w1 = "snd (op_radio_busy q w)"
  let ?w2 = "snd (op_now_ms q ?w1)"
  let ?v = "op_sleep_ms q 10 ?w2"
  have "clk w \<le> clk ?w2" "clk ?w2 < clk ?v" "fst (op_now_ms q ?w1) = clk ?w2"
    using clock_runsD(1,2)[OF clk, of ?w1] clock_runsD(5)[OF clk, of w] clock_runsD(3)[OF clk, of ?w2 10] by simp_all
  then show "(\<exists>x. down_loop q began w = Some x) \<or>
      (\<exists>v. down_loop q began w = down_loop q began v \<and> clk w < clk v \<and> clk w < began + AUTOSYNC_DOWN_WAIT_MS)"
    by (subst (1 2) down_loop.simps) (auto intro!: exI[of _ ?v])
qed

lemma HOLDER_nonempty: "HOLDER \<noteq> []"
  by (simp add: HOLDER_def ascii_def)

lemma give_back_ok:
  assumes clk: "clock_runs q clk" and s: "ns_ok s" "HOLDER \<in># ns_bag s"
  shows "\<exists>s' w'. give_back q out s w = Some (out, s', w') \<and> ns_ok s' \<and> ns_bag s' = ns_bag s - {#HOLDER#}"
proof -
  let ?w = "if out = AUTOSYNC_ABORTED then op_settle q WIFI_TIME_IDLE WIFI_TIME_STAGE_NONE 0 w else w"
  obtain err s1 w1 where r: "net_service_release (op_link q) (Some HOLDER) s ?w = (err, s1, w1)" by (metis prod_cases3)
  obtain began w2 where n: "op_now_ms q w1 = (began, w2)" by fastforce
  obtain w3 where d: "down_loop q began w2 = Some w3" using down_loop_ends[OF clk] by blast
  from net_service_release_exact[OF s(1) r] s(2) HOLDER_nonempty
  have "ns_ok s1 \<and> ns_bag s1 = ns_bag s - {#HOLDER#}" by simp
  moreover have "give_back q out s w = Some (out, s1, w3)" using r n d by (simp add: give_back_def Let_def)
  ultimately show ?thesis by blast
qed

lemma ask_clock_ends:
  assumes clk: "clock_runs q clk" shows "\<exists>out w'. ask_clock q s w = Some (out, w')"
proof -
  have "\<exists>err lost ab w'. sntp_loop q s began v = Some ((err, lost, ab), w')" for began v
  proof -
    obtain x where "sntp_loop q s began v = Some x" using sntp_loop_ends[OF clk] by blast
    then show ?thesis by (cases x) auto
  qed
  note loop = this
  obtain stop w1 err w2 where a: "op_abort_requested q w = (stop, w1)" "op_sntp_start q w1 = (err, w2)" by fastforce
  obtain began w3 where n: "op_now_ms q w2 = (began, w3)" by fastforce
  obtain e lost ab w4 where "sntp_loop q s began w3 = Some ((e, lost, ab), w4)" using loop by blast
  then show ?thesis by (auto simp: ask_clock_def Let_def a n)
qed

section \<open>The invariant of the runtime\<close>

definition policy_ok :: "autosync_policy \<Rightarrow> bool" where
  "policy_ok p \<longleftrightarrow> ap_attempts p \<le> AUTOSYNC_MAX_ATTEMPTS \<and> ap_failures p \<le> AUTOSYNC_MAX_FAILURES \<and>
     (ap_failures p = AUTOSYNC_MAX_FAILURES \<longrightarrow> ap_gave_up p) \<and> (ap_running p \<longrightarrow> \<not> ap_gave_up p)"

text \<open>An automatic attempt that has not posted its outcome yet.\<close>

definition auto_pending :: "autosync_runtime \<Rightarrow> bool" where
  "auto_pending r \<longleftrightarrow> rt_worker r = W_NOTIFIED \<and> \<not> rt_job_manual r \<or> rt_worker r = W_AUTO"

definition rt_ok :: "autosync_runtime \<Rightarrow> bool" where
  "rt_ok r \<longleftrightarrow> policy_ok (rt_policy r) \<and> (rt_active r \<longleftrightarrow> rt_worker r \<noteq> W_WAITS) \<and>
     (ap_running (rt_policy r) \<longleftrightarrow> auto_pending r \<or> rt_posted r \<noteq> None) \<and>
     (auto_pending r \<longrightarrow> rt_posted r = None)"

lemma policy_init_ok: "policy_ok autosync_policy_init"
  by (simp add: policy_ok_def autosync_policy_init_def AUTOSYNC_MAX_FAILURES_def)

lemma policy_record_ok:
  assumes "policy_ok p" "ap_running p"
  shows "policy_ok (autosync_policy_record p out now) \<and> \<not> ap_running (autosync_policy_record p out now)"
  using assms by (auto simp: policy_ok_def autosync_policy_record_def Let_def split: autosync_outcome.split)

lemma policy_decide_ok:
  assumes "policy_ok p" "autosync_policy_decide p i now = (d, p')"
  shows "policy_ok p' \<and> ap_running p' = (ap_running p \<or> d = AUTOSYNC_START)"
  using assms by (auto simp: policy_ok_def autosync_policy_decide_def not_le split: if_splits)

lemma collect_ok:
  assumes "rt_ok r" shows "rt_ok (collect_outcome now r) \<and> rt_posted (collect_outcome now r) = None"
proof (cases "rt_posted r")
  case None
  with assms show ?thesis by (simp add: collect_outcome_def)
next
  case (Some out)
  then have run: "ap_running (rt_policy r)" "\<not> auto_pending r" using assms by (auto simp: rt_ok_def)
  with assms policy_record_ok[of "rt_policy r" out now] Some show ?thesis
    by (simp add: rt_ok_def collect_outcome_def auto_pending_def)
qed

lemma rt_ok_cong:
  "rt_policy r' = rt_policy r \<Longrightarrow> rt_active r' = rt_active r \<Longrightarrow> rt_worker r' = rt_worker r \<Longrightarrow>
   rt_posted r' = rt_posted r \<Longrightarrow> rt_job_manual r' = rt_job_manual r \<Longrightarrow> rt_ok r' = rt_ok r"
  by (simp add: rt_ok_def auto_pending_def)

lemma poll_decide_ok:
  assumes ok: "rt_ok r" and p: "rt_posted r = None" and a: "\<not> rt_active r"
  shows "rt_ok (poll_decide f r)"
proof -
  let ?r = "if rt_credentials r < 0 then r\<lparr>rt_credentials := (if fr_credentials f then 1 else 0)\<rparr> else r"
  obtain d q where d: "autosync_policy_decide (rt_policy ?r) \<lparr>in_enabled = rt_enabled ?r, in_has_credentials = rt_credentials ?r > 0,
      in_idle_ms = fr_now f - rt_eligible_since ?r, in_free_bytes = fr_free f,
      in_largest_bytes = fr_largest f, in_app_asleep = fr_asleep f\<rparr> (fr_now f) = (d, q)" by fastforce
  have w: "rt_worker r = W_WAITS" "\<not> ap_running (rt_policy r)" "policy_ok (rt_policy ?r)"
    using ok p a by (auto simp: rt_ok_def auto_pending_def)
  from policy_decide_ok[OF w(3) d] have q: "policy_ok q" "ap_running q = (d = AUTOSYNC_START)" using w(2) by auto
  show ?thesis
  proof (cases "d = AUTOSYNC_START")
    case False
    with q w p a show ?thesis by (simp add: poll_decide_def d Let_def rt_ok_def auto_pending_def)
  next
    case True
    with q w p a policy_record_ok[of q AUTOSYNC_BUSY "fr_now f"] show ?thesis
      by (simp add: poll_decide_def d Let_def sync_worker_post_def rt_ok_def auto_pending_def)
  qed
qed

lemma poll_ok: "rt_ok r \<Longrightarrow> rt_ok (net_autosync_poll e k f r)"
proof -
  assume "rt_ok r"
  define c where "c = collect_outcome (fr_now f) r"
  then have c: "rt_ok c" "rt_posted c = None" using collect_ok[OF \<open>rt_ok r\<close>] by auto
  define c' where "c' = (if k \<or> rt_eligible_since c < 0 then c\<lparr>rt_eligible_since := fr_now f\<rparr> else c)"
  have c': "rt_ok c'" "rt_posted c' = None" using c by (auto simp: c'_def rt_ok_def auto_pending_def)
  have "rt_ok (c'\<lparr>rt_policy := (rt_policy c')\<lparr>ap_last_ok_ms := x, ap_next_ms := y\<rparr>\<rparr>)" for x y
    using c' by (simp add: rt_ok_def auto_pending_def policy_ok_def)
  moreover have "poll_due (fr_now f) c' \<Longrightarrow> rt_ok (poll_decide f c')"
    using c' by (intro poll_decide_ok) (auto simp: poll_due_def)
  moreover have "rt_ok (c\<lparr>rt_eligible_since := - 1, rt_credentials := - 1\<rparr>)" using c(1) by (simp add: rt_ok_def auto_pending_def)
  moreover have "net_autosync_poll e k f r =
      (if \<not> e then c\<lparr>rt_eligible_since := - 1, rt_credentials := - 1\<rparr>
       else if \<not> poll_due (fr_now f) c' then c'
       else if ap_last_ok_ms (rt_policy c') < 0 \<and> fr_synchronized f then
         c'\<lparr>rt_policy := (rt_policy c')\<lparr>ap_last_ok_ms := fr_now f, ap_next_ms := fr_now f + AUTOSYNC_RESYNC_MS\<rparr>\<rparr>
       else poll_decide f c')"
    unfolding net_autosync_poll_def Let_def c_def c'_def by (rule refl)
  ultimately show ?thesis using c' by simp
qed

lemma autosync_step_ok: "rt_ok r \<Longrightarrow> rt_ok (autosync_step r e)"
proof (cases e)
  case (AsPoll a b f)
  then show "rt_ok r \<Longrightarrow> ?thesis" by (simp add: poll_ok)
next
  case (AsEnable on)
  then show "rt_ok r \<Longrightarrow> ?thesis" using policy_init_ok
    by (auto simp: rt_ok_def net_autosync_set_enabled_def auto_pending_def policy_ok_def autosync_policy_init_def Let_def)
next
  case (AsSyncNow b)
  then show "rt_ok r \<Longrightarrow> ?thesis"
    by (auto simp: rt_ok_def net_autosync_sync_now_def sync_worker_post_def auto_pending_def Let_def)
qed (auto simp: rt_ok_def yield_request_def worker_take_def run_auto_posts_def run_auto_clears_def run_manual_ends_def
    auto_pending_def)

lemma autosync_init_ok: "rt_ok (net_autosync_init made)"
  using policy_init_ok by (auto simp: rt_ok_def net_autosync_init_def autosync_runtime_zero_def auto_pending_def autosync_policy_init_def)

interpretation autosync_machine: started_machine autosync_step rt_ok "net_autosync_init made" for made
  by unfold_locales (rule autosync_step_ok, assumption, rule autosync_init_ok)

section \<open>What a start needs\<close>

lemma decide_start:
  "autosync_policy_decide p i now = (AUTOSYNC_START, p') \<Longrightarrow>
   \<not> ap_running p \<and> \<not> ap_gave_up p \<and> in_enabled i \<and> ap_next_ms p \<le> now \<and> AUTOSYNC_IDLE_MS \<le> in_idle_ms i \<and>
   in_has_credentials i \<and> \<not> in_app_asleep i \<and> AUTOSYNC_MIN_FREE \<le> in_free_bytes i \<and>
   AUTOSYNC_MIN_LARGEST \<le> in_largest_bytes i \<and> ap_attempts p < AUTOSYNC_MAX_ATTEMPTS"
  by (auto simp: autosync_policy_decide_def not_less not_le split: if_splits)

lemma poll_decide_starts:
  assumes "rt_worker r \<noteq> W_NOTIFIED" "rt_worker (poll_decide f r) = W_NOTIFIED"
  shows "\<not> ap_gave_up (rt_policy r) \<and> ap_next_ms (rt_policy r) \<le> fr_now f \<and> ap_attempts (rt_policy r) < AUTOSYNC_MAX_ATTEMPTS \<and>
    (rt_credentials r > 0 \<or> rt_credentials r < 0 \<and> fr_credentials f) \<and> \<not> fr_asleep f \<and>
    AUTOSYNC_MIN_FREE \<le> fr_free f \<and> AUTOSYNC_MIN_LARGEST \<le> fr_largest f"
proof -
  let ?r = "if rt_credentials r < 0 then r\<lparr>rt_credentials := (if fr_credentials f then 1 else 0)\<rparr> else r"
  obtain d q where d: "autosync_policy_decide (rt_policy ?r) \<lparr>in_enabled = rt_enabled ?r, in_has_credentials = rt_credentials ?r > 0,
      in_idle_ms = fr_now f - rt_eligible_since ?r, in_free_bytes = fr_free f,
      in_largest_bytes = fr_largest f, in_app_asleep = fr_asleep f\<rparr> (fr_now f) = (d, q)" by fastforce
  have "d = AUTOSYNC_START"
  proof (rule ccontr)
    assume "d \<noteq> AUTOSYNC_START"
    then have "rt_worker (poll_decide f r) = rt_worker r" by (simp add: poll_decide_def d Let_def)
    with assms show False by simp
  qed
  with decide_start d have "\<not> ap_gave_up (rt_policy ?r) \<and> ap_next_ms (rt_policy ?r) \<le> fr_now f \<and> rt_credentials ?r > 0 \<and>
    \<not> fr_asleep f \<and> AUTOSYNC_MIN_FREE \<le> fr_free f \<and> AUTOSYNC_MIN_LARGEST \<le> fr_largest f \<and>
    ap_attempts (rt_policy ?r) < AUTOSYNC_MAX_ATTEMPTS" by fastforce
  then show ?thesis by (auto split: if_splits)
qed

lemma collect_fields:
  "rt_enabled (collect_outcome now r) = rt_enabled r" "rt_worker (collect_outcome now r) = rt_worker r"
  "rt_active (collect_outcome now r) = rt_active r" "rt_credentials (collect_outcome now r) = rt_credentials r"
  "rt_eligible_since (collect_outcome now r) = rt_eligible_since r"
  by (simp_all add: collect_outcome_def split: option.split)

text \<open>An attempt always returns, and the link is held by exactly those who held it before.\<close>

lemma attempt_gives_back:
  assumes clk: "clock_runs q clk" and s: "ns_ok s" "ns_total s \<noteq> U32_MAX"
  shows "\<exists>out s' w'. autosync_attempt q s w = Some (out, s', w') \<and> ns_ok s' \<and> ns_bag s' = ns_bag s"
proof -
  obtain err s1 w1 where a: "net_service_acquire (op_link q) (Some HOLDER) s w = (err, s1, w1)" by (metis prod_cases3)
  note acq = net_service_acquire_exact[OF s a]
  show ?thesis
  proof (cases "err = ESP_OK")
    case False
    with acq s a show ?thesis by (auto simp: autosync_attempt_def)
  next
    case True
    with acq have s1: "ns_ok s1" "ns_bag s1 = add_mset HOLDER (ns_bag s)" by auto
    note gives = give_back_ok[OF clk s1(1), unfolded s1(2), simplified]
    obtain began w2 where n: "op_now_ms q w1 = (began, w2)" by fastforce
    obtain x where "connect_loop q s1 began w2 = Some x" using connect_loop_ends[OF clk] by blast
    then obtain c w3 where c: "connect_loop q s1 began w2 = Some (c, w3)" by (cases x) auto
    obtain out w4 where k: "ask_clock q s1 w3 = Some (out, w4)" using ask_clock_ends[OF clk] by blast
    have "\<exists>out v. autosync_attempt q s w = give_back q out s1 v"
      using a n c k True by (cases c) (auto simp: autosync_attempt_def split: if_splits)
    then obtain o1 v where "autosync_attempt q s w = give_back q o1 s1 v" by blast
    with gives[of o1 v] show ?thesis by auto
  qed
qed

section \<open>Properties\<close>

text \<open>A yield costs the policy nothing but its distance.\<close>

lemma policy_yield_free:
  assumes "autosync_policy_decide p i now = (AUTOSYNC_START, p1)"
  shows "autosync_policy_record p1 AUTOSYNC_ABORTED later = p\<lparr>ap_running := False, ap_next_ms := later + AUTOSYNC_ABORT_RETRY_MS\<rparr>"
  using assms by (auto simp: autosync_policy_decide_def autosync_policy_record_def split: if_splits)


text \<open>Property C33: apps first. A frame that starts an automatic attempt was one where the home screen has been eligible
  and quiet for ten seconds without a key in this frame, the setting is on, the time of the next attempt has
  come, nothing has been given up, credentials are stored, no app is kept asleep, 64 KiB are free with a block
  of 16 KiB, and the worker had no job.\<close>

theorem net_autosync_start_polite:
  assumes "rt_ok r" "rt_worker r \<noteq> W_NOTIFIED" "rt_worker (net_autosync_poll e k f r) = W_NOTIFIED"
  shows "e \<and> \<not> k \<and> rt_enabled r \<and> rt_worker r = W_WAITS \<and>
    fr_now f - rt_eligible_since r \<ge> AUTOSYNC_IDLE_MS \<and>
    ap_next_ms (rt_policy (collect_outcome (fr_now f) r)) \<le> fr_now f \<and>
    \<not> ap_gave_up (rt_policy (collect_outcome (fr_now f) r)) \<and>
    ap_attempts (rt_policy (collect_outcome (fr_now f) r)) < AUTOSYNC_MAX_ATTEMPTS \<and>
    (rt_credentials r > 0 \<or> rt_credentials r < 0 \<and> fr_credentials f) \<and> \<not> fr_asleep f \<and>
    AUTOSYNC_MIN_FREE \<le> fr_free f \<and> AUTOSYNC_MIN_LARGEST \<le> fr_largest f"
proof -
  define c where "c = collect_outcome (fr_now f) r"
  define c' where "c' = (if k \<or> rt_eligible_since c < 0 then c\<lparr>rt_eligible_since := fr_now f\<rparr> else c)"
  have p: "net_autosync_poll e k f r =
      (if \<not> e then c\<lparr>rt_eligible_since := - 1, rt_credentials := - 1\<rparr>
       else if \<not> poll_due (fr_now f) c' then c'
       else if ap_last_ok_ms (rt_policy c') < 0 \<and> fr_synchronized f then
         c'\<lparr>rt_policy := (rt_policy c')\<lparr>ap_last_ok_ms := fr_now f, ap_next_ms := fr_now f + AUTOSYNC_RESYNC_MS\<rparr>\<rparr>
       else poll_decide f c')"
    unfolding net_autosync_poll_def Let_def c_def c'_def by (rule refl)
  have w: "rt_worker c' \<noteq> W_NOTIFIED" "rt_worker c \<noteq> W_NOTIFIED" "rt_policy c' = rt_policy c"
    "rt_credentials c' = rt_credentials r" "rt_enabled c' = rt_enabled r" "rt_active c' = rt_active r"
    using assms(2) by (auto simp: c'_def c_def collect_fields)
  from p assms(3) w(1,2) have d: "e" "poll_due (fr_now f) c'" "net_autosync_poll e k f r = poll_decide f c'"
    by (auto split: if_splits)
  have i: "AUTOSYNC_IDLE_MS \<le> fr_now f - rt_eligible_since c'" "rt_enabled r" "\<not> rt_active r"
    using d(2) w by (auto simp: poll_due_def)
  then have "\<not> k" "rt_eligible_since c' = rt_eligible_since r"
    by (auto simp: c'_def c_def collect_fields AUTOSYNC_IDLE_MS_def split: if_splits)
  moreover have "rt_worker r = W_WAITS" using assms(1) i(3) by (simp add: rt_ok_def)
  ultimately show ?thesis using poll_decide_starts[OF w(1), of f] assms(3) d i w(3,4) by (simp add: c_def)
qed

definition test_frame_at :: "int \<Rightarrow> frame_readings" where
  "test_frame_at t = \<lparr>fr_now = t, fr_synchronized = False, fr_credentials = True, fr_free = 200000, fr_largest = 100000,
     fr_asleep = False\<rparr>"

definition test_quiet :: autosync_runtime where
  "test_quiet = foldl autosync_step (net_autosync_init True) [AsPoll True True (test_frame_at 5)]"

lemma test_quiet_ok: "rt_ok test_quiet"
  unfolding test_quiet_def by (rule autosync_machine.reachable_inv)

lemma test_quiet_starts:
  "rt_worker test_quiet = W_WAITS" "rt_worker (net_autosync_poll True False (test_frame_at 10005) test_quiet) = W_NOTIFIED"
  by (simp_all add: test_quiet_def net_autosync_init_def autosync_runtime_zero_def autosync_policy_init_def test_frame_at_def
      net_autosync_poll_def collect_outcome_def poll_due_def poll_decide_def autosync_policy_decide_def sync_worker_post_def
      AUTOSYNC_IDLE_MS_def AUTOSYNC_MIN_FREE_def AUTOSYNC_MIN_LARGEST_def AUTOSYNC_MAX_ATTEMPTS_def)

theorem net_autosync_start_polite_witness:
  "rt_enabled test_quiet \<and> fr_now (test_frame_at 10005) - rt_eligible_since test_quiet \<ge> AUTOSYNC_IDLE_MS"
  using net_autosync_start_polite[OF test_quiet_ok, of True False "test_frame_at 10005"] test_quiet_starts by simp

text \<open>Property C34: an attempt ends and gives the link back. Over any hooks whose clock does not run backwards and whose
  sleeps and timed-out waits take their time, whatever the link, SNTP and the yields do, the attempt returns,
  and afterwards the radio is held by exactly the holders that held it before.\<close>

theorem autosync_attempt_gives_back:
  assumes "clock_runs q clk" "ns_ok s" "ns_total s \<noteq> U32_MAX"
  shows "\<exists>out s' w'. autosync_attempt q s w = Some (out, s', w') \<and> ns_ok s' \<and> ns_bag s' = ns_bag s"
  using assms by (rule attempt_gives_back)

text \<open>A radio that associates after 300 ms and whose SNTP answers half a second later; the world is the clock
and whether the link is started.\<close>

definition test_radio :: "(int \<times> bool) autosync_ops" where
  "test_radio = \<lparr>op_link = \<lparr>lk_owner = (\<lambda>w. if snd w then LINK_SERVICE else LINK_NOBODY),
       lk_state = (\<lambda>w. if fst w < 300 then LINK_CONNECTING else LINK_UP),
       lk_start = (\<lambda>_ w. (ESP_OK, (fst w, True))), lk_stop = (\<lambda>_ w. (fst w, False))\<rparr>,
     op_now_ms = (\<lambda>w. (fst w, w)), op_sleep_ms = (\<lambda>n w. (fst w + n, snd w)), op_abort_requested = (\<lambda>w. (False, w)),
     op_sntp_start = (\<lambda>w. (ESP_OK, w)),
     op_sntp_wait = (\<lambda>n w. (if fst w < 800 then ESP_ERR_TIMEOUT else ESP_OK, (fst w + n, snd w))),
     op_sntp_stop = (\<lambda>w. w), op_set_synchronized = (\<lambda>w. w), op_radio_busy = (\<lambda>w. (False, w)),
     op_status = (\<lambda>w. (WIFI_TIME_STAGE_NONE, 0)), op_settle = (\<lambda>_ _ _ w. w)\<rparr>"

lemma test_radio_clock: "clock_runs test_radio fst"
  by (simp add: clock_runs_def test_radio_def)

lemma sum_list_empty: "sum_list (replicate n ({#} :: 'a multiset)) = {#}"
  by (induction n) auto

lemma zero_ok: "ns_ok net_service_zero \<and> ns_total net_service_zero \<noteq> U32_MAX"
  by (simp add: ns_ok_def net_service_zero_def ns_bag_def hold_bag_def unique_by_def sum_list_empty)

theorem autosync_attempt_gives_back_witness:
  "\<exists>out s' w'. autosync_attempt test_radio net_service_zero (0, False) = Some (out, s', w') \<and> ns_bag s' = ns_bag net_service_zero"
  using autosync_attempt_gives_back[OF test_radio_clock, of net_service_zero "(0, False)"] zero_ok by auto

end
