(* ===== verification/SdPath.thy ===== *)
theory SdPath
  imports Prelude
begin

text \<open>
  The rules of the SD volume that need no card (\<open>main/pocket/sd_path.h\<close>, \<open>sd_path.c\<close>): the state
  of the media, the folder a person granted, the translation of a virtual path to the path of the
  FAT driver below it, and the ladder of transfer clocks a mount walks down.

  A \<open>char\<close> array is the list of its bytes up to the terminating NUL.  The proofs compare the walk of
  \<open>sd_path_build\<close> over a path with its split at the separators, and the answer with the place a file
  system reaches by following that path component by component.
\<close>

section \<open>Media and grant\<close>

datatype sd_media_state = SD_MEDIA_ABSENT | SD_MEDIA_READY | SD_MEDIA_ERROR

definition SD_MOUNT_POINT :: bytes where "SD_MOUNT_POINT = ascii ''/sd''"
abbreviation SD_ROOT_MAX :: nat where "SD_ROOT_MAX \<equiv> 96"
abbreviation SD_FSPATH_MAX :: nat where "SD_FSPATH_MAX \<equiv> 320"

abbreviation slash :: u8 where "slash \<equiv> 47"
abbreviation dot :: u8 where "dot \<equiv> 46"
abbreviation backslash :: u8 where "backslash \<equiv> 92"

record sd_media =
  sdm_state :: sd_media_state
  sdm_generation :: u32
  sdm_granted :: bool
  sdm_root :: bytes

definition sd_media_reset :: sd_media where
  "sd_media_reset = \<lparr>sdm_state = SD_MEDIA_ABSENT, sdm_generation = 0, sdm_granted = False, sdm_root = []\<rparr>"

definition sd_media_mounted :: "sd_media \<Rightarrow> sd_media" where
  "sd_media_mounted m = m\<lparr>sdm_state := SD_MEDIA_READY, sdm_generation := sdm_generation m + 1\<rparr>"

definition sd_media_revoke :: "sd_media \<Rightarrow> sd_media" where
  "sd_media_revoke m = m\<lparr>sdm_granted := False, sdm_root := []\<rparr>"

definition sd_media_removed :: "sd_media \<Rightarrow> sd_media" where
  "sd_media_removed m = sd_media_revoke (m\<lparr>sdm_state := SD_MEDIA_ABSENT\<rparr>)"

definition sd_media_failed :: "sd_media \<Rightarrow> sd_media" where
  "sd_media_failed m = m\<lparr>sdm_state := SD_MEDIA_ERROR\<rparr>"

text \<open>\<open>folder\<close> is the name of \<open>len\<close> bytes, \<open>None\<close> the null pointer; \<open>sizeof(SD_MOUNT_POINT)\<close> counts
  the NUL.\<close>

definition sd_media_grant :: "sd_media \<Rightarrow> bytes option \<Rightarrow> bool \<times> sd_media" where
  "sd_media_grant m folder = (case folder of
     None \<Rightarrow> (False, m)
   | Some f \<Rightarrow>
       if f = [] then (False, m)
       else if length f = 1 \<and> f ! 0 = dot then (False, m)
       else if length f = 2 \<and> f ! 0 = dot \<and> f ! 1 = dot then (False, m)
       else if \<exists>c \<in> set f. c = slash \<or> c = backslash \<or> c = 0 then (False, m)
       else if (length SD_MOUNT_POINT + 1) + 1 + length f > SD_ROOT_MAX then (False, m)
       else (True, m\<lparr>sdm_root := SD_MOUNT_POINT @ [slash] @ f, sdm_granted := True\<rparr>))"

definition sd_media_usable :: "sd_media \<Rightarrow> bool" where
  "sd_media_usable m \<longleftrightarrow> sdm_state m = SD_MEDIA_READY \<and> sdm_granted m"

definition sd_generation_valid :: "sd_media \<Rightarrow> u32 \<Rightarrow> bool" where
  "sd_generation_valid m gen \<longleftrightarrow> gen \<noteq> 0 \<and> sdm_state m = SD_MEDIA_READY \<and> sdm_generation m = gen"

section \<open>Paths\<close>

datatype sd_path_result =
  SD_PATH_OK | SD_PATH_NO_GRANT | SD_PATH_DISCONNECTED | SD_PATH_INVALID | SD_PATH_TOO_LONG

definition SD_TEMP_SUFFIX :: bytes where "SD_TEMP_SUFFIX = ascii ''.pkt-tmp''"

definition sd_name_reserved :: "bytes \<Rightarrow> bool" where
  "sd_name_reserved name =
     (let n = length SD_TEMP_SUFFIX
      in n \<le> length name \<and> take n (drop (length name - n) name) = SD_TEMP_SUFFIX)"

text \<open>What the loop of \<open>sd_path_build\<close> refuses of one component.\<close>

definition sd_component_bad :: "bytes \<Rightarrow> bool" where
  "sd_component_bad c \<longleftrightarrow>
     length c = 0 \<or> length c = 1 \<and> c ! 0 = dot \<or> length c = 2 \<and> c ! 0 = dot \<and> c ! 1 = dot \<or>
     (\<exists>k \<in> set c. k = backslash \<or> k = 0) \<or> sd_name_reserved c"

text \<open>The loop itself, on what is left of the path; \<open>True\<close> when it ends without refusing.\<close>

function sd_walk :: "bytes \<Rightarrow> bool" where
  "sd_walk rest =
     (if rest = [] then True
      else let c = takeWhile (\<lambda>b. b \<noteq> slash) rest;
               after = dropWhile (\<lambda>b. b \<noteq> slash) rest
           in if sd_component_bad c then False else sd_walk (tl after))"
  by pat_completeness auto

termination
proof (relation "measure length", simp)
  fix rest :: bytes and c after
  assume ne: "rest \<noteq> []" and c: "c = takeWhile (\<lambda>b. b \<noteq> slash) rest"
    and a: "after = dropWhile (\<lambda>b. b \<noteq> slash) rest" and ok: "\<not> sd_component_bad c"
  from ok have "c \<noteq> []" by (auto simp: sd_component_bad_def)
  moreover have "length c + length after = length rest"
    unfolding c a by (metis length_append takeWhile_dropWhile_id)
  ultimately show "(tl after, rest) \<in> measure length" by (cases c) auto
qed

declare sd_walk.simps [simp del]

definition sd_path_build :: "sd_media \<Rightarrow> bytes \<Rightarrow> bytes \<Rightarrow> nat \<Rightarrow> sd_path_result \<times> bytes" where
  "sd_path_build m rel out outsz =
     (if \<not> sdm_granted m then (SD_PATH_NO_GRANT, out)
      else if sdm_state m \<noteq> SD_MEDIA_READY then (SD_PATH_DISCONNECTED, out)
      else let rootn = length (sdm_root m) in
        if rootn = 0 then (SD_PATH_NO_GRANT, out)
        else if rel = [] then
          (if rootn + 1 > outsz then (SD_PATH_TOO_LONG, out) else (SD_PATH_OK, sdm_root m))
        else if hd rel = slash \<or> last rel = slash then (SD_PATH_INVALID, out)
        else if \<not> sd_walk rel then (SD_PATH_INVALID, out)
        else if rootn + 1 + length rel + 1 > outsz \<or> rootn + 1 + length rel + 1 > SD_FSPATH_MAX
          then (SD_PATH_TOO_LONG, out)
        else (SD_PATH_OK, sdm_root m @ [slash] @ rel))"

section \<open>The clock ladder\<close>

datatype sd_mount_outcome = SD_MOUNT_OK | SD_MOUNT_ABSENT | SD_MOUNT_REFUSED

definition SD_CLOCK_LADDER :: "int list" where "SD_CLOCK_LADDER = [40000, 20000, 10000, 4000, 400]"

fun clock_after :: "int list \<Rightarrow> int \<Rightarrow> int" where
  "clock_after (a # b # cs) khz = (if a = khz then b else clock_after (b # cs) khz)"
| "clock_after _ khz = 0"

definition sd_clock_next :: "int \<Rightarrow> sd_mount_outcome \<Rightarrow> int" where
  "sd_clock_next khz outcome =
     (if outcome \<noteq> SD_MOUNT_REFUSED then 0 else clock_after SD_CLOCK_LADDER khz)"

definition sd_clock_boost :: "int \<Rightarrow> int" where
  "sd_clock_boost mounted_khz = (if mounted_khz = 20000 then 25000 else 0)"

section \<open>The grant over a history of the media\<close>

datatype sd_event = SdMounted | SdRemoved | SdFailed | SdGrant "bytes option" | SdRevoke

primrec sd_media_step :: "sd_media \<Rightarrow> sd_event \<Rightarrow> sd_media" where
  "sd_media_step m SdMounted = sd_media_mounted m"
| "sd_media_step m SdRemoved = sd_media_removed m"
| "sd_media_step m SdFailed = sd_media_failed m"
| "sd_media_step m (SdGrant f) = snd (sd_media_grant m f)"
| "sd_media_step m SdRevoke = sd_media_revoke m"

text \<open>A folder name a person can choose: one component that fits \<open>root\<close>.\<close>

definition folder_ok :: "bytes \<Rightarrow> bool" where
  "folder_ok f \<longleftrightarrow> f \<noteq> [] \<and> f \<noteq> [dot] \<and> f \<noteq> [dot, dot] \<and>
     slash \<notin> set f \<and> backslash \<notin> set f \<and> 0 \<notin> set f \<and> length f \<le> 91"

text \<open>The contract: the grant is the last acceptable choice, and a removal or a revocation ends it.\<close>

primrec chosen_step :: "bytes option \<Rightarrow> sd_event \<Rightarrow> bytes option" where
  "chosen_step g SdMounted = g"
| "chosen_step g SdRemoved = None"
| "chosen_step g SdFailed = g"
| "chosen_step g (SdGrant f) = (case f of Some n \<Rightarrow> if folder_ok n then Some n else g | None \<Rightarrow> g)"
| "chosen_step g SdRevoke = None"

definition chosen :: "sd_event list \<Rightarrow> bytes option" where
  "chosen es = foldl chosen_step None es"

definition grant_rel :: "sd_media \<Rightarrow> bytes option \<Rightarrow> bool" where
  "grant_rel m g \<longleftrightarrow> (case g of
     None \<Rightarrow> \<not> sdm_granted m
   | Some f \<Rightarrow> folder_ok f \<and> sdm_granted m \<and> sdm_root m = SD_MOUNT_POINT @ [slash] @ f)"

lemma mount_point_bytes [simp]: "SD_MOUNT_POINT = [slash, 115, 100]"
  by (simp add: SD_MOUNT_POINT_def ascii_def of_char_def)

lemma temp_suffix_length [simp]: "length SD_TEMP_SUFFIX = 8"
  by (simp add: SD_TEMP_SUFFIX_def ascii_def)

lemma len_two: "length f = 2 \<and> f ! 0 = a \<and> f ! 1 = b \<longleftrightarrow> f = [a, b]"
  by (auto simp: numeral_2_eq_2 length_Suc_conv)

lemma len_one: "length f = Suc 0 \<and> f ! 0 = a \<longleftrightarrow> f = [a]"
  by (auto simp: length_Suc_conv)

lemma sd_media_grant_folder:
  "sd_media_grant m folder = (case folder of
     Some f \<Rightarrow> if folder_ok f then (True, m\<lparr>sdm_root := SD_MOUNT_POINT @ [slash] @ f, sdm_granted := True\<rparr>)
              else (False, m)
   | None \<Rightarrow> (False, m))"
proof (cases folder)
  case (Some f)
  have "(length f = 1 \<and> f ! 0 = dot) = (f = [dot])" by (simp add: len_one)
  moreover have "(length f = 2 \<and> f ! 0 = dot \<and> f ! 1 = dot) = (f = [dot, dot])" by (rule len_two)
  moreover have "(\<exists>c \<in> set f. c = slash \<or> c = backslash \<or> c = 0) \<longleftrightarrow>
      \<not> (slash \<notin> set f \<and> backslash \<notin> set f \<and> 0 \<notin> set f)" by blast
  ultimately show ?thesis
    unfolding sd_media_grant_def Some option.case folder_ok_def by (simp only: mount_point_bytes) auto
qed (simp add: sd_media_grant_def)

lemma grant_rel_step: "grant_rel m g \<Longrightarrow> grant_rel (sd_media_step m e) (chosen_step g e)"
  by (cases e)
     (auto simp: grant_rel_def sd_media_mounted_def sd_media_removed_def sd_media_failed_def
       sd_media_revoke_def sd_media_grant_folder split: option.splits)

lemma grant_rel_run: "grant_rel m g \<Longrightarrow> grant_rel (foldl sd_media_step m es) (foldl chosen_step g es)"
  by (induction es arbitrary: m g) (auto intro: grant_rel_step)

lemma grant_rel_history: "grant_rel (foldl sd_media_step sd_media_reset es) (chosen es)"
  unfolding chosen_def by (rule grant_rel_run) (simp add: grant_rel_def sd_media_reset_def)

section \<open>Splitting a path at its separators\<close>

text \<open>The reference reading of a path: its components, and the place a file system reaches from its
  root by entering them one by one.\<close>

fun comps :: "bytes \<Rightarrow> bytes list" where
  "comps [] = [[]]"
| "comps (b # bs) = (if b = slash then [] # comps bs else (b # hd (comps bs)) # tl (comps bs))"

definition enter :: "bytes list \<Rightarrow> bytes \<Rightarrow> bytes list" where
  "enter place c = (if c = [] \<or> c = [dot] then place
                    else if c = [dot, dot] then butlast place
                    else place @ [c])"

definition fs_place :: "bytes \<Rightarrow> bytes list" where
  "fs_place p = foldl enter [] (comps p)"

definition name_ok :: "bytes \<Rightarrow> bool" where
  "name_ok c \<longleftrightarrow> c \<noteq> [] \<and> c \<noteq> [dot] \<and> c \<noteq> [dot, dot] \<and> backslash \<notin> set c \<and> 0 \<notin> set c \<and>
     \<not> (\<exists>stem. c = stem @ SD_TEMP_SUFFIX)"

lemma comps_nonempty [simp]: "comps p \<noteq> []"
  by (cases p) auto

lemma comps_append_slash: "comps (p @ slash # q) = comps p @ comps q"
  by (induction p) auto

lemma comps_plain: "slash \<notin> set p \<Longrightarrow> comps p = [p]"
  by (induction p) auto

lemma comps_no_slash: "c \<in> set (comps p) \<Longrightarrow> slash \<notin> set c"
proof (induction p arbitrary: c)
  case (Cons b p)
  then show ?case by (cases "comps p") (auto split: if_splits)
qed simp

lemma comps_join: "concat (map (\<lambda>c. c @ [slash]) (comps p)) = p @ [slash]"
proof (induction p)
  case (Cons b p)
  then show ?case by (cases "comps p") auto
qed simp

lemma reserved_suffix: "sd_name_reserved c \<longleftrightarrow> (\<exists>stem. c = stem @ SD_TEMP_SUFFIX)"
proof
  assume r: "sd_name_reserved c"
  then have "8 \<le> length c" "take 8 (drop (length c - 8) c) = SD_TEMP_SUFFIX"
    by (auto simp: sd_name_reserved_def Let_def)
  then have "drop (length c - 8) c = SD_TEMP_SUFFIX" by simp
  then have "c = take (length c - 8) c @ SD_TEMP_SUFFIX" by (metis append_take_drop_id)
  then show "\<exists>stem. c = stem @ SD_TEMP_SUFFIX" ..
qed (auto simp: sd_name_reserved_def)

lemma component_name: "sd_component_bad c \<longleftrightarrow> \<not> name_ok c"
proof -
  have "(length c = 1 \<and> c ! 0 = dot) = (c = [dot])" by (simp add: len_one)
  moreover have "(length c = 2 \<and> c ! 0 = dot \<and> c ! 1 = dot) = (c = [dot, dot])" by (rule len_two)
  ultimately show ?thesis unfolding sd_component_bad_def name_ok_def reserved_suffix by auto
qed

lemma name_ok_Nil: "\<not> name_ok []"
  by (simp add: name_ok_def)

lemma walk_comps: "rel \<noteq> [] \<Longrightarrow> last rel \<noteq> slash \<Longrightarrow> sd_walk rel \<longleftrightarrow> list_all name_ok (comps rel)"
proof (induction rel rule: sd_walk.induct)
  case (1 rel)
  define c where "c = takeWhile (\<lambda>b. b \<noteq> slash) rel"
  define after where "after = dropWhile (\<lambda>b. b \<noteq> slash) rel"
  have split: "rel = c @ after" and c: "slash \<notin> set c"
    using set_takeWhileD by (force simp: c_def after_def)+
  have walk: "sd_walk rel \<longleftrightarrow> name_ok c \<and> sd_walk (tl after)"
    using 1(2) by (subst sd_walk.simps) (simp add: Let_def c_def[symmetric] after_def[symmetric] component_name)
  show ?case
  proof (cases after)
    case Nil
    then show ?thesis using walk split c by (simp add: comps_plain sd_walk.simps)
  next
    case (Cons b q)
    have b: "b = slash" using Cons hd_dropWhile[of "\<lambda>b. b \<noteq> slash" rel] by (simp add: after_def)
    have q: "q \<noteq> []" "last q \<noteq> slash" using 1(3) split Cons b by (auto split: if_splits)
    have "sd_walk (tl after) \<longleftrightarrow> list_all name_ok (comps q)" if "name_ok c"
      using 1(1)[OF 1(2) c_def after_def] that q Cons by (simp add: component_name)
    then show ?thesis using walk split c Cons b by (auto simp: comps_append_slash comps_plain)
  qed
qed

lemma comps_head: "rel \<noteq> [] \<Longrightarrow> hd rel = slash \<Longrightarrow> [] \<in> set (comps rel)"
  by (cases rel) auto

lemma comps_last: "rel \<noteq> [] \<Longrightarrow> last rel = slash \<Longrightarrow> [] \<in> set (comps rel)"
  using comps_append_slash[of "butlast rel" "[]"] by (metis append_butlast_last_id comps.simps(1) in_set_conv_decomp)

lemma path_accepted:
  "rel \<noteq> [] \<Longrightarrow> hd rel \<noteq> slash \<and> last rel \<noteq> slash \<and> sd_walk rel \<longleftrightarrow> list_all name_ok (comps rel)"
  using walk_comps comps_head comps_last name_ok_Nil by (auto simp: list_all_iff)

lemma enter_names: "list_all name_ok cs \<Longrightarrow> foldl enter place cs = place @ cs"
  by (induction cs arbitrary: place) (auto simp: enter_def name_ok_def)

lemma enter_folder: "folder_ok f \<Longrightarrow> enter place f = place @ [f]"
  by (auto simp: enter_def folder_ok_def)

lemma root_comps: "folder_ok f \<Longrightarrow> comps (SD_MOUNT_POINT @ [slash] @ f) = [[], [115, 100], f]"
  using comps_append_slash[of "[slash, 115, 100]" f] by (simp add: folder_ok_def comps_plain)

lemma place_root: "folder_ok f \<Longrightarrow> fs_place (SD_MOUNT_POINT @ [slash] @ f) = [[115, 100], f]"
  unfolding fs_place_def root_comps by (simp add: enter_folder) (simp add: enter_def)

lemma place_below:
  assumes "folder_ok f" "list_all name_ok (comps rel)"
  shows "fs_place ((SD_MOUNT_POINT @ [slash] @ f) @ [slash] @ rel) = [[115, 100], f] @ comps rel"
proof -
  have "fs_place ((SD_MOUNT_POINT @ [slash] @ f) @ [slash] @ rel) =
        foldl enter (fs_place (SD_MOUNT_POINT @ [slash] @ f)) (comps rel)"
    using comps_append_slash[of "SD_MOUNT_POINT @ [slash] @ f" rel] by (simp add: fs_place_def)
  then show ?thesis using assms by (simp only: place_root enter_names)
qed

section \<open>What a path may reach\<close>

lemma sd_path_build_granted:
  assumes "grant_rel m (Some f)"
  shows "sd_path_build m rel out outsz =
     (if sdm_state m \<noteq> SD_MEDIA_READY then (SD_PATH_DISCONNECTED, out)
      else if rel = [] then
        (if length f + 5 > outsz then (SD_PATH_TOO_LONG, out) else (SD_PATH_OK, sdm_root m))
      else if \<not> list_all name_ok (comps rel) then (SD_PATH_INVALID, out)
      else if length f + length rel + 6 > min outsz SD_FSPATH_MAX then (SD_PATH_TOO_LONG, out)
      else (SD_PATH_OK, sdm_root m @ [slash] @ rel))"
  using assms path_accepted[of rel]
  by (auto simp: sd_path_build_def grant_rel_def Let_def min_def)

text \<open>For every history of the media and every path, the answer of sd_path_build is the one
  of the reference: without a chosen folder the refusal is the same whatever the card does; then the card; then a
  path is accepted exactly when every component is a name an app may use; then the two lengths.\<close>

theorem sd_path_build_exact:
  "fst (sd_path_build (foldl sd_media_step sd_media_reset es) rel out outsz) =
     (case chosen es of
        None \<Rightarrow> SD_PATH_NO_GRANT
      | Some f \<Rightarrow>
          if sdm_state (foldl sd_media_step sd_media_reset es) \<noteq> SD_MEDIA_READY then SD_PATH_DISCONNECTED
          else if rel \<noteq> [] \<and> \<not> list_all name_ok (comps rel) then SD_PATH_INVALID
          else if (if rel = [] then length f + 5 > outsz
                   else length f + length rel + 6 > min outsz SD_FSPATH_MAX) then SD_PATH_TOO_LONG
          else SD_PATH_OK)"
proof (cases "chosen es")
  case None
  then show ?thesis using grant_rel_history[of es] by (simp add: grant_rel_def sd_path_build_def)
next
  case (Some f)
  then show ?thesis
    using sd_path_build_granted[of _ f rel out outsz] grant_rel_history[of es] by simp
qed

lemma accepted_place:
  assumes r: "grant_rel m g" and ok: "sd_path_build m rel out outsz = (SD_PATH_OK, p)"
  shows "\<exists>f. g = Some f \<and> folder_ok f \<and> length p < outsz \<and> length p < SD_FSPATH_MAX \<and>
     fs_place p = [[115, 100], f] @ (if rel = [] then [] else comps rel) \<and>
     (rel \<noteq> [] \<longrightarrow> list_all name_ok (comps rel))"
proof (cases g)
  case None
  then show ?thesis using r ok by (simp add: grant_rel_def sd_path_build_def)
next
  case (Some f)
  then have r: "grant_rel m (Some f)" using r by simp
  then have f: "folder_ok f" "sdm_root m = SD_MOUNT_POINT @ [slash] @ f" "length f \<le> 91"
    by (auto simp: grant_rel_def folder_ok_def)
  show ?thesis
  proof (cases "rel = []")
    case True
    then have "p = sdm_root m" "length f + 5 \<le> outsz"
      using ok sd_path_build_granted[OF r] by (auto split: if_splits)
    then show ?thesis using True Some f place_root[OF f(1)] by simp
  next
    case False
    then have p: "p = sdm_root m @ [slash] @ rel" "list_all name_ok (comps rel)"
        "length f + length rel + 6 \<le> outsz" "length f + length rel + 6 \<le> SD_FSPATH_MAX"
      using ok sd_path_build_granted[OF r] by (auto split: if_splits)
    then show ?thesis using False Some f place_below[OF f(1) p(2)] by simp
  qed
qed

text \<open>Property C11: an app never leaves the folder it was given: an accepted path fits the buffer with its NUL and,
  followed component by component from the root of the file system, ends inside the folder that is the last
  choice of the person since the card was last removed or the grant revoked, at the components of the virtual
  path, none of which is a temporary name of the host.\<close>

theorem sd_path_confined:
  assumes "sd_path_build (foldl sd_media_step sd_media_reset es) rel out outsz = (SD_PATH_OK, p)"
  shows "\<exists>f. chosen es = Some f \<and> folder_ok f \<and> length p < outsz \<and> length p < SD_FSPATH_MAX \<and>
     fs_place p = [[115, 100], f] @ (if rel = [] then [] else comps rel) \<and>
     (rel \<noteq> [] \<longrightarrow> list_all name_ok (comps rel))"
  by (rule accepted_place[OF grant_rel_history assms])

lemma sd_path_confined_witness:
  "fs_place (snd (sd_path_build (foldl sd_media_step sd_media_reset [SdMounted, SdGrant (Some (ascii ''pocket''))])
      (ascii ''a/b'') [] 320)) = [ascii ''sd'', ascii ''pocket'', ascii ''a'', ascii ''b'']"
proof -
  let ?es = "[SdMounted, SdGrant (Some (ascii ''pocket''))]" and ?rel = "ascii ''a/b''"
  let ?m = "foldl sd_media_step sd_media_reset ?es"
  have f: "folder_ok (ascii ''pocket'')" by (simp add: folder_ok_def ascii_def of_char_def)
  have m: "chosen ?es = Some (ascii ''pocket'')" using f by (simp add: chosen_def)
  have st: "sdm_state ?m = SD_MEDIA_READY"
    using f by (simp add: sd_media_mounted_def sd_media_grant_folder)
  have c: "comps ?rel = [ascii ''a'', ascii ''b'']" by (simp add: ascii_def of_char_def)
  have n: "name_ok (ascii ''a'')" "name_ok (ascii ''b'')"
    by (simp_all add: name_ok_def ascii_def of_char_def SD_TEMP_SUFFIX_def Cons_eq_append_conv)
  have "fst (sd_path_build ?m ?rel [] 320) = SD_PATH_OK"
    using sd_path_build_granted[of ?m "ascii ''pocket''" ?rel "[]" 320] grant_rel_history[of ?es] m st c n
    by (simp add: ascii_def)
  then obtain p where p: "sd_path_build ?m ?rel [] 320 = (SD_PATH_OK, p)" by (cases "sd_path_build ?m ?rel [] 320") simp
  from sd_path_confined[OF p] m c p show ?thesis by (simp add: ascii_def of_char_def)
qed

text \<open>A grant that is made while no card is in the slot stays, and the next mount makes it usable: nothing in
  \<open>sd_media_grant\<close> asks whether a card is there.\<close>

lemma grant_before_mount_survives:
  assumes "folder_ok f"
  shows "\<exists>m. m = foldl sd_media_step sd_media_reset [SdMounted, SdRemoved, SdGrant (Some f), SdMounted] \<and>
     sd_media_usable m \<and> sdm_generation m = 2"
  using assms
  by (simp add: sd_media_usable_def sd_media_mounted_def sd_media_removed_def sd_media_revoke_def
      sd_media_grant_folder sd_media_reset_def)

end
