(* ===== verification/SdLease.thy ===== *)
theory SdLease
  imports Prelude
begin

text \<open>
  The read leases of the SD card (\<open>main/pocket/sd_lease.h\<close>, \<open>sd_lease.c\<close>): the registry of the owner
  task and the tokens it shares with its workers.

  A token lives at an address of the store \<open>h\<close>; the registry is an intrusive singly linked list through
  \<open>l_next\<close>.  The operations are polymorphic in the rest of the token's record, since the C code embeds a
  token as the first member of a larger structure.  A loop over the list is a loop over \<open>lease_chain\<close>,
  which has no value when the links form a cycle; \<open>lseg\<close> says that they form a list, and every
  operation keeps it.
\<close>

section \<open>Tokens and registry\<close>

record sd_lease =
  l_next :: "nat option"
  l_key :: u32
  l_generation :: u32
  l_revoked :: bool
  l_fault :: bool
  l_ack :: bool

record sd_lease_registry =
  lr_head :: "nat option"
  lr_generation :: u32
  lr_mounted :: bool
  lr_pending :: bool

partial_function (option) lease_chain :: "(nat \<Rightarrow> 'a sd_lease_scheme) \<Rightarrow> nat option \<Rightarrow> nat list option" where
  [code]: "lease_chain h at =
     (case at of None \<Rightarrow> Some []
      | Some p \<Rightarrow> Option.bind (lease_chain h (l_next (h p))) (\<lambda>ps. Some (p # ps)))"

definition sd_lease_registry_reset :: sd_lease_registry where
  "sd_lease_registry_reset = \<lparr>lr_head = None, lr_generation = 0, lr_mounted = False, lr_pending = False\<rparr>"

definition sd_lease_registry_mount :: "sd_lease_registry \<Rightarrow> u32 \<Rightarrow> bool \<times> sd_lease_registry" where
  "sd_lease_registry_mount r generation =
     (if lr_pending r \<or> lr_head r \<noteq> None \<or> generation = 0 then (False, r)
      else (True, r\<lparr>lr_generation := generation, lr_mounted := True\<rparr>))"

text \<open>The outer option is the value of the loop: \<open>None\<close> when it does not end.\<close>

definition sd_lease_attach ::
  "(nat \<Rightarrow> 'a sd_lease_scheme) \<Rightarrow> sd_lease_registry \<Rightarrow> nat option \<Rightarrow> u32 \<Rightarrow> u32 \<Rightarrow>
   (bool \<times> (nat \<Rightarrow> 'a sd_lease_scheme) \<times> sd_lease_registry) option" where
  "sd_lease_attach h r l key generation =
     (case l of None \<Rightarrow> Some (False, h, r)
      | Some p \<Rightarrow>
          if \<not> lr_mounted r \<or> lr_pending r \<or> generation = 0 \<or> generation \<noteq> lr_generation r
          then Some (False, h, r)
          else Option.bind (lease_chain h (lr_head r)) (\<lambda>ps.
            if p \<in> set ps then Some (False, h, r)
            else Some (True,
              h(p := (h p)\<lparr>l_key := key, l_generation := generation, l_revoked := False, l_fault := False,
                           l_ack := False, l_next := lr_head r\<rparr>),
              r\<lparr>lr_head := Some p\<rparr>)))"

definition sd_lease_cancel_all ::
  "(nat \<Rightarrow> 'a sd_lease_scheme) \<Rightarrow> sd_lease_registry \<Rightarrow>
   ((nat \<Rightarrow> 'a sd_lease_scheme) \<times> sd_lease_registry) option" where
  "sd_lease_cancel_all h r =
     Option.bind (lease_chain h (lr_head r)) (\<lambda>ps.
       Some (foldl (\<lambda>h p. h(p := (h p)\<lparr>l_revoked := True\<rparr>)) h ps, r\<lparr>lr_mounted := False, lr_pending := True\<rparr>))"

definition sd_lease_busy :: "(nat \<Rightarrow> 'a sd_lease_scheme) \<Rightarrow> sd_lease_registry \<Rightarrow> u32 \<Rightarrow> bool option" where
  "sd_lease_busy h r key =
     Option.bind (lease_chain h (lr_head r)) (\<lambda>ps. Some (\<exists>p \<in> set ps. l_key (h p) = key))"

text \<open>\<open>atomic_exchange\<close> on each token in turn.\<close>

fun take_fault_from :: "nat list \<Rightarrow> (nat \<Rightarrow> 'a sd_lease_scheme) \<Rightarrow> bool \<Rightarrow> bool \<times> (nat \<Rightarrow> 'a sd_lease_scheme)" where
  "take_fault_from [] h fault = (fault, h)"
| "take_fault_from (p # ps) h fault =
     take_fault_from ps (h(p := (h p)\<lparr>l_fault := False\<rparr>)) (if l_fault (h p) then True else fault)"

definition sd_lease_take_fault ::
  "(nat \<Rightarrow> 'a sd_lease_scheme) \<Rightarrow> sd_lease_registry \<Rightarrow> (bool \<times> (nat \<Rightarrow> 'a sd_lease_scheme)) option" where
  "sd_lease_take_fault h r =
     Option.bind (lease_chain h (lr_head r)) (\<lambda>ps. Some (take_fault_from ps h False))"

definition sd_lease_ready_to_unmount :: "sd_lease_registry \<Rightarrow> bool" where
  "sd_lease_ready_to_unmount r \<longleftrightarrow> lr_pending r \<and> lr_head r = None"

definition sd_lease_unmounted :: "sd_lease_registry \<Rightarrow> sd_lease_registry" where
  "sd_lease_unmounted r = (if sd_lease_ready_to_unmount r then r\<lparr>lr_pending := False\<rparr> else r)"

definition sd_lease_ack :: "(nat \<Rightarrow> 'a sd_lease_scheme) \<Rightarrow> nat \<Rightarrow> nat \<Rightarrow> 'a sd_lease_scheme" where
  "sd_lease_ack h l = h(l := (h l)\<lparr>l_ack := True\<rparr>)"

text \<open>The walk over the link fields: \<open>before\<close> is the token whose link is looked at, \<open>None\<close> for the head
  of the registry.\<close>

fun detach_from ::
  "nat \<Rightarrow> nat option \<Rightarrow> nat list \<Rightarrow> (nat \<Rightarrow> 'a sd_lease_scheme) \<Rightarrow> sd_lease_registry \<Rightarrow>
   bool \<times> (nat \<Rightarrow> 'a sd_lease_scheme) \<times> sd_lease_registry" where
  "detach_from l before [] h r = (False, h, r)"
| "detach_from l before (p # ps) h r =
     (if p = l then
        (case before of
           None \<Rightarrow> (True, h(l := (h l)\<lparr>l_next := None\<rparr>), r\<lparr>lr_head := l_next (h l)\<rparr>)
         | Some b \<Rightarrow> (let h' = h(b := (h b)\<lparr>l_next := l_next (h l)\<rparr>)
                     in (True, h'(l := (h' l)\<lparr>l_next := None\<rparr>), r)))
      else detach_from l (Some p) ps h r)"

definition sd_lease_detach ::
  "(nat \<Rightarrow> 'a sd_lease_scheme) \<Rightarrow> sd_lease_registry \<Rightarrow> nat option \<Rightarrow>
   (bool \<times> (nat \<Rightarrow> 'a sd_lease_scheme) \<times> sd_lease_registry) option" where
  "sd_lease_detach h r l =
     (case l of None \<Rightarrow> Some (False, h, r)
      | Some p \<Rightarrow> if \<not> l_ack (h p) then Some (False, h, r)
          else Option.bind (lease_chain h (lr_head r)) (\<lambda>ps. Some (detach_from p None ps h r)))"

section \<open>The links form a list\<close>

fun lseg :: "(nat \<Rightarrow> 'a sd_lease_scheme) \<Rightarrow> nat option \<Rightarrow> nat list \<Rightarrow> bool" where
  "lseg h at [] \<longleftrightarrow> at = None"
| "lseg h at (p # ps) \<longleftrightarrow> at = Some p \<and> lseg h (l_next (h p)) ps"

lemma lseg_chain: "lseg h at ps \<Longrightarrow> lease_chain h at = Some ps"
proof (induction ps arbitrary: at)
  case Nil
  then show ?case by (simp add: lease_chain.simps)
next
  case (Cons p ps)
  then show ?case by (subst lease_chain.simps) simp
qed

lemma lseg_frame: "(\<And>p. p \<in> set ps \<Longrightarrow> l_next (h' p) = l_next (h p)) \<Longrightarrow> lseg h' at ps = lseg h at ps"
  by (induction ps arbitrary: at) auto

lemma lseg_upd_other [simp]: "p \<notin> set ps \<Longrightarrow> lseg (h(p := x)) at ps = lseg h at ps"
  by (rule lseg_frame) auto

lemma lseg_append: "lseg h at (ps @ qs) \<Longrightarrow> ps \<noteq> [] \<Longrightarrow> lseg h (l_next (h (last ps))) qs"
  by (induction ps arbitrary: at) (auto split: if_splits)

text \<open>\<open>leases h r ps\<close>: the registry holds exactly the tokens \<open>ps\<close>, newest first.\<close>

definition leases :: "(nat \<Rightarrow> 'a sd_lease_scheme) \<Rightarrow> sd_lease_registry \<Rightarrow> nat list \<Rightarrow> bool" where
  "leases h r ps \<longleftrightarrow> lseg h (lr_head r) ps \<and> distinct ps"

lemma leases_chain: "leases h r ps \<Longrightarrow> lease_chain h (lr_head r) = Some ps"
  by (simp add: leases_def lseg_chain)

lemma leases_unique: "leases h r ps \<Longrightarrow> leases h r qs \<Longrightarrow> ps = qs"
  by (metis leases_chain option.inject)

lemma leases_head: "leases h r ps \<Longrightarrow> lr_head r = None \<longleftrightarrow> ps = []"
  by (cases ps) (auto simp: leases_def)

lemma leases_frame:
  "leases h r ps \<Longrightarrow> (\<And>p. p \<in> set ps \<Longrightarrow> l_next (h' p) = l_next (h p)) \<Longrightarrow> lr_head r' = lr_head r \<Longrightarrow> leases h' r' ps"
  unfolding leases_def using lseg_frame[of ps h' h "lr_head r"] by auto

section \<open>The operations on the list of tokens\<close>

lemma revoke_fold:
  "distinct ps \<Longrightarrow> foldl (\<lambda>h p. h(p := (h p)\<lparr>l_revoked := True\<rparr>)) h ps =
     (\<lambda>p. if p \<in> set ps then (h p)\<lparr>l_revoked := True\<rparr> else h p)"
  by (induction ps arbitrary: h) (auto simp: fun_eq_iff)

lemma take_fault_fold:
  "distinct ps \<Longrightarrow> take_fault_from ps h b =
     (b \<or> (\<exists>p \<in> set ps. l_fault (h p)), (\<lambda>p. if p \<in> set ps then (h p)\<lparr>l_fault := False\<rparr> else h p))"
proof (induction ps arbitrary: h b)
  case (Cons q qs)
  let ?h = "h(q := (h q)\<lparr>l_fault := False\<rparr>)"
  from Cons.prems have q: "q \<notin> set qs" "distinct qs" by auto
  have "(\<exists>p \<in> set qs. l_fault (?h p)) = (\<exists>p \<in> set qs. l_fault (h p))" using q(1) by auto
  moreover have "(\<lambda>p. if p \<in> set qs then (?h p)\<lparr>l_fault := False\<rparr> else ?h p) =
      (\<lambda>p. if p \<in> set (q # qs) then (h p)\<lparr>l_fault := False\<rparr> else h p)"
    using q(1) by (auto simp: fun_eq_iff)
  ultimately show ?case by (simp only: take_fault_from.simps Cons.IH[OF q(2)]) auto
qed simp

lemma attach_leases:
  assumes "leases h r ps"
  shows "sd_lease_attach h r (Some p) key g =
     (if lr_mounted r \<and> \<not> lr_pending r \<and> g \<noteq> 0 \<and> g = lr_generation r \<and> p \<notin> set ps
      then Some (True, h(p := (h p)\<lparr>l_key := key, l_generation := g, l_revoked := False, l_fault := False,
             l_ack := False, l_next := lr_head r\<rparr>), r\<lparr>lr_head := Some p\<rparr>)
      else Some (False, h, r))"
  using leases_chain[OF assms] by (auto simp: sd_lease_attach_def)

lemma attached_leases:
  "leases h r ps \<Longrightarrow> p \<notin> set ps \<Longrightarrow> l_next x = lr_head r \<Longrightarrow> leases (h(p := x)) (r\<lparr>lr_head := Some p\<rparr>) (p # ps)"
  by (simp add: leases_def)

lemma cancel_leases:
  "leases h r ps \<Longrightarrow> sd_lease_cancel_all h r =
     Some (\<lambda>p. if p \<in> set ps then (h p)\<lparr>l_revoked := True\<rparr> else h p, r\<lparr>lr_mounted := False, lr_pending := True\<rparr>)"
  by (simp add: sd_lease_cancel_all_def leases_chain) (simp add: leases_def revoke_fold)

lemma take_fault_leases:
  "leases h r ps \<Longrightarrow> sd_lease_take_fault h r =
     Some (\<exists>p \<in> set ps. l_fault (h p), \<lambda>p. if p \<in> set ps then (h p)\<lparr>l_fault := False\<rparr> else h p)"
  by (simp add: sd_lease_take_fault_def leases_chain) (simp add: leases_def take_fault_fold)

lemma detach_walk:
  assumes "distinct (pre @ ps)" "lseg h (lr_head r) (pre @ ps)" "l \<notin> set pre"
  shows "detach_from l (if pre = [] then None else Some (last pre)) ps h r =
     (if l \<in> set ps then
        (if pre = [] \<and> hd ps = l then (True, h(l := (h l)\<lparr>l_next := None\<rparr>), r\<lparr>lr_head := l_next (h l)\<rparr>)
         else (let b = last (pre @ takeWhile (\<lambda>p. p \<noteq> l) ps);
                   h' = h(b := (h b)\<lparr>l_next := l_next (h l)\<rparr>)
               in (True, h'(l := (h' l)\<lparr>l_next := None\<rparr>), r)))
      else (False, h, r))"
  using assms
proof (induction ps arbitrary: pre)
  case (Cons p ps)
  show ?case
  proof (cases "p = l")
    case True
    then show ?thesis by (auto simp: Let_def)
  next
    case False
    have "detach_from l (Some p) ps h r = detach_from l (if pre @ [p] = [] then None else Some (last (pre @ [p]))) ps h r"
      by simp
    then show ?thesis using Cons.IH[of "pre @ [p]"] Cons.prems False
      by (simp add: Let_def)
  qed
qed simp

lemma lseg_prefix_upd:
  assumes "lseg h at (pre @ l # post)" "distinct (pre @ l # post)" "pre \<noteq> []"
  shows "lseg (h(last pre := (h (last pre))\<lparr>l_next := l_next (h l)\<rparr>)) at (pre @ post)"
  using assms
proof (induction pre arbitrary: at)
  case (Cons q qs)
  show ?case
  proof (cases "qs = []")
    case True
    define h1 where "h1 = h(q := (h q)\<lparr>l_next := l_next (h l)\<rparr>)"
    have "lseg h1 (l_next (h l)) post" unfolding h1_def
      using Cons.prems True by (subst lseg_upd_other) auto
    moreover have "l_next (h1 q) = l_next (h l)" by (simp add: h1_def)
    ultimately have "lseg h1 at ([q] @ post)" using Cons.prems by simp
    moreover have "last (q # qs) = q" "(q # qs) @ post = [q] @ post" using True by simp_all
    ultimately show ?thesis by (simp only: h1_def)
  next
    case False
    then have "last qs \<in> set qs" by simp
    then have "q \<noteq> last qs" using Cons.prems(2) by auto
    then show ?thesis using Cons False by simp
  qed
qed simp

text \<open>Detaching an acknowledged token removes exactly it from the list, and changes nothing but links.\<close>

lemma detach_leases:
  assumes "leases h r ps"
  shows "\<exists>h' r'. sd_lease_detach h r (Some l) = Some (l_ack (h l) \<and> l \<in> set ps, h', r') \<and>
     leases h' r' (if l_ack (h l) then removeAll l ps else ps) \<and>
     (\<forall>p. h' p = (h p)\<lparr>l_next := l_next (h' p)\<rparr>) \<and> (\<exists>x. r' = r\<lparr>lr_head := x\<rparr>)"
proof (cases "l_ack (h l) \<and> l \<in> set ps")
  case False
  have none: "detach_from l None ps h r = (False, h, r)" if "l \<notin> set ps"
    using detach_walk[of "[]" ps h r l] assms that by (simp add: leases_def)
  have "\<exists>x. r = r\<lparr>lr_head := x\<rparr>" by (metis sd_lease_registry.surjective sd_lease_registry.update_convs(1))
  then show ?thesis using False none assms leases_chain[OF assms]
    by (cases "l_ack (h l)") (auto simp: sd_lease_detach_def)
next
  case True
  then obtain pre post where ps: "ps = pre @ l # post" and pre: "l \<notin> set pre"
    by (metis split_list_first)
  have d: "distinct (pre @ l # post)" and s: "lseg h (lr_head r) (pre @ l # post)"
    using assms ps by (auto simp: leases_def)
  have gone: "removeAll l ps = pre @ post" using ps d pre by simp
  have tw: "takeWhile (\<lambda>p. p \<noteq> l) ps = pre" using ps pre by (simp add: takeWhile_tail) (metis takeWhile_eq_all_conv)
  have walk: "sd_lease_detach h r (Some l) = Some (detach_from l None ps h r)"
    using True leases_chain[OF assms] by (simp add: sd_lease_detach_def)
  show ?thesis
  proof (cases "pre = []")
    case True
    have h: "lr_head r = Some l" using s True by simp
    have "detach_from l None ps h r = (True, h(l := (h l)\<lparr>l_next := None\<rparr>), r\<lparr>lr_head := l_next (h l)\<rparr>)"
      using ps True by simp
    moreover have "leases (h(l := (h l)\<lparr>l_next := None\<rparr>)) (r\<lparr>lr_head := l_next (h l)\<rparr>) post"
      using s d True by (simp add: leases_def)
    ultimately show ?thesis using walk gone True \<open>l_ack (h l) \<and> l \<in> set ps\<close> by force
  next
    case False
    define b where "b = last pre"
    define h1 where "h1 = h(b := (h b)\<lparr>l_next := l_next (h l)\<rparr>)"
    have b: "b \<in> set pre" "b \<noteq> l" using False pre by (auto simp: b_def)
    have res: "detach_from l None ps h r = (True, h1(l := (h1 l)\<lparr>l_next := None\<rparr>), r)"
      using detach_walk[of "[]" ps h r l] assms ps False tw pre
      by (cases pre) (auto simp: leases_def Let_def b_def h1_def)
    have "lseg h1 (lr_head r) (pre @ post)"
      unfolding h1_def b_def by (rule lseg_prefix_upd[OF s d False])
    then have "leases (h1(l := (h1 l)\<lparr>l_next := None\<rparr>)) r (pre @ post)"
      using d pre by (simp add: leases_def)
    moreover have "\<forall>p. (h1(l := (h1 l)\<lparr>l_next := None\<rparr>)) p =
        (h p)\<lparr>l_next := l_next ((h1(l := (h1 l)\<lparr>l_next := None\<rparr>)) p)\<rparr>"
      by (simp add: h1_def)
    moreover have "\<exists>x. r = r\<lparr>lr_head := x\<rparr>" by (metis sd_lease_registry.surjective sd_lease_registry.update_convs(1))
    ultimately show ?thesis using walk gone res \<open>l_ack (h l) \<and> l \<in> set ps\<close> by auto
  qed
qed

lemma ack_leases [simp]: "leases (sd_lease_ack h l) r ps = leases h r ps"
  unfolding leases_def sd_lease_ack_def by (subst lseg_frame[of _ h]) auto

end
