(* ===== verification/SdMedia.thy ===== *)
theory SdMedia
  imports SdPath SdLease
begin

text \<open>
  The SD card itself (\<open>main/pocket/sd_media.h\<close>, \<open>sd_media.c\<close>): mounting down the clock ladder,
  removal, and the read leases that workers of the players hold on files of the card.

  The static variables \<open>media\<close>, \<open>card\<close> and \<open>leases\<close> and the tokens are the fields of \<open>sd_sys\<close>.  What
  the driver, the FAT layer and the C library answer is an argument (\<open>sd_driver\<close>, \<open>sd_files\<close>).
  \<open>sd_step\<close> interleaves the owner task with the workers, which only read their token's \<open>revoked\<close>
  and set \<open>fault\<close> and \<open>ack\<close>.
\<close>

section \<open>State\<close>

datatype sd_esp_err = ESP_OK | ESP_ERR_NOT_FOUND | ESP_ERR_TIMEOUT | ESP_ERR_INVALID_STATE | ESP_ERR_OTHER int

definition EIO :: int where "EIO = 5"
definition ENODEV :: int where "ENODEV = 19"
definition EINVAL :: int where "EINVAL = 22"

definition SD_MEDIA_LEASE_REOPEN :: u32 where "SD_MEDIA_LEASE_REOPEN = 0"
definition SD_MEDIA_LEASE_PERSISTENT :: u32 where "SD_MEDIA_LEASE_PERSISTENT = 1"

record sd_media_read_lease = sd_lease +
  rl_file :: "nat option"
  rl_mode :: u32
  rl_size :: u32
  rl_path :: bytes

text \<open>What the code reads and writes of \<open>sdmmc_card_t\<close>, and the clock the bus runs at.\<close>

record sd_card =
  card_max_freq_khz :: int
  card_clk :: int

record sd_sys =
  sdc_media :: sd_media
  sdc_card :: "sd_card option"
  sdc_leases :: sd_lease_registry
  sdc_tokens :: "nat \<Rightarrow> sd_media_read_lease"

text \<open>The answers of the bus and the card during one mount.\<close>

record sd_driver =
  drv_spi_acquire :: sd_esp_err
  drv_mount :: "int \<Rightarrow> sd_esp_err"
  drv_malloc_ok :: bool
  drv_read_ref :: "sd_esp_err \<times> bytes"
  drv_set_clk :: "int \<Rightarrow> sd_esp_err \<times> int"
  drv_read_again :: "sd_esp_err \<times> bytes"

definition sd_media_init :: "(nat \<Rightarrow> sd_media_read_lease) \<Rightarrow> sd_sys" where
  "sd_media_init h = \<lparr>sdc_media = sd_media_reset, sdc_card = None, sdc_leases = sd_lease_registry_reset,
     sdc_tokens = h\<rparr>"

section \<open>Errors, service and removal\<close>

text \<open>The result is \<open>None\<close> when a loop over the leases does not end.\<close>

definition sd_media_note_error :: "sd_sys \<Rightarrow> sd_esp_err \<Rightarrow> sd_sys option" where
  "sd_media_note_error s err =
     (if err = ESP_ERR_NOT_FOUND \<or> err = ESP_ERR_TIMEOUT \<or> err = ESP_ERR_INVALID_STATE then
        Option.bind (sd_lease_cancel_all (sdc_tokens s) (sdc_leases s)) (\<lambda>(h, r).
          Some (s\<lparr>sdc_tokens := h, sdc_leases := r, sdc_media := sd_media_removed (sdc_media s)\<rparr>))
      else Some s)"

definition service_unmount :: "sd_sys \<Rightarrow> sd_sys" where
  "service_unmount s =
     (if sd_lease_ready_to_unmount (sdc_leases s)
      then s\<lparr>sdc_card := None, sdc_leases := sd_lease_unmounted (sdc_leases s)\<rparr> else s)"

definition sd_media_service :: "sd_sys \<Rightarrow> sd_sys option" where
  "sd_media_service s =
     Option.bind (sd_lease_take_fault (sdc_tokens s) (sdc_leases s)) (\<lambda>(fault, h).
       Option.bind (if fault then sd_media_note_error (s\<lparr>sdc_tokens := h\<rparr>) ESP_ERR_TIMEOUT
                    else Some (s\<lparr>sdc_tokens := h\<rparr>)) (\<lambda>s1.
         Some (service_unmount s1)))"

definition sd_media_unmount :: "sd_sys \<Rightarrow> sd_sys option" where
  "sd_media_unmount s =
     Option.bind (sd_lease_cancel_all (sdc_tokens s) (sdc_leases s)) (\<lambda>(h, r).
       sd_media_service (s\<lparr>sdc_tokens := h, sdc_leases := r, sdc_media := sd_media_removed (sdc_media s)\<rparr>))"

definition sd_media_grant_folder :: "sd_sys \<Rightarrow> bytes option \<Rightarrow> bool \<times> sd_sys" where
  "sd_media_grant_folder s folder =
     (case sd_media_grant (sdc_media s) folder of (ok, m) \<Rightarrow> (ok, s\<lparr>sdc_media := m\<rparr>))"

section \<open>Mounting\<close>

text \<open>\<open>raise_clock\<close>: the raised rate is kept when one sector reads the same at it.\<close>

definition raise_clock :: "sd_driver \<Rightarrow> sd_card option \<Rightarrow> sd_card option" where
  "raise_clock d mounted = (case mounted of
     None \<Rightarrow> None
   | Some c \<Rightarrow>
       let want = sd_clock_boost (card_max_freq_khz c); was = card_max_freq_khz c
       in if want = 0 then Some c
          else if \<not> drv_malloc_ok d then Some c
          else if fst (drv_read_ref d) \<noteq> ESP_OK then Some c
          else let (e, clk) = drv_set_clk d want
            in if e \<noteq> ESP_OK then Some (c\<lparr>card_clk := clk\<rparr>)
               else if fst (drv_read_again d) = ESP_OK \<and>
                       take 512 (snd (drv_read_ref d)) = take 512 (snd (drv_read_again d))
               then Some (c\<lparr>card_clk := clk, card_max_freq_khz := want\<rparr>)
               else Some (c\<lparr>card_clk := snd (drv_set_clk d was)\<rparr>))"

lemma sd_clock_next_below: "sd_clock_next khz outcome \<noteq> 0 \<Longrightarrow> 0 < sd_clock_next khz outcome \<and> sd_clock_next khz outcome < khz"
  by (auto simp: sd_clock_next_def SD_CLOCK_LADDER_def split: if_splits)

text \<open>The loop of \<open>sd_media_mount\<close>: the last error, its outcome, and the rate that was reached (0 when
  none answered).\<close>

function mount_walk :: "(int \<Rightarrow> sd_esp_err) \<Rightarrow> int \<Rightarrow> sd_esp_err \<Rightarrow> sd_mount_outcome \<Rightarrow> sd_esp_err \<times> sd_mount_outcome \<times> int" where
  "mount_walk attempt khz e outcome =
     (if khz = 0 then (e, outcome, 0)
      else let e' = attempt khz in
        if e' = ESP_OK then (e', outcome, khz)
        else let outcome' = (if e' = ESP_ERR_NOT_FOUND \<or> e' = ESP_ERR_TIMEOUT
                             then SD_MOUNT_ABSENT else SD_MOUNT_REFUSED)
          in mount_walk attempt (sd_clock_next khz outcome') e' outcome')"
  by pat_completeness auto

termination
  by (relation "measure (\<lambda>(attempt, khz, e, outcome). if khz = 0 then 0 else Suc (nat khz))", simp)
     (use sd_clock_next_below in fastforce)

declare mount_walk.simps [simp del]

definition sd_media_mount :: "sd_driver \<Rightarrow> sd_sys \<Rightarrow> (bool \<times> sd_sys) option" where
  "sd_media_mount d s =
     (if sdm_state (sdc_media s) = SD_MEDIA_READY then Some (True, s)
      else Option.bind (sd_media_service s) (\<lambda>s1.
        if lr_pending (sdc_leases s1) then Some (False, s1)
        else if drv_spi_acquire d \<noteq> ESP_OK
          then Some (False, s1\<lparr>sdc_media := sd_media_failed (sdc_media s1)\<rparr>)
        else
          let (e, outcome, khz) = mount_walk (drv_mount d) (SD_CLOCK_LADDER ! 0) (ESP_ERR_OTHER (- 1)) SD_MOUNT_REFUSED
          in if e \<noteq> ESP_OK then
               Some (False, s1\<lparr>sdc_card := None,
                 sdc_media := (if outcome = SD_MOUNT_ABSENT then sd_media_removed (sdc_media s1)
                               else sd_media_failed (sdc_media s1))\<rparr>)
             else
               let c = raise_clock d (Some \<lparr>card_max_freq_khz = khz, card_clk = khz\<rparr>);
                   m = sd_media_mounted (sdc_media s1);
                   (ok, r) = sd_lease_registry_mount (sdc_leases s1) (sdm_generation m)
               in if \<not> ok then
                    Some (False, s1\<lparr>sdc_card := None, sdc_media := sd_media_removed m, sdc_leases := r\<rparr>)
                  else Some (True, s1\<lparr>sdc_card := c, sdc_media := m, sdc_leases := r\<rparr>)))"

section \<open>Read leases\<close>

definition sd_media_read_lease_bind ::
  "sd_sys \<Rightarrow> nat option \<Rightarrow> nat option \<Rightarrow> bytes option \<Rightarrow> u32 \<Rightarrow> u32 \<Rightarrow> u32 \<Rightarrow> u32 \<Rightarrow> (bool \<times> sd_sys) option" where
  "sd_media_read_lease_bind s lease file fspath key generation sz mode =
     (case (lease, fspath) of
        (Some l, Some path) \<Rightarrow>
          if mode = SD_MEDIA_LEASE_PERSISTENT \<and> file = None \<or>
             mode \<noteq> SD_MEDIA_LEASE_REOPEN \<and> mode \<noteq> SD_MEDIA_LEASE_PERSISTENT then Some (False, s)
          else if length path \<ge> SD_FSPATH_MAX then Some (False, s)
          else Option.bind (sd_lease_attach (sdc_tokens s) (sdc_leases s) (Some l) key generation) (\<lambda>(ok, h, r).
            if \<not> ok then Some (False, s)
            else Some (True, s\<lparr>sdc_leases := r,
                   sdc_tokens := h(l := (h l)\<lparr>rl_file := file, rl_mode := mode, rl_size := sz, rl_path := path\<rparr>)\<rparr>))
      | _ \<Rightarrow> Some (False, s))"

text \<open>The C library under one read: the handle or \<open>errno\<close> of \<open>fopen\<close>; the result and \<open>errno\<close> of
  \<open>fseek\<close> and \<open>fclose\<close>; the bytes, \<open>ferror\<close> and \<open>errno\<close> of \<open>fread\<close>.\<close>

record sd_files =
  ff_open :: "bytes \<Rightarrow> nat option \<times> int"
  ff_seek :: "nat \<Rightarrow> u32 \<Rightarrow> int \<times> int"
  ff_read :: "nat \<Rightarrow> u32 \<Rightarrow> u32 \<Rightarrow> bytes \<times> bool \<times> int"
  ff_close :: "nat \<Rightarrow> int \<times> int"

datatype file_op = FOpen bytes | FSeek nat | FRead nat | FClose nat

definition errno_or_eio :: "int \<Rightarrow> int" where
  "errno_or_eio e = (if e \<noteq> 0 then e else EIO)"

text \<open>The token after an error: \<open>fault\<close> is set for the two errors that mean the card.\<close>

definition fault_token :: "sd_media_read_lease \<Rightarrow> int \<Rightarrow> sd_media_read_lease" where
  "fault_token l err = (if err = EIO \<or> err = ENODEV then l\<lparr>l_fault := True\<rparr> else l)"

text \<open>\<open>sd_media_read_lease_read_at\<close> from the opening of the file on, for a length that is in the file:
  the returned value, \<open>*err\<close>, the bytes put into \<open>out\<close>, the token, and the calls of the C library in
  order.\<close>

definition read_lease_file ::
  "sd_files \<Rightarrow> sd_media_read_lease \<Rightarrow> u32 \<Rightarrow> u32 \<Rightarrow>
   u32 \<times> int \<times> bytes \<times> sd_media_read_lease \<times> file_op list" where
  "read_lease_file io l offset want =
     (let reopen = rl_mode l = SD_MEDIA_LEASE_REOPEN;
          (fh, errno) = (if reopen then ff_open io (rl_path l) else (rl_file l, 0));
          opened = (if reopen then [FOpen (rl_path l)] else [])
      in case fh of
           None \<Rightarrow> (- 1, errno_or_eio errno, [], fault_token l (errno_or_eio errno), opened)
         | Some f \<Rightarrow>
             let closed = (if reopen then [FClose f] else []);
                 (sk, serr) = ff_seek io f offset
             in if sk \<noteq> 0 then
                  (- 1, errno_or_eio serr, [], fault_token l (errno_or_eio serr), opened @ [FSeek f] @ closed)
                else
                  let (data, ferror, rerr) = ff_read io f offset want;
                      err1 = (if length data < unat want \<and> ferror then errno_or_eio rerr else 0);
                      (cl, cerr) = ff_close io f;
                      err2 = (if reopen \<and> cl \<noteq> 0 \<and> err1 = 0 then errno_or_eio cerr else err1);
                      ops = opened @ [FSeek f, FRead f] @ closed
                  in if err2 \<noteq> 0 then (- 1, err2, data, fault_token l err2, ops)
                     else (of_nat (length data), 0, data, l, ops))"

text \<open>The same with the guards in front, for non-null \<open>lease\<close>, \<open>out\<close> and \<open>err\<close>.\<close>

definition read_lease_at ::
  "sd_files \<Rightarrow> sd_media_read_lease \<Rightarrow> u32 \<Rightarrow> u32 \<Rightarrow>
   u32 \<times> int \<times> bytes \<times> sd_media_read_lease \<times> file_op list" where
  "read_lease_at io l offset want =
     (if l_revoked l then (- 1, ENODEV, [], l, [])
      else if offset \<ge> rl_size l then (0, 0, [], l, [])
      else
        let want = (if want > rl_size l - offset then rl_size l - offset else want)
        in if want = 0 then (0, 0, [], l, []) else read_lease_file io l offset want)"

text \<open>The null checks in front: \<open>*err\<close> is written only through a non-null pointer.\<close>

definition sd_media_read_lease_read_at ::
  "sd_files \<Rightarrow> (nat \<Rightarrow> sd_media_read_lease) \<Rightarrow> nat option \<Rightarrow> bool \<Rightarrow> bool \<Rightarrow> u32 \<Rightarrow> u32 \<Rightarrow>
   u32 \<times> int option \<times> bytes \<times> (nat \<Rightarrow> sd_media_read_lease)" where
  "sd_media_read_lease_read_at io h lease out_set err_set offset want =
     (case lease of
        Some l \<Rightarrow>
          if \<not> out_set \<or> \<not> err_set then (- 1, if err_set then Some EINVAL else None, [], h)
          else (case read_lease_at io (h l) offset want of
            (ret, err, data, token, ops) \<Rightarrow> (ret, Some err, data, h(l := token)))
      | None \<Rightarrow> (- 1, if err_set then Some EINVAL else None, [], h))"

definition sd_media_read_lease_cancel :: "sd_sys \<Rightarrow> nat option \<Rightarrow> sd_sys" where
  "sd_media_read_lease_cancel s lease = (case lease of
     None \<Rightarrow> s
   | Some l \<Rightarrow> s\<lparr>sdc_tokens := (sdc_tokens s)(l := (sdc_tokens s l)\<lparr>l_revoked := True\<rparr>)\<rparr>)"

definition sd_media_read_lease_ack :: "sd_sys \<Rightarrow> nat option \<Rightarrow> sd_sys" where
  "sd_media_read_lease_ack s lease = (case lease of
     None \<Rightarrow> s
   | Some l \<Rightarrow> s\<lparr>sdc_tokens := sd_lease_ack (sdc_tokens s) l\<rparr>)"

definition sd_media_read_lease_acked :: "sd_sys \<Rightarrow> nat option \<Rightarrow> bool" where
  "sd_media_read_lease_acked s lease = (case lease of None \<Rightarrow> False | Some l \<Rightarrow> l_ack (sdc_tokens s l))"

definition close_fault :: "sd_sys \<Rightarrow> nat \<Rightarrow> sd_sys option" where
  "close_fault s l =
     (let s1 = s\<lparr>sdc_tokens := (sdc_tokens s)(l := (sdc_tokens s l)\<lparr>l_fault := False\<rparr>)\<rparr>
      in if l_fault (sdc_tokens s l) then sd_media_note_error s1 ESP_ERR_TIMEOUT else Some s1)"

definition close_file :: "sd_files \<Rightarrow> sd_sys \<Rightarrow> nat \<Rightarrow> sd_sys option" where
  "close_file io s l = (case rl_file (sdc_tokens s l) of
     None \<Rightarrow> Some s
   | Some f \<Rightarrow>
       Option.bind (case ff_close io f of (c, e) \<Rightarrow>
           if c \<noteq> 0 \<and> e = EIO then sd_media_note_error s ESP_ERR_TIMEOUT else Some s) (\<lambda>s1.
         Some (s1\<lparr>sdc_tokens := (sdc_tokens s1)(l := (sdc_tokens s1 l)\<lparr>rl_file := None\<rparr>)\<rparr>)))"

definition sd_media_read_lease_close :: "sd_files \<Rightarrow> sd_sys \<Rightarrow> nat option \<Rightarrow> (bool \<times> sd_sys) option" where
  "sd_media_read_lease_close io s lease =
     (if \<not> sd_media_read_lease_acked s lease then Some (False, s)
      else Option.bind (close_fault s (the lease)) (\<lambda>s1.
        Option.bind (close_file io s1 (the lease)) (\<lambda>s2.
          Option.bind (sd_lease_detach (sdc_tokens s2) (sdc_leases s2) lease) (\<lambda>(ok, h, r).
            Some (ok, s2\<lparr>sdc_tokens := h, sdc_leases := r\<rparr>)))))"

definition sd_media_read_lease_busy :: "sd_sys \<Rightarrow> u32 \<Rightarrow> bool option" where
  "sd_media_read_lease_busy s key = sd_lease_busy (sdc_tokens s) (sdc_leases s) key"

definition path_covers :: "bytes \<Rightarrow> bytes \<Rightarrow> bool" where
  "path_covers fspath path =
     (let len = length fspath
      in take len path = fspath \<and> (length path = len \<or> path ! len = slash))"

definition sd_media_read_lease_tree_busy :: "sd_sys \<Rightarrow> bytes option \<Rightarrow> bool option" where
  "sd_media_read_lease_tree_busy s fspath = (case fspath of
     None \<Rightarrow> Some False
   | Some p \<Rightarrow> Option.bind (lease_chain (sdc_tokens s) (lr_head (sdc_leases s))) (\<lambda>ps.
       Some (\<exists>l \<in> set ps. path_covers p (rl_path (sdc_tokens s l)))))"

definition sd_media_file_close_safe :: "sd_sys \<Rightarrow> u32 \<Rightarrow> bool" where
  "sd_media_file_close_safe s generation \<longleftrightarrow>
     sdc_card s \<noteq> None \<and> generation \<noteq> 0 \<and> lr_generation (sdc_leases s) = generation"

section \<open>The owner and the workers\<close>

text \<open>One step of the system.  A worker reads and acknowledges through its own token, and does not read
  after its acknowledgement.\<close>

inductive sd_step :: "sd_sys \<Rightarrow> sd_sys \<Rightarrow> bool" where
  step_mount: "sd_media_mount d s = Some (ok, t) \<Longrightarrow> sd_step s t"
| step_unmount: "sd_media_unmount s = Some t \<Longrightarrow> sd_step s t"
| step_error: "sd_media_note_error s err = Some t \<Longrightarrow> sd_step s t"
| step_service: "sd_media_service s = Some t \<Longrightarrow> sd_step s t"
| step_grant: "sd_media_grant_folder s f = (ok, t) \<Longrightarrow> sd_step s t"
| step_bind: "sd_media_read_lease_bind s l file p key g sz mode = Some (ok, t) \<Longrightarrow> sd_step s t"
| step_cancel: "sd_step s (sd_media_read_lease_cancel s l)"
| step_close: "sd_media_read_lease_close io s l = Some (ok, t) \<Longrightarrow> sd_step s t"
| step_read: "sd_media_read_lease_read_at io (sdc_tokens s) (Some l) out_set err_set offset want = (ret, err, data, h) \<Longrightarrow>
    \<not> l_ack (sdc_tokens s l) \<Longrightarrow> sd_step s (s\<lparr>sdc_tokens := h\<rparr>)"
| step_ack: "sd_step s (sd_media_read_lease_ack s l)"

section \<open>The invariant\<close>

text \<open>\<open>ps\<close> are the tokens the registry holds.  The volume is ready exactly while the registry is
  mounted, under the same generation; a card is kept while it is mounted or waits for its leases; a
  lease is never older than the mount, and after a removal all are revoked.\<close>

definition sd_rel :: "sd_sys \<Rightarrow> nat list \<Rightarrow> bool" where
  "sd_rel s ps \<longleftrightarrow>
     leases (sdc_tokens s) (sdc_leases s) ps \<and>
     (lr_mounted (sdc_leases s) \<longleftrightarrow> sdm_state (sdc_media s) = SD_MEDIA_READY) \<and>
     (lr_mounted (sdc_leases s) \<longrightarrow>
        lr_generation (sdc_leases s) = sdm_generation (sdc_media s) \<and> lr_generation (sdc_leases s) \<noteq> 0 \<and>
        sdc_card s \<noteq> None \<and> \<not> lr_pending (sdc_leases s)) \<and>
     (sdc_card s \<noteq> None \<longrightarrow> lr_mounted (sdc_leases s) \<or> lr_pending (sdc_leases s)) \<and>
     (ps \<noteq> [] \<longrightarrow> sdc_card s \<noteq> None) \<and>
     (\<forall>p \<in> set ps. l_generation (sdc_tokens s p) = lr_generation (sdc_leases s)) \<and>
     (\<not> lr_mounted (sdc_leases s) \<longrightarrow> (\<forall>p \<in> set ps. l_revoked (sdc_tokens s p)))"

definition media_evolves :: "sd_media \<Rightarrow> sd_media \<Rightarrow> bool" where
  "media_evolves m m' \<longleftrightarrow> (\<exists>es. m' = foldl sd_media_step m es)"

text \<open>What one step may do: an unacknowledged token stays in the registry as it was, and while the registry holds a
  token the card and its generation stay.\<close>

definition sd_next :: "sd_sys \<Rightarrow> nat list \<Rightarrow> sd_sys \<Rightarrow> nat list \<Rightarrow> bool" where
  "sd_next s ps t qs \<longleftrightarrow>
     sd_rel t qs \<and> media_evolves (sdc_media s) (sdc_media t) \<and>
     (\<forall>p \<in> set ps. \<not> l_ack (sdc_tokens s p) \<longrightarrow>
        p \<in> set qs \<and> rl_file (sdc_tokens t p) = rl_file (sdc_tokens s p) \<and>
        rl_path (sdc_tokens t p) = rl_path (sdc_tokens s p) \<and>
        (l_revoked (sdc_tokens s p) \<longrightarrow> l_revoked (sdc_tokens t p))) \<and>
     (ps \<noteq> [] \<longrightarrow> sdc_card t = sdc_card s \<and> lr_generation (sdc_leases t) = lr_generation (sdc_leases s))"

lemma evolves_refl [simp]: "media_evolves m m"
  unfolding media_evolves_def by (metis foldl_Nil)

lemma evolves_trans: "media_evolves a b \<Longrightarrow> media_evolves b c \<Longrightarrow> media_evolves a c"
  unfolding media_evolves_def by (metis foldl_append)

lemma evolves_event: "media_evolves m (sd_media_step m e)"
  unfolding media_evolves_def by (rule exI[of _ "[e]"]) simp

lemma evolves_ops [simp]:
  "media_evolves m (sd_media_mounted m)" "media_evolves m (sd_media_removed m)"
  "media_evolves m (sd_media_failed m)" "media_evolves m (snd (sd_media_grant m f))"
  using evolves_event[of m SdMounted] evolves_event[of m SdRemoved] evolves_event[of m SdFailed]
    evolves_event[of m "SdGrant f"] by simp_all

lemma sd_next_self: "sd_rel s ps \<Longrightarrow> sd_next s ps s ps"
  by (simp add: sd_next_def)

text \<open>The three state changes the operations are made of.\<close>

definition drop_card :: "sd_sys \<Rightarrow> nat list \<Rightarrow> sd_sys" where
  "drop_card s ps = s\<lparr>
     sdc_tokens := (\<lambda>p. if p \<in> set ps then (sdc_tokens s p)\<lparr>l_revoked := True\<rparr> else sdc_tokens s p),
     sdc_leases := (sdc_leases s)\<lparr>lr_mounted := False, lr_pending := True\<rparr>,
     sdc_media := sd_media_removed (sdc_media s)\<rparr>"

definition clear_faults :: "sd_sys \<Rightarrow> nat list \<Rightarrow> sd_sys" where
  "clear_faults s ps = s\<lparr>
     sdc_tokens := (\<lambda>p. if p \<in> set ps then (sdc_tokens s p)\<lparr>l_fault := False\<rparr> else sdc_tokens s p)\<rparr>"

lemma sd_rel_leases: "sd_rel s ps \<Longrightarrow> leases (sdc_tokens s) (sdc_leases s) ps"
  by (simp add: sd_rel_def)

lemma sd_rel_tokens:
  assumes "sd_rel s ps"
    and "\<And>p. p \<in> set ps \<Longrightarrow> l_next (h p) = l_next (sdc_tokens s p) \<and>
        l_generation (h p) = l_generation (sdc_tokens s p) \<and> (l_revoked (sdc_tokens s p) \<longrightarrow> l_revoked (h p))"
  shows "sd_rel (s\<lparr>sdc_tokens := h\<rparr>) ps"
proof -
  have "leases h (sdc_leases s) ps"
    by (rule leases_frame[OF sd_rel_leases[OF assms(1)]]) (use assms(2) in auto)
  then show ?thesis using assms by (auto simp: sd_rel_def)
qed

lemma removed_fields [simp]:
  "sdm_state (sd_media_removed m) = SD_MEDIA_ABSENT" "sdm_generation (sd_media_removed m) = sdm_generation m"
  "sdm_granted (sd_media_removed m) = False"
  by (simp_all add: sd_media_removed_def sd_media_revoke_def)

lemma drop_card_rel: "sd_rel s ps \<Longrightarrow> sd_rel (drop_card s ps) ps"
proof -
  assume r: "sd_rel s ps"
  have "leases (sdc_tokens (drop_card s ps)) (sdc_leases (drop_card s ps)) ps"
    by (rule leases_frame[OF sd_rel_leases[OF r]]) (auto simp: drop_card_def)
  then show ?thesis using r by (auto simp: sd_rel_def drop_card_def)
qed

lemma drop_card_next: "sd_rel s ps \<Longrightarrow> sd_next s ps (drop_card s ps) ps"
  using drop_card_rel[of s ps] by (simp add: sd_next_def) (simp add: drop_card_def)

lemma clear_faults_rel: "sd_rel s ps \<Longrightarrow> sd_rel (clear_faults s ps) ps"
  unfolding clear_faults_def by (rule sd_rel_tokens) auto

lemma clear_faults_next: "sd_rel s ps \<Longrightarrow> sd_next s ps (clear_faults s ps) ps"
  using clear_faults_rel[of s ps] by (simp add: sd_next_def) (simp add: clear_faults_def)

lemma service_unmount_rel: "sd_rel s ps \<Longrightarrow> sd_rel (service_unmount s) ps"
proof (cases "sd_lease_ready_to_unmount (sdc_leases s)")
  case True
  assume r: "sd_rel s ps"
  have "ps = []" using True r leases_head[OF sd_rel_leases[OF r]] by (simp add: sd_lease_ready_to_unmount_def)
  moreover have "leases (sdc_tokens s) (sd_lease_unmounted (sdc_leases s)) ps"
    by (rule leases_frame[OF sd_rel_leases[OF r]]) (auto simp: sd_lease_unmounted_def)
  ultimately show ?thesis using r True
    by (auto simp: service_unmount_def sd_rel_def sd_lease_unmounted_def sd_lease_ready_to_unmount_def)
next
  case False
  then show "sd_rel s ps \<Longrightarrow> ?thesis" by (simp add: service_unmount_def)
qed

lemma service_unmount_next: "sd_rel s ps \<Longrightarrow> sd_next s ps (service_unmount s) ps"
  using service_unmount_rel[of s ps] leases_head[OF sd_rel_leases, of s ps]
  by (auto simp: sd_next_def service_unmount_def sd_lease_ready_to_unmount_def)

text \<open>Steps compose as long as nothing is acknowledged in between.\<close>

lemma sd_next_trans:
  assumes "sd_next s ps t qs" "sd_next t qs u rs"
    and "\<And>p. p \<in> set ps \<Longrightarrow> \<not> l_ack (sdc_tokens s p) \<Longrightarrow> \<not> l_ack (sdc_tokens t p)" "ps \<noteq> [] \<Longrightarrow> qs \<noteq> []"
  shows "sd_next s ps u rs"
  using assms unfolding sd_next_def by (auto intro: evolves_trans)

lemma token_acks [simp]:
  "l_ack (sdc_tokens (drop_card s ps) p) = l_ack (sdc_tokens s p)"
  "l_ack (sdc_tokens (clear_faults s ps) p) = l_ack (sdc_tokens s p)"
  "sdc_tokens (service_unmount s) = sdc_tokens s"
  "sdc_media (service_unmount s) = sdc_media s"
  "sdc_media (clear_faults s ps) = sdc_media s"
  "sdc_media (drop_card s ps) = sd_media_removed (sdc_media s)"
  by (simp_all add: drop_card_def clear_faults_def service_unmount_def)

section \<open>The operations as those changes\<close>

lemma note_error_eq:
  "sd_rel s ps \<Longrightarrow> sd_media_note_error s err =
     Some (if err = ESP_ERR_NOT_FOUND \<or> err = ESP_ERR_TIMEOUT \<or> err = ESP_ERR_INVALID_STATE then drop_card s ps else s)"
  using cancel_leases[OF sd_rel_leases, of s ps] by (auto simp: sd_media_note_error_def drop_card_def)

definition any_fault :: "sd_sys \<Rightarrow> nat list \<Rightarrow> bool" where
  "any_fault s ps \<longleftrightarrow> (\<exists>p \<in> set ps. l_fault (sdc_tokens s p))"

lemma service_eq:
  assumes "sd_rel s ps"
  shows "sd_media_service s = Some (service_unmount
     (if any_fault s ps then drop_card (clear_faults s ps) ps else clear_faults s ps))"
  using take_fault_leases[OF sd_rel_leases[OF assms]] note_error_eq[OF clear_faults_rel[OF assms], of ESP_ERR_TIMEOUT]
  by (simp add: sd_media_service_def any_fault_def clear_faults_def)

lemma unmount_eq:
  assumes "sd_rel s ps"
  shows "sd_media_unmount s = sd_media_service (drop_card s ps)"
  using cancel_leases[OF sd_rel_leases[OF assms]] by (simp add: sd_media_unmount_def drop_card_def)

lemma service_next:
  assumes "sd_rel s ps"
  shows "\<exists>t. sd_media_service s = Some t \<and> sd_next s ps t ps \<and>
     (\<forall>p. l_ack (sdc_tokens t p) = l_ack (sdc_tokens s p))"
proof -
  let ?c = "clear_faults s ps"
  let ?d = "if any_fault s ps then drop_card ?c ps else ?c"
  have c: "sd_rel ?c ps" "sd_next s ps ?c ps" using assms clear_faults_rel clear_faults_next by blast+
  have d: "sd_rel ?d ps" "sd_next s ps ?d ps"
    using c drop_card_rel[OF c(1)] sd_next_trans[OF c(2) drop_card_next[OF c(1)]] by simp_all
  have "sd_next s ps (service_unmount ?d) ps"
    by (rule sd_next_trans[OF d(2) service_unmount_next[OF d(1)]]) simp_all
  moreover have "\<forall>p. l_ack (sdc_tokens (service_unmount ?d) p) = l_ack (sdc_tokens s p)" by simp
  ultimately show ?thesis using service_eq[OF assms] by blast
qed

lemma unmount_next: "sd_rel s ps \<Longrightarrow> \<exists>t. sd_media_unmount s = Some t \<and> sd_next s ps t ps"
proof -
  assume r: "sd_rel s ps"
  obtain t where "sd_media_service (drop_card s ps) = Some t" "sd_next (drop_card s ps) ps t ps"
    using service_next[OF drop_card_rel[OF r]] by blast
  then show ?thesis using unmount_eq[OF r] sd_next_trans[OF drop_card_next[OF r], of t ps] by auto
qed

lemma note_error_next:
  assumes "sd_rel s ps"
  shows "\<exists>t. sd_media_note_error s err = Some t \<and> sd_next s ps t ps \<and>
     (\<forall>p. l_ack (sdc_tokens t p) = l_ack (sdc_tokens s p)) \<and>
     (\<forall>p. rl_file (sdc_tokens t p) = rl_file (sdc_tokens s p))"
  using note_error_eq[OF assms, of err] drop_card_next[OF assms] sd_next_self[OF assms]
  by (simp add: drop_card_def)

lemma grant_fields:
  "sd_media_grant m f = (ok, m') \<Longrightarrow> sdm_state m' = sdm_state m \<and> sdm_generation m' = sdm_generation m"
  by (auto simp: sd_media_grant_folder split: option.splits if_splits)

lemma grant_next: "sd_rel s ps \<Longrightarrow> sd_media_grant_folder s f = (ok, t) \<Longrightarrow> sd_next s ps t ps"
proof -
  assume r: "sd_rel s ps" and g: "sd_media_grant_folder s f = (ok, t)"
  obtain m where m: "sd_media_grant (sdc_media s) f = (ok, m)" "t = s\<lparr>sdc_media := m\<rparr>"
    using g by (auto simp: sd_media_grant_folder_def split: prod.splits)
  have "media_evolves (sdc_media s) m" using evolves_ops(4)[of "sdc_media s" f] m(1) by simp
  then show ?thesis using r m(2) grant_fields[OF m(1)] by (auto simp: sd_next_def sd_rel_def)
qed

lemma some_refusal [simp]: "Ex Not"
  by (rule exI[of _ False]) simp

text \<open>A mount that is not already up runs with no lease attached, so it may replace the card.\<close>

lemma mount_next:
  assumes r: "sd_rel s ps"
  shows "\<exists>ok t. sd_media_mount d s = Some (ok, t) \<and> sd_next s ps t ps"
proof (cases "sdm_state (sdc_media s) = SD_MEDIA_READY")
  case True
  then show ?thesis using sd_next_self[OF r] by (auto simp: sd_media_mount_def)
next
  case False
  obtain s1 where s1: "sd_media_service s = Some s1" "sd_next s ps s1 ps"
      "\<forall>p. l_ack (sdc_tokens s1 p) = l_ack (sdc_tokens s p)"
    using service_next[OF r] by blast
  show ?thesis
  proof (cases "lr_pending (sdc_leases s1)")
    case True
    then show ?thesis using s1 False by (auto simp: sd_media_mount_def)
  next
    case np: False
    have r1: "sd_rel s1 ps" using s1(2) by (simp add: sd_next_def)
    have st1: "sdm_state (sdc_media s1) \<noteq> SD_MEDIA_READY"
      using s1(1) False service_eq[OF r]
      by (auto split: if_splits)
    then have c1: "sdc_card s1 = None" "\<not> lr_mounted (sdc_leases s1)" "ps = []"
      using r1 np by (auto simp: sd_rel_def)
    have hd: "lr_head (sdc_leases s1) = None" using leases_head[OF sd_rel_leases[OF r1]] c1(3) by simp
    have fail: "sd_next s1 ps (s1\<lparr>sdc_card := None, sdc_media := m\<rparr>) ps"
      if "sdm_state m \<noteq> SD_MEDIA_READY" "media_evolves (sdc_media s1) m" for m
      using r1 c1 that by (simp add: sd_next_def sd_rel_def)
    have c0: "s1\<lparr>sdc_media := m\<rparr> = s1\<lparr>sdc_card := None, sdc_media := m\<rparr>" for m
      using c1(1) by (cases s1) simp
    have trans: "sd_next s1 ps t ps \<Longrightarrow> sd_next s ps t ps" for t
      by (rule sd_next_trans[OF s1(2)]) (use s1(3) in auto)
    let ?g = "sdm_generation (sd_media_mounted (sdc_media s1))"
    have mounted: "sdm_state (sd_media_mounted m) = SD_MEDIA_READY" for m
      by (simp add: sd_media_mounted_def)
    obtain e outcome khz where w: "mount_walk (drv_mount d) (SD_CLOCK_LADDER ! 0) (ESP_ERR_OTHER (- 1)) SD_MOUNT_REFUSED = (e, outcome, khz)"
      by (metis prod_cases3)
    have up: "\<exists>c. raise_clock d (Some x) = Some c" for x
      by (auto simp: raise_clock_def Let_def split: prod.splits)
    have failed: "sdm_state (sd_media_failed m) \<noteq> SD_MEDIA_READY" for m by (simp add: sd_media_failed_def)
    consider "drv_spi_acquire d \<noteq> ESP_OK" | "drv_spi_acquire d = ESP_OK" "e \<noteq> ESP_OK"
      | "drv_spi_acquire d = ESP_OK" "e = ESP_OK" "?g = 0"
      | "drv_spi_acquire d = ESP_OK" "e = ESP_OK" "?g \<noteq> 0" by blast
    then show ?thesis
    proof cases
      case 1
      then have "sd_media_mount d s = Some (False, s1\<lparr>sdc_card := None, sdc_media := sd_media_failed (sdc_media s1)\<rparr>)"
        using False np s1(1) c0[of "sd_media_failed (sdc_media s1)"] by (simp add: sd_media_mount_def)
      then show ?thesis using trans[OF fail[OF failed evolves_ops(3)]] by blast
    next
      case 2
      then show ?thesis using False np s1(1) w trans[OF fail[OF failed evolves_ops(3)]]
          trans[OF fail[OF _ evolves_ops(2)]]
        by (simp add: sd_media_mount_def)
    next
      case 3
      have "media_evolves (sdc_media s1) (sd_media_removed (sd_media_mounted (sdc_media s1)))"
        by (rule evolves_trans[OF evolves_ops(1) evolves_ops(2)])
      then have "sd_next s ps (s1\<lparr>sdc_card := None, sdc_media := sd_media_removed (sd_media_mounted (sdc_media s1))\<rparr>) ps"
        using trans[OF fail] by simp
      moreover have "s1\<lparr>sdc_card := None, sdc_media := m, sdc_leases := sdc_leases s1\<rparr> = s1\<lparr>sdc_card := None, sdc_media := m\<rparr>" for m
        by simp
      ultimately show ?thesis using False np s1(1) w 3 hd
        by (simp add: sd_media_mount_def sd_lease_registry_mount_def)
    next
      case 4
      obtain c where c: "raise_clock d (Some \<lparr>card_max_freq_khz = khz, card_clk = khz\<rparr>) = Some c"
        using up by blast
      define t where "t = s1\<lparr>sdc_card := Some c, sdc_media := sd_media_mounted (sdc_media s1),
          sdc_leases := (sdc_leases s1)\<lparr>lr_generation := ?g, lr_mounted := True\<rparr>\<rparr>"
      have "sd_media_mount d s = Some (True, t)" using False np s1(1) w 4 hd c
        by (simp add: sd_media_mount_def sd_lease_registry_mount_def t_def Let_def)
      moreover have "leases (sdc_tokens t) (sdc_leases t) ps"
        by (rule leases_frame[OF sd_rel_leases[OF r1]]) (auto simp: t_def)
      then have "sd_next s1 ps t ps" using c1 np 4 mounted
        by (simp add: sd_next_def sd_rel_def t_def)
      ultimately show ?thesis using trans by blast
    qed
  qed
qed

lemma bind_next:
  assumes r: "sd_rel s ps"
  shows "\<exists>ok t qs. sd_media_read_lease_bind s lease file fspath key g sz mode = Some (ok, t) \<and> sd_next s ps t qs"
proof -
  note self = sd_next_self[OF r]
  show ?thesis
  proof (cases "\<exists>l path. lease = Some l \<and> fspath = Some path \<and> length path < SD_FSPATH_MAX \<and>
      \<not> (mode = SD_MEDIA_LEASE_PERSISTENT \<and> file = None \<or> mode \<noteq> SD_MEDIA_LEASE_REOPEN \<and> mode \<noteq> SD_MEDIA_LEASE_PERSISTENT) \<and>
      lr_mounted (sdc_leases s) \<and> \<not> lr_pending (sdc_leases s) \<and> g \<noteq> 0 \<and> g = lr_generation (sdc_leases s) \<and> l \<notin> set ps")
    case False
    then show ?thesis using self attach_leases[OF sd_rel_leases[OF r], of _ key g]
      by (auto simp: sd_media_read_lease_bind_def split: option.splits intro: exI[of _ ps])
  next
    case True
    then obtain l path where l: "lease = Some l" "fspath = Some path" "length path < SD_FSPATH_MAX"
      and m: "\<not> (mode = SD_MEDIA_LEASE_PERSISTENT \<and> file = None \<or> mode \<noteq> SD_MEDIA_LEASE_REOPEN \<and> mode \<noteq> SD_MEDIA_LEASE_PERSISTENT)"
      and g: "lr_mounted (sdc_leases s)" "\<not> lr_pending (sdc_leases s)" "g \<noteq> 0" "g = lr_generation (sdc_leases s)" "l \<notin> set ps"
      by blast
    define x where "x = (sdc_tokens s l)\<lparr>l_key := key, l_generation := g, l_revoked := False, l_fault := False,
        l_ack := False, l_next := lr_head (sdc_leases s), rl_file := file, rl_mode := mode, rl_size := sz, rl_path := path\<rparr>"
    define t where "t = s\<lparr>sdc_leases := (sdc_leases s)\<lparr>lr_head := Some l\<rparr>, sdc_tokens := (sdc_tokens s)(l := x)\<rparr>"
    have "sd_media_read_lease_bind s lease file fspath key g sz mode = Some (True, t)"
      using l m g attach_leases[OF sd_rel_leases[OF r], of l key g]
      by (auto simp: sd_media_read_lease_bind_def t_def x_def)
    moreover have "leases (sdc_tokens t) (sdc_leases t) (l # ps)"
      using attached_leases[OF sd_rel_leases[OF r] g(5), of x] by (simp add: t_def) (simp add: x_def)
    then have "sd_rel t (l # ps)" using r g by (auto simp: sd_rel_def t_def x_def)
    then have "sd_next s ps t (l # ps)" using g(5) by (auto simp: sd_next_def t_def)
    ultimately show ?thesis by blast
  qed
qed

text \<open>Worker steps and cancellation change one token, and neither its link nor its generation.\<close>

lemma token_next:
  assumes r: "sd_rel s ps"
    and "l_next x = l_next (sdc_tokens s l)" "l_generation x = l_generation (sdc_tokens s l)"
    and "rl_file x = rl_file (sdc_tokens s l)" "rl_path x = rl_path (sdc_tokens s l)"
    and "l_revoked (sdc_tokens s l) \<longrightarrow> l_revoked x"
  shows "sd_next s ps (s\<lparr>sdc_tokens := (sdc_tokens s)(l := x)\<rparr>) ps"
proof -
  have "sd_rel (s\<lparr>sdc_tokens := (sdc_tokens s)(l := x)\<rparr>) ps"
    by (rule sd_rel_tokens[OF r]) (use assms in auto)
  then show ?thesis using assms by (simp add: sd_next_def)
qed

text \<open>The token after a read differs from the one before at most in \<open>fault\<close>.\<close>

lemma fault_token_same: "\<exists>b. fault_token l e = l\<lparr>l_fault := b\<rparr>" "\<exists>b. l = l\<lparr>l_fault := b\<rparr>"
  by (auto simp: fault_token_def intro: exI[of _ "l_fault l"])

lemma read_lease_file_cases:
  obtains e where "read_lease_file io l offset want = (- 1, e, [], fault_token l e, if rl_mode l = SD_MEDIA_LEASE_REOPEN then [FOpen (rl_path l)] else [])" "e \<noteq> 0"
  | f e where "read_lease_file io l offset want = (- 1, e, [], fault_token l e,
        if rl_mode l = SD_MEDIA_LEASE_REOPEN then [FOpen (rl_path l), FSeek f, FClose f] else [FSeek f])" "e \<noteq> 0"
      "rl_mode l = SD_MEDIA_LEASE_REOPEN \<or> rl_file l = Some f"
  | f e where "read_lease_file io l offset want =
        (if e \<noteq> 0 then (- 1, e, fst (ff_read io f offset want), fault_token l e,
           if rl_mode l = SD_MEDIA_LEASE_REOPEN then [FOpen (rl_path l), FSeek f, FRead f, FClose f] else [FSeek f, FRead f])
         else (of_nat (length (fst (ff_read io f offset want))), 0, fst (ff_read io f offset want), l,
           if rl_mode l = SD_MEDIA_LEASE_REOPEN then [FOpen (rl_path l), FSeek f, FRead f, FClose f] else [FSeek f, FRead f]))"
      "rl_mode l = SD_MEDIA_LEASE_REOPEN \<or> rl_file l = Some f"
proof -
  obtain fh errno where o: "(if rl_mode l = SD_MEDIA_LEASE_REOPEN then ff_open io (rl_path l) else (rl_file l, 0)) = (fh, errno)"
    by fastforce
  have nz: "errno_or_eio e \<noteq> 0" for e by (simp add: errno_or_eio_def EIO_def)
  show thesis
  proof (cases fh)
    case None
    then show thesis using that(1)[of "errno_or_eio errno"] nz by (simp add: read_lease_file_def o)
  next
    case (Some f)
    have m: "rl_mode l = SD_MEDIA_LEASE_REOPEN \<or> rl_file l = Some f" using o Some by (auto split: if_splits)
    obtain sk serr where sk: "ff_seek io f offset = (sk, serr)" by fastforce
    show thesis
    proof (cases "sk = 0")
      case False
      then show thesis using that(2)[of "errno_or_eio serr" f] nz m sk Some by (simp add: read_lease_file_def o Let_def)
    next
      case True
      obtain data ferror rerr where rd: "ff_read io f offset want = (data, ferror, rerr)" by (metis prod_cases3)
      obtain cl cerr where cl: "ff_close io f = (cl, cerr)" by fastforce
      define e1 where "e1 = (if length data < unat want \<and> ferror then errno_or_eio rerr else 0)"
      define e2 where "e2 = (if rl_mode l = SD_MEDIA_LEASE_REOPEN \<and> cl \<noteq> 0 \<and> e1 = 0 then errno_or_eio cerr else e1)"
      show thesis
        by (rule that(3)[of e2 f])
           (use m nz in \<open>auto simp: read_lease_file_def o sk True rd cl Some Let_def e1_def[symmetric] e2_def\<close>)
    qed
  qed
qed

lemma read_lease_token:
  "\<exists>b. fst (snd (snd (snd (read_lease_at io l offset want)))) = l\<lparr>l_fault := b\<rparr>"
proof -
  have "\<exists>b. fst (snd (snd (snd (read_lease_file io l offset w)))) = l\<lparr>l_fault := b\<rparr>" for w
    by (rule read_lease_file_cases[of io l offset w]) (use fault_token_same[of l] in auto)
  then show ?thesis using fault_token_same[of l] by (simp add: read_lease_at_def Let_def)
qed

lemma read_next:
  assumes r: "sd_rel s ps"
    and "sd_media_read_lease_read_at io (sdc_tokens s) (Some l) oset eset offset want = (ret, err, data, h)"
  shows "sd_next s ps (s\<lparr>sdc_tokens := h\<rparr>) ps"
proof (cases "oset \<and> eset")
  case False
  then have "h = sdc_tokens s" using assms(2) by (auto simp: sd_media_read_lease_read_at_def)
  then show ?thesis using sd_next_self[OF r] by simp
next
  case True
  obtain b where "fst (snd (snd (snd (read_lease_at io (sdc_tokens s l) offset want)))) = (sdc_tokens s l)\<lparr>l_fault := b\<rparr>"
    using read_lease_token by blast
  then have "h = (sdc_tokens s)(l := (sdc_tokens s l)\<lparr>l_fault := b\<rparr>)"
    using assms(2) True by (auto simp: sd_media_read_lease_read_at_def split: prod.splits)
  then show ?thesis using token_next[OF r, of "(sdc_tokens s l)\<lparr>l_fault := b\<rparr>" l] by simp
qed

lemma cancel_next: "sd_rel s ps \<Longrightarrow> sd_next s ps (sd_media_read_lease_cancel s l) ps"
  by (cases l) (auto simp: sd_media_read_lease_cancel_def intro: sd_next_self token_next)

lemma ack_next: "sd_rel s ps \<Longrightarrow> sd_next s ps (sd_media_read_lease_ack s l) ps"
  by (cases l) (auto simp: sd_media_read_lease_ack_def sd_lease_ack_def intro: sd_next_self token_next)

lemma close_fault_next:
  assumes r: "sd_rel s ps"
  shows "\<exists>t. close_fault s l = Some t \<and> sd_next s ps t ps \<and> sdc_card t = sdc_card s \<and>
     (sdm_state (sdc_media s) \<noteq> SD_MEDIA_READY \<longrightarrow> sdm_state (sdc_media t) \<noteq> SD_MEDIA_READY) \<and> (\<forall>p. l_ack (sdc_tokens t p) = l_ack (sdc_tokens s p)) \<and>
     (\<forall>p. rl_file (sdc_tokens t p) = rl_file (sdc_tokens s p)) \<and>
     (l_fault (sdc_tokens s l) \<longrightarrow> t = drop_card (s\<lparr>sdc_tokens := (sdc_tokens s)(l := (sdc_tokens s l)\<lparr>l_fault := False\<rparr>)\<rparr>) ps)"
proof -
  let ?s1 = "s\<lparr>sdc_tokens := (sdc_tokens s)(l := (sdc_tokens s l)\<lparr>l_fault := False\<rparr>)\<rparr>"
  have s1: "sd_next s ps ?s1 ps" by (rule token_next[OF r]) simp_all
  then have r1: "sd_rel ?s1 ps" by (simp add: sd_next_def)
  show ?thesis
  proof (cases "l_fault (sdc_tokens s l)")
    case False
    then show ?thesis using s1 by (simp add: close_fault_def)
  next
    case True
    have "sd_next s ps (drop_card ?s1 ps) ps"
      by (rule sd_next_trans[OF s1 drop_card_next[OF r1]]) auto
    then show ?thesis using True note_error_eq[OF r1, of ESP_ERR_TIMEOUT]
      by (simp add: close_fault_def) (simp add: drop_card_def)
  qed
qed

lemma close_file_rel:
  assumes r: "sd_rel s ps"
  shows "\<exists>t. close_file io s l = Some t \<and> sd_rel t ps \<and> media_evolves (sdc_media s) (sdc_media t) \<and>
     (\<forall>p. l_ack (sdc_tokens t p) = l_ack (sdc_tokens s p)) \<and>
     (\<forall>p. rl_file (sdc_tokens t p) = (if p = l then None else rl_file (sdc_tokens s p))) \<and>
     (\<forall>p. rl_path (sdc_tokens t p) = rl_path (sdc_tokens s p) \<and>
        (l_revoked (sdc_tokens s p) \<longrightarrow> l_revoked (sdc_tokens t p))) \<and>
     sdc_card t = sdc_card s \<and> lr_generation (sdc_leases t) = lr_generation (sdc_leases s) \<and>
     (sdm_state (sdc_media s) \<noteq> SD_MEDIA_READY \<longrightarrow> sdm_state (sdc_media t) \<noteq> SD_MEDIA_READY) \<and>
     (sdm_state (sdc_media s) = SD_MEDIA_ABSENT \<longrightarrow> sdm_state (sdc_media t) = SD_MEDIA_ABSENT) \<and>
     (\<not> sdm_granted (sdc_media s) \<longrightarrow> \<not> sdm_granted (sdc_media t))"
proof (cases "rl_file (sdc_tokens s l)")
  case None
  then show ?thesis using r by (auto simp: close_file_def)
next
  case (Some f)
  obtain c e where c: "ff_close io f = (c, e)" by fastforce
  define s1 where "s1 = (if c \<noteq> 0 \<and> e = EIO then drop_card s ps else s)"
  define t where "t = s1\<lparr>sdc_tokens := (sdc_tokens s1)(l := (sdc_tokens s1 l)\<lparr>rl_file := None\<rparr>)\<rparr>"
  have r1: "sd_rel s1 ps" using r drop_card_rel[OF r] by (simp add: s1_def)
  have "sd_rel t ps" unfolding t_def by (rule sd_rel_tokens[OF r1]) auto
  moreover have "close_file io s l = Some t"
    using Some c note_error_eq[OF r, of ESP_ERR_TIMEOUT] by (simp add: close_file_def t_def s1_def)
  ultimately show ?thesis by (simp add: t_def s1_def) (simp add: drop_card_def)
qed

text \<open>The effect of a close: refused before the acknowledgement; afterwards the token leaves the registry.\<close>

lemma close_eq:
  assumes r: "sd_rel s ps"
  shows "\<exists>ok t. sd_media_read_lease_close io s l = Some (ok, t) \<and>
     (\<not> sd_media_read_lease_acked s l \<longrightarrow> \<not> ok \<and> t = s) \<and>
     (sd_media_read_lease_acked s l \<longrightarrow> sd_next s ps t (removeAll (the l) ps) \<and> sdc_card t = sdc_card s \<and>
        (\<forall>p. l_ack (sdc_tokens t p) = l_ack (sdc_tokens s p)) \<and> ok = (the l \<in> set ps) \<and>
        (sdm_state (sdc_media s) \<noteq> SD_MEDIA_READY \<longrightarrow> sdm_state (sdc_media t) \<noteq> SD_MEDIA_READY) \<and>
        (l_fault (sdc_tokens s (the l)) \<longrightarrow> sdm_state (sdc_media t) = SD_MEDIA_ABSENT \<and> \<not> sdm_granted (sdc_media t)))"
proof (cases "sd_media_read_lease_acked s l")
  case False
  then show ?thesis by (simp add: sd_media_read_lease_close_def)
next
  case True
  then obtain p where p: "l = Some p" "l_ack (sdc_tokens s p)"
    by (auto simp: sd_media_read_lease_acked_def split: option.splits)
  obtain s1 where s1: "close_fault s p = Some s1" "sd_next s ps s1 ps"
      and c1: "sdc_card s1 = sdc_card s" "sdm_state (sdc_media s) \<noteq> SD_MEDIA_READY \<longrightarrow> sdm_state (sdc_media s1) \<noteq> SD_MEDIA_READY"
      and s1': "\<forall>q. l_ack (sdc_tokens s1 q) = l_ack (sdc_tokens s q)"
      "\<forall>q. rl_file (sdc_tokens s1 q) = rl_file (sdc_tokens s q)"
      "l_fault (sdc_tokens s p) \<longrightarrow> s1 = drop_card (s\<lparr>sdc_tokens := (sdc_tokens s)(p := (sdc_tokens s p)\<lparr>l_fault := False\<rparr>)\<rparr>) ps"
    using close_fault_next[OF r, of p] by blast
  have r1: "sd_rel s1 ps" using s1(2) by (simp add: sd_next_def)
  obtain s2 where s2: "close_file io s1 p = Some s2" "sd_rel s2 ps" "media_evolves (sdc_media s1) (sdc_media s2)"
      "\<forall>q. l_ack (sdc_tokens s2 q) = l_ack (sdc_tokens s1 q)"
      "\<forall>q. rl_file (sdc_tokens s2 q) = (if q = p then None else rl_file (sdc_tokens s1 q))"
      "\<forall>q. rl_path (sdc_tokens s2 q) = rl_path (sdc_tokens s1 q) \<and> (l_revoked (sdc_tokens s1 q) \<longrightarrow> l_revoked (sdc_tokens s2 q))"
      "sdc_card s2 = sdc_card s1" "lr_generation (sdc_leases s2) = lr_generation (sdc_leases s1)"
      "sdm_state (sdc_media s1) \<noteq> SD_MEDIA_READY \<longrightarrow> sdm_state (sdc_media s2) \<noteq> SD_MEDIA_READY"
      "sdm_state (sdc_media s1) = SD_MEDIA_ABSENT \<longrightarrow> sdm_state (sdc_media s2) = SD_MEDIA_ABSENT"
      "\<not> sdm_granted (sdc_media s1) \<longrightarrow> \<not> sdm_granted (sdc_media s2)"
    using close_file_rel[OF r1] by blast
  have a2: "l_ack (sdc_tokens s2 p)" using s2(4) s1'(1) p(2) by simp
  obtain h r' x where d: "sd_lease_detach (sdc_tokens s2) (sdc_leases s2) (Some p) = Some (p \<in> set ps, h, r')"
      "leases h r' (removeAll p ps)" "\<forall>q. h q = (sdc_tokens s2 q)\<lparr>l_next := l_next (h q)\<rparr>"
      "r' = (sdc_leases s2)\<lparr>lr_head := x\<rparr>"
    using detach_leases[OF sd_rel_leases[OF s2(2)], of p] a2 by auto
  define t where "t = s2\<lparr>sdc_tokens := h, sdc_leases := r'\<rparr>"
  have hf: "l_ack (h q) = l_ack (sdc_tokens s2 q) \<and> l_generation (h q) = l_generation (sdc_tokens s2 q) \<and>
      l_revoked (h q) = l_revoked (sdc_tokens s2 q) \<and> rl_file (h q) = rl_file (sdc_tokens s2 q) \<and>
      rl_path (h q) = rl_path (sdc_tokens s2 q)" for q
  proof -
    obtain n where "h q = (sdc_tokens s2 q)\<lparr>l_next := n\<rparr>" using d(3) by blast
    then show ?thesis by simp
  qed
  have tf: "sdc_media t = sdc_media s2" "sdc_card t = sdc_card s2" "sdc_tokens t = h"
      "lr_generation (sdc_leases t) = lr_generation (sdc_leases s2)" "sdc_leases t = r'"
    by (simp_all add: t_def d(4))
  have rt: "sd_rel t (removeAll p ps)"
    using s2(2) d(2) hf unfolding sd_rel_def tf(1-3) tf(5) d(4) by auto
  have ev: "media_evolves (sdc_media s) (sdc_media t)"
    using s1(2) s2(3) evolves_trans by (auto simp: sd_next_def tf)
  have nx: "sd_next s ps t (removeAll p ps)"
    using s1(2) s1'(2) s2(5,6,7,8) rt ev hf p(2) c1(1) by (auto simp: sd_next_def tf(1-4))
  have fault: "l_fault (sdc_tokens s p) \<Longrightarrow> sdm_state (sdc_media t) = SD_MEDIA_ABSENT \<and> \<not> sdm_granted (sdc_media t)"
    using s1'(3) s2(10,11) by (simp add: tf)
  have "sd_media_read_lease_close io s l = Some (p \<in> set ps, t)"
    using True p s1(1) s2(1) d(1) by (simp add: sd_media_read_lease_close_def t_def)
  then show ?thesis using True p(1) nx fault c1 s2(7,9) s1'(1) s2(4) hf by (simp add: tf)
qed

text \<open>Every step of the owner and of a worker keeps the relation.\<close>

lemma sd_step_next: "sd_step s t \<Longrightarrow> sd_rel s ps \<Longrightarrow> \<exists>qs. sd_next s ps t qs"
proof (induction rule: sd_step.induct)
  case (step_mount d s ok t)
  then show ?case using mount_next[of s ps d] by auto
next
  case (step_unmount s t)
  then show ?case using unmount_next[of s ps] by auto
next
  case (step_error s err t)
  then show ?case using note_error_next[of s ps err] by auto
next
  case (step_service s t)
  then show ?case using service_next[of s ps] by auto
next
  case (step_grant s f ok t)
  then show ?case using grant_next by blast
next
  case (step_bind s l fh p key g sz mode ok t)
  then show ?case using bind_next[of s ps l fh p key g sz mode] by auto
next
  case (step_cancel s l)
  then show ?case using cancel_next by blast
next
  case (step_close io s l ok t)
  then show ?case using close_eq[of s ps io l] sd_next_self[of s ps] by auto
next
  case (step_read io s l oset eset offset want ret err data h)
  then show ?case using read_next by blast
next
  case (step_ack s l)
  then show ?case using ack_next by blast
qed

definition sd_inv :: "sd_sys \<Rightarrow> bool" where
  "sd_inv s \<longleftrightarrow> (\<exists>ps. sd_rel s ps) \<and> media_evolves sd_media_reset (sdc_media s)"

interpretation sd: step_system sd_step sd_inv
  by unfold_locales (use sd_step_next in \<open>fastforce simp: sd_inv_def sd_next_def intro: evolves_trans\<close>)

lemma sd_init_inv: "sd_inv (sd_media_init h)"
proof -
  have "sd_rel (sd_media_init h) []"
    by (simp add: sd_rel_def sd_media_init_def leases_def sd_lease_registry_reset_def sd_media_reset_def)
  then show ?thesis by (auto simp: sd_inv_def sd_media_init_def)
qed

lemma sd_reachable: "sd_step\<^sup>*\<^sup>* (sd_media_init h) s \<Longrightarrow> sd_inv s"
  by (rule sd.rtrancl_inv) (auto intro: sd_init_inv)

text \<open>In every state of the system an accepted path stays inside one folder a person chose.\<close>

lemma sd_system_confined:
  assumes "sd_inv s" "sd_path_build (sdc_media s) rel out outsz = (SD_PATH_OK, p)"
  shows "\<exists>f. folder_ok f \<and> fs_place p = [[115, 100], f] @ (if rel = [] then [] else comps rel)"
proof -
  obtain es where "sdc_media s = foldl sd_media_step sd_media_reset es"
    using assms(1) by (auto simp: sd_inv_def media_evolves_def)
  then show ?thesis using accepted_place[OF grant_rel_history[of es]] assms(2) by metis
qed

section \<open>A worker keeps its card\<close>

text \<open>The state after one mount and one bound lease, for the examples.\<close>

definition demo_files :: sd_files where
  "demo_files = \<lparr>ff_open = (\<lambda>_. (Some 1, 0)), ff_seek = (\<lambda>_ _. (0, 0)),
     ff_read = (\<lambda>_ _ n. (replicate (unat n) 7, False, 0)), ff_close = (\<lambda>_. (0, 0))\<rparr>"

definition demo_driver :: sd_driver where
  "demo_driver = \<lparr>drv_spi_acquire = ESP_OK, drv_mount = (\<lambda>khz. if khz = 40000 then ESP_ERR_OTHER 1 else ESP_OK),
     drv_malloc_ok = True, drv_read_ref = (ESP_OK, [7]), drv_set_clk = (\<lambda>khz. (ESP_OK, khz)),
     drv_read_again = (ESP_OK, [7])\<rparr>"

definition demo_token :: sd_media_read_lease where
  "demo_token = \<lparr>l_next = None, l_key = 0, l_generation = 0, l_revoked = False, l_fault = False, l_ack = False,
     rl_file = None, rl_mode = 0, rl_size = 0, rl_path = []\<rparr>"

definition demo_mounted :: sd_sys where
  "demo_mounted = \<lparr>sdc_media = sd_media_reset\<lparr>sdm_state := SD_MEDIA_READY, sdm_generation := 1\<rparr>,
     sdc_card = Some \<lparr>card_max_freq_khz = 25000, card_clk = 25000\<rparr>,
     sdc_leases = \<lparr>lr_head = None, lr_generation = 1, lr_mounted = True, lr_pending = False\<rparr>,
     sdc_tokens = (\<lambda>_. demo_token)\<rparr>"

definition demo_bound :: sd_sys where
  "demo_bound = demo_mounted\<lparr>sdc_leases := (sdc_leases demo_mounted)\<lparr>lr_head := Some 0\<rparr>,
     sdc_tokens := (\<lambda>_. demo_token)(0 := demo_token\<lparr>l_key := 9, l_generation := 1, rl_file := Some 3,
       rl_mode := 1, rl_size := 100, rl_path := ascii ''/sd/a''\<rparr>)\<rparr>"

lemma demo_walk: "mount_walk (drv_mount demo_driver) 40000 e SD_MOUNT_REFUSED = (ESP_OK, SD_MOUNT_REFUSED, 20000)"
  by (simp add: demo_driver_def mount_walk.simps sd_clock_next_def SD_CLOCK_LADDER_def)

lemma demo_mount: "sd_media_mount demo_driver (sd_media_init (\<lambda>_. demo_token)) = Some (True, demo_mounted)"
proof -
  let ?s = "sd_media_init (\<lambda>_. demo_token)"
  have r: "sd_rel ?s []"
    by (simp add: sd_rel_def sd_media_init_def leases_def sd_lease_registry_reset_def sd_media_reset_def)
  have "sd_media_service ?s = Some ?s"
    using service_eq[OF r] by (simp add: any_fault_def clear_faults_def service_unmount_def
        sd_lease_ready_to_unmount_def sd_media_init_def sd_lease_registry_reset_def)
  then show ?thesis
    using demo_walk
    by (simp add: sd_media_mount_def sd_media_init_def sd_lease_registry_reset_def sd_media_reset_def demo_mounted_def
        SD_CLOCK_LADDER_def raise_clock_def sd_clock_boost_def sd_media_mounted_def sd_lease_registry_mount_def)
      (simp add: demo_driver_def)
qed

lemma demo_rel: "sd_rel demo_mounted []" "sd_rel demo_bound [0]"
  by (simp_all add: sd_rel_def leases_def demo_mounted_def demo_bound_def demo_token_def sd_media_reset_def)

lemma demo_bind:
  "sd_media_read_lease_bind demo_mounted (Some 0) (Some 3) (Some (ascii ''/sd/a'')) 9 1 100 1 = Some (True, demo_bound)"
  using attach_leases[OF sd_rel_leases[OF demo_rel(1)], of 0 9 1]
  by (simp add: sd_media_read_lease_bind_def SD_MEDIA_LEASE_PERSISTENT_def SD_MEDIA_LEASE_REOPEN_def ascii_def)
    (simp add: demo_mounted_def demo_bound_def demo_token_def ascii_def fun_eq_iff)

lemma demo_reachable: "sd_step\<^sup>*\<^sup>* (sd_media_init (\<lambda>_. demo_token)) demo_bound"
  using step_mount[OF demo_mount] step_bind[OF demo_bind] by (meson converse_rtranclp_into_rtranclp rtranclp.rtrancl_refl)

text \<open>Property C4: while a worker has not acknowledged, no step of the owner or of a worker, a removal, an
  unmount or a new mount included, takes the card from under its file: the card stays mounted under the same
  generation, and the token stays in the registry with its file and its revocation.\<close>

theorem sd_lease_pins_card:
  assumes "sd_step\<^sup>*\<^sup>* (sd_media_init h) s" "sd_step s t"
    and "lease_chain (sdc_tokens s) (lr_head (sdc_leases s)) = Some ps" "p \<in> set ps" "\<not> l_ack (sdc_tokens s p)"
  shows "sdc_card s \<noteq> None \<and> sdc_card t = sdc_card s \<and>
     lr_generation (sdc_leases t) = lr_generation (sdc_leases s) \<and>
     l_generation (sdc_tokens s p) = lr_generation (sdc_leases s) \<and>
     (\<exists>qs. lease_chain (sdc_tokens t) (lr_head (sdc_leases t)) = Some qs \<and> p \<in> set qs) \<and>
     rl_file (sdc_tokens t p) = rl_file (sdc_tokens s p) \<and>
     (l_revoked (sdc_tokens s p) \<longrightarrow> l_revoked (sdc_tokens t p))"
proof -
  obtain rs where r: "sd_rel s rs" using sd_reachable[OF assms(1)] by (auto simp: sd_inv_def)
  then have ps: "rs = ps" using leases_chain[OF sd_rel_leases[OF r]] assms(3) by simp
  obtain qs where q: "sd_next s ps t qs" using sd_step_next[OF assms(2) r] ps by blast
  then have "lease_chain (sdc_tokens t) (lr_head (sdc_leases t)) = Some qs"
    using leases_chain[OF sd_rel_leases] by (auto simp: sd_next_def)
  then show ?thesis using q r ps assms(4,5) by (auto simp: sd_next_def sd_rel_def)
qed

lemma sd_lease_pins_card_witness:
  "sdc_card (drop_card demo_bound [0]) = sdc_card demo_bound \<and> sd_media_unmount demo_bound \<noteq> None"
proof -
  have e: "sd_media_note_error demo_bound ESP_ERR_TIMEOUT = Some (drop_card demo_bound [0])"
    using note_error_eq[OF demo_rel(2)] by simp
  have "sdc_card (drop_card demo_bound [0]) = sdc_card demo_bound"
    using sd_lease_pins_card[OF demo_reachable step_error[OF e] leases_chain[OF sd_rel_leases[OF demo_rel(2)]], of 0]
    by (simp add: demo_bound_def demo_token_def)
  then show ?thesis using unmount_next[OF demo_rel(2)] by auto
qed

section \<open>A fault reaches the grant, and a removed card is let go\<close>



text \<open>The owner's end of a removal: close every token, newest first, and service once.\<close>

primrec close_all :: "sd_files \<Rightarrow> sd_sys \<Rightarrow> nat list \<Rightarrow> sd_sys option" where
  "close_all io s [] = Some s"
| "close_all io s (p # ps) =
     Option.bind (sd_media_read_lease_close io s (Some p)) (\<lambda>(ok, t). if ok then close_all io t ps else None)"

lemma close_all_rel:
  "sd_rel s ps \<Longrightarrow> (\<And>p. p \<in> set ps \<Longrightarrow> l_ack (sdc_tokens s p)) \<Longrightarrow> sdm_state (sdc_media s) \<noteq> SD_MEDIA_READY \<Longrightarrow>
   \<exists>t. close_all io s ps = Some t \<and> sd_rel t [] \<and> sdm_state (sdc_media t) \<noteq> SD_MEDIA_READY"
proof (induction ps arbitrary: s)
  case Nil
  then show ?case by simp
next
  case (Cons p ps)
  have d: "removeAll p (p # ps) = ps" using Cons.prems(1) by (simp add: sd_rel_def leases_def)
  obtain t where t: "sd_media_read_lease_close io s (Some p) = Some (True, t)" "sd_rel t ps"
      "\<forall>q. l_ack (sdc_tokens t q) = l_ack (sdc_tokens s q)" "sdm_state (sdc_media t) \<noteq> SD_MEDIA_READY"
    using close_eq[OF Cons.prems(1), of io "Some p"] Cons.prems(2,3) d
    by (auto simp: sd_media_read_lease_acked_def sd_next_def)
  then show ?case using Cons.IH[OF t(2)] Cons.prems(2) by simp
qed

text \<open>Property C37: a removed card is always let go: in every reachable state whose volume is not ready, once
  every token of the registry is acknowledged, closing them all succeeds, and the next service unmounts the card
  and clears the pending removal, after which a mount is no longer refused for it.\<close>

theorem sd_removed_card_drains:
  assumes "sd_step\<^sup>*\<^sup>* (sd_media_init h) s" "sdm_state (sdc_media s) \<noteq> SD_MEDIA_READY"
    and "lease_chain (sdc_tokens s) (lr_head (sdc_leases s)) = Some ps" "\<forall>p \<in> set ps. l_ack (sdc_tokens s p)"
  shows "\<exists>t u. close_all io s ps = Some t \<and> sd_media_service t = Some u \<and>
     sdc_card u = None \<and> \<not> lr_pending (sdc_leases u) \<and> lr_head (sdc_leases u) = None"
proof -
  obtain rs where r: "sd_rel s rs" using sd_reachable[OF assms(1)] by (auto simp: sd_inv_def)
  then have r: "sd_rel s ps" using leases_chain[OF sd_rel_leases[OF r]] assms(3) by simp
  obtain t where t: "close_all io s ps = Some t" "sd_rel t []" "sdm_state (sdc_media t) \<noteq> SD_MEDIA_READY"
    using close_all_rel[OF r _ assms(2)] assms(4) by blast
  have c: "clear_faults t [] = t" by (simp add: clear_faults_def)
  have u: "sd_media_service t = Some (service_unmount t)" using service_eq[OF t(2)] c by (simp add: any_fault_def)
  have hd: "lr_head (sdc_leases t) = None" using leases_head[OF sd_rel_leases[OF t(2)]] by simp
  have m: "\<not> lr_mounted (sdc_leases t)" using t(2,3) by (simp add: sd_rel_def)
  then have "sdc_card t \<noteq> None \<Longrightarrow> lr_pending (sdc_leases t)" using t(2) by (simp add: sd_rel_def)
  then show ?thesis using t(1) u hd
    by (cases "lr_pending (sdc_leases t)"; cases "sdc_card t") (auto simp: service_unmount_def sd_lease_ready_to_unmount_def sd_lease_unmounted_def)
qed

lemma sd_removed_card_drains_witness:
  "\<exists>t u. close_all demo_files (sd_media_read_lease_ack (drop_card demo_bound [0]) (Some 0)) [0] = Some t \<and>
     sd_media_service t = Some u \<and> sdc_card u = None"
proof -
  let ?d = "drop_card demo_bound [0]" and ?s = "sd_media_read_lease_ack (drop_card demo_bound [0]) (Some 0)"
  have e: "sd_media_note_error demo_bound ESP_ERR_TIMEOUT = Some ?d" using note_error_eq[OF demo_rel(2)] by simp
  have st: "sd_step\<^sup>*\<^sup>* (sd_media_init (\<lambda>_. demo_token)) ?s"
    by (rule rtranclp.rtrancl_into_rtrancl[OF rtranclp.rtrancl_into_rtrancl[OF demo_reachable step_error[OF e]] step_ack])
  have rel: "sd_rel ?s [0]" using ack_next[OF drop_card_rel[OF demo_rel(2)]] by (auto simp: sd_next_def)
  have "sdm_state (sdc_media ?s) \<noteq> SD_MEDIA_READY"
    by (simp add: sd_media_read_lease_ack_def)
  moreover have "\<forall>p \<in> set [0]. l_ack (sdc_tokens ?s p)" by (simp add: sd_media_read_lease_ack_def sd_lease_ack_def)
  ultimately show ?thesis
    using sd_removed_card_drains[OF st _ leases_chain[OF sd_rel_leases[OF rel]]] by blast
qed

section \<open>The walk down the ladder\<close>

definition refused :: "sd_esp_err \<Rightarrow> bool" where
  "refused e \<longleftrightarrow> e \<noteq> ESP_OK \<and> e \<noteq> ESP_ERR_NOT_FOUND \<and> e \<noteq> ESP_ERR_TIMEOUT"

definition absent_err :: "sd_esp_err \<Rightarrow> bool" where
  "absent_err e \<longleftrightarrow> e = ESP_ERR_NOT_FOUND \<or> e = ESP_ERR_TIMEOUT"

lemma walk_zero: "mount_walk attempt 0 e out = (e, out, 0)"
  by (simp add: mount_walk.simps)

lemma walk_step:
  "khz \<noteq> 0 \<Longrightarrow> mount_walk attempt khz e out =
     (if attempt khz = ESP_OK then (ESP_OK, out, khz)
      else if absent_err (attempt khz) then (attempt khz, SD_MOUNT_ABSENT, 0)
      else mount_walk attempt (clock_after SD_CLOCK_LADDER khz) (attempt khz) SD_MOUNT_REFUSED)"
  by (subst mount_walk.simps) (auto simp: absent_err_def Let_def sd_clock_next_def walk_zero)

text \<open>The mount walks the ladder from the top and stops at the first rate the card does not
  refuse: with the card up at that rate, or with the volume absent when that rate found an empty slot; only when
  all five rates are refused it ends at the bottom, refused.  At most five attempts are made.\<close>

theorem mount_walk_first:
  "mount_walk attempt (SD_CLOCK_LADDER ! 0) e0 SD_MOUNT_REFUSED =
     (case dropWhile (\<lambda>khz. refused (attempt khz)) SD_CLOCK_LADDER of
        [] \<Rightarrow> (attempt 400, SD_MOUNT_REFUSED, 0)
      | khz # _ \<Rightarrow> if attempt khz = ESP_OK then (ESP_OK, SD_MOUNT_REFUSED, khz)
                   else (attempt khz, SD_MOUNT_ABSENT, 0))"
  by (simp add: SD_CLOCK_LADDER_def walk_step walk_zero refused_def absent_err_def)

section \<open>Reading under a lease\<close>



section \<open>A folder keeps its leases\<close>

text \<open>\<open>tree_busy\<close> sees exactly the leases on the path itself and below it as a directory; a name that
  only starts with it does not count.\<close>

lemma path_covers_iff: "path_covers fspath path \<longleftrightarrow> path = fspath \<or> (\<exists>below. path = fspath @ slash # below)"
proof
  assume c: "path_covers fspath path"
  then have t: "take (length fspath) path = fspath" by (simp add: path_covers_def Let_def)
  show "path = fspath \<or> (\<exists>below. path = fspath @ slash # below)"
  proof (cases "drop (length fspath) path")
    case Nil
    then show ?thesis using t append_take_drop_id[of "length fspath" path] by simp
  next
    case (Cons b below)
    have p: "path = fspath @ b # below" using t Cons append_take_drop_id[of "length fspath" path] by simp
    then have "b = slash" using c by (simp add: path_covers_def Let_def)
    then show ?thesis using p by blast
  qed
qed (auto simp: path_covers_def Let_def)

lemma tree_busy_exact:
  assumes "sd_rel s ps"
  shows "sd_media_read_lease_tree_busy s (Some p) =
     Some (\<exists>l \<in> set ps. rl_path (sdc_tokens s l) = p \<or> (\<exists>below. rl_path (sdc_tokens s l) = p @ slash # below))"
  using leases_chain[OF sd_rel_leases[OF assms]] by (simp add: sd_media_read_lease_tree_busy_def path_covers_iff)

end
