(* ===== verification/TextUtf8.thy ===== *)
theory TextUtf8
  imports SkkUtf8
begin

text \<open>
  The UTF-8 helpers of the text surfaces (\<open>main/text/utf8.h\<close>): the test for continuation bytes, the
  decoder of display loops, which never fails, and the strict check of the text interfaces, proved to
  accept exactly the encodings of sequences of Unicode scalar values.
\<close>

section \<open>Operations\<close>

definition utf8_is_cont :: "u8 \<Rightarrow> bool" where
  "utf8_is_cont c \<longleftrightarrow> c AND 0xC0 = 0x80"

text \<open>The scalar at \<open>i\<close> and the bytes it used; only for \<open>i < length s\<close>, as in the code.\<close>

definition utf8_decode :: "bytes \<Rightarrow> nat \<Rightarrow> u32 \<times> nat" where
  "utf8_decode s i =
     (let c = s ! i; len = length s
      in if c < 0x80 then (ucast c, 1)
         else if c AND 0xE0 = 0xC0 \<and> i + 1 < len then
           (push_bit 6 (ucast c AND 0x1F) OR (ucast (s ! (i + 1)) AND 0x3F), 2)
         else if c AND 0xF0 = 0xE0 \<and> i + 2 < len then
           (push_bit 12 (ucast c AND 0x0F) OR push_bit 6 (ucast (s ! (i + 1)) AND 0x3F) OR
              (ucast (s ! (i + 2)) AND 0x3F), 3)
         else if c AND 0xF8 = 0xF0 \<and> i + 3 < len then (0xFFFD, 4)
         else (0xFFFD, 1))"

text \<open>The strict check.  Its inner loop is \<open>decode_tail\<close>: it stops at a byte that is no continuation and
  folds six bits of each other one.\<close>

definition utf8_lead :: "u8 \<Rightarrow> (nat \<times> u32) option" where
  "utf8_lead c =
     (if c AND 0xE0 = 0xC0 then Some (1, ucast c AND 0x1F)
      else if c AND 0xF0 = 0xE0 then Some (2, ucast c AND 0x0F)
      else if c AND 0xF8 = 0xF0 then Some (3, ucast c AND 0x07)
      else None)"

definition utf8_range_bad :: "nat \<Rightarrow> u32 \<Rightarrow> bool" where
  "utf8_range_bad extra cp \<longleftrightarrow>
     extra = 1 \<and> cp < 0x80 \<or> extra = 2 \<and> cp < 0x800 \<or> extra = 3 \<and> cp < 0x10000 \<or> cp > 0x10FFFF \<or>
     cp \<ge> 0xD800 \<and> cp \<le> 0xDFFF"

function utf8_valid :: "bytes \<Rightarrow> bool" where
  "utf8_valid [] = True"
| "utf8_valid (c # rest) =
     (if c < 0x80 then utf8_valid rest
      else case utf8_lead c of
        None \<Rightarrow> False
      | Some (extra, cp) \<Rightarrow>
          if length rest < extra then False
          else (case decode_tail cp (take extra rest) of
              None \<Rightarrow> False
            | Some cp' \<Rightarrow> if utf8_range_bad extra cp' then False else utf8_valid (drop extra rest)))"
  by pat_completeness auto
termination by (relation "measure length") auto

declare utf8_valid.simps(2) [simp del]

section \<open>Lead bytes\<close>

lemma cont_same: "utf8_is_cont c = is_cont c"
  by (simp add: utf8_is_cont_def is_cont_def)

lemma high_bits: "k \<le> 8 \<Longrightarrow> unat (b AND NOT (mask k)) = unat b div 2 ^ k * 2 ^ k" for b :: u8
proof -
  assume k: "k \<le> 8"
  have e: "b AND NOT (mask k) = push_bit k (drop_bit k b)" by (rule bit_word_eqI) (auto simp: bit_simps)
  have "unat b div 2 ^ k * 2 ^ k \<le> unat b" by simp
  then have "unat b div 2 ^ k * 2 ^ k < 2 ^ 8"
    by (rule le_less_trans) (use unsigned_less[of b, where ?'a = nat] in simp)
  then show ?thesis unfolding e unsigned_push_bit_eq
    by (subst take_bit_nat_eq_self) (simp_all add: push_bit_eq_mult unat_drop)
qed

lemma masks: "(0xE0 :: u8) = NOT (mask 5)" "(0xF0 :: u8) = NOT (mask 4)" "(0xF8 :: u8) = NOT (mask 3)"
  by (simp_all add: mask_eq_exp_minus_1)

lemma div_window: "n div m * m = q * m \<longleftrightarrow> q * m \<le> n \<and> n < q * m + m" if "0 < m" for n m q :: nat
proof -
  have "n div m * m = q * m \<longleftrightarrow> n div m = q" using that by simp
  also have "\<dots> \<longleftrightarrow> q * m \<le> n \<and> n < q * m + m"
    using that by (metis add.commute div_nat_eqI mult.commute mult_Suc_right div_mult_mod_eq le_add1 mod_less_divisor nat_add_left_cancel_less)
  finally show ?thesis .
qed

lemma lead_class:
  "c AND 0xE0 = 0xC0 \<longleftrightarrow> 192 \<le> unat c \<and> unat c < 224"
  "c AND 0xF0 = 0xE0 \<longleftrightarrow> 224 \<le> unat c \<and> unat c < 240"
  "c AND 0xF8 = 0xF0 \<longleftrightarrow> 240 \<le> unat c \<and> unat c < 248" for c :: u8
proof -
  have h: "unat (c AND 0xE0) = unat c div 32 * 32" "unat (c AND 0xF0) = unat c div 16 * 16"
    "unat (c AND 0xF8) = unat c div 8 * 8"
    unfolding masks using high_bits[of 5 c] high_bits[of 4 c] high_bits[of 3 c] by simp_all
  show "c AND 0xE0 = 0xC0 \<longleftrightarrow> 192 \<le> unat c \<and> unat c < 224"
    "c AND 0xF0 = 0xE0 \<longleftrightarrow> 224 \<le> unat c \<and> unat c < 240"
    "c AND 0xF8 = 0xF0 \<longleftrightarrow> 240 \<le> unat c \<and> unat c < 248"
    unfolding word_unat_eq_iff h
    using div_window[of 32 "unat c" 6] div_window[of 16 "unat c" 14] div_window[of 8 "unat c" 30] by simp_all
qed

lemma lead_bits:
  "unat (ucast c AND 0x1F :: u32) = unat c mod 32" "unat (ucast c AND 0x0F :: u32) = unat c mod 16"
  "unat (ucast c AND 0x07 :: u32) = unat c mod 8" for c :: u8
proof -
  have u: "unat (ucast c :: u32) = unat c"
    using unsigned_less[of c, where ?'a = nat] by (simp add: unsigned_ucast_eq take_bit_nat_eq_self)
  have m: "(0x1F :: u32) = mask 5" "(0x0F :: u32) = mask 4" "(0x07 :: u32) = mask 3"
    by (simp_all add: mask_eq_exp_minus_1)
  show "unat (ucast c AND 0x1F :: u32) = unat c mod 32" "unat (ucast c AND 0x0F :: u32) = unat c mod 16"
    "unat (ucast c AND 0x07 :: u32) = unat c mod 8"
    unfolding m by (simp_all add: unat_low u)
qed

lemma lead_same:
  "(ucast c AND 0x1F :: u32) = ucast (c AND drop_bit 3 0xFF)" "(ucast c AND 0x0F :: u32) = ucast (c AND drop_bit 4 0xFF)"
  "(ucast c AND 0x07 :: u32) = ucast (c AND drop_bit 5 0xFF)" for c :: u8
  unfolding word_unat_eq_iff lead_bits decode_head by (rule refl)+

section \<open>The check accepts exactly the encodings of scalar values\<close>

text \<open>One step of the check is one step of the strict decoder of the input engine.\<close>

lemma valid_decoder_step:
  assumes c: "\<not> c < 0x80"
  shows "utf8_valid (c # rest) \<longleftrightarrow>
     snd (skk_utf8_decode (c # rest) 0) \<noteq> 1 \<and> utf8_valid (drop (snd (skk_utf8_decode (c # rest) 0) - 1) rest)"
proof -
  let ?n = "u8_seq_len c"
  have c128: "128 \<le> unat c" using c by (simp add: word_less_nat_alt)
  have dec: "skk_utf8_decode (c # rest) 0 = (if ?n = 0 \<or> length rest < ?n - 1 then (0xFFFD, 1)
      else case decode_tail (ucast (c AND drop_bit (?n + 1) 0xFF)) (take (?n - 1) rest) of None \<Rightarrow> (0xFFFD, 1)
         | Some cp \<Rightarrow> if cp < min_cp ! ?n \<or> cp > 0x10FFFF \<or> (cp \<ge> 0xD800 \<and> cp \<le> 0xDFFF) then (0xFFFD, 1) else (cp, ?n))"
    if n1: "?n \<noteq> 1"
  proof -
    have "(?n = 0 \<or> ?n > length (c # rest) - 0) = (?n = 0 \<or> length rest < ?n - 1)" by auto
    moreover have "\<not> 0 \<ge> length (c # rest)" "(c # rest) ! 0 = c" "drop (0 + 1) (c # rest) = rest" by simp_all
    ultimately show ?thesis unfolding skk_utf8_decode_def Let_def using n1 by (simp only: if_False)
  qed
  have val: "utf8_valid (c # rest) = (case utf8_lead c of None \<Rightarrow> False
      | Some (extra, cp) \<Rightarrow> if length rest < extra then False
          else (case decode_tail cp (take extra rest) of None \<Rightarrow> False
            | Some cp' \<Rightarrow> if utf8_range_bad extra cp' then False else utf8_valid (drop extra rest)))"
    using c by (simp add: utf8_valid.simps(2))
  note lead = utf8_lead_def lead_class
  have good: ?thesis if n: "?n = Suc e" "e \<in> {1, 2, 3}" and l: "utf8_lead c = Some (e, cp0)"
    and cp0: "cp0 = ucast (c AND drop_bit (?n + 1) 0xFF)" for e cp0
  proof -
    have bad: "utf8_range_bad e cp \<longleftrightarrow> cp < min_cp ! ?n \<or> cp > 0x10FFFF \<or> (cp \<ge> 0xD800 \<and> cp \<le> 0xDFFF)" for cp
      using n by (auto simp: utf8_range_bad_def min_cp_def)
    have ne: "?n \<noteq> 1" "?n \<noteq> 0" "?n - 1 = e" using n by auto
    have d: "skk_utf8_decode (c # rest) 0 = (if length rest < e then (0xFFFD, 1)
        else case decode_tail cp0 (take e rest) of None \<Rightarrow> (0xFFFD, 1)
         | Some cp \<Rightarrow> if utf8_range_bad e cp then (0xFFFD, 1) else (cp, Suc e))"
      unfolding dec[OF ne(1)] ne(3) bad cp0[symmetric] using n by (auto split: option.splits)
    have "Suc e \<noteq> 1" using n by auto
    then show ?thesis unfolding val l d by (auto split: option.splits)
  qed
  have none: ?thesis if "utf8_lead c = None" "?n = 0"
    using that val dec by simp
  have toosmall: ?thesis if l: "utf8_lead c = Some (e, cp0)" and e: "e \<in> {1, 2, 3}" "?n = 0" "unat cp0 * 64 ^ e < 2 ^ 32"
    and v: "\<And>cp (cs :: bytes). length cs = e \<Longrightarrow> unat cp = fold (\<lambda>c a. a * 64 + unat c mod 64) cs (unat cp0) \<Longrightarrow> utf8_range_bad e cp" for e cp0
  proof -
    have "utf8_range_bad e cp" if "\<not> length rest < e" "decode_tail cp0 (take e rest) = Some cp" for cp
      using decode_tail_nat[OF that(2)] v[of "take e rest" cp] that(1) e by auto
    then show ?thesis using e dec unfolding val l by (auto split: option.splits)
  qed
  consider "unat c < 192" | "192 \<le> unat c" "unat c < 194" | "194 \<le> unat c" "unat c < 224" | "224 \<le> unat c" "unat c < 240"
    | "240 \<le> unat c" "unat c < 245" | "245 \<le> unat c" "unat c < 248" | "248 \<le> unat c" by linarith
  then show ?thesis
  proof cases
    case 1
    then show ?thesis using c128 by (intro none) (simp_all add: lead seq_len_nat)
  next
    case 2
    have m: "unat (ucast c AND 0x1F :: u32) < 2"
    proof -
      define k where "k = unat c - 192"
      have k: "unat c = 192 + k" "k < 2" using 2 by (auto simp: k_def)
      then show ?thesis unfolding lead_bits k(1) using lead_mod(1)[of k] by simp
    qed
    have "utf8_range_bad 1 cp"
      if len: "length cs = 1" and f: "unat cp = fold (\<lambda>c a. a * 64 + unat c mod 64) cs (unat (ucast c AND 0x1F :: u32))" for cp cs
    proof -
      obtain x where "cs = [x]" using len by (metis One_nat_def length_0_conv length_Suc_conv)
      then have "unat cp = unat (ucast c AND 0x1F :: u32) * 64 + unat x mod 64" using f by simp
      then have "unat cp < 128" using m mod_less_divisor[of 64 "unat x"] by linarith
      then show ?thesis by (simp add: utf8_range_bad_def word_less_nat_alt)
    qed
    then show ?thesis using 2 m by (intro toosmall[of 1 "ucast c AND 0x1F"]) (simp_all add: lead seq_len_nat)
  next
    case 3
    show ?thesis by (rule good[of 1 "ucast c AND 0x1F"])
      (use 3 in \<open>simp_all add: lead seq_len_nat lead_same\<close>)
  next
    case 4
    show ?thesis by (rule good[of 2 "ucast c AND 0x0F"])
      (use 4 in \<open>simp_all add: lead seq_len_nat lead_same\<close>)
  next
    case 5
    show ?thesis by (rule good[of 3 "ucast c AND 0x07"])
      (use 5 in \<open>simp_all add: lead seq_len_nat lead_same\<close>)
  next
    case 6
    have m: "5 \<le> unat (ucast c AND 0x07 :: u32)" "unat (ucast c AND 0x07 :: u32) < 8"
    proof -
      define k where "k = unat c - 240"
      have k: "unat c = 240 + k" "k < 8" "5 \<le> k" using 6 by (auto simp: k_def)
      then show "5 \<le> unat (ucast c AND 0x07 :: u32)" "unat (ucast c AND 0x07 :: u32) < 8"
        unfolding lead_bits k(1) using lead_mod(3)[of k] by simp_all
    qed
    have "utf8_range_bad 3 cp"
      if len: "length cs = 3" and f: "unat cp = fold (\<lambda>c a. a * 64 + unat c mod 64) cs (unat (ucast c AND 0x07 :: u32))" for cp cs
    proof -
      obtain x y z where "cs = [x, y, z]" using list_of_length(3)[OF len] by blast
      then have "unat cp \<ge> 5 * 262144" using f m(1) by simp
      then show ?thesis by (simp add: utf8_range_bad_def word_less_nat_alt)
    qed
    then show ?thesis using 6 m by (intro toosmall[of 3 "ucast c AND 0x07"]) (simp_all add: lead seq_len_nat)
  next
    case 7
    then show ?thesis by (intro none) (simp_all add: lead seq_len_nat)
  qed
qed

lemma encode_small: "scalar cp \<Longrightarrow> u8_encode cp = c # rest \<Longrightarrow> rest = [] \<longleftrightarrow> c < 0x80"
  using encode_head_seq[of cp c rest] by (auto simp: seq_len_nat word_less_nat_alt split: if_splits)

lemma utf8_valid_char: "scalar cp \<Longrightarrow> utf8_valid (u8_encode cp @ rest) = utf8_valid rest"
proof -
  assume sc: "scalar cp"
  obtain c cs where e: "u8_encode cp = c # cs" using encode_nonempty[of cp] by (cases "u8_encode cp") auto
  have d: "skk_utf8_decode (c # cs @ rest) 0 = (cp, Suc (length cs))"
    using step_decode[OF sc, of "[]" rest] e by simp
  show ?thesis
  proof (cases "c < 0x80")
    case True
    then show ?thesis using encode_small[OF sc e] e by (simp add: utf8_valid.simps(2))
  next
    case False
    then have "cs \<noteq> []" using encode_small[OF sc e] by simp
    then show ?thesis using valid_decoder_step[OF False, of "cs @ rest"] d e by simp
  qed
qed

lemma utf8_valid_utf8: "list_all scalar cps \<Longrightarrow> utf8_valid (utf8 cps @ rest) = utf8_valid rest"
  by (induction cps) (simp_all add: utf8_valid_char)

lemma utf8_valid_split:
  assumes "utf8_valid (c # rest)"
  shows "\<exists>cp rest'. scalar cp \<and> c # rest = u8_encode cp @ rest' \<and> utf8_valid rest'"
proof (cases "c < 0x80")
  case True
  then have b: "unat c < 128" by (simp add: word_less_nat_alt)
  have u: "unat (ucast c :: u32) = unat c"
    using unsigned_less[of c, where ?'a = nat] by (simp add: unsigned_ucast_eq take_bit_nat_eq_self)
  have "u8_encode (ucast c) = [c]" by (rule list_unat_eq) (use b u in \<open>simp add: encode_nat Let_def\<close>)
  moreover have "scalar (ucast c)" using b u by (simp add: scalar_nat)
  ultimately show ?thesis using assms True by (metis append_Cons append_Nil utf8_valid_char)
next
  case False
  obtain cp n where d: "skk_utf8_decode (c # rest) 0 = (cp, n)" by fastforce
  have n: "n \<noteq> 1" "utf8_valid (drop (n - 1) rest)" using valid_decoder_step[OF False, of rest] assms d by simp_all
  have s: "scalar cp" "n = length (u8_encode cp)" "take n (c # rest) = u8_encode cp"
    using decode_sound[of 0 "c # rest" cp n] d n(1) by auto
  have "c # rest = take n (c # rest) @ drop n (c # rest)" by simp
  moreover have "drop n (c # rest) = drop (n - 1) rest" using s(2) encode_len_bounds(1)[of cp] by (auto simp: drop_Cons')
  ultimately show ?thesis using s n(2) by metis
qed

lemma utf8_valid_chars: "utf8_valid s = (\<exists>cps. list_all scalar cps \<and> s = utf8 cps)"
proof
  assume "utf8_valid s"
  then show "\<exists>cps. list_all scalar cps \<and> s = utf8 cps"
  proof (induction s rule: length_induct)
    case (1 s)
    show ?case
    proof (cases s)
      case Nil
      then show ?thesis by (intro exI[of _ "[]"]) simp
    next
      case (Cons c rest)
      obtain cp rest' where r: "scalar cp" "s = u8_encode cp @ rest'" "utf8_valid rest'"
        using utf8_valid_split[of c rest] 1(2) Cons by auto
      then have "length rest' < length s" using encode_nonempty[of cp] by simp
      then obtain cps where "list_all scalar cps" "rest' = utf8 cps" using 1(1) r(3) by blast
      then show ?thesis using r by (intro exI[of _ "cp # cps"]) simp
    qed
  qed
next
  show "\<exists>cps. list_all scalar cps \<and> s = utf8 cps \<Longrightarrow> utf8_valid s"
    using utf8_valid_utf8[of _ "[]"] by auto
qed

text \<open>The strict check of the text interfaces accepts a byte string exactly when it is the encoding
  of a sequence of Unicode scalar values: overlong forms, truncated sequences, surrogates and values past the
  last plane are all refused, and nothing else is.\<close>

theorem utf8_valid_iff: "utf8_valid s = (\<exists>cps. list_all scalar cps \<and> s = utf8 cps)"
  by (rule utf8_valid_chars)

section \<open>The display decoder on valid text\<close>

lemma decode_adv_char:
  assumes "scalar cp"
  shows "snd (utf8_decode (pre @ u8_encode cp @ rest) (length pre)) = length (u8_encode cp)"
proof -
  obtain c cs where e: "u8_encode cp = c # cs" using encode_nonempty[of cp] by (cases "u8_encode cp") auto
  have n: "u8_seq_len c = Suc (length cs)" using encode_head_seq[OF assms e] e by simp
  then show ?thesis using e
    by (auto simp: utf8_decode_def Let_def lead_class word_less_nat_alt seq_len_nat nth_append split: if_splits)
qed

end
