(* ===== verification/TextField.thy ===== *)
theory TextField
  imports TextUtf8
begin

text \<open>
  The editing rules of the host's text field (\<open>main/text/textfield.h\<close>, \<open>textfield.c\<close>).  The borrowed
  buffer is the list of its \<open>cap + 1\<close> bytes and every \<open>memcpy\<close> and \<open>memmove\<close> writes into it in place;
  positions are byte offsets, as in the code.

  The contract is a line of characters with a cursor between two of them: \<open>tf_zip\<close> relates the state to
  the characters before and after the cursor, and every operation is the expected edit of that pair.
\<close>

section \<open>The field\<close>

datatype tf_result = TF_NONE | TF_EDIT | TF_SUBMIT | TF_CANCEL

record textfield =
  tf_buf :: "bytes option"
  tf_cap :: nat
  tf_len :: nat
  tf_cursor :: nat
  tf_multiline :: bool
  tf_refused :: bool
  tf_generation :: u32

text \<open>\<open>memcpy\<close> or \<open>memmove\<close> of \<open>src\<close> to offset \<open>off\<close>.\<close>

definition blit :: "bytes \<Rightarrow> nat \<Rightarrow> bytes \<Rightarrow> bytes" where
  "blit dst off src = take off dst @ src @ drop (off + length src) dst"

definition tf_init :: "bytes option \<Rightarrow> nat \<Rightarrow> bool \<Rightarrow> textfield" where
  "tf_init buf cap multiline =
     \<lparr>tf_buf = map_option (\<lambda>b. b[0 := 0]) buf, tf_cap = cap, tf_len = 0, tf_cursor = 0,
      tf_multiline = multiline, tf_refused = False, tf_generation = 1\<rparr>"

definition tf_set :: "textfield \<Rightarrow> bytes \<Rightarrow> bool \<times> textfield" where
  "tf_set t s = (case tf_buf t of
     None \<Rightarrow> (False, t)
   | Some b \<Rightarrow>
       if length s > tf_cap t then (False, t)
       else if s \<noteq> [] \<and> \<not> utf8_valid s then (False, t)
       else let b1 = (if s \<noteq> [] then blit b 0 s else b)
         in (True, t\<lparr>tf_len := length s, tf_cursor := length s, tf_buf := Some (b1[length s := 0])\<rparr>))"

definition tf_insert :: "textfield \<Rightarrow> bytes \<Rightarrow> bool \<times> textfield" where
  "tf_insert t s = (case tf_buf t of
     None \<Rightarrow> (False, t)
   | Some b \<Rightarrow>
       if s = [] then (False, t)
       else if tf_len t + length s > tf_cap t then (False, t\<lparr>tf_refused := True\<rparr>)
       else let b1 = blit b (tf_cursor t + length s) (take (tf_len t - tf_cursor t) (drop (tf_cursor t) b));
                b2 = blit b1 (tf_cursor t) s;
                len = tf_len t + length s
         in (True, t\<lparr>tf_len := len, tf_cursor := tf_cursor t + length s, tf_buf := Some (b2[len := 0]),
                     tf_refused := False\<rparr>))"

definition tf_commit :: "textfield \<Rightarrow> u32 \<Rightarrow> bytes \<Rightarrow> bool \<times> textfield" where
  "tf_commit t generation s = (if generation \<noteq> tf_generation t then (False, t) else tf_insert t s)"

definition tf_refocus :: "textfield \<Rightarrow> textfield" where
  "tf_refocus t = t\<lparr>tf_generation := tf_generation t + 1\<rparr>"

text \<open>\<open>while(i>0 && utf8_is_cont(t->buf[i])) i--\<close>.\<close>

fun back_to_lead :: "bytes \<Rightarrow> nat \<Rightarrow> nat" where
  "back_to_lead b 0 = 0"
| "back_to_lead b (Suc i) = (if utf8_is_cont (b ! Suc i) then back_to_lead b i else Suc i)"

definition tf_backspace :: "textfield \<Rightarrow> bool \<times> textfield" where
  "tf_backspace t = (case tf_buf t of
     None \<Rightarrow> (False, t)
   | Some b \<Rightarrow>
       if tf_cursor t = 0 then (False, t)
       else let i = back_to_lead b (tf_cursor t - 1);
                gone = tf_cursor t - i;
                b1 = blit b i (take (tf_len t - tf_cursor t) (drop (tf_cursor t) b));
                len = tf_len t - gone
         in (True, t\<lparr>tf_len := len, tf_cursor := i, tf_buf := Some (b1[len := 0])\<rparr>))"

text \<open>The code reads the buffer here without a null check; an empty field has its cursor at 0 and returns first.\<close>

definition tf_left :: "textfield \<Rightarrow> bool \<times> textfield" where
  "tf_left t =
     (if tf_cursor t = 0 then (False, t)
      else (True, t\<lparr>tf_cursor := back_to_lead (the (tf_buf t)) (tf_cursor t - 1)\<rparr>))"

definition tf_right :: "textfield \<Rightarrow> bool \<times> textfield" where
  "tf_right t =
     (if tf_cursor t \<ge> tf_len t then (False, t)
      else let adv = snd (utf8_decode (take (tf_len t) (the (tf_buf t))) (tf_cursor t));
               c = tf_cursor t + adv
        in (True, t\<lparr>tf_cursor := (if c > tf_len t then tf_len t else c)\<rparr>))"

text \<open>A token is a key whose first byte is NUL, followed by its name.\<close>

definition token_is :: "bytes \<Rightarrow> bytes \<Rightarrow> bool" where
  "token_is key name \<longleftrightarrow> length key = length name + 1 \<and> drop 1 key = name"

definition tf_key :: "textfield \<Rightarrow> bytes \<Rightarrow> bool \<Rightarrow> tf_result \<times> textfield" where
  "tf_key t key ime_took =
     (let edit = (\<lambda>(ok, t'). (if ok then TF_EDIT else TF_NONE, t')) in
      if ime_took \<or> key = [] then (TF_NONE, t)
      else if hd key = 0 then
        (if token_is key (ascii ''esc'') then (TF_CANCEL, t)
         else if token_is key (ascii ''del'') then edit (tf_backspace t)
         else if token_is key (ascii ''left'') then (TF_NONE, snd (tf_left t))
         else if token_is key (ascii ''right'') then (TF_NONE, snd (tf_right t))
         else (TF_NONE, t))
      else if hd key = 8 \<or> hd key = 0x7F then edit (tf_backspace t)
      else if hd key = 10 \<or> hd key = 13 then
        (if \<not> tf_multiline t then (TF_SUBMIT, t) else edit (tf_insert t [10]))
      else if hd key < 0x20 then (TF_NONE, t)
      else edit (tf_insert t key))"

section \<open>The line behind the bytes\<close>

text \<open>\<open>tf_zip t a b\<close>: the field holds the characters \<open>a @ b\<close> with the cursor between them, in a buffer of
  \<open>cap + 1\<close> bytes that is terminated after them.\<close>

definition tf_zip :: "textfield \<Rightarrow> u32 list \<Rightarrow> u32 list \<Rightarrow> bool" where
  "tf_zip t a b \<longleftrightarrow> (\<exists>buf. tf_buf t = Some buf \<and> length buf = tf_cap t + 1 \<and> tf_len t \<le> tf_cap t \<and>
     take (tf_len t) buf = utf8 a @ utf8 b \<and> buf ! tf_len t = 0 \<and>
     tf_cursor t = length (utf8 a) \<and> list_all scalar a \<and> list_all scalar b)"


lemma tf_zip_len: "tf_zip t a b \<Longrightarrow> tf_len t = length (utf8 a) + length (utf8 b)"
  unfolding tf_zip_def by (metis length_append length_take min.absorb2 add.commute le_add1 le_trans)

lemma tf_zipE:
  assumes "tf_zip t a b"
  obtains rest where "tf_buf t = Some (utf8 a @ utf8 b @ 0 # rest)" "length rest = tf_cap t - tf_len t"
    "tf_len t = length (utf8 a) + length (utf8 b)" "tf_len t \<le> tf_cap t" "tf_cursor t = length (utf8 a)"
proof -
  obtain buf where b: "tf_buf t = Some buf" "length buf = tf_cap t + 1" "tf_len t \<le> tf_cap t"
      "take (tf_len t) buf = utf8 a @ utf8 b" "buf ! tf_len t = 0" "tf_cursor t = length (utf8 a)"
    using assms by (auto simp: tf_zip_def)
  have "drop (tf_len t) buf = 0 # drop (Suc (tf_len t)) buf" using b by (simp add: Cons_nth_drop_Suc[symmetric])
  then have "buf = utf8 a @ utf8 b @ 0 # drop (Suc (tf_len t)) buf"
    using b(4) by (metis append.assoc append_take_drop_id)
  then show thesis using that[of "drop (Suc (tf_len t)) buf"] b tf_zip_len[OF assms] by simp
qed

lemma tf_zipI:
  assumes "tf_buf t = Some (utf8 a @ utf8 b @ 0 # rest)" "tf_len t = length (utf8 a) + length (utf8 b)"
    "tf_cursor t = length (utf8 a)" "length rest + tf_len t = tf_cap t" "list_all scalar a" "list_all scalar b"
  shows "tf_zip t a b"
  using assms by (simp add: tf_zip_def nth_append)

lemma tf_zip_cursor: "tf_zip t a b \<Longrightarrow> tf_cursor t = length (utf8 a)"
  by (auto simp: tf_zip_def)


lemma back_to_lead_run:
  "(\<And>k. p < k \<Longrightarrow> k \<le> i \<Longrightarrow> utf8_is_cont (b ! k)) \<Longrightarrow> \<not> utf8_is_cont (b ! p) \<Longrightarrow> p \<le> i \<Longrightarrow> back_to_lead b i = p"
proof (induction i)
  case (Suc i)
  then show ?case by (cases "p = Suc i") auto
qed simp

lemma back_one_char:
  assumes "scalar c"
  shows "back_to_lead (pre @ u8_encode c @ rest) (length pre + length (u8_encode c) - 1) = length pre"
proof -
  obtain b cs where e: "u8_encode c = b # cs" "\<not> is_cont b" "\<forall>x \<in> set cs. is_cont x"
    using encoded_at[OF assms] by blast
  show ?thesis
  proof (rule back_to_lead_run)
    fix k assume k: "length pre < k" "k \<le> length pre + length (u8_encode c) - 1"
    then have j: "k - Suc (length pre) < length cs" "k = length pre + Suc (k - Suc (length pre))" using e(1) by auto
    have "(pre @ u8_encode c @ rest) ! k = cs ! (k - Suc (length pre))"
      using j e(1) by (metis append_Cons nth_Cons_Suc nth_append_left nth_append_length_plus)
    then show "utf8_is_cont ((pre @ u8_encode c @ rest) ! k)" using e(3) j(1) by (simp add: cont_same)
  qed (use e in \<open>auto simp: cont_same nth_append\<close>)
qed

section \<open>Every operation is the edit of the line\<close>

lemma insert_zip:
  assumes z: "tf_zip t a b" and s: "list_all scalar cs" "cs \<noteq> []"
  shows "tf_insert t (utf8 cs) =
      (if tf_len t + length (utf8 cs) > tf_cap t then (False, t\<lparr>tf_refused := True\<rparr>) else (True, snd (tf_insert t (utf8 cs))))"
    and "tf_len t + length (utf8 cs) \<le> tf_cap t \<Longrightarrow> tf_zip (snd (tf_insert t (utf8 cs))) (a @ cs) b \<and> \<not> tf_refused (snd (tf_insert t (utf8 cs)))"
proof -
  obtain rest0 where r: "tf_buf t = Some (utf8 a @ utf8 b @ 0 # rest0)" "length rest0 = tf_cap t - tf_len t"
    "tf_len t = length (utf8 a) + length (utf8 b)" "tf_len t \<le> tf_cap t" "tf_cursor t = length (utf8 a)"
    by (rule tf_zipE[OF z])
  define rest where "rest = 0 # rest0"
  have rest: "tf_buf t = Some (utf8 a @ utf8 b @ rest)" "length rest = tf_cap t + 1 - tf_len t" using r by (simp_all add: rest_def)
  have ne: "utf8 cs \<noteq> []" using s(2) encode_nonempty by (cases cs) auto
  show "tf_insert t (utf8 cs) =
      (if tf_len t + length (utf8 cs) > tf_cap t then (False, t\<lparr>tf_refused := True\<rparr>) else (True, snd (tf_insert t (utf8 cs))))"
    using rest(1) ne by (simp add: tf_insert_def Let_def)
  assume fit: "tf_len t + length (utf8 cs) \<le> tf_cap t"
  let ?t = "snd (tf_insert t (utf8 cs))"
  have b1: "blit (utf8 a @ utf8 b @ rest) (length (utf8 a) + length (utf8 cs)) (utf8 b) =
      take (length (utf8 a) + length (utf8 cs)) (utf8 a @ utf8 b @ rest) @ utf8 b @ drop (length (utf8 cs)) rest"
    by (simp add: blit_def)
  have b2: "blit (take (length (utf8 a) + length (utf8 cs)) (utf8 a @ utf8 b @ rest) @ utf8 b @ drop (length (utf8 cs)) rest)
      (length (utf8 a)) (utf8 cs) = utf8 a @ utf8 cs @ utf8 b @ drop (length (utf8 cs)) rest"
    using fit rest(2) r(3) by (simp add: blit_def)
  obtain x rest' where x: "drop (length (utf8 cs)) rest = x # rest'"
    using fit rest(2) by (cases "drop (length (utf8 cs)) rest") auto
  then have l: "length rest' + length (utf8 cs) + 1 = length rest" by (metis length_Cons length_drop add.commute add.left_commute le_add_diff_inverse plus_1_eq_Suc length_0_conv list.distinct(1) drop_all nat_le_linear)
  have "tf_buf ?t = Some (utf8 (a @ cs) @ utf8 b @ 0 # rest')"
    using rest(1) r(3,5) ne fit b1 b2 x by (simp add: tf_insert_def Let_def list_update_append)
  moreover have "tf_len ?t = length (utf8 (a @ cs)) + length (utf8 b)" "tf_cursor ?t = length (utf8 (a @ cs))" "tf_cap ?t = tf_cap t"
    using rest(1) r(3,5) ne fit by (simp_all add: tf_insert_def Let_def)
  moreover have "length rest' + (length (utf8 (a @ cs)) + length (utf8 b)) = tf_cap t"
    using l rest(2) r(3) fit by simp
  moreover have "list_all scalar (a @ cs)" "list_all scalar b" using z s(1) by (auto simp: tf_zip_def)
  ultimately have "tf_zip ?t (a @ cs) b" by (intro tf_zipI[where rest=rest']) simp_all
  then show "tf_zip ?t (a @ cs) b \<and> \<not> tf_refused ?t"
    using rest(1) ne fit by (simp add: tf_insert_def Let_def)
qed

lemma backspace_empty: "tf_zip t [] b \<Longrightarrow> tf_backspace t = (False, t)"
  by (auto simp: tf_zip_def tf_backspace_def)

lemma backspace_zip:
  assumes z: "tf_zip t (a @ [c]) b"
  shows "fst (tf_backspace t)" "tf_zip (snd (tf_backspace t)) a b"
proof -
  obtain rest0 where r: "tf_buf t = Some (utf8 (a @ [c]) @ utf8 b @ 0 # rest0)" "length rest0 = tf_cap t - tf_len t"
    "tf_len t = length (utf8 (a @ [c])) + length (utf8 b)" "tf_len t \<le> tf_cap t" "tf_cursor t = length (utf8 (a @ [c]))"
    by (rule tf_zipE[OF z])
  define rest where "rest = 0 # rest0"
  have rest: "tf_buf t = Some (utf8 (a @ [c]) @ utf8 b @ rest)" "length rest = tf_cap t + 1 - tf_len t" using r by (simp_all add: rest_def)
  have sc: "list_all scalar a" "scalar c" "list_all scalar b" using z by (auto simp: tf_zip_def)
  let ?n = "length (u8_encode c)"
  have n: "0 < ?n" using encode_nonempty[of c] by simp
  have cur: "tf_cursor t \<noteq> 0" "tf_cursor t - length (utf8 a) = ?n" using r(5) n by auto
  have i: "back_to_lead (utf8 (a @ [c]) @ utf8 b @ rest) (tf_cursor t - 1) = length (utf8 a)"
    using back_one_char[OF sc(2), of "utf8 a" "utf8 b @ rest"] r(5) by simp
  have mv: "take (tf_len t - tf_cursor t) (drop (tf_cursor t) (utf8 (a @ [c]) @ utf8 b @ rest)) = utf8 b"
    using r(3,5) by simp
  have bl: "blit (utf8 (a @ [c]) @ utf8 b @ rest) (length (utf8 a)) (utf8 b) =
      utf8 a @ utf8 b @ drop (length (utf8 b)) (u8_encode c @ utf8 b @ rest)"
    by (simp add: blit_def)
  have dl: "length (drop (length (utf8 b)) (u8_encode c @ utf8 b @ rest)) = ?n + length rest" by simp
  then obtain x rest' where x: "drop (length (utf8 b)) (u8_encode c @ utf8 b @ rest) = x # rest'"
    using n by (metis add_is_0 length_0_conv list.exhaust not_less_zero)
  have "length (drop (length (utf8 b)) (u8_encode c @ utf8 b @ rest)) = ?n + length rest" by (rule dl)
  then have l: "Suc (length rest') = ?n + length rest" unfolding x by simp
  let ?t = "snd (tf_backspace t)"
  have ev: "tf_backspace t = (True, t\<lparr>tf_len := tf_len t - ?n, tf_cursor := length (utf8 a),
      tf_buf := Some ((utf8 a @ utf8 b @ x # rest')[tf_len t - ?n := 0])\<rparr>)"
    using rest(1) cur i mv bl x by (simp add: tf_backspace_def Let_def)
  have ln: "tf_len t - ?n = length (utf8 a) + length (utf8 b)" using r(3) by simp
  show "fst (tf_backspace t)" by (simp add: ev)
  show "tf_zip ?t a b"
    by (rule tf_zipI[where rest=rest']) (use ln l rest(2) r(3,4) sc in \<open>simp_all add: ev list_update_append\<close>)
qed

lemma left_empty: "tf_zip t [] b \<Longrightarrow> tf_left t = (False, t)"
  by (auto simp: tf_zip_def tf_left_def)

lemma left_zip:
  assumes z: "tf_zip t (a @ [c]) b"
  shows "fst (tf_left t)" "tf_zip (snd (tf_left t)) a (c # b)"
proof -
  obtain rest0 where r: "tf_buf t = Some (utf8 (a @ [c]) @ utf8 b @ 0 # rest0)" "length rest0 = tf_cap t - tf_len t"
    "tf_len t = length (utf8 (a @ [c])) + length (utf8 b)" "tf_len t \<le> tf_cap t" "tf_cursor t = length (utf8 (a @ [c]))"
    by (rule tf_zipE[OF z])
  have sc: "list_all scalar a" "scalar c" "list_all scalar b" using z by (auto simp: tf_zip_def)
  have cur: "tf_cursor t \<noteq> 0" using r(5) encode_nonempty[of c] by simp
  have i: "back_to_lead (utf8 (a @ [c]) @ utf8 b @ 0 # rest0) (tf_cursor t - 1) = length (utf8 a)"
    using back_one_char[OF sc(2), of "utf8 a" "utf8 b @ 0 # rest0"] r(5) by simp
  have e: "tf_left t = (True, t\<lparr>tf_cursor := length (utf8 a)\<rparr>)" using cur i r(1) by (simp add: tf_left_def)
  show "fst (tf_left t)" by (simp add: e)
  show "tf_zip (snd (tf_left t)) a (c # b)"
    by (rule tf_zipI[where rest=rest0]) (use r sc in \<open>simp_all add: e\<close>)
qed

lemma right_empty: "tf_zip t a [] \<Longrightarrow> tf_right t = (False, t)"
  using tf_zip_len[of t a "[]"] tf_zip_cursor[of t a "[]"] by (simp add: tf_right_def)

lemma right_zip:
  assumes z: "tf_zip t a (c # b)"
  shows "fst (tf_right t)" "tf_zip (snd (tf_right t)) (a @ [c]) b"
proof -
  obtain rest0 where r: "tf_buf t = Some (utf8 a @ utf8 (c # b) @ 0 # rest0)" "length rest0 = tf_cap t - tf_len t"
    "tf_len t = length (utf8 a) + length (utf8 (c # b))" "tf_len t \<le> tf_cap t" "tf_cursor t = length (utf8 a)"
    by (rule tf_zipE[OF z])
  have sc: "list_all scalar a" "scalar c" "list_all scalar b" using z by (auto simp: tf_zip_def)
  have len: "tf_len t = length (utf8 a) + (length (u8_encode c) + length (utf8 b))" using tf_zip_len[OF z] by simp
  have cur: "tf_cursor t = length (utf8 a)" using z by (auto simp: tf_zip_def)
  have tk: "take (tf_len t) (the (tf_buf t)) = utf8 a @ u8_encode c @ utf8 b" using z by (auto simp: tf_zip_def)
  have adv: "snd (utf8_decode (utf8 a @ u8_encode c @ utf8 b) (length (utf8 a))) = length (u8_encode c)"
    by (rule decode_adv_char[OF sc(2)])
  have "0 < length (u8_encode c)" using encode_nonempty[of c] by simp
  then have e: "tf_right t = (True, t\<lparr>tf_cursor := length (utf8 a) + length (u8_encode c)\<rparr>)"
    using len cur tk adv by (simp add: tf_right_def Let_def)
  show "fst (tf_right t)" by (simp add: e)
  show "tf_zip (snd (tf_right t)) (a @ [c]) b"
    by (rule tf_zipI[where rest=rest0]) (use r sc in \<open>simp_all add: e\<close>)
qed


lemma init_zip: "length buf = cap + 1 \<Longrightarrow> tf_zip (tf_init (Some buf) cap m) [] []"
  by (cases buf) (auto simp: tf_zip_def tf_init_def)

section \<open>Keys\<close>

text \<open>A key as the surface produces it: a token with its name, or typed characters.\<close>

datatype field_key = Token bytes | Typed "u32 list"

primrec key_bytes :: "field_key \<Rightarrow> bytes" where
  "key_bytes (Token name) = 0 # name"
| "key_bytes (Typed cs) = utf8 cs"

definition key_ok :: "field_key \<Rightarrow> bool" where
  "key_ok k \<longleftrightarrow> (case k of Token name \<Rightarrow> True | Typed cs \<Rightarrow> list_all scalar cs \<and> (cs = [] \<or> hd cs \<noteq> 0))"

text \<open>The contract: what a key does to the characters before and after the cursor.\<close>

type_synonym line = "u32 list \<times> u32 list"

definition line_insert :: "nat \<Rightarrow> line \<Rightarrow> u32 list \<Rightarrow> tf_result \<times> line" where
  "line_insert cap l cs =
     (if length (utf8 (fst l @ cs @ snd l)) \<le> cap then (TF_EDIT, fst l @ cs, snd l) else (TF_NONE, l))"

definition line_back :: "line \<Rightarrow> tf_result \<times> line" where
  "line_back l = (if fst l = [] then (TF_NONE, l) else (TF_EDIT, butlast (fst l), snd l))"

definition line_left :: "line \<Rightarrow> line" where
  "line_left l = (if fst l = [] then l else (butlast (fst l), last (fst l) # snd l))"

definition line_right :: "line \<Rightarrow> line" where
  "line_right l = (case snd l of [] \<Rightarrow> l | c # b \<Rightarrow> (fst l @ [c], b))"

definition line_key :: "nat \<Rightarrow> bool \<Rightarrow> line \<Rightarrow> field_key \<Rightarrow> bool \<Rightarrow> tf_result \<times> line" where
  "line_key cap multiline l k ime_took =
     (if ime_took then (TF_NONE, l)
      else case k of
        Token name \<Rightarrow>
          if name = ascii ''esc'' then (TF_CANCEL, l)
          else if name = ascii ''del'' then line_back l
          else if name = ascii ''left'' then (TF_NONE, line_left l)
          else if name = ascii ''right'' then (TF_NONE, line_right l)
          else (TF_NONE, l)
      | Typed [] \<Rightarrow> (TF_NONE, l)
      | Typed (c # cs) \<Rightarrow>
          if c = 8 \<or> c = 0x7F then line_back l
          else if c = 10 \<or> c = 13 then (if multiline then line_insert cap l [10] else (TF_SUBMIT, l))
          else if c < 0x20 then (TF_NONE, l)
          else line_insert cap l (c # cs))"

lemma token_name: "token_is (0 # name) n \<longleftrightarrow> name = n"
  by (auto simp: token_is_def)


definition tf_line :: "textfield \<Rightarrow> line \<Rightarrow> bool" where
  "tf_line t l \<longleftrightarrow> tf_zip t (fst l) (snd l)"

definition as_edit :: "bool \<times> textfield \<Rightarrow> tf_result \<times> textfield" where
  "as_edit r = (if fst r then TF_EDIT else TF_NONE, snd r)"

definition same_edit :: "tf_result \<times> textfield \<Rightarrow> tf_result \<times> line \<Rightarrow> bool" where
  "same_edit r s \<longleftrightarrow> fst r = fst s \<and> tf_line (snd r) (snd s)"

lemma zip_refused [simp]: "tf_zip (t\<lparr>tf_refused := r\<rparr>) a b = tf_zip t a b"
  by (simp add: tf_zip_def)

lemma insert_edit:
  assumes "tf_line t l" "list_all scalar cs" "cs \<noteq> []"
  shows "same_edit (as_edit (tf_insert t (utf8 cs))) (line_insert (tf_cap t) l cs)"
proof -
  have z: "tf_zip t (fst l) (snd l)" using assms(1) by (simp add: tf_line_def)
  note i = insert_zip[OF z assms(2,3)]
  show ?thesis
  proof (cases "tf_len t + length (utf8 cs) \<le> tf_cap t")
    case True
    then have "fst (tf_insert t (utf8 cs))" using i(1) by (metis fst_conv not_less)
    then show ?thesis using True i(2) tf_zip_len[OF z] by (simp add: same_edit_def as_edit_def tf_line_def line_insert_def)
  next
    case False
    then have "tf_insert t (utf8 cs) = (False, t\<lparr>tf_refused := True\<rparr>)" using i(1) by simp
    then show ?thesis using False tf_zip_len[OF z] z by (simp add: same_edit_def as_edit_def tf_line_def line_insert_def)
  qed
qed

lemma back_edit: "tf_line t l \<Longrightarrow> same_edit (as_edit (tf_backspace t)) (line_back l)"
proof -
  assume l: "tf_line t l"
  show ?thesis
  proof (cases "fst l" rule: rev_cases)
    case Nil
    then show ?thesis using l backspace_empty[of t "snd l"] by (simp add: same_edit_def as_edit_def tf_line_def line_back_def)
  next
    case (snoc a c)
    then show ?thesis using l backspace_zip[of t a c "snd l"] by (simp add: same_edit_def as_edit_def tf_line_def line_back_def)
  qed
qed

lemma left_edit: "tf_line t l \<Longrightarrow> tf_line (snd (tf_left t)) (line_left l)"
proof -
  assume l: "tf_line t l"
  show ?thesis
  proof (cases "fst l" rule: rev_cases)
    case Nil
    then show ?thesis using l left_empty[of t "snd l"] by (simp add: tf_line_def line_left_def)
  next
    case (snoc a c)
    then show ?thesis using l left_zip[of t a c "snd l"] by (simp add: tf_line_def line_left_def)
  qed
qed

lemma right_edit: "tf_line t l \<Longrightarrow> tf_line (snd (tf_right t)) (line_right l)"
proof (cases "snd l")
  case Nil
  then show "tf_line t l \<Longrightarrow> ?thesis" using right_empty[of t "fst l"] by (simp add: tf_line_def line_right_def)
next
  case (Cons c b)
  then show "tf_line t l \<Longrightarrow> ?thesis" using right_zip[of t "fst l" c b] by (simp add: tf_line_def line_right_def)
qed

lemma encode_hd:
  assumes "scalar c" shows "hd (u8_encode c) < 0x80 \<longleftrightarrow> c < 0x80" "c < 0x80 \<Longrightarrow> u8_encode c = [ucast c]"
proof -
  obtain b cs where e: "u8_encode c = b # cs" using encode_nonempty[of c] by (cases "u8_encode c") auto
  have "cs = [] \<longleftrightarrow> c < 0x80" using e by (auto simp: u8_encode_def split: if_splits)
  then show "hd (u8_encode c) < 0x80 \<longleftrightarrow> c < 0x80" using encode_small[OF assms e] e by simp
  show "c < 0x80 \<Longrightarrow> u8_encode c = [ucast c]" by (simp add: u8_encode_def)
qed

lemma low_byte: "c < 0x80 \<Longrightarrow> unat (ucast c :: u8) = unat c" for c :: u32
  by (simp add: word_less_nat_alt unsigned_ucast_eq take_bit_nat_eq_self)

text \<open>Comparisons of the first byte with ASCII values are comparisons of the first character.\<close>

lemma first_byte:
  assumes "scalar c" "x < 0x80"
  shows "hd (u8_encode c) = x \<longleftrightarrow> c = ucast x" "hd (u8_encode c) < x \<longleftrightarrow> c < ucast x"
proof -
  have x: "unat x < 128" "unat (ucast x :: u32) = unat x"
    using assms(2) unsigned_less[of x, where ?'a = nat] by (simp_all add: word_less_nat_alt unsigned_ucast_eq take_bit_nat_eq_self)
  have "(hd (u8_encode c) = x \<longleftrightarrow> c = ucast x) \<and> (hd (u8_encode c) < x \<longleftrightarrow> c < ucast x)"
  proof (cases "c < 0x80")
    case True
    then show ?thesis using encode_hd(2)[OF assms(1)] x low_byte[OF True]
      by (simp add: word_unat_eq_iff word_less_nat_alt)
  next
    case False
    then have "\<not> hd (u8_encode c) < 0x80" using encode_hd(1)[OF assms(1)] by simp
    then show ?thesis using False x by (auto simp: word_unat_eq_iff word_less_nat_alt)
  qed
  then show "hd (u8_encode c) = x \<longleftrightarrow> c = ucast x" "hd (u8_encode c) < x \<longleftrightarrow> c < ucast x" by simp_all
qed

lemma line_keep: "tf_line t l \<Longrightarrow> same_edit (r, t) (r, l)"
  by (simp add: same_edit_def)

lemma key_edit:
  assumes l: "tf_line t l" and k: "key_ok k"
  shows "same_edit (tf_key t (key_bytes k) ime) (line_key (tf_cap t) (tf_multiline t) l k ime)"
proof (cases "ime \<or> key_bytes k = []")
  case True
  have "utf8 cs = [] \<longleftrightarrow> cs = []" for cs using encode_nonempty by (cases cs) auto
  then show ?thesis using True line_keep[OF l] by (cases k) (auto simp: tf_key_def line_key_def)
next
  case False
  have ed: "(case r of (ok, t') \<Rightarrow> (if ok then TF_EDIT else TF_NONE, t')) = as_edit r" for r
    by (cases r) (simp add: as_edit_def)
  show ?thesis
  proof (cases k)
    case (Token name)
    then show ?thesis using False line_keep[OF l] back_edit[OF l] left_edit[OF l] right_edit[OF l]
      by (simp add: tf_key_def line_key_def token_name ed) (simp add: same_edit_def)
  next
    case (Typed ds)
    then obtain c cs where d: "ds = c # cs" using False by (cases ds) auto
    have sc: "list_all scalar (c # cs)" "scalar c" "c \<noteq> 0" using k Typed d by (auto simp: key_ok_def)
    have hd: "hd (utf8 (c # cs)) = hd (u8_encode c)" using encode_nonempty[of c] by simp
    note f = first_byte(1)[OF sc(2), where x=0] first_byte(1)[OF sc(2), where x=8] first_byte(1)[OF sc(2), where x="0x7F"]
      first_byte(1)[OF sc(2), where x=10] first_byte(1)[OF sc(2), where x=13] first_byte(2)[OF sc(2), where x="0x20"]
    have nl: "utf8 [10] = [10]" by (simp add: u8_encode_def)
    have "tf_key t (utf8 (c # cs)) ime =
      (if c = 8 \<or> c = 0x7F then as_edit (tf_backspace t)
       else if c = 10 \<or> c = 13 then (if \<not> tf_multiline t then (TF_SUBMIT, t) else as_edit (tf_insert t (utf8 [10])))
       else if c < 0x20 then (TF_NONE, t) else as_edit (tf_insert t (utf8 (c # cs))))"
      using False Typed d sc(3) f unfolding tf_key_def Let_def ed hd nl by (simp add: encode_nonempty)
    moreover have "list_all scalar [10]" by (simp add: scalar_def)
    ultimately show ?thesis
      using Typed d False line_keep[OF l] back_edit[OF l] insert_edit[OF l, of "[10]"] insert_edit[OF l sc(1)]
      by (simp add: line_key_def del: utf8_simps)
  qed
qed

text \<open>Property C6: every key is the edit of the line it stands for: on a field that holds the characters a and b
  around its cursor, a key gives the result and the line of the reference, one character at a time, with Enter a
  submit or a line feed, Escape a cancel, an insert that does not fit refused whole, and nothing at all when
  the input method took the key.\<close>

theorem tf_key_refines:
  assumes "tf_zip t a b" "key_ok k"
  shows "fst (tf_key t (key_bytes k) ime) = fst (line_key (tf_cap t) (tf_multiline t) (a, b) k ime) \<and>
     tf_zip (snd (tf_key t (key_bytes k) ime))
       (fst (snd (line_key (tf_cap t) (tf_multiline t) (a, b) k ime)))
       (snd (snd (line_key (tf_cap t) (tf_multiline t) (a, b) k ime)))"
  using key_edit[of t "(a, b)" k ime] assms by (simp add: tf_line_def same_edit_def)

lemma tf_key_refines_witness:
  "tf_zip (snd (tf_key (tf_init (Some (replicate 9 0)) 8 False) (key_bytes (Typed [0x3042])) False)) [0x3042] []"
proof -
  let ?t = "tf_init (Some (replicate 9 0)) 8 False"
  have z: "tf_zip ?t [] []" by (rule init_zip) simp
  have k: "key_ok (Typed [0x3042])" by (simp add: key_ok_def scalar_def)
  have "line_key (tf_cap ?t) (tf_multiline ?t) ([], []) (Typed [0x3042]) False = (TF_EDIT, [0x3042], [])"
    by (simp add: line_key_def line_insert_def tf_init_def encode_length encode_need_def)
  then show ?thesis using tf_key_refines[OF z k, of False] by simp
qed

section \<open>The text stays well formed\<close>





lemma cap_same [simp]:
  "tf_cap (snd (tf_insert t s)) = tf_cap t" "tf_cap (snd (tf_backspace t)) = tf_cap t"
  "tf_cap (snd (tf_left t)) = tf_cap t" "tf_cap (snd (tf_right t)) = tf_cap t"
  "tf_cap (snd (tf_set t s)) = tf_cap t" "tf_cap (tf_refocus t) = tf_cap t"
  by (auto simp: tf_insert_def tf_backspace_def tf_left_def tf_right_def tf_set_def tf_refocus_def Let_def
      split: option.splits)



lemma key_cap [simp]: "tf_cap (snd (tf_key t k ime)) = tf_cap t"
proof -
  have e: "tf_cap (snd (case r of (ok, t') \<Rightarrow> (if ok then TF_EDIT else TF_NONE, t'))) = tf_cap (snd r)" for r
    by (cases r) simp
  show ?thesis by (simp add: tf_key_def Let_def e)
qed






text \<open>A commit computed for a field that has lost the focus since writes nothing.\<close>

lemma tf_stale_commit:
  assumes "0 < n" "n < 2 ^ 32"
  shows "tf_commit ((tf_refocus ^^ n) t) (tf_generation t) s = (False, (tf_refocus ^^ n) t)"
proof -
  have "tf_generation ((tf_refocus ^^ n) t) = tf_generation t + of_nat n"
    by (induction n) (simp_all add: tf_refocus_def)
  moreover have "(of_nat n :: u32) \<noteq> 0" using assms by (auto simp: word_of_nat_eq_0_iff dest: dvd_imp_le)
  ultimately show ?thesis by (simp add: tf_commit_def)
qed

end
