(* ===== verification/SrcStore.thy ===== *)
theory SrcStore
  imports Prelude
begin

text \<open>
  The sources a person edits, in the storage partition (\<open>main/text/srcstore.h\<close>, \<open>srcstore.c\<close>): one slot of
  two faces for each program, written alternately, and one more pair of faces for the parked draft.

  The partition is its cells, a function from offsets to bytes.  The driver (\<open>esp_partition_*\<close>) and
  \<open>esp_crc32_le\<close> are arguments, the record \<open>flash\<close>; \<open>flash_ok\<close> states what its documentation promises: a
  read returns the cells, an erase or a write changes only its own range, and a successful write of erased
  cells reads back.  A save is the list of its flash operations, run until the first error, so that a power cut
  is a prefix of it with one operation torn.
\<close>

section \<open>Layout\<close>

definition SRC_MAX :: nat where "SRC_MAX = 8192"
definition SRC_SLOT_COUNT :: nat where "SRC_SLOT_COUNT = 16"
definition SRCSTORE_DRAFT_BASE :: nat where "SRCSTORE_DRAFT_BASE = 0xa0000"
definition SRC_MAGIC :: u32 where "SRC_MAGIC = 0x32435253"
definition DRAFT_MAGIC :: u32 where "DRAFT_MAGIC = 0x31445253"

text \<open>The structures as the compiler lays them out: four, and five, little-endian words.\<close>

record src_hdr =
  h_magic :: u32
  h_len :: u32
  h_crc :: u32
  h_seq :: u32

definition HDR_SIZE :: nat where "HDR_SIZE = 16"
definition DRAFT_HDR_SIZE :: nat where "DRAFT_HDR_SIZE = 20"
definition BLOCK :: nat where "BLOCK = ((HDR_SIZE + SRC_MAX + 4095) div 4096) * 4096"
definition FACES :: nat where "FACES = 2"
definition SLOT_SPAN :: nat where "SLOT_SPAN = BLOCK * FACES"

definition le32 :: "u32 \<Rightarrow> bytes" where
  "le32 v = [ucast v, ucast (drop_bit 8 v), ucast (drop_bit 16 v), ucast (drop_bit 24 v)]"

definition rd32 :: "bytes \<Rightarrow> nat \<Rightarrow> u32" where
  "rd32 b k = ucast (b ! k) OR push_bit 8 (ucast (b ! (k + 1))) OR push_bit 16 (ucast (b ! (k + 2))) OR
     push_bit 24 (ucast (b ! (k + 3)))"

definition hdr_bytes :: "src_hdr \<Rightarrow> bytes" where
  "hdr_bytes h = le32 (h_magic h) @ le32 (h_len h) @ le32 (h_crc h) @ le32 (h_seq h)"

definition hdr_of :: "bytes \<Rightarrow> src_hdr" where
  "hdr_of b = \<lparr>h_magic = rd32 b 0, h_len = rd32 b 4, h_crc = rd32 b 8, h_seq = rd32 b 12\<rparr>"

definition draft_slot_of :: "bytes \<Rightarrow> u32" where
  "draft_slot_of b = rd32 b 16"

section \<open>The driver\<close>

type_synonym cells = "nat \<Rightarrow> u8"

record flash =
  fl_read :: "cells \<Rightarrow> nat \<Rightarrow> nat \<Rightarrow> bytes option"
  fl_erase :: "cells \<Rightarrow> nat \<Rightarrow> nat \<Rightarrow> bool \<times> cells"
  fl_write :: "cells \<Rightarrow> nat \<Rightarrow> bytes \<Rightarrow> bool \<times> cells"
  fl_crc :: "bytes \<Rightarrow> u32"

definition at_cells :: "cells \<Rightarrow> nat \<Rightarrow> nat \<Rightarrow> bytes" where
  "at_cells c off n = map c [off..<off + n]"

definition flash_ok :: "flash \<Rightarrow> bool" where
  "flash_ok fl \<longleftrightarrow>
     (\<forall>c off n. fl_read fl c off n = Some (at_cells c off n)) \<and>
     (\<forall>c off n a. \<not> (off \<le> a \<and> a < off + n) \<longrightarrow> snd (fl_erase fl c off n) a = c a) \<and>
     (\<forall>c off n a. fst (fl_erase fl c off n) \<longrightarrow> off \<le> a \<longrightarrow> a < off + n \<longrightarrow> snd (fl_erase fl c off n) a = 0xFF) \<and>
     (\<forall>c off b a. \<not> (off \<le> a \<and> a < off + length b) \<longrightarrow> snd (fl_write fl c off b) a = c a) \<and>
     (\<forall>c off b. fst (fl_write fl c off b) \<longrightarrow> (\<forall>a. off \<le> a \<longrightarrow> a < off + length b \<longrightarrow> c a = 0xFF) \<longrightarrow>
        at_cells (snd (fl_write fl c off b)) off (length b) = b)"

section \<open>Finding the newest face\<close>

text \<open>\<open>storage()\<close> is the size of the partition, \<open>None\<close> when there is none.\<close>

definition face_at :: "nat \<Rightarrow> nat \<Rightarrow> nat \<Rightarrow> nat option" where
  "face_at psize slot face =
     (if slot \<ge> SRC_SLOT_COUNT then None
      else let off = slot * SLOT_SPAN + face * BLOCK in if off + BLOCK \<le> psize then Some off else None)"

definition draft_face_at :: "nat \<Rightarrow> nat \<Rightarrow> nat option" where
  "draft_face_at psize face =
     (let off = SRCSTORE_DRAFT_BASE + face * BLOCK in if off + BLOCK \<le> psize then Some off else None)"

definition hdr_good :: "u32 \<Rightarrow> src_hdr \<Rightarrow> bool" where
  "hdr_good magic h \<longleftrightarrow> h_magic h = magic \<and> h_len h \<le> of_nat SRC_MAX"

text \<open>The loop of \<open>newest\<close> and of \<open>draft_newest\<close> over the faces, from face \<open>f\<close> on; the second part is
  \<open>best_seq\<close>.\<close>

fun newest_from :: "flash \<Rightarrow> cells \<Rightarrow> u32 \<Rightarrow> nat \<Rightarrow> nat option list \<Rightarrow> nat \<Rightarrow> nat option \<times> u32 \<Rightarrow> nat option \<times> u32" where
  "newest_from fl c magic hsize [] f best = best"
| "newest_from fl c magic hsize (off # ats) f best =
     newest_from fl c magic hsize ats (f + 1)
       (case off of None \<Rightarrow> best
        | Some base \<Rightarrow>
            (case fl_read fl c base hsize of None \<Rightarrow> best
             | Some b \<Rightarrow>
                 if \<not> hdr_good magic (hdr_of b) then best
                 else if fst best = None \<or> 0 < sint (h_seq (hdr_of b) - snd best)
                 then (Some f, h_seq (hdr_of b)) else best))"

definition newest :: "flash \<Rightarrow> nat \<Rightarrow> cells \<Rightarrow> nat \<Rightarrow> nat option \<times> u32" where
  "newest fl psize c slot =
     newest_from fl c SRC_MAGIC HDR_SIZE [face_at psize slot 0, face_at psize slot 1] 0 (None, 0)"

definition draft_newest :: "flash \<Rightarrow> nat \<Rightarrow> cells \<Rightarrow> nat option \<times> u32" where
  "draft_newest fl psize c =
     newest_from fl c DRAFT_MAGIC DRAFT_HDR_SIZE [draft_face_at psize 0, draft_face_at psize 1] 0 (None, 0)"

section \<open>Reading\<close>

text \<open>One face, \<open>None\<close> unless its record verifies; \<open>extra\<close> is the further check of a draft.\<close>

definition read_record :: "flash \<Rightarrow> cells \<Rightarrow> u32 \<Rightarrow> nat \<Rightarrow> (bytes \<Rightarrow> bool) \<Rightarrow> nat option \<Rightarrow> (bytes \<times> bytes) option" where
  "read_record fl c magic hsize extra off =
     (case off of None \<Rightarrow> None
      | Some base \<Rightarrow>
          (case fl_read fl c base hsize of None \<Rightarrow> None
           | Some hb \<Rightarrow>
               let h = hdr_of hb in
               if \<not> hdr_good magic h then None
               else if \<not> extra hb then None
               else (case fl_read fl c (base + hsize) (unat (h_len h)) of None \<Rightarrow> None
                     | Some text \<Rightarrow> if fl_crc fl text \<noteq> h_crc h then None else Some (hb, text))))"

definition read_face :: "flash \<Rightarrow> nat \<Rightarrow> cells \<Rightarrow> nat \<Rightarrow> nat \<Rightarrow> (bytes \<times> bytes) option" where
  "read_face fl psize c slot face = read_record fl c SRC_MAGIC HDR_SIZE (\<lambda>_. True) (face_at psize slot face)"

definition draft_read :: "flash \<Rightarrow> nat \<Rightarrow> cells \<Rightarrow> nat \<Rightarrow> (bytes \<times> bytes) option" where
  "draft_read fl psize c face =
     read_record fl c DRAFT_MAGIC DRAFT_HDR_SIZE (\<lambda>hb. draft_slot_of hb < of_nat SRC_SLOT_COUNT)
       (draft_face_at psize face)"

definition srcstore_revision :: "flash \<Rightarrow> nat option \<Rightarrow> cells \<Rightarrow> nat \<Rightarrow> u32" where
  "srcstore_revision fl storage c slot = (case storage of None \<Rightarrow> 0
     | Some psize \<Rightarrow> (case newest fl psize c slot of (first, seq) \<Rightarrow> if first = None then 0 else seq))"

text \<open>The loop over \<open>attempt\<close>: the newest face first, then the other one.\<close>

fun try_faces :: "(nat \<Rightarrow> 'r option) \<Rightarrow> nat \<Rightarrow> nat list \<Rightarrow> 'r option" where
  "try_faces rd first [] = None"
| "try_faces rd first (attempt # as) =
     (case rd ((first + attempt) mod FACES) of Some r \<Rightarrow> Some r | None \<Rightarrow> try_faces rd first as)"

text \<open>The text and \<open>verified\<close>; the returned length is the length of the text.\<close>

definition srcstore_load_checked :: "flash \<Rightarrow> nat option \<Rightarrow> cells \<Rightarrow> nat \<Rightarrow> bytes \<times> bool" where
  "srcstore_load_checked fl storage c slot = (case storage of None \<Rightarrow> ([], False)
     | Some psize \<Rightarrow> (case newest fl psize c slot of
         (None, _) \<Rightarrow> ([], False)
       | (Some first, _) \<Rightarrow>
           (case try_faces (read_face fl psize c slot) first [0, 1] of
              Some (hb, text) \<Rightarrow> (text, True)
            | None \<Rightarrow> ([], False))))"

definition srcstore_load :: "flash \<Rightarrow> nat option \<Rightarrow> cells \<Rightarrow> nat \<Rightarrow> bytes" where
  "srcstore_load fl storage c slot = fst (srcstore_load_checked fl storage c slot)"

definition srcstore_draft_load :: "flash \<Rightarrow> nat option \<Rightarrow> cells \<Rightarrow> nat \<Rightarrow> bytes" where
  "srcstore_draft_load fl storage c slot = (case storage of None \<Rightarrow> []
     | Some psize \<Rightarrow> (case draft_newest fl psize c of
         (None, _) \<Rightarrow> []
       | (Some first, _) \<Rightarrow>
           (case try_faces (draft_read fl psize c) first [0, 1] of
              Some (hb, text) \<Rightarrow> if draft_slot_of hb \<noteq> of_nat slot then [] else text
            | None \<Rightarrow> [])))"

definition srcstore_draft_owner :: "flash \<Rightarrow> nat option \<Rightarrow> cells \<Rightarrow> u32 option" where
  "srcstore_draft_owner fl storage c = (case storage of None \<Rightarrow> None
     | Some psize \<Rightarrow> (case draft_newest fl psize c of
         (None, _) \<Rightarrow> None
       | (Some face, _) \<Rightarrow>
           (case draft_face_at psize face of None \<Rightarrow> None
            | Some base \<Rightarrow>
                (case fl_read fl c base DRAFT_HDR_SIZE of None \<Rightarrow> None
                 | Some hb \<Rightarrow>
                     if h_magic (hdr_of hb) \<noteq> DRAFT_MAGIC \<or> draft_slot_of hb \<ge> of_nat SRC_SLOT_COUNT then None
                     else Some (draft_slot_of hb)))))"

section \<open>Writing\<close>

datatype flash_op = Erase nat nat | Write nat bytes

fun flash_exec :: "flash \<Rightarrow> cells \<Rightarrow> flash_op \<Rightarrow> bool \<times> cells" where
  "flash_exec fl c (Erase off n) = fl_erase fl c off n"
| "flash_exec fl c (Write off b) = fl_write fl c off b"

text \<open>The operations of a save in order, each only after the one before it succeeded.\<close>

fun run_ops :: "flash \<Rightarrow> cells \<Rightarrow> flash_op list \<Rightarrow> bool \<times> cells" where
  "run_ops fl c [] = (True, c)"
| "run_ops fl c (op # ops) = (case flash_exec fl c op of (ok, c') \<Rightarrow> if ok then run_ops fl c' ops else (False, c'))"

text \<open>The body goes out in aligned runs, the last bytes in a padded word, the header last.\<close>

definition record_ops :: "nat \<Rightarrow> bytes \<Rightarrow> bytes \<Rightarrow> flash_op list" where
  "record_ops base hb text =
     (let len = length text; body = len - len mod 4; tail = len - body; hsize = length hb
      in [Erase base BLOCK] @
         (if body > 0 then [Write (base + hsize) (take body text)] else []) @
         (if tail > 0 then [Write (base + hsize + body) (drop body text @ replicate (4 - tail) 0xFF)] else []) @
         [Write base hb])"

text \<open>The face a save writes and the operations it runs there; \<open>None\<close> when that face is not in the
  partition.\<close>

definition srcstore_save_ops :: "flash \<Rightarrow> nat \<Rightarrow> cells \<Rightarrow> nat \<Rightarrow> bytes \<Rightarrow> flash_op list option" where
  "srcstore_save_ops fl psize c slot text =
     (case newest fl psize c slot of (current, seq) \<Rightarrow>
        let face = (case current of None \<Rightarrow> 0 | Some f \<Rightarrow> (f + 1) mod FACES) in
        map_option (\<lambda>base. record_ops base
            (hdr_bytes \<lparr>h_magic = SRC_MAGIC, h_len = of_nat (length text), h_crc = fl_crc fl text, h_seq = seq + 1\<rparr>) text)
          (face_at psize slot face))"

definition srcstore_save :: "flash \<Rightarrow> nat option \<Rightarrow> cells \<Rightarrow> nat \<Rightarrow> bytes \<Rightarrow> bool \<times> cells" where
  "srcstore_save fl storage c slot text =
     (if length text > SRC_MAX then (False, c)
      else case storage of None \<Rightarrow> (False, c)
        | Some psize \<Rightarrow>
            (case srcstore_save_ops fl psize c slot text of None \<Rightarrow> (False, c)
             | Some ops \<Rightarrow> run_ops fl c ops))"

definition srcstore_draft_save_ops :: "flash \<Rightarrow> nat \<Rightarrow> cells \<Rightarrow> nat \<Rightarrow> bytes \<Rightarrow> flash_op list option" where
  "srcstore_draft_save_ops fl psize c slot text =
     (case draft_newest fl psize c of (current, seq) \<Rightarrow>
        let face = (case current of None \<Rightarrow> 0 | Some f \<Rightarrow> (f + 1) mod FACES) in
        map_option (\<lambda>base. record_ops base
            (hdr_bytes \<lparr>h_magic = DRAFT_MAGIC, h_len = of_nat (length text), h_crc = fl_crc fl text, h_seq = seq + 1\<rparr>
               @ le32 (of_nat slot)) text)
          (draft_face_at psize face))"

definition srcstore_draft_save :: "flash \<Rightarrow> nat option \<Rightarrow> cells \<Rightarrow> nat \<Rightarrow> bytes \<Rightarrow> bool \<times> cells" where
  "srcstore_draft_save fl storage c slot text =
     (if length text > SRC_MAX \<or> slot \<ge> SRC_SLOT_COUNT then (False, c)
      else case storage of None \<Rightarrow> (False, c)
        | Some psize \<Rightarrow>
            (case srcstore_draft_save_ops fl psize c slot text of None \<Rightarrow> (False, c)
             | Some ops \<Rightarrow> run_ops fl c ops))"

text \<open>Erasing both faces, in order, stopping at the first that is not there or fails.\<close>

fun erase_faces :: "flash \<Rightarrow> cells \<Rightarrow> nat option list \<Rightarrow> bool \<times> cells" where
  "erase_faces fl c [] = (True, c)"
| "erase_faces fl c (off # ats) = (case off of None \<Rightarrow> (False, c)
     | Some base \<Rightarrow> (case fl_erase fl c base BLOCK of (ok, c') \<Rightarrow> if ok then erase_faces fl c' ats else (False, c')))"

definition srcstore_draft_clear :: "flash \<Rightarrow> nat option \<Rightarrow> cells \<Rightarrow> bool \<times> cells" where
  "srcstore_draft_clear fl storage c = (case storage of None \<Rightarrow> (False, c)
     | Some psize \<Rightarrow> erase_faces fl c [draft_face_at psize 0, draft_face_at psize 1])"

definition srcstore_clear :: "flash \<Rightarrow> nat option \<Rightarrow> cells \<Rightarrow> nat \<Rightarrow> bool \<times> cells" where
  "srcstore_clear fl storage c slot = (case storage of None \<Rightarrow> (False, c)
     | Some psize \<Rightarrow>
         let c1 = (if srcstore_draft_owner fl storage c = Some (of_nat slot)
                   then snd (srcstore_draft_clear fl storage c) else c)
         in erase_faces fl c1 [face_at psize slot 0, face_at psize slot 1])"

section \<open>Bytes and cells\<close>

lemma le32_length [simp]: "length (le32 v) = 4"
  by (simp add: le32_def)

lemma hdr_bytes_length [simp]: "length (hdr_bytes h) = 16"
  by (simp add: hdr_bytes_def)

lemma join_bytes:
  "(ucast (ucast v :: u8) OR push_bit 8 (ucast (ucast (drop_bit 8 v) :: u8)) OR push_bit 16 (ucast (ucast (drop_bit 16 v) :: u8))
      OR push_bit 24 (ucast (ucast (drop_bit 24 v) :: u8)) :: u32) = v"
proof (rule bit_word_eqI)
  fix n
  assume "n < LENGTH(32)"
  then have "n < 8 \<or> (8 \<le> n \<and> n < 16) \<or> (16 \<le> n \<and> n < 24) \<or> (24 \<le> n \<and> n < 32)" by auto
  then show "bit (ucast (ucast v :: u8) OR push_bit 8 (ucast (ucast (drop_bit 8 v) :: u8)) OR push_bit 16 (ucast (ucast (drop_bit 16 v) :: u8))
      OR push_bit 24 (ucast (ucast (drop_bit 24 v) :: u8)) :: u32) n = bit v n"
    by (elim disjE) (auto simp: bit_simps)
qed

lemma rd32_le32: "k = length xs \<Longrightarrow> rd32 (xs @ le32 v @ ys) k = v"
  by (simp add: rd32_def le32_def nth_append join_bytes)

lemma hdr_round: "hdr_of (hdr_bytes h @ xs) = h"
  unfolding hdr_of_def hdr_bytes_def
  using rd32_le32[of 0 "[]"] rd32_le32[of 4 "le32 (h_magic h)"] rd32_le32[of 8 "le32 (h_magic h) @ le32 (h_len h)"]
    rd32_le32[of 12 "le32 (h_magic h) @ le32 (h_len h) @ le32 (h_crc h)"]
  by simp

lemma draft_slot_round: "draft_slot_of (hdr_bytes h @ le32 v) = v"
  unfolding draft_slot_of_def using rd32_le32[of 16 "hdr_bytes h" v "[]"] by simp

lemma at_cells_length [simp]: "length (at_cells c off n) = n"
  by (simp add: at_cells_def)

lemma at_cells_0 [simp]: "at_cells c off 0 = []"
  by (simp add: at_cells_def)

lemma at_cells_cong: "(\<And>a. off \<le> a \<Longrightarrow> a < off + n \<Longrightarrow> c' a = c a) \<Longrightarrow> at_cells c' off n = at_cells c off n"
  by (simp add: at_cells_def)

lemma at_cells_add: "at_cells c off (n + m) = at_cells c off n @ at_cells c (off + n) m"
  unfolding at_cells_def by (metis add.assoc le_add1 map_append upt_add_eq_append)

lemma sizes: "BLOCK = 12288" "HDR_SIZE = 16" "DRAFT_HDR_SIZE = 20" "SLOT_SPAN = 24576" "FACES = 2"
  by (simp_all add: BLOCK_def HDR_SIZE_def DRAFT_HDR_SIZE_def SRC_MAX_def SLOT_SPAN_def FACES_def)

lemma flash_reads: "flash_ok fl \<Longrightarrow> fl_read fl c off n = Some (at_cells c off n)"
  by (simp add: flash_ok_def)

lemma flash_erased:
  "flash_ok fl \<Longrightarrow> fl_erase fl c off n = (ok, c') \<Longrightarrow> \<not> (off \<le> a \<and> a < off + n) \<Longrightarrow> c' a = c a"
  "flash_ok fl \<Longrightarrow> fl_erase fl c off n = (True, c') \<Longrightarrow> off \<le> a \<Longrightarrow> a < off + n \<Longrightarrow> c' a = 0xFF"
  unfolding flash_ok_def by (metis snd_conv) (metis fst_conv snd_conv)

lemma flash_written:
  "flash_ok fl \<Longrightarrow> fl_write fl c off b = (ok, c') \<Longrightarrow> \<not> (off \<le> a \<and> a < off + length b) \<Longrightarrow> c' a = c a"
  "flash_ok fl \<Longrightarrow> fl_write fl c off b = (True, c') \<Longrightarrow> (\<And>a. off \<le> a \<Longrightarrow> a < off + length b \<Longrightarrow> c a = 0xFF) \<Longrightarrow>
     at_cells c' off (length b) = b"
  unfolding flash_ok_def by (metis snd_conv) (metis fst_conv snd_conv)

section \<open>A power cut\<close>

text \<open>The cells after a cut: some operations done, the next one torn, that is, anything in its range; or all
  of them done.\<close>

fun op_range :: "flash_op \<Rightarrow> nat set" where
  "op_range (Erase off n) = {off..<off + n}"
| "op_range (Write off b) = {off..<off + length b}"

inductive cut :: "flash \<Rightarrow> cells \<Rightarrow> flash_op list \<Rightarrow> cells \<Rightarrow> bool" for fl where
  cut_all: "cut fl c [] c"
| cut_torn: "(\<And>a. a \<notin> op_range op \<Longrightarrow> c' a = c a) \<Longrightarrow> cut fl c (op # ops) c'"
| cut_next: "flash_exec fl c op = (True, c1) \<Longrightarrow> cut fl c1 ops c' \<Longrightarrow> cut fl c (op # ops) c'"

lemma exec_range: "flash_ok fl \<Longrightarrow> flash_exec fl c op = (ok, c') \<Longrightarrow> a \<notin> op_range op \<Longrightarrow> c' a = c a"
  by (cases op) (auto dest: flash_erased(1) flash_written(1))

lemma run_ops_cut: "flash_ok fl \<Longrightarrow> run_ops fl c ops = (ok, c') \<Longrightarrow> cut fl c ops c'"
proof (induction ops arbitrary: c)
  case Nil
  then show ?case by (simp add: cut_all)
next
  case (Cons op ops)
  obtain ok1 c1 where e: "flash_exec fl c op = (ok1, c1)" by fastforce
  show ?case
  proof (cases ok1)
    case True
    then show ?thesis using Cons e by (auto intro: cut_next)
  next
    case False
    then show ?thesis using Cons.prems e exec_range[OF Cons.prems(1) e] by (auto intro: cut_torn)
  qed
qed

lemma cut_outside:
  "cut fl c ops c' \<Longrightarrow> flash_ok fl \<Longrightarrow> (\<And>op. op \<in> set ops \<Longrightarrow> a \<notin> op_range op) \<Longrightarrow> c' a = c a"
  by (induction rule: cut.induct) (auto dest: exec_range)

lemma record_ops_range:
  assumes "op \<in> set (record_ops base hb text)" "length text \<le> SRC_MAX" "length hb \<le> 20" "a \<in> op_range op"
  shows "base \<le> a \<and> a < base + BLOCK"
proof -
  have t: "length text \<le> 8192" using assms(2) by (simp add: SRC_MAX_def)
  let ?body = "length text - length text mod 4"
  have b: "?body \<le> length text" "length text - ?body < 4" using mod_less_divisor[of 4 "length text"] by auto
  show ?thesis using assms(1,3,4) t b
    by (auto simp: record_ops_def Let_def sizes split: if_splits)
qed

lemma cut_record_outside:
  assumes "cut fl c (record_ops base hb text) c'" "flash_ok fl" "length text \<le> SRC_MAX" "length hb \<le> 20"
    and "\<not> (base \<le> a \<and> a < base + BLOCK)"
  shows "c' a = c a"
  by (rule cut_outside[OF assms(1,2)]) (use record_ops_range[OF _ assms(3,4)] assms(5) in blast)

section \<open>A finished save reads back\<close>

lemma run_ops_append:
  "run_ops fl c (xs @ ys) = (case run_ops fl c xs of (ok, c1) \<Rightarrow> if ok then run_ops fl c1 ys else (False, c1))"
  by (induction xs arbitrary: c) (auto split: prod.splits)

lemma run_piece:
  assumes "flash_ok fl" "run_ops fl c (if w then [Write off b] else []) = (True, c')"
    and "\<And>a. off \<le> a \<Longrightarrow> a < off + length b \<Longrightarrow> c a = 0xFF"
  shows "w \<Longrightarrow> at_cells c' off (length b) = b" "\<not> (off \<le> a \<and> a < off + length b) \<Longrightarrow> c' a = c a"
proof -
  have run: "w \<Longrightarrow> fl_write fl c off b = (True, c')" "\<not> w \<Longrightarrow> c' = c"
    using assms(2) by (auto split: prod.splits if_splits)
  show "w \<Longrightarrow> at_cells c' off (length b) = b" using flash_written(2)[OF assms(1) run(1)] assms(3) by blast
  show "\<not> (off \<le> a \<and> a < off + length b) \<Longrightarrow> c' a = c a"
    using flash_written(1)[OF assms(1) run(1)] run(2) by (cases w) auto
qed

lemma record_ops_done:
  assumes ok: "flash_ok fl" and run: "run_ops fl c (record_ops base hb text) = (True, c')"
    and len: "length text \<le> SRC_MAX" "length hb \<le> 20"
  shows "at_cells c' base (length hb) = hb" "at_cells c' (base + length hb) (length text) = text"
proof -
  define hs where "hs = length hb"
  define body where "body = length text - length text mod 4"
  define tl where "tl = drop body text @ replicate (4 - (length text - body)) 0xFF"
  have b: "body \<le> length text" "length text - body < 4" "length tl = 4"
    using mod_less_divisor[of 4 "length text"] by (auto simp: body_def tl_def)
  have small: "hs + body + 4 \<le> BLOCK" using b(1) len by (simp add: SRC_MAX_def sizes hs_def)
  have ops: "record_ops base hb text = [Erase base BLOCK] @ (if body > 0 then [Write (base + hs) (take body text)] else []) @
      (if length text - body > 0 then [Write (base + hs + body) tl] else []) @ (if True then [Write base hb] else [])"
    unfolding record_ops_def Let_def body_def[symmetric] hs_def[symmetric] tl_def by simp
  obtain c1 where c1: "fl_erase fl c base BLOCK = (True, c1)"
      "run_ops fl c1 ((if body > 0 then [Write (base + hs) (take body text)] else []) @
        (if length text - body > 0 then [Write (base + hs + body) tl] else []) @ (if True then [Write base hb] else [])) = (True, c')"
    using run unfolding ops run_ops_append[of _ _ "[_]"] by (auto split: prod.splits if_splits)
  then obtain c2 where c2: "run_ops fl c1 (if body > 0 then [Write (base + hs) (take body text)] else []) = (True, c2)"
      "run_ops fl c2 ((if length text - body > 0 then [Write (base + hs + body) tl] else []) @ (if True then [Write base hb] else [])) = (True, c')"
    unfolding run_ops_append[of _ c1] by (auto split: prod.splits if_splits simp del: run_ops.simps)
  then obtain c3 where c3: "run_ops fl c2 (if length text - body > 0 then [Write (base + hs + body) tl] else []) = (True, c3)"
      "run_ops fl c3 (if True then [Write base hb] else []) = (True, c')"
    unfolding run_ops_append[of _ c2] by (auto split: prod.splits if_splits simp del: run_ops.simps)
  have e1: "c1 a = 0xFF" if "base \<le> a" "a < base + BLOCK" for a using flash_erased(2)[OF ok c1(1)] that by blast
  have lb: "length (take body text) = body" using b(1) by simp
  have p2: "body > 0 \<Longrightarrow> at_cells c2 (base + hs) body = take body text"
    "\<And>a. \<not> (base + hs \<le> a \<and> a < base + hs + body) \<Longrightarrow> c2 a = c1 a"
    using run_piece[OF ok c2(1)] e1 small unfolding lb by auto
  have e2: "c2 a = 0xFF" if "base \<le> a" "a < base + BLOCK" "\<not> (base + hs \<le> a \<and> a < base + hs + body)" for a
    using p2(2) e1 that by simp
  have p3: "length text - body > 0 \<Longrightarrow> at_cells c3 (base + hs + body) 4 = tl"
    "\<And>a. \<not> (base + hs + body \<le> a \<and> a < base + hs + body + 4) \<Longrightarrow> c3 a = c2 a"
    using run_piece[OF ok c3(1)] e2 small unfolding b(3) by auto
  have p4: "at_cells c' base hs = hb" "\<And>a. \<not> (base \<le> a \<and> a < base + hs) \<Longrightarrow> c' a = c3 a"
    using run_piece[OF ok c3(2)] e2 p3(2) small unfolding hs_def[symmetric] by auto
  show "at_cells c' base (length hb) = hb" using p4(1) by (simp add: hs_def)
  have "at_cells c' (base + hs) body = at_cells c2 (base + hs) body"
    by (rule at_cells_cong) (use p4(2) p3(2) in auto)
  then have first: "at_cells c' (base + hs) body = take body text"
    using p2(1) by (cases "body = 0") simp_all
  have "at_cells c' (base + hs + body) (length text - body) = at_cells c3 (base + hs + body) (length text - body)"
    by (rule at_cells_cong) (use p4(2) in auto)
  moreover have "at_cells c3 (base + hs + body) (length text - body) = drop body text"
  proof (cases "length text - body > 0")
    case True
    have "at_cells c3 (base + hs + body) 4 =
        at_cells c3 (base + hs + body) (length text - body) @ at_cells c3 (base + hs + body + (length text - body)) (4 - (length text - body))"
      using at_cells_add[of c3 "base + hs + body" "length text - body" "4 - (length text - body)"] b(2) by simp
    then show ?thesis using p3(1)[OF True] unfolding tl_def by (metis append_eq_append_conv at_cells_length length_drop)
  next
    case False
    then show ?thesis by simp
  qed
  ultimately have rest: "at_cells c' (base + hs + body) (length text - body) = drop body text" by simp
  have "at_cells c' (base + hs) (length text) = at_cells c' (base + hs) body @ at_cells c' (base + hs + body) (length text - body)"
    using at_cells_add[of c' "base + hs" body "length text - body"] b(1) by simp
  then have "at_cells c' (base + hs) (length text) = text" unfolding first rest by simp
  then show "at_cells c' (base + length hb) (length text) = text" by (simp add: hs_def)
qed

section \<open>A pair of faces\<close>

text \<open>What the scan picks of two faces that are both there.\<close>

definition pick :: "u32 \<Rightarrow> src_hdr \<Rightarrow> src_hdr \<Rightarrow> nat option \<times> u32" where
  "pick magic h0 h1 =
     (if hdr_good magic h0 then
        (if hdr_good magic h1 \<and> 0 < sint (h_seq h1 - h_seq h0) then (Some 1, h_seq h1) else (Some 0, h_seq h0))
      else if hdr_good magic h1 then (Some 1, h_seq h1) else (None, 0))"

lemma newest_pick:
  "flash_ok fl \<Longrightarrow> newest_from fl c magic hs [Some b0, Some b1] 0 (None, 0) =
     pick magic (hdr_of (at_cells c b0 hs)) (hdr_of (at_cells c b1 hs))"
  by (simp add: flash_reads pick_def)

text \<open>A record at one base depends on the cells of its block only.\<close>

lemma unat_len: "hdr_good magic h \<Longrightarrow> unat (h_len h) \<le> SRC_MAX"
  by (auto simp: hdr_good_def word_le_nat_alt SRC_MAX_def)

lemma read_record_eq:
  assumes "flash_ok fl"
  shows "read_record fl c magic hs extra (Some base) =
     (let hb = at_cells c base hs; h = hdr_of hb; text = at_cells c (base + hs) (unat (h_len h)) in
      if hdr_good magic h \<and> extra hb \<and> fl_crc fl text = h_crc h then Some (hb, text) else None)"
  using assms by (simp add: read_record_def flash_reads Let_def)

lemma header_cong:
  assumes "\<And>a. base \<le> a \<Longrightarrow> a < base + BLOCK \<Longrightarrow> c' a = c a" "hs \<le> 20"
  shows "at_cells c' base hs = at_cells c base hs"
  by (rule at_cells_cong) (use assms in \<open>auto simp: sizes\<close>)

lemma read_record_cong:
  assumes "flash_ok fl" "\<And>a. base \<le> a \<Longrightarrow> a < base + BLOCK \<Longrightarrow> c' a = c a" "hs \<le> 20"
  shows "read_record fl c' magic hs extra (Some base) = read_record fl c magic hs extra (Some base)"
proof -
  have h: "at_cells c' base hs = at_cells c base hs" using header_cong[of base c' c hs] assms by blast
  show ?thesis
  proof (cases "hdr_good magic (hdr_of (at_cells c base hs))")
    case True
    have "at_cells c' (base + hs) (unat (h_len (hdr_of (at_cells c base hs)))) =
        at_cells c (base + hs) (unat (h_len (hdr_of (at_cells c base hs))))"
      by (rule at_cells_cong) (use assms unat_len[OF True] in \<open>auto simp: sizes SRC_MAX_def\<close>)
    then show ?thesis using h by (simp add: read_record_eq[OF assms(1)])
  next
    case False
    then show ?thesis using h by (simp add: read_record_eq[OF assms(1)])
  qed
qed

text \<open>What a load finds in two faces: the newest, or else the other one.\<close>

definition found :: "flash \<Rightarrow> cells \<Rightarrow> u32 \<Rightarrow> nat \<Rightarrow> (bytes \<Rightarrow> bool) \<Rightarrow> nat \<Rightarrow> nat \<Rightarrow> (bytes \<times> bytes) option" where
  "found fl c magic hs extra b0 b1 =
     (case fst (pick magic (hdr_of (at_cells c b0 hs)) (hdr_of (at_cells c b1 hs))) of
        None \<Rightarrow> None
      | Some k \<Rightarrow>
          (case read_record fl c magic hs extra (Some (if k = 0 then b0 else b1)) of
             Some r \<Rightarrow> Some r
           | None \<Rightarrow> read_record fl c magic hs extra (Some (if k = 0 then b1 else b0))))"

lemma pick_cases: "fst (pick magic h0 h1) = None \<or> fst (pick magic h0 h1) = Some 0 \<or> fst (pick magic h0 h1) = Some 1"
  by (simp add: pick_def)

lemma try_two:
  assumes "k = 0 \<or> k = 1"
  shows "try_faces rd k [0, 1] = (case rd k of Some r \<Rightarrow> Some r | None \<Rightarrow> rd (1 - k))"
  using assms by (auto simp: sizes split: option.splits)

text \<open>The face the pair's next record goes to.\<close>

definition target :: "cells \<Rightarrow> u32 \<Rightarrow> nat \<Rightarrow> nat \<Rightarrow> nat \<Rightarrow> nat" where
  "target c magic hs b0 b1 =
     (if fst (pick magic (hdr_of (at_cells c b0 hs)) (hdr_of (at_cells c b1 hs))) = Some 0 then b1 else b0)"

definition other :: "nat \<Rightarrow> nat \<Rightarrow> nat \<Rightarrow> nat" where
  "other b0 b1 b = (if b = b0 then b1 else b0)"


definition apart :: "nat \<Rightarrow> nat \<Rightarrow> bool" where
  "apart b0 b1 \<longleftrightarrow> b0 + BLOCK \<le> b1 \<or> b1 + BLOCK \<le> b0"



text \<open>One finished record: the pair gives it, under a sequence number one higher.\<close>

lemma found_of_pick:
  assumes "apart b0 b1" "t = b0 \<or> t = b1" "read_record fl c magic hs extra (Some t) = Some r"
    and "fst (pick magic (hdr_of (at_cells c b0 hs)) (hdr_of (at_cells c b1 hs))) = Some (if t = b0 then 0 else 1)"
  shows "found fl c magic hs extra b0 b1 = Some r"
  using assms by (auto simp: found_def)

lemma step_signed: "0 < sint ((s :: u32) + 1 - s)" "\<not> 0 < sint (s - (s + 1))"
  by simp_all

lemma pick_next:
  assumes "hdr_good magic n" "h_seq n = snd (pick magic h0 h1) + 1"
  shows "fst (pick magic h0 h1) = Some 0 \<Longrightarrow> pick magic h0 n = (Some 1, h_seq n)"
    "fst (pick magic h0 h1) \<noteq> Some 0 \<Longrightarrow> pick magic n h1 = (Some 0, h_seq n)"
  using assms step_signed by (auto simp: pick_def split: if_splits)

lemma pair_done:
  assumes ok: "flash_ok fl" and ap: "apart b0 b1" and hs: "hs \<le> 20"
    and run: "run_ops fl c (record_ops (target c magic hs b0 b1) hb tx) = (True, c')"
    and hb: "length hb = hs" "hdr_of hb = \<lparr>h_magic = magic, h_len = of_nat (length tx), h_crc = fl_crc fl tx,
        h_seq = snd (pick magic (hdr_of (at_cells c b0 hs)) (hdr_of (at_cells c b1 hs))) + 1\<rparr>" "extra hb"
    and len: "length tx \<le> SRC_MAX"
  shows "found fl c' magic hs extra b0 b1 = Some (hb, tx)"
    "snd (pick magic (hdr_of (at_cells c' b0 hs)) (hdr_of (at_cells c' b1 hs))) =
     snd (pick magic (hdr_of (at_cells c b0 hs)) (hdr_of (at_cells c b1 hs))) + 1"
    "fst (pick magic (hdr_of (at_cells c' b0 hs)) (hdr_of (at_cells c' b1 hs))) =
     Some (if target c magic hs b0 b1 = b0 then 0 else 1)"
proof -
  let ?H = "\<lambda>c b. hdr_of (at_cells c b hs)"
  let ?s = "snd (pick magic (?H c b0) (?H c b1))"
  define t where "t = target c magic hs b0 b1"
  define u where "u = other b0 b1 t"
  have tu: "apart t u" "t = b0 \<and> u = b1 \<or> t = b1 \<and> u = b0" "b0 \<noteq> b1" using ap
    by (auto simp: t_def u_def target_def other_def apart_def sizes)
  note d = record_ops_done[OF ok run[folded t_def] len, unfolded hb(1), OF hs]
  have ht: "?H c' t = hdr_of hb" using d(1) by simp
  have out: "\<not> (t \<le> a \<and> a < t + BLOCK) \<Longrightarrow> c' a = c a" for a
    using cut_record_outside[OF run_ops_cut[OF ok run[folded t_def]] ok len] hs hb(1) by simp
  have hu: "?H c' u = ?H c u"
    using header_cong[OF _ hs, of u c' c] out tu(1) by (auto simp: apart_def sizes)
  have "(of_nat (length tx) :: u32) \<le> of_nat SRC_MAX \<and> unat (of_nat (length tx) :: u32) = length tx"
    using len by (simp add: word_le_nat_alt SRC_MAX_def unat_of_nat take_bit_nat_eq_self)
  then have good: "hdr_good magic (hdr_of hb)" "unat (h_len (hdr_of hb)) = length tx"
    by (simp_all add: hdr_good_def hb(2))
  have rt: "read_record fl c' magic hs extra (Some t) = Some (hb, tx)"
    using d good hb(2,3) by (simp add: read_record_eq[OF ok])
  have p: "pick magic (?H c' b0) (?H c' b1) = (Some (if t = b0 then 0 else 1), ?s + 1)"
  proof (cases "fst (pick magic (?H c b0) (?H c b1)) = Some 0")
    case True
    then have "t = b1" "u = b0" using tu by (auto simp: t_def target_def)
    then show ?thesis using ht hu pick_next(1)[OF good(1) _ True] tu(3) by (simp add: hb(2))
  next
    case False
    then have "t = b0" "u = b1" using tu by (auto simp: t_def target_def)
    then show ?thesis using ht hu pick_next(2)[OF good(1) _ False] by (simp add: hb(2))
  qed
  show "found fl c' magic hs extra b0 b1 = Some (hb, tx)"
    by (rule found_of_pick[OF ap _ rt]) (use tu(2) p in auto)
  show "snd (pick magic (?H c' b0) (?H c' b1)) = ?s + 1" "fst (pick magic (?H c' b0) (?H c' b1)) = Some (if target c magic hs b0 b1 = b0 then 0 else 1)"
    using p by (simp_all add: t_def)
qed

lemma found_cong:
  assumes "flash_ok fl" "hs \<le> 20" "\<And>a. b0 \<le> a \<Longrightarrow> a < b0 + BLOCK \<Longrightarrow> c' a = c a" "\<And>a. b1 \<le> a \<Longrightarrow> a < b1 + BLOCK \<Longrightarrow> c' a = c a"
  shows "found fl c' magic hs extra b0 b1 = found fl c magic hs extra b0 b1"
  using header_cong[OF assms(3) assms(2)] header_cong[OF assms(4) assms(2)]
    read_record_cong[OF assms(1) assms(3) assms(2)] read_record_cong[OF assms(1) assms(4) assms(2)]
  by (simp add: found_def split: option.splits)

section \<open>The slots and the draft as pairs\<close>

definition slot_base :: "nat \<Rightarrow> nat" where "slot_base slot = slot * SLOT_SPAN"

definition slot_in :: "nat \<Rightarrow> nat \<Rightarrow> bool" where
  "slot_in psize slot \<longleftrightarrow> slot < SRC_SLOT_COUNT \<and> slot_base slot + 2 * BLOCK \<le> psize"

definition draft_in :: "nat \<Rightarrow> bool" where
  "draft_in psize \<longleftrightarrow> SRCSTORE_DRAFT_BASE + 2 * BLOCK \<le> psize"

abbreviation slot_found :: "flash \<Rightarrow> cells \<Rightarrow> nat \<Rightarrow> (bytes \<times> bytes) option" where
  "slot_found fl c slot \<equiv> found fl c SRC_MAGIC HDR_SIZE (\<lambda>_. True) (slot_base slot) (slot_base slot + BLOCK)"

abbreviation draft_found :: "flash \<Rightarrow> cells \<Rightarrow> (bytes \<times> bytes) option" where
  "draft_found fl c \<equiv> found fl c DRAFT_MAGIC DRAFT_HDR_SIZE (\<lambda>hb. draft_slot_of hb < of_nat SRC_SLOT_COUNT)
     SRCSTORE_DRAFT_BASE (SRCSTORE_DRAFT_BASE + BLOCK)"

lemma slot_faces: "slot_in psize slot \<Longrightarrow> face_at psize slot 0 = Some (slot_base slot) \<and> face_at psize slot 1 = Some (slot_base slot + BLOCK)"
  by (simp add: slot_in_def face_at_def slot_base_def Let_def)

lemma draft_faces: "draft_in psize \<Longrightarrow> draft_face_at psize 0 = Some SRCSTORE_DRAFT_BASE \<and> draft_face_at psize 1 = Some (SRCSTORE_DRAFT_BASE + BLOCK)"
  by (simp add: draft_in_def draft_face_at_def Let_def)

lemma pair_apart: "apart b (b + BLOCK)"
  by (simp add: apart_def)

lemma newest_slot: "flash_ok fl \<Longrightarrow> slot_in psize slot \<Longrightarrow> newest fl psize c slot =
    pick SRC_MAGIC (hdr_of (at_cells c (slot_base slot) HDR_SIZE)) (hdr_of (at_cells c (slot_base slot + BLOCK) HDR_SIZE))"
  using slot_faces[of psize slot] by (simp only: newest_def newest_pick)

lemma newest_draft: "flash_ok fl \<Longrightarrow> draft_in psize \<Longrightarrow> draft_newest fl psize c =
    pick DRAFT_MAGIC (hdr_of (at_cells c SRCSTORE_DRAFT_BASE DRAFT_HDR_SIZE)) (hdr_of (at_cells c (SRCSTORE_DRAFT_BASE + BLOCK) DRAFT_HDR_SIZE))"
  using draft_faces[of psize] by (simp only: draft_newest_def newest_pick)

lemma load_slot:
  assumes "flash_ok fl" "slot_in psize slot"
  shows "srcstore_load_checked fl (Some psize) c slot =
     (case slot_found fl c slot of Some r \<Rightarrow> (snd r, True) | None \<Rightarrow> ([], False))"
proof -
  obtain best seq where n: "newest fl psize c slot = (best, seq)" by fastforce
  then have p: "fst (pick SRC_MAGIC (hdr_of (at_cells c (slot_base slot) HDR_SIZE)) (hdr_of (at_cells c (slot_base slot + BLOCK) HDR_SIZE))) = best"
    using newest_slot[OF assms, of c] by simp
  show ?thesis
  proof (cases best)
    case None
    then show ?thesis using n p by (simp add: srcstore_load_checked_def found_def)
  next
    case (Some k)
    then have k: "k = 0 \<or> k = 1" using pick_cases p by (metis option.inject option.distinct(1))
    then show ?thesis using n p Some try_two[OF k, of "read_face fl psize c slot"] slot_faces[OF assms(2)]
      by (auto simp: srcstore_load_checked_def found_def read_face_def sizes(5) split: option.splits)
  qed
qed

lemma load_draft:
  assumes "flash_ok fl" "draft_in psize"
  shows "srcstore_draft_load fl (Some psize) c slot =
     (case draft_found fl c of Some r \<Rightarrow> if draft_slot_of (fst r) \<noteq> of_nat slot then [] else snd r | None \<Rightarrow> [])"
proof -
  obtain best seq where n: "draft_newest fl psize c = (best, seq)" by fastforce
  then have p: "fst (pick DRAFT_MAGIC (hdr_of (at_cells c SRCSTORE_DRAFT_BASE DRAFT_HDR_SIZE)) (hdr_of (at_cells c (SRCSTORE_DRAFT_BASE + BLOCK) DRAFT_HDR_SIZE))) = best"
    using newest_draft[OF assms, of c] by simp
  show ?thesis
  proof (cases best)
    case None
    then show ?thesis using n p by (simp add: srcstore_draft_load_def found_def)
  next
    case (Some k)
    then have k: "k = 0 \<or> k = 1" using pick_cases p by (metis option.inject option.distinct(1))
    then show ?thesis using n p Some try_two[OF k, of "draft_read fl psize c"] draft_faces[OF assms(2)]
      by (auto simp: srcstore_draft_load_def found_def draft_read_def sizes(5) split: option.splits)
  qed
qed

definition src_record :: "flash \<Rightarrow> u32 \<Rightarrow> bytes \<Rightarrow> bytes \<times> bytes" where
  "src_record fl seq tx = (hdr_bytes \<lparr>h_magic = SRC_MAGIC, h_len = of_nat (length tx), h_crc = fl_crc fl tx, h_seq = seq\<rparr>, tx)"

lemma save_ops_slot:
  assumes "flash_ok fl" "slot_in psize slot"
  shows "srcstore_save_ops fl psize c slot tx = Some (record_ops
     (target c SRC_MAGIC HDR_SIZE (slot_base slot) (slot_base slot + BLOCK))
     (fst (src_record fl (snd (newest fl psize c slot) + 1) tx)) tx)"
proof -
  obtain best seq where n: "newest fl psize c slot = (best, seq)" by fastforce
  then have p: "fst (pick SRC_MAGIC (hdr_of (at_cells c (slot_base slot) HDR_SIZE)) (hdr_of (at_cells c (slot_base slot + BLOCK) HDR_SIZE))) = best"
    using newest_slot[OF assms, of c] by simp
  then have "best = None \<or> best = Some 0 \<or> best = Some 1" using pick_cases by metis
  then show ?thesis using n p slot_faces[OF assms(2)]
    by (auto simp: srcstore_save_ops_def target_def src_record_def sizes(5) numeral_2_eq_2)
qed

text \<open>Cells outside the target's block: other slots and the draft do not see a save.\<close>

lemma slots_apart: "slot \<noteq> slot' \<Longrightarrow> slot_base slot + SLOT_SPAN \<le> slot_base slot' \<or> slot_base slot' + SLOT_SPAN \<le> slot_base slot"
proof -
  assume "slot \<noteq> slot'"
  then consider "Suc slot \<le> slot'" | "Suc slot' \<le> slot" by linarith
  then show ?thesis
  proof cases
    case 1
    then have "Suc slot * SLOT_SPAN \<le> slot' * SLOT_SPAN" by (rule mult_le_mono1)
    then show ?thesis by (simp add: slot_base_def)
  next
    case 2
    then have "Suc slot' * SLOT_SPAN \<le> slot * SLOT_SPAN" by (rule mult_le_mono1)
    then show ?thesis by (simp add: slot_base_def)
  qed
qed

lemma slot_below_draft: "slot < SRC_SLOT_COUNT \<Longrightarrow> slot_base slot + SLOT_SPAN \<le> SRCSTORE_DRAFT_BASE"
  by (simp add: slot_base_def SRC_SLOT_COUNT_def sizes SRCSTORE_DRAFT_BASE_def)

lemma target_slot: "target c magic hs b (b + BLOCK) = b \<or> target c magic hs b (b + BLOCK) = b + BLOCK"
  by (simp add: target_def)

text \<open>Cells that a change of one slot leaves alone.\<close>

definition slot_frame :: "nat \<Rightarrow> cells \<Rightarrow> cells \<Rightarrow> bool" where
  "slot_frame slot c c' \<longleftrightarrow> (\<forall>a. \<not> (slot_base slot \<le> a \<and> a < slot_base slot + SLOT_SPAN) \<longrightarrow> c' a = c a)"

lemma frame_loads:
  assumes ok: "flash_ok fl" and fr: "slot_frame slot c c'" and slot: "slot < SRC_SLOT_COUNT"
  shows "slot' \<noteq> slot \<Longrightarrow> slot_in psize slot' \<Longrightarrow> srcstore_load_checked fl (Some psize) c' slot' = srcstore_load_checked fl (Some psize) c slot'"
    and "draft_in psize \<Longrightarrow> srcstore_draft_load fl (Some psize) c' any = srcstore_draft_load fl (Some psize) c any"
proof -
  assume s: "slot' \<noteq> slot" "slot_in psize slot'"
  have "slot_found fl c' slot' = slot_found fl c slot'"
    by (rule found_cong[OF ok]) (use slots_apart[OF s(1)] fr in \<open>auto simp: slot_frame_def sizes\<close>)
  then show "srcstore_load_checked fl (Some psize) c' slot' = srcstore_load_checked fl (Some psize) c slot'"
    using load_slot[OF ok s(2)] by simp
next
  assume d: "draft_in psize"
  have "draft_found fl c' = draft_found fl c"
    by (rule found_cong[OF ok]) (use slot_below_draft[OF slot] fr in \<open>auto simp: slot_frame_def sizes\<close>)
  then show "srcstore_draft_load fl (Some psize) c' any = srcstore_draft_load fl (Some psize) c any"
    using load_draft[OF ok d] by simp
qed

lemma cut_save_frame:
  assumes ok: "flash_ok fl" and slot: "slot_in psize slot" and len: "length tx \<le> SRC_MAX"
    and ops: "srcstore_save_ops fl psize c slot tx = Some ops" and cut: "cut fl c ops c'"
  shows "slot_frame slot c c'"
    "\<not> (target c SRC_MAGIC HDR_SIZE (slot_base slot) (slot_base slot + BLOCK) \<le> a \<and>
        a < target c SRC_MAGIC HDR_SIZE (slot_base slot) (slot_base slot + BLOCK) + BLOCK) \<Longrightarrow> c' a = c a"
proof -
  have cut: "cut fl c (record_ops (target c SRC_MAGIC HDR_SIZE (slot_base slot) (slot_base slot + BLOCK))
      (fst (src_record fl (snd (newest fl psize c slot) + 1) tx)) tx) c'"
    using cut ops save_ops_slot[OF ok slot, of c tx] by simp
  note out = cut_record_outside[OF cut ok len]
  show "\<not> (target c SRC_MAGIC HDR_SIZE (slot_base slot) (slot_base slot + BLOCK) \<le> a \<and>
        a < target c SRC_MAGIC HDR_SIZE (slot_base slot) (slot_base slot + BLOCK) + BLOCK) \<Longrightarrow> c' a = c a"
    by (rule out) (simp_all add: src_record_def)
  show "slot_frame slot c c'" unfolding slot_frame_def
  proof (intro allI impI)
    fix a assume "\<not> (slot_base slot \<le> a \<and> a < slot_base slot + SLOT_SPAN)"
    then have "\<not> (target c SRC_MAGIC HDR_SIZE (slot_base slot) (slot_base slot + BLOCK) \<le> a \<and>
        a < target c SRC_MAGIC HDR_SIZE (slot_base slot) (slot_base slot + BLOCK) + BLOCK)"
      using target_slot[of c SRC_MAGIC HDR_SIZE "slot_base slot"] by (auto simp: sizes)
    then show "c' a = c a" by (rule out[rotated]) (simp add: src_record_def)
  qed
qed

section \<open>Saving\<close>

text \<open>A driver for the examples: every call succeeds, and a write clears bits only.\<close>

definition demo_flash :: flash where
  "demo_flash = \<lparr>fl_read = (\<lambda>c off n. Some (at_cells c off n)),
     fl_erase = (\<lambda>c off n. (True, \<lambda>a. if off \<le> a \<and> a < off + n then 0xFF else c a)),
     fl_write = (\<lambda>c off b. (True, \<lambda>a. if off \<le> a \<and> a < off + length b then c a AND b ! (a - off) else c a)),
     fl_crc = (\<lambda>b. foldl (\<lambda>s x. 31 * s + ucast x) 1 b)\<rparr>"

lemma demo_flash_ok: "flash_ok demo_flash"
proof -
  have "at_cells (\<lambda>a. if off \<le> a \<and> a < off + length b then c a AND b ! (a - off) else c a) off (length b) = b"
    if "\<And>a. off \<le> a \<Longrightarrow> a < off + length b \<Longrightarrow> c a = 0xFF" for c :: cells and off b
  proof (rule nth_equalityI)
    fix i assume "i < length (at_cells (\<lambda>a. if off \<le> a \<and> a < off + length b then c a AND b ! (a - off) else c a) off (length b))"
    then have i: "i < length b" by simp
    have "(0xFF :: u8) = - 1" by simp
    then have "c (off + i) AND b ! i = b ! i" using that[of "off + i"] i by (simp only: le_add1 nat_add_left_cancel_less) simp
    then show "at_cells (\<lambda>a. if off \<le> a \<and> a < off + length b then c a AND b ! (a - off) else c a) off (length b) ! i = b ! i"
      using i by (simp add: at_cells_def)
  qed simp
  then show ?thesis by (auto simp: flash_ok_def demo_flash_def)
qed

lemma demo_run: "fst (run_ops demo_flash c ops)"
proof (induction ops arbitrary: c)
  case (Cons op ops)
  then show ?case by (cases op) (simp_all add: demo_flash_def)
qed simp

lemma demo_save: "length tx \<le> SRC_MAX \<Longrightarrow> slot_in psize slot \<Longrightarrow>
    \<exists>c'. srcstore_save demo_flash (Some psize) c slot tx = (True, c')"
  using save_ops_slot[OF demo_flash_ok, of psize slot c tx] demo_run
  by (simp add: srcstore_save_def) (metis eq_fst_iff)

lemma revision_newest:
  assumes "flash_ok fl" "slot_in psize slot"
  shows "srcstore_revision fl (Some psize) c slot = snd (newest fl psize c slot)"
proof -
  have "fst (pick m h0 h1) = None \<Longrightarrow> snd (pick m h0 h1) = 0" for m h0 h1
    by (auto simp: pick_def split: if_splits)
  then have "fst (newest fl psize c slot) = None \<Longrightarrow> snd (newest fl psize c slot) = 0"
    using newest_slot[OF assms, of c] by metis
  then show ?thesis by (cases "newest fl psize c slot") (simp add: srcstore_revision_def)
qed

text \<open>Property C14: a save that succeeds is read back: for every driver that keeps its contract, the slot then
  gives exactly the saved text, verified, under a revision one higher, and every other slot and the parked draft
  give what they gave before.\<close>

theorem srcstore_save_load:
  assumes ok: "flash_ok fl" and slot: "slot_in psize slot"
    and save: "srcstore_save fl (Some psize) c slot tx = (True, c')"
  shows "srcstore_load_checked fl (Some psize) c' slot = (tx, True) \<and>
     srcstore_revision fl (Some psize) c' slot = srcstore_revision fl (Some psize) c slot + 1 \<and>
     (\<forall>slot'. slot' \<noteq> slot \<longrightarrow> slot_in psize slot' \<longrightarrow>
        srcstore_load_checked fl (Some psize) c' slot' = srcstore_load_checked fl (Some psize) c slot') \<and>
     (draft_in psize \<longrightarrow> (\<forall>s. srcstore_draft_load fl (Some psize) c' s = srcstore_draft_load fl (Some psize) c s))"
proof -
  let ?b = "slot_base slot"
  let ?t = "target c SRC_MAGIC HDR_SIZE ?b (?b + BLOCK)"
  let ?r = "src_record fl (snd (newest fl psize c slot) + 1) tx"
  have len: "length tx \<le> SRC_MAX" using save by (auto simp: srcstore_save_def split: if_splits)
  have run: "run_ops fl c (record_ops ?t (fst ?r) tx) = (True, c')"
    using save len save_ops_slot[OF ok slot, of c tx] by (simp add: srcstore_save_def)
  have hdr: "hdr_of (fst ?r) = \<lparr>h_magic = SRC_MAGIC, h_len = of_nat (length tx), h_crc = fl_crc fl tx,
      h_seq = snd (newest fl psize c slot) + 1\<rparr>" "length (fst ?r) = HDR_SIZE"
    using hdr_round[of _ "[]"] by (simp_all add: src_record_def sizes)
  have hs: "HDR_SIZE \<le> 20" by (simp add: sizes)
  have seq: "snd (newest fl psize c slot) = snd (pick SRC_MAGIC (hdr_of (at_cells c ?b HDR_SIZE)) (hdr_of (at_cells c (?b + BLOCK) HDR_SIZE)))"
    by (simp only: newest_slot[OF ok slot])
  note d = pair_done[where extra="\<lambda>_. True", OF ok pair_apart hs run hdr(2) _ TrueI len, unfolded seq[symmetric], OF hdr(1)]
  have l: "srcstore_load_checked fl (Some psize) c' slot = (tx, True)"
    using d(1) load_slot[OF ok slot, of c'] by simp
  have rev: "srcstore_revision fl (Some psize) c' slot = srcstore_revision fl (Some psize) c slot + 1"
    using d(2) newest_slot[OF ok slot, of c'] by (simp only: revision_newest[OF ok slot] seq)
  have cut: "cut fl c (record_ops ?t (fst ?r) tx) c'" by (rule run_ops_cut[OF ok run])
  have fr: "slot_frame slot c c'"
    by (rule cut_save_frame(1)[OF ok slot len save_ops_slot[OF ok slot] cut])
  have "slot < SRC_SLOT_COUNT" using slot by (simp add: slot_in_def)
  then show ?thesis using l rev frame_loads[OF ok fr] by blast
qed

lemma srcstore_save_load_witness:
  "\<exists>c'. srcstore_save demo_flash (Some 0x200000) (\<lambda>_. 0xFF) 3 [104, 105] = (True, c') \<and>
     srcstore_load_checked demo_flash (Some 0x200000) c' 3 = ([104, 105], True)"
proof -
  have s: "slot_in 0x200000 3" by (simp add: slot_in_def slot_base_def SRC_SLOT_COUNT_def sizes)
  obtain c' where c: "srcstore_save demo_flash (Some 0x200000) (\<lambda>_. 0xFF) 3 [104, 105] = (True, c')"
    using demo_save[OF _ s, of "[104, 105]" "\<lambda>_. 0xFF"] by (auto simp: SRC_MAX_def)
  show ?thesis using srcstore_save_load[OF demo_flash_ok s c] c by blast
qed




lemma erased_not_good: "at_cells c b 16 = replicate 16 0xFF \<Longrightarrow> \<not> hdr_good SRC_MAGIC (hdr_of (at_cells c b 16))"
  by (simp only:) code_simp


text \<open>The limit of that: a header is trusted before its checksum is looked at.  When the newest header belongs to
  a record that went bad, a load falls back to the other face, but the next save erases exactly that face, and a
  power cut right after the erase leaves nothing to load.\<close>

lemma save_over_bad_newest_risks_last_record:
  assumes ok: "flash_ok fl" and slot: "slot_in psize slot"
    and bad: "fst (newest fl psize c slot) = Some 0" "read_face fl psize c slot 0 = None"
    and good: "read_face fl psize c slot 1 = Some (hb, old)"
    and er: "fl_erase fl c (slot_base slot + BLOCK) BLOCK = (True, c')"
  shows "srcstore_load_checked fl (Some psize) c slot = (old, True) \<and>
     (\<exists>rest. srcstore_save_ops fl psize c slot tx = Some (Erase (slot_base slot + BLOCK) BLOCK # rest) \<and>
        cut fl c (Erase (slot_base slot + BLOCK) BLOCK # rest) c') \<and>
     srcstore_load_checked fl (Some psize) c' slot = ([], False)"
proof -
  let ?b = "slot_base slot"
  let ?H = "\<lambda>c k. hdr_of (at_cells c k HDR_SIZE)"
  let ?R = "\<lambda>c b. read_record fl c SRC_MAGIC HDR_SIZE (\<lambda>_. True) (Some b)"
  note pk = newest_slot[OF ok slot]
  have r: "?R c ?b = None" "?R c (?b + BLOCK) = Some (hb, old)"
    using bad(2) good slot_faces[OF slot] by (simp_all add: read_face_def)
  have "fst (pick SRC_MAGIC (?H c ?b) (?H c (?b + BLOCK))) = Some 0" using bad(1) by (simp only: pk)
  then have h0: "hdr_good SRC_MAGIC (?H c ?b)" and t: "target c SRC_MAGIC HDR_SIZE ?b (?b + BLOCK) = ?b + BLOCK"
    and f: "slot_found fl c slot = Some (hb, old)"
    using r by (auto simp: pick_def target_def found_def split: if_splits)
  have out: "\<not> (?b + BLOCK \<le> a \<and> a < ?b + BLOCK + BLOCK) \<Longrightarrow> c' a = c a" for a
    using flash_erased(1)[OF ok er] by blast
  have same: "?R c' ?b = None" "?H c' ?b = ?H c ?b"
    using r(1) read_record_cong[OF ok, of ?b c' c HDR_SIZE] header_cong[of ?b c' c HDR_SIZE] out by (simp_all add: sizes)
  have "at_cells c' (?b + BLOCK) 16 = at_cells (\<lambda>_. 0xFF) (?b + BLOCK) 16"
    by (rule at_cells_cong) (use flash_erased(2)[OF ok er] in \<open>simp add: sizes\<close>)
  then have e: "\<not> hdr_good SRC_MAGIC (?H c' (?b + BLOCK))"
    using erased_not_good[of c' "?b + BLOCK"] by (simp add: at_cells_def map_replicate_const sizes(2))
  then have "?R c' (?b + BLOCK) = None" by (simp add: read_record_eq[OF ok] Let_def)
  then have "slot_found fl c' slot = None" using same by (simp add: found_def split: option.splits)
  moreover have "\<exists>rest. srcstore_save_ops fl psize c slot tx = Some (Erase (?b + BLOCK) BLOCK # rest)"
    using save_ops_slot[OF ok slot, of c tx] t by (simp add: record_ops_def Let_def)
  moreover have "cut fl c (Erase (?b + BLOCK) BLOCK # rest) c'" for rest
    by (rule cut_torn) (use out in auto)
  ultimately show ?thesis using load_slot[OF ok slot] f by auto
qed

section \<open>The parked draft\<close>

text \<open>A parked draft belongs to one slot: after it is parked it is given back whole to that slot and
  to no other, its owner is that slot, and every saved source is what it was.\<close>

theorem srcstore_draft_park:
  assumes ok: "flash_ok fl" and area: "draft_in psize"
    and save: "srcstore_draft_save fl (Some psize) c slot tx = (True, c')"
  shows "srcstore_draft_load fl (Some psize) c' slot = tx \<and>
     srcstore_draft_owner fl (Some psize) c' = Some (of_nat slot) \<and>
     (\<forall>s. s < SRC_SLOT_COUNT \<longrightarrow> s \<noteq> slot \<longrightarrow> srcstore_draft_load fl (Some psize) c' s = []) \<and>
     (\<forall>s. slot_in psize s \<longrightarrow> srcstore_load_checked fl (Some psize) c' s = srcstore_load_checked fl (Some psize) c s)"
proof -
  let ?b = "SRCSTORE_DRAFT_BASE"
  let ?t = "target c DRAFT_MAGIC DRAFT_HDR_SIZE ?b (?b + BLOCK)"
  have len: "length tx \<le> SRC_MAX" and sl: "slot < SRC_SLOT_COUNT"
    using save by (auto simp: srcstore_draft_save_def split: if_splits)
  define hb where "hb = hdr_bytes \<lparr>h_magic = DRAFT_MAGIC, h_len = of_nat (length tx), h_crc = fl_crc fl tx,
      h_seq = snd (draft_newest fl psize c) + 1\<rparr> @ le32 (of_nat slot)"
  obtain best seq where n: "draft_newest fl psize c = (best, seq)" by fastforce
  then have p: "fst (pick DRAFT_MAGIC (hdr_of (at_cells c ?b DRAFT_HDR_SIZE)) (hdr_of (at_cells c (?b + BLOCK) DRAFT_HDR_SIZE))) = best"
    using newest_draft[OF ok area, of c] by simp
  then have "best = None \<or> best = Some 0 \<or> best = Some 1" using pick_cases by metis
  then have "srcstore_draft_save_ops fl psize c slot tx = Some (record_ops ?t hb tx)" using n p draft_faces[OF area]
    by (auto simp: srcstore_draft_save_ops_def target_def hb_def sizes(5) numeral_2_eq_2)
  then have run: "run_ops fl c (record_ops ?t hb tx) = (True, c')"
    using save len sl by (simp add: srcstore_draft_save_def not_le[symmetric])
  have small: "(of_nat s :: u32) = of_nat slot \<longleftrightarrow> s = slot" if "s < SRC_SLOT_COUNT" for s
    using that sl by (simp add: word_unat_eq_iff unat_of_nat take_bit_nat_eq_self SRC_SLOT_COUNT_def)
  have sl': "(of_nat slot :: u32) < of_nat SRC_SLOT_COUNT"
    using sl by (simp add: word_less_nat_alt unat_of_nat take_bit_nat_eq_self SRC_SLOT_COUNT_def)
  have hdr: "hdr_of hb = \<lparr>h_magic = DRAFT_MAGIC, h_len = of_nat (length tx), h_crc = fl_crc fl tx,
      h_seq = snd (draft_newest fl psize c) + 1\<rparr>" "length hb = DRAFT_HDR_SIZE" "draft_slot_of hb = of_nat slot"
    by (simp_all add: hb_def hdr_round draft_slot_round sizes)
  have sq: "snd (draft_newest fl psize c) = snd (pick DRAFT_MAGIC (hdr_of (at_cells c ?b DRAFT_HDR_SIZE)) (hdr_of (at_cells c (?b + BLOCK) DRAFT_HDR_SIZE)))"
    by (simp only: newest_draft[OF ok area])
  have hs: "DRAFT_HDR_SIZE \<le> 20" by (simp add: sizes)
  have ex: "draft_slot_of hb < of_nat SRC_SLOT_COUNT" using hdr(3) sl' by simp
  note d = pair_done[where extra="\<lambda>hb. draft_slot_of hb < of_nat SRC_SLOT_COUNT", OF ok pair_apart hs run hdr(2) _ ex len, unfolded sq[symmetric], OF hdr(1)]
  have load: "srcstore_draft_load fl (Some psize) c' s = (if of_nat slot \<noteq> (of_nat s :: u32) then [] else tx)" for s
    using d(1) load_draft[OF ok area, of c' s] hdr(3) by simp
  have hp: "at_cells c' ?t DRAFT_HDR_SIZE = hb" using record_ops_done(1)[OF ok run len] hdr(2) hs by simp
  obtain k where k: "fst (draft_newest fl psize c') = Some k" "draft_face_at psize k = Some ?t"
    using d(3) draft_faces[OF area] target_slot[of c DRAFT_MAGIC DRAFT_HDR_SIZE ?b]
    by (auto simp: newest_draft[OF ok area] sizes split: if_splits)
  have own: "srcstore_draft_owner fl (Some psize) c' = Some (of_nat slot)"
    using k hp hdr sl' by (cases "draft_newest fl psize c'") (simp add: srcstore_draft_owner_def flash_reads[OF ok])
  have out: "\<not> (?t \<le> a \<and> a < ?t + BLOCK) \<Longrightarrow> c' a = c a" for a
    using cut_record_outside[OF run_ops_cut[OF ok run] ok len] hdr(2) hs by simp
  have src: "srcstore_load_checked fl (Some psize) c' s = srcstore_load_checked fl (Some psize) c s" if s: "slot_in psize s" for s
  proof -
    have lt: "slot_base s + SLOT_SPAN \<le> ?b" using s slot_below_draft by (simp add: slot_in_def)
    have "slot_found fl c' s = slot_found fl c s"
      by (rule found_cong[OF ok])
        (use lt out target_slot[of c DRAFT_MAGIC DRAFT_HDR_SIZE ?b] in \<open>auto simp: sizes\<close>)
    then show ?thesis using load_slot[OF ok s] by simp
  qed
  show ?thesis using load own src small by metis
qed

lemma srcstore_draft_park_witness:
  "\<exists>c'. srcstore_draft_save demo_flash (Some 0x200000) (\<lambda>_. 0xFF) 3 [104] = (True, c') \<and>
     srcstore_draft_load demo_flash (Some 0x200000) c' 3 = [104]"
proof -
  have a: "draft_in 0x200000" by (simp add: draft_in_def SRCSTORE_DRAFT_BASE_def sizes)
  have "srcstore_draft_save_ops demo_flash 0x200000 (\<lambda>_. 0xFF) 3 [104] \<noteq> None"
    using newest_draft[OF demo_flash_ok a, of "\<lambda>_. 0xFF"] draft_faces[OF a]
    by (auto simp: srcstore_draft_save_ops_def pick_def sizes(5) numeral_2_eq_2 split: prod.splits if_splits)
  then obtain ops where "srcstore_draft_save_ops demo_flash 0x200000 (\<lambda>_. 0xFF) 3 [104] = Some ops" by blast
  then have "srcstore_draft_save demo_flash (Some 0x200000) (\<lambda>_. 0xFF) 3 [104] = run_ops demo_flash (\<lambda>_. 0xFF) ops"
    by (simp add: srcstore_draft_save_def SRC_MAX_def SRC_SLOT_COUNT_def)
  then obtain c' where c: "srcstore_draft_save demo_flash (Some 0x200000) (\<lambda>_. 0xFF) 3 [104] = (True, c')"
    using demo_run[of "\<lambda>_. 0xFF" ops] by (metis eq_fst_iff)
  show ?thesis using srcstore_draft_park[OF demo_flash_ok a c] c by blast
qed

end
