(* ===== verification/KeyState.thy ===== *)
theory KeyState
  imports Prelude
begin

text \<open>
  Which keys are down, main/hal/keystate.c and keystate.h: one writer, any number of readers on two cores, and a
  sequence lock between them.

  The words are the list the source keeps, and an operation of the writer is the list of its stores in order,
  so that a reader can run between any two of them.  The interleaving of the stores and loads is the order that
  the fences of the source give them.  The sequence number keeps its 32 bits.
\<close>

definition KEYSTATE_ROWS :: int where "KEYSTATE_ROWS = 4"
definition KEYSTATE_COLS :: int where "KEYSTATE_COLS = 14"
definition KEYSTATE_KEYS :: nat where "KEYSTATE_KEYS = 56"
definition KEYSTATE_WORDS :: nat where "KEYSTATE_WORDS = 2"
definition COUNT_WORDS :: nat where "COUNT_WORDS = KEYSTATE_KEYS div 4"
definition W_HELD :: nat where "W_HELD = 0"
definition W_PRESSES :: nat where "W_PRESSES = W_HELD + KEYSTATE_WORDS"
definition W_RELEASES :: nat where "W_RELEASES = W_PRESSES + COUNT_WORDS"
definition W_EDGES :: nat where "W_EDGES = W_RELEASES + COUNT_WORDS"
definition W_OVERFLOWS :: nat where "W_OVERFLOWS = W_EDGES + 1"
definition W_TOTAL :: nat where "W_TOTAL = W_OVERFLOWS + 1"

lemmas w_defs = KEYSTATE_ROWS_def KEYSTATE_COLS_def KEYSTATE_KEYS_def KEYSTATE_WORDS_def COUNT_WORDS_def W_HELD_def W_PRESSES_def
  W_RELEASES_def W_EDGES_def W_OVERFLOWS_def W_TOTAL_def

record keystate_snapshot =
  sn_held :: "u32 list"
  sn_presses :: "u8 list"
  sn_releases :: "u8 list"
  sn_edges :: u32
  sn_overflows :: u32

section \<open>The writer\<close>

type_synonym store = "nat \<times> u32"

definition ks_put :: "u32 list \<Rightarrow> store \<Rightarrow> u32 list" where
  "ks_put ws p = ws[fst p := snd p]"

definition ks_puts :: "u32 list \<Rightarrow> store list \<Rightarrow> u32 list" where
  "ks_puts ws ps = foldl ks_put ws ps"

definition bump :: "nat \<Rightarrow> nat \<Rightarrow> u32 list \<Rightarrow> store" where
  "bump base i ws =
     (let w = base + i div 4; shift = (i mod 4) * 8; v = ws ! w; n = (drop_bit shift v + 1) AND 0xff in
      (w, (v AND NOT (push_bit shift 0xff)) OR push_bit shift n))"

definition key_bit :: "nat \<Rightarrow> u32" where "key_bit i = push_bit (i mod 32) 1"

definition edge :: "nat \<Rightarrow> bool \<Rightarrow> u32 list \<Rightarrow> store list" where
  "edge i pressed ws =
     (let w = W_HELD + i div 32; v = ws ! w in
      if (v AND key_bit i \<noteq> 0) = pressed then []
      else let p1 = (w, if pressed then v OR key_bit i else v AND NOT (key_bit i)); ws1 = ks_put ws p1;
               p2 = bump (if pressed then W_PRESSES else W_RELEASES) i ws1; ws2 = ks_put ws1 p2 in
        [p1, p2, (W_EDGES, ws2 ! W_EDGES + 1)])"

text \<open>\<open>None\<close>: the operation returns before its window.\<close>

definition keystate_apply :: "int \<Rightarrow> int \<Rightarrow> bool \<Rightarrow> u32 list \<Rightarrow> store list option" where
  "keystate_apply row col pressed ws =
     (if row < 0 \<or> row \<ge> KEYSTATE_ROWS \<or> col < 0 \<or> col \<ge> KEYSTATE_COLS then None
      else let i = nat (row * KEYSTATE_COLS + col) in
        if (drop_bit (i mod 32) (ws ! (W_HELD + i div 32)) AND 1 \<noteq> 0) = pressed then None
        else Some (edge i pressed ws))"

fun overflow_loop :: "nat list \<Rightarrow> u32 list \<Rightarrow> store list" where
  "overflow_loop [] ws = []"
| "overflow_loop (i # is) ws =
     (if drop_bit (i mod 32) (ws ! (W_HELD + i div 32)) AND 1 \<noteq> 0
      then edge i False ws @ overflow_loop is (ks_puts ws (edge i False ws))
      else overflow_loop is ws)"

definition keystate_overflow :: "u32 list \<Rightarrow> store list option" where
  "keystate_overflow ws =
     (let ps = overflow_loop [0..<KEYSTATE_KEYS] ws; ws1 = ks_puts ws ps in
      Some (ps @ [(W_OVERFLOWS, ws1 ! W_OVERFLOWS + 1)]))"

section \<open>The reader\<close>

text \<open>What a snapshot makes of its copy of the words.\<close>

definition decode :: "u32 list \<Rightarrow> keystate_snapshot" where
  "decode c = \<lparr>sn_held = map (\<lambda>w. c ! (W_HELD + w)) [0..<KEYSTATE_WORDS],
     sn_presses = map (\<lambda>i. ucast (drop_bit ((i mod 4) * 8) (c ! (W_PRESSES + i div 4)))) [0..<KEYSTATE_KEYS],
     sn_releases = map (\<lambda>i. ucast (drop_bit ((i mod 4) * 8) (c ! (W_RELEASES + i div 4)))) [0..<KEYSTATE_KEYS],
     sn_edges = c ! W_EDGES, sn_overflows = c ! W_OVERFLOWS\<rparr>"

definition keystate_bit :: "u32 list \<Rightarrow> nat \<Rightarrow> bool" where
  "keystate_bit ws i = (drop_bit (i mod 32) (ws ! (i div 32)) AND 1 \<noteq> 0)"

text \<open>The reader's loop: before the first read of the sequence, copying, and with a finished copy.\<close>

datatype reader = R_START | R_COPY u32 "u32 list" | R_DONE "u32 list"

text \<open>
  The shared words and sequence, the stores that the writer has left in its window, and one reader; readers
  write nothing, so one stands for any number.  Two history variables: the windows opened and closed so far, of
  which the sequence is the image in 32 bits, with the states published so far; and the count at which the
  reader read its \<open>before\<close>.
\<close>

record ksys =
  ks_words :: "u32 list"
  ks_seq :: u32
  ks_window :: "store list option"
  ks_reader :: reader
  ks_count :: nat
  ks_published :: "u32 list list"
  ks_since :: nat

definition ks_init :: ksys where
  "ks_init = \<lparr>ks_words = replicate W_TOTAL 0, ks_seq = 0, ks_window = None, ks_reader = R_START, ks_count = 0,
     ks_published = [replicate W_TOTAL 0], ks_since = 0\<rparr>"

definition writer_begin :: "store list \<Rightarrow> ksys \<Rightarrow> ksys" where
  "writer_begin ps s = s\<lparr>ks_seq := ks_seq s + 1, ks_window := Some ps, ks_count := ks_count s + 1\<rparr>"

definition writer_store :: "ksys \<Rightarrow> ksys" where
  "writer_store s =
     (case ks_window s of Some (p # ps) \<Rightarrow> s\<lparr>ks_words := ks_put (ks_words s) p, ks_window := Some ps\<rparr> | _ \<Rightarrow> s)"

definition writer_end :: "ksys \<Rightarrow> ksys" where
  "writer_end s = s\<lparr>ks_seq := ks_seq s + 1, ks_window := None, ks_count := ks_count s + 1, ks_published := ks_published s @ [ks_words s]\<rparr>"

definition reader_before :: "ksys \<Rightarrow> ksys" where
  "reader_before s = s\<lparr>ks_reader := R_COPY (ks_seq s) [], ks_since := ks_count s\<rparr>"

definition reader_load :: "ksys \<Rightarrow> ksys" where
  "reader_load s = (case ks_reader s of R_COPY b c \<Rightarrow> s\<lparr>ks_reader := R_COPY b (c @ [ks_words s ! length c])\<rparr> | _ \<Rightarrow> s)"

definition reader_after :: "ksys \<Rightarrow> ksys" where
  "reader_after s =
     (case ks_reader s of
        R_COPY b c \<Rightarrow> let after = ks_seq s in
          s\<lparr>ks_reader := (if b AND 1 \<noteq> 0 \<or> b \<noteq> after then R_START else R_DONE c)\<rparr>
      | _ \<Rightarrow> s)"

text \<open>The calls of the writer.\<close>

datatype ks_call = KS_APPLY int int bool | KS_OVERFLOW

fun call_stores :: "ks_call \<Rightarrow> u32 list \<Rightarrow> store list option" where
  "call_stores (KS_APPLY row col pressed) ws = keystate_apply row col pressed ws"
| "call_stores KS_OVERFLOW ws = keystate_overflow ws"

inductive ks_step :: "ksys \<Rightarrow> ksys \<Rightarrow> bool" where
  begin_window: "ks_window s = None \<Longrightarrow> call_stores call (ks_words s) = Some ps \<Longrightarrow> ks_step s (writer_begin ps s)"
| store: "ks_window s = Some (p # ps) \<Longrightarrow> ks_step s (writer_store s)"
| end_window: "ks_window s = Some [] \<Longrightarrow> ks_step s (writer_end s)"
| before: "ks_reader s = R_START \<Longrightarrow> ks_step s (reader_before s)"
| load: "ks_reader s = R_COPY b c \<Longrightarrow> length c < W_TOTAL \<Longrightarrow> ks_step s (reader_load s)"
| after: "ks_reader s = R_COPY b c \<Longrightarrow> length c = W_TOTAL \<Longrightarrow> ks_count s < ks_since s + 2 ^ 32 \<Longrightarrow> ks_step s (reader_after s)"
| again: "ks_reader s = R_DONE c \<Longrightarrow> ks_step s (s\<lparr>ks_reader := R_START\<rparr>)"

section \<open>One edge\<close>

definition lane :: "u32 \<Rightarrow> nat \<Rightarrow> u8" where "lane v j = ucast (drop_bit (j * 8) v)"

lemma lane_bit: "n < 8 \<Longrightarrow> bit (lane v j) n \<longleftrightarrow> bit v (j * 8 + n)"
  by (simp add: lane_def bit_simps)

lemma ff_eq: "(0xff :: u32) = mask 8"
  by (simp add: mask_eq_exp_minus_1)

lemma byte_inc: "ucast ((x + 1) AND 0xff :: u32) = (ucast x + 1 :: u8)"
proof -
  have "ucast ((x + 1) AND 0xff) = (ucast (x + 1) :: u8)"
    unfolding ff_eq by (rule bit_word_eqI) (auto simp: bit_simps)
  also have "\<dots> = ucast x + 1"
    by (intro word_uint_eqI) (simp add: unsigned_ucast_eq take_bit_eq_mod uint_word_ariths mod_simps mod_mod_cancel)
  finally show ?thesis .
qed

text \<open>The store of a bump adds one to its own counter, at eight bits, and leaves the three others.\<close>

definition bumped :: "u32 \<Rightarrow> nat \<Rightarrow> u32" where
  "bumped v j = (v AND NOT (push_bit (j * 8) 0xff)) OR push_bit (j * 8) ((drop_bit (j * 8) v + 1) AND 0xff)"

lemma bumped_bit:
  assumes "j < 4" "m < 32"
  shows "bit (bumped v j) m \<longleftrightarrow> (if j * 8 \<le> m \<and> m < j * 8 + 8 then bit (drop_bit (j * 8) v + 1) (m - j * 8) else bit v m)"
  using assms unfolding bumped_def ff_eq by (auto simp: bit_simps)

lemma lane_bumped:
  assumes "j < 4" "k < 4"
  shows "lane (bumped v j) k = (if k = j then lane v j + 1 else lane v k)"
proof (rule bit_word_eqI)
  fix n assume "n < LENGTH(8)"
  then have n: "n < 8" by simp
  have m: "k * 8 + n < 32" using assms n by simp
  have "lane v j + 1 = ucast ((drop_bit (j * 8) v + 1) AND 0xff)" by (simp add: byte_inc lane_def)
  then have inc: "bit (lane v j + 1) n \<longleftrightarrow> bit (drop_bit (j * 8) v + 1) n"
    unfolding ff_eq using n by (simp add: bit_simps)
  show "bit (lane (bumped v j) k) n \<longleftrightarrow> bit (if k = j then lane v j + 1 else lane v k) n"
  proof (cases "k = j")
    case True
    then show ?thesis using bumped_bit[OF assms(1) m] n inc by (simp add: lane_bit)
  next
    case False
    then have "\<not> (j * 8 \<le> k * 8 + n \<and> k * 8 + n < j * 8 + 8)" using n by presburger
    then show ?thesis using False by (simp only: lane_bit[OF n] bumped_bit[OF assms(1) m] if_False)
  qed
qed

text \<open>What the words say of a key.\<close>

definition held_at :: "u32 list \<Rightarrow> nat \<Rightarrow> bool" where "held_at ws i = bit (ws ! (i div 32)) (i mod 32)"
definition press_at :: "u32 list \<Rightarrow> nat \<Rightarrow> u8" where "press_at ws i = lane (ws ! (2 + i div 4)) (i mod 4)"
definition release_at :: "u32 list \<Rightarrow> nat \<Rightarrow> u8" where "release_at ws i = lane (ws ! (16 + i div 4)) (i mod 4)"

lemma key_bit_iff: "bit (key_bit i) n \<longleftrightarrow> n = i mod 32"
  by (auto simp: key_bit_def bit_simps)

lemma test_bit_and: "(v AND key_bit i \<noteq> 0) = bit v (i mod 32)" "(drop_bit n v AND 1 \<noteq> 0) = bit v n" for v :: u32
  by (simp add: key_bit_def bit_iff_and_push_bit_not_eq_0) (simp add: bit_iff_odd_drop_bit and_one_eq odd_iff_mod_2_eq_one)

lemma same_cell: "k div 32 = i div 32 \<and> k mod 32 = i mod 32 \<longleftrightarrow> k = (i :: nat)" "k div 4 = i div 4 \<and> k mod 4 = i mod 4 \<longleftrightarrow> k = i"
  by (metis div_mult_mod_eq)+

text \<open>An edge in full: the key's bit, its counter of that direction and the total move, and nothing else.\<close>

lemma edge_effect:
  assumes l: "length ws = W_TOTAL" and i: "i < KEYSTATE_KEYS" and h: "held_at ws i \<noteq> pressed"
  defines "t \<equiv> ks_puts ws (edge i pressed ws)"
  shows "length t = W_TOTAL" "t ! W_EDGES = ws ! W_EDGES + 1" "t ! W_OVERFLOWS = ws ! W_OVERFLOWS"
    "k < KEYSTATE_KEYS \<Longrightarrow> held_at t k = (if k = i then pressed else held_at ws k)"
    "k < KEYSTATE_KEYS \<Longrightarrow> press_at t k = (if k = i \<and> pressed then press_at ws k + 1 else press_at ws k)"
    "k < KEYSTATE_KEYS \<Longrightarrow> release_at t k = (if k = i \<and> \<not> pressed then release_at ws k + 1 else release_at ws k)"
proof -
  let ?w = "i div 32" and ?c = "(if pressed then 2 else 16) + i div 4"
  let ?h = "if pressed then ws ! ?w OR key_bit i else ws ! ?w AND NOT (key_bit i)"
  have r: "?w < 2" "i div 4 < 14" "2 \<le> ?c" "?c < 30" using i by (auto simp: w_defs)
  have g: "((ws ! ?w AND key_bit i \<noteq> 0) = pressed) = False" using h by (auto simp: test_bit_and held_at_def)
  have e: "edge i pressed ws = [(?w, ?h), (?c, bumped (ws ! ?c) (i mod 4)), (30, ws ! 30 + 1)]"
    using r l g by (simp add: edge_def w_defs Let_def bump_def bumped_def ks_put_def)
  have t: "t = ws[?w := ?h, ?c := bumped (ws ! ?c) (i mod 4), 30 := ws ! 30 + 1]"
    by (simp add: t_def e ks_puts_def ks_put_def)
  show "length t = W_TOTAL" "t ! W_EDGES = ws ! W_EDGES + 1" "t ! W_OVERFLOWS = ws ! W_OVERFLOWS"
    using l r by (auto simp: t w_defs nth_list_update)
  have H: "t ! a = (if a = ?w then ?h else ws ! a)" if "a < 2" for a using that r l by (auto simp: t w_defs nth_list_update)
  have C: "t ! a = (if a = ?c then bumped (ws ! ?c) (i mod 4) else ws ! a)" if "2 \<le> a" "a < 30" for a
    using that r l by (auto simp: t w_defs nth_list_update)
  assume k: "k < KEYSTATE_KEYS"
  then have rk: "k div 32 < 2" "k div 4 < 14" by (auto simp: w_defs)
  have hb: "bit ?h n \<longleftrightarrow> (if n = i mod 32 then pressed else bit (ws ! ?w) n)" for n
    by (auto simp: bit_simps key_bit_iff dest: bit_imp_le_length)
  show "held_at t k = (if k = i then pressed else held_at ws k)"
    unfolding held_at_def H[OF rk(1)] using hb same_cell(1)[of k i] by auto
  have lb: "lane (bumped v (i mod 4)) (k mod 4) = (if k mod 4 = i mod 4 then lane v (i mod 4) + 1 else lane v (k mod 4))" for v
    by (rule lane_bumped) simp_all
  have P: "t ! (2 + k div 4) = (if pressed \<and> k div 4 = i div 4 then bumped (ws ! (2 + i div 4)) (i mod 4) else ws ! (2 + k div 4))"
    using C[of "2 + k div 4"] rk r by auto
  show "press_at t k = (if k = i \<and> pressed then press_at ws k + 1 else press_at ws k)"
    unfolding press_at_def P using lb same_cell(2)[of k i] by auto
  have R: "t ! (16 + k div 4) = (if \<not> pressed \<and> k div 4 = i div 4 then bumped (ws ! (16 + i div 4)) (i mod 4) else ws ! (16 + k div 4))"
    using C[of "16 + k div 4"] rk r by auto
  show "release_at t k = (if k = i \<and> \<not> pressed then release_at ws k + 1 else release_at ws k)"
    unfolding release_at_def R using lb same_cell(2)[of k i] by auto
qed

section \<open>The keypad the words stand for\<close>

text \<open>The abstract keypad: which keys are down, two counters of eight bits a key, and the two totals.\<close>

record pad =
  pd_held :: "nat \<Rightarrow> bool"
  pd_press :: "nat \<Rightarrow> u8"
  pd_release :: "nat \<Rightarrow> u8"
  pd_edges :: u32
  pd_overflows :: u32

definition pad_of :: "u32 list \<Rightarrow> pad" where
  "pad_of ws = \<lparr>pd_held = (\<lambda>k. k < KEYSTATE_KEYS \<and> held_at ws k),
     pd_press = (\<lambda>k. if k < KEYSTATE_KEYS then press_at ws k else 0),
     pd_release = (\<lambda>k. if k < KEYSTATE_KEYS then release_at ws k else 0),
     pd_edges = ws ! W_EDGES, pd_overflows = ws ! W_OVERFLOWS\<rparr>"

definition pad_edge :: "nat \<Rightarrow> bool \<Rightarrow> pad \<Rightarrow> pad" where
  "pad_edge i pressed p =
     (let q = p\<lparr>pd_held := (pd_held p)(i := pressed), pd_edges := pd_edges p + 1\<rparr> in
      if pressed then q\<lparr>pd_press := (pd_press p)(i := pd_press p i + 1)\<rparr> else q\<lparr>pd_release := (pd_release p)(i := pd_release p i + 1)\<rparr>)"

text \<open>A key on the pad that is not yet in the reported position has an edge; anything else changes nothing.\<close>

fun pad_call :: "ks_call \<Rightarrow> pad \<Rightarrow> pad" where
  "pad_call (KS_APPLY row col pressed) p =
     (let i = nat (row * 14 + col) in
      if 0 \<le> row \<and> row < 4 \<and> 0 \<le> col \<and> col < 14 \<and> pd_held p i \<noteq> pressed then pad_edge i pressed p else p)"
| "pad_call KS_OVERFLOW p =
     (let q = foldl (\<lambda>p i. if pd_held p i then pad_edge i False p else p) p [0..<56] in q\<lparr>pd_overflows := pd_overflows q + 1\<rparr>)"

lemma ks_puts_append: "ks_puts ws (a @ b) = ks_puts (ks_puts ws a) b" by (simp add: ks_puts_def)
lemma ks_puts_length [simp]: "length (ks_puts ws ps) = length ws"
  by (induction ps arbitrary: ws) (simp_all add: ks_puts_def ks_put_def)
lemma ks_puts_simps: "ks_puts ws [] = ws" "ks_puts ws (p # ps) = ks_puts (ks_put ws p) ps" by (simp_all add: ks_puts_def)

lemma pad_edge_of:
  assumes "length ws = W_TOTAL" "i < KEYSTATE_KEYS" "held_at ws i \<noteq> pressed"
  shows "pad_of (ks_puts ws (edge i pressed ws)) = pad_edge i pressed (pad_of ws)"
  using edge_effect[OF assms] assms(2)
  by (cases pressed) (auto simp: pad_of_def pad_edge_def Let_def fun_eq_iff)

lemma pad_overflow_loop:
  "length ws = W_TOTAL \<Longrightarrow> \<forall>i \<in> set is. i < KEYSTATE_KEYS \<Longrightarrow>
   pad_of (ks_puts ws (overflow_loop is ws)) = foldl (\<lambda>p i. if pd_held p i then pad_edge i False p else p) (pad_of ws) is"
proof (induction "is" arbitrary: ws)
  case (Cons i "is")
  then have i: "i < KEYSTATE_KEYS" and ih: "pd_held (pad_of ws) i = held_at ws i" by (simp_all add: pad_of_def)
  have t: "(drop_bit (i mod 32) (ws ! (W_HELD + i div 32)) AND 1 \<noteq> 0) = held_at ws i"
    by (simp add: test_bit_and(2) held_at_def W_HELD_def)
  show ?case
  proof (cases "held_at ws i")
    case True
    then have E: "pad_of (ks_puts ws (edge i False ws)) = pad_edge i False (pad_of ws)" using pad_edge_of[OF Cons.prems(1) i, of False] by simp
    show ?thesis using Cons.IH[of "ks_puts ws (edge i False ws)"] Cons.prems True
      by (simp only: overflow_loop.simps t True if_True ks_puts_append ks_puts_length E foldl_Cons ih list.set_intros) simp
  next
    case False
    then show ?thesis using Cons.IH[of ws] Cons.prems t ih by simp
  qed
qed (simp add: ks_puts_simps)

lemma call_pad:
  assumes l: "length ws = W_TOTAL"
  shows "pad_of (case call_stores call ws of None \<Rightarrow> ws | Some ps \<Rightarrow> ks_puts ws ps) = pad_call call (pad_of ws)"
proof (cases call)
  case (KS_APPLY row col pressed)
  let ?i = "nat (row * 14 + col)"
  show ?thesis
  proof (cases "0 \<le> row \<and> row < 4 \<and> 0 \<le> col \<and> col < 14")
    case True
    then have "row * 14 + col < 56" by linarith
    then have i: "?i < KEYSTATE_KEYS" by (simp add: w_defs nat_less_iff)
    have t: "(drop_bit (?i mod 32) (ws ! (W_HELD + ?i div 32)) AND 1 \<noteq> 0) = held_at ws ?i"
      by (simp add: test_bit_and(2) held_at_def W_HELD_def)
    have h: "pd_held (pad_of ws) ?i = held_at ws ?i" using i by (simp add: pad_of_def)
    show ?thesis
    proof (cases "held_at ws ?i = pressed")
      case False
      then have "keystate_apply row col pressed ws = Some (edge ?i pressed ws)"
        using True t by (simp add: keystate_apply_def KEYSTATE_ROWS_def KEYSTATE_COLS_def Let_def)
      then show ?thesis using pad_edge_of[OF l i False] False True h by (simp add: KS_APPLY)
    next
      case e: True
      then have "keystate_apply row col pressed ws = None"
        using True t by (simp add: keystate_apply_def KEYSTATE_ROWS_def KEYSTATE_COLS_def Let_def)
      then show ?thesis using e h by (simp add: KS_APPLY)
    qed
  next
    case False
    then have "keystate_apply row col pressed ws = None" by (auto simp: keystate_apply_def KEYSTATE_ROWS_def KEYSTATE_COLS_def)
    then show ?thesis using False by (auto simp: KS_APPLY)
  qed
next
  case KS_OVERFLOW
  let ?ws = "ks_puts ws (overflow_loop [0..<KEYSTATE_KEYS] ws)"
  have o': "pad_of (?ws[W_OVERFLOWS := ?ws ! W_OVERFLOWS + 1]) = (pad_of ?ws)\<lparr>pd_overflows := pd_overflows (pad_of ?ws) + 1\<rparr>"
    using l by (auto simp: pad_of_def held_at_def press_at_def release_at_def w_defs fun_eq_iff nth_list_update)
  have "keystate_overflow ws = Some (overflow_loop [0..<KEYSTATE_KEYS] ws @ [(W_OVERFLOWS, ?ws ! W_OVERFLOWS + 1)])"
    by (simp add: keystate_overflow_def Let_def)
  then have "pad_of (case call_stores call ws of None \<Rightarrow> ws | Some ps \<Rightarrow> ks_puts ws ps) = pad_of (?ws[W_OVERFLOWS := ?ws ! W_OVERFLOWS + 1])"
    by (simp add: KS_OVERFLOW ks_puts_append ks_puts_simps ks_put_def)
  then show ?thesis using o' pad_overflow_loop[OF l, of "[0..<KEYSTATE_KEYS]"] by (simp add: KS_OVERFLOW Let_def KEYSTATE_KEYS_def)
qed

section \<open>Alternating edges\<close>

text \<open>A pad that started with nothing down: every key has one press more than releases while it is down, and as many
  while it is up.\<close>

definition pad_even :: "pad \<Rightarrow> bool" where
  "pad_even p \<longleftrightarrow> (\<forall>i. pd_press p i = pd_release p i + (if pd_held p i then 1 else 0))"

lemma pad_even_over: "pad_even (p\<lparr>pd_overflows := n\<rparr>) = pad_even p" by (simp add: pad_even_def)

lemma pad_edge_even: "pad_even p \<Longrightarrow> pd_held p i \<noteq> pressed \<Longrightarrow> pad_even (pad_edge i pressed p)"
  by (auto simp: pad_even_def pad_edge_def Let_def)

lemma pad_loop_even:
  "pad_even p \<Longrightarrow> pad_even (foldl (\<lambda>p i. if pd_held p i then pad_edge i False p else p) p is)"
proof (induction "is" arbitrary: p)
  case (Cons i "is")
  have "pad_even (if pd_held p i then pad_edge i False p else p)" using pad_edge_even[of p i False] Cons.prems by simp
  then show ?case using Cons.IH by simp
qed simp

lemma pad_call_even: "pad_even p \<Longrightarrow> pad_even (pad_call call p)"
proof (cases call)
  case (KS_APPLY row col pressed)
  then show "pad_even p \<Longrightarrow> ?thesis" using pad_edge_even by (simp add: Let_def)
next
  case KS_OVERFLOW
  assume "pad_even p"
  from pad_loop_even[OF this, of "[0..<56]"] show ?thesis by (simp only: KS_OVERFLOW pad_call.simps Let_def pad_even_over)
qed

definition words_ok :: "u32 list \<Rightarrow> bool" where "words_ok ws \<longleftrightarrow> length ws = W_TOTAL \<and> pad_even (pad_of ws)"

lemma call_ok: "words_ok ws \<Longrightarrow> call_stores call ws = Some ps \<Longrightarrow> words_ok (ks_puts ws ps)"
  using call_pad[of ws call] pad_call_even[of "pad_of ws" call] by (simp add: words_ok_def)

lemma words_zero_ok: "words_ok (replicate W_TOTAL 0)"
proof -
  have z: "replicate W_TOTAL (0 :: u32) ! n = 0" if "n < 32" for n using that by (simp add: w_defs)
  have "k div 4 < 14 \<and> k div 32 < 2" if "k < 56" for k :: nat
    using that less_mult_imp_div_less[of k 14 4] less_mult_imp_div_less[of k 2 32] by simp
  then have "k < 56 \<Longrightarrow> k div 32 < 32 \<and> 2 + k div 4 < 32 \<and> 16 + k div 4 < 32" for k :: nat by fastforce
  then show ?thesis by (auto simp: words_ok_def pad_even_def pad_of_def held_at_def press_at_def release_at_def lane_def z KEYSTATE_KEYS_def)
qed

section \<open>Reachable states\<close>

definition writer_inv :: "ksys \<Rightarrow> bool" where
  "writer_inv s \<longleftrightarrow> ks_seq s = of_nat (ks_count s) \<and> length (ks_words s) = W_TOTAL \<and> (\<forall>ws \<in> set (ks_published s). words_ok ws) \<and>
     (case ks_window s of
        None \<Rightarrow> even (ks_count s) \<and> length (ks_published s) = ks_count s div 2 + 1 \<and> ks_words s = ks_published s ! (ks_count s div 2)
      | Some ps \<Rightarrow> odd (ks_count s) \<and> length (ks_published s) = ks_count s div 2 + 1 \<and> words_ok (ks_puts (ks_words s) ps))"

definition reader_inv :: "ksys \<Rightarrow> bool" where
  "reader_inv s \<longleftrightarrow> ks_since s \<le> ks_count s \<and>
     (case ks_reader s of
        R_START \<Rightarrow> True
      | R_COPY b c \<Rightarrow> b = of_nat (ks_since s) \<and> length c \<le> W_TOTAL \<and>
          (even (ks_since s) \<and> ks_count s = ks_since s \<longrightarrow> c = take (length c) (ks_words s))
      | R_DONE c \<Rightarrow> even (ks_since s) \<and> ks_since s div 2 < length (ks_published s) \<and> c = ks_published s ! (ks_since s div 2))"

definition ks_inv :: "ksys \<Rightarrow> bool" where "ks_inv s \<longleftrightarrow> writer_inv s \<and> reader_inv s"

lemma writer_frame [simp]: "writer_inv (s\<lparr>ks_reader := r\<rparr>) = writer_inv s" "writer_inv (s\<lparr>ks_since := n\<rparr>) = writer_inv s"
  by (cases "ks_window s"; simp add: writer_inv_def)+

lemma ks_init_inv: "ks_inv ks_init"
  using words_zero_ok by (simp add: ks_inv_def writer_inv_def reader_inv_def ks_init_def)

lemma begin_inv:
  assumes "ks_inv s" "ks_window s = None" "call_stores call (ks_words s) = Some ps"
  shows "ks_inv (writer_begin ps s)"
proof -
  have w: "writer_inv s" and r: "reader_inv s" using assms(1) by (simp_all add: ks_inv_def)
  have e: "even (ks_count s)" "length (ks_published s) = ks_count s div 2 + 1" "ks_words s = ks_published s ! (ks_count s div 2)"
    using w assms(2) by (simp_all add: writer_inv_def)
  then have "words_ok (ks_words s)" using w by (simp add: writer_inv_def)
  then have "words_ok (ks_puts (ks_words s) ps)" by (rule call_ok) (rule assms(3))
  then have "writer_inv (writer_begin ps s)" using w e by (simp add: writer_inv_def writer_begin_def)
  moreover have "reader_inv (writer_begin ps s)" using r by (simp add: reader_inv_def writer_begin_def split: reader.splits)
  ultimately show ?thesis by (simp add: ks_inv_def)
qed

lemma store_inv:
  assumes "ks_inv s" "ks_window s = Some (p # ps)"
  shows "ks_inv (writer_store s)"
proof -
  have w: "writer_inv s" and r: "reader_inv s" using assms(1) by (simp_all add: ks_inv_def)
  then have odd: "odd (ks_count s)" using assms(2) by (simp add: writer_inv_def)
  have "writer_inv (writer_store s)" using w assms(2) by (simp add: writer_inv_def writer_store_def ks_puts_simps ks_put_def)
  moreover have "reader_inv (writer_store s)" using r odd assms(2) by (auto simp: reader_inv_def writer_store_def split: reader.splits)
  ultimately show ?thesis by (simp add: ks_inv_def)
qed

lemma end_inv:
  assumes "ks_inv s" "ks_window s = Some []"
  shows "ks_inv (writer_end s)"
proof -
  have w: "writer_inv s" and r: "reader_inv s" using assms(1) by (simp_all add: ks_inv_def)
  then have odd: "odd (ks_count s)" "length (ks_published s) = ks_count s div 2 + 1" "words_ok (ks_words s)"
    using assms(2) by (simp_all add: writer_inv_def ks_puts_simps)
  then have "(ks_count s + 1) div 2 = ks_count s div 2 + 1" by presburger
  then have "writer_inv (writer_end s)" using w odd by (auto simp: writer_inv_def writer_end_def nth_append)
  moreover have "reader_inv (writer_end s)" using r by (auto simp: reader_inv_def writer_end_def nth_append split: reader.splits)
  ultimately show ?thesis by (simp add: ks_inv_def)
qed

lemma even_word_of_nat: "bit (of_nat n :: u32) 0 \<longleftrightarrow> odd n"
  by (subst bit_of_nat_iff) (simp add: bit_0)

lemma after_inv:
  assumes "ks_inv s" "ks_reader s = R_COPY b c" "length c = W_TOTAL" "ks_count s < ks_since s + 2 ^ 32"
  shows "ks_inv (reader_after s)"
proof -
  have w: "writer_inv s" and r: "reader_inv s" using assms(1) by (simp_all add: ks_inv_def)
  have R: "b = of_nat (ks_since s)" "ks_since s \<le> ks_count s" "even (ks_since s) \<and> ks_count s = ks_since s \<longrightarrow> c = take (length c) (ks_words s)"
    using r assms(2) by (simp_all add: reader_inv_def)
  have "reader_inv (reader_after s)"
  proof (cases "b AND 1 \<noteq> 0 \<or> b \<noteq> ks_seq s")
    case True
    then show ?thesis using R(2) assms(2) by (simp add: reader_inv_def reader_after_def Let_def)
  next
    case False
    have same: "ks_count s = ks_since s"
    proof -
      have "(of_nat (ks_since s) :: u32) = of_nat (ks_count s)" using False R(1) w by (simp add: writer_inv_def)
      then have "ks_since s mod 2 ^ 32 = ks_count s mod 2 ^ 32" by (simp add: of_nat_eq_iff take_bit_eq_mod word_of_nat_eq_iff)
      then have "(ks_count s - ks_since s) mod 2 ^ 32 = 0" using R(2) by (metis mod_eq_dvd_iff_nat dvd_imp_mod_0)
      then show ?thesis using R(2) assms(4) by simp
    qed
    have "even (ks_since s)" using False test_bit_and(2)[of 0 b] unfolding R(1) by (simp only: drop_bit_0 id_apply even_word_of_nat) simp
    then have e: "even (ks_since s)" "c = ks_words s" using R(3) same assms(3) w by (auto simp: writer_inv_def)
    then have "ks_window s = None" using w same by (auto simp: writer_inv_def split: option.splits)
    then have "ks_since s div 2 < length (ks_published s) \<and> c = ks_published s ! (ks_since s div 2)"
      using w e same by (simp add: writer_inv_def)
    then show ?thesis using e(1) R(2) assms(2) False by (simp add: reader_inv_def reader_after_def Let_def)
  qed
  moreover have "writer_inv (reader_after s)" using w assms(2) by (simp add: reader_after_def Let_def)
  ultimately show ?thesis by (simp add: ks_inv_def)
qed

lemma ks_step_inv: "ks_step s t \<Longrightarrow> ks_inv s \<Longrightarrow> ks_inv t"
proof (induction rule: ks_step.induct)
  case (begin_window s call ps)
  then show ?case using begin_inv by blast
next
  case (store s p ps)
  then show ?case using store_inv by blast
next
  case (end_window s)
  then show ?case using end_inv by blast
next
  case (before s)
  then show ?case by (simp add: ks_inv_def reader_before_def) (simp add: writer_inv_def reader_inv_def)
next
  case (load s b c)
  then have w: "writer_inv s" and r: "reader_inv s" by (simp_all add: ks_inv_def)
  have "take (Suc (length c)) (ks_words s) = take (length c) (ks_words s) @ [ks_words s ! length c]"
    using load(2) w by (simp add: writer_inv_def take_Suc_conv_app_nth)
  then have "reader_inv (reader_load s)" using r load by (auto simp: reader_inv_def reader_load_def)
  moreover have "writer_inv (reader_load s)" using w load by (simp add: reader_load_def)
  ultimately show ?case by (simp add: ks_inv_def)
next
  case (after s b c)
  then show ?case using after_inv by blast
next
  case (again s c)
  then show ?case by (simp add: ks_inv_def) (simp add: reader_inv_def)
qed

interpretation keys: step_system ks_step ks_inv
  by unfold_locales (rule ks_step_inv)

text \<open>A copy that no window interrupts ends: the reader returns the words of the moment.\<close>

lemma loads_run:
  "n \<le> W_TOTAL \<Longrightarrow> length (ks_words s) = W_TOTAL \<Longrightarrow> ks_reader s = R_COPY b [] \<Longrightarrow>
   ks_step\<^sup>*\<^sup>* s (s\<lparr>ks_reader := R_COPY b (take n (ks_words s))\<rparr>)"
proof (induction n)
  case 0
  then have "s\<lparr>ks_reader := R_COPY b []\<rparr> = s" by (cases s) simp
  then show ?case by simp
next
  case (Suc n)
  let ?t = "s\<lparr>ks_reader := R_COPY b (take n (ks_words s))\<rparr>"
  have n: "n < length (ks_words s)" using Suc.prems by simp
  have "ks_step ?t (reader_load ?t)" by (rule ks_step.load[of _ b "take n (ks_words s)"]) (use Suc.prems in simp_all)
  moreover have "reader_load ?t = s\<lparr>ks_reader := R_COPY b (take (Suc n) (ks_words s))\<rparr>"
    using n by (simp add: reader_load_def take_Suc_conv_app_nth)
  ultimately show ?case using Suc by (auto intro: rtranclp.rtrancl_into_rtrancl)
qed

lemma snapshot_run:
  assumes "ks_inv s" "ks_window s = None" "ks_reader s = R_START"
  shows "ks_step\<^sup>*\<^sup>* s (s\<lparr>ks_reader := R_DONE (ks_words s), ks_since := ks_count s\<rparr>)"
proof -
  let ?b = "reader_before s"
  have w: "writer_inv s" using assms(1) by (simp add: ks_inv_def)
  have e: "even (ks_count s)" "length (ks_words s) = W_TOTAL" "ks_seq s = of_nat (ks_count s)"
    using w assms(2) unfolding writer_inv_def by (simp, blast, blast)
  have 1: "ks_step s ?b" by (rule before[OF assms(3)])
  let ?c = "?b\<lparr>ks_reader := R_COPY (ks_seq s) (take W_TOTAL (ks_words s))\<rparr>"
  have 2: "ks_step\<^sup>*\<^sup>* ?b ?c" using loads_run[of W_TOTAL ?b "ks_seq s"] e(2) by (simp add: reader_before_def)
  have 3: "ks_step ?c (reader_after ?c)" by (rule ks_step.after[of _ "ks_seq s" "ks_words s"]) (use e(2) in \<open>simp_all add: reader_before_def\<close>)
  have "ks_seq s AND 1 = 0" using test_bit_and(2)[of 0 "ks_seq s"] even_word_of_nat[of "ks_count s"] e(1) unfolding e(3) by simp
  then have "reader_after ?c = s\<lparr>ks_reader := R_DONE (ks_words s), ks_since := ks_count s\<rparr>"
    using e(2) by (simp add: reader_after_def reader_before_def Let_def)
  then show ?thesis using 1 2 3 by (metis (no_types, lifting) converse_rtranclp_into_rtranclp rtranclp.rtrancl_into_rtrancl)
qed

section \<open>Properties\<close>

text \<open>Property C1: a snapshot is one state of the keypad.  However the loads of a reader are interleaved with the
  stores of the writer, a copy that the reader keeps is the state that was published when it read the sequence first,
  never half of one edge and half of the next; in it every key has one press more than releases while it is held and
  as many while it is not.\<close>

theorem keystate_snapshot_consistent:
  assumes "ks_step\<^sup>*\<^sup>* ks_init s" "ks_reader s = R_DONE c"
  shows "even (ks_since s) \<and> ks_since s div 2 < length (ks_published s) \<and> c = ks_published s ! (ks_since s div 2) \<and>
    (\<forall>i < KEYSTATE_KEYS. sn_presses (decode c) ! i = sn_releases (decode c) ! i + (if keystate_bit (sn_held (decode c)) i then 1 else 0))"
proof -
  have i: "ks_inv s" using keys.rtrancl_inv[OF assms(1) ks_init_inv] .
  then have r: "even (ks_since s)" "ks_since s div 2 < length (ks_published s)" "c = ks_published s ! (ks_since s div 2)"
    using assms(2) by (simp_all add: ks_inv_def reader_inv_def)
  then have "words_ok c" using i by (simp add: ks_inv_def writer_inv_def)
  then have a: "press_at c k = release_at c k + (if held_at c k then 1 else 0)" if "k < KEYSTATE_KEYS" for k
    using that by (auto simp: words_ok_def pad_even_def pad_of_def dest: spec[of _ k])
  have "sn_presses (decode c) ! k = sn_releases (decode c) ! k + (if keystate_bit (sn_held (decode c)) k then 1 else 0)" if k: "k < KEYSTATE_KEYS" for k
  proof -
    have d: "k div 32 < 2" using k by (simp add: w_defs less_mult_imp_div_less)
    then have "keystate_bit (sn_held (decode c)) k = held_at c k"
      by (simp add: keystate_bit_def decode_def held_at_def test_bit_and(2) KEYSTATE_WORDS_def W_HELD_def)
    moreover have "sn_presses (decode c) ! k = press_at c k" "sn_releases (decode c) ! k = release_at c k"
      using k by (simp_all add: decode_def press_at_def release_at_def lane_def w_defs)
    ultimately show ?thesis using a[OF k] by simp
  qed
  then show ?thesis using r by blast
qed

text \<open>A call of the writer, run without interruption.\<close>

lemma window_run:
  "ks_window s = Some ps \<Longrightarrow> ks_step\<^sup>*\<^sup>* s (s\<lparr>ks_words := ks_puts (ks_words s) ps, ks_window := Some []\<rparr>)"
proof (induction ps arbitrary: s)
  case Nil
  then have "s\<lparr>ks_words := ks_puts (ks_words s) [], ks_window := Some []\<rparr> = s" by (cases s) (simp add: ks_puts_simps)
  then show ?case by simp
next
  case (Cons p ps)
  let ?t = "writer_store s"
  have t: "?t = s\<lparr>ks_words := ks_put (ks_words s) p, ks_window := Some ps\<rparr>" using Cons.prems by (simp add: writer_store_def)
  have "ks_step s ?t" by (rule store[OF Cons.prems])
  moreover have "ks_step\<^sup>*\<^sup>* ?t (?t\<lparr>ks_words := ks_puts (ks_words ?t) ps, ks_window := Some []\<rparr>)" by (rule Cons.IH) (simp add: t)
  ultimately show ?case by (simp add: t ks_puts_simps converse_rtranclp_into_rtranclp)
qed

lemma call_run:
  assumes "ks_window s = None" "call_stores call (ks_words s) = Some ps"
  shows "ks_step\<^sup>*\<^sup>* s (s\<lparr>ks_seq := ks_seq s + 2, ks_count := ks_count s + 2, ks_words := ks_puts (ks_words s) ps,
    ks_published := ks_published s @ [ks_puts (ks_words s) ps]\<rparr>)"
proof -
  let ?b = "writer_begin ps s"
  let ?t = "?b\<lparr>ks_words := ks_puts (ks_words ?b) ps, ks_window := Some []\<rparr>"
  have 1: "ks_step s ?b" by (rule begin_window[OF assms])
  have 2: "ks_step\<^sup>*\<^sup>* ?b ?t" by (rule window_run) (simp add: writer_begin_def)
  have 3: "ks_step ?t (writer_end ?t)" by (rule end_window) simp
  have "writer_end ?t = s\<lparr>ks_seq := ks_seq s + 2, ks_count := ks_count s + 2, ks_words := ks_puts (ks_words s) ps,
    ks_published := ks_published s @ [ks_puts (ks_words s) ps]\<rparr>"
    using assms(1) by (cases s) (simp add: writer_end_def writer_begin_def)
  then show ?thesis using 1 2 3 by (metis (no_types, lifting) converse_rtranclp_into_rtranclp rtranclp.rtrancl_into_rtrancl)
qed

lemma keystate_snapshot_consistent_witness:
  "\<exists>s c. ks_step\<^sup>*\<^sup>* ks_init s \<and> ks_reader s = R_DONE c \<and> sn_held (decode c) = [1, 0] \<and> sn_presses (decode c) ! 0 = sn_releases (decode c) ! 0 + 1"
proof -
  let ?ps = "[(0, 1), (2, 1), (30, 1)] :: store list"
  have e: "edge 0 True (replicate W_TOTAL 0) = ?ps"
    by (simp add: edge_def bump_def key_bit_def ks_put_def Let_def w_defs)
  have b: "call_stores (KS_APPLY 0 0 True) (ks_words ks_init) = Some ?ps"
    unfolding e[symmetric] by (simp add: keystate_apply_def ks_init_def w_defs Let_def)
  let ?c = "ks_puts (ks_words ks_init) ?ps"
  let ?t = "ks_init\<lparr>ks_seq := ks_seq ks_init + 2, ks_count := ks_count ks_init + 2, ks_words := ?c, ks_published := ks_published ks_init @ [?c]\<rparr>"
  let ?s = "?t\<lparr>ks_reader := R_DONE (ks_words ?t), ks_since := ks_count ?t\<rparr>"
  have 1: "ks_step\<^sup>*\<^sup>* ks_init ?t" by (rule call_run[OF _ b]) (simp add: ks_init_def)
  have i: "ks_inv ?t" by (rule keys.rtrancl_inv[OF 1 ks_init_inv])
  have 2: "ks_step\<^sup>*\<^sup>* ?t ?s" by (rule snapshot_run[OF i]) (simp_all add: ks_init_def)
  have 3: "ks_step\<^sup>*\<^sup>* ks_init ?s" by (rule rtranclp_trans[OF 1 2])
  have r: "ks_reader ?s = R_DONE ?c" by simp
  have h: "sn_held (decode ?c) = [1, 0]" by (simp add: decode_def ks_puts_def ks_put_def ks_init_def w_defs) (simp add: numeral_2_eq_2)
  have "sn_presses (decode ?c) ! 0 = sn_releases (decode ?c) ! 0 + (if keystate_bit (sn_held (decode ?c)) 0 then 1 else 0)"
    using keystate_snapshot_consistent[OF 3 r] by (simp add: KEYSTATE_KEYS_def)
  then have "sn_presses (decode ?c) ! 0 = sn_releases (decode ?c) ! 0 + 1" unfolding h by (simp add: keystate_bit_def)
  then show ?thesis using 3 r h by blast
qed

text \<open>Property C40: the words stand for a keypad.  A call of the writer does to the words exactly what it says of the
  keys: a key on the pad that is not yet in the reported position has one counted edge, an overflow releases every key
  that is down with a counted edge and is counted itself, and a duplicate or a cell outside the pad changes
  nothing.\<close>

theorem keystate_refines_pad:
  assumes "length ws = W_TOTAL"
  shows "pad_of (case call_stores call ws of None \<Rightarrow> ws | Some ps \<Rightarrow> ks_puts ws ps) = pad_call call (pad_of ws)"
  by (rule call_pad[OF assms])

lemma keystate_refines_pad_witness:
  "length (replicate W_TOTAL (0 :: u32)) = W_TOTAL \<and>
   pd_press (pad_of (case call_stores (KS_APPLY 1 2 True) (replicate W_TOTAL 0) of None \<Rightarrow> replicate W_TOTAL 0 | Some ps \<Rightarrow> ks_puts (replicate W_TOTAL 0) ps)) 16 = 1"
  using keystate_refines_pad[of "replicate W_TOTAL 0" "KS_APPLY 1 2 True"]
  by (simp add: Let_def pad_edge_def) (simp add: pad_of_def held_at_def press_at_def lane_def w_defs)

end
