(* ===== verification/Spec2Isabelle.thy ===== *)
theory Spec2Isabelle
  imports SysDevice BlockCache FpTicket SkkSession WireFrame NetAutosync SdMedia TextField SrcStore KeyState
begin

text \<open>
  Verification of the Cardputer firmware: its system services, its memory managers, its keypad, its text
  input with the Japanese engine, its storage of edited sources and of the SD card, and the channels by which a
  PC and the network reach it.

  THE PROGRAM.  The firmware runs one JavaScript guest at a time on a two-core microcontroller.  One
  owner task (main/main.c) draws, steps the system services once a turn and waits until the earliest
  deadline of any of them.  Other tasks only hand it data: the USB input task parses framed bytes,
  a worker task syncs the clock over Wi-Fi, the audio tasks reserve floating-point time.  The guest
  allocates through a small-block cache over the Shiki heap or the platform heap.  The keypad task publishes
  which keys are down for readers on both cores.  The screens offer every key to the input session first, which
  passes it to the Japanese engine, which looks words up in dictionary images in flash; what the session does
  not take goes to the text field.  Edited sources are kept in alternating faces of a flash partition; files on
  the SD card are read by worker tasks under leases that the owner task grants and takes back.

  THE THEORIES, in the order of their dependence, with the sources they model under src/.

  Prelude: machine words, the walk over a fixed table (first_slot), tables with at most one live record
  per identity, and the locales: event_machine and started_machine (an invariant of one step holds in
  every reachable state), step_system (the same for a step relation), allocator (what a client of
  a heap relies on).  Every component has an interpretation of these on its own definitions.

  Notify: main/system/sys_notify.c, the store of nine notifications, at most one active.  Timer:
  sys_timer.c, four one-shot timers that post into a sink (locale notice_sink, interpreted by the
  store).  SysState: sys_state.c, subscriptions with pending topics, the clock anchor that
  is advanced on read, the battery cache.  Wall: sys_wall.c, reminders by epoch or by local
  minute.  SysDevice: sys_device.c, sys_ringer.c, sys_clock.c, the owner's step over all of these and
  its bounded wait.  Lemma groups: reachability invariants of each store and of the owner; a
  step leaves nothing to do at its instant and a deadline strictly in the future (no spinning);
  first in first out; nothing is lost or posted twice between timers, reminders and store; a
  publication reaches its subscriber and a released handle stays stale.

  ShikiHeap: main/pocket/shiki_heap.c, the heap of zeroed words below a table of 128 blocks.
  BlockCache: components/pocketjs_guest/src/block_cache.c, free lists of eight sizes threaded
  through the blocks, over any heap with the allocator contract (interpreted on the Shiki heap).
  Lemma groups: disjoint, sorted, zeroed blocks in every reachable state; exact answers of an
  allocation; the reclaim loop ends; the cache never hands out a live block and leaks none.

  FpTicket: standalone/fp_ticket/fp_ticket.c, admission of floating-point tasks.  Lemma groups: the
  loads stay within the capacities; exact acquisition, on the least loaded core that fits;
  released identities are never valid again.

  SkkUtf8, SkkOrder, SkkDict: components/skk_core/skk_dict.c and the text layer of skk_kana.c: decoding and
  encoding, the checksum, the collation order, the sampled search tree, opening an image,
  lookup, completion, building and verifying an index.  SkkRomaji, SkkKana: the rest of skk_kana.c: the
  romaji table, the session with its buffers, spans, candidates and key dispatch.  SkkStatus: what the status
  word of a key promises.  ImeCore: components/ime_core/ime_core.c, the session policy over the engine.
  SkkSession: main/text/skk_session.c, the one session of the device.  Lemma groups:
  round trips; the fast checksum, the packed comparison and the search tree each equal their
  reference; lookup in a verified index finds exactly the entry; candidates and images are never read
  out of bounds; the spans partition the preedit; the romaji loop ends in two passes; every visible change
  has its status bit and its view bit; what leaves the session is exactly what the engine committed.

  TextUtf8: main/text/utf8.h, lax decoding and strict validation (exactly the encodings of scalar values).
  TextField: main/text/textfield.c, the line buffer with its cursor, refining a pair of lists of characters.
  SrcStore: main/text/srcstore.c, records in two alternating faces and the parked draft.  Lemma groups: the
  buffer holds well-formed text and the cursor stands between characters after any keys; what was saved is
  loaded; a power cut at any point of a save leaves the old text or the new one.

  SdPath: main/pocket/sd_path.c, the volume, the grant, the path rules and the clock ladder.  SdLease:
  sd_lease.c, the registry as a chain of tokens in a store.  SdMedia: sd_media.c, mounting, removal, the reads of
  the workers, and the step relation of the owner and its workers.  Lemma groups: a path that is built stays
  in the granted folder; no step takes the card from under an unacknowledged worker; a fault reaches every
  lease; a removed card is unmounted once its workers acknowledge; reads stay in the file.

  KeyState: main/hal/keystate.c, the sequence lock with the writer cut into its stores and the reader
  into its loads.  Lemma groups: a snapshot is one published state; the words refine the abstract keypad.

  AppControl: main/pocket/app_control.c, sessions, leases and receipts of the remote control; its hooks
  into the shell are a parameter over an arbitrary world.  WireFrame: the byte transport of
  main/pocket/pocket_bridge.c and pocket_wire.h, joined to AppControl, which it feeds.
  NetService: main/pocket/net_service.c, the counted Wi-Fi link as a bag of holder names.
  NetAutosync: main/pocket/net_autosync.c, the policy, one attempt and the runtime of the clock
  sync.  Lemma groups: reachability invariants with producers and consumers interleaved; a command
  takes effect at most once and only under its lease; what the writer writes the parser
  reads from any state; one turn of the owner serves exactly the queue; an attempt ends
  and gives the link back.

  HOW STATE AND CONTROL ARE MODELLED.  A struct is a record with the fields of the source, file-scope
  variables are fields of the component's record, and every operation takes the state and
  returns it.  Integers keep their width as words where wrapping or signedness matters; counters
  that the code bounds are naturals, and the milliseconds of the clock sync, which an int64_t
  holds for any uptime, are integers.  Errors are result values.  Hardware readings, hooks and
  library calls are arguments, and theorems hold for all of them; where a theorem needs something of
  them (a clock that does not run backwards, a heap that keeps its contract) it is a named
  hypothesis with a witness.  Tasks that share state are interleaved in steps cut where the
  code publishes or takes (atomic stores, queue heads, mutex sections).

  BOUNDS.  Loops over fixed tables are recursion over their index lists.  The romaji loop has a fuel
  of three passes, of which two are proved enough.  The loops of a clock sync are partial functions; that
  they return is proved from the clock hypothesis, not assumed.  The USB reader drains at most 995
  bytes per call, as the code does.  The loops over the leases follow pointers and may fail to end in an arbitrary
  store; that they end in every reachable one is proved.  The sequence number of the key state wraps at 32 bits;
  a reader's copy is assumed to see fewer than that many windows.

  WHAT IS NOT MODELLED, AND WHY.  The vendored JavaScript engine and the decoders (third party); the
  guest bindings (pocket_fs, pocket_net, pocket_io, pocket_av and the like), which are calls between that
  engine and drivers; drivers and board support; drawing (Kasane, scenes, the shell's screens),
  where only pixels would be specified; the pixel compiler; host tools and tests.  In the modelled
  files, log lines and formatting of log lines are left out.  Of pocket_bridge.c the
  transport is modelled and the JavaScript session over it is not.

  POSSIBLE EXTENSIONS.  The pet hub (main/pet/pet_hub_core.c) over the services above, the colouring lexer
  (main/text/jslex.c), the damage cache of the renderer (ksn_cache.c), the rings of the audio feeds (mp3_feed.c,
  opus_feed.c), and the path checks of the guest file API (pocket_fs.c).
\<close>

end
